(* ===== verification/Prelude.thy ===== *)
theory Prelude
  imports Main "HOL-Library.Word" "HOL-Library.Monad_Syntax"
begin

text \<open>
  What every component theory shares.

  \<^item> \<open>errno\<close>: the error codes of \<^verbatim>\<open>src/src/kern/include/kern/errno.h\<close>; \<open>EOK\<close> is the C
    result 0, and \<open>errno_code\<close> gives the C numbers.
  \<^item> \<open>'a kern\<close>: the result of a kernel computation. \<open>None\<close> means that the machine does not go
    on: a failed \<^verbatim>\<open>assert\<close>, a \<^verbatim>\<open>panic\<close>, or a step C gives no meaning to (an out-of-range or
    uninitialised read, a use of freed memory). Error codes are ordinary values, so every early
    return of the source is a branch of the model.
  \<^item> C integers: \<open>s32\<close> is the wrap-around of a signed 32-bit result; unsigned values are words.
  \<^item> Memory blocks: a list of cells, \<open>None\<close> for a cell that was never written. \<open>rd\<close>, \<open>wr\<close> and
    \<open>move_cells\<close> are indexed reads, writes and \<^verbatim>\<open>memmove\<close> with the range check C leaves out.
  \<^item> Allocation: \<open>kmalloc_ok\<close>. Whether \<^verbatim>\<open>kmalloc\<close> finds room at a given moment is a boolean
    argument of the operation; no request beyond the RAM cap of \<^verbatim>\<open>ram_bootstrap\<close> ever succeeds.
\<close>

unbundle bit_operations_syntax

named_theorems kern_simps \<open>unfolding of the kernel computation combinators\<close>
named_theorems inv_intros \<open>preservation of component invariants\<close>
named_theorems abs_simps \<open>what an operation does to the abstract value of a component\<close>

section \<open>Error codes and kernel computations\<close>

datatype errno =
    EOK | EINVAL | EFAULT | ENAMETOOLONG | ENOMEM | EIO | ENOENT | ENOTDIR | EISDIR | EEXIST
  | EXDEV | EAGAIN | ESPIPE | EUNIMP | ENXIO | ENODEV | EBUSY | EIOCTL | ENOTEMPTY | ERANGE
  | ENOSPC | EMFILE | ENFILE | ENOSYS | ENOEXEC | E2BIG | EBADF

fun errno_code :: "errno \<Rightarrow> int" where
  "errno_code EOK = 0" | "errno_code EINVAL = 1" | "errno_code EFAULT = 2"
| "errno_code ENAMETOOLONG = 3" | "errno_code ENOMEM = 4" | "errno_code EIO = 5"
| "errno_code ENOENT = 6" | "errno_code ENOTDIR = 7" | "errno_code EISDIR = 8"
| "errno_code EEXIST = 9" | "errno_code EXDEV = 10" | "errno_code EAGAIN = 11"
| "errno_code ESPIPE = 12" | "errno_code EUNIMP = 13" | "errno_code ENXIO = 14"
| "errno_code ENODEV = 15" | "errno_code EBUSY = 16" | "errno_code EIOCTL = 17"
| "errno_code ENOTEMPTY = 18" | "errno_code ERANGE = 19" | "errno_code ENOSPC = 20"
| "errno_code EMFILE = 21" | "errno_code ENFILE = 22" | "errno_code ENOSYS = 23"
| "errno_code ENOEXEC = 24" | "errno_code E2BIG = 25" | "errno_code EBADF = 26"

lemma errno_code_zero [simp]: "errno_code e = 0 \<longleftrightarrow> e = EOK"
  by (cases e) simp_all

lemma errno_code_inj: "errno_code e = errno_code e' \<Longrightarrow> e = e'"
  by (cases e; cases e'; simp)

type_synonym 'a kern = "'a option"

text \<open>The \<^verbatim>\<open>assert\<close> macro of \<^verbatim>\<open>lib.h\<close>: a false condition panics.\<close>

definition kassert :: "bool \<Rightarrow> unit kern" where
  "kassert b = (if b then Some () else None)"

lemma kassert_simps [simp]: "kassert True = Some ()" "kassert False = None"
  by (simp_all add: kassert_def)

lemma kassert_Some_iff [simp]: "kassert b = Some u \<longleftrightarrow> b"
  by (simp add: kassert_def)

lemma bind_kassert_Some [kern_simps]: "(kassert b \<bind> f = Some r) \<longleftrightarrow> b \<and> f () = Some r"
  by (simp add: kassert_def)

lemma bind_kassert_True [simp]: "b \<Longrightarrow> kassert b \<bind> f = f ()"
  by (simp add: kassert_def)

lemma bind_eq_Some [kern_simps]: "(m \<bind> f = Some r) \<longleftrightarrow> (\<exists>x. m = Some x \<and> f x = Some r)"
  by (cases m) simp_all

text \<open>For long computations: taken apart from the front, one step at a time.\<close>

lemma bindE: "m \<bind> f = Some r \<Longrightarrow> (\<And>x. m = Some x \<Longrightarrow> f x = Some r \<Longrightarrow> P) \<Longrightarrow> P"
  by (cases m) simp_all

text \<open>A \<^verbatim>\<open>for\<close> loop over a fixed range whose body may panic.\<close>

fun kfold :: "('s \<Rightarrow> 'x \<Rightarrow> 's kern) \<Rightarrow> 's \<Rightarrow> 'x list \<Rightarrow> 's kern" where
  "kfold f s [] = Some s"
| "kfold f s (x # xs) = do { s' \<leftarrow> f s x; kfold f s' xs }"

lemma kfold_append: "kfold f s (xs @ ys) = do { s' \<leftarrow> kfold f s xs; kfold f s' ys }"
  by (induction xs arbitrary: s) (simp_all add: bind_assoc split: Option.bind_splits)

lemma kfold_inv:
  assumes "kfold f s xs = Some s'" and "P s"
    and "\<And>x s s'. x \<in> set xs \<Longrightarrow> P s \<Longrightarrow> f s x = Some s' \<Longrightarrow> P s'"
  shows "P s'"
  using assms
proof (induction xs arbitrary: s)
  case Nil
  then show ?case by simp
next
  case (Cons x xs)
  from Cons.prems(1) obtain s1 where s1: "f s x = Some s1" "kfold f s1 xs = Some s'"
    by (auto simp: bind_eq_Some)
  have "P s1" by (rule Cons.prems(3) [OF _ Cons.prems(2) s1(1)]) simp
  from Cons.IH [OF s1(2) this] Cons.prems(3) show ?case by (meson list.set_intros(2))
qed

section \<open>C integers\<close>

type_synonym u8 = "8 word"
type_synonym u16 = "16 word"
type_synonym u32 = "32 word"

definition s32 :: "int \<Rightarrow> int" where
  "s32 x = signed_take_bit 31 x"

lemma s32_id: "- (2 ^ 31) \<le> x \<Longrightarrow> x < 2 ^ 31 \<Longrightarrow> s32 x = x"
  by (simp add: s32_def signed_take_bit_int_eq_self)

lemma s32_range: "- (2 ^ 31) \<le> s32 x \<and> s32 x < 2 ^ 31"
  unfolding s32_def
  using signed_take_bit_int_greater_eq_minus_exp [of 31 x] signed_take_bit_int_less_exp [of 31 x]
  by (rule conjI)

lemma s32_add: "s32 (s32 a + b) = s32 (a + b)"
  unfolding s32_def using signed_take_bit_add [of 31 "signed_take_bit 31 a" b] signed_take_bit_add [of 31 a b] by simp

lemma unat_u32_less: "unat (w :: u32) < 2 ^ 32" "unat (w :: u32) < 4294967296"
  using unsigned_less [where 'a = nat and w = w] by simp_all

lemma unat_u16_less: "unat (w :: u16) < 65536"
  using unsigned_less [where 'a = nat and w = w] by simp

lemma unat_u8_less: "unat (w :: u8) < 256"
  using unsigned_less [where 'a = nat and w = w] by simp

text \<open>Subtraction of two \<^verbatim>\<open>size_t\<close>.\<close>

definition size_sub :: "nat \<Rightarrow> nat \<Rightarrow> nat" where
  "size_sub a b = (a + 2 ^ 32 - b) mod 2 ^ 32"

lemma size_sub_le [simp]: "b \<le> a \<Longrightarrow> a < 2 ^ 32 \<Longrightarrow> size_sub a b = a - b"
proof -
  assume h: "b \<le> a" "a < 2 ^ 32"
  then have e: "a + 2 ^ 32 - b = (a - b) + 2 ^ 32" by simp
  have "a - b < 2 ^ 32" using h by simp
  then show ?thesis unfolding size_sub_def e by (simp only: mod_add_self2 mod_less)
qed

text \<open>C division and remainder of signed values: they truncate towards zero.\<close>

definition cdiv :: "int \<Rightarrow> int \<Rightarrow> int" where
  "cdiv a b = sgn a * sgn b * (\<bar>a\<bar> div \<bar>b\<bar>)"

definition cmod :: "int \<Rightarrow> int \<Rightarrow> int" where
  "cmod a b = a - cdiv a b * b"

lemma cdiv_pos: "0 \<le> a \<Longrightarrow> 0 < b \<Longrightarrow> cdiv a b = a div b"
  by (cases "a = 0") (simp_all add: cdiv_def)

lemma cmod_pos: "0 \<le> a \<Longrightarrow> 0 < b \<Longrightarrow> cmod a b = a mod b"
  by (simp add: cmod_def cdiv_pos minus_div_mult_eq_mod)

section \<open>Memory blocks\<close>

definition rd :: "'a option list \<Rightarrow> int \<Rightarrow> 'a kern" where
  "rd v i = (if 0 \<le> i \<and> i < int (length v) then v ! nat i else None)"

definition wr :: "'a option list \<Rightarrow> int \<Rightarrow> 'a \<Rightarrow> 'a option list kern" where
  "wr v i x = (if 0 \<le> i \<and> i < int (length v) then Some (v[nat i := Some x]) else None)"

text \<open>\<^verbatim>\<open>memmove\<close> of \<open>n\<close> cells from index \<open>s\<close> of \<open>src\<close> to index \<open>d\<close> of \<open>dst\<close>.\<close>

definition move_cells :: "'a list \<Rightarrow> int \<Rightarrow> 'a list \<Rightarrow> int \<Rightarrow> int \<Rightarrow> 'a list kern" where
  "move_cells dst d src s n =
     (if n \<le> 0 then (if n = 0 then Some dst else None)
      else if 0 \<le> d \<and> d + n \<le> int (length dst) \<and> 0 \<le> s \<and> s + n \<le> int (length src)
      then Some (take (nat d) dst @ take (nat n) (drop (nat s) src) @ drop (nat (d + n)) dst)
      else None)"

lemma rd_in_range: "0 \<le> i \<Longrightarrow> i < int (length v) \<Longrightarrow> rd v i = v ! nat i"
  by (simp add: rd_def)

lemma wr_in_range: "0 \<le> i \<Longrightarrow> i < int (length v) \<Longrightarrow> wr v i x = Some (v[nat i := Some x])"
  by (simp add: wr_def)

lemma wr_length: "wr v i x = Some v' \<Longrightarrow> length v' = length v"
  by (auto simp: wr_def split: if_splits)

lemma move_cells_length: "move_cells dst d src s n = Some r \<Longrightarrow> length r = length dst"
  by (auto simp: move_cells_def split: if_splits)

section \<open>Allocation\<close>

definition RAM_MAX :: int where
  "RAM_MAX = 508 * 1024 * 1024"

definition kmalloc_ok :: "bool \<Rightarrow> int \<Rightarrow> bool" where
  "kmalloc_ok km n \<longleftrightarrow> km \<and> n mod 2 ^ 32 \<le> RAM_MAX"

text \<open>A block of \<open>n\<close> pointers: \<^verbatim>\<open>kmalloc(n * sizeof(void *))\<close>, the product taken in \<^verbatim>\<open>size_t\<close>.\<close>

definition ptr_array :: "int \<Rightarrow> 'a option list" where
  "ptr_array n = replicate (nat ((n * 4) mod 2 ^ 32 div 4)) None"

lemma length_ptr_array: "0 \<le> n \<Longrightarrow> n < 2 ^ 30 \<Longrightarrow> length (ptr_array n) = nat n"
  by (simp add: ptr_array_def)

lemma kmalloc_ok_ptrs:
  "0 \<le> n \<Longrightarrow> n < 2 ^ 30 \<Longrightarrow> kmalloc_ok km (n * 4) \<Longrightarrow> n < 2 ^ 27"
  by (simp add: kmalloc_ok_def RAM_MAX_def)

end
