(* ===== verification/Contracts.thy ===== *)
theory Contracts
  imports Prelude
begin

text \<open>
  The contracts between the kernel's library components and their clients.

  \<^item> \<open>fifo\<close>: what the scheduler relies on in \<^verbatim>\<open>queue.c\<close>. Interpreted in \<open>Kqueue\<close>.
  \<^item> \<open>dynarray\<close>: what the thread system, the process table, the VFS device list and SFS rely on in
    \<^verbatim>\<open>array.c\<close>. Interpreted in \<open>Karray\<close>.
  \<^item> \<open>bit_allocator\<close>: what SFS relies on in \<^verbatim>\<open>bitmap.c\<close>. Interpreted in \<open>Kbitmap\<close>.

  Each fixes an invariant, an abstraction and the operations, and assumes the laws; the lemmas below
  are proved once from the laws and used through the interpretations.
\<close>

section \<open>A FIFO queue that may have to allocate\<close>

locale fifo =
  fixes inv :: "'q \<Rightarrow> bool"
    and lst :: "'q \<Rightarrow> 'a list"
    and cap :: "'q \<Rightarrow> nat"
    and add :: "bool \<Rightarrow> 'q \<Rightarrow> 'a \<Rightarrow> (errno \<times> 'q) kern"
    and rem :: "'q \<Rightarrow> ('a \<times> 'q) kern"
    and emp :: "'q \<Rightarrow> bool"
  assumes add_total: "inv q \<Longrightarrow> \<exists>e q'. add km q x = Some (e, q') \<and> (e = EOK \<or> e = ENOMEM)"
    and add_EOK: "inv q \<Longrightarrow> add km q x = Some (EOK, q') \<Longrightarrow>
      inv q' \<and> lst q' = lst q @ [x] \<and> cap q \<le> cap q'"
    and add_ENOMEM: "inv q \<Longrightarrow> add km q x = Some (ENOMEM, q') \<Longrightarrow> q' = q"
    and add_room: "inv q \<Longrightarrow> length (lst q) < cap q \<Longrightarrow>
      \<exists>q'. add km q x = Some (EOK, q') \<and> cap q' = cap q"
    and rem_head: "inv q \<Longrightarrow> lst q = y # ys \<Longrightarrow>
      \<exists>q'. rem q = Some (y, q') \<and> inv q' \<and> lst q' = ys \<and> cap q' = cap q"
    and rem_empty: "inv q \<Longrightarrow> lst q = [] \<Longrightarrow> rem q = None"
    and emp_iff: "inv q \<Longrightarrow> emp q \<longleftrightarrow> lst q = []"
begin

fun add_all :: "bool \<Rightarrow> 'q \<Rightarrow> 'a list \<Rightarrow> 'q kern" where
  "add_all km q [] = Some q"
| "add_all km q (x # xs) =
     (case add km q x of Some (EOK, q') \<Rightarrow> add_all km q' xs | _ \<Rightarrow> None)"

fun rem_all :: "nat \<Rightarrow> 'q \<Rightarrow> ('a list \<times> 'q) kern" where
  "rem_all 0 q = Some ([], q)"
| "rem_all (Suc n) q =
     (case rem q of None \<Rightarrow> None
      | Some (y, q') \<Rightarrow> map_option (\<lambda>(ys, r). (y # ys, r)) (rem_all n q'))"

text \<open>As many elements as there are free slots go in without an allocation.\<close>

lemma add_all_room:
  "inv q \<Longrightarrow> length (lst q) + length xs \<le> cap q \<Longrightarrow>
   \<exists>q'. add_all km q xs = Some q' \<and> inv q' \<and> lst q' = lst q @ xs \<and> cap q' = cap q"
proof (induction xs arbitrary: q)
  case Nil
  then show ?case by simp
next
  case (Cons x xs)
  then have "length (lst q) < cap q" by simp
  with Cons.prems(1) obtain q1 where q1: "add km q x = Some (EOK, q1)" "cap q1 = cap q"
    using add_room by blast
  with Cons.prems(1) have i: "inv q1" "lst q1 = lst q @ [x]"
    by (simp_all add: add_EOK)
  with Cons.prems(2) q1 have "length (lst q1) + length xs \<le> cap q1" by simp
  with Cons.IH i(1) obtain q' where
    "add_all km q1 xs = Some q'" "inv q'" "lst q' = lst q1 @ xs" "cap q' = cap q1"
    by blast
  with q1 i show ?case by simp
qed

text \<open>Elements leave in the order they came.\<close>

lemma rem_all_order:
  "inv q \<Longrightarrow> lst q = xs @ ys \<Longrightarrow>
   \<exists>q'. rem_all (length xs) q = Some (xs, q') \<and> inv q' \<and> lst q' = ys"
proof (induction xs arbitrary: q)
  case Nil
  then show ?case by simp
next
  case (Cons x xs)
  then have "lst q = x # (xs @ ys)" by simp
  with Cons.prems(1) obtain q1 where q1: "rem q = Some (x, q1)" "inv q1" "lst q1 = xs @ ys"
    using rem_head by blast
  with Cons.IH obtain q' where "rem_all (length xs) q1 = Some (xs, q')" "inv q'" "lst q' = ys"
    by blast
  with q1 show ?case by simp
qed

lemma rem_total:
  assumes "inv q" and "\<not> emp q"
  shows "\<exists>y q'. rem q = Some (y, q') \<and> lst q = y # lst q' \<and> inv q'"
proof -
  from assms obtain y ys where l: "lst q = y # ys"
    by (cases "lst q") (simp_all add: emp_iff)
  with rem_head [OF assms(1)] show ?thesis by fastforce
qed

lemma rem_Some:
  assumes "inv q" and "rem q = Some (y, q')"
  shows "lst q = y # lst q' \<and> inv q' \<and> cap q' = cap q"
proof (cases "lst q")
  case Nil
  with assms show ?thesis by (simp add: rem_empty)
next
  case (Cons z zs)
  with rem_head [OF assms(1) Cons] assms(2) show ?thesis by auto
qed

end

section \<open>A resizable array\<close>

locale dynarray =
  fixes inv :: "'r \<Rightarrow> bool"
    and lst :: "'r \<Rightarrow> 'a list"
    and cap :: "'r \<Rightarrow> nat"
    and num :: "'r \<Rightarrow> int"
    and get :: "'r \<Rightarrow> int \<Rightarrow> 'a kern"
    and put :: "'r \<Rightarrow> int \<Rightarrow> 'a \<Rightarrow> 'r kern"
    and add :: "bool \<Rightarrow> 'r \<Rightarrow> 'a \<Rightarrow> (errno \<times> 'r) kern"
    and del :: "'r \<Rightarrow> int \<Rightarrow> 'r kern"
  assumes num_length: "inv r \<Longrightarrow> num r = int (length (lst r))"
    and get_nth: "inv r \<Longrightarrow> k < length (lst r) \<Longrightarrow> get r (int k) = Some (lst r ! k)"
    and get_range: "inv r \<Longrightarrow> i < 0 \<or> num r \<le> i \<Longrightarrow> get r i = None"
    and put_nth: "inv r \<Longrightarrow> k < length (lst r) \<Longrightarrow>
      \<exists>r'. put r (int k) x = Some r' \<and> inv r' \<and> lst r' = (lst r)[k := x] \<and> cap r' = cap r"
    and add_cases: "inv r \<Longrightarrow>
      (\<exists>r'. add km r x = Some (EOK, r') \<and> inv r' \<and> lst r' = lst r @ [x] \<and> cap r \<le> cap r') \<or>
      add km r x = Some (ENOMEM, r)"
    and add_room: "inv r \<Longrightarrow> length (lst r) < cap r \<Longrightarrow>
      \<exists>r'. add km r x = Some (EOK, r') \<and> inv r' \<and> lst r' = lst r @ [x] \<and> cap r' = cap r"
    and del_nth: "inv r \<Longrightarrow> k < length (lst r) \<Longrightarrow>
      \<exists>r'. del r (int k) = Some r' \<and> inv r' \<and> lst r' = take k (lst r) @ drop (Suc k) (lst r) \<and> cap r' = cap r"
begin

lemma get_add:
  assumes "inv r" and "add km r x = Some (EOK, r')"
  shows "get r' (num r) = Some x \<and> (\<forall>k < length (lst r). get r' (int k) = get r (int k))"
proof -
  have r': "inv r'" "lst r' = lst r @ [x]"
    using add_cases [OF assms(1), of km x] assms(2) by auto
  have "get r' (int (length (lst r))) = Some x"
    using get_nth [OF r'(1), of "length (lst r)"] r'(2) by simp
  moreover have "get r' (int k) = get r (int k)" if "k < length (lst r)" for k
    using get_nth [OF r'(1), of k] get_nth [OF assms(1) that] that r'(2) by (simp add: nth_append)
  ultimately show ?thesis using num_length [OF assms(1)] by simp
qed

lemma add_Some:
  assumes "inv r" and "add km r x = Some (e, r')"
  shows "inv r' \<and> (e = EOK \<and> lst r' = lst r @ [x] \<or> e = ENOMEM \<and> r' = r)"
  using add_cases [OF assms(1), of km x] assms by auto

lemma del_Some:
  assumes "inv r" and "del r (int k) = Some r'" and "k < length (lst r)"
  shows "inv r' \<and> lst r' = take k (lst r) @ drop (Suc k) (lst r) \<and> cap r' = cap r"
  using del_nth [OF assms(1,3)] assms(2) by auto

end

section \<open>An allocator of bits\<close>

locale bit_allocator =
  fixes inv :: "'b \<Rightarrow> bool"
    and bits :: "'b \<Rightarrow> bool list"
    and alloc :: "'b \<Rightarrow> (errno \<times> u32 \<times> 'b) kern"
    and mark :: "'b \<Rightarrow> u32 \<Rightarrow> 'b kern"
    and unmark :: "'b \<Rightarrow> u32 \<Rightarrow> 'b kern"
    and isset :: "'b \<Rightarrow> u32 \<Rightarrow> int kern"
  assumes alloc_cases: "inv b \<Longrightarrow>
      (\<exists>i b'. alloc b = Some (EOK, i, b') \<and> unat i < length (bits b) \<and> \<not> bits b ! unat i \<and>
         (\<forall>j<unat i. bits b ! j) \<and> inv b' \<and> bits b' = (bits b)[unat i := True]) \<or>
      alloc b = Some (ENOSPC, 0, b) \<and> (\<forall>j<length (bits b). bits b ! j)"
    and mark_bit: "inv b \<Longrightarrow> unat i < length (bits b) \<Longrightarrow> \<not> bits b ! unat i \<Longrightarrow>
      \<exists>b'. mark b i = Some b' \<and> inv b' \<and> bits b' = (bits b)[unat i := True]"
    and unmark_bit: "inv b \<Longrightarrow> unat i < length (bits b) \<Longrightarrow> bits b ! unat i \<Longrightarrow>
      \<exists>b'. unmark b i = Some b' \<and> inv b' \<and> bits b' = (bits b)[unat i := False]"
    and isset_bit: "inv b \<Longrightarrow> unat i < length (bits b) \<Longrightarrow>
      \<exists>r. isset b i = Some r \<and> (r \<noteq> 0 \<longleftrightarrow> bits b ! unat i)"
begin

definition free :: "'b \<Rightarrow> nat" where
  "free b = length (filter Not (bits b))"

lemma count_update:
  "i < length xs \<Longrightarrow> \<not> xs ! i \<Longrightarrow> Suc (length (filter Not (xs[i := True]))) = length (filter Not xs)"
  by (induction xs arbitrary: i) (auto split: nat.splits simp: nth_Cons')

text \<open>An allocation fails only when nothing is free, and otherwise uses up exactly one free bit.\<close>

lemma alloc_free:
  assumes "inv b"
  shows "(\<exists>i b'. alloc b = Some (EOK, i, b') \<and> inv b' \<and> Suc (free b') = free b) \<or>
    alloc b = Some (ENOSPC, 0, b) \<and> free b = 0"
  using alloc_cases [OF assms]
proof (elim disjE exE conjE)
  fix i b' assume a: "alloc b = Some (EOK, i, b')" "unat i < length (bits b)" "\<not> bits b ! unat i"
    "inv b'" "bits b' = (bits b)[unat i := True]"
  then show ?thesis using count_update [of "unat i" "bits b"] by (simp add: free_def)
next
  assume "alloc b = Some (ENOSPC, 0, b)" "\<forall>j<length (bits b). bits b ! j"
  then show ?thesis by (auto simp: free_def filter_empty_conv in_set_conv_nth)
qed

fun alloc_n :: "nat \<Rightarrow> 'b \<Rightarrow> (u32 list \<times> 'b) kern" where
  "alloc_n 0 b = Some ([], b)"
| "alloc_n (Suc n) b =
     (case alloc b of Some (EOK, i, b') \<Rightarrow> map_option (\<lambda>(is, r). (i # is, r)) (alloc_n n b') | _ \<Rightarrow> None)"

text \<open>Every free bit can be handed out, and no bit is handed out twice.\<close>

lemma alloc_n_distinct:
  "inv b \<Longrightarrow> n \<le> free b \<Longrightarrow>
   \<exists>is b'. alloc_n n b = Some (is, b') \<and> length is = n \<and> inv b' \<and> distinct is \<and>
     (\<forall>i\<in>set is. unat i < length (bits b) \<and> \<not> bits b ! unat i)"
proof (induction n arbitrary: b)
  case 0
  then show ?case by simp
next
  case (Suc n)
  from Suc.prems obtain i b1 where a: "alloc b = Some (EOK, i, b1)" "inv b1" "unat i < length (bits b)"
      "\<not> bits b ! unat i" "bits b1 = (bits b)[unat i := True]"
    using alloc_cases [of b] alloc_free [of b] by auto
  have "n \<le> free b1"
    using count_update [OF a(3,4)] Suc.prems(2) a(5) by (simp add: free_def)
  with Suc.IH [OF a(2)] obtain "is" b' where r: "alloc_n n b1 = Some (is, b')" "length is = n" "inv b'"
      "distinct is" "\<forall>j\<in>set is. unat j < length (bits b1) \<and> \<not> bits b1 ! unat j"
    by blast
  have "unat j < length (bits b) \<and> \<not> bits b ! unat j \<and> j \<noteq> i" if "j \<in> set is" for j
    using r(5) that a(3,5) by (cases "j = i") (auto simp: word_unat_eq_iff nth_list_update)
  with r a show ?case by auto
qed

lemma alloc_n_free:
  "inv b \<Longrightarrow> alloc_n n b = Some (is, b') \<Longrightarrow> inv b' \<and> free b' + n = free b"
proof (induction n arbitrary: b "is")
  case 0
  then show ?case by simp
next
  case (Suc n)
  from alloc_free [OF Suc.prems(1)] show ?case
  proof (elim disjE exE conjE)
    fix i b1 assume a: "alloc b = Some (EOK, i, b1)" "inv b1" "Suc (free b1) = free b"
    with Suc.prems obtain js where "alloc_n n b1 = Some (js, b')" by auto
    from Suc.IH [OF a(2) this] a show ?thesis by simp
  next
    assume "alloc b = Some (ENOSPC, 0, b)"
    with Suc.prems show ?thesis by simp
  qed
qed

end

end
