(* ===== verification/Kqueue.thy ===== *)
theory Kqueue
  imports Contracts
begin

text \<open>
  \<^verbatim>\<open>src/src/kern/lib/queue.c\<close>: the ring-buffer queue of void pointers the scheduler uses.

  The record \<open>queue\<close> is \<^verbatim>\<open>struct queue\<close>; \<open>q_data\<close> is the block \<^verbatim>\<open>data\<close> points to. The C
  \<^verbatim>\<open>%\<close> is only applied to non-negative operands here, where it is \<open>mod\<close>. \<^verbatim>\<open>q_grow\<close> refills
  the new block through \<^verbatim>\<open>q_addtail\<close>; the refill runs on a block larger than the old one and so
  never grows again (\<open>q_grow_rep\<close>). The model of that inner call (\<open>q_refill\<close>) gives \<open>None\<close> where
  it would.

  \<open>q_rep q xs\<close> says that \<open>q\<close> is a well-formed ring that holds \<open>xs\<close>; \<open>q_inv\<close> is its executable
  form over the contents \<open>q_list q\<close>. The \<open>fifo\<close> contract is interpreted as \<open>kq\<close>.
\<close>

section \<open>The code\<close>

record 'a queue =
  q_size :: int
  q_nextwrite :: int
  q_nextread :: int
  q_data :: "'a option list"

text \<open>The doubling loop of \<^verbatim>\<open>q_grow\<close>, its overflow check included.\<close>

partial_function (option) q_newsize :: "int \<Rightarrow> int \<Rightarrow> int option" where
  "q_newsize nsize targetsize =
     (if nsize < targetsize
      then (if s32 (nsize * 2) > 0 then q_newsize (s32 (nsize * 2)) targetsize else None)
      else Some nsize)"

declare q_newsize.simps [code]

text \<open>The last three statements of \<^verbatim>\<open>q_addtail\<close>: store the pointer, advance \<^verbatim>\<open>nextwrite\<close>.\<close>

definition q_put :: "'a queue \<Rightarrow> 'a \<Rightarrow> 'a queue kern" where
  "q_put q ptr =
     do {
       d \<leftarrow> wr (q_data q) (q_nextwrite q) ptr;
       Some (q\<lparr>q_data := d, q_nextwrite := (q_nextwrite q + 1) mod q_size q\<rparr>)
     }"

text \<open>\<^verbatim>\<open>q_addtail\<close> as \<^verbatim>\<open>q_grow\<close> calls it.\<close>

definition q_refill :: "'a queue \<Rightarrow> 'a \<Rightarrow> 'a queue kern" where
  "q_refill q ptr =
     do {
       kassert (q_size q > 0);
       kassert ((q_nextwrite q + 1) mod q_size q \<noteq> q_nextread q);
       q_put q ptr
     }"

partial_function (option) q_copy ::
  "'a option list \<Rightarrow> int \<Rightarrow> int \<Rightarrow> int \<Rightarrow> 'a queue \<Rightarrow> 'a queue option" where
  "q_copy olddata osize i onw q =
     (if i = onw then Some q
      else do {
        x \<leftarrow> rd olddata i;
        q' \<leftarrow> q_refill q x;
        q_copy olddata osize ((i + 1) mod osize) onw q'
      })"

declare q_copy.simps [code]

definition q_grow :: "bool \<Rightarrow> 'a queue \<Rightarrow> int \<Rightarrow> (errno \<times> 'a queue) kern" where
  "q_grow km q targetsize =
     do {
       nsize \<leftarrow> q_newsize (q_size q) targetsize;
       if \<not> kmalloc_ok km (nsize * 4) then Some (ENOMEM, q)
       else do {
         q' \<leftarrow> q_copy (q_data q) (q_size q) (q_nextread q) (q_nextwrite q)
                \<lparr>q_size = nsize, q_nextwrite = 0, q_nextread = 0, q_data = ptr_array nsize\<rparr>;
         Some (EOK, q')
       }
     }"

text \<open>The two booleans say whether the two \<^verbatim>\<open>kmalloc\<close> calls find room; the result is NULL or a queue.\<close>

definition q_create :: "bool \<Rightarrow> bool \<Rightarrow> int \<Rightarrow> 'a queue option" where
  "q_create km1 km2 sz =
     (if \<not> kmalloc_ok km1 16 then None
      else if \<not> kmalloc_ok km2 (sz * 4) then None
      else Some \<lparr>q_size = sz, q_nextwrite = 0, q_nextread = 0, q_data = ptr_array sz\<rparr>)"

definition q_preallocate :: "bool \<Rightarrow> 'a queue \<Rightarrow> int \<Rightarrow> (errno \<times> 'a queue) kern" where
  "q_preallocate km q sz =
     do {
       kassert (q_size q > 0);
       if sz > q_size q then q_grow km q sz else Some (EOK, q)
     }"

definition q_empty :: "'a queue \<Rightarrow> bool" where
  "q_empty q \<longleftrightarrow> q_nextwrite q = q_nextread q"

definition q_addtail :: "bool \<Rightarrow> 'a queue \<Rightarrow> 'a \<Rightarrow> (errno \<times> 'a queue) kern" where
  "q_addtail km q ptr =
     do {
       kassert (q_size q > 0);
       if (q_nextwrite q + 1) mod q_size q = q_nextread q then
         do {
           (result, q1) \<leftarrow> q_grow km q (q_size q + 1);
           if result \<noteq> EOK then Some (result, q1)
           else do { q2 \<leftarrow> q_put q1 ptr; Some (EOK, q2) }
         }
       else do { q2 \<leftarrow> q_put q ptr; Some (EOK, q2) }
     }"

definition q_remhead :: "'a queue \<Rightarrow> ('a \<times> 'a queue) kern" where
  "q_remhead q =
     do {
       kassert (q_size q > 0);
       kassert (\<not> q_empty q);
       ret \<leftarrow> rd (q_data q) (q_nextread q);
       Some (ret, q\<lparr>q_nextread := (q_nextread q + 1) mod q_size q\<rparr>)
     }"

definition q_destroy :: "'a queue \<Rightarrow> unit kern" where
  "q_destroy q = kassert (q_empty q)"

definition q_getstart :: "'a queue \<Rightarrow> int" where
  "q_getstart q = q_nextread q"

definition q_getend :: "'a queue \<Rightarrow> int" where
  "q_getend q = q_nextwrite q"

definition q_getsize :: "'a queue \<Rightarrow> int" where
  "q_getsize q = q_size q"

definition q_getguy :: "'a queue \<Rightarrow> int \<Rightarrow> 'a kern" where
  "q_getguy q index =
     do { kassert (index \<ge> 0 \<and> index < q_size q); rd (q_data q) index }"

section \<open>The contents of a ring\<close>

definition q_rep :: "'a queue \<Rightarrow> 'a list \<Rightarrow> bool" where
  "q_rep q xs \<longleftrightarrow>
     0 < q_size q \<and> q_size q < 2 ^ 27 \<and> length (q_data q) = nat (q_size q) \<and>
     0 \<le> q_nextread q \<and> q_nextread q < q_size q \<and>
     int (length xs) < q_size q \<and>
     q_nextwrite q = (q_nextread q + int (length xs)) mod q_size q \<and>
     list_all (\<lambda>k. q_data q ! nat ((q_nextread q + int k) mod q_size q) = Some (xs ! k))
       [0..<length xs]"

definition q_list :: "'a queue \<Rightarrow> 'a list" where
  "q_list q =
     map (\<lambda>k. the (q_data q ! nat ((q_nextread q + int k) mod q_size q)))
       [0..<nat ((q_nextwrite q - q_nextread q) mod q_size q)]"

definition q_inv :: "'a queue \<Rightarrow> bool" where
  "q_inv q \<longleftrightarrow> q_rep q (q_list q)"

text \<open>A ring of \<open>n\<close> slots holds at most \<open>n - 1\<close> elements.\<close>

definition q_cap :: "'a queue \<Rightarrow> nat" where
  "q_cap q = nat (q_size q - 1)"

lemma ring_inj:
  assumes "k < nat n" and "j < nat n"
  shows "(a + int k) mod n = (a + int j) mod n \<longleftrightarrow> k = j"
proof
  assume "(a + int k) mod n = (a + int j) mod n"
  then have "n dvd int k - int j"
    by (metis add_diff_cancel_left mod_eq_dvd_iff)
  moreover have "\<bar>int k - int j\<bar> < n" using assms by linarith
  ultimately have "int k - int j = 0"
    using dvd_imp_le_int [of "int k - int j" n] by linarith
  then show "k = j" by simp
qed simp

lemma q_rep_nth:
  "q_rep q xs \<Longrightarrow> k < length xs \<Longrightarrow>
   q_data q ! nat ((q_nextread q + int k) mod q_size q) = Some (xs ! k)"
  by (simp add: q_rep_def list_all_iff)

lemma q_rep_list: "q_rep q xs \<Longrightarrow> q_list q = xs"
proof -
  assume r: "q_rep q xs"
  then have "(q_nextwrite q - q_nextread q) mod q_size q = int (length xs)"
    by (simp add: q_rep_def mod_diff_left_eq)
  then show ?thesis
    using q_rep_nth [OF r] by (auto simp: q_list_def intro!: nth_equalityI)
qed

lemma q_rep_inv: "q_rep q xs \<Longrightarrow> q_inv q"
  by (simp add: q_inv_def q_rep_list)

lemma q_rep_full_iff:
  assumes "q_rep q xs"
  shows "(q_nextwrite q + 1) mod q_size q = q_nextread q \<longleftrightarrow> int (length xs) + 1 = q_size q"
proof -
  have s: "0 < q_size q" "0 \<le> q_nextread q" "q_nextread q < q_size q"
    and l: "int (length xs) < q_size q"
    and w: "q_nextwrite q = (q_nextread q + int (length xs)) mod q_size q"
    using assms by (simp_all add: q_rep_def)
  have nw: "(q_nextwrite q + 1) mod q_size q = (q_nextread q + int (length xs + 1)) mod q_size q"
    unfolding w by (simp add: mod_simps ac_simps)
  have nr: "q_nextread q = (q_nextread q + int 0) mod q_size q"
    using s by simp
  show ?thesis
  proof (cases "int (length xs) + 1 = q_size q")
    case True
    then have "q_nextread q + int (length xs + 1) = q_nextread q + q_size q" by simp
    then have "(q_nextwrite q + 1) mod q_size q = (q_nextread q + q_size q) mod q_size q"
      using nw by (simp only:)
    also have "\<dots> = q_nextread q" using s by simp
    finally have "(q_nextwrite q + 1) mod q_size q = q_nextread q" .
    with True show ?thesis by simp
  next
    case False
    with l have "length xs + 1 < nat (q_size q)" by linarith
    then have "(q_nextwrite q + 1) mod q_size q \<noteq> q_nextread q"
      unfolding nw by (subst (2) nr, subst ring_inj) (use s(1) in simp_all)
    with False show ?thesis by simp
  qed
qed

lemma q_rep_empty_iff:
  assumes "q_rep q xs"
  shows "q_empty q \<longleftrightarrow> xs = []"
proof -
  have s: "0 < q_size q" "0 \<le> q_nextread q" "q_nextread q < q_size q"
    and l: "int (length xs) < q_size q"
    and w: "q_nextwrite q = (q_nextread q + int (length xs)) mod q_size q"
    using assms by (simp_all add: q_rep_def)
  have nr: "q_nextread q = (q_nextread q + int 0) mod q_size q"
    using s by simp
  have "length xs < nat (q_size q)" "0 < nat (q_size q)" using l s by linarith+
  then have "q_nextwrite q = q_nextread q \<longleftrightarrow> length xs = 0"
    unfolding w by (subst (2) nr, subst ring_inj) simp_all
  then show ?thesis by (simp add: q_empty_def)
qed

section \<open>The operations on the contents\<close>

lemma q_put_rep:
  assumes r: "q_rep q xs" and room: "int (length xs) + 1 < q_size q"
  shows "\<exists>q'. q_put q x = Some q' \<and> q_rep q' (xs @ [x]) \<and> q_size q' = q_size q"
proof -
  define n where "n = q_size q"
  define nr where "nr = q_nextread q"
  define i where "i = nat (q_nextwrite q)"
  have s: "0 < n" "n < 2 ^ 27" "length (q_data q) = nat n" "0 \<le> nr" "nr < n"
    and w: "q_nextwrite q = (nr + int (length xs)) mod n"
    using r by (simp_all add: q_rep_def n_def nr_def)
  have wb: "0 \<le> q_nextwrite q" "q_nextwrite q < n" using s w by simp_all
  then have wr_eq: "wr (q_data q) (q_nextwrite q) x = Some ((q_data q)[i := Some x])"
    using s by (simp add: wr_in_range i_def)
  define q' where "q' = q\<lparr>q_data := (q_data q)[i := Some x], q_nextwrite := (q_nextwrite q + 1) mod n\<rparr>"
  have put: "q_put q x = Some q'"
    using wr_eq by (simp add: q_put_def q'_def n_def)
  have other: "nat ((nr + int k) mod n) \<noteq> i" if "k < length xs" for k
  proof -
    have "(nr + int k) mod n \<noteq> (nr + int (length xs)) mod n"
      using that room by (subst ring_inj) (simp_all add: n_def)
    moreover have "0 \<le> (nr + int k) mod n" using s(1) by simp
    ultimately show ?thesis using wb(1) w by (metis eq_nat_nat_iff i_def)
  qed
  have "(q_data q)[i := Some x] ! nat ((nr + int k) mod n) = Some ((xs @ [x]) ! k)"
    if "k < Suc (length xs)" for k
  proof (cases "k = length xs")
    case True
    with w wb s show ?thesis by (simp add: i_def)
  next
    case False
    with that have k: "k < length xs" by simp
    have "i \<noteq> nat ((nr + int k) mod n)" using other [OF k] by simp
    then show ?thesis using k q_rep_nth [OF r k] by (simp add: nth_append n_def nr_def)
  qed
  moreover have "(q_nextwrite q + 1) mod n = (nr + int (length (xs @ [x]))) mod n"
    unfolding w by (simp add: mod_simps ac_simps)
  ultimately have "q_rep q' (xs @ [x])"
    using s room by (simp add: q_rep_def q'_def n_def nr_def list_all_iff)
  with put show ?thesis by (simp add: q'_def)
qed

lemma q_refill_rep:
  assumes r: "q_rep q xs" and room: "int (length xs) + 1 < q_size q"
  shows "\<exists>q'. q_refill q x = Some q' \<and> q_rep q' (xs @ [x]) \<and> q_size q' = q_size q"
proof -
  have "0 < q_size q" using r by (simp add: q_rep_def)
  moreover have "(q_nextwrite q + 1) mod q_size q \<noteq> q_nextread q"
    using q_rep_full_iff [OF r] room by simp
  ultimately show ?thesis
    using q_put_rep [OF assms] by (simp add: q_refill_def)
qed

lemma q_copy_rep:
  assumes r: "q_rep q xs"
  shows "q_rep new ys \<Longrightarrow> i \<le> length xs \<Longrightarrow>
    int (length ys) + int (length xs - i) < q_size new \<Longrightarrow>
    \<exists>q'. q_copy (q_data q) (q_size q) ((q_nextread q + int i) mod q_size q) (q_nextwrite q) new = Some q' \<and>
      q_rep q' (ys @ drop i xs) \<and> q_size q' = q_size new"
proof (induction "length xs - i" arbitrary: i ys new)
  case 0
  then have "i = length xs" by simp
  moreover have "q_nextwrite q = (q_nextread q + int (length xs)) mod q_size q"
    using r by (simp add: q_rep_def)
  ultimately show ?case using 0 by (subst q_copy.simps) simp
next
  case (Suc d)
  then have i: "i < length xs" by simp
  have s: "0 < q_size q" "length (q_data q) = nat (q_size q)" "int (length xs) < q_size q"
    and w: "q_nextwrite q = (q_nextread q + int (length xs)) mod q_size q"
    using r by (simp_all add: q_rep_def)
  let ?p = "(q_nextread q + int i) mod q_size q"
  have ne: "?p \<noteq> q_nextwrite q"
    unfolding w using i s by (subst ring_inj) linarith+
  have read: "rd (q_data q) ?p = Some (xs ! i)"
    using s q_rep_nth [OF r i] by (simp add: rd_in_range)
  have room: "int (length ys) + 1 < q_size new" using Suc.prems(3) i by linarith
  obtain n1 where n1: "q_refill new (xs ! i) = Some n1" "q_rep n1 (ys @ [xs ! i])" "q_size n1 = q_size new"
    using q_refill_rep [OF Suc.prems(1) room] by blast
  have nxt: "(?p + 1) mod q_size q = (q_nextread q + int (Suc i)) mod q_size q"
    by (simp add: mod_simps ac_simps)
  have "\<exists>q'. q_copy (q_data q) (q_size q) ((q_nextread q + int (Suc i)) mod q_size q) (q_nextwrite q) n1 = Some q' \<and>
      q_rep q' ((ys @ [xs ! i]) @ drop (Suc i) xs) \<and> q_size q' = q_size n1"
  proof (rule Suc.hyps(1))
    show "d = length xs - Suc i" using Suc.hyps(2) by simp
    show "q_rep n1 (ys @ [xs ! i])" by (rule n1)
    show "Suc i \<le> length xs" using i by simp
    show "int (length (ys @ [xs ! i])) + int (length xs - Suc i) < q_size n1"
      using Suc.prems(3) n1(3) i by simp
  qed
  then show ?case
    using n1 ne read nxt i by (subst q_copy.simps) (simp add: Cons_nth_drop_Suc)
qed

lemma q_newsize_total:
  "0 < n \<Longrightarrow> n < 2 ^ 30 \<Longrightarrow> t \<le> 2 ^ 29 \<Longrightarrow>
   \<exists>m. q_newsize n t = Some m \<and> n \<le> m \<and> t \<le> m \<and> m < 2 ^ 30"
proof (induction "nat (t - n)" arbitrary: n rule: less_induct)
  case less
  show ?case
  proof (cases "n < t")
    case False
    with less.prems show ?thesis by (subst q_newsize.simps) simp
  next
    case True
    with less.prems have d: "s32 (n * 2) = n * 2" by (simp add: s32_id)
    have "\<exists>m. q_newsize (n * 2) t = Some m \<and> n * 2 \<le> m \<and> t \<le> m \<and> m < 2 ^ 30"
      by (rule less.hyps) (use True less.prems in simp_all)
    then show ?thesis using True d less.prems by (subst q_newsize.simps) auto
  qed
qed

lemma q_grow_rep:
  assumes r: "q_rep q xs" and t: "t \<le> 2 ^ 29"
  shows "(\<exists>q'. q_grow km q t = Some (EOK, q') \<and> q_rep q' xs \<and> t \<le> q_size q' \<and> q_size q \<le> q_size q') \<or>
         q_grow km q t = Some (ENOMEM, q)"
proof -
  have s: "0 < q_size q" "q_size q < 2 ^ 27" "int (length xs) < q_size q"
    "0 \<le> q_nextread q" "q_nextread q < q_size q"
    using r by (simp_all add: q_rep_def)
  then obtain m where m: "q_newsize (q_size q) t = Some m" "q_size q \<le> m" "t \<le> m" "m < 2 ^ 30"
    using q_newsize_total [of "q_size q" t] t by auto
  show ?thesis
  proof (cases "kmalloc_ok km (m * 4)")
    case False
    with m show ?thesis by (simp add: q_grow_def)
  next
    case True
    with m s have "m < 2 ^ 27" using kmalloc_ok_ptrs [of m km] by simp
    let ?new = "\<lparr>q_size = m, q_nextwrite = 0, q_nextread = 0, q_data = ptr_array m\<rparr> :: 'a queue"
    have "q_rep ?new []"
      using m s \<open>m < 2 ^ 27\<close> by (simp add: q_rep_def length_ptr_array)
    then obtain q' where q': "q_copy (q_data q) (q_size q) ((q_nextread q + int 0) mod q_size q)
        (q_nextwrite q) ?new = Some q'" "q_rep q' xs" "q_size q' = m"
      using q_copy_rep [OF r, of ?new "[]" 0] s m by auto
    from q'(1) s have c: "q_copy (q_data q) (q_size q) (q_nextread q) (q_nextwrite q) ?new = Some q'"
      by simp
    have "q_grow km q t = Some (EOK, q')"
      using m(1) True c by (simp add: q_grow_def)
    then show ?thesis using q' m by blast
  qed
qed

lemma q_addtail_rep:
  assumes r: "q_rep q xs"
  shows "(\<exists>q'. q_addtail km q x = Some (EOK, q') \<and> q_rep q' (xs @ [x]) \<and> q_size q \<le> q_size q') \<or>
         q_addtail km q x = Some (ENOMEM, q) \<and> int (length xs) + 1 = q_size q"
proof -
  have s: "0 < q_size q" "q_size q < 2 ^ 27" "int (length xs) < q_size q"
    using r by (simp_all add: q_rep_def)
  show ?thesis
  proof (cases "int (length xs) + 1 = q_size q")
    case False
    with s have "int (length xs) + 1 < q_size q" by simp
    with q_put_rep [OF r this] show ?thesis
      using s False q_rep_full_iff [OF r] by (fastforce simp: q_addtail_def)
  next
    case True
    then have full: "(q_nextwrite q + 1) mod q_size q = q_nextread q"
      using q_rep_full_iff [OF r] by simp
    from s have "q_size q + 1 \<le> 2 ^ 29" by simp
    from q_grow_rep [OF r this, of km] show ?thesis
    proof (elim disjE exE conjE)
      fix q1 assume g: "q_grow km q (q_size q + 1) = Some (EOK, q1)" and r1: "q_rep q1 xs"
        and sz: "q_size q + 1 \<le> q_size q1"
      from True sz have "int (length xs) + 1 < q_size q1" by simp
      with q_put_rep [OF r1 this, of x] g full s sz show ?thesis
        by (fastforce simp: q_addtail_def)
    next
      assume "q_grow km q (q_size q + 1) = Some (ENOMEM, q)"
      with full s True show ?thesis by (simp add: q_addtail_def)
    qed
  qed
qed

lemma q_addtail_room:
  assumes r: "q_rep q xs" and room: "int (length xs) + 1 < q_size q"
  shows "\<exists>q'. q_addtail km q x = Some (EOK, q') \<and> q_rep q' (xs @ [x]) \<and> q_size q' = q_size q"
  using q_put_rep [OF r room, of x] q_rep_full_iff [OF r] room
  by (fastforce simp: q_addtail_def)

lemma q_remhead_rep:
  assumes r: "q_rep q (y # ys)"
  shows "\<exists>q'. q_remhead q = Some (y, q') \<and> q_rep q' ys \<and> q_size q' = q_size q"
proof -
  define n where "n = q_size q"
  define nr where "nr = q_nextread q"
  have s: "0 < n" "n < 2 ^ 27" "length (q_data q) = nat n" "0 \<le> nr" "nr < n" "int (length (y # ys)) < n"
    and w: "q_nextwrite q = (nr + int (length (y # ys))) mod n"
    using r by (simp_all add: q_rep_def n_def nr_def)
  have nonempty: "\<not> q_empty q" using q_rep_empty_iff [OF r] by simp
  have read: "rd (q_data q) nr = Some y"
    using q_rep_nth [OF r, of 0] s by (simp add: rd_in_range n_def nr_def)
  define q' where "q' = q\<lparr>q_nextread := (nr + 1) mod n\<rparr>"
  have "((nr + 1) mod n + int k) mod n = (nr + int (Suc k)) mod n" for k
    by (simp add: mod_simps ac_simps)
  moreover have "q_data q ! nat ((nr + int (Suc k)) mod n) = Some (ys ! k)" if "k < length ys" for k
    using q_rep_nth [OF r, of "Suc k"] that by (simp add: n_def nr_def)
  ultimately have "q_rep q' ys"
    using s w by (simp add: q_rep_def q'_def list_all_iff flip: n_def)
  moreover have "q_remhead q = Some (y, q')"
    using s nonempty read by (simp add: q_remhead_def q'_def n_def nr_def)
  ultimately show ?thesis by (simp add: q'_def)
qed

lemma q_remhead_empty: "q_rep q [] \<Longrightarrow> q_remhead q = None"
  using q_rep_empty_iff [of q "[]"] by (simp add: q_remhead_def)

section \<open>The contract and the properties\<close>

lemma q_inv_rep: "q_inv q \<Longrightarrow> q_rep q (q_list q)"
  by (simp only: q_inv_def)

lemma q_cap_mono: "q_size q \<le> q_size q' \<Longrightarrow> q_cap q \<le> q_cap q'"
  by (simp add: q_cap_def)

interpretation kq: fifo q_inv q_list q_cap q_addtail q_remhead q_empty
proof (unfold_locales, goal_cases)
  case (1 q km x)
  show ?case using q_addtail_rep [OF q_inv_rep [OF 1], of km x] by blast
next
  case (2 q km x q')
  from q_addtail_rep [OF q_inv_rep [OF 2(1)], of km x] 2(2)
  have "q_rep q' (q_list q @ [x])" "q_size q \<le> q_size q'" by fastforce+
  then show ?case by (simp add: q_rep_inv q_rep_list q_cap_mono)
next
  case (3 q km x q')
  show ?case using q_addtail_rep [OF q_inv_rep [OF 3(1)], of km x] 3(2) by fastforce
next
  case (4 q km x)
  then have "int (length (q_list q)) + 1 < q_size q" by (simp add: q_cap_def)
  from q_addtail_room [OF q_inv_rep [OF 4(1)] this] show ?case by (metis q_cap_def)
next
  case (5 q y ys)
  then have "q_rep q (y # ys)" using q_inv_rep by metis
  from q_remhead_rep [OF this] show ?case by (metis q_cap_def q_rep_inv q_rep_list)
next
  case (6 q)
  then show ?case using q_remhead_empty q_inv_rep by metis
next
  case (7 q)
  then show ?case by (rule q_rep_empty_iff [OF q_inv_rep])
qed

lemma q_create_inv:
  "0 < n \<Longrightarrow> n < 2 ^ 30 \<Longrightarrow> q_create km1 km2 n = Some q \<Longrightarrow>
   q_inv q \<and> q_list q = [] \<and> q_size q = n"
proof -
  assume a: "0 < n" "n < 2 ^ 30" "q_create km1 km2 n = Some q"
  then have ok: "kmalloc_ok km2 (n * 4)"
    and q: "q = \<lparr>q_size = n, q_nextwrite = 0, q_nextread = 0, q_data = ptr_array n\<rparr>"
    by (auto simp: q_create_def split: if_splits)
  have "q_rep q []"
    using a(1,2) kmalloc_ok_ptrs [of n km2] ok by (simp add: q q_rep_def length_ptr_array)
  then show ?thesis by (simp add: q_rep_inv q_rep_list q)
qed

lemma q_preallocate_inv:
  assumes "q_inv q" and "n \<le> 2 ^ 29"
  shows "(\<exists>q'. q_preallocate km q n = Some (EOK, q') \<and> q_inv q' \<and> q_list q' = q_list q \<and>
            n \<le> q_size q' \<and> q_size q \<le> q_size q') \<or>
         q_preallocate km q n = Some (ENOMEM, q)"
proof -
  have r: "q_rep q (q_list q)" using assms(1) by (simp add: q_inv_def)
  then have s: "0 < q_size q" by (simp add: q_rep_def)
  show ?thesis
    using q_grow_rep [OF r assms(2), of km] s assms(1)
    by (auto simp: q_preallocate_def q_rep_inv q_rep_list)
qed

section \<open>Properties\<close>

text \<open>C31. \<^verbatim>\<open>q_addtail\<close> on a well-formed queue never panics. It appends the pointer at the tail
  and keeps the queue well formed, or it returns \<^verbatim>\<open>ENOMEM\<close>, leaves the queue as it was, and the
  ring was full.\<close>

theorem q_addtail_appends:
  assumes "q_inv q"
  shows "\<exists>e q'. q_addtail km q x = Some (e, q') \<and> q_inv q' \<and>
    (e = EOK \<and> q_list q' = q_list q @ [x] \<or>
     e = ENOMEM \<and> q' = q \<and> int (length (q_list q)) + 1 = q_getsize q)"
  using q_addtail_rep [OF q_inv_rep [OF assms], of km x] assms
  by (auto simp: q_rep_inv q_rep_list q_getsize_def)

theorem q_addtail_appends_witness:
  "\<exists>e q'. q_addtail False \<lparr>q_size = 2, q_nextwrite = 0, q_nextread = 1, q_data = [None, Some (7::nat)]\<rparr> 8 = Some (e, q') \<and>
     q_inv q' \<and> (e = EOK \<and> q_list q' = [7, 8] \<or> e = ENOMEM \<and> q_list q' = [7])"
proof -
  let ?q = "\<lparr>q_size = 2, q_nextwrite = 0, q_nextread = 1, q_data = [None, Some (7::nat)]\<rparr>"
  have "q_list ?q = [7]" by code_simp
  moreover have "q_inv ?q" by code_simp
  ultimately show ?thesis using q_addtail_appends [of ?q False 8] by auto
qed

text \<open>After a successful \<^verbatim>\<open>q_preallocate(q, n)\<close>, pointers can be added without any further
  allocation as long as fewer than \<^verbatim>\<open>n\<close> are in the queue, and \<^verbatim>\<open>q_remhead\<close> then returns all of
  them, the old ones first, in the order they were added. (A ring of \<^verbatim>\<open>n\<close> slots holds
  \<^verbatim>\<open>n - 1\<close> pointers.)\<close>

theorem q_preallocate_fifo:
  assumes "q_inv q" and "n \<le> 2 ^ 29" and "q_preallocate km q n = Some (EOK, q1)"
    and "int (length (q_list q) + length xs) < n"
  shows "\<exists>q2 q3. kq.add_all False q1 xs = Some q2 \<and>
    kq.rem_all (length (q_list q) + length xs) q2 = Some (q_list q @ xs, q3) \<and> q_empty q3"
proof -
  from q_preallocate_inv [OF assms(1,2), of km] assms(3)
  have q1: "q_inv q1" "q_list q1 = q_list q" "n \<le> q_size q1" by auto
  then have "length (q_list q1) + length xs \<le> q_cap q1" using assms(4) by (simp add: q_cap_def)
  from kq.add_all_room [OF q1(1) this, of False] q1(2) obtain q2 where
    q2: "kq.add_all False q1 xs = Some q2" "q_inv q2" "q_list q2 = q_list q @ xs" by auto
  from kq.rem_all_order [OF q2(2), of "q_list q @ xs" "[]"] q2 show ?thesis
    by (auto simp: kq.emp_iff)
qed

theorem q_preallocate_fifo_witness:
  "\<exists>q0 q1 q2 q3. q_create True True 1 = Some q0 \<and> q_preallocate True q0 3 = Some (EOK, q1) \<and>
    kq.add_all False q1 [4::nat, 5] = Some q2 \<and> kq.rem_all 2 q2 = Some ([4, 5], q3) \<and> q_empty q3"
proof -
  let ?q = "\<lparr>q_size = 1, q_nextwrite = 0, q_nextread = 0, q_data = [None]\<rparr> :: nat queue"
  have c: "q_create True True 1 = Some ?q"
    by (simp add: q_create_def kmalloc_ok_def RAM_MAX_def ptr_array_def)
  have i: "q_inv ?q" and l: "q_list ?q = []"
    using q_create_inv [OF _ _ c] by simp_all
  have "q_newsize 1 3 = Some 4"
    by (subst q_newsize.simps, simp add: s32_def, subst q_newsize.simps, simp add: s32_def,
        subst q_newsize.simps, simp)
  moreover have "q_copy [None] 1 0 0 q = Some q" for q :: "nat queue"
    by (subst q_copy.simps) simp
  ultimately obtain q1 where p: "q_preallocate True ?q 3 = Some (EOK, q1)"
    by (simp add: q_preallocate_def q_grow_def kmalloc_ok_def RAM_MAX_def)
  from q_preallocate_fifo [OF i _ p, of "[4, 5]"] l c p show ?thesis
    by (auto simp: numeral_2_eq_2 simp del: kq.add_all.simps kq.rem_all.simps)
qed

end
