(* ===== verification/Karray.thy ===== *)
theory Karray
  imports Contracts
begin

text \<open>
  \<^verbatim>\<open>src/src/kern/lib/array.c\<close>: the resizable array of void pointers used by the thread system,
  the process table, the VFS device list and SFS.

  The record \<open>karray\<close> is \<^verbatim>\<open>struct array\<close>; \<open>a_v\<close> is \<open>None\<close> for a NULL \<^verbatim>\<open>v\<close>. The growth
  loop of \<^verbatim>\<open>array_preallocate\<close> has no overflow check, so its model may fail to return; it does
  return below \<open>2 ^ 29\<close> elements (\<open>array_newmax_total\<close>).

  \<open>a_wf\<close> is the structural invariant, \<open>a_rep a xs\<close> says in addition that the visible elements are
  initialised and are \<open>xs\<close>. The \<open>dynarray\<close> contract is interpreted as \<open>ka\<close>.
\<close>

section \<open>The code\<close>

record 'a karray =
  a_num :: int
  a_max :: int
  a_v :: "'a option list option"

definition a_cells :: "'a karray \<Rightarrow> 'a option list" where
  "a_cells a = (case a_v a of None \<Rightarrow> [] | Some v \<Rightarrow> v)"

definition array_create :: "bool \<Rightarrow> 'a karray option" where
  "array_create km =
     (if \<not> kmalloc_ok km 12 then None else Some \<lparr>a_num = 0, a_max = 0, a_v = None\<rparr>)"

definition array_getnum :: "'a karray \<Rightarrow> int" where
  "array_getnum a = a_num a"

definition array_getguy :: "'a karray \<Rightarrow> int \<Rightarrow> 'a kern" where
  "array_getguy a index =
     do {
       kassert (a_num a \<le> a_max a);
       kassert (index \<ge> 0 \<and> index < a_num a);
       rd (a_cells a) index
     }"

partial_function (option) array_newmax :: "int \<Rightarrow> int \<Rightarrow> int option" where
  "array_newmax nguys newmax =
     (if nguys > newmax then array_newmax nguys (s32 ((newmax + 1) * 2)) else Some newmax)"

declare array_newmax.simps [code]

definition array_preallocate :: "bool \<Rightarrow> 'a karray \<Rightarrow> int \<Rightarrow> (errno \<times> 'a karray) kern" where
  "array_preallocate km a nguys =
     do {
       kassert (a_num a \<ge> 0 \<and> a_num a \<le> a_max a);
       newmax \<leftarrow> array_newmax nguys (a_max a);
       if \<not> kmalloc_ok km (newmax * 4) then Some (ENOMEM, a)
       else do {
         newv \<leftarrow> move_cells (ptr_array newmax) 0 (a_cells a) 0 (a_num a);
         Some (EOK, a\<lparr>a_max := newmax, a_v := Some newv\<rparr>)
       }
     }"

definition array_setsize :: "bool \<Rightarrow> 'a karray \<Rightarrow> int \<Rightarrow> (errno \<times> 'a karray) kern" where
  "array_setsize km a nguys =
     do {
       kassert (a_num a \<ge> 0 \<and> a_num a \<le> a_max a);
       if nguys > a_max a then
         do {
           (result, a1) \<leftarrow> array_preallocate km a nguys;
           if result \<noteq> EOK then Some (result, a1)
           else Some (EOK, a1\<lparr>a_num := nguys\<rparr>)
         }
       else if nguys = 0 \<and> a_max a > 16 then
         do {
           kassert (a_v a \<noteq> None);
           Some (EOK, a\<lparr>a_v := None, a_max := 0, a_num := nguys\<rparr>)
         }
       else Some (EOK, a\<lparr>a_num := nguys\<rparr>)
     }"

definition array_setguy :: "'a karray \<Rightarrow> int \<Rightarrow> 'a \<Rightarrow> 'a karray kern" where
  "array_setguy a index ptr =
     do {
       kassert (a_num a \<le> a_max a);
       kassert (index \<ge> 0 \<and> index < a_num a);
       v \<leftarrow> wr (a_cells a) index ptr;
       Some (a\<lparr>a_v := Some v\<rparr>)
     }"

definition array_add :: "bool \<Rightarrow> 'a karray \<Rightarrow> 'a \<Rightarrow> (errno \<times> 'a karray) kern" where
  "array_add km a guy =
     do {
       let ix = a_num a;
       (result, a1) \<leftarrow> array_setsize km a (ix + 1);
       if result \<noteq> EOK then Some (result, a1)
       else do { v \<leftarrow> wr (a_cells a1) ix guy; Some (EOK, a1\<lparr>a_v := Some v\<rparr>) }
     }"

definition array_remove :: "'a karray \<Rightarrow> int \<Rightarrow> 'a karray kern" where
  "array_remove a index =
     do {
       kassert (a_num a \<le> a_max a);
       kassert (index \<ge> 0 \<and> index < a_num a);
       let nmove = a_num a - (index + 1);
       v \<leftarrow> move_cells (a_cells a) index (a_cells a) (index + 1) nmove;
       Some (a\<lparr>a_v := Some v, a_num := a_num a - 1\<rparr>)
     }"

section \<open>The contents of an array\<close>

definition a_wf :: "'a karray \<Rightarrow> bool" where
  "a_wf a \<longleftrightarrow> 0 \<le> a_num a \<and> a_num a \<le> a_max a \<and> a_max a < 2 ^ 27 \<and>
     length (a_cells a) = nat (a_max a)"

definition a_rep :: "'a karray \<Rightarrow> 'a list \<Rightarrow> bool" where
  "a_rep a xs \<longleftrightarrow> a_wf a \<and> a_num a = int (length xs) \<and>
     take (length xs) (a_cells a) = map Some xs"

definition a_list :: "'a karray \<Rightarrow> 'a list" where
  "a_list a = map the (take (nat (a_num a)) (a_cells a))"

definition a_inv :: "'a karray \<Rightarrow> bool" where
  "a_inv a \<longleftrightarrow> a_rep a (a_list a)"

definition a_cap :: "'a karray \<Rightarrow> nat" where
  "a_cap a = nat (a_max a)"

lemma a_rep_list: "a_rep a xs \<Longrightarrow> a_list a = xs"
  by (simp add: a_rep_def a_list_def comp_def)

lemma a_rep_inv: "a_rep a xs \<Longrightarrow> a_inv a"
  by (simp add: a_inv_def a_rep_list)

lemma a_inv_rep: "a_inv a \<Longrightarrow> a_rep a (a_list a)"
  by (simp only: a_inv_def)

lemma array_newmax_total:
  "0 \<le> m \<Longrightarrow> m < 2 ^ 30 \<Longrightarrow> n < 2 ^ 29 \<Longrightarrow>
   \<exists>m'. array_newmax n m = Some m' \<and> m \<le> m' \<and> n \<le> m' \<and> m' < 2 ^ 30"
proof (induction "nat (n - m)" arbitrary: m rule: less_induct)
  case less
  show ?case
  proof (cases "n > m")
    case False
    with less.prems show ?thesis by (subst array_newmax.simps) simp
  next
    case True
    with less.prems have d: "s32 ((m + 1) * 2) = (m + 1) * 2" by (simp add: s32_id)
    show ?thesis
    proof (cases "(m + 1) * 2 < n")
      case small: True
      have "\<exists>m'. array_newmax n ((m + 1) * 2) = Some m' \<and> (m + 1) * 2 \<le> m' \<and> n \<le> m' \<and> m' < 2 ^ 30"
        by (rule less.hyps) (use True small less.prems in simp_all)
      then show ?thesis using True d less.prems(1) by (subst array_newmax.simps) auto
    next
      case big: False
      then have "array_newmax n ((m + 1) * 2) = Some ((m + 1) * 2)"
        by (subst array_newmax.simps) simp
      then show ?thesis using True big d less.prems by (subst array_newmax.simps) auto
    qed
  qed
qed

lemma a_rep_nth: "a_rep a xs \<Longrightarrow> k < length xs \<Longrightarrow> a_cells a ! k = Some (xs ! k)"
  by (metis a_rep_def length_map nth_map nth_take)

lemma a_rep_length: "a_rep a xs \<Longrightarrow> length xs \<le> length (a_cells a)"
  by (auto simp: a_rep_def a_wf_def)

section \<open>The operations on the contents\<close>

lemma array_create_rep: "array_create km = Some a \<Longrightarrow> a_rep a []"
  by (auto simp: array_create_def a_rep_def a_wf_def a_cells_def split: if_splits)

lemma array_getnum_rep: "a_rep a xs \<Longrightarrow> array_getnum a = int (length xs)"
  by (simp add: array_getnum_def a_rep_def)

lemma array_getguy_rep: "a_rep a xs \<Longrightarrow> k < length xs \<Longrightarrow> array_getguy a (int k) = Some (xs ! k)"
  using a_rep_nth [of a xs k] a_rep_length [of a xs]
  by (simp add: array_getguy_def rd_in_range) (simp add: a_rep_def a_wf_def)

lemma array_getguy_range: "i < 0 \<or> array_getnum a \<le> i \<Longrightarrow> array_getguy a i = None"
  by (auto simp: array_getguy_def array_getnum_def kassert_def)

lemma array_setguy_rep:
  assumes "a_rep a xs" and "k < length xs"
  shows "\<exists>a'. array_setguy a (int k) x = Some a' \<and> a_rep a' (xs[k := x]) \<and> a_max a' = a_max a"
proof -
  have w: "a_wf a" "a_num a = int (length xs)" and t: "take (length xs) (a_cells a) = map Some xs"
    using assms(1) by (simp_all add: a_rep_def)
  have l: "k < length (a_cells a)" using a_rep_length [OF assms(1)] assms(2) by simp
  let ?a = "a\<lparr>a_v := Some ((a_cells a)[k := Some x])\<rparr>"
  have "take (length xs) ((a_cells a)[k := Some x]) = map Some (xs[k := x])"
    by (simp add: take_update_swap t map_update)
  then have "a_rep ?a (xs[k := x])"
    using w by (simp add: a_rep_def a_wf_def a_cells_def)
  moreover have "array_setguy a (int k) x = Some ?a"
    using w l assms(2) by (simp add: array_setguy_def wr_in_range a_wf_def)
  ultimately show ?thesis by simp
qed

lemma array_preallocate_rep:
  fixes a :: "'a karray"
  assumes r: "a_rep a xs" and n: "n < 2 ^ 29"
  shows "(\<exists>a'. array_preallocate km a n = Some (EOK, a') \<and> a_rep a' xs \<and> n \<le> a_max a' \<and> a_max a \<le> a_max a') \<or>
         array_preallocate km a n = Some (ENOMEM, a)"
proof -
  have w: "0 \<le> a_num a" "a_num a \<le> a_max a" "a_max a < 2 ^ 27" "a_num a = int (length xs)"
    "length (a_cells a) = nat (a_max a)" "take (length xs) (a_cells a) = map Some xs"
    using r by (simp_all add: a_rep_def a_wf_def)
  then obtain m where m: "array_newmax n (a_max a) = Some m" "a_max a \<le> m" "n \<le> m" "m < 2 ^ 30"
    using array_newmax_total [of "a_max a" n] n by auto
  show ?thesis
  proof (cases "kmalloc_ok km (m * 4) \<and> m < 2 ^ 27")
    case True
    let ?v = "map Some xs @ drop (length xs) (ptr_array m :: 'a option list)"
    have pl: "length (ptr_array m :: 'a option list) = nat m" using True m w by (simp add: length_ptr_array)
    have mv: "move_cells (ptr_array m) 0 (a_cells a) 0 (a_num a) = Some ?v"
      using w m by (auto simp: move_cells_def pl)
    let ?a = "a\<lparr>a_max := m, a_v := Some ?v\<rparr>"
    have "array_preallocate km a n = Some (EOK, ?a)"
      using w m True mv by (simp add: array_preallocate_def)
    moreover have "a_rep ?a xs"
      using w m True pl by (auto simp: a_rep_def a_wf_def a_cells_def)
    ultimately show ?thesis using m by auto
  next
    case False
    then have "\<not> kmalloc_ok km (m * 4)"
      using kmalloc_ok_ptrs [of m km] m w by auto
    with w m show ?thesis by (auto simp: array_preallocate_def)
  qed
qed

lemma array_setsize_grow_rep:
  assumes r: "a_rep a xs" and n: "a_max a < n" "n < 2 ^ 29"
  shows "(\<exists>a'. array_setsize km a n = Some (EOK, a'\<lparr>a_num := n\<rparr>) \<and> a_rep a' xs \<and> n \<le> a_max a' \<and> a_max a \<le> a_max a') \<or>
         array_setsize km a n = Some (ENOMEM, a)"
proof -
  have "a_num a \<ge> 0 \<and> a_num a \<le> a_max a" using r by (simp add: a_rep_def a_wf_def)
  with array_preallocate_rep [OF r n(2), of km] n(1) show ?thesis
    by (auto simp: array_setsize_def)
qed

lemma a_rep_extend:
  assumes "a_rep a xs" and "int (length xs) < a_max a"
  shows "\<exists>v. wr (a_cells (a\<lparr>a_num := a_num a + 1\<rparr>)) (a_num a) x = Some v \<and>
     a_rep (a\<lparr>a_num := a_num a + 1, a_v := Some v\<rparr>) (xs @ [x])"
proof -
  have w: "0 \<le> a_num a" "a_max a < 2 ^ 27" "length (a_cells a) = nat (a_max a)"
    "a_num a = int (length xs)" "take (length xs) (a_cells a) = map Some xs"
    using assms(1) by (simp_all add: a_rep_def a_wf_def)
  let ?v = "(a_cells a)[length xs := Some x]"
  have l: "length xs < length (a_cells a)" using w assms(2) by simp
  have "take (Suc (length xs)) ?v = map Some (xs @ [x])"
    using l by (simp add: take_Suc_conv_app_nth w(5))
  moreover have "wr (a_cells (a\<lparr>a_num := a_num a + 1\<rparr>)) (a_num a) x = Some ?v"
    using w assms(2) by (auto simp: wr_def a_cells_def)
  ultimately show ?thesis
    using w assms(2) by (simp add: a_rep_def a_wf_def a_cells_def)
qed

lemma array_add_room:
  assumes r: "a_rep a xs" and room: "int (length xs) < a_max a"
  shows "\<exists>a'. array_add km a x = Some (EOK, a') \<and> a_rep a' (xs @ [x]) \<and> a_max a' = a_max a"
proof -
  have w: "0 \<le> a_num a" "a_num a \<le> a_max a" "a_num a = int (length xs)"
    using r by (simp_all add: a_rep_def a_wf_def)
  then have "array_setsize km a (a_num a + 1) = Some (EOK, a\<lparr>a_num := a_num a + 1\<rparr>)"
    using room by (auto simp: array_setsize_def)
  with a_rep_extend [OF r room, of x] show ?thesis
    by (auto simp: array_add_def)
qed

lemma array_add_rep:
  assumes r: "a_rep a xs"
  shows "(\<exists>a'. array_add km a x = Some (EOK, a') \<and> a_rep a' (xs @ [x]) \<and> a_max a \<le> a_max a') \<or>
         array_add km a x = Some (ENOMEM, a) \<and> int (length xs) = a_max a"
proof (cases "int (length xs) < a_max a")
  case True
  with array_add_room [OF r True] show ?thesis by fastforce
next
  case False
  have w: "a_num a \<le> a_max a" "a_num a = int (length xs)" "a_max a < 2 ^ 27"
    using r by (simp_all add: a_rep_def a_wf_def)
  with False have full: "int (length xs) = a_max a" by simp
  with w have n: "a_max a < a_num a + 1" "a_num a + 1 < 2 ^ 29" by simp_all
  from array_setsize_grow_rep [OF r n, of km] show ?thesis
  proof (elim disjE exE conjE)
    fix a1 assume s: "array_setsize km a (a_num a + 1) = Some (EOK, a1\<lparr>a_num := a_num a + 1\<rparr>)"
      and r1: "a_rep a1 xs" and m: "a_num a + 1 \<le> a_max a1" "a_max a \<le> a_max a1"
    have e: "a_num a1 = a_num a" using r1 w by (simp add: a_rep_def)
    have "int (length xs) < a_max a1" using m w by simp
    from a_rep_extend [OF r1 this, of x] s m e show ?thesis
      by (auto simp: array_add_def)
  next
    assume "array_setsize km a (a_num a + 1) = Some (ENOMEM, a)"
    with full show ?thesis by (simp add: array_add_def)
  qed
qed

lemma array_remove_rep:
  assumes r: "a_rep a xs" and k: "k < length xs"
  shows "\<exists>a'. array_remove a (int k) = Some a' \<and> a_rep a' (take k xs @ drop (Suc k) xs) \<and> a_max a' = a_max a"
proof -
  have w: "a_num a \<le> a_max a" "a_num a = int (length xs)" "a_max a < 2 ^ 27"
    "length (a_cells a) = nat (a_max a)" "take (length xs) (a_cells a) = map Some xs"
    using r by (simp_all add: a_rep_def a_wf_def)
  let ?c = "a_cells a"
  let ?n = "length xs - Suc k"
  let ?v = "take k ?c @ take ?n (drop (Suc k) ?c) @ drop (k + ?n) ?c"
  have l: "length xs \<le> length ?c" using w by simp
  have v: "move_cells ?c (int k) ?c (int k + 1) (a_num a - (int k + 1)) = Some ?v"
  proof (cases "?n = 0")
    case True
    with k w have "a_num a - (int k + 1) = 0" by simp
    with True show ?thesis by (simp add: move_cells_def)
  next
    case False
    with k have e: "a_num a - (int k + 1) = int ?n" "int k + int ?n \<le> int (length ?c)"
      "int k + 1 + int ?n \<le> int (length ?c)" "nat (int k + 1) = Suc k" "nat (int k + int ?n) = k + ?n"
      using w l by linarith+
    show ?thesis unfolding e(1) using e(2-5) False
      by (simp add: move_cells_def del: of_nat_diff)
  qed
  have "take k ?c = map Some (take k xs)"
    using arg_cong [OF w(5), of "take k"] k by (simp add: take_map min_def)
  moreover have "take ?n (drop (Suc k) ?c) = map Some (drop (Suc k) xs)"
    using arg_cong [OF w(5), of "drop (Suc k)"] k by (simp add: drop_take drop_map)
  ultimately have "take (length xs - 1) ?v = map Some (take k xs @ drop (Suc k) xs)"
    using k l by simp
  moreover have "length ?v = length ?c" using k l by simp
  moreover have "array_remove a (int k) = Some (a\<lparr>a_v := Some ?v, a_num := a_num a - 1\<rparr>)"
    using w k v by (simp add: array_remove_def Let_def)
  ultimately show ?thesis
    using w k by (auto simp: a_rep_def a_wf_def a_cells_def)
qed

section \<open>The contract\<close>

interpretation ka: dynarray a_inv a_list a_cap array_getnum array_getguy array_setguy array_add array_remove
proof (unfold_locales, goal_cases)
  case (1 a)
  then show ?case by (rule array_getnum_rep [OF a_inv_rep])
next
  case (2 a k)
  then show ?case by (simp add: array_getguy_rep [OF a_inv_rep])
next
  case (3 a i)
  then show ?case by (simp add: array_getguy_range)
next
  case (4 a k x)
  then show ?case using array_setguy_rep [OF a_inv_rep [OF 4(1)] 4(2), of x]
    by (metis a_cap_def a_rep_inv a_rep_list)
next
  case (5 a km x)
  show ?case using array_add_rep [OF a_inv_rep [OF 5], of km x]
    by (metis a_cap_def a_rep_inv a_rep_list nat_mono)
next
  case (6 a km x)
  then have "int (length (a_list a)) < a_max a" by (simp add: a_cap_def)
  from array_add_room [OF a_inv_rep [OF 6(1)] this, of km x] show ?case
    by (metis a_cap_def a_rep_inv a_rep_list)
next
  case (7 a k)
  show ?case using array_remove_rep [OF a_inv_rep [OF 7(1)] 7(2)]
    by (metis a_cap_def a_rep_inv a_rep_list)
qed

lemma array_preallocate_inv:
  assumes "a_inv a" and "n < 2 ^ 29"
  shows "(\<exists>a'. array_preallocate km a n = Some (EOK, a') \<and> a_inv a' \<and> a_list a' = a_list a \<and>
            nat n \<le> a_cap a' \<and> a_cap a \<le> a_cap a') \<or>
         array_preallocate km a n = Some (ENOMEM, a)"
  using array_preallocate_rep [OF a_inv_rep [OF assms(1)] assms(2), of km]
  by (metis a_cap_def a_rep_inv a_rep_list nat_mono)

lemma array_setsize_shrink:
  assumes "a_inv a" and "n \<le> length (a_list a)"
  shows "\<exists>a'. array_setsize km a (int n) = Some (EOK, a') \<and> a_inv a' \<and> a_list a' = take n (a_list a)"
proof -
  define xs where "xs = a_list a"
  have w: "0 \<le> a_num a" "a_num a \<le> a_max a" "a_num a = int (length xs)" "a_max a < 2 ^ 27"
    "length (a_cells a) = nat (a_max a)" "take (length xs) (a_cells a) = map Some xs"
    using a_inv_rep [OF assms(1)] by (simp_all add: a_rep_def a_wf_def xs_def)
  have n: "n \<le> length xs" using assms(2) by (simp add: xs_def)
  have t: "take n (a_cells a) = map Some (take n xs)"
    using arg_cong [OF w(6), of "take n"] n by (simp add: take_map min_def)
  show ?thesis
  proof (cases "n = 0 \<and> a_max a > 16")
    case True
    with w(5) have v: "a_v a \<noteq> None" by (cases "a_v a") (auto simp: a_cells_def)
    let ?a = "a\<lparr>a_v := None, a_max := 0, a_num := 0\<rparr>"
    have "a_rep ?a []" by (simp add: a_rep_def a_wf_def a_cells_def)
    moreover have "array_setsize km a (int n) = Some (EOK, ?a)"
      using w v True by (simp add: array_setsize_def)
    ultimately show ?thesis using True by (simp add: a_rep_inv a_rep_list)
  next
    case False
    let ?a = "a\<lparr>a_num := int n\<rparr>"
    have "a_cells ?a = a_cells a" by (simp add: a_cells_def)
    then have "a_rep ?a (take n xs)"
      using w n t by (simp add: a_rep_def a_wf_def min_def)
    moreover have "array_setsize km a (int n) = Some (EOK, ?a)"
      using w n False by (auto simp: array_setsize_def)
    ultimately show ?thesis using a_rep_inv a_rep_list xs_def by blast
  qed
qed

lemma array_create_inv: "array_create km = Some a \<Longrightarrow> a_inv a \<and> a_list a = []"
  using array_create_rep [of km a] by (simp add: a_rep_inv a_rep_list)

text \<open>A loop over the elements by index that leaves the array alone is a loop over the contents.\<close>

lemma kfold_array_from:
  assumes inv: "a_inv (arr s)"
    and keep: "\<And>s z s'. f s z = Some s' \<Longrightarrow> arr s' = arr s"
  shows "k \<le> length (a_list (arr s)) \<Longrightarrow>
    kfold (\<lambda>s i. do { z \<leftarrow> array_getguy (arr s) i; f s z }) s (map int [k..<length (a_list (arr s))]) =
    kfold f s (drop k (a_list (arr s)))"
  using inv
proof (induction "length (a_list (arr s)) - k" arbitrary: k s)
  case 0
  then show ?case by simp
next
  case (Suc d)
  then have k: "k < length (a_list (arr s))" by simp
  have g: "array_getguy (arr s) (int k) = Some (a_list (arr s) ! k)"
    using ka.get_nth Suc.prems(2) k by blast
  have u: "[k..<length (a_list (arr s))] = k # [Suc k..<length (a_list (arr s))]"
    using k by (simp add: upt_conv_Cons)
  show ?case
  proof (cases "f s (a_list (arr s) ! k)")
    case None
    then show ?thesis unfolding u using g k by (simp flip: Cons_nth_drop_Suc)
  next
    case (Some s')
    then have a: "arr s' = arr s" using keep by blast
    have "kfold (\<lambda>s i. do { z \<leftarrow> array_getguy (arr s) i; f s z }) s' (map int [Suc k..<length (a_list (arr s'))]) =
        kfold f s' (drop (Suc k) (a_list (arr s')))"
      by (rule Suc.hyps(1)) (use Suc.hyps(2) Suc.prems k a in simp_all)
    then show ?thesis unfolding u using g k Some a by (simp flip: Cons_nth_drop_Suc)
  qed
qed

lemma kfold_array:
  assumes "a_inv (arr s)" and "\<And>s z s'. f s z = Some s' \<Longrightarrow> arr s' = arr s"
  shows "kfold (\<lambda>s i. do { z \<leftarrow> array_getguy (arr s) i; f s z }) s (map int [0..<nat (array_getnum (arr s))]) =
    kfold f s (a_list (arr s))"
  using kfold_array_from [of arr s f 0] assms ka.num_length [OF assms(1)] by simp

section \<open>Properties\<close>

text \<open>After a successful \<^verbatim>\<open>array_preallocate(a, n)\<close> with room for one more, \<^verbatim>\<open>array_add\<close>
  cannot fail, even if no memory is left: the element is stored at the old \<^verbatim>\<open>array_getnum\<close> and all
  other elements stay where they were. (This is what the thread system relies on to put a thread on
  the sleepers or zombies list.)\<close>

theorem array_add_after_preallocate:
  assumes "a_inv a" and "n < 2 ^ 29" and "array_preallocate km a n = Some (EOK, a1)"
    and "array_getnum a < n"
  shows "\<exists>a2. array_add False a1 x = Some (EOK, a2) \<and> a_inv a2 \<and>
    array_getguy a2 (array_getnum a) = Some x \<and>
    (\<forall>k < length (a_list a). array_getguy a2 (int k) = array_getguy a (int k))"
proof -
  from array_preallocate_inv [OF assms(1,2), of km] assms(3)
  have a1: "a_inv a1" "a_list a1 = a_list a" "nat n \<le> a_cap a1" by auto
  then have "length (a_list a1) < a_cap a1"
    using assms(4) ka.num_length [OF assms(1)] by simp
  from ka.add_room [OF a1(1) this, of False x] obtain a2 where
    a2: "array_add False a1 x = Some (EOK, a2)" "a_inv a2" by blast
  from ka.get_add [OF a1(1) a2(1)] a1 a2 show ?thesis
    using ka.num_length [OF assms(1)] ka.num_length [OF a1(1)] ka.get_nth [OF assms(1)]
      ka.get_nth [OF a1(1)] by auto
qed

theorem array_add_after_preallocate_witness:
  "\<exists>a0 a1 a2. array_create True = Some a0 \<and> array_preallocate True a0 1 = Some (EOK, a1) \<and>
     array_add False a1 (9::nat) = Some (EOK, a2) \<and> array_getguy a2 0 = Some 9"
proof -
  let ?a = "\<lparr>a_num = 0, a_max = 0, a_v = None\<rparr> :: nat karray"
  have c: "array_create True = Some ?a"
    by (simp add: array_create_def kmalloc_ok_def RAM_MAX_def)
  have "array_newmax 1 0 = Some 2"
    by (subst array_newmax.simps, simp add: s32_def, subst array_newmax.simps, simp)
  then obtain a1 where p: "array_preallocate True ?a 1 = Some (EOK, a1)"
    by (auto simp: array_preallocate_def kmalloc_ok_def RAM_MAX_def move_cells_def)
  have "a_inv ?a" "array_getnum ?a = 0"
    using array_create_inv [OF c] by (simp_all add: array_getnum_def)
  with array_add_after_preallocate [OF _ _ p, of 9] c p show ?thesis by auto
qed

text \<open>\<^verbatim>\<open>array_remove\<close> of a valid index closes the gap: the other elements keep their order,
  the array stays well formed and its capacity does not change. An invalid index panics.\<close>

theorem array_remove_closes_gap:
  assumes "a_inv a"
  shows "if 0 \<le> i \<and> i < array_getnum a
    then \<exists>a'. array_remove a i = Some a' \<and> a_inv a' \<and> a_max a' = a_max a \<and>
      a_list a' = take (nat i) (a_list a) @ drop (Suc (nat i)) (a_list a)
    else array_remove a i = None"
proof (cases "0 \<le> i \<and> i < array_getnum a")
  case True
  then have "nat i < length (a_list a)" using ka.num_length [OF assms] by linarith
  from array_remove_rep [OF a_inv_rep [OF assms] this] True show ?thesis
    by (auto simp: a_rep_inv a_rep_list)
next
  case False
  then show ?thesis by (auto simp: array_remove_def array_getnum_def kassert_def)
qed

theorem array_remove_closes_gap_witness:
  "\<exists>a'. array_remove \<lparr>a_num = 3, a_max = 4, a_v = Some [Some (1::nat), Some 2, Some 3, None]\<rparr> 1 = Some a' \<and>
     a_list a' = [1, 3]"
proof -
  let ?a = "\<lparr>a_num = 3, a_max = 4, a_v = Some [Some (1::nat), Some 2, Some 3, None]\<rparr>"
  have "a_inv ?a" by code_simp
  moreover have "a_list ?a = [1, 2, 3]" by code_simp
  ultimately show ?thesis using array_remove_closes_gap [of ?a 1] by (auto simp: array_getnum_def)
qed

end
