(* ===== verification/Kstate.thy ===== *)
theory Kstate
  imports Kqueue Karray
begin

text \<open>
  The state of the thread system: the globals of \<^verbatim>\<open>thread.c\<close>, \<^verbatim>\<open>scheduler.c\<close>,
  \<^verbatim>\<open>spl.c\<close>, \<^verbatim>\<open>interrupt.c\<close>, \<^verbatim>\<open>hardclock.c\<close>, the objects of \<^verbatim>\<open>synch.c\<close> and the
  process table of \<^verbatim>\<open>pid_manager.c\<close>, as one record.

  \<^item> A thread structure is named by its address (\<open>tid\<close>); \<open>k_threads\<close> is the heap of thread
    structures, \<open>None\<close> where nothing is allocated.
  \<^item> \<open>t_frames\<close> is the kernel stack of a thread: one \<open>kframe\<close> for each C function that is waiting
    for a call to return, the innermost first. A blocked call is resumed at its frame; a thread
    whose stack is empty is running code of its own and may call any kernel operation. \<open>t_fresh\<close>
    marks a switch frame set up by \<^verbatim>\<open>md_initpcb\<close>, which starts at \<^verbatim>\<open>mi_threadstart\<close>.
  \<^item> Semaphores, locks and condition variables are named by addresses of their own kind; \<open>waddr\<close> is
    the type of sleep addresses.
  \<^item> \<open>k_idle\<close> is \<open>Some cur\<close> while the scheduler loops in \<^verbatim>\<open>cpu_idle\<close> on behalf of the
    \<^verbatim>\<open>mi_switch\<close> of thread \<open>cur\<close>; \<^verbatim>\<open>curthread\<close> is NULL then.
  \<^item> \<open>k_calls\<close> lists the calls into the VM system and the vnode layer, the latest first.
\<close>

section \<open>Types\<close>

type_synonym tid = nat

datatype waddr = WSem nat | WLock nat | WCv nat | WLbolt | WOther nat

datatype threadstate = S_RUN | S_READY | S_SLEEP | S_ZOMB

datatype kframe =
    F_sleep
  | F_yield int
  | F_intr int int
  | F_P nat int
  | F_lock_acquire nat int
  | F_cv_relock nat int
  | F_splx int
  | F_clocksleep int int
  | F_exit_locked int int nat
  | F_thread_exit
  | F_wait_acquire int
  | F_wait_locked int
  | F_wait_status int

datatype extcall = AsActivate nat | AsDestroy nat | VnIncref nat | VnDecref nat

record thread =
  t_name :: string
  t_sleepaddr :: "waddr option"
  t_stack :: "u8 list option"
  t_pid :: int
  t_vmspace :: "nat option"
  t_cwd :: "nat option"
  t_ininterrupt :: int
  t_fresh :: bool
  t_frames :: "kframe list"
  t_result :: "errno \<times> int"

record pid_info_block =
  my_pid :: int
  my_parent :: int
  children :: "nat karray"
  is_exited :: bool
  exit_status :: int
  exit_cv :: nat

record pid_manager =
  pid_before :: "nat option"
  pid_info_blocks :: "nat option list"
  number_of_procs :: int
  next_pid :: int
  pid_lock :: nat

record kernel =
  k_curspl :: int
  k_iec :: bool
  k_inintr :: int
  k_curthread :: "tid option"
  k_idle :: "tid option"
  k_threads :: "tid \<Rightarrow> thread option"
  k_runqueue :: "tid queue"
  k_sleepers :: "tid karray"
  k_zombies :: "tid karray"
  k_numthreads :: int
  k_lbolt :: int
  k_sems :: "nat \<Rightarrow> int option"
  k_locks :: "nat \<Rightarrow> tid option option"
  k_cvs :: "nat \<Rightarrow> bool"
  k_pids :: "nat \<Rightarrow> pid_info_block option"
  k_pm :: pid_manager
  k_calls :: "extcall list"

text \<open>Whether the allocations an operation makes succeed: one answer per allocation, by its index.\<close>

type_synonym mem = "nat \<Rightarrow> bool"

definition mem_skip :: "nat \<Rightarrow> mem \<Rightarrow> mem" where
  "mem_skip n km = (\<lambda>i. km (n + i))"

section \<open>Threads in the heap\<close>

definition upd_thread :: "tid \<Rightarrow> (thread \<Rightarrow> thread) \<Rightarrow> kernel \<Rightarrow> kernel kern" where
  "upd_thread t f st =
     do { th \<leftarrow> k_threads st t; Some (st\<lparr>k_threads := (k_threads st)(t \<mapsto> f th)\<rparr>) }"

definition upd_cur :: "(thread \<Rightarrow> thread) \<Rightarrow> kernel \<Rightarrow> kernel kern" where
  "upd_cur f st = do { t \<leftarrow> k_curthread st; upd_thread t f st }"

definition push_frame :: "kframe \<Rightarrow> kernel \<Rightarrow> kernel kern" where
  "push_frame f = upd_cur (\<lambda>th. th\<lparr>t_frames := f # t_frames th\<rparr>)"

definition set_result :: "errno \<times> int \<Rightarrow> kernel \<Rightarrow> kernel kern" where
  "set_result r = upd_cur (\<lambda>th. th\<lparr>t_result := r\<rparr>)"

section \<open>Interrupt level\<close>

definition SPL_HIGH :: int where
  "SPL_HIGH = 15"

definition interrupts_on :: "kernel \<Rightarrow> kernel" where
  "interrupts_on st = st\<lparr>k_iec := True\<rparr>"

definition interrupts_off :: "kernel \<Rightarrow> kernel" where
  "interrupts_off st = st\<lparr>k_iec := False\<rparr>"

definition splx :: "int \<Rightarrow> kernel \<Rightarrow> int \<times> kernel" where
  "splx newspl st =
     (let st1 = (if newspl > 0 then interrupts_off st
                 else if newspl = 0 then interrupts_on st else st)
      in (k_curspl st1, st1\<lparr>k_curspl := newspl\<rparr>))"

definition splhigh :: "kernel \<Rightarrow> int \<times> kernel" where
  "splhigh = splx SPL_HIGH"

definition spl0 :: "kernel \<Rightarrow> int \<times> kernel" where
  "spl0 = splx 0"

lemma splx_simps [simp]:
  "fst (splx s st) = k_curspl st"
  "k_curspl (snd (splx s st)) = s"
  "k_inintr (snd (splx s st)) = k_inintr st"
  "k_curthread (snd (splx s st)) = k_curthread st"
  "k_idle (snd (splx s st)) = k_idle st"
  "k_threads (snd (splx s st)) = k_threads st"
  "k_runqueue (snd (splx s st)) = k_runqueue st"
  "k_sleepers (snd (splx s st)) = k_sleepers st"
  "k_zombies (snd (splx s st)) = k_zombies st"
  "k_numthreads (snd (splx s st)) = k_numthreads st"
  "k_lbolt (snd (splx s st)) = k_lbolt st"
  "k_sems (snd (splx s st)) = k_sems st"
  "k_locks (snd (splx s st)) = k_locks st"
  "k_cvs (snd (splx s st)) = k_cvs st"
  "k_pids (snd (splx s st)) = k_pids st"
  "k_pm (snd (splx s st)) = k_pm st"
  "k_calls (snd (splx s st)) = k_calls st"
  by (simp_all add: splx_def interrupts_on_def interrupts_off_def Let_def)

lemma splhigh_splx [simp]: "splhigh = splx SPL_HIGH" "spl0 = splx 0"
  by (simp_all add: splhigh_def spl0_def)

lemma splx_pair: "splx s st = (k_curspl st, snd (splx s st))"
  by (simp add: prod_eq_iff)

text \<open>The flag in the status register agrees with \<^verbatim>\<open>curspl\<close> after \<^verbatim>\<open>splx\<close> of a level in use.\<close>

lemma splx_iec: "0 \<le> s \<Longrightarrow> k_iec (snd (splx s st)) \<longleftrightarrow> s = 0"
  by (simp add: splx_def interrupts_on_def interrupts_off_def Let_def)

end
