(* ===== verification/Threads.thy ===== *)
theory Threads
  imports Kstate "HOL-Library.Multiset"
begin

text \<open>
  \<^verbatim>\<open>scheduler.c\<close>, the context switch of \<^verbatim>\<open>thread.c\<close> and \<^verbatim>\<open>pcb.c\<close>, and the sleep and
  wakeup operations of \<^verbatim>\<open>thread.c\<close>. (\<^verbatim>\<open>thread_fork\<close>, \<^verbatim>\<open>thread_exit\<close> and
  \<^verbatim>\<open>thread_bootstrap\<close>, which call the process table, are in \<open>Process\<close>.)

  \<^verbatim>\<open>mi_switch\<close> is modelled up to the point where the next thread runs: it stores the current
  thread on a list, lets the scheduler pick the next one and does what that thread does when it
  comes out of \<^verbatim>\<open>md_switch\<close> (\<^verbatim>\<open>exorcise\<close>, \<^verbatim>\<open>as_activate\<close>; for a new thread the start of
  \<^verbatim>\<open>mi_threadstart\<close>). If nothing is runnable the machine idles (\<open>k_idle\<close>) until an interrupt
  makes a thread runnable; \<open>scheduler_loop\<close> is one round of the scheduler's loop.
\<close>

section \<open>scheduler.c\<close>

definition scheduler_bootstrap :: "bool \<Rightarrow> bool \<Rightarrow> kernel \<Rightarrow> kernel kern" where
  "scheduler_bootstrap km1 km2 st =
     (case q_create km1 km2 32 of None \<Rightarrow> None | Some q \<Rightarrow> Some (st\<lparr>k_runqueue := q\<rparr>))"

definition scheduler_preallocate :: "bool \<Rightarrow> int \<Rightarrow> kernel \<Rightarrow> (errno \<times> kernel) kern" where
  "scheduler_preallocate km nthreads st =
     do {
       kassert (k_curspl st > 0);
       (e, q) \<leftarrow> q_preallocate km (k_runqueue st) nthreads;
       Some (e, st\<lparr>k_runqueue := q\<rparr>)
     }"

partial_function (option) scheduler_drain :: "kernel \<Rightarrow> kernel option" where
  "scheduler_drain st =
     (if \<not> q_empty (k_runqueue st)
      then do {
        (t, q) \<leftarrow> q_remhead (k_runqueue st);
        th \<leftarrow> k_threads st t;
        scheduler_drain (st\<lparr>k_runqueue := q\<rparr>)
      }
      else Some st)"

declare scheduler_drain.simps [code]

definition scheduler_killall :: "kernel \<Rightarrow> kernel kern" where
  "scheduler_killall st = do { kassert (k_curspl st > 0); scheduler_drain st }"

definition scheduler_shutdown :: "kernel \<Rightarrow> kernel kern" where
  "scheduler_shutdown st =
     do {
       st1 \<leftarrow> scheduler_killall st;
       kassert (k_curspl st1 > 0);
       q_destroy (k_runqueue st1);
       Some st1
     }"

definition make_runnable :: "bool \<Rightarrow> tid \<Rightarrow> kernel \<Rightarrow> (errno \<times> kernel) kern" where
  "make_runnable km t st =
     do {
       kassert (k_curspl st > 0);
       (e, q) \<leftarrow> q_addtail km (k_runqueue st) t;
       Some (e, st\<lparr>k_runqueue := q\<rparr>)
     }"

section \<open>The context switch\<close>

definition stack_ok :: "thread \<Rightarrow> bool" where
  "stack_ok th =
     (case t_stack th of None \<Rightarrow> True | Some s \<Rightarrow> take 4 s = [0xae, 0x11, 0xda, 0x33])"

definition as_activate :: "kernel \<Rightarrow> kernel kern" where
  "as_activate st =
     do {
       t \<leftarrow> k_curthread st;
       th \<leftarrow> k_threads st t;
       Some (case t_vmspace th of None \<Rightarrow> st | Some as \<Rightarrow> st\<lparr>k_calls := AsActivate as # k_calls st\<rparr>)
     }"

definition thread_destroy :: "tid \<Rightarrow> kernel \<Rightarrow> kernel kern" where
  "thread_destroy t st =
     do {
       kassert (k_curthread st \<noteq> Some t);
       th \<leftarrow> k_threads st t;
       kassert (t_vmspace th = None);
       kassert (t_cwd th = None);
       Some (st\<lparr>k_threads := (k_threads st)(t := None)\<rparr>)
     }"

definition exorcise :: "kernel \<Rightarrow> kernel kern" where
  "exorcise st =
     do {
       kassert (k_curspl st > 0);
       st1 \<leftarrow> kfold (\<lambda>st i. do {
                z \<leftarrow> array_getguy (k_zombies st) i;
                kassert (k_curthread st \<noteq> Some z);
                thread_destroy z st
              }) st (map int [0..<nat (array_getnum (k_zombies st))]);
       (result, zs) \<leftarrow> array_setsize False (k_zombies st1) 0;
       kassert (result = EOK);
       Some (st1\<lparr>k_zombies := zs\<rparr>)
     }"

text \<open>The saved copies of the globals in \<^verbatim>\<open>md_switch\<close>.\<close>

definition md_switch :: "tid \<Rightarrow> tid \<Rightarrow> kernel \<Rightarrow> kernel kern" where
  "md_switch old nu st =
     (if old = nu then Some st
      else do {
        st1 \<leftarrow> upd_thread old (\<lambda>th. th\<lparr>t_ininterrupt := k_inintr st\<rparr>) st;
        th \<leftarrow> k_threads st1 nu;
        Some (st1\<lparr>k_inintr := t_ininterrupt th\<rparr>)
      })"

definition switch_to :: "tid \<Rightarrow> tid \<Rightarrow> kernel \<Rightarrow> kernel kern" where
  "switch_to old nu st =
     do {
       st1 \<leftarrow> md_switch old nu (st\<lparr>k_curthread := Some nu\<rparr>);
       th \<leftarrow> k_threads st1 nu;
       if t_fresh th then
         do {
           st2 \<leftarrow> upd_cur (\<lambda>th. th\<lparr>t_fresh := False\<rparr>) st1;
           st3 \<leftarrow> as_activate st2;
           Some (snd (spl0 st3))
         }
       else do { st2 \<leftarrow> exorcise st1; as_activate st2 }
     }"

definition scheduler_loop :: "tid \<Rightarrow> kernel \<Rightarrow> kernel kern" where
  "scheduler_loop cur st =
     do {
       kassert (k_curspl st > 0);
       if q_empty (k_runqueue st) then Some (st\<lparr>k_idle := Some cur\<rparr>)
       else do {
         (nu, q) \<leftarrow> q_remhead (k_runqueue st);
         switch_to cur nu (st\<lparr>k_runqueue := q, k_idle := None\<rparr>)
       }
     }"

definition sleepers_add :: "bool \<Rightarrow> tid \<Rightarrow> kernel \<Rightarrow> (errno \<times> kernel) kern" where
  "sleepers_add km t st =
     do { (e, a) \<leftarrow> array_add km (k_sleepers st) t; Some (e, st\<lparr>k_sleepers := a\<rparr>) }"

definition zombies_add :: "bool \<Rightarrow> tid \<Rightarrow> kernel \<Rightarrow> (errno \<times> kernel) kern" where
  "zombies_add km t st =
     do { (e, a) \<leftarrow> array_add km (k_zombies st) t; Some (e, st\<lparr>k_zombies := a\<rparr>) }"

definition mi_switch :: "mem \<Rightarrow> threadstate \<Rightarrow> kernel \<Rightarrow> kernel kern" where
  "mi_switch km nextstate st =
     do {
       kassert (k_curspl st > 0);
       (case k_curthread st of
          None \<Rightarrow> Some st
        | Some cur \<Rightarrow>
            do {
              th \<leftarrow> k_threads st cur;
              kassert (stack_ok th);
              let st1 = st\<lparr>k_curthread := None\<rparr>;
              (result, st2) \<leftarrow>
                (case nextstate of
                   S_READY \<Rightarrow> make_runnable (km 0) cur st1
                 | S_SLEEP \<Rightarrow> sleepers_add (km 0) cur st1
                 | S_ZOMB \<Rightarrow> zombies_add (km 0) cur st1
                 | S_RUN \<Rightarrow> None);
              kassert (result = EOK);
              scheduler_loop cur st2
            })
     }"

text \<open>One more round of the scheduler's idle loop.\<close>

definition idle_round :: "kernel \<Rightarrow> kernel kern" where
  "idle_round st = do { cur \<leftarrow> k_idle st; scheduler_loop cur st }"

section \<open>Yield, sleep and wakeup\<close>

definition thread_yield :: "mem \<Rightarrow> kernel \<Rightarrow> kernel kern" where
  "thread_yield km st =
     (let (spl, st1) = splhigh st in
      case k_curthread st1 of
        None \<Rightarrow> do { st2 \<leftarrow> mi_switch km S_READY st1; Some (snd (splx spl st2)) }
      | Some _ \<Rightarrow> do { st2 \<leftarrow> push_frame (F_yield spl) st1; mi_switch km S_READY st2 })"

definition thread_sleep :: "mem \<Rightarrow> waddr \<Rightarrow> kernel \<Rightarrow> kernel kern" where
  "thread_sleep km addr st =
     do {
       kassert (k_inintr st = 0);
       st1 \<leftarrow> upd_cur (\<lambda>th. th\<lparr>t_sleepaddr := Some addr\<rparr>) st;
       st2 \<leftarrow> push_frame F_sleep st1;
       mi_switch km S_SLEEP st2
     }"

partial_function (option) wakeup_loop ::
  "mem \<Rightarrow> waddr \<Rightarrow> int \<Rightarrow> kernel \<Rightarrow> kernel option" where
  "wakeup_loop km addr i st =
     (if i < array_getnum (k_sleepers st) then
        do {
          t \<leftarrow> array_getguy (k_sleepers st) i;
          th \<leftarrow> k_threads st t;
          if t_sleepaddr th = Some addr then
            do {
              a \<leftarrow> array_remove (k_sleepers st) i;
              (result, st1) \<leftarrow> make_runnable (km 0) t (st\<lparr>k_sleepers := a\<rparr>);
              kassert (result = EOK);
              wakeup_loop (mem_skip 1 km) addr i st1
            }
          else wakeup_loop km addr (i + 1) st
        }
      else Some st)"

declare wakeup_loop.simps [code]

definition thread_wakeup :: "mem \<Rightarrow> waddr \<Rightarrow> kernel \<Rightarrow> kernel kern" where
  "thread_wakeup km addr st = do { kassert (k_curspl st > 0); wakeup_loop km addr 0 st }"

partial_function (option) wake_one_loop ::
  "bool \<Rightarrow> waddr \<Rightarrow> int \<Rightarrow> kernel \<Rightarrow> kernel option" where
  "wake_one_loop km addr i st =
     (if i < array_getnum (k_sleepers st) then
        do {
          t \<leftarrow> array_getguy (k_sleepers st) i;
          th \<leftarrow> k_threads st t;
          if t_sleepaddr th = Some addr then
            do {
              a \<leftarrow> array_remove (k_sleepers st) i;
              (result, st1) \<leftarrow> make_runnable km t (st\<lparr>k_sleepers := a\<rparr>);
              kassert (result = EOK);
              Some st1
            }
          else wake_one_loop km addr (i + 1) st
        }
      else Some st)"

declare wake_one_loop.simps [code]

definition thread_wake_one :: "bool \<Rightarrow> waddr \<Rightarrow> kernel \<Rightarrow> kernel kern" where
  "thread_wake_one km addr st = do { kassert (k_curspl st > 0); wake_one_loop km addr 0 st }"

partial_function (option) hassleepers_loop :: "waddr \<Rightarrow> int \<Rightarrow> kernel \<Rightarrow> bool option" where
  "hassleepers_loop addr i st =
     (if i < array_getnum (k_sleepers st) then
        do {
          t \<leftarrow> array_getguy (k_sleepers st) i;
          th \<leftarrow> k_threads st t;
          if t_sleepaddr th = Some addr then Some True else hassleepers_loop addr (i + 1) st
        }
      else Some False)"

declare hassleepers_loop.simps [code]

definition thread_hassleepers :: "waddr \<Rightarrow> kernel \<Rightarrow> bool kern" where
  "thread_hassleepers addr st = do { kassert (k_curspl st > 0); hassleepers_loop addr 0 st }"

section \<open>Panic\<close>

definition thread_killall :: "kernel \<Rightarrow> kernel kern" where
  "thread_killall st =
     do {
       kassert (k_curspl st > 0);
       kfold (\<lambda>_ i. do { t \<leftarrow> array_getguy (k_sleepers st) i; th \<leftarrow> k_threads st t; Some () }) ()
         (map int [0..<nat (array_getnum (k_sleepers st))]);
       (result, a) \<leftarrow> array_setsize False (k_sleepers st) 0;
       kassert (result = EOK);
       Some (st\<lparr>k_sleepers := a\<rparr>)
     }"

definition thread_panic :: "kernel \<Rightarrow> kernel kern" where
  "thread_panic st =
     do { kassert (k_curspl st > 0); st1 \<leftarrow> thread_killall st; scheduler_killall st1 }"

section \<open>The thread lists\<close>

definition cur_list :: "kernel \<Rightarrow> tid list" where
  "cur_list st = (case k_curthread st of None \<Rightarrow> [] | Some t \<Rightarrow> [t])"

abbreviation runq :: "kernel \<Rightarrow> tid list" where
  "runq st \<equiv> q_list (k_runqueue st)"

abbreviation sleepers :: "kernel \<Rightarrow> tid list" where
  "sleepers st \<equiv> a_list (k_sleepers st)"

abbreviation zombies :: "kernel \<Rightarrow> tid list" where
  "zombies st \<equiv> a_list (k_zombies st)"

definition live_tids :: "kernel \<Rightarrow> tid list" where
  "live_tids st = cur_list st @ runq st @ sleepers st"

definition k_struct :: "kernel \<Rightarrow> bool" where
  "k_struct st \<longleftrightarrow> q_inv (k_runqueue st) \<and> a_inv (k_sleepers st) \<and> a_inv (k_zombies st)"

text \<open>Every thread structure is on exactly one of: the CPU, the run queue, the sleepers list and the
  zombies list; \<^verbatim>\<open>numthreads\<close> counts all but the zombies; the CPU idles exactly when there is no
  current thread.\<close>

definition inv_lists :: "kernel \<Rightarrow> bool" where
  "inv_lists st \<longleftrightarrow> k_struct st \<and> distinct (live_tids st @ zombies st) \<and>
     set (live_tids st @ zombies st) = dom (k_threads st) \<and>
     k_numthreads st = int (length (live_tids st)) \<and>
     (k_curthread st = None \<longleftrightarrow> k_idle st \<noteq> None)"

text \<open>What a sleeper may sleep on: a semaphore at zero, a lock that is held, or something else.\<close>

definition blocked :: "kernel \<Rightarrow> waddr \<Rightarrow> bool" where
  "blocked st a = (case a of WSem s \<Rightarrow> k_sems st s = Some 0
                   | WLock l \<Rightarrow> (\<exists>t. k_locks st l = Some (Some t)) | _ \<Rightarrow> True)"

definition sleeper_ok :: "kernel \<Rightarrow> tid \<Rightarrow> bool" where
  "sleeper_ok st t \<longleftrightarrow> (\<exists>th a. k_threads st t = Some th \<and> t_sleepaddr th = Some a \<and> blocked st a)"

definition zombie_ok :: "kernel \<Rightarrow> tid \<Rightarrow> bool" where
  "zombie_ok st t \<longleftrightarrow> (\<exists>th. k_threads st t = Some th \<and> t_vmspace th = None \<and> t_cwd th = None)"

definition k_inv :: "kernel \<Rightarrow> bool" where
  "k_inv st \<longleftrightarrow> inv_lists st \<and> list_all (sleeper_ok st) (sleepers st) \<and> list_all (zombie_ok st) (zombies st) \<and>
     (\<forall>t th. k_threads st t = Some th \<longrightarrow> stack_ok th)"

text \<open>The part of the state that thread switching does not touch.\<close>

definition k_rest :: "kernel \<Rightarrow> (nat \<Rightarrow> int option) \<times> (nat \<Rightarrow> tid option option) \<times> (nat \<Rightarrow> bool) \<times>
    (nat \<Rightarrow> pid_info_block option) \<times> pid_manager" where
  "k_rest st = (k_sems st, k_locks st, k_cvs st, k_pids st, k_pm st)"

text \<open>Two states of one thread that differ at most in what a context switch stores in it.\<close>

definition same_thread :: "thread \<Rightarrow> thread \<Rightarrow> bool" where
  "same_thread th th' \<longleftrightarrow>
     th' = th\<lparr>t_ininterrupt := t_ininterrupt th', t_fresh := t_fresh th'\<rparr>"

lemma same_thread_refl [simp]: "same_thread th th"
  by (simp add: same_thread_def)

lemma same_thread_trans: "same_thread a b \<Longrightarrow> same_thread b c \<Longrightarrow> same_thread a c"
  by (cases a; cases b; cases c) (simp add: same_thread_def)

lemma same_thread_simps:
  "same_thread th th' \<Longrightarrow> t_frames th' = t_frames th"
  "same_thread th th' \<Longrightarrow> t_sleepaddr th' = t_sleepaddr th"
  "same_thread th th' \<Longrightarrow> t_stack th' = t_stack th"
  "same_thread th th' \<Longrightarrow> t_pid th' = t_pid th"
  "same_thread th th' \<Longrightarrow> t_vmspace th' = t_vmspace th"
  "same_thread th th' \<Longrightarrow> t_cwd th' = t_cwd th"
  "same_thread th th' \<Longrightarrow> t_result th' = t_result th"
  by (cases th; cases th'; simp add: same_thread_def)+

definition threads_le :: "kernel \<Rightarrow> kernel \<Rightarrow> bool" where
  "threads_le st st' \<longleftrightarrow>
     (\<forall>t th'. k_threads st' t = Some th' \<longrightarrow> (\<exists>th. k_threads st t = Some th \<and> same_thread th th'))"

lemma threads_le_refl: "k_threads st' = k_threads st \<Longrightarrow> threads_le st st'"
  by (auto simp: threads_le_def)

lemma threads_le_trans: "threads_le a b \<Longrightarrow> threads_le b c \<Longrightarrow> threads_le a c"
  unfolding threads_le_def by (meson same_thread_trans)

section \<open>Context switches keep the thread lists\<close>

lemma destroy_fold:
  "kfold (\<lambda>st z. do { kassert (k_curthread st \<noteq> Some z); thread_destroy z st }) st xs = Some st' \<Longrightarrow>
   st' = st\<lparr>k_threads := k_threads st |` (- set xs)\<rparr>"
proof (induction xs arbitrary: st)
  case Nil
  then show ?case by (simp add: restrict_map_def)
next
  case (Cons z xs)
  then obtain st1 where s1: "thread_destroy z st = Some st1"
    and r: "kfold (\<lambda>st z. do { kassert (k_curthread st \<noteq> Some z); thread_destroy z st }) st1 xs = Some st'"
    by (auto simp: kern_simps)
  from s1 have e: "st1 = st\<lparr>k_threads := (k_threads st)(z := None)\<rparr>"
    by (auto simp: thread_destroy_def kern_simps)
  from Cons.IH [OF r] show ?case
    unfolding e by (auto simp: restrict_map_def fun_eq_iff intro!: kernel.equality)
qed

lemma destroy_fold_total:
  "distinct xs \<Longrightarrow> list_all (zombie_ok st) xs \<Longrightarrow> \<forall>t\<in>set xs. k_curthread st \<noteq> Some t \<Longrightarrow>
   \<exists>st'. kfold (\<lambda>st z. do { kassert (k_curthread st \<noteq> Some z); thread_destroy z st }) st xs = Some st'"
proof (induction xs arbitrary: st)
  case (Cons z xs)
  let ?s = "st\<lparr>k_threads := (k_threads st)(z := None)\<rparr>"
  have d: "thread_destroy z st = Some ?s"
    using Cons.prems by (auto simp: thread_destroy_def zombie_ok_def)
  have "list_all (zombie_ok ?s) xs"
    using Cons.prems by (auto simp: list_all_iff zombie_ok_def)
  with Cons.IH [of ?s] Cons.prems d show ?case by simp
qed simp

lemma exorcise_fold:
  assumes "a_inv (k_zombies st)"
  shows "kfold (\<lambda>st i. do { z \<leftarrow> array_getguy (k_zombies st) i; kassert (k_curthread st \<noteq> Some z); thread_destroy z st })
      st (map int [0..<nat (array_getnum (k_zombies st))]) =
    kfold (\<lambda>st z. do { kassert (k_curthread st \<noteq> Some z); thread_destroy z st }) st (zombies st)"
  by (rule kfold_array [of k_zombies st, OF assms]) (auto simp: thread_destroy_def kern_simps)

lemma exorcise_Some:
  assumes "k_struct st" and "exorcise st = Some st'"
  shows "\<exists>zs. st' = st\<lparr>k_threads := k_threads st |` (- set (zombies st)), k_zombies := zs\<rparr> \<and>
    a_inv zs \<and> a_list zs = []"
proof -
  have i: "a_inv (k_zombies st)" using assms(1) by (simp add: k_struct_def)
  obtain st1 zs where
    f: "kfold (\<lambda>st z. do { kassert (k_curthread st \<noteq> Some z); thread_destroy z st }) st (zombies st) = Some st1"
    and z: "array_setsize False (k_zombies st1) 0 = Some (EOK, zs)" and st': "st' = st1\<lparr>k_zombies := zs\<rparr>"
    using assms(2) by (auto simp: exorcise_def exorcise_fold [OF i] kern_simps)
  have e: "st1 = st\<lparr>k_threads := k_threads st |` (- set (zombies st))\<rparr>" by (rule destroy_fold [OF f])
  have "\<exists>a'. array_setsize False (k_zombies st) (int 0) = Some (EOK, a') \<and> a_inv a' \<and> a_list a' = []"
    using array_setsize_shrink [OF i, of 0 False] by simp
  with z e have "a_inv zs \<and> a_list zs = []" by auto
  with e st' show ?thesis by auto
qed

lemma exorcise_total:
  assumes "k_struct st" and "k_curspl st > 0" and "distinct (zombies st)"
    and "list_all (zombie_ok st) (zombies st)" and "\<forall>t\<in>set (zombies st). k_curthread st \<noteq> Some t"
  shows "\<exists>st'. exorcise st = Some st'"
proof -
  have i: "a_inv (k_zombies st)" using assms(1) by (simp add: k_struct_def)
  obtain st1 where
    f: "kfold (\<lambda>st z. do { kassert (k_curthread st \<noteq> Some z); thread_destroy z st }) st (zombies st) = Some st1"
    using destroy_fold_total [OF assms(3-5)] by blast
  have e: "st1 = st\<lparr>k_threads := k_threads st |` (- set (zombies st))\<rparr>" by (rule destroy_fold [OF f])
  have "\<exists>a'. array_setsize False (k_zombies st) (int 0) = Some (EOK, a')"
    using array_setsize_shrink [OF i, of 0 False] by auto
  then show ?thesis
    using f e assms(2) by (auto simp: exorcise_def exorcise_fold [OF i])
qed

text \<open>The fields a context switch leaves alone.\<close>

definition switch_frame :: "kernel \<Rightarrow> kernel \<Rightarrow> bool" where
  "switch_frame st st' \<longleftrightarrow> k_sleepers st' = k_sleepers st \<and>
     k_numthreads st' = k_numthreads st \<and> k_rest st' = k_rest st \<and> k_lbolt st' = k_lbolt st \<and> threads_le st st'"

definition zombies_gone :: "kernel \<Rightarrow> kernel \<Rightarrow> bool" where
  "zombies_gone st st' \<longleftrightarrow> a_inv (k_zombies st') \<and>
     (dom (k_threads st') = dom (k_threads st) \<and> zombies st' = zombies st \<or>
      dom (k_threads st') = dom (k_threads st) - set (zombies st) \<and> zombies st' = [])"

lemma upd_thread_Some:
  "upd_thread t f st = Some st' \<longleftrightarrow>
   (\<exists>th. k_threads st t = Some th \<and> st' = st\<lparr>k_threads := (k_threads st)(t \<mapsto> f th)\<rparr>)"
  by (auto simp: upd_thread_def kern_simps)

lemma upd_cur_Some:
  "upd_cur f st = Some st' \<longleftrightarrow>
   (\<exists>t th. k_curthread st = Some t \<and> k_threads st t = Some th \<and>
      st' = st\<lparr>k_threads := (k_threads st)(t \<mapsto> f th)\<rparr>)"
  by (auto simp: upd_cur_def upd_thread_Some kern_simps)

lemma threads_le_upd:
  "k_threads st t = Some th \<Longrightarrow> same_thread th (f th) \<Longrightarrow>
   threads_le st (st\<lparr>k_threads := (k_threads st)(t \<mapsto> f th)\<rparr>)"
  by (auto simp: threads_le_def)

lemma md_switch_Some:
  assumes "md_switch old nu st = Some st'" and "k_threads st nu \<noteq> None"
  shows "threads_le st st' \<and> dom (k_threads st') = dom (k_threads st) \<and>
    (\<exists>m i. st' = st\<lparr>k_threads := m, k_inintr := i\<rparr>)"
proof (cases "old = nu")
  case True
  with assms have "st' = st" by (simp add: md_switch_def)
  then show ?thesis by (auto simp: threads_le_refl intro!: exI [of _ "k_threads st"] exI [of _ "k_inintr st"])
next
  case False
  with assms(1) obtain th where th: "k_threads st old = Some th"
    and st': "\<exists>i. st' = st\<lparr>k_threads := (k_threads st)(old \<mapsto> th\<lparr>t_ininterrupt := k_inintr st\<rparr>), k_inintr := i\<rparr>"
    by (auto simp: md_switch_def upd_thread_Some kern_simps)
  have "same_thread th (th\<lparr>t_ininterrupt := k_inintr st\<rparr>)" by (simp add: same_thread_def)
  with st' th show ?thesis by (auto simp: threads_le_def split: if_splits)
qed

lemma as_activate_Some:
  "as_activate st = Some st' \<Longrightarrow> \<exists>c. st' = st\<lparr>k_calls := c\<rparr>"
  by (cases st) (auto simp: as_activate_def kern_simps split: option.splits)

lemma switch_to_Some:
  assumes s: "k_struct st" and w: "switch_to old nu st = Some st'"
  shows "k_curthread st' = Some nu \<and> k_idle st' = k_idle st \<and> k_runqueue st' = k_runqueue st \<and>
    switch_frame st st' \<and> zombies_gone st st'"
proof -
  from w obtain st1 th where st1: "md_switch old nu (st\<lparr>k_curthread := Some nu\<rparr>) = Some st1"
    and th: "k_threads st1 nu = Some th"
    by (auto simp: switch_to_def kern_simps)
  have "k_threads st nu \<noteq> None"
    using st1 th by (auto simp: md_switch_def upd_thread_Some kern_simps split: if_splits)
  with md_switch_Some [OF st1] obtain m i where
    e1: "st1 = st\<lparr>k_curthread := Some nu, k_threads := m, k_inintr := i\<rparr>"
    and le: "threads_le st st1" and dm: "dom m = dom (k_threads st)"
    by (auto simp: threads_le_def)
  show ?thesis
  proof (cases "t_fresh th")
    case True
    with w st1 th obtain st2 st3 where st2: "upd_cur (\<lambda>th. th\<lparr>t_fresh := False\<rparr>) st1 = Some st2"
      and st3: "as_activate st2 = Some st3" and st': "st' = snd (splx 0 st3)"
      by (auto simp: switch_to_def kern_simps)
    from st2 e1 th have e2: "st2 = st1\<lparr>k_threads := m(nu \<mapsto> th\<lparr>t_fresh := False\<rparr>)\<rparr>"
      by (auto simp: upd_cur_Some)
    have "same_thread th (th\<lparr>t_fresh := False\<rparr>)" by (simp add: same_thread_def)
    then have "threads_le st1 st2" using th by (auto simp: e1 e2 threads_le_def split: if_splits)
    then have "threads_le st st2" using le threads_le_trans by blast
    moreover obtain c where "st3 = st2\<lparr>k_calls := c\<rparr>" using as_activate_Some [OF st3] by blast
    ultimately show ?thesis
      using s th dm
      by (auto simp: st' e2 e1 switch_frame_def zombies_gone_def k_rest_def k_struct_def threads_le_def)
  next
    case False
    with w st1 th obtain st2 where st2: "exorcise st1 = Some st2" and st': "as_activate st2 = Some st'"
      by (auto simp: switch_to_def kern_simps)
    have "k_struct st1" using s by (simp add: e1 k_struct_def)
    from exorcise_Some [OF this st2] obtain zs where
      e2: "st2 = st1\<lparr>k_threads := m |` (- set (zombies st)), k_zombies := zs\<rparr>" "a_inv zs" "a_list zs = []"
      by (auto simp: e1)
    obtain c where "st' = st2\<lparr>k_calls := c\<rparr>" using as_activate_Some [OF st'] by blast
    moreover have "threads_le st st2" using le by (auto simp: threads_le_def e2(1) restrict_map_def e1)
    ultimately show ?thesis
      using dm by (auto simp: e2 e1 switch_frame_def zombies_gone_def k_rest_def threads_le_def)
  qed
qed

lemma blocked_cong: "k_sems st' = k_sems st \<Longrightarrow> k_locks st' = k_locks st \<Longrightarrow> blocked st' a = blocked st a"
  by (simp add: blocked_def split: waddr.split)

lemma sleeper_ok_cong:
  "k_threads st' = k_threads st \<Longrightarrow> k_sems st' = k_sems st \<Longrightarrow> k_locks st' = k_locks st \<Longrightarrow>
   sleeper_ok st' = sleeper_ok st"
  using blocked_cong [of st' st] by (intro ext) (simp add: sleeper_ok_def)

lemma zombie_ok_cong: "k_threads st' = k_threads st \<Longrightarrow> zombie_ok st' = zombie_ok st"
  by (intro ext) (simp add: zombie_ok_def)

lemma inv_transfer:
  assumes "switch_frame st st'" and "zombies_gone st st'"
    and "list_all (sleeper_ok st) (sleepers st)" and "list_all (zombie_ok st) (zombies st)"
    and "\<forall>t th. k_threads st t = Some th \<longrightarrow> stack_ok th"
    and "set (sleepers st) \<subseteq> dom (k_threads st')"
  shows "list_all (sleeper_ok st') (sleepers st') \<and> list_all (zombie_ok st') (zombies st') \<and>
    (\<forall>t th. k_threads st' t = Some th \<longrightarrow> stack_ok th)"
proof -
  have le: "\<And>t th'. k_threads st' t = Some th' \<Longrightarrow> \<exists>th. k_threads st t = Some th \<and> same_thread th th'"
    and sl: "k_sleepers st' = k_sleepers st" and rest: "k_sems st' = k_sems st" "k_locks st' = k_locks st"
    using assms(1) by (auto simp: switch_frame_def threads_le_def k_rest_def)
  have b: "blocked st' a = blocked st a" for a
    using rest by (rule blocked_cong)
  have "sleeper_ok st' t" if "t \<in> set (sleepers st')" for t
  proof -
    from that assms(6) sl obtain th' where th': "k_threads st' t = Some th'" by auto
    with le obtain th where th: "k_threads st t = Some th" and e: "same_thread th th'" by blast
    from th th' assms(3) that sl b show ?thesis
      by (auto simp: sleeper_ok_def list_all_iff same_thread_simps [OF e])
  qed
  moreover have "zombie_ok st' t" if "t \<in> set (zombies st')" for t
  proof -
    from that assms(2) have z: "t \<in> set (zombies st)" "dom (k_threads st') = dom (k_threads st)"
      by (auto simp: zombies_gone_def)
    with assms(4) have o: "zombie_ok st t" by (simp add: list_all_iff)
    then have "t \<in> dom (k_threads st')" using z(2) by (auto simp: zombie_ok_def)
    then obtain th' where th': "k_threads st' t = Some th'" by blast
    with le obtain th where th: "k_threads st t = Some th" and e: "same_thread th th'" by blast
    from th th' o show ?thesis by (auto simp: zombie_ok_def same_thread_simps [OF e])
  qed
  moreover have "stack_ok th'" if th': "k_threads st' t = Some th'" for t th'
    using le [OF th'] assms(5) by (auto simp: stack_ok_def dest: same_thread_simps)
  ultimately show ?thesis by (auto simp: list_all_iff)
qed

lemma scheduler_loop_inv:
  assumes inv: "k_inv (st\<lparr>k_idle := Some c\<rparr>)" and cur: "k_curthread st = None"
    and r: "scheduler_loop c st = Some st'"
  shows "k_inv st' \<and> switch_frame st st' \<and> live_tids st' = live_tids st"
proof (cases "q_empty (k_runqueue st)")
  case True
  with r have "st' = st\<lparr>k_idle := Some c\<rparr>" by (auto simp: scheduler_loop_def kern_simps)
  with inv show ?thesis by (simp add: switch_frame_def k_rest_def threads_le_def live_tids_def cur_list_def)
next
  case False
  with r obtain nu q where q: "q_remhead (k_runqueue st) = Some (nu, q)"
    and w: "switch_to c nu (st\<lparr>k_runqueue := q, k_idle := None\<rparr>) = Some st'"
    by (auto simp: scheduler_loop_def kern_simps)
  let ?s = "st\<lparr>k_runqueue := q, k_idle := None\<rparr>"
  have st: "k_struct st" using inv by (simp add: k_inv_def inv_lists_def k_struct_def)
  then have rq: "runq st = nu # q_list q" "q_inv q"
    using kq.rem_Some [OF _ q] by (simp_all add: k_struct_def)
  have ss: "k_struct ?s" using st rq by (simp add: k_struct_def)
  note sw = switch_to_Some [OF ss w]
  have live: "live_tids st' = live_tids st"
    using sw rq cur by (simp add: live_tids_def cur_list_def switch_frame_def)
  have il: "inv_lists (st\<lparr>k_idle := Some c\<rparr>)" using inv by (simp add: k_inv_def)
  then have d: "distinct (live_tids st @ zombies st)" "set (live_tids st @ zombies st) = dom (k_threads st)"
    "k_numthreads st = int (length (live_tids st))"
    using cur by (simp_all add: inv_lists_def live_tids_def cur_list_def)
  have zg: "zombies_gone st st'" using sw by (simp add: zombies_gone_def)
  have fr: "switch_frame st st'" using sw by (simp add: switch_frame_def k_rest_def threads_le_def)
  have sub: "set (live_tids st) \<subseteq> dom (k_threads st')"
  proof -
    have "set (live_tids st) \<subseteq> dom (k_threads st) - set (zombies st)" using d(1) d(2) [symmetric] by auto
    then show ?thesis using zg unfolding zombies_gone_def by fast
  qed
  have dz: "set (live_tids st) \<union> set (zombies st') = dom (k_threads st') \<and>
      distinct (live_tids st @ zombies st')"
    using zg d(1) d(2) [symmetric] unfolding zombies_gone_def by auto
  have "inv_lists st'"
    unfolding inv_lists_def live
    using d(3) dz zg sw ss fr by (simp add: zombies_gone_def k_struct_def switch_frame_def)
  moreover have "list_all (sleeper_ok st) (sleepers st)" "list_all (zombie_ok st) (zombies st)"
    "\<forall>t th. k_threads st t = Some th \<longrightarrow> stack_ok th"
    using inv sleeper_ok_cong [of "st\<lparr>k_idle := Some c\<rparr>" st] zombie_ok_cong [of "st\<lparr>k_idle := Some c\<rparr>" st]
    by (simp_all add: k_inv_def)
  ultimately show ?thesis
    using inv_transfer [OF fr zg] sub fr live by (auto simp: k_inv_def live_tids_def)
qed

text \<open>Storing the current thread on a list, by the state it is going to be in.\<close>

lemma stash_ready:
  assumes inv: "k_inv st" and c: "k_curthread st = Some c"
    and r: "make_runnable km c (st\<lparr>k_curthread := None\<rparr>) = Some (EOK, st2)"
  shows "k_inv (st2\<lparr>k_idle := Some c\<rparr>) \<and> k_curthread st2 = None \<and> switch_frame st st2 \<and>
    set (live_tids st2) = set (live_tids st)"
proof -
  from r obtain q where q: "q_addtail km (k_runqueue st) c = Some (EOK, q)"
    and st2: "st2 = st\<lparr>k_curthread := None, k_runqueue := q\<rparr>"
    by (auto simp: make_runnable_def kern_simps)
  have l: "inv_lists st" using inv by (simp add: k_inv_def)
  then have "q_inv (k_runqueue st)" by (simp add: inv_lists_def k_struct_def)
  from kq.add_EOK [OF this q] have q': "q_inv q" "q_list q = runq st @ [c]" by simp_all
  have "inv_lists (st2\<lparr>k_idle := Some c\<rparr>)"
    using l q' c by (auto simp: inv_lists_def k_struct_def st2 live_tids_def cur_list_def)
  then show ?thesis
    using inv sleeper_ok_cong [of "st2\<lparr>k_idle := Some c\<rparr>" st] zombie_ok_cong [of "st2\<lparr>k_idle := Some c\<rparr>" st] q' c
    by (simp add: k_inv_def st2 switch_frame_def k_rest_def threads_le_def live_tids_def cur_list_def)
qed

lemma stash_sleep:
  assumes inv: "k_inv st" and c: "k_curthread st = Some c" and ok: "sleeper_ok st c"
    and r: "sleepers_add km c (st\<lparr>k_curthread := None\<rparr>) = Some (EOK, st2)"
  shows "k_inv (st2\<lparr>k_idle := Some c\<rparr>) \<and> k_curthread st2 = None \<and> sleepers st2 = sleepers st @ [c] \<and>
    switch_frame (st\<lparr>k_sleepers := k_sleepers st2\<rparr>) st2 \<and> set (live_tids st2) = set (live_tids st)"
proof -
  from r obtain a where a: "array_add km (k_sleepers st) c = Some (EOK, a)"
    and st2: "st2 = st\<lparr>k_curthread := None, k_sleepers := a\<rparr>"
    by (auto simp: sleepers_add_def kern_simps)
  have l: "inv_lists st" using inv by (simp add: k_inv_def)
  then have "a_inv (k_sleepers st)" by (simp add: inv_lists_def k_struct_def)
  from ka.add_Some [OF this a] have a': "a_inv a" "a_list a = sleepers st @ [c]" by simp_all
  have "inv_lists (st2\<lparr>k_idle := Some c\<rparr>)"
    using l a' c by (auto simp: inv_lists_def k_struct_def st2 live_tids_def cur_list_def)
  then show ?thesis
    using inv ok a' c sleeper_ok_cong [of "st2\<lparr>k_idle := Some c\<rparr>" st] zombie_ok_cong [of "st2\<lparr>k_idle := Some c\<rparr>" st]
    by (simp add: k_inv_def st2 switch_frame_def k_rest_def threads_le_def live_tids_def cur_list_def)
qed

lemma stash_zombie:
  assumes inv: "k_inv st" and c: "k_curthread st = Some c" and ok: "zombie_ok st c"
    and r: "zombies_add km c (st\<lparr>k_numthreads := k_numthreads st - 1, k_curthread := None\<rparr>) = Some (EOK, st2)"
  shows "k_inv (st2\<lparr>k_idle := Some c\<rparr>) \<and> k_curthread st2 = None \<and>
    switch_frame (st\<lparr>k_numthreads := k_numthreads st - 1\<rparr>) st2 \<and>
    set (live_tids st2) = set (live_tids st) - {c}"
proof -
  from r obtain a where a: "array_add km (k_zombies st) c = Some (EOK, a)"
    and st2: "st2 = st\<lparr>k_numthreads := k_numthreads st - 1, k_curthread := None, k_zombies := a\<rparr>"
    by (auto simp: zombies_add_def kern_simps)
  have l: "inv_lists st" using inv by (simp add: k_inv_def)
  then have "a_inv (k_zombies st)" by (simp add: inv_lists_def k_struct_def)
  from ka.add_Some [OF this a] have a': "a_inv a" "a_list a = zombies st @ [c]" by simp_all
  have "inv_lists (st2\<lparr>k_idle := Some c\<rparr>)"
    using l a' c by (auto simp: inv_lists_def k_struct_def st2 live_tids_def cur_list_def)
  then show ?thesis
    using inv ok a' c l sleeper_ok_cong [of "st2\<lparr>k_idle := Some c\<rparr>" st] zombie_ok_cong [of "st2\<lparr>k_idle := Some c\<rparr>" st]
    by (auto simp: k_inv_def st2 switch_frame_def k_rest_def threads_le_def live_tids_def cur_list_def inv_lists_def)
qed

lemma switch_frame_trans: "switch_frame a b \<Longrightarrow> switch_frame b c \<Longrightarrow> switch_frame a c"
  unfolding switch_frame_def using threads_le_trans by (metis (no_types, lifting))

lemma mi_switch_ready_inv:
  assumes inv: "k_inv st" and r: "mi_switch km S_READY st = Some st'"
  shows "k_inv st' \<and> switch_frame st st' \<and> set (live_tids st') = set (live_tids st)"
proof (cases "k_curthread st")
  case None
  with r have "st' = st" by (auto simp: mi_switch_def kern_simps)
  with inv show ?thesis by (simp add: switch_frame_def threads_le_def)
next
  case (Some c)
  with r obtain st2 where s2: "make_runnable (km 0) c (st\<lparr>k_curthread := None\<rparr>) = Some (EOK, st2)"
    and l: "scheduler_loop c st2 = Some st'"
    by (auto simp: mi_switch_def kern_simps Let_def)
  from stash_ready [OF inv Some s2] scheduler_loop_inv [OF _ _ l] show ?thesis
    using switch_frame_trans by metis
qed

lemma mi_switch_sleep_inv:
  assumes inv: "k_inv st" and c: "k_curthread st = Some c" and ok: "sleeper_ok st c"
    and r: "mi_switch km S_SLEEP st = Some st'"
  shows "k_inv st' \<and> sleepers st' = sleepers st @ [c] \<and> switch_frame (st\<lparr>k_sleepers := k_sleepers st'\<rparr>) st' \<and>
    set (live_tids st') = set (live_tids st)"
proof -
  from r c obtain st2 where s2: "sleepers_add (km 0) c (st\<lparr>k_curthread := None\<rparr>) = Some (EOK, st2)"
    and l: "scheduler_loop c st2 = Some st'"
    by (auto simp: mi_switch_def kern_simps Let_def)
  note a = stash_sleep [OF inv c ok s2]
  from a scheduler_loop_inv [OF _ _ l] have b: "k_inv st'" "switch_frame st2 st'" "live_tids st' = live_tids st2" by blast+
  then have "k_sleepers st' = k_sleepers st2" by (simp add: switch_frame_def)
  with a b show ?thesis using switch_frame_trans by metis
qed

lemma mi_switch_zombie_inv:
  assumes inv: "k_inv st" and c: "k_curthread st = Some c" and ok: "zombie_ok st c"
    and r: "mi_switch km S_ZOMB (st\<lparr>k_numthreads := k_numthreads st - 1\<rparr>) = Some st'"
  shows "k_inv st' \<and> switch_frame (st\<lparr>k_numthreads := k_numthreads st - 1\<rparr>) st' \<and>
    set (live_tids st') = set (live_tids st) - {c}"
proof -
  from r c obtain st2 where
    s2: "zombies_add (km 0) c (st\<lparr>k_numthreads := k_numthreads st - 1, k_curthread := None\<rparr>) = Some (EOK, st2)"
    and l: "scheduler_loop c st2 = Some st'"
    by (auto simp: mi_switch_def kern_simps Let_def)
  from stash_zombie [OF inv c ok s2] scheduler_loop_inv [OF _ _ l] show ?thesis
    using switch_frame_trans by metis
qed

section \<open>Wakeup\<close>

definition sleeping_on :: "kernel \<Rightarrow> waddr \<Rightarrow> tid \<Rightarrow> bool" where
  "sleeping_on st a t = (case k_threads st t of None \<Rightarrow> False | Some th \<Rightarrow> t_sleepaddr th = Some a)"

lemma make_runnable_Some:
  assumes "q_inv (k_runqueue st)" and "make_runnable km t st = Some (EOK, st')"
  shows "\<exists>q. st' = st\<lparr>k_runqueue := q\<rparr> \<and> q_inv q \<and> q_list q = runq st @ [t] \<and> q_cap (k_runqueue st) \<le> q_cap q"
  using assms kq.add_EOK [OF assms(1)] by (auto simp: make_runnable_def kern_simps)

lemma make_runnable_room:
  assumes "q_inv (k_runqueue st)" and "k_curspl st > 0" and "length (runq st) < q_cap (k_runqueue st)"
  shows "\<exists>st'. make_runnable km t st = Some (EOK, st')"
  using assms kq.add_room [OF assms(1,3), of km t] by (auto simp: make_runnable_def)

lemma wakeup_hit:
  assumes "k_struct st" and i: "i < length (sleepers st)" and h: "sleeping_on st a (sleepers st ! i)"
  shows "\<exists>b. a_inv b \<and> a_list b = take i (sleepers st) @ drop (Suc i) (sleepers st) \<and>
    a_cap b = a_cap (k_sleepers st) \<and>
    wakeup_loop km a (int i) st =
      do { (result, st1) \<leftarrow> make_runnable (km 0) (sleepers st ! i) (st\<lparr>k_sleepers := b\<rparr>);
           kassert (result = EOK); wakeup_loop (mem_skip 1 km) a (int i) st1 }"
proof -
  have inv: "a_inv (k_sleepers st)" using assms(1) by (simp add: k_struct_def)
  have n: "array_getnum (k_sleepers st) = int (length (sleepers st))" using ka.num_length [OF inv] .
  have g: "array_getguy (k_sleepers st) (int i) = Some (sleepers st ! i)" using ka.get_nth [OF inv i] .
  from h obtain th where th: "k_threads st (sleepers st ! i) = Some th" "t_sleepaddr th = Some a"
    by (auto simp: sleeping_on_def split: option.splits)
  obtain b where b: "array_remove (k_sleepers st) (int i) = Some b" "a_inv b"
      "a_list b = take i (sleepers st) @ drop (Suc i) (sleepers st)" "a_cap b = a_cap (k_sleepers st)"
    using ka.del_nth [OF inv i] by blast
  have "wakeup_loop km a (int i) st =
      do { (result, st1) \<leftarrow> make_runnable (km 0) (sleepers st ! i) (st\<lparr>k_sleepers := b\<rparr>);
           kassert (result = EOK); wakeup_loop (mem_skip 1 km) a (int i) st1 }"
    using n g th b(1) i by (subst wakeup_loop.simps) simp
  with b show ?thesis by blast
qed

lemma wakeup_miss:
  assumes "k_struct st" and i: "i < length (sleepers st)" and h: "\<not> sleeping_on st a (sleepers st ! i)"
    and ex: "k_threads st (sleepers st ! i) \<noteq> None"
  shows "wakeup_loop km a (int i) st = wakeup_loop km a (int (Suc i)) st"
proof -
  have inv: "a_inv (k_sleepers st)" using assms(1) by (simp add: k_struct_def)
  have n: "array_getnum (k_sleepers st) = int (length (sleepers st))" using ka.num_length [OF inv] .
  have g: "array_getguy (k_sleepers st) (int i) = Some (sleepers st ! i)" using ka.get_nth [OF inv i] .
  have e: "int i + 1 = int (Suc i)" by simp
  show ?thesis
    using n g h ex i by (subst wakeup_loop.simps) (auto simp: sleeping_on_def e split: option.splits)
qed

lemma wakeup_done:
  "k_struct st \<Longrightarrow> wakeup_loop km a (int (length (sleepers st))) st = Some st"
  using ka.num_length [of "k_sleepers st"] by (subst wakeup_loop.simps) (simp add: k_struct_def)

definition woken :: "kernel \<Rightarrow> waddr \<Rightarrow> nat \<Rightarrow> kernel \<Rightarrow> bool" where
  "woken st a i st' \<longleftrightarrow>
     (\<exists>q b. st' = st\<lparr>k_runqueue := q, k_sleepers := b\<rparr> \<and> q_inv q \<and> a_inv b \<and>
        q_list q = runq st @ filter (sleeping_on st a) (drop i (sleepers st)) \<and>
        a_list b = take i (sleepers st) @ filter (\<lambda>t. \<not> sleeping_on st a t) (drop i (sleepers st)) \<and>
        a_cap b = a_cap (k_sleepers st) \<and> q_cap (k_runqueue st) \<le> q_cap q)"

lemma woken_step:
  assumes i: "i < length (sleepers st)" and h: "sleeping_on st a (sleepers st ! i)"
    and b: "a_list b = take i (sleepers st) @ drop (Suc i) (sleepers st)" "a_cap b = a_cap (k_sleepers st)"
    and q: "q_list q = runq st @ [sleepers st ! i]" "q_cap (k_runqueue st) \<le> q_cap q"
    and w: "woken (st\<lparr>k_sleepers := b, k_runqueue := q\<rparr>) a i st'"
  shows "woken st a i st'"
proof -
  have s: "sleeping_on (st\<lparr>k_sleepers := b, k_runqueue := q\<rparr>) a = sleeping_on st a"
    by (simp add: fun_eq_iff sleeping_on_def)
  have d: "drop i (sleepers st) = sleepers st ! i # drop (Suc i) (sleepers st)"
    using i by (simp add: Cons_nth_drop_Suc)
  from w obtain q' b' where "st' = st\<lparr>k_runqueue := q', k_sleepers := b'\<rparr>" "q_inv q'" "a_inv b'"
    "q_list q' = q_list q @ filter (sleeping_on st a) (drop i (a_list b))"
    "a_list b' = take i (a_list b) @ filter (\<lambda>t. \<not> sleeping_on st a t) (drop i (a_list b))"
    "a_cap b' = a_cap b" "q_cap q \<le> q_cap q'"
    unfolding woken_def s by auto
  then show ?thesis
    unfolding woken_def d using h b q i
    by (intro exI [of _ q'] exI [of _ b']) (simp add: min_def)
qed

lemma wakeup_loop_woken:
  "k_struct st \<Longrightarrow> list_all (\<lambda>t. k_threads st t \<noteq> None) (sleepers st) \<Longrightarrow> i \<le> length (sleepers st) \<Longrightarrow>
   wakeup_loop km a (int i) st = Some st' \<Longrightarrow> woken st a i st'"
proof (induction "length (sleepers st) - i" arbitrary: i st km)
  case 0
  then have "st' = st" using wakeup_done [of st km a] by simp
  with 0 show ?case by (cases st) (auto simp: woken_def k_struct_def)
next
  case (Suc d)
  then have i: "i < length (sleepers st)" by simp
  show ?case
  proof (cases "sleeping_on st a (sleepers st ! i)")
    case True
    from wakeup_hit [OF Suc.prems(1) i True, of km] obtain b where
      b: "a_inv b" "a_list b = take i (sleepers st) @ drop (Suc i) (sleepers st)" "a_cap b = a_cap (k_sleepers st)"
      and e: "wakeup_loop km a (int i) st =
        do { (result, st1) \<leftarrow> make_runnable (km 0) (sleepers st ! i) (st\<lparr>k_sleepers := b\<rparr>);
             kassert (result = EOK); wakeup_loop (mem_skip 1 km) a (int i) st1 }"
      by blast
    from Suc.prems(4) [unfolded e] obtain st1 where
      m: "make_runnable (km 0) (sleepers st ! i) (st\<lparr>k_sleepers := b\<rparr>) = Some (EOK, st1)"
      and l: "wakeup_loop (mem_skip 1 km) a (int i) st1 = Some st'"
      by (auto simp: bind_eq_Some)
    obtain q where q: "st1 = st\<lparr>k_sleepers := b, k_runqueue := q\<rparr>" "q_inv q" "q_list q = runq st @ [sleepers st ! i]"
      "q_cap (k_runqueue st) \<le> q_cap q"
      using make_runnable_Some [OF _ m] Suc.prems(1) by (auto simp: k_struct_def)
    have "woken st1 a i st'"
    proof (rule Suc.hyps(1) [OF _ _ _ _ l])
      show "d = length (sleepers st1) - i" using Suc.hyps(2) i b by (simp add: q min_def)
      show "k_struct st1" using Suc.prems(1) b q by (simp add: k_struct_def)
      show "list_all (\<lambda>t. k_threads st1 t \<noteq> None) (sleepers st1)"
        using Suc.prems(2) b by (auto simp: q list_all_iff dest: in_set_takeD in_set_dropD)
      show "i \<le> length (sleepers st1)" using i b by (simp add: q min_def)
    qed
    then show ?thesis using woken_step [OF i True b(2,3) q(3,4)] by (simp add: q(1))
  next
    case False
    have ex: "k_threads st (sleepers st ! i) \<noteq> None" using Suc.prems(2) i by (simp add: list_all_length)
    have "woken st a (Suc i) st'"
      by (rule Suc.hyps(1)) (use Suc.hyps(2) Suc.prems i wakeup_miss [OF Suc.prems(1) i False ex] in simp_all)
    moreover have "drop i (sleepers st) = sleepers st ! i # drop (Suc i) (sleepers st)"
      using i by (simp add: Cons_nth_drop_Suc)
    ultimately show ?thesis using False i by (auto simp: woken_def take_Suc_conv_app_nth)
  qed
qed

lemma wakeup_loop_total:
  "k_struct st \<Longrightarrow> list_all (\<lambda>t. k_threads st t \<noteq> None) (sleepers st) \<Longrightarrow> i \<le> length (sleepers st) \<Longrightarrow>
   k_curspl st > 0 \<Longrightarrow> length (runq st) + length (sleepers st) \<le> q_cap (k_runqueue st) \<Longrightarrow>
   \<exists>st'. wakeup_loop km a (int i) st = Some st'"
proof (induction "length (sleepers st) - i" arbitrary: i st km)
  case 0
  then show ?case using wakeup_done [of st km a] by simp
next
  case (Suc d)
  then have i: "i < length (sleepers st)" by simp
  show ?case
  proof (cases "sleeping_on st a (sleepers st ! i)")
    case True
    from wakeup_hit [OF Suc.prems(1) i True, of km] obtain b where
      b: "a_inv b" "a_list b = take i (sleepers st) @ drop (Suc i) (sleepers st)"
      and e: "wakeup_loop km a (int i) st =
        do { (result, st1) \<leftarrow> make_runnable (km 0) (sleepers st ! i) (st\<lparr>k_sleepers := b\<rparr>);
             kassert (result = EOK); wakeup_loop (mem_skip 1 km) a (int i) st1 }"
      by blast
    have "length (runq st) < q_cap (k_runqueue st)" using Suc.prems(5) i by simp
    then obtain st1 where m: "make_runnable (km 0) (sleepers st ! i) (st\<lparr>k_sleepers := b\<rparr>) = Some (EOK, st1)"
      using make_runnable_room [of "st\<lparr>k_sleepers := b\<rparr>"] Suc.prems(1,4) by (auto simp: k_struct_def)
    obtain q where q: "st1 = st\<lparr>k_sleepers := b, k_runqueue := q\<rparr>" "q_inv q" "q_list q = runq st @ [sleepers st ! i]"
      "q_cap (k_runqueue st) \<le> q_cap q"
      using make_runnable_Some [OF _ m] Suc.prems(1) by (auto simp: k_struct_def)
    have "\<exists>st'. wakeup_loop (mem_skip 1 km) a (int i) st1 = Some st'"
    proof (rule Suc.hyps(1))
      show "d = length (sleepers st1) - i" using Suc.hyps(2) i b by (simp add: q min_def)
      show "k_struct st1" using Suc.prems(1) b q by (simp add: k_struct_def)
      show "list_all (\<lambda>t. k_threads st1 t \<noteq> None) (sleepers st1)"
        using Suc.prems(2) b by (auto simp: q list_all_iff dest: in_set_takeD in_set_dropD)
      show "i \<le> length (sleepers st1)" using i b by (simp add: q min_def)
      show "k_curspl st1 > 0" using Suc.prems(4) by (simp add: q)
      show "length (runq st1) + length (sleepers st1) \<le> q_cap (k_runqueue st1)"
        using Suc.prems(5) q(3,4) b(2) i by (simp add: q(1) min_def)
    qed
    then show ?thesis using m by (simp add: e)
  next
    case False
    have ex: "k_threads st (sleepers st ! i) \<noteq> None" using Suc.prems(2) i by (simp add: list_all_length)
    have "\<exists>st'. wakeup_loop km a (int (Suc i)) st = Some st'"
      by (rule Suc.hyps(1)) (use Suc.hyps(2) Suc.prems i in simp_all)
    then show ?thesis using wakeup_miss [OF Suc.prems(1) i False ex] by simp
  qed
qed

lemma inv_lists_sleepers: "inv_lists st \<Longrightarrow> list_all (\<lambda>t. k_threads st t \<noteq> None) (sleepers st)"
proof -
  assume "inv_lists st"
  then have "set (sleepers st) \<subseteq> dom (k_threads st)"
    by (auto simp: inv_lists_def live_tids_def)
  then show ?thesis by (auto simp: list_all_iff)
qed

lemma thread_wakeup_woken:
  assumes "inv_lists st" and "thread_wakeup km a st = Some st'"
  shows "woken st a 0 st'"
  using wakeup_loop_woken [OF _ inv_lists_sleepers [OF assms(1)], of 0 km a st'] assms
  by (simp add: thread_wakeup_def kern_simps inv_lists_def)

lemma mset_filter_split: "mset (filter P xs) + mset (filter (\<lambda>x. \<not> P x) xs) = mset xs"
  by (induction xs) auto

lemma woken_lists:
  assumes "inv_lists st" and "woken st a 0 st'"
  shows "inv_lists st'"
proof -
  from assms(2) obtain q b where st': "st' = st\<lparr>k_runqueue := q, k_sleepers := b\<rparr>" "q_inv q" "a_inv b"
    "q_list q = runq st @ filter (sleeping_on st a) (sleepers st)"
    "a_list b = filter (\<lambda>t. \<not> sleeping_on st a t) (sleepers st)"
    by (auto simp: woken_def)
  have m: "mset (live_tids st') = mset (live_tids st)"
    using mset_filter_split [of "sleeping_on st a" "sleepers st"]
    by (simp add: live_tids_def cur_list_def st' split: option.splits)
  then have m': "mset (live_tids st' @ zombies st') = mset (live_tids st @ zombies st)"
    by (simp add: st'(1))
  have "distinct (live_tids st' @ zombies st') = distinct (live_tids st @ zombies st)"
    using m' by (metis mset_eq_imp_distinct_iff)
  moreover have "set (live_tids st' @ zombies st') = set (live_tids st @ zombies st)"
    using m' by (metis set_mset_mset)
  moreover have "length (live_tids st') = length (live_tids st)" using m by (metis size_mset)
  ultimately show ?thesis
    using assms(1) st'(2,3) unfolding inv_lists_def by (simp add: st'(1) k_struct_def)
qed

lemma woken_inv:
  assumes l: "inv_lists st" and w: "woken st a 0 st'"
    and s: "\<And>t. t \<in> set (sleepers st) \<Longrightarrow> \<not> sleeping_on st a t \<Longrightarrow> sleeper_ok st t"
    and z: "list_all (zombie_ok st) (zombies st)" and k: "\<forall>t th. k_threads st t = Some th \<longrightarrow> stack_ok th"
  shows "k_inv st'"
proof -
  from w obtain q b where st': "st' = st\<lparr>k_runqueue := q, k_sleepers := b\<rparr>"
    "a_list b = filter (\<lambda>t. \<not> sleeping_on st a t) (sleepers st)"
    by (auto simp: woken_def)
  have "sleeper_ok st' = sleeper_ok st" "zombie_ok st' = zombie_ok st"
    by (rule sleeper_ok_cong zombie_ok_cong; simp add: st'(1))+
  then show ?thesis
    using woken_lists [OF l w] s z k by (simp add: k_inv_def st' list_all_iff)
qed

definition woken_one :: "kernel \<Rightarrow> waddr \<Rightarrow> nat \<Rightarrow> kernel \<Rightarrow> bool" where
  "woken_one st a i st' \<longleftrightarrow>
     (st' = st \<and> list_all (\<lambda>t. \<not> sleeping_on st a t) (drop i (sleepers st))) \<or>
     (\<exists>j q b. i \<le> j \<and> j < length (sleepers st) \<and> sleeping_on st a (sleepers st ! j) \<and>
        (\<forall>k. i \<le> k \<and> k < j \<longrightarrow> \<not> sleeping_on st a (sleepers st ! k)) \<and>
        st' = st\<lparr>k_runqueue := q, k_sleepers := b\<rparr> \<and> q_inv q \<and> a_inv b \<and>
        q_list q = runq st @ [sleepers st ! j] \<and>
        a_list b = take j (sleepers st) @ drop (Suc j) (sleepers st) \<and>
        a_cap b = a_cap (k_sleepers st) \<and> q_cap (k_runqueue st) \<le> q_cap q)"

lemma wake_one_hit:
  assumes "k_struct st" and i: "i < length (sleepers st)" and h: "sleeping_on st a (sleepers st ! i)"
    and r: "wake_one_loop km a (int i) st = Some st'"
  shows "woken_one st a i st'"
proof -
  have inv: "a_inv (k_sleepers st)" using assms(1) by (simp add: k_struct_def)
  have n: "array_getnum (k_sleepers st) = int (length (sleepers st))" using ka.num_length [OF inv] .
  have g: "array_getguy (k_sleepers st) (int i) = Some (sleepers st ! i)" using ka.get_nth [OF inv i] .
  from h obtain th where th: "k_threads st (sleepers st ! i) = Some th" "t_sleepaddr th = Some a"
    by (auto simp: sleeping_on_def split: option.splits)
  obtain b where b: "array_remove (k_sleepers st) (int i) = Some b" "a_inv b"
      "a_list b = take i (sleepers st) @ drop (Suc i) (sleepers st)" "a_cap b = a_cap (k_sleepers st)"
    using ka.del_nth [OF inv i] by blast
  from r have m: "make_runnable km (sleepers st ! i) (st\<lparr>k_sleepers := b\<rparr>) = Some (EOK, st')"
    using n g th b(1) i by (subst (asm) wake_one_loop.simps) (auto simp: kern_simps)
  obtain q where "st' = st\<lparr>k_sleepers := b, k_runqueue := q\<rparr>" "q_inv q" "q_list q = runq st @ [sleepers st ! i]"
    "q_cap (k_runqueue st) \<le> q_cap q"
    using make_runnable_Some [OF _ m] assms(1) by (auto simp: k_struct_def)
  then show ?thesis
    unfolding woken_one_def using i h b
    by (intro disjI2 exI [of _ i] exI [of _ q] exI [of _ b]) auto
qed

lemma wake_one_loop_woken:
  "k_struct st \<Longrightarrow> list_all (\<lambda>t. k_threads st t \<noteq> None) (sleepers st) \<Longrightarrow> i \<le> length (sleepers st) \<Longrightarrow>
   wake_one_loop km a (int i) st = Some st' \<Longrightarrow> woken_one st a i st'"
proof (induction "length (sleepers st) - i" arbitrary: i)
  case 0
  then have "wake_one_loop km a (int i) st = Some st"
    using ka.num_length [of "k_sleepers st"] by (subst wake_one_loop.simps) (simp add: k_struct_def)
  with 0 show ?case by (simp add: woken_one_def)
next
  case (Suc d)
  then have i: "i < length (sleepers st)" by simp
  show ?case
  proof (cases "sleeping_on st a (sleepers st ! i)")
    case True
    from wake_one_hit [OF Suc.prems(1) i True Suc.prems(4)] show ?thesis .
  next
    case False
    have inv: "a_inv (k_sleepers st)" using Suc.prems(1) by (simp add: k_struct_def)
    have ex: "k_threads st (sleepers st ! i) \<noteq> None" using Suc.prems(2) i by (simp add: list_all_length)
    have "wake_one_loop km a (int i) st = wake_one_loop km a (int (Suc i)) st"
      using ka.num_length [OF inv] ka.get_nth [OF inv i] False ex i
      by (subst wake_one_loop.simps) (auto simp: sleeping_on_def add.commute split: option.splits)
    then have w: "woken_one st a (Suc i) st'"
      using Suc.hyps(1) [of "Suc i"] Suc.hyps(2) Suc.prems i by simp
    have d: "drop i (sleepers st) = sleepers st ! i # drop (Suc i) (sleepers st)"
      using i by (simp add: Cons_nth_drop_Suc)
    have e: "i \<le> k \<and> k < j \<longleftrightarrow> (k = i \<or> Suc i \<le> k) \<and> k < j" for k j by auto
    from w [unfolded woken_one_def] show ?thesis
    proof (elim disjE exE)
      assume "st' = st \<and> list_all (\<lambda>t. \<not> sleeping_on st a t) (drop (Suc i) (sleepers st))"
      with False show ?thesis by (simp add: d woken_one_def)
    next
      fix j q b
      assume "Suc i \<le> j \<and> j < length (sleepers st) \<and> sleeping_on st a (sleepers st ! j) \<and>
        (\<forall>k. Suc i \<le> k \<and> k < j \<longrightarrow> \<not> sleeping_on st a (sleepers st ! k)) \<and>
        st' = st\<lparr>k_runqueue := q, k_sleepers := b\<rparr> \<and> q_inv q \<and> a_inv b \<and>
        q_list q = runq st @ [sleepers st ! j] \<and>
        a_list b = take j (sleepers st) @ drop (Suc j) (sleepers st) \<and>
        a_cap b = a_cap (k_sleepers st) \<and> q_cap (k_runqueue st) \<le> q_cap q"
      then show ?thesis using False unfolding woken_one_def e
        by (intro disjI2 exI [of _ j] exI [of _ q] exI [of _ b]) auto
    qed
  qed
qed

lemma hassleepers_loop_Some:
  "k_struct st \<Longrightarrow> list_all (\<lambda>t. k_threads st t \<noteq> None) (sleepers st) \<Longrightarrow> i \<le> length (sleepers st) \<Longrightarrow>
   hassleepers_loop a (int i) st = Some (list_ex (sleeping_on st a) (drop i (sleepers st)))"
proof (induction "length (sleepers st) - i" arbitrary: i)
  case 0
  then show ?case
    using ka.num_length [of "k_sleepers st"] by (subst hassleepers_loop.simps) (simp add: k_struct_def)
next
  case (Suc d)
  then have i: "i < length (sleepers st)" by simp
  have inv: "a_inv (k_sleepers st)" using Suc.prems(1) by (simp add: k_struct_def)
  have ex: "k_threads st (sleepers st ! i) \<noteq> None" using Suc.prems(2) i by (simp add: list_all_length)
  have d: "drop i (sleepers st) = sleepers st ! i # drop (Suc i) (sleepers st)"
    using i by (simp add: Cons_nth_drop_Suc)
  have "hassleepers_loop a (int (Suc i)) st = Some (list_ex (sleeping_on st a) (drop (Suc i) (sleepers st)))"
    using Suc.hyps(1) [of "Suc i"] Suc.hyps(2) Suc.prems i by simp
  then show ?case
    using ka.num_length [OF inv] ka.get_nth [OF inv i] ex i
    by (subst hassleepers_loop.simps) (auto simp: d sleeping_on_def add.commute split: option.splits)
qed

lemma woken_one_inv:
  assumes inv: "k_inv st" and w: "woken_one st a 0 st'"
  shows "k_inv st'"
  using w unfolding woken_one_def
proof (elim disjE exE conjE)
  fix j q b
  assume j: "j < length (sleepers st)" and st': "st' = st\<lparr>k_runqueue := q, k_sleepers := b\<rparr>" "q_inv q" "a_inv b"
    "q_list q = runq st @ [sleepers st ! j]" "a_list b = take j (sleepers st) @ drop (Suc j) (sleepers st)"
  have sp: "sleepers st = take j (sleepers st) @ sleepers st ! j # drop (Suc j) (sleepers st)"
    using j by (simp add: id_take_nth_drop)
  have m: "mset (live_tids st') = mset (live_tids st)"
    using arg_cong [OF sp, of mset] by (simp add: live_tids_def cur_list_def st' split: option.splits)
  then have m': "mset (live_tids st' @ zombies st') = mset (live_tids st @ zombies st)"
    by (simp add: st'(1))
  have "distinct (live_tids st' @ zombies st') = distinct (live_tids st @ zombies st)"
    "set (live_tids st' @ zombies st') = set (live_tids st @ zombies st)"
    using m' by (metis mset_eq_imp_distinct_iff, metis set_mset_mset)
  moreover have "length (live_tids st') = length (live_tids st)" using m by (metis size_mset)
  ultimately have "inv_lists st'"
    using inv st'(2,3) unfolding inv_lists_def k_inv_def by (simp add: st'(1) k_struct_def)
  moreover have "sleeper_ok st' = sleeper_ok st" "zombie_ok st' = zombie_ok st"
    by (rule sleeper_ok_cong zombie_ok_cong; simp add: st'(1))+
  ultimately show ?thesis
    using inv by (auto simp: k_inv_def st' list_all_iff dest: in_set_takeD in_set_dropD)
qed (use inv in simp)

section \<open>Sleeping and yielding keep the invariant\<close>

lemma cur_not_listed:
  assumes "inv_lists st" and "k_curthread st = Some c"
  shows "c \<notin> set (runq st) \<and> c \<notin> set (sleepers st) \<and> c \<notin> set (zombies st) \<and> c \<in> dom (k_threads st)"
proof -
  have "distinct ([c] @ runq st @ sleepers st @ zombies st)"
    and "set ([c] @ runq st @ sleepers st @ zombies st) = dom (k_threads st)"
    using assms by (simp_all add: inv_lists_def live_tids_def cur_list_def)
  then show ?thesis by auto
qed

lemma upd_cur_inv:
  assumes inv: "k_inv st" and u: "upd_cur f st = Some st'" and f: "\<And>th. t_stack (f th) = t_stack th"
  shows "k_inv st'"
proof -
  from u obtain c th where c: "k_curthread st = Some c" and th: "k_threads st c = Some th"
    and st': "st' = st\<lparr>k_threads := (k_threads st)(c \<mapsto> f th)\<rparr>"
    by (auto simp: upd_cur_Some)
  have l: "inv_lists st" using inv by (simp add: k_inv_def)
  note nc = cur_not_listed [OF l c]
  have "inv_lists st'"
    using l nc by (auto simp: inv_lists_def k_struct_def st' live_tids_def cur_list_def c)
  moreover have "sleeper_ok st' t" if "t \<in> set (sleepers st)" for t
  proof -
    have "sleeper_ok st t" "t \<noteq> c" using inv that nc by (auto simp: k_inv_def list_all_iff)
    then show ?thesis using blocked_cong [of st' st] by (simp add: sleeper_ok_def st')
  qed
  moreover have "zombie_ok st' t" if "t \<in> set (zombies st)" for t
  proof -
    have "zombie_ok st t" "t \<noteq> c" using inv that nc by (auto simp: k_inv_def list_all_iff)
    then show ?thesis by (simp add: zombie_ok_def st')
  qed
  moreover have "stack_ok (f th)" using inv th f by (simp add: k_inv_def stack_ok_def)
  ultimately show ?thesis
    using inv by (auto simp: k_inv_def st' list_all_iff)
qed

lemma push_frame_Some:
  "push_frame f st = Some st' \<longleftrightarrow>
   (\<exists>t th. k_curthread st = Some t \<and> k_threads st t = Some th \<and>
      st' = st\<lparr>k_threads := (k_threads st)(t \<mapsto> th\<lparr>t_frames := f # t_frames th\<rparr>)\<rparr>)"
  by (simp add: push_frame_def upd_cur_Some)

lemma push_frame_inv: "k_inv st \<Longrightarrow> push_frame f st = Some st' \<Longrightarrow> k_inv st'"
  using upd_cur_inv [of st "\<lambda>th. th\<lparr>t_frames := f # t_frames th\<rparr>" st'] by (simp add: push_frame_def)

lemma k_inv_splx: "k_inv st \<Longrightarrow> k_inv (snd (splx s st))"
proof -
  assume i: "k_inv st"
  have "sleeper_ok (snd (splx s st)) = sleeper_ok st" "zombie_ok (snd (splx s st)) = zombie_ok st"
    by (rule sleeper_ok_cong zombie_ok_cong; simp)+
  with i show ?thesis
    by (simp add: k_inv_def inv_lists_def k_struct_def live_tids_def cur_list_def)
qed

lemma k_rest_splx [simp]: "k_rest (snd (splx s st)) = k_rest st"
  by (simp add: k_rest_def)

text \<open>How the stacks of the threads may change: frames other than those of an exiting process may
  come and go. \<open>fr_ok Q\<close> says that the frame of \<^verbatim>\<open>inform_process_exit\<close> occurs at most once, above
  that of \<^verbatim>\<open>thread_exit\<close>, with arguments that satisfy \<open>Q\<close>.\<close>

definition is_exit_locked :: "kframe \<Rightarrow> bool" where
  "is_exit_locked f = (case f of F_exit_locked _ _ _ \<Rightarrow> True | _ \<Rightarrow> False)"

definition plain_frame :: "kframe \<Rightarrow> bool" where
  "plain_frame f \<longleftrightarrow> \<not> is_exit_locked f \<and> f \<noteq> F_thread_exit"

primrec fr_ok :: "(int \<Rightarrow> nat \<Rightarrow> bool) \<Rightarrow> kframe list \<Rightarrow> bool" where
  "fr_ok Q [] = True"
| "fr_ok Q (f # fs) =
     ((case f of F_exit_locked p s a \<Rightarrow> Q p a \<and> F_thread_exit \<in> set fs \<and> \<not> list_ex is_exit_locked fs | _ \<Rightarrow> True) \<and>
      fr_ok Q fs)"

definition exiting :: "thread \<Rightarrow> bool" where
  "exiting th \<longleftrightarrow> F_thread_exit \<in> set (t_frames th) \<and> \<not> list_ex is_exit_locked (t_frames th)"

definition fr_le :: "thread \<Rightarrow> thread \<Rightarrow> bool" where
  "fr_le th th' \<longleftrightarrow> t_pid th' = t_pid th \<and> exiting th' = exiting th \<and>
     (\<forall>Q. fr_ok Q (t_frames th) \<longrightarrow> fr_ok Q (t_frames th'))"

definition thr_rel :: "kernel \<Rightarrow> kernel \<Rightarrow> bool" where
  "thr_rel st st' \<longleftrightarrow> set (live_tids st') \<subseteq> set (live_tids st) \<and>
     (\<forall>t th'. t \<in> set (live_tids st') \<longrightarrow> k_threads st' t = Some th' \<longrightarrow> (\<exists>th. k_threads st t = Some th \<and> fr_le th th'))"

lemma fr_le_refl [simp]: "fr_le th th"
  by (simp add: fr_le_def)

lemma fr_le_trans: "fr_le a b \<Longrightarrow> fr_le b c \<Longrightarrow> fr_le a c"
  by (simp add: fr_le_def)

lemma same_thread_fr_le: "same_thread th th' \<Longrightarrow> fr_le th th'"
  by (simp add: fr_le_def exiting_def same_thread_simps)

lemma plain_frame_push: "plain_frame f \<Longrightarrow> t_frames th' = f # t_frames th \<Longrightarrow> t_pid th' = t_pid th \<Longrightarrow> fr_le th th'"
  by (auto simp: fr_le_def exiting_def plain_frame_def is_exit_locked_def split: kframe.splits)

lemma plain_frame_pop: "plain_frame f \<Longrightarrow> t_frames th = f # t_frames th' \<Longrightarrow> t_pid th' = t_pid th \<Longrightarrow> fr_le th th'"
  by (auto simp: fr_le_def exiting_def plain_frame_def is_exit_locked_def split: kframe.splits)

lemma fr_le_frames: "t_frames th' = t_frames th \<Longrightarrow> t_pid th' = t_pid th \<Longrightarrow> fr_le th th'"
  by (simp add: fr_le_def exiting_def)

lemma thr_rel_trans: "thr_rel a b \<Longrightarrow> thr_rel b c \<Longrightarrow> thr_rel a c"
  unfolding thr_rel_def by (meson fr_le_trans order_trans subsetD)

lemma thr_rel_same: "k_threads st' = k_threads st \<Longrightarrow> set (live_tids st') = set (live_tids st) \<Longrightarrow> thr_rel st st'"
  by (auto simp: thr_rel_def)

lemma thr_rel_le: "threads_le st st' \<Longrightarrow> set (live_tids st') = set (live_tids st) \<Longrightarrow> thr_rel st st'"
  unfolding thr_rel_def threads_le_def using same_thread_fr_le by blast

lemma thr_rel_upd:
  "k_threads st t = Some th \<Longrightarrow> fr_le th th' \<Longrightarrow> thr_rel st (st\<lparr>k_threads := (k_threads st)(t \<mapsto> th')\<rparr>)"
  by (auto simp: thr_rel_def live_tids_def cur_list_def)

lemma thr_rel_splx [simp]: "thr_rel st (snd (splx s st))"
  by (rule thr_rel_same) (simp_all add: live_tids_def cur_list_def)

lemma push_frame_rel: "push_frame f st = Some st' \<Longrightarrow> plain_frame f \<Longrightarrow> thr_rel st st'"
  by (auto simp: push_frame_Some intro!: thr_rel_upd plain_frame_push)

lemma woken_rel:
  assumes "woken st a 0 st'"
  shows "thr_rel st st'"
proof (rule thr_rel_same)
  show "k_threads st' = k_threads st" using assms by (auto simp: woken_def)
  show "set (live_tids st') = set (live_tids st)"
    using assms by (auto simp: woken_def live_tids_def cur_list_def)
qed

lemma woken_one_rel:
  assumes "woken_one st a 0 st'"
  shows "thr_rel st st'"
proof (rule thr_rel_same)
  show "k_threads st' = k_threads st" using assms by (auto simp: woken_one_def)
  show "set (live_tids st') = set (live_tids st)"
    using assms unfolding woken_one_def
  proof (elim disjE exE conjE)
    fix j q b
    assume j: "j < length (sleepers st)" and st': "st' = st\<lparr>k_runqueue := q, k_sleepers := b\<rparr>"
      "q_list q = runq st @ [sleepers st ! j]" "a_list b = take j (sleepers st) @ drop (Suc j) (sleepers st)"
    have "set (sleepers st) = set (take j (sleepers st)) \<union> {sleepers st ! j} \<union> set (drop (Suc j) (sleepers st))"
      using id_take_nth_drop [OF j] by (metis Un_insert_right list.simps(15) set_append sup_bot.right_neutral Un_insert_left)
    then show ?thesis by (auto simp: st' live_tids_def cur_list_def)
  qed simp
qed

lemma thread_sleep_inv:
  assumes inv: "k_inv st" and b: "blocked st a" and r: "thread_sleep km a st = Some st'"
  shows "k_inv st' \<and> k_rest st' = k_rest st \<and> thr_rel st st'"
proof -
  from r obtain c th where c: "k_curthread st = Some c" and th: "k_threads st c = Some th"
    and m: "mi_switch km S_SLEEP (st\<lparr>k_threads := (k_threads st)(c \<mapsto> th\<lparr>t_sleepaddr := Some a, t_frames := F_sleep # t_frames th\<rparr>)\<rparr>) = Some st'"
    by (auto simp: thread_sleep_def push_frame_Some upd_cur_Some kern_simps)
  let ?f = "\<lambda>th. th\<lparr>t_sleepaddr := Some a, t_frames := F_sleep # t_frames th\<rparr>"
  let ?s = "st\<lparr>k_threads := (k_threads st)(c \<mapsto> ?f th)\<rparr>"
  have "upd_cur ?f st = Some ?s" using c th by (auto simp: upd_cur_Some)
  then have i1: "k_inv ?s" by (rule upd_cur_inv [OF inv]) simp
  have sl: "sleeper_ok ?s c" using b blocked_cong [of ?s st a] by (simp add: sleeper_ok_def)
  have "k_curthread ?s = Some c" using c by simp
  note w = mi_switch_sleep_inv [OF i1 this sl m]
  have "fr_le th (?f th)"
    by (rule plain_frame_push [of F_sleep]) (simp_all add: plain_frame_def is_exit_locked_def)
  then have "thr_rel st ?s" using th by (intro thr_rel_upd)
  moreover have "thr_rel ?s st'"
    using w by (intro thr_rel_le) (auto simp: switch_frame_def threads_le_def)
  ultimately have "thr_rel st st'" by (rule thr_rel_trans)
  with w show ?thesis by (simp add: switch_frame_def k_rest_def)
qed

lemma thread_yield_inv:
  assumes inv: "k_inv st" and r: "thread_yield km st = Some st'"
  shows "k_inv st' \<and> k_rest st' = k_rest st \<and> thr_rel st st'"
proof (cases "k_curthread st")
  case None
  let ?s = "snd (splx SPL_HIGH st)"
  from r None have st': "st' = snd (splx (k_curspl st) ?s)"
    by (auto simp: thread_yield_def mi_switch_def kern_simps split_def)
  then show ?thesis
    using k_inv_splx [OF k_inv_splx [OF inv]] thr_rel_trans [OF thr_rel_splx thr_rel_splx] by simp
next
  case (Some c)
  let ?s = "snd (splx SPL_HIGH st)"
  from r Some obtain s2 where s2: "push_frame (F_yield (k_curspl st)) ?s = Some s2"
    and m: "mi_switch km S_READY s2 = Some st'"
    by (auto simp: thread_yield_def kern_simps split_def)
  have "k_inv s2" using push_frame_inv [OF k_inv_splx [OF inv] s2] .
  note w = mi_switch_ready_inv [OF this m]
  have "thr_rel ?s s2" by (rule push_frame_rel [OF s2]) (simp add: plain_frame_def is_exit_locked_def)
  moreover have "thr_rel s2 st'" using w by (intro thr_rel_le) (auto simp: switch_frame_def)
  ultimately have "thr_rel st st'" using thr_rel_trans thr_rel_splx by blast
  with w s2 show ?thesis by (auto simp: switch_frame_def push_frame_Some k_rest_def)
qed

section \<open>Wakeup does not fail\<close>

text \<open>There is room in the run queue for everybody who could be woken.\<close>

definition wake_room :: "kernel \<Rightarrow> bool" where
  "wake_room st \<longleftrightarrow> length (runq st) + length (sleepers st) \<le> q_cap (k_runqueue st)"

lemma thread_wakeup_total:
  assumes i: "inv_lists st" and r: "wake_room st" and s: "k_curspl st > 0"
  shows "\<exists>st'. thread_wakeup km a st = Some st' \<and> wake_room st' \<and> inv_lists st'"
proof -
  have "k_struct st" using i by (simp add: inv_lists_def)
  moreover have "list_all (\<lambda>t. k_threads st t \<noteq> None) (sleepers st)"
    using inv_lists_sleepers [OF i] by (auto simp: list_all_iff)
  ultimately obtain st' where w: "wakeup_loop km a (int 0) st = Some st'"
    using wakeup_loop_total [of st 0 km a] r s by (auto simp: wake_room_def)
  then have t: "thread_wakeup km a st = Some st'" using s by (simp add: thread_wakeup_def)
  have wk: "woken st a 0 st'" by (rule thread_wakeup_woken [OF i t])
  have "length (runq st') + length (sleepers st') = length (runq st) + length (sleepers st)"
    using wk sum_length_filter_compl [of "sleeping_on st a" "sleepers st"] by (auto simp: woken_def)
  moreover have "q_cap (k_runqueue st) \<le> q_cap (k_runqueue st')" using wk by (auto simp: woken_def)
  ultimately have "wake_room st'" using r by (simp add: wake_room_def)
  with t woken_lists [OF i wk] show ?thesis by blast
qed

lemma inv_lists_same:
  assumes "inv_lists st" "k_threads st' = k_threads st" "k_runqueue st' = k_runqueue st" "k_sleepers st' = k_sleepers st"
    "k_zombies st' = k_zombies st" "k_numthreads st' = k_numthreads st" "k_curthread st' = k_curthread st" "k_idle st' = k_idle st"
  shows "inv_lists st'"
  using assms by (simp add: inv_lists_def k_struct_def live_tids_def cur_list_def)

end
