(* ===== verification/Synch.thy ===== *)
theory Synch
  imports Threads
begin

text \<open>
  \<^verbatim>\<open>src/src/kern/thread/synch.c\<close>: semaphores, locks and condition variables, and
  \<^verbatim>\<open>clocksleep\<close> of \<^verbatim>\<open>hardclock.c\<close>.

  An operation that has to wait pushes a frame that says where it goes on and sleeps. \<open>P_loop\<close> and
  \<open>lock_acquire_loop\<close> are the \<^verbatim>\<open>while\<close> loops of \<^verbatim>\<open>P\<close> and \<^verbatim>\<open>lock_acquire\<close>, entered from the
  operation and again after each sleep. A NULL object is modelled by a name nothing is allocated at.
\<close>

section \<open>The code\<close>

definition sem_create :: "bool \<Rightarrow> bool \<Rightarrow> nat \<Rightarrow> int \<Rightarrow> kernel \<Rightarrow> bool \<times> kernel" where
  "sem_create km1 km2 sem initial_count st =
     (if \<not> kmalloc_ok km1 8 then (False, st)
      else if \<not> km2 then (False, st)
      else (True, st\<lparr>k_sems := (k_sems st)(sem \<mapsto> initial_count)\<rparr>))"

definition sem_destroy :: "nat \<Rightarrow> kernel \<Rightarrow> kernel kern" where
  "sem_destroy sem st =
     do {
       kassert (k_sems st sem \<noteq> None);
       let (spl, st1) = splhigh st;
       h \<leftarrow> thread_hassleepers (WSem sem) st1;
       kassert (\<not> h);
       let st2 = snd (splx spl st1);
       Some (st2\<lparr>k_sems := (k_sems st2)(sem := None)\<rparr>)
     }"

definition P_loop :: "mem \<Rightarrow> nat \<Rightarrow> int \<Rightarrow> kernel \<Rightarrow> kernel kern" where
  "P_loop km sem spl st =
     do {
       count \<leftarrow> k_sems st sem;
       if count = 0 then
         do { st1 \<leftarrow> push_frame (F_P sem spl) st; thread_sleep km (WSem sem) st1 }
       else
         do {
           kassert (count > 0);
           Some (snd (splx spl (st\<lparr>k_sems := (k_sems st)(sem \<mapsto> count - 1)\<rparr>)))
         }
     }"

definition P :: "mem \<Rightarrow> nat \<Rightarrow> kernel \<Rightarrow> kernel kern" where
  "P km sem st =
     do {
       kassert (k_sems st sem \<noteq> None);
       kassert (k_inintr st = 0);
       let (spl, st1) = splhigh st;
       P_loop km sem spl st1
     }"

definition V :: "mem \<Rightarrow> nat \<Rightarrow> kernel \<Rightarrow> kernel kern" where
  "V km sem st =
     do {
       count \<leftarrow> k_sems st sem;
       let (spl, st1) = splhigh st;
       let count' = s32 (count + 1);
       let st2 = st1\<lparr>k_sems := (k_sems st1)(sem \<mapsto> count')\<rparr>;
       kassert (count' > 0);
       st3 \<leftarrow> thread_wakeup km (WSem sem) st2;
       Some (snd (splx spl st3))
     }"

definition lock_create :: "bool \<Rightarrow> bool \<Rightarrow> nat \<Rightarrow> kernel \<Rightarrow> bool \<times> kernel" where
  "lock_create km1 km2 lock st =
     (if \<not> kmalloc_ok km1 8 then (False, st)
      else if \<not> km2 then (False, st)
      else (True, st\<lparr>k_locks := (k_locks st)(lock \<mapsto> None)\<rparr>))"

definition lock_destroy :: "nat \<Rightarrow> kernel \<Rightarrow> kernel kern" where
  "lock_destroy lock st =
     do { kassert (k_locks st lock \<noteq> None); Some (st\<lparr>k_locks := (k_locks st)(lock := None)\<rparr>) }"

definition lock_do_i_hold :: "nat \<Rightarrow> kernel \<Rightarrow> bool kern" where
  "lock_do_i_hold lock st =
     do {
       owner \<leftarrow> k_locks st lock;
       kassert (k_inintr st = 0);
       Some (owner = k_curthread st)
     }"

definition lock_acquire_loop :: "mem \<Rightarrow> nat \<Rightarrow> int \<Rightarrow> kernel \<Rightarrow> kernel kern" where
  "lock_acquire_loop km lock spl st =
     do {
       owner \<leftarrow> k_locks st lock;
       if owner \<noteq> None then
         do { st1 \<leftarrow> push_frame (F_lock_acquire lock spl) st; thread_sleep km (WLock lock) st1 }
       else
         Some (snd (splx spl (st\<lparr>k_locks := (k_locks st)(lock \<mapsto> k_curthread st)\<rparr>)))
     }"

definition lock_acquire :: "mem \<Rightarrow> nat \<Rightarrow> kernel \<Rightarrow> kernel kern" where
  "lock_acquire km lock st =
     do {
       kassert (k_locks st lock \<noteq> None);
       kassert (k_inintr st = 0);
       held \<leftarrow> lock_do_i_hold lock st;
       if held then None
       else do {
         let (spl, st1) = splhigh st;
         lock_acquire_loop km lock spl st1
       }
     }"

definition lock_release :: "mem \<Rightarrow> nat \<Rightarrow> kernel \<Rightarrow> kernel kern" where
  "lock_release km lock st =
     do {
       kassert (k_inintr st = 0);
       held \<leftarrow> lock_do_i_hold lock st;
       kassert held;
       let (spl, st1) = splhigh st;
       let st2 = st1\<lparr>k_locks := (k_locks st1)(lock \<mapsto> None)\<rparr>;
       st3 \<leftarrow> thread_wakeup km (WLock lock) st2;
       Some (snd (splx spl st3))
     }"

definition cv_create :: "bool \<Rightarrow> bool \<Rightarrow> nat \<Rightarrow> kernel \<Rightarrow> bool \<times> kernel" where
  "cv_create km1 km2 cv st =
     (if \<not> kmalloc_ok km1 4 then (False, st)
      else if \<not> km2 then (False, st)
      else (True, st\<lparr>k_cvs := (k_cvs st)(cv := True)\<rparr>))"

definition cv_destroy :: "nat \<Rightarrow> kernel \<Rightarrow> kernel kern" where
  "cv_destroy cv st = do { kassert (k_cvs st cv); Some (st\<lparr>k_cvs := (k_cvs st)(cv := False)\<rparr>) }"

definition cv_wait :: "mem \<Rightarrow> nat \<Rightarrow> nat \<Rightarrow> kernel \<Rightarrow> kernel kern" where
  "cv_wait km cv lock st =
     do {
       kassert (k_cvs st cv \<and> k_locks st lock \<noteq> None);
       kassert (k_inintr st = 0);
       let (spl, st1) = splhigh st;
       st2 \<leftarrow> lock_release (mem_skip 1 km) lock st1;
       st3 \<leftarrow> push_frame (F_cv_relock lock spl) st2;
       thread_sleep km (WCv cv) st3
     }"

text \<open>The rest of \<^verbatim>\<open>cv_wait\<close> after the sleep.\<close>

definition cv_relock :: "mem \<Rightarrow> nat \<Rightarrow> int \<Rightarrow> kernel \<Rightarrow> kernel kern" where
  "cv_relock km lock spl st = do { st1 \<leftarrow> push_frame (F_splx spl) st; lock_acquire km lock st1 }"

definition cv_signal :: "bool \<Rightarrow> nat \<Rightarrow> nat \<Rightarrow> kernel \<Rightarrow> kernel kern" where
  "cv_signal km cv lock st =
     do {
       kassert (k_cvs st cv \<and> k_locks st lock \<noteq> None);
       kassert (k_inintr st = 0);
       let (spl, st1) = splhigh st;
       held \<leftarrow> lock_do_i_hold lock st1;
       kassert held;
       st2 \<leftarrow> thread_wake_one km (WCv cv) st1;
       Some (snd (splx spl st2))
     }"

definition cv_broadcast :: "mem \<Rightarrow> nat \<Rightarrow> nat \<Rightarrow> kernel \<Rightarrow> kernel kern" where
  "cv_broadcast km cv lock st =
     do {
       kassert (k_cvs st cv \<and> k_locks st lock \<noteq> None);
       kassert (k_inintr st = 0);
       let (spl, st1) = splhigh st;
       held \<leftarrow> lock_do_i_hold lock st1;
       kassert held;
       st2 \<leftarrow> thread_wakeup km (WCv cv) st1;
       Some (snd (splx spl st2))
     }"

definition clocksleep_loop :: "mem \<Rightarrow> int \<Rightarrow> int \<Rightarrow> kernel \<Rightarrow> kernel kern" where
  "clocksleep_loop km num_secs s st =
     (if num_secs > 0
      then do { st1 \<leftarrow> push_frame (F_clocksleep (num_secs - 1) s) st; thread_sleep km WLbolt st1 }
      else Some (snd (splx s st)))"

definition clocksleep :: "mem \<Rightarrow> int \<Rightarrow> kernel \<Rightarrow> kernel kern" where
  "clocksleep km num_secs st = (let (s, st1) = splhigh st in clocksleep_loop km num_secs s st1)"

section \<open>The operations keep the invariant\<close>

lemma k_inv_sync:
  assumes inv: "k_inv st" and st': "st' = st\<lparr>k_sems := S, k_locks := L\<rparr>"
    and s: "\<And>t a. t \<in> set (sleepers st) \<Longrightarrow> sleeping_on st a t \<Longrightarrow> blocked st a \<Longrightarrow> blocked st' a"
  shows "k_inv st'"
proof -
  have "sleeper_ok st' t" if "t \<in> set (sleepers st)" for t
    using inv s that by (fastforce simp: k_inv_def list_all_iff sleeper_ok_def st' sleeping_on_def)
  moreover have "zombie_ok st' = zombie_ok st" by (rule zombie_ok_cong) (simp add: st')
  ultimately show ?thesis
    using inv by (simp add: k_inv_def list_all_iff st' inv_lists_def k_struct_def live_tids_def cur_list_def)
qed

lemma k_inv_blocked: "k_inv st \<Longrightarrow> t \<in> set (sleepers st) \<Longrightarrow> sleeping_on st a t \<Longrightarrow> blocked st a"
  by (auto simp: k_inv_def list_all_iff sleeper_ok_def sleeping_on_def)

definition pm_same :: "kernel \<Rightarrow> kernel \<Rightarrow> bool" where
  "pm_same st st' \<longleftrightarrow> k_pids st' = k_pids st \<and> k_pm st' = k_pm st"

lemma pm_same_rest: "k_rest st' = k_rest st \<Longrightarrow> pm_same st st'"
  by (simp add: k_rest_def pm_same_def)

lemma pm_same_trans: "pm_same a b \<Longrightarrow> pm_same b c \<Longrightarrow> pm_same a c"
  by (simp add: pm_same_def)

lemma push_frame_rest: "push_frame f st = Some st' \<Longrightarrow> k_rest st' = k_rest st \<and> k_curthread st' = k_curthread st \<and>
   k_curspl st' = k_curspl st \<and> k_inintr st' = k_inintr st \<and> k_runqueue st' = k_runqueue st \<and> k_sleepers st' = k_sleepers st"
  by (auto simp: push_frame_Some k_rest_def)

lemma push_sleep_inv:
  assumes "k_inv st" and "blocked st a" and "push_frame f st = Some st1" and "thread_sleep km a st1 = Some st'"
    and pf: "plain_frame f"
  shows "k_inv st' \<and> k_rest st' = k_rest st \<and> thr_rel st st'"
proof -
  have r: "k_rest st1 = k_rest st" using push_frame_rest [OF assms(3)] by simp
  then have "blocked st1 a" using assms(2) blocked_cong [of st1 st a] by (simp add: k_rest_def)
  from thread_sleep_inv [OF push_frame_inv [OF assms(1,3)] this assms(4)] r show ?thesis
    using thr_rel_trans [OF push_frame_rel [OF assms(3) pf]] by simp
qed

lemma P_loop_inv:
  assumes inv: "k_inv st" and r: "P_loop km sem spl st = Some st'"
  shows "k_inv st' \<and> pm_same st st' \<and> k_locks st' = k_locks st \<and> k_cvs st' = k_cvs st \<and> thr_rel st st'"
proof -
  from r obtain count where c: "k_sems st sem = Some count" by (auto simp: P_loop_def kern_simps)
  show ?thesis
  proof (cases "count = 0")
    case True
    with r c obtain st1 where "push_frame (F_P sem spl) st = Some st1" "thread_sleep km (WSem sem) st1 = Some st'"
      by (auto simp: P_loop_def kern_simps)
    from push_sleep_inv [OF inv _ this] c True show ?thesis
      by (simp add: blocked_def pm_same_rest k_rest_def plain_frame_def is_exit_locked_def)
  next
    case False
    let ?s = "st\<lparr>k_sems := (k_sems st)(sem \<mapsto> count - 1)\<rparr>"
    from False r c have st': "st' = snd (splx spl ?s)" by (auto simp: P_loop_def kern_simps)
    have "k_inv ?s"
      by (rule k_inv_sync [OF inv, where S = "(k_sems st)(sem \<mapsto> count - 1)" and L = "k_locks st"])
        (use False c in \<open>auto simp: blocked_def split: waddr.splits\<close>)
    moreover have "thr_rel st st'" by (rule thr_rel_same) (simp_all add: st' live_tids_def cur_list_def)
    ultimately show ?thesis using k_inv_splx by (simp add: st' pm_same_def)
  qed
qed

lemma P_inv:
  "k_inv st \<Longrightarrow> P km sem st = Some st' \<Longrightarrow>
   k_inv st' \<and> pm_same st st' \<and> k_locks st' = k_locks st \<and> k_cvs st' = k_cvs st \<and> thr_rel st st'"
  using P_loop_inv [OF k_inv_splx [of st SPL_HIGH], of km sem "k_curspl st" st'] thr_rel_trans [OF thr_rel_splx [of st SPL_HIGH], of st']
  by (auto simp: P_def kern_simps split_def pm_same_def)

text \<open>Changing a semaphore or a lock and then waking everybody who sleeps on it.\<close>

lemma wakeup_after_update:
  assumes inv: "k_inv st" and st1: "st1 = st\<lparr>k_sems := S, k_locks := L\<rparr>"
    and s: "\<And>b. b \<noteq> a \<Longrightarrow> blocked st b \<Longrightarrow> blocked st1 b"
    and w: "thread_wakeup km a st1 = Some st'"
  shows "k_inv st' \<and> woken st1 a 0 st'"
proof -
  have l: "inv_lists st1"
    using inv by (simp add: st1 k_inv_def inv_lists_def k_struct_def live_tids_def cur_list_def)
  have wk: "woken st1 a 0 st'" by (rule thread_wakeup_woken [OF l w])
  have "zombie_ok st1 = zombie_ok st" by (rule zombie_ok_cong) (simp add: st1)
  then have z: "list_all (zombie_ok st1) (zombies st1)" using inv by (simp add: k_inv_def st1)
  have "sleeper_ok st1 t" if "t \<in> set (sleepers st1)" "\<not> sleeping_on st1 a t" for t
  proof -
    have "sleeper_ok st t" using inv that(1) by (simp add: k_inv_def list_all_iff st1)
    then show ?thesis using that(2) s by (auto simp: sleeper_ok_def sleeping_on_def st1)
  qed
  from woken_inv [OF l wk this z] inv wk show ?thesis by (simp add: k_inv_def st1)
qed

lemma woken_fields:
  assumes "woken st a i st'"
  shows "k_rest st' = k_rest st \<and> k_curthread st' = k_curthread st \<and> k_threads st' = k_threads st \<and>
    k_curspl st' = k_curspl st \<and> k_inintr st' = k_inintr st \<and> k_idle st' = k_idle st"
  using assms by (auto simp: woken_def k_rest_def)

lemma V_inv:
  assumes inv: "k_inv st" and r: "V km sem st = Some st'"
  shows "k_inv st' \<and> pm_same st st' \<and> k_locks st' = k_locks st \<and> k_cvs st' = k_cvs st \<and> thr_rel st st'"
proof -
  let ?h = "snd (splx SPL_HIGH st)"
  from r obtain count st3 where c: "k_sems st sem = Some count"
    and w: "thread_wakeup km (WSem sem) (?h\<lparr>k_sems := (k_sems st)(sem \<mapsto> s32 (count + 1))\<rparr>) = Some st3"
    and st': "st' = snd (splx (k_curspl st) st3)"
    by (auto simp: V_def kern_simps split_def Let_def)
  have "k_inv st3 \<and> woken (?h\<lparr>k_sems := (k_sems st)(sem \<mapsto> s32 (count + 1))\<rparr>) (WSem sem) 0 st3"
    by (rule wakeup_after_update [OF k_inv_splx [OF inv, of SPL_HIGH], where
          S = "(k_sems st)(sem \<mapsto> s32 (count + 1))" and L = "k_locks st", OF _ _ w])
      (auto simp: blocked_def split: waddr.splits)
  moreover from this have "thr_rel st st3"
    using woken_rel by (force simp: thr_rel_def live_tids_def cur_list_def)
  ultimately show ?thesis
    using k_inv_splx woken_fields [of _ "WSem sem" 0 st3] thr_rel_trans [OF _ thr_rel_splx]
    by (auto simp: st' pm_same_def k_rest_def)
qed

definition acquires :: "nat \<Rightarrow> kernel \<Rightarrow> kernel \<Rightarrow> bool" where
  "acquires lock st st' \<longleftrightarrow> k_sems st' = k_sems st \<and> k_cvs st' = k_cvs st \<and> pm_same st st' \<and> thr_rel st st' \<and>
     (k_locks st' = k_locks st \<or>
      k_locks st lock = Some None \<and> k_locks st' = (k_locks st)(lock \<mapsto> k_curthread st))"

definition releases :: "nat \<Rightarrow> kernel \<Rightarrow> kernel \<Rightarrow> bool" where
  "releases lock st st' \<longleftrightarrow> k_sems st' = k_sems st \<and> k_cvs st' = k_cvs st \<and> pm_same st st' \<and> thr_rel st st' \<and>
     k_locks st lock = Some (k_curthread st) \<and> k_locks st' = (k_locks st)(lock \<mapsto> None)"

lemma lock_acquire_loop_inv:
  assumes inv: "k_inv st" and r: "lock_acquire_loop km lock spl st = Some st'"
  shows "k_inv st' \<and> acquires lock st st'"
proof -
  from r obtain owner where c: "k_locks st lock = Some owner" by (auto simp: lock_acquire_loop_def kern_simps)
  show ?thesis
  proof (cases owner)
    case (Some t)
    with r c obtain st1 where "push_frame (F_lock_acquire lock spl) st = Some st1"
      "thread_sleep km (WLock lock) st1 = Some st'"
      by (auto simp: lock_acquire_loop_def kern_simps)
    from push_sleep_inv [OF inv _ this] c Some show ?thesis
      by (simp add: blocked_def pm_same_rest k_rest_def acquires_def plain_frame_def is_exit_locked_def)
  next
    case None
    let ?s = "st\<lparr>k_locks := (k_locks st)(lock \<mapsto> k_curthread st)\<rparr>"
    from None r c have st': "st' = snd (splx spl ?s)" by (auto simp: lock_acquire_loop_def kern_simps)
    have "k_inv ?s"
      by (rule k_inv_sync [OF inv, where S = "k_sems st" and L = "(k_locks st)(lock \<mapsto> k_curthread st)"])
        (use None c in \<open>auto simp: blocked_def split: waddr.splits\<close>)
    moreover have "thr_rel st st'" by (rule thr_rel_same) (simp_all add: st' live_tids_def cur_list_def)
    ultimately show ?thesis using k_inv_splx None c by (simp add: st' pm_same_def acquires_def)
  qed
qed

lemma lock_acquire_inv:
  "k_inv st \<Longrightarrow> lock_acquire km lock st = Some st' \<Longrightarrow> k_inv st' \<and> acquires lock st st'"
  using lock_acquire_loop_inv [OF k_inv_splx [of st SPL_HIGH], of km lock "k_curspl st" st'] thr_rel_trans [OF thr_rel_splx [of st SPL_HIGH], of st']
  by (auto simp: lock_acquire_def kern_simps split_def acquires_def pm_same_def split: if_splits)

lemma lock_release_inv:
  assumes inv: "k_inv st" and r: "lock_release km lock st = Some st'"
  shows "k_inv st' \<and> releases lock st st' \<and> k_curthread st' = k_curthread st \<and> k_curspl st' = k_curspl st \<and>
    k_inintr st' = k_inintr st \<and> k_threads st' = k_threads st \<and> k_idle st' = k_idle st"
proof -
  let ?h = "snd (splx SPL_HIGH st)"
  from r obtain st3 where c: "k_locks st lock = Some (k_curthread st)"
    and w: "thread_wakeup km (WLock lock) (?h\<lparr>k_locks := (k_locks st)(lock \<mapsto> None)\<rparr>) = Some st3"
    and st': "st' = snd (splx (k_curspl st) st3)"
    by (auto simp: lock_release_def lock_do_i_hold_def kern_simps split_def Let_def)
  have "k_inv st3 \<and> woken (?h\<lparr>k_locks := (k_locks st)(lock \<mapsto> None)\<rparr>) (WLock lock) 0 st3"
    by (rule wakeup_after_update [OF k_inv_splx [OF inv, of SPL_HIGH], where
          S = "k_sems st" and L = "(k_locks st)(lock \<mapsto> None)", OF _ _ w])
      (auto simp: blocked_def split: waddr.splits)
  moreover from this have "thr_rel st st3"
    using woken_rel by (force simp: thr_rel_def live_tids_def cur_list_def)
  ultimately show ?thesis
    using k_inv_splx c woken_fields [of _ "WLock lock" 0 st3] thr_rel_trans [OF _ thr_rel_splx]
    by (auto simp: st' pm_same_def k_rest_def releases_def)
qed

lemma cv_wait_inv:
  assumes inv: "k_inv st" and r: "cv_wait km cv lock st = Some st'"
  shows "k_inv st' \<and> releases lock st st'"
proof -
  let ?h = "snd (splx SPL_HIGH st)"
  from r obtain st2 st3 where rel: "lock_release (mem_skip 1 km) lock ?h = Some st2"
    and p: "push_frame (F_cv_relock lock (k_curspl st)) st2 = Some st3" "thread_sleep km (WCv cv) st3 = Some st'"
    by (auto simp: cv_wait_def kern_simps split_def)
  note a = lock_release_inv [OF k_inv_splx [OF inv] rel]
  have b: "k_inv st' \<and> k_rest st' = k_rest st2 \<and> thr_rel st2 st'"
    by (rule push_sleep_inv [OF _ _ p]) (use a in \<open>simp_all add: blocked_def plain_frame_def is_exit_locked_def\<close>)
  then have "thr_rel st st'"
    using a thr_rel_trans [OF thr_rel_trans [OF thr_rel_splx]] by (auto simp: releases_def)
  with a b show ?thesis by (auto simp: releases_def k_rest_def pm_same_def)
qed

lemma cv_relock_inv:
  "k_inv st \<Longrightarrow> cv_relock km lock spl st = Some st' \<Longrightarrow> k_inv st' \<and> acquires lock st st'"
proof -
  assume inv: "k_inv st" and r: "cv_relock km lock spl st = Some st'"
  then obtain st1 where p: "push_frame (F_splx spl) st = Some st1" and a: "lock_acquire km lock st1 = Some st'"
    by (auto simp: cv_relock_def kern_simps)
  have "thr_rel st st1" by (rule push_frame_rel [OF p]) (simp add: plain_frame_def is_exit_locked_def)
  with lock_acquire_inv [OF push_frame_inv [OF inv p] a] push_frame_rest [OF p] show ?thesis
    by (auto simp: acquires_def k_rest_def pm_same_def intro: thr_rel_trans)
qed

lemma cv_signal_inv:
  assumes inv: "k_inv st" and r: "cv_signal km cv lock st = Some st'"
  shows "k_inv st' \<and> k_rest st' = k_rest st \<and> k_locks st lock = Some (k_curthread st) \<and> thr_rel st st'"
proof -
  let ?h = "snd (splx SPL_HIGH st)"
  from r obtain st2 where w: "thread_wake_one km (WCv cv) ?h = Some st2" and st': "st' = snd (splx (k_curspl st) st2)"
    and h: "k_locks st lock = Some (k_curthread st)"
    by (auto simp: cv_signal_def kern_simps split_def lock_do_i_hold_def)
  have i: "k_inv ?h" by (rule k_inv_splx [OF inv])
  then have l: "inv_lists ?h" by (simp add: k_inv_def)
  have wo: "woken_one ?h (WCv cv) 0 st2"
    using wake_one_loop_woken [OF _ inv_lists_sleepers [OF l], of 0 km] l w
    by (simp add: inv_lists_def thread_wake_one_def kern_simps)
  then have "k_inv st2" "k_rest st2 = k_rest ?h"
    using woken_one_inv [OF i] by (auto simp: woken_one_def k_rest_def)
  moreover have "thr_rel st st'"
    using thr_rel_trans [OF thr_rel_trans [OF thr_rel_splx woken_one_rel [OF wo]] thr_rel_splx] by (simp add: st')
  ultimately show ?thesis using h k_inv_splx by (simp add: st')
qed

lemma cv_broadcast_inv:
  assumes inv: "k_inv st" and r: "cv_broadcast km cv lock st = Some st'"
  shows "k_inv st' \<and> k_rest st' = k_rest st \<and> k_locks st lock = Some (k_curthread st) \<and>
    k_curthread st' = k_curthread st \<and> k_threads st' = k_threads st \<and> k_curspl st' = k_curspl st \<and> k_inintr st' = k_inintr st \<and>
    thr_rel st st'"
proof -
  let ?h = "snd (splx SPL_HIGH st)"
  from r obtain st2 where w: "thread_wakeup km (WCv cv) ?h = Some st2" and st': "st' = snd (splx (k_curspl st) st2)"
    and h: "k_locks st lock = Some (k_curthread st)"
    by (auto simp: cv_broadcast_def kern_simps split_def lock_do_i_hold_def)
  have wk: "k_inv st2 \<and> woken ?h (WCv cv) 0 st2"
    by (rule wakeup_after_update [OF k_inv_splx [OF inv, of SPL_HIGH], where S = "k_sems st" and L = "k_locks st", OF _ _ w])
      simp_all
  have "thr_rel st st'"
    using thr_rel_trans [OF thr_rel_trans [OF thr_rel_splx woken_rel [of ?h "WCv cv" st2]] thr_rel_splx] wk by (simp add: st')
  with wk show ?thesis
    using h k_inv_splx woken_fields [of ?h "WCv cv" 0 st2] by (auto simp: st')
qed

lemma clocksleep_loop_inv:
  "k_inv st \<Longrightarrow> clocksleep_loop km n s st = Some st' \<Longrightarrow> k_inv st' \<and> k_rest st' = k_rest st \<and> thr_rel st st'"
  using push_sleep_inv [of st WLbolt] k_inv_splx [of st s]
  by (auto simp: clocksleep_loop_def blocked_def kern_simps plain_frame_def is_exit_locked_def split: if_splits)

lemma cv_broadcast_total:
  assumes i: "inv_lists st" and r: "wake_room st" and c: "k_cvs st cv" "k_locks st lock = Some (k_curthread st)" "k_inintr st = 0"
  shows "\<exists>st'. cv_broadcast km cv lock st = Some st' \<and> wake_room st' \<and> inv_lists st'"
proof -
  let ?h = "snd (splx SPL_HIGH st)"
  have ih: "inv_lists ?h" by (rule inv_lists_same [OF i]) simp_all
  have "wake_room ?h" "k_curspl ?h > 0" using r by (simp_all add: wake_room_def SPL_HIGH_def)
  from thread_wakeup_total [OF ih this, of km "WCv cv"] obtain st2 where
    w: "thread_wakeup km (WCv cv) ?h = Some st2" "wake_room st2" "inv_lists st2" by blast
  have "cv_broadcast km cv lock st = Some (snd (splx (k_curspl st) st2))"
    using c w(1) by (simp add: cv_broadcast_def split_def lock_do_i_hold_def)
  moreover have "wake_room (snd (splx (k_curspl st) st2))" using w(2) by (simp add: wake_room_def)
  moreover have "inv_lists (snd (splx (k_curspl st) st2))" by (rule inv_lists_same [OF w(3)]) simp_all
  ultimately show ?thesis by blast
qed

lemma lock_release_total:
  assumes i: "inv_lists st" and r: "wake_room st" and c: "k_locks st lock = Some (k_curthread st)" "k_inintr st = 0"
  shows "\<exists>st'. lock_release km lock st = Some st'"
proof -
  let ?h = "(snd (splx SPL_HIGH st))\<lparr>k_locks := (k_locks st)(lock \<mapsto> None)\<rparr>"
  have ih: "inv_lists ?h" by (rule inv_lists_same [OF i]) simp_all
  have "wake_room ?h" "k_curspl ?h > 0" using r by (simp_all add: wake_room_def SPL_HIGH_def)
  from thread_wakeup_total [OF ih this, of km "WLock lock"] obtain st2 where "thread_wakeup km (WLock lock) ?h = Some st2" by blast
  then show ?thesis using c by (simp add: lock_release_def split_def lock_do_i_hold_def Let_def)
qed

end
