(* ===== verification/Pid_Manager.thy ===== *)
theory Pid_Manager
  imports Synch
begin

text \<open>
  \<^verbatim>\<open>src/src/kern/thread/pid_manager.c\<close>: the process table.

  \<open>k_pids\<close> is the heap of \<^verbatim>\<open>struct pid_info_block\<close>; a block that was freed is \<open>None\<close> there, so
  that a use after free, like a NULL dereference, is the result \<open>None\<close>. The address of a new block
  and of its condition variable are arguments (what \<^verbatim>\<open>kmalloc\<close> returns).

  \<^verbatim>\<open>validate_pid\<close> accepts pid 0, for which \<^verbatim>\<open>pid_info_blocks[pid - 1]\<close> is the word in front of
  the table. The model keeps that word in \<open>pid_before\<close>. \<^verbatim>\<open>pid_manager_bootstrap\<close> does not
  initialise \<^verbatim>\<open>number_of_procs\<close>; its initial content is an argument of the model.

  \<^verbatim>\<open>inform_process_exit\<close> and \<^verbatim>\<open>wait_pid\<close> may block and are cut at the calls that do: the parts
  after a call are \<open>exit_locked\<close>, \<open>wait_acquire\<close>, \<open>wait_locked\<close> and \<open>wait_status\<close>.
\<close>

section \<open>The table\<close>

definition MAX_PIDS :: int where
  "MAX_PIDS = 100"

definition validate_pid :: "int \<Rightarrow> bool" where
  "validate_pid pid \<longleftrightarrow> \<not> (pid < 0 \<or> pid > MAX_PIDS)"

definition get_pid_block :: "int \<Rightarrow> kernel \<Rightarrow> nat option" where
  "get_pid_block pid st =
     (if \<not> validate_pid pid then None
      else if pid = 0 then pid_before (k_pm st)
      else pid_info_blocks (k_pm st) ! nat (pid - 1))"

definition set_pid_block :: "int \<Rightarrow> nat option \<Rightarrow> kernel \<Rightarrow> kernel" where
  "set_pid_block pid block st =
     (if \<not> validate_pid pid then st
      else if pid = 0 then st\<lparr>k_pm := (k_pm st)\<lparr>pid_before := block\<rparr>\<rparr>
      else st\<lparr>k_pm := (k_pm st)\<lparr>pid_info_blocks := (pid_info_blocks (k_pm st))[nat (pid - 1) := block]\<rparr>\<rparr>)"

definition is_pid_free :: "int \<Rightarrow> kernel \<Rightarrow> bool" where
  "is_pid_free pid st \<longleftrightarrow> get_pid_block pid st = None"

definition should_free_pid :: "nat \<Rightarrow> kernel \<Rightarrow> bool kern" where
  "should_free_pid block st =
     do {
       b \<leftarrow> k_pids st block;
       if \<not> is_exited b then Some False
       else if my_parent b < 2 \<or> is_pid_free (my_parent b) st then Some True
       else do {
         pa \<leftarrow> get_pid_block (my_parent b) st;
         p \<leftarrow> k_pids st pa;
         Some (is_exited p)
       }
     }"

partial_function (option) scan_loop :: "int \<Rightarrow> int \<Rightarrow> bool \<Rightarrow> kernel \<Rightarrow> (int \<times> bool) option" where
  "scan_loop start i considered st =
     (if \<not> is_pid_free i st \<and> \<not> (i = start \<and> considered)
      then scan_loop start (i mod MAX_PIDS + 1) (considered \<or> i = start) st
      else Some (i, considered))"

declare scan_loop.simps [code]

definition scan_free :: "kernel \<Rightarrow> int kern" where
  "scan_free st =
     (if number_of_procs (k_pm st) = MAX_PIDS then Some (- 1)
      else do {
        let start = next_pid (k_pm st);
        (i, considered) \<leftarrow> scan_loop start start False st;
        if i = start \<and> considered then Some (- 1)
        else do { kassert (i > 0 \<and> i \<le> MAX_PIDS); Some i }
      })"

definition create_pid_block :: "mem \<Rightarrow> int \<Rightarrow> int \<Rightarrow> nat \<Rightarrow> nat \<Rightarrow> kernel \<Rightarrow> bool \<times> kernel" where
  "create_pid_block km pid parent a cv st =
     (if \<not> kmalloc_ok (km 0) 24 then (False, st)
      else
        case array_create (km 1) of
          None \<Rightarrow> (False, st)
        | Some ch \<Rightarrow>
            (case cv_create (km 2) (km 3) cv st of
               (False, _) \<Rightarrow> (False, st)
             | (True, st1) \<Rightarrow>
                 (True, st1\<lparr>k_pids := (k_pids st1)(a \<mapsto>
                    \<lparr>my_pid = pid, my_parent = parent, children = ch, is_exited = False,
                     exit_status = 0, exit_cv = cv\<rparr>)\<rparr>)))"

definition destroy_pid_block :: "nat \<Rightarrow> kernel \<Rightarrow> kernel kern" where
  "destroy_pid_block block st =
     do {
       b \<leftarrow> k_pids st block;
       st1 \<leftarrow> cv_destroy (exit_cv b) st;
       Some (st1\<lparr>k_pids := (k_pids st1)(block := None)\<rparr>)
     }"

section \<open>The public operations\<close>

definition get_parent :: "int \<Rightarrow> kernel \<Rightarrow> int kern" where
  "get_parent pid st =
     (case get_pid_block pid st of
        None \<Rightarrow> Some (- 1)
      | Some a \<Rightarrow> do { b \<leftarrow> k_pids st a; Some (my_parent b) })"

definition get_pid :: "tid \<Rightarrow> kernel \<Rightarrow> int kern" where
  "get_pid t st =
     do {
       th \<leftarrow> k_threads st t;
       a \<leftarrow> get_pid_block (t_pid th) st;
       b \<leftarrow> k_pids st a;
       kassert (t_pid th = my_pid b);
       Some (t_pid th)
     }"

definition is_pid_exited :: "int \<Rightarrow> kernel \<Rightarrow> bool kern" where
  "is_pid_exited pid st =
     do { a \<leftarrow> get_pid_block pid st; b \<leftarrow> k_pids st a; Some (is_exited b) }"

definition get_exit_status :: "int \<Rightarrow> kernel \<Rightarrow> int kern" where
  "get_exit_status pid st =
     (case get_pid_block pid st of
        None \<Rightarrow> Some (- 1)
      | Some a \<Rightarrow> do { b \<leftarrow> k_pids st a; Some (exit_status b) })"

definition add_child :: "bool \<Rightarrow> int \<Rightarrow> nat \<Rightarrow> kernel \<Rightarrow> (errno \<times> kernel) kern" where
  "add_child km parent_id block st =
     (case get_pid_block parent_id st of
        None \<Rightarrow> Some (EOK, st)
      | Some pa \<Rightarrow>
          do {
            p \<leftarrow> k_pids st pa;
            (e, ch) \<leftarrow> array_add km (children p) block;
            Some (e, st\<lparr>k_pids := (k_pids st)(pa \<mapsto> p\<lparr>children := ch\<rparr>)\<rparr>)
          })"

definition inform_process_add ::
    "mem \<Rightarrow> tid \<Rightarrow> int \<Rightarrow> nat \<Rightarrow> nat \<Rightarrow> kernel \<Rightarrow> (errno \<times> kernel) kern" where
  "inform_process_add km newguy parent_id a cv st =
     do {
       st1 \<leftarrow> upd_thread newguy (\<lambda>th. th\<lparr>t_pid := 0\<rparr>) st;
       if number_of_procs (k_pm st1) = MAX_PIDS then Some (EAGAIN, st1)
       else do {
         i \<leftarrow> scan_free st1;
         kassert (i \<noteq> - 1);
         let (ok, st2) = create_pid_block km i parent_id a cv st1;
         if \<not> ok then
           do { st3 \<leftarrow> lock_release (mem_skip 5 km) (pid_lock (k_pm st2)) st2; Some (ENOMEM, st3) }
         else do {
           (e, st3) \<leftarrow> add_child (km 4) parent_id a st2;
           if e \<noteq> EOK then do { st4 \<leftarrow> destroy_pid_block a st3; Some (ENOMEM, st4) }
           else do {
             st4 \<leftarrow> upd_thread newguy (\<lambda>th. th\<lparr>t_pid := i\<rparr>) st3;
             let st5 = set_pid_block i (Some a) st4;
             Some (EOK, st5\<lparr>k_pm := (k_pm st5)\<lparr>next_pid := i mod MAX_PIDS + 1,
                number_of_procs := number_of_procs (k_pm st5) + 1\<rparr>\<rparr>)
           }
         }
       }
     }"

definition free_pid :: "int \<Rightarrow> nat \<Rightarrow> kernel \<Rightarrow> kernel kern" where
  "free_pid pid block st =
     do {
       let st1 = set_pid_block pid None st;
       st2 \<leftarrow> destroy_pid_block block st1;
       Some (st2\<lparr>k_pm := (k_pm st2)\<lparr>number_of_procs := number_of_procs (k_pm st2) - 1\<rparr>\<rparr>)
     }"

text \<open>One round of the loop over the children of an exiting process.\<close>

definition reap_child :: "nat \<Rightarrow> kernel \<Rightarrow> int \<Rightarrow> kernel kern" where
  "reap_child block st i =
     do {
       b \<leftarrow> k_pids st block;
       child \<leftarrow> array_getguy (children b) i;
       f \<leftarrow> should_free_pid child st;
       if f then do { c \<leftarrow> k_pids st child; free_pid (my_pid c) child st } else Some st
     }"

definition exit_locked :: "mem \<Rightarrow> int \<Rightarrow> int \<Rightarrow> nat \<Rightarrow> kernel \<Rightarrow> kernel kern" where
  "exit_locked km pid status block st =
     do {
       b \<leftarrow> k_pids st block;
       st1 \<leftarrow> cv_broadcast km (exit_cv b) (pid_lock (k_pm st)) st;
       b1 \<leftarrow> k_pids st1 block;
       let st2 = st1\<lparr>k_pids := (k_pids st1)(block \<mapsto> b1\<lparr>is_exited := True, exit_status := status\<rparr>)\<rparr>;
       st3 \<leftarrow> kfold (reap_child block) st2 (map int [0..<nat (array_getnum (children b1))]);
       f \<leftarrow> should_free_pid block st3;
       st4 \<leftarrow> (if f then free_pid pid block st3 else Some st3);
       kassert (number_of_procs (k_pm st4) \<ge> 0);
       lock_release (mem_skip 1 km) (pid_lock (k_pm st4)) st4
     }"

definition inform_process_exit :: "mem \<Rightarrow> int \<Rightarrow> int \<Rightarrow> kernel \<Rightarrow> kernel kern" where
  "inform_process_exit km pid status st =
     (case get_pid_block pid st of
        None \<Rightarrow> Some st
      | Some block \<Rightarrow>
          do {
            st1 \<leftarrow> push_frame (F_exit_locked pid status block) st;
            lock_acquire km (pid_lock (k_pm st1)) st1
          })"

definition wait_pid :: "int \<Rightarrow> int \<Rightarrow> kernel \<Rightarrow> kernel kern" where
  "wait_pid pid caller st =
     (if \<not> validate_pid pid then set_result (EINVAL, 0) st
      else do {
        p \<leftarrow> get_parent pid st;
        if p \<noteq> caller then set_result (EINVAL, 0) st
        else push_frame (F_wait_acquire pid) st
      })"

definition wait_acquire :: "mem \<Rightarrow> int \<Rightarrow> kernel \<Rightarrow> kernel kern" where
  "wait_acquire km pid st =
     do { st1 \<leftarrow> push_frame (F_wait_locked pid) st; lock_acquire km (pid_lock (k_pm st1)) st1 }"

definition wait_status :: "mem \<Rightarrow> int \<Rightarrow> kernel \<Rightarrow> kernel kern" where
  "wait_status km pid st =
     do {
       a \<leftarrow> get_pid_block pid st;
       b \<leftarrow> k_pids st a;
       st1 \<leftarrow> lock_release km (pid_lock (k_pm st)) st;
       set_result (EOK, exit_status b) st1
     }"

definition wait_locked :: "mem \<Rightarrow> int \<Rightarrow> kernel \<Rightarrow> kernel kern" where
  "wait_locked km pid st =
     do {
       a \<leftarrow> get_pid_block pid st;
       b \<leftarrow> k_pids st a;
       if \<not> is_exited b then
         do {
           st1 \<leftarrow> push_frame (F_wait_status pid) st;
           cv_wait km (exit_cv b) (pid_lock (k_pm st1)) st1
         }
       else wait_status km pid st
     }"

text \<open>\<open>nprocs\<close> and \<open>prev\<close> are what the freshly allocated memory, and the word in front of it, held.\<close>

definition pid_manager_bootstrap :: "mem \<Rightarrow> int \<Rightarrow> nat option \<Rightarrow> nat \<Rightarrow> kernel \<Rightarrow> kernel kern" where
  "pid_manager_bootstrap km nprocs prev lock st =
     do {
       kassert (kmalloc_ok (km 0) 440);
       let pm = \<lparr>pid_before = prev, pid_info_blocks = replicate (nat MAX_PIDS) None,
                 number_of_procs = nprocs, next_pid = 1, pid_lock = lock\<rparr>;
       let (ok, st1) = lock_create (km 1) (km 2) lock st;
       kassert ok;
       Some (st1\<lparr>k_pm := pm\<rparr>)
     }"

definition destroy_pid_manager :: "kernel \<Rightarrow> kernel kern" where
  "destroy_pid_manager st =
     kfold (\<lambda>st i. case get_pid_block i st of None \<Rightarrow> Some st | Some a \<Rightarrow> destroy_pid_block a st)
       st (map int [0..<nat MAX_PIDS])"

section \<open>The search for a free pid\<close>

text \<open>The \<open>k\<close>-th pid the search looks at.\<close>

definition cyclic_pid :: "int \<Rightarrow> nat \<Rightarrow> int" where
  "cyclic_pid start k = (start - 1 + int k) mod MAX_PIDS + 1"

lemma cyclic_pid_next: "cyclic_pid start k mod MAX_PIDS + 1 = cyclic_pid start (Suc k)"
proof -
  have "((start - 1 + int k) mod 100 + 1) mod 100 = (start - 1 + int (Suc k)) mod 100"
    by (simp add: mod_simps ac_simps)
  then show ?thesis by (simp add: cyclic_pid_def MAX_PIDS_def)
qed

lemma cyclic_pid_range: "1 \<le> cyclic_pid start k \<and> cyclic_pid start k \<le> MAX_PIDS"
proof -
  have "0 \<le> (start - 1 + int k) mod 100" "(start - 1 + int k) mod 100 < 100" by simp_all
  then show ?thesis unfolding cyclic_pid_def MAX_PIDS_def by linarith
qed

lemma cyclic_pid_0: "1 \<le> start \<Longrightarrow> start \<le> MAX_PIDS \<Longrightarrow> cyclic_pid start 0 = start"
  by (simp add: cyclic_pid_def MAX_PIDS_def)

lemma cyclic_pid_start:
  assumes "1 \<le> start" and "start \<le> MAX_PIDS" and "k \<le> 100"
  shows "cyclic_pid start k = start \<longleftrightarrow> k = 0 \<or> k = 100"
proof -
  have "(start - 1 + int k) mod 100 = start - 1 \<longleftrightarrow> k = 0 \<or> k = 100"
  proof (cases "start - 1 + int k < 100")
    case True
    then show ?thesis using assms by (auto simp: MAX_PIDS_def)
  next
    case False
    then have "(start - 1 + int k) mod 100 = start - 1 + int k - 100"
      using assms by (simp add: MAX_PIDS_def mod_pos_geq)
    moreover have "k \<noteq> 0" using False assms by (auto simp: MAX_PIDS_def)
    ultimately show ?thesis by auto
  qed
  then show ?thesis by (simp add: cyclic_pid_def MAX_PIDS_def eq_diff_eq)
qed

lemma cyclic_pid_cover:
  assumes "1 \<le> start" and "start \<le> MAX_PIDS" and "1 \<le> p" and "p \<le> MAX_PIDS"
  shows "\<exists>k<100. cyclic_pid start k = p"
proof (cases "start \<le> p")
  case True
  then have "cyclic_pid start (nat (p - start)) = p"
    using assms by (simp add: cyclic_pid_def MAX_PIDS_def)
  then show ?thesis using assms True by (intro exI [of _ "nat (p - start)"]) (simp add: MAX_PIDS_def)
next
  case False
  have "(start - 1 + int (nat (100 - start + p))) mod 100 = (p - 1 + 100) mod 100"
    using assms by (simp add: MAX_PIDS_def)
  also have "\<dots> = p - 1" unfolding mod_add_self2 using assms by (simp add: MAX_PIDS_def)
  finally have "cyclic_pid start (nat (100 - start + p)) = p"
    by (simp add: cyclic_pid_def MAX_PIDS_def)
  then show ?thesis using assms False by (intro exI [of _ "nat (100 - start + p)"]) (simp add: MAX_PIDS_def)
qed

lemma scan_loop_rest:
  assumes s: "1 \<le> start" "start \<le> MAX_PIDS"
  shows "1 \<le> k \<Longrightarrow> k \<le> 100 \<Longrightarrow>
    (\<exists>j. k \<le> j \<and> j < 100 \<and> scan_loop start (cyclic_pid start k) True st = Some (cyclic_pid start j, True) \<and>
       is_pid_free (cyclic_pid start j) st \<and> (\<forall>l. k \<le> l \<and> l < j \<longrightarrow> \<not> is_pid_free (cyclic_pid start l) st)) \<or>
    scan_loop start (cyclic_pid start k) True st = Some (start, True) \<and>
       (\<forall>l. k \<le> l \<and> l < 100 \<longrightarrow> \<not> is_pid_free (cyclic_pid start l) st)"
proof (induction "100 - k" arbitrary: k)
  case 0
  then have k: "k = 100" by simp
  have c: "cyclic_pid start 100 = start" using cyclic_pid_start [OF s, of 100] by simp
  have "scan_loop start start True st = Some (start, True)"
    by (subst scan_loop.simps) simp
  with c k show ?case by (intro disjI2) auto
next
  case (Suc d)
  then have k: "k < 100" "1 \<le> k" by simp_all
  then have ne: "cyclic_pid start k \<noteq> start" using cyclic_pid_start [OF s, of k] by simp
  show ?case
  proof (cases "is_pid_free (cyclic_pid start k) st")
    case True
    then have "scan_loop start (cyclic_pid start k) True st = Some (cyclic_pid start k, True)"
      by (subst scan_loop.simps) simp
    with True k show ?thesis by (intro disjI1 exI [of _ k]) auto
  next
    case False
    have e: "scan_loop start (cyclic_pid start k) True st = scan_loop start (cyclic_pid start (Suc k)) True st"
      using False ne by (subst scan_loop.simps) (simp add: cyclic_pid_next)
    have a: "k \<le> l \<longleftrightarrow> l = k \<or> Suc k \<le> l" for l by auto
    from Suc.hyps(1) [of "Suc k"] Suc.hyps(2) k have
      "(\<exists>j. Suc k \<le> j \<and> j < 100 \<and> scan_loop start (cyclic_pid start (Suc k)) True st = Some (cyclic_pid start j, True) \<and>
         is_pid_free (cyclic_pid start j) st \<and> (\<forall>l. Suc k \<le> l \<and> l < j \<longrightarrow> \<not> is_pid_free (cyclic_pid start l) st)) \<or>
       scan_loop start (cyclic_pid start (Suc k)) True st = Some (start, True) \<and>
         (\<forall>l. Suc k \<le> l \<and> l < 100 \<longrightarrow> \<not> is_pid_free (cyclic_pid start l) st)" by simp
    then show ?thesis unfolding e using False a by (metis Suc_leD)
  qed
qed

lemma scan_free_found:
  assumes s: "1 \<le> next_pid (k_pm st)" "next_pid (k_pm st) \<le> MAX_PIDS"
    and n: "number_of_procs (k_pm st) \<noteq> MAX_PIDS"
    and f: "1 \<le> p" "p \<le> MAX_PIDS" "is_pid_free p st"
  shows "\<exists>j<100. scan_free st = Some (cyclic_pid (next_pid (k_pm st)) j) \<and>
    is_pid_free (cyclic_pid (next_pid (k_pm st)) j) st \<and>
    (\<forall>l<j. \<not> is_pid_free (cyclic_pid (next_pid (k_pm st)) l) st)"
proof -
  let ?s = "next_pid (k_pm st)"
  have c0: "cyclic_pid ?s 0 = ?s" using cyclic_pid_0 [OF s] .
  show ?thesis
  proof (cases "is_pid_free ?s st")
    case True
    then have "scan_loop ?s ?s False st = Some (?s, False)" by (subst scan_loop.simps) simp
    with True s n c0 show ?thesis by (intro exI [of _ 0]) (simp add: scan_free_def Let_def)
  next
    case False
    have e: "scan_loop ?s ?s False st = scan_loop ?s (cyclic_pid ?s (Suc 0)) True st"
      using False cyclic_pid_next [of ?s 0] c0 by (subst scan_loop.simps) simp
    obtain k where k: "k < 100" "cyclic_pid ?s k = p" using cyclic_pid_cover [OF s f(1,2)] by blast
    have "k \<noteq> 0" using k c0 False f(3) by (cases k) auto
    then have "\<not> (\<forall>l. 1 \<le> l \<and> l < 100 \<longrightarrow> \<not> is_pid_free (cyclic_pid ?s l) st)"
      using k f(3) by (auto intro!: exI [of _ k])
    with scan_loop_rest [OF s, of 1 st] obtain j where
      j: "1 \<le> j" "j < 100" "scan_loop ?s (cyclic_pid ?s (Suc 0)) True st = Some (cyclic_pid ?s j, True)"
        "is_pid_free (cyclic_pid ?s j) st" "\<forall>l. 1 \<le> l \<and> l < j \<longrightarrow> \<not> is_pid_free (cyclic_pid ?s l) st"
      by auto
    have "cyclic_pid ?s j \<noteq> ?s" using cyclic_pid_start [OF s, of j] j by simp
    moreover have "\<not> is_pid_free (cyclic_pid ?s l) st" if "l < j" for l
      using that j(5) False c0 by (cases "l = 0") auto
    ultimately show ?thesis
      using j n e cyclic_pid_range [of ?s j] by (intro exI [of _ j]) (simp add: scan_free_def Let_def)
  qed
qed

section \<open>The table invariant\<close>

definition used :: "nat option list \<Rightarrow> nat" where
  "used xs = length (filter (\<lambda>x. x \<noteq> None) xs)"

lemma used_set: "i < length xs \<Longrightarrow> xs ! i = None \<Longrightarrow> used (xs[i := Some a]) = Suc (used xs)"
  unfolding used_def by (induction xs arbitrary: i) (auto simp: nth_Cons' split: nat.splits)

lemma used_clear: "i < length xs \<Longrightarrow> xs ! i = Some a \<Longrightarrow> Suc (used (xs[i := None])) = used xs"
  unfolding used_def by (induction xs arbitrary: i) (auto simp: nth_Cons' split: nat.splits)

lemma used_less: "used xs \<noteq> length xs \<Longrightarrow> \<exists>i<length xs. xs ! i = None"
proof (rule ccontr)
  assume "used xs \<noteq> length xs" and "\<not> (\<exists>i<length xs. xs ! i = None)"
  moreover from this have "filter (\<lambda>x. x \<noteq> None) xs = xs"
    by (intro filter_True) (auto simp: in_set_conv_nth)
  ultimately show False by (simp add: used_def)
qed

abbreviation ptable :: "kernel \<Rightarrow> nat option list" where
  "ptable st \<equiv> pid_info_blocks (k_pm st)"

text \<open>A block in its slot: right pid, well-formed list of children, live condition variable.\<close>

definition block_ok :: "kernel \<Rightarrow> nat \<Rightarrow> pid_info_block \<Rightarrow> bool" where
  "block_ok st a b \<longleftrightarrow> 1 \<le> my_pid b \<and> my_pid b \<le> MAX_PIDS \<and> ptable st ! nat (my_pid b - 1) = Some a \<and>
     a_inv (children b) \<and> k_cvs st (exit_cv b)"

text \<open>Every child recorded in a block is still allocated and names the block as its parent.\<close>

definition children_ok :: "kernel \<Rightarrow> pid_info_block \<Rightarrow> bool" where
  "children_ok st b \<longleftrightarrow> distinct (a_list (children b)) \<and>
     list_all (\<lambda>c. \<exists>cb. k_pids st c = Some cb \<and> my_parent cb = my_pid b \<and> my_pid cb \<noteq> my_pid b)
       (a_list (children b))"

definition pm_inv :: "kernel \<Rightarrow> bool" where
  "pm_inv st \<longleftrightarrow> length (ptable st) = 100 \<and> pid_before (k_pm st) = None \<and>
     1 \<le> next_pid (k_pm st) \<and> next_pid (k_pm st) \<le> MAX_PIDS \<and>
     number_of_procs (k_pm st) = int (used (ptable st)) \<and>
     (\<forall>i<100. \<forall>a. ptable st ! i = Some a \<longrightarrow> (\<exists>b. k_pids st a = Some b \<and> my_pid b = int i + 1)) \<and>
     (\<forall>a b. k_pids st a = Some b \<longrightarrow> block_ok st a b) \<and>
     (\<forall>a b. k_pids st a = Some b \<longrightarrow> \<not> is_exited b \<longrightarrow> 2 \<le> my_pid b \<longrightarrow> children_ok st b) \<and>
     (\<forall>a a' b b'. k_pids st a = Some b \<longrightarrow> k_pids st a' = Some b' \<longrightarrow> exit_cv b = exit_cv b' \<longrightarrow> a = a')"

lemma get_pid_block_table: "1 \<le> p \<Longrightarrow> p \<le> MAX_PIDS \<Longrightarrow> get_pid_block p st = ptable st ! nat (p - 1)"
  by (simp add: get_pid_block_def validate_pid_def)

lemma get_pid_block_Some:
  assumes "pm_inv st" and "get_pid_block p st = Some a"
  shows "\<exists>b. k_pids st a = Some b \<and> my_pid b = p \<and> 1 \<le> p \<and> p \<le> MAX_PIDS"
proof -
  have r: "1 \<le> p" "p \<le> MAX_PIDS" "ptable st ! nat (p - 1) = Some a"
    using assms by (auto simp: get_pid_block_def pm_inv_def validate_pid_def split: if_splits)
  then have "nat (p - 1) < 100" by (simp add: MAX_PIDS_def)
  with r assms(1) obtain b where "k_pids st a = Some b" "my_pid b = int (nat (p - 1)) + 1"
    unfolding pm_inv_def by blast
  with r show ?thesis by simp
qed

lemma pm_invD:
  assumes "pm_inv st"
  shows "length (ptable st) = 100" "pid_before (k_pm st) = None"
    "1 \<le> next_pid (k_pm st)" "next_pid (k_pm st) \<le> MAX_PIDS"
    "number_of_procs (k_pm st) = int (used (ptable st))"
    "i < 100 \<Longrightarrow> ptable st ! i = Some a \<Longrightarrow> \<exists>b. k_pids st a = Some b \<and> my_pid b = int i + 1"
    "k_pids st a = Some b \<Longrightarrow> block_ok st a b"
    "k_pids st a = Some b \<Longrightarrow> \<not> is_exited b \<Longrightarrow> 2 \<le> my_pid b \<Longrightarrow> children_ok st b"
    "k_pids st a = Some b \<Longrightarrow> k_pids st a' = Some b' \<Longrightarrow> exit_cv b = exit_cv b' \<Longrightarrow> a = a'"
  using assms unfolding pm_inv_def by blast+

lemma pm_invI:
  assumes "length (ptable st) = 100" and "pid_before (k_pm st) = None"
    and "1 \<le> next_pid (k_pm st)" and "next_pid (k_pm st) \<le> MAX_PIDS"
    and "number_of_procs (k_pm st) = int (used (ptable st))"
    and "\<And>i a. i < 100 \<Longrightarrow> ptable st ! i = Some a \<Longrightarrow> \<exists>b. k_pids st a = Some b \<and> my_pid b = int i + 1"
    and "\<And>a b. k_pids st a = Some b \<Longrightarrow> block_ok st a b"
    and "\<And>a b. k_pids st a = Some b \<Longrightarrow> \<not> is_exited b \<Longrightarrow> 2 \<le> my_pid b \<Longrightarrow> children_ok st b"
    and "\<And>a a' b b'. k_pids st a = Some b \<Longrightarrow> k_pids st a' = Some b' \<Longrightarrow> exit_cv b = exit_cv b' \<Longrightarrow> a = a'"
  shows "pm_inv st"
  unfolding pm_inv_def using assms by blast

lemma pm_inv_block: "pm_inv st \<Longrightarrow> k_pids st a = Some b \<Longrightarrow> get_pid_block (my_pid b) st = Some a"
  using pm_invD(7) [of st a b] by (simp add: block_ok_def get_pid_block_table)

lemma pm_inv_unique:
  assumes "pm_inv st" and "k_pids st a = Some b" and "k_pids st a' = Some b'" and "my_pid b = my_pid b'"
  shows "a = a'"
  using pm_inv_block [OF assms(1,2)] pm_inv_block [OF assms(1,3)] assms(4) by simp

text \<open>Whoever may be freed is not a recorded child of a live process with a pid of 2 or more.\<close>

lemma should_free_orphan:
  assumes inv: "pm_inv st" and f: "should_free_pid a st = Some True"
    and p: "k_pids st a' = Some b'" "\<not> is_exited b'" "2 \<le> my_pid b'"
  shows "a \<notin> set (a_list (children b'))"
proof
  assume m: "a \<in> set (a_list (children b'))"
  from pm_invD(8) [OF inv p] m obtain b where b: "k_pids st a = Some b" "my_parent b = my_pid b'"
    by (auto simp: children_ok_def list_all_iff)
  have g: "get_pid_block (my_parent b) st = Some a'" using pm_inv_block [OF inv p(1)] b(2) by simp
  from f b(1) g p b(2) show False
    by (auto simp: should_free_pid_def is_pid_free_def kern_simps split: if_splits)
qed

lemma free_pid_ok:
  assumes inv: "pm_inv st" and f: "should_free_pid a st = Some True" and b: "k_pids st a = Some b"
  shows "\<exists>pm. free_pid (my_pid b) a st = Some (st\<lparr>k_cvs := (k_cvs st)(exit_cv b := False),
      k_pids := (k_pids st)(a := None), k_pm := pm\<rparr>) \<and> pid_lock pm = pid_lock (k_pm st) \<and>
    pm_inv (st\<lparr>k_cvs := (k_cvs st)(exit_cv b := False), k_pids := (k_pids st)(a := None), k_pm := pm\<rparr>)"
proof -
  define i where "i = nat (my_pid b - 1)"
  have bo: "block_ok st a b" using pm_invD(7) [OF inv b] .
  then have i: "i < 100" "ptable st ! i = Some a" "my_pid b = int i + 1" "k_cvs st (exit_cv b)"
    by (auto simp: block_ok_def i_def MAX_PIDS_def)
  let ?pm = "(k_pm st)\<lparr>pid_info_blocks := (ptable st)[i := None], number_of_procs := number_of_procs (k_pm st) - 1\<rparr>"
  let ?s = "st\<lparr>k_cvs := (k_cvs st)(exit_cv b := False), k_pids := (k_pids st)(a := None), k_pm := ?pm\<rparr>"
  have sp: "set_pid_block (my_pid b) None st = st\<lparr>k_pm := (k_pm st)\<lparr>pid_info_blocks := (ptable st)[i := None]\<rparr>\<rparr>"
    using bo by (simp add: set_pid_block_def validate_pid_def block_ok_def i_def)
  have e: "free_pid (my_pid b) a st = Some ?s"
    unfolding free_pid_def sp Let_def using b i(4) by (simp add: destroy_pid_block_def cv_destroy_def)
  have n: "number_of_procs (k_pm st) - 1 = int (used ((ptable st)[i := None]))"
    using used_clear [of i "ptable st" a] i pm_invD(1,5) [OF inv] by simp
  have slot: "\<exists>b'. k_pids ?s a' = Some b' \<and> my_pid b' = int j + 1" if "j < 100" "ptable ?s ! j = Some a'" for j a'
  proof -
    have j: "j \<noteq> i" "ptable st ! j = Some a'" using that i pm_invD(1) [OF inv] by (auto simp: nth_list_update split: if_splits)
    then obtain b' where b': "k_pids st a' = Some b'" "my_pid b' = int j + 1" using pm_invD(6) [OF inv _ j(2)] \<open>j < 100\<close> by blast
    then have "a' \<noteq> a" using b i j by auto
    with b' show ?thesis by simp
  qed
  have blk: "block_ok ?s a' b'" if "k_pids ?s a' = Some b'" for a' b'
  proof -
    have a': "a' \<noteq> a" "k_pids st a' = Some b'" using that by (auto split: if_splits)
    have "exit_cv b' \<noteq> exit_cv b" using pm_invD(9) [OF inv a'(2) b] a'(1) by blast
    moreover have "nat (my_pid b' - 1) \<noteq> i"
      using pm_invD(7) [OF inv a'(2)] i(2) a'(1) by (auto simp: block_ok_def)
    ultimately show ?thesis
      using pm_invD(7) [OF inv a'(2)] by (auto simp: block_ok_def nth_list_update)
  qed
  have ch: "children_ok ?s b'" if "k_pids ?s a' = Some b'" "\<not> is_exited b'" "2 \<le> my_pid b'" for a' b'
  proof -
    have a': "k_pids st a' = Some b'" using that(1) by (auto split: if_splits)
    have "a \<notin> set (a_list (children b'))" by (rule should_free_orphan [OF inv f a' that(2,3)])
    then show ?thesis
      using pm_invD(8) [OF inv a' that(2,3)] by (auto simp: children_ok_def list_all_iff)
  qed
  have "pm_inv ?s"
    unfolding pm_inv_def using slot blk ch n pm_invD(1-4) [OF inv] pm_invD(9) [OF inv]
    by (auto split: if_splits)
  with e show ?thesis by (intro exI [of _ ?pm]) simp
qed

text \<open>What the process table code leaves alone; the blocks that remain are unchanged.\<close>

definition pm_frame :: "kernel \<Rightarrow> kernel \<Rightarrow> bool" where
  "pm_frame st st' \<longleftrightarrow>
     (\<exists>c p m. st' = st\<lparr>k_cvs := c, k_pids := p, k_pm := m\<rparr> \<and> pid_lock m = pid_lock (k_pm st) \<and> p \<subseteq>\<^sub>m k_pids st)"

lemma pm_frameI:
  "pid_lock m = pid_lock (k_pm st) \<Longrightarrow> p \<subseteq>\<^sub>m k_pids st \<Longrightarrow> pm_frame st (st\<lparr>k_cvs := c, k_pids := p, k_pm := m\<rparr>)"
  unfolding pm_frame_def by (intro exI conjI) (rule refl)

lemma map_le_remove: "f(a := None) \<subseteq>\<^sub>m f"
  by (simp add: map_le_def)

lemma pm_frame_refl [simp]: "pm_frame st st"
  by (cases st) (auto simp: pm_frame_def)

lemma pm_frame_trans: "pm_frame a b \<Longrightarrow> pm_frame b c \<Longrightarrow> pm_frame a c"
  unfolding pm_frame_def by (elim exE conjE) (auto intro: map_le_trans)

definition keeps_live :: "nat set \<Rightarrow> kernel \<Rightarrow> kernel \<Rightarrow> bool" where
  "keeps_live X st st' \<longleftrightarrow> (\<forall>a b. a \<notin> X \<longrightarrow> k_pids st a = Some b \<longrightarrow> \<not> is_exited b \<longrightarrow> k_pids st' a = Some b)"

lemma keeps_live_refl [simp]: "keeps_live X st st"
  by (simp add: keeps_live_def)

lemma keeps_live_trans: "keeps_live X a b \<Longrightarrow> keeps_live X b c \<Longrightarrow> keeps_live X a c"
  unfolding keeps_live_def by blast

lemma should_free_exited: "should_free_pid a st = Some True \<Longrightarrow> k_pids st a = Some b \<Longrightarrow> is_exited b"
  by (auto simp: should_free_pid_def split: if_splits)

lemma reap_child_inv:
  assumes inv: "pm_inv st" and r: "reap_child block st i = Some st'"
  shows "pm_inv st' \<and> pm_frame st st' \<and> keeps_live {} st st'"
proof -
  from r obtain child f where f: "should_free_pid child st = Some f"
    and s: "(if f then do { c \<leftarrow> k_pids st child; free_pid (my_pid c) child st } else Some st) = Some st'"
    by (auto simp: reap_child_def kern_simps)
  show ?thesis
  proof (cases f)
    case False
    with s inv show ?thesis by simp
  next
    case True
    with s obtain c where c: "k_pids st child = Some c" "free_pid (my_pid c) child st = Some st'"
      by (auto simp: kern_simps)
    have "should_free_pid child st = Some True" using f True by simp
    from free_pid_ok [OF inv this c(1)] should_free_exited [OF this c(1)] c show ?thesis
      by (auto intro!: pm_frameI map_le_remove simp: keeps_live_def)
  qed
qed

lemma reap_fold_inv:
  "pm_inv st \<Longrightarrow> kfold (reap_child block) st is = Some st' \<Longrightarrow> pm_inv st' \<and> pm_frame st st' \<and> keeps_live {} st st'"
proof (induction "is" arbitrary: st)
  case (Cons i "is")
  then obtain st1 where s1: "reap_child block st i = Some st1" "kfold (reap_child block) st1 is = Some st'"
    by (auto simp: kern_simps)
  from reap_child_inv [OF Cons.prems(1) s1(1)] Cons.IH [OF _ s1(2)] show ?case
    using pm_frame_trans keeps_live_trans by blast
qed simp

lemma reap_child_total:
  assumes inv: "pm_inv st" and b: "k_pids st block = Some b" "is_exited b" "2 \<le> my_pid b"
    and k: "k < length (a_list (children b))"
    and c: "k_pids st (a_list (children b) ! k) = Some cb" "my_parent cb = my_pid b" "my_pid cb \<noteq> my_pid b"
  shows "\<exists>st'. reap_child block st (int k) = Some st' \<and> k_pids st' block = Some b \<and>
    k_pids st' = (if is_exited cb then (k_pids st)(a_list (children b) ! k := None) else k_pids st)"
proof -
  let ?c = "a_list (children b) ! k"
  have g: "array_getguy (children b) (int k) = Some ?c"
    using ka.get_nth [OF _ k] pm_invD(7) [OF inv b(1)] by (simp add: block_ok_def)
  have gp: "get_pid_block (my_parent cb) st = Some block" using pm_inv_block [OF inv b(1)] c(2) by simp
  have f: "should_free_pid ?c st = Some (is_exited cb)"
    using c gp b by (simp add: should_free_pid_def is_pid_free_def)
  show ?thesis
  proof (cases "is_exited cb")
    case False
    with f g b show ?thesis by (simp add: reap_child_def)
  next
    case True
    have "?c \<noteq> block" using c b by auto
    moreover obtain st' where "free_pid (my_pid cb) ?c st = Some st'" "k_pids st' = (k_pids st)(?c := None)"
      using free_pid_ok [OF inv _ c(1)] f True by auto
    ultimately show ?thesis using f g b c(1) True by (simp add: reap_child_def)
  qed
qed

lemma reap_fold_total:
  assumes b: "is_exited b" "2 \<le> my_pid b" "distinct (a_list (children b))"
  shows "pm_inv st \<Longrightarrow> k_pids st block = Some b \<Longrightarrow> k \<le> length (a_list (children b)) \<Longrightarrow>
    list_all (\<lambda>c. \<exists>cb. k_pids st c = Some cb \<and> my_parent cb = my_pid b \<and> my_pid cb \<noteq> my_pid b)
      (drop k (a_list (children b))) \<Longrightarrow>
    \<exists>st'. kfold (reap_child block) st (map int [k..<length (a_list (children b))]) = Some st' \<and>
      k_pids st' block = Some b"
proof (induction "length (a_list (children b)) - k" arbitrary: k st)
  case 0
  then show ?case by simp
next
  case (Suc d)
  let ?cs = "a_list (children b)"
  have k: "k < length ?cs" using Suc.hyps(2) by simp
  have dr: "drop k ?cs = ?cs ! k # drop (Suc k) ?cs" using k by (simp add: Cons_nth_drop_Suc)
  from Suc.prems(4) dr obtain cb where cb: "k_pids st (?cs ! k) = Some cb" "my_parent cb = my_pid b" "my_pid cb \<noteq> my_pid b"
    by auto
  from reap_child_total [OF Suc.prems(1,2) b(1,2) k cb] obtain st1 where
    s1: "reap_child block st (int k) = Some st1" "k_pids st1 block = Some b"
      "k_pids st1 = (if is_exited cb then (k_pids st)(?cs ! k := None) else k_pids st)" by blast
  have "?cs ! k \<notin> set (drop (Suc k) ?cs)"
    using b(3) dr by (metis distinct.simps(2) distinct_drop)
  then have "list_all (\<lambda>c. \<exists>cb. k_pids st1 c = Some cb \<and> my_parent cb = my_pid b \<and> my_pid cb \<noteq> my_pid b) (drop (Suc k) ?cs)"
    using Suc.prems(4) s1(3) dr by (auto simp: list_all_iff)
  moreover have "d = length ?cs - Suc k" "Suc k \<le> length ?cs" using Suc.hyps(2) k by simp_all
  ultimately obtain st' where
    "kfold (reap_child block) st1 (map int [Suc k..<length ?cs]) = Some st'" "k_pids st' block = Some b"
    using Suc.hyps(1) [of "Suc k" st1] s1(2) reap_child_inv [OF Suc.prems(1) s1(1)] by blast
  moreover have "[k..<length ?cs] = k # [Suc k..<length ?cs]" using k by (simp add: upt_conv_Cons)
  ultimately show ?case using s1 by simp
qed

lemma k_inv_pm: "k_inv st \<Longrightarrow> k_inv (st\<lparr>k_cvs := c, k_pids := p, k_pm := m\<rparr>)"
proof -
  assume i: "k_inv st"
  let ?s = "st\<lparr>k_cvs := c, k_pids := p, k_pm := m\<rparr>"
  have "sleeper_ok ?s = sleeper_ok st" "zombie_ok ?s = zombie_ok st"
    by (rule sleeper_ok_cong zombie_ok_cong; simp)+
  with i show ?thesis
    by (simp add: k_inv_def inv_lists_def k_struct_def live_tids_def cur_list_def)
qed

lemma k_inv_pm_frame: "k_inv st \<Longrightarrow> pm_frame st st' \<Longrightarrow> k_inv st'"
  by (auto simp: pm_frame_def k_inv_pm)

lemma pm_inv_cong:
  "k_pids st' = k_pids st \<Longrightarrow> k_pm st' = k_pm st \<Longrightarrow> k_cvs st' = k_cvs st \<Longrightarrow> pm_inv st' = pm_inv st"
  by (simp add: pm_inv_def block_ok_def children_ok_def)

lemma pm_inv_rest: "k_rest st' = k_rest st \<Longrightarrow> pm_inv st' = pm_inv st"
  by (rule pm_inv_cong) (simp_all add: k_rest_def)

lemma exit_mark_inv:
  assumes inv: "pm_inv st" and b: "k_pids st block = Some b"
  shows "pm_inv (st\<lparr>k_pids := (k_pids st)(block \<mapsto> b\<lparr>is_exited := True, exit_status := s\<rparr>)\<rparr>)"
proof -
  let ?s = "st\<lparr>k_pids := (k_pids st)(block \<mapsto> b\<lparr>is_exited := True, exit_status := s\<rparr>)\<rparr>"
  have o: "\<exists>b0. k_pids st a = Some b0 \<and> my_pid b' = my_pid b0 \<and> my_parent b' = my_parent b0 \<and>
      children b' = children b0 \<and> exit_cv b' = exit_cv b0 \<and> (\<not> is_exited b' \<longrightarrow> b' = b0)"
    if "k_pids ?s a = Some b'" for a b'
    using that b by (auto split: if_splits)
  have n: "\<exists>b'. k_pids ?s a = Some b' \<and> my_pid b' = my_pid b0 \<and> my_parent b' = my_parent b0"
    if "k_pids st a = Some b0" for a b0
    using that b by auto
  have 1: "block_ok ?s a b'" if "k_pids ?s a = Some b'" for a b'
    using o [OF that] pm_invD(7) [OF inv] by (fastforce simp: block_ok_def)
  have 2: "children_ok ?s b'" if "k_pids ?s a = Some b'" "\<not> is_exited b'" "2 \<le> my_pid b'" for a b'
  proof -
    from o [OF that(1)] that(2) have "k_pids st a = Some b'" by blast
    from pm_invD(8) [OF inv this that(2,3)] show ?thesis
      unfolding children_ok_def list_all_iff using n by metis
  qed
  have 3: "\<exists>b'. k_pids ?s a = Some b' \<and> my_pid b' = int i + 1" if "i < 100" "ptable ?s ! i = Some a" for i a
    using pm_invD(6) [OF inv that(1), of a] that(2) n by fastforce
  have 4: "a = a'" if "k_pids ?s a = Some b'" "k_pids ?s a' = Some b''" "exit_cv b' = exit_cv b''" for a a' b' b''
    using o [OF that(1)] o [OF that(2)] that(3) pm_invD(9) [OF inv] by metis
  show ?thesis
    by (rule pm_invI) (use pm_invD(1-5) [OF inv] in simp, use pm_invD(1-5) [OF inv] in simp,
      use pm_invD(1-5) [OF inv] in simp, use pm_invD(1-5) [OF inv] in simp, use pm_invD(1-5) [OF inv] in simp,
      rule 3, assumption+, rule 1, assumption, rule 2, assumption+, rule 4, assumption+)
qed

lemma should_free_total: "pm_inv st \<Longrightarrow> k_pids st a = Some b \<Longrightarrow> \<exists>f. should_free_pid a st = Some f"
  using get_pid_block_Some [of st "my_parent b"]
  by (auto simp: should_free_pid_def is_pid_free_def)

text \<open>What happens under the lock in \<^verbatim>\<open>inform_process_exit\<close>, once the sleepers have been woken.\<close>

definition exit_body :: "int \<Rightarrow> int \<Rightarrow> nat \<Rightarrow> kernel \<Rightarrow> kernel kern" where
  "exit_body pid status block st =
     do {
       b1 \<leftarrow> k_pids st block;
       let st2 = st\<lparr>k_pids := (k_pids st)(block \<mapsto> b1\<lparr>is_exited := True, exit_status := status\<rparr>)\<rparr>;
       st3 \<leftarrow> kfold (reap_child block) st2 (map int [0..<nat (array_getnum (children b1))]);
       f \<leftarrow> should_free_pid block st3;
       (if f then free_pid pid block st3 else Some st3)
     }"

lemma exit_locked_body:
  "exit_locked km pid status block st =
     do {
       b \<leftarrow> k_pids st block;
       st1 \<leftarrow> cv_broadcast km (exit_cv b) (pid_lock (k_pm st)) st;
       st4 \<leftarrow> exit_body pid status block st1;
       kassert (number_of_procs (k_pm st4) \<ge> 0);
       lock_release (mem_skip 1 km) (pid_lock (k_pm st4)) st4
     }"
  by (simp add: exit_locked_def exit_body_def bind_assoc Let_def)

lemma exit_body_inv:
  assumes inv: "pm_inv st" and g: "get_pid_block pid st = Some block" and r: "exit_body pid status block st = Some st'"
  shows "pm_inv st' \<and> keeps_live {block} st st' \<and>
    (\<exists>c p m. st' = st\<lparr>k_cvs := c, k_pids := p, k_pm := m\<rparr> \<and> pid_lock m = pid_lock (k_pm st))"
proof -
  from r obtain b st3 f where b: "k_pids st block = Some b"
    and st3: "kfold (reap_child block) (st\<lparr>k_pids := (k_pids st)(block \<mapsto> b\<lparr>is_exited := True, exit_status := status\<rparr>)\<rparr>)
      (map int [0..<nat (array_getnum (children b))]) = Some st3"
    and f: "should_free_pid block st3 = Some f" and s: "(if f then free_pid pid block st3 else Some st3) = Some st'"
    by (auto simp: exit_body_def kern_simps Let_def)
  note r3 = reap_fold_inv [OF exit_mark_inv [OF inv b] st3]
  have p: "my_pid b = pid" using get_pid_block_Some [OF inv g] b by auto
  have st': "pm_inv st' \<and> pm_frame st3 st' \<and> keeps_live {block} st3 st'"
  proof (cases f)
    case False
    with s r3 show ?thesis by simp
  next
    case True
    have t: "should_free_pid block st3 = Some True" using f True by simp
    then obtain b3 where b3: "k_pids st3 block = Some b3" by (auto simp: should_free_pid_def kern_simps)
    have "my_pid b3 = pid" using r3 b3 p by (auto simp: pm_frame_def map_le_def dom_def split: if_splits)
    with free_pid_ok [OF _ t b3] r3 s True show ?thesis
      by (auto intro!: pm_frameI map_le_remove simp: keeps_live_def)
  qed
  have "keeps_live {block} st st'"
    using st' r3 unfolding keeps_live_def by auto
  moreover have "pm_frame (st\<lparr>k_pids := (k_pids st)(block \<mapsto> b\<lparr>is_exited := True, exit_status := status\<rparr>)\<rparr>) st3"
    using r3 by simp
  ultimately show ?thesis
    using st' unfolding pm_frame_def by (elim exE conjE) (auto intro!: exI)
qed

lemma get_pid_block_cong: "k_pm st' = k_pm st \<Longrightarrow> get_pid_block p st' = get_pid_block p st"
  by (simp add: get_pid_block_def)

lemma exit_locked_inv:
  assumes inv: "k_inv st" "pm_inv st" and g: "get_pid_block pid st = Some block"
    and r: "exit_locked km pid status block st = Some st'"
  shows "k_inv st' \<and> pm_inv st' \<and> k_sems st' = k_sems st \<and> pid_lock (k_pm st') = pid_lock (k_pm st) \<and>
    k_locks st (pid_lock (k_pm st)) = Some (k_curthread st) \<and>
    k_locks st' = (k_locks st)(pid_lock (k_pm st) \<mapsto> None) \<and>
    k_curthread st' = k_curthread st \<and> k_threads st' = k_threads st \<and> k_curspl st' = k_curspl st \<and> k_inintr st' = k_inintr st \<and>
    thr_rel st st' \<and> keeps_live {block} st st'"
proof -
  from r obtain b st1 st4 where b: "k_pids st block = Some b"
    and st1: "cv_broadcast km (exit_cv b) (pid_lock (k_pm st)) st = Some st1"
    and st4: "exit_body pid status block st1 = Some st4"
    and rel: "lock_release (mem_skip 1 km) (pid_lock (k_pm st4)) st4 = Some st'"
    by (auto simp: exit_locked_body kern_simps)
  note c = cv_broadcast_inv [OF inv(1) st1]
  have "pm_inv st1" using inv(2) c pm_inv_rest by blast
  moreover have "get_pid_block pid st1 = Some block" using g c get_pid_block_cong [of st1 st] by (simp add: k_rest_def)
  ultimately obtain cv p m where e4: "st4 = st1\<lparr>k_cvs := cv, k_pids := p, k_pm := m\<rparr>"
    "pid_lock m = pid_lock (k_pm st1)" and i4: "pm_inv st4" and kl: "keeps_live {block} st1 st4"
    using exit_body_inv st4 by blast
  have k4: "k_inv st4" using c k_inv_pm by (simp add: e4(1))
  note d = lock_release_inv [OF k4 rel]
  have "pm_inv st'" using d i4 pm_inv_cong [of st' st4] by (simp add: releases_def pm_same_def)
  moreover have "thr_rel st st'"
  proof -
    have "thr_rel st1 st4" by (rule thr_rel_same) (simp_all add: e4 live_tids_def cur_list_def)
    with c d show ?thesis by (meson releases_def thr_rel_trans)
  qed
  moreover have "keeps_live {block} st st'"
    using kl c d by (simp add: keeps_live_def k_rest_def releases_def pm_same_def)
  ultimately show ?thesis using c d e4 by (auto simp: releases_def k_rest_def pm_same_def)
qed

lemma exit_body_total:
  assumes inv: "pm_inv st" and b: "k_pids st block = Some b" "\<not> is_exited b" "2 \<le> my_pid b"
  shows "\<exists>st'. exit_body (my_pid b) status block st = Some st' \<and>
    k_pids st' block \<in> {None, Some (b\<lparr>is_exited := True, exit_status := status\<rparr>)}"
proof -
  let ?b = "b\<lparr>is_exited := True, exit_status := status\<rparr>"
  let ?s = "st\<lparr>k_pids := (k_pids st)(block \<mapsto> ?b)\<rparr>"
  have i: "pm_inv ?s" by (rule exit_mark_inv [OF inv b(1)])
  have ch: "children_ok st b" by (rule pm_invD(8) [OF inv b])
  have n: "nat (array_getnum (children b)) = length (a_list (children b))"
    using ka.num_length [of "children b"] pm_invD(7) [OF inv b(1)] by (simp add: block_ok_def)
  have l: "list_all (\<lambda>c. \<exists>cb. k_pids ?s c = Some cb \<and> my_parent cb = my_pid ?b \<and> my_pid cb \<noteq> my_pid ?b)
      (drop 0 (a_list (children ?b)))"
    using ch b(1) by (auto simp: children_ok_def list_all_iff)
  have "\<exists>st3. kfold (reap_child block) ?s (map int [0..<length (a_list (children ?b))]) = Some st3 \<and> k_pids st3 block = Some ?b"
    by (rule reap_fold_total [OF _ _ _ i _ _ l]) (use b ch in \<open>simp_all add: children_ok_def\<close>)
  then obtain st3 where
    s3: "kfold (reap_child block) ?s (map int [0..<length (a_list (children b))]) = Some st3" "k_pids st3 block = Some ?b"
    by auto
  have i3: "pm_inv st3" using reap_fold_inv [OF i s3(1)] by simp
  then obtain f where f: "should_free_pid block st3 = Some f" using should_free_total s3(2) by blast
  have e: "exit_body (my_pid b) status block st = (if f then free_pid (my_pid b) block st3 else Some st3)"
    unfolding exit_body_def using b(1) s3(1) n f by (simp add: Let_def)
  show ?thesis
  proof (cases f)
    case False
    with e s3 show ?thesis by simp
  next
    case True
    with free_pid_ok [OF i3 _ s3(2)] f e show ?thesis by auto
  qed
qed

section \<open>Adding a process\<close>

text \<open>The table after a new block \<open>a\<close> was entered under a free pid \<open>i\<close>; \<open>P\<close> is the new heap of blocks.\<close>

definition added :: "kernel \<Rightarrow> int \<Rightarrow> int \<Rightarrow> nat \<Rightarrow> nat \<Rightarrow> kernel \<Rightarrow> bool" where
  "added st i parent a cv st' \<longleftrightarrow>
     1 \<le> i \<and> i \<le> MAX_PIDS \<and> ptable st ! nat (i - 1) = None \<and>
     k_pm st' = (k_pm st)\<lparr>pid_info_blocks := (ptable st)[nat (i - 1) := Some a],
        next_pid := i mod MAX_PIDS + 1, number_of_procs := number_of_procs (k_pm st) + 1\<rparr> \<and>
     k_cvs st' = (k_cvs st)(cv := True) \<and>
     (\<exists>nb. k_pids st' a = Some nb \<and> my_pid nb = i \<and> my_parent nb = parent \<and> \<not> is_exited nb \<and>
        exit_cv nb = cv \<and> a_inv (children nb) \<and> a_list (children nb) = []) \<and>
     (\<forall>x. x \<noteq> a \<longrightarrow> get_pid_block parent st \<noteq> Some x \<longrightarrow> k_pids st' x = k_pids st x) \<and>
     (\<forall>pa p. get_pid_block parent st = Some pa \<longrightarrow> k_pids st pa = Some p \<longrightarrow>
        (\<exists>ch. k_pids st' pa = Some (p\<lparr>children := ch\<rparr>) \<and> a_inv ch \<and> a_list ch = a_list (children p) @ [a]))"

lemma added_inv:
  assumes inv: "pm_inv st" and ad: "added st i parent a cv st'" and fresh: "k_pids st a = None" "\<not> k_cvs st cv"
  shows "pm_inv st'"
proof (rule pm_invI)
  let ?k = "nat (i - 1)"
  have i: "1 \<le> i" "i \<le> MAX_PIDS" "?k < 100" "ptable st ! ?k = None"
    and pm: "ptable st' = (ptable st)[?k := Some a]" "pid_before (k_pm st') = pid_before (k_pm st)"
      "next_pid (k_pm st') = i mod MAX_PIDS + 1" "number_of_procs (k_pm st') = number_of_procs (k_pm st) + 1"
    and cvs: "k_cvs st' = (k_cvs st)(cv := True)"
    using ad by (auto simp: added_def MAX_PIDS_def)
  obtain nb where nb: "k_pids st' a = Some nb" "my_pid nb = i" "my_parent nb = parent"
      "exit_cv nb = cv" "a_inv (children nb)" "a_list (children nb) = []"
    using ad by (auto simp: added_def)
  have old: "\<exists>b0. k_pids st x = Some b0 \<and> my_pid b = my_pid b0 \<and> my_parent b = my_parent b0 \<and> exit_cv b = exit_cv b0 \<and>
      is_exited b = is_exited b0 \<and> a_inv (children b) \<and>
      (a_list (children b) = a_list (children b0) \<or>
       a_list (children b) = a_list (children b0) @ [a] \<and> parent = my_pid b0)"
    if x: "k_pids st' x = Some b" "x \<noteq> a" for x b
  proof (cases "get_pid_block parent st = Some x")
    case False
    then have "k_pids st x = Some b" using ad x by (auto simp: added_def)
    then show ?thesis using pm_invD(7) [OF inv] by (auto simp: block_ok_def)
  next
    case True
    with get_pid_block_Some [OF inv True] ad x show ?thesis by (fastforce simp: added_def)
  qed
  have new: "\<exists>b'. k_pids st' x = Some b' \<and> my_pid b' = my_pid b \<and> my_parent b' = my_parent b"
    if x: "k_pids st x = Some b" for x b
  proof -
    have "x \<noteq> a" using x fresh by auto
    then show ?thesis using x ad by (cases "get_pid_block parent st = Some x") (fastforce simp: added_def)+
  qed
  show "length (ptable st') = 100" "pid_before (k_pm st') = None"
    "1 \<le> next_pid (k_pm st')" "next_pid (k_pm st') \<le> MAX_PIDS"
    using pm pm_invD(1,2) [OF inv] i by (simp_all add: MAX_PIDS_def)
  show "number_of_procs (k_pm st') = int (used (ptable st'))"
    using pm used_set [of ?k "ptable st" a] i pm_invD(1,5) [OF inv] by simp
  show "\<exists>b. k_pids st' x = Some b \<and> my_pid b = int j + 1" if j: "j < 100" "ptable st' ! j = Some x" for j x
  proof (cases "j = ?k")
    case True
    with j pm i pm_invD(1) [OF inv] nb show ?thesis by auto
  next
    case False
    with j pm have "ptable st ! j = Some x" by simp
    from pm_invD(6) [OF inv j(1) this] new show ?thesis by fastforce
  qed
  show "block_ok st' x b" if x: "k_pids st' x = Some b" for x b
  proof (cases "x = a")
    case True
    with x nb i pm cvs pm_invD(1) [OF inv] show ?thesis by (auto simp: block_ok_def)
  next
    case False
    from old [OF x False] obtain b0 where b0: "k_pids st x = Some b0" "my_pid b = my_pid b0" "exit_cv b = exit_cv b0" "a_inv (children b)"
      by blast
    have bo: "block_ok st x b0" using pm_invD(7) [OF inv b0(1)] .
    then have "?k \<noteq> nat (my_pid b0 - 1)" using i(4) by (auto simp: block_ok_def)
    with bo b0 pm cvs show ?thesis by (simp add: block_ok_def)
  qed
  show "children_ok st' b" if x: "k_pids st' x = Some b" "\<not> is_exited b" "2 \<le> my_pid b" for x b
  proof (cases "x = a")
    case True
    with x nb show ?thesis by (auto simp: children_ok_def)
  next
    case False
    from old [OF x(1) False] obtain b0 where b0: "k_pids st x = Some b0" "my_pid b = my_pid b0" "is_exited b = is_exited b0"
      and ch: "a_list (children b) = a_list (children b0) \<or> a_list (children b) = a_list (children b0) @ [a] \<and> parent = my_pid b0"
      by blast
    have c0: "children_ok st b0" using pm_invD(8) [OF inv b0(1)] x b0 by simp
    then have na: "a \<notin> set (a_list (children b0))" using fresh by (auto simp: children_ok_def list_all_iff)
    have ip: "i \<noteq> my_pid b0" using pm_invD(7) [OF inv b0(1)] i by (auto simp: block_ok_def)
    have "\<exists>cb. k_pids st' c = Some cb \<and> my_parent cb = my_pid b \<and> my_pid cb \<noteq> my_pid b" if "c \<in> set (a_list (children b0))" for c
      using c0 that new b0(2) unfolding children_ok_def list_all_iff by metis
    with ch c0 na nb ip b0(2) show ?thesis by (auto simp: children_ok_def list_all_iff)
  qed
  show "x = y" if xy: "k_pids st' x = Some b" "k_pids st' y = Some b'" "exit_cv b = exit_cv b'" for x y b b'
  proof -
    have cvx: "exit_cv c \<noteq> cv" if "k_pids st' z = Some c" "z \<noteq> a" for z c
      using old [OF that] pm_invD(7) [OF inv] fresh(2) by (fastforce simp: block_ok_def)
    show ?thesis
    proof (cases "x = a \<or> y = a")
      case True
      then show ?thesis using xy nb cvx by fastforce
    next
      case False
      then show ?thesis using old [of x b] old [of y b'] xy pm_invD(9) [OF inv] by metis
    qed
  qed
qed

definition first_free :: "kernel \<Rightarrow> int \<Rightarrow> bool" where
  "first_free st i \<longleftrightarrow> is_pid_free i st \<and>
     (\<exists>j<100. i = cyclic_pid (next_pid (k_pm st)) j \<and>
        list_all (\<lambda>l. \<not> is_pid_free (cyclic_pid (next_pid (k_pm st)) l) st) [0..<j])"

lemma is_pid_free_cong: "k_pm st' = k_pm st \<Longrightarrow> is_pid_free i st' = is_pid_free i st"
  by (simp add: is_pid_free_def get_pid_block_def)

lemma pm_inv_free_slot:
  assumes inv: "pm_inv st" and n: "number_of_procs (k_pm st) \<noteq> MAX_PIDS"
  shows "\<exists>i. scan_free st = Some i \<and> 1 \<le> i \<and> i \<le> MAX_PIDS \<and> ptable st ! nat (i - 1) = None \<and> first_free st i"
proof -
  from n have "used (ptable st) \<noteq> length (ptable st)"
    using pm_invD(1,5) [OF inv] by (simp add: MAX_PIDS_def)
  from used_less [OF this] obtain k where k: "k < 100" "ptable st ! k = None"
    using pm_invD(1) [OF inv] by auto
  then have p: "1 \<le> int k + 1" "int k + 1 \<le> MAX_PIDS" "is_pid_free (int k + 1) st"
    by (simp_all add: MAX_PIDS_def is_pid_free_def get_pid_block_def)
  from scan_free_found [OF pm_invD(3,4) [OF inv] n p] obtain j where
    j: "j < 100" "scan_free st = Some (cyclic_pid (next_pid (k_pm st)) j)" "is_pid_free (cyclic_pid (next_pid (k_pm st)) j) st"
      "\<forall>l<j. \<not> is_pid_free (cyclic_pid (next_pid (k_pm st)) l) st" by blast
  have "first_free st (cyclic_pid (next_pid (k_pm st)) j)"
    unfolding first_free_def using j by (auto simp: list_all_iff)
  with j show ?thesis
    using cyclic_pid_range [of "next_pid (k_pm st)" j] by (simp add: is_pid_free_def get_pid_block_table)
qed

lemma add_child_cases:
  assumes inv: "pm_inv st" and st2: "k_pm st2 = k_pm st" "k_pids st2 = (k_pids st)(a \<mapsto> nb)" and a: "k_pids st a = None"
  shows "get_pid_block parent st = None \<and> add_child km parent a st2 = Some (EOK, st2) \<or>
    (\<exists>pa p. get_pid_block parent st = Some pa \<and> pa \<noteq> a \<and> k_pids st pa = Some p \<and>
      (add_child km parent a st2 = Some (ENOMEM, st2) \<or>
       (\<exists>ch. add_child km parent a st2 = Some (EOK, st2\<lparr>k_pids := (k_pids st2)(pa \<mapsto> p\<lparr>children := ch\<rparr>)\<rparr>) \<and>
          a_inv ch \<and> a_list ch = a_list (children p) @ [a])))"
proof (cases "get_pid_block parent st")
  case None
  then show ?thesis using get_pid_block_cong [OF st2(1)] by (simp add: add_child_def)
next
  case (Some pa)
  then obtain p where p: "k_pids st pa = Some p" using get_pid_block_Some [OF inv] by blast
  then have ne: "pa \<noteq> a" using a by auto
  have ai: "a_inv (children p)" using pm_invD(7) [OF inv p] by (simp add: block_ok_def)
  have same: "st2\<lparr>k_pids := (k_pids st2)(pa \<mapsto> p\<lparr>children := children p\<rparr>)\<rparr> = st2"
    using p ne st2(2) by (simp add: map_upd_triv)
  have e: "add_child km parent a st2 =
      do { (e, ch) \<leftarrow> array_add km (children p) a; Some (e, st2\<lparr>k_pids := (k_pids st2)(pa \<mapsto> p\<lparr>children := ch\<rparr>)\<rparr>) }"
    using get_pid_block_cong [OF st2(1), of parent] Some p ne st2(2) by (simp add: add_child_def)
  from ka.add_cases [OF ai, of km a] show ?thesis
  proof (elim disjE exE conjE)
    fix ch assume "array_add km (children p) a = Some (EOK, ch)" "a_inv ch" "a_list ch = a_list (children p) @ [a]"
    then show ?thesis using Some p ne e by auto
  next
    assume "array_add km (children p) a = Some (ENOMEM, children p)"
    then show ?thesis using Some p ne e same by simp
  qed
qed

lemma create_pid_block_cases:
  "create_pid_block km pid parent a cv st = (False, st) \<or>
   (\<exists>ch. a_inv ch \<and> a_list ch = [] \<and> create_pid_block km pid parent a cv st =
     (True, st\<lparr>k_cvs := (k_cvs st)(cv := True), k_pids := (k_pids st)(a \<mapsto>
        \<lparr>my_pid = pid, my_parent = parent, children = ch, is_exited = False, exit_status = 0, exit_cv = cv\<rparr>)\<rparr>))"
  using array_create_inv [of "km 1"]
  by (auto simp: create_pid_block_def cv_create_def split: option.splits)

lemma added_intro:
  assumes i: "1 \<le> i" "i \<le> MAX_PIDS" "ptable st ! nat (i - 1) = None" and a: "k_pids st a = None"
    and nb: "my_pid nb = i" "my_parent nb = parent" "\<not> is_exited nb" "exit_cv nb = cv" "a_inv (children nb)" "a_list (children nb) = []"
    and pm: "k_pm st' = (k_pm st)\<lparr>pid_info_blocks := (ptable st)[nat (i - 1) := Some a],
        next_pid := i mod MAX_PIDS + 1, number_of_procs := number_of_procs (k_pm st) + 1\<rparr>"
    and cvs: "k_cvs st' = (k_cvs st)(cv := True)"
    and p: "get_pid_block parent st = None \<and> k_pids st' = (k_pids st)(a \<mapsto> nb) \<or>
      (\<exists>pa p ch. get_pid_block parent st = Some pa \<and> pa \<noteq> a \<and> k_pids st pa = Some p \<and> a_inv ch \<and>
         a_list ch = a_list (children p) @ [a] \<and> k_pids st' = (k_pids st)(a \<mapsto> nb, pa \<mapsto> p\<lparr>children := ch\<rparr>))"
  shows "added st i parent a cv st'"
  using p
proof (elim disjE exE conjE)
  assume "get_pid_block parent st = None" "k_pids st' = (k_pids st)(a \<mapsto> nb)"
  with assms(1-12) show ?thesis by (simp add: added_def)
next
  fix pa q ch
  assume "get_pid_block parent st = Some pa" "pa \<noteq> a" "k_pids st pa = Some q" "a_inv ch"
    "a_list ch = a_list (children q) @ [a]" "k_pids st' = (k_pids st)(a \<mapsto> nb, pa \<mapsto> q\<lparr>children := ch\<rparr>)"
  with assms(1-12) show ?thesis by (auto simp: added_def)
qed

lemma inform_process_add_cases:
  assumes inv: "pm_inv st" and t: "k_threads st t = Some th" and fresh: "k_pids st a = None" "\<not> k_cvs st cv"
    and nl: "k_locks st (pid_lock (k_pm st)) \<noteq> Some (k_curthread st)"
    and r: "inform_process_add km t parent a cv st = Some (e, st')"
  shows "e \<in> {EAGAIN, ENOMEM} \<and> (e = EAGAIN \<longrightarrow> number_of_procs (k_pm st) = MAX_PIDS) \<and>
      st' = st\<lparr>k_threads := (k_threads st)(t \<mapsto> th\<lparr>t_pid := 0\<rparr>)\<rparr> \<or>
    e = EOK \<and> (\<exists>i c p m. first_free st i \<and> added st i parent a cv st' \<and>
      st' = st\<lparr>k_threads := (k_threads st)(t \<mapsto> th\<lparr>t_pid := i\<rparr>), k_cvs := c, k_pids := p, k_pm := m\<rparr>)"
proof (cases "number_of_procs (k_pm st) = MAX_PIDS")
  case True
  with r t show ?thesis by (auto simp: inform_process_add_def upd_thread_def)
next
  case False
  let ?s1 = "st\<lparr>k_threads := (k_threads st)(t \<mapsto> th\<lparr>t_pid := 0\<rparr>)\<rparr>"
  have "pm_inv ?s1" using inv pm_inv_cong [of ?s1 st] by simp
  from pm_inv_free_slot [OF this] False obtain i where
    i: "scan_free ?s1 = Some i" "1 \<le> i" "i \<le> MAX_PIDS" "ptable st ! nat (i - 1) = None" "first_free ?s1 i" by auto
  have ff: "first_free st i" using i(5) is_pid_free_cong [of ?s1 st] by (simp add: first_free_def)
  have step: "do {
      let (ok, st2) = create_pid_block km i parent a cv ?s1;
      if \<not> ok then do { st3 \<leftarrow> lock_release (mem_skip 5 km) (pid_lock (k_pm st2)) st2; Some (ENOMEM, st3) }
      else do {
        (e, st3) \<leftarrow> add_child (km 4) parent a st2;
        if e \<noteq> EOK then do { st4 \<leftarrow> destroy_pid_block a st3; Some (ENOMEM, st4) }
        else do {
          st4 \<leftarrow> upd_thread t (\<lambda>th. th\<lparr>t_pid := i\<rparr>) st3;
          let st5 = set_pid_block i (Some a) st4;
          Some (EOK, st5\<lparr>k_pm := (k_pm st5)\<lparr>next_pid := i mod MAX_PIDS + 1,
             number_of_procs := number_of_procs (k_pm st5) + 1\<rparr>\<rparr>) } } } = Some (e, st')"
    using r t i(1,2) False by (simp add: inform_process_add_def upd_thread_def)
  have lr: "lock_release km' (pid_lock (k_pm st)) ?s1 = None" for km'
    using nl by (auto simp: lock_release_def lock_do_i_hold_def kassert_def split: Option.bind_splits)
  have "create_pid_block km i parent a cv ?s1 \<noteq> (False, ?s1)" using step lr by auto
  with create_pid_block_cases [of km i parent a cv ?s1] obtain ch where ch: "a_inv ch" "a_list ch = []"
    and c0: "create_pid_block km i parent a cv ?s1 = (True, ?s1\<lparr>k_cvs := (k_cvs ?s1)(cv := True), k_pids := (k_pids ?s1)(a \<mapsto>
        \<lparr>my_pid = i, my_parent = parent, children = ch, is_exited = False, exit_status = 0, exit_cv = cv\<rparr>)\<rparr>)"
    by blast
  define nb where "nb = \<lparr>my_pid = i, my_parent = parent, children = ch, is_exited = False, exit_status = 0, exit_cv = cv\<rparr>"
  have nb: "my_pid nb = i" "my_parent nb = parent" "\<not> is_exited nb" "exit_cv nb = cv" "a_inv (children nb)" "a_list (children nb) = []"
    using ch by (simp_all add: nb_def)
  have cr: "create_pid_block km i parent a cv ?s1 =
      (True, ?s1\<lparr>k_cvs := (k_cvs st)(cv := True), k_pids := (k_pids st)(a \<mapsto> nb)\<rparr>)"
    using c0 by (simp add: nb_def)
  let ?s2 = "?s1\<lparr>k_cvs := (k_cvs st)(cv := True), k_pids := (k_pids st)(a \<mapsto> nb)\<rparr>"
  have ac: "get_pid_block parent st = None \<and> add_child (km 4) parent a ?s2 = Some (EOK, ?s2) \<or>
    (\<exists>pa p. get_pid_block parent st = Some pa \<and> pa \<noteq> a \<and> k_pids st pa = Some p \<and>
      (add_child (km 4) parent a ?s2 = Some (ENOMEM, ?s2) \<or>
       (\<exists>ch. add_child (km 4) parent a ?s2 = Some (EOK, ?s2\<lparr>k_pids := (k_pids ?s2)(pa \<mapsto> p\<lparr>children := ch\<rparr>)\<rparr>) \<and>
          a_inv ch \<and> a_list ch = a_list (children p) @ [a])))"
    by (rule add_child_cases [OF inv _ _ fresh(1)]) simp_all
  show ?thesis
  proof (cases "add_child (km 4) parent a ?s2 = Some (ENOMEM, ?s2)")
    case True
    have "destroy_pid_block a ?s2 = Some ?s1"
      using fresh nb by (cases st) (auto simp: destroy_pid_block_def cv_destroy_def fun_eq_iff)
    with step cr True show ?thesis by simp
  next
    case False
    have "\<exists>p. add_child (km 4) parent a ?s2 = Some (EOK, ?s2\<lparr>k_pids := p\<rparr>) \<and>
      (get_pid_block parent st = None \<and> p = (k_pids st)(a \<mapsto> nb) \<or>
       (\<exists>pa q ch. get_pid_block parent st = Some pa \<and> pa \<noteq> a \<and> k_pids st pa = Some q \<and> a_inv ch \<and>
         a_list ch = a_list (children q) @ [a] \<and> p = (k_pids st)(a \<mapsto> nb, pa \<mapsto> q\<lparr>children := ch\<rparr>)))"
      using ac
    proof (elim disjE exE conjE)
      assume "get_pid_block parent st = None" "add_child (km 4) parent a ?s2 = Some (EOK, ?s2)"
      then show ?thesis by (intro exI [of _ "(k_pids st)(a \<mapsto> nb)"]) simp
    next
      fix pa q ch
      assume "get_pid_block parent st = Some pa" "pa \<noteq> a" "k_pids st pa = Some q" "a_inv ch" "a_list ch = a_list (children q) @ [a]"
        "add_child (km 4) parent a ?s2 = Some (EOK, ?s2\<lparr>k_pids := (k_pids ?s2)(pa \<mapsto> q\<lparr>children := ch\<rparr>)\<rparr>)"
      then show ?thesis by (intro exI [of _ "(k_pids st)(a \<mapsto> nb, pa \<mapsto> q\<lparr>children := ch\<rparr>)"]) auto
    qed (use False in simp)
    then obtain p where p: "add_child (km 4) parent a ?s2 = Some (EOK, ?s2\<lparr>k_pids := p\<rparr>)"
      "get_pid_block parent st = None \<and> p = (k_pids st)(a \<mapsto> nb) \<or>
       (\<exists>pa q ch. get_pid_block parent st = Some pa \<and> pa \<noteq> a \<and> k_pids st pa = Some q \<and> a_inv ch \<and>
         a_list ch = a_list (children q) @ [a] \<and> p = (k_pids st)(a \<mapsto> nb, pa \<mapsto> q\<lparr>children := ch\<rparr>))"
      by (elim exE conjE)
    have e: "e = EOK" "st' = st\<lparr>k_threads := (k_threads st)(t \<mapsto> th\<lparr>t_pid := i\<rparr>), k_cvs := (k_cvs st)(cv := True), k_pids := p,
        k_pm := (k_pm st)\<lparr>pid_info_blocks := (ptable st)[nat (i - 1) := Some a],
          next_pid := i mod MAX_PIDS + 1, number_of_procs := number_of_procs (k_pm st) + 1\<rparr>\<rparr>"
      using step cr p(1) i by (auto simp: upd_thread_def set_pid_block_def validate_pid_def Let_def)
    have ad: "added st i parent a cv st'"
      by (rule added_intro [OF i(2-4) fresh(1) nb]) (use p(2) in \<open>simp_all add: e(2)\<close>)
    have "\<exists>i c p m. first_free st i \<and> added st i parent a cv st' \<and>
      st' = st\<lparr>k_threads := (k_threads st)(t \<mapsto> th\<lparr>t_pid := i\<rparr>), k_cvs := c, k_pids := p, k_pm := m\<rparr>"
      by (intro exI conjI) (rule ff, rule ad, rule e(2))
    with e(1) show ?thesis by blast
  qed
qed

end
