(* ===== verification/Process.thy ===== *)
theory Process
  imports Pid_Manager
begin

text \<open>
  The parts of \<^verbatim>\<open>thread.c\<close> that use the process table (\<^verbatim>\<open>thread_create\<close>, \<^verbatim>\<open>thread_fork\<close>,
  \<^verbatim>\<open>thread_exit\<close>, \<^verbatim>\<open>thread_bootstrap\<close>), \<^verbatim>\<open>hardclock.c\<close>, interrupt entry and return
  (\<^verbatim>\<open>mips_trap\<close>, \<^verbatim>\<open>mips_interrupt\<close>), and the kernel as a transition system.

  \<open>run_frame\<close> says how each suspended C function goes on when the call it made returns. \<open>kstep\<close> is
  the transition relation. A step is one of: the current thread resumes its innermost suspended
  function; the current thread, when it is running code of its own, calls a kernel operation; a
  timer or device interrupt is taken, if interrupts are on or the CPU is idle; the scheduler looks
  at the run queue again. What threads do with the operations is left open.
\<close>

section \<open>Creating threads\<close>

definition STACK_MAGIC :: "u8 list" where
  "STACK_MAGIC = [0xae, 0x11, 0xda, 0x33]"

definition thread_create :: "bool \<Rightarrow> bool \<Rightarrow> string \<Rightarrow> thread option" where
  "thread_create km1 km2 name =
     (if \<not> km1 then None
      else if \<not> km2 then None
      else Some \<lparr>t_name = name, t_sleepaddr = None, t_stack = None, t_pid = 0, t_vmspace = None,
        t_cwd = None, t_ininterrupt = 0, t_fresh = False, t_frames = [], t_result = (EOK, 0)\<rparr>)"

definition vop_incref :: "nat option \<Rightarrow> kernel \<Rightarrow> kernel" where
  "vop_incref v st = (case v of None \<Rightarrow> st | Some v \<Rightarrow> st\<lparr>k_calls := VnIncref v # k_calls st\<rparr>)"

definition vop_decref :: "nat option \<Rightarrow> kernel \<Rightarrow> kernel" where
  "vop_decref v st = (case v of None \<Rightarrow> st | Some v \<Rightarrow> st\<lparr>k_calls := VnDecref v # k_calls st\<rparr>)"

definition fork_fail :: "int \<Rightarrow> tid \<Rightarrow> kernel \<Rightarrow> kernel kern" where
  "fork_fail s newguy st =
     do {
       let st1 = snd (splx s st);
       th \<leftarrow> k_threads st1 newguy;
       let st2 = vop_decref (t_cwd th) st1;
       Some (st2\<lparr>k_threads := (k_threads st2)(newguy := None)\<rparr>)
     }"

text \<open>The reservations of \<^verbatim>\<open>thread_fork\<close>, up to the first that fails.\<close>

definition fork_reserve :: "mem \<Rightarrow> tid \<Rightarrow> kernel \<Rightarrow> (errno \<times> kernel) kern" where
  "fork_reserve km newguy st =
     do {
       (result, sl) \<leftarrow> array_preallocate (km 0) (k_sleepers st) (k_numthreads st + 1);
       let st1 = st\<lparr>k_sleepers := sl\<rparr>;
       if result \<noteq> EOK then Some (result, st1)
       else do {
         (result, zs) \<leftarrow> array_preallocate (km 1) (k_zombies st1) (k_numthreads st1 + 1);
         let st2 = st1\<lparr>k_zombies := zs\<rparr>;
         if result \<noteq> EOK then Some (result, st2)
         else do {
           (result, st3) \<leftarrow> scheduler_preallocate (km 2) (k_numthreads st2 + 1) st2;
           if result \<noteq> EOK then Some (result, st3)
           else make_runnable (km 3) newguy st3
         }
       }
     }"

definition thread_fork ::
    "mem \<Rightarrow> string \<Rightarrow> tid \<Rightarrow> nat \<Rightarrow> nat \<Rightarrow> kernel \<Rightarrow> (errno \<times> kernel) kern" where
  "thread_fork km name newguy block cv st =
     (case thread_create (km 0) (km 1) name of
        None \<Rightarrow> Some (ENOMEM, st)
      | Some th \<Rightarrow>
          if \<not> kmalloc_ok (km 2) 4096 then Some (ENOMEM, st)
          else do {
            cur \<leftarrow> k_curthread st;
            cth \<leftarrow> k_threads st cur;
            let th1 = th\<lparr>t_stack := Some STACK_MAGIC, t_cwd := t_cwd cth, t_fresh := True\<rparr>;
            let st1 = vop_incref (t_cwd cth) (st\<lparr>k_threads := (k_threads st)(newguy \<mapsto> th1)\<rparr>);
            let (s, st2) = splhigh st1;
            (result, st3) \<leftarrow> inform_process_add (mem_skip 10 km) newguy (t_pid cth) block cv st2;
            if result \<noteq> EOK then do { st4 \<leftarrow> fork_fail s newguy st3; Some (result, st4) }
            else do {
              (result, st4) \<leftarrow> fork_reserve (mem_skip 3 km) newguy st3;
              if result \<noteq> EOK then do { st5 \<leftarrow> fork_fail s newguy st4; Some (result, st5) }
              else Some (EOK, snd (splx s (st4\<lparr>k_numthreads := k_numthreads st4 + 1\<rparr>)))
            }
          })"

definition thread_bootstrap :: "mem \<Rightarrow> tid \<Rightarrow> nat \<Rightarrow> nat \<Rightarrow> kernel \<Rightarrow> kernel kern" where
  "thread_bootstrap km me block cv st =
     (case array_create (km 0) of
        None \<Rightarrow> None
      | Some sl \<Rightarrow>
         (case array_create (km 1) of
            None \<Rightarrow> None
          | Some zs \<Rightarrow>
             (case thread_create (km 2) (km 3) ''<boot/menu>'' of
                None \<Rightarrow> None
              | Some th \<Rightarrow>
                  do {
                    let st1 = st\<lparr>k_sleepers := sl, k_zombies := zs,
                          k_threads := (k_threads st)(me \<mapsto> th), k_curthread := Some me, k_numthreads := 1\<rparr>;
                    (result, st2) \<leftarrow> inform_process_add (mem_skip 10 km) me 0 block cv st1;
                    th2 \<leftarrow> k_threads st2 me;
                    kassert (t_pid th2 \<noteq> 0);
                    Some st2
                  })))"

section \<open>Exit\<close>

definition thread_exit :: "mem \<Rightarrow> kernel \<Rightarrow> kernel kern" where
  "thread_exit km st =
     do {
       cur \<leftarrow> k_curthread st;
       th \<leftarrow> k_threads st cur;
       kassert (stack_ok th);
       st1 \<leftarrow> push_frame F_thread_exit (snd (splhigh st));
       inform_process_exit km (t_pid th) 0 st1
     }"

text \<open>The rest of \<^verbatim>\<open>thread_exit\<close>. It does not return.\<close>

definition thread_exit_rest :: "mem \<Rightarrow> kernel \<Rightarrow> kernel kern" where
  "thread_exit_rest km st =
     do {
       cur \<leftarrow> k_curthread st;
       th \<leftarrow> k_threads st cur;
       let st1 = (case t_vmspace th of None \<Rightarrow> st | Some as \<Rightarrow> st\<lparr>k_calls := AsDestroy as # k_calls st\<rparr>);
       let st2 = vop_decref (t_cwd th) st1;
       st3 \<leftarrow> upd_cur (\<lambda>th. th\<lparr>t_vmspace := None, t_cwd := None\<rparr>) st2;
       kassert (k_numthreads st3 > 0);
       mi_switch km S_ZOMB (st3\<lparr>k_numthreads := k_numthreads st3 - 1\<rparr>)
     }"

section \<open>Interrupts\<close>

definition HZ :: int where
  "HZ = 100"

definition hardclock :: "mem \<Rightarrow> kernel \<Rightarrow> kernel kern" where
  "hardclock km st =
     do {
       let st1 = st\<lparr>k_lbolt := k_lbolt st + 1\<rparr>;
       st2 \<leftarrow> (if k_lbolt st1 \<ge> HZ then thread_wakeup (mem_skip 1 km) WLbolt (st1\<lparr>k_lbolt := 0\<rparr>) else Some st1);
       thread_yield km st2
     }"

text \<open>Entry to and return from \<^verbatim>\<open>mips_trap\<close> and \<^verbatim>\<open>mips_interrupt\<close>. The old interrupt enable flag
  comes back with the return from the exception; in the idle loop it is off again afterwards.\<close>

definition intr_enter :: "kernel \<Rightarrow> kernel" where
  "intr_enter st = st\<lparr>k_curspl := SPL_HIGH, k_iec := False, k_inintr := 1\<rparr>"

definition intr_return :: "int \<Rightarrow> int \<Rightarrow> kernel \<Rightarrow> kernel" where
  "intr_return old_in savespl st =
     (snd (splhigh (st\<lparr>k_inintr := old_in\<rparr>)))\<lparr>k_curspl := savespl, k_iec := (k_curthread st \<noteq> None)\<rparr>"

definition timer_interrupt :: "mem \<Rightarrow> kernel \<Rightarrow> kernel kern" where
  "timer_interrupt km st =
     (case k_curthread st of
        None \<Rightarrow> do { st1 \<leftarrow> hardclock km (intr_enter st); Some (intr_return (k_inintr st) (k_curspl st) st1) }
      | Some _ \<Rightarrow> do { st1 \<leftarrow> push_frame (F_intr (k_inintr st) (k_curspl st)) (intr_enter st); hardclock km st1 })"

definition device_interrupt :: "mem \<Rightarrow> nat \<Rightarrow> kernel \<Rightarrow> kernel kern" where
  "device_interrupt km sem st =
     do { st1 \<leftarrow> V km sem (intr_enter st); Some (intr_return (k_inintr st) (k_curspl st) st1) }"

section \<open>The kernel as a transition system\<close>

definition run_frame :: "mem \<Rightarrow> kframe \<Rightarrow> kernel \<Rightarrow> kernel kern" where
  "run_frame km f st =
     (case f of
        F_sleep \<Rightarrow> upd_cur (\<lambda>th. th\<lparr>t_sleepaddr := None\<rparr>) st
      | F_yield spl \<Rightarrow> Some (snd (splx spl st))
      | F_intr old_in savespl \<Rightarrow> Some (intr_return old_in savespl st)
      | F_P sem spl \<Rightarrow> P_loop km sem spl st
      | F_lock_acquire lock spl \<Rightarrow> lock_acquire_loop km lock spl st
      | F_cv_relock lock spl \<Rightarrow> cv_relock km lock spl st
      | F_splx spl \<Rightarrow> Some (snd (splx spl st))
      | F_clocksleep n s \<Rightarrow> clocksleep_loop km n s st
      | F_exit_locked pid status block \<Rightarrow> exit_locked km pid status block st
      | F_thread_exit \<Rightarrow> thread_exit_rest km st
      | F_wait_acquire pid \<Rightarrow> wait_acquire km pid st
      | F_wait_locked pid \<Rightarrow> wait_locked km pid st
      | F_wait_status pid \<Rightarrow> wait_status km pid st)"

definition resume :: "mem \<Rightarrow> kernel \<Rightarrow> kernel kern" where
  "resume km st =
     do {
       cur \<leftarrow> k_curthread st;
       th \<leftarrow> k_threads st cur;
       (case t_frames th of
          [] \<Rightarrow> None
        | f # fs \<Rightarrow>
            run_frame km f (st\<lparr>k_threads := (k_threads st)(cur \<mapsto> th\<lparr>t_frames := fs\<rparr>)\<rparr>))
     }"

datatype kop =
    Op_yield | Op_P nat | Op_V nat | Op_acquire nat | Op_release nat
  | Op_cv_wait nat nat | Op_cv_signal nat nat | Op_cv_broadcast nat nat | Op_clocksleep int
  | Op_fork string tid nat nat | Op_exit | Op_wait_pid int
  | Op_sem_create nat int | Op_sem_destroy nat | Op_lock_create nat | Op_lock_destroy nat
  | Op_cv_create nat | Op_cv_destroy nat

definition call :: "mem \<Rightarrow> kop \<Rightarrow> kernel \<Rightarrow> kernel kern" where
  "call km op st =
     (case op of
        Op_yield \<Rightarrow> thread_yield km st
      | Op_P sem \<Rightarrow> P km sem st
      | Op_V sem \<Rightarrow> V km sem st
      | Op_acquire lock \<Rightarrow> lock_acquire km lock st
      | Op_release lock \<Rightarrow> lock_release km lock st
      | Op_cv_wait cv lock \<Rightarrow> cv_wait km cv lock st
      | Op_cv_signal cv lock \<Rightarrow> cv_signal (km 0) cv lock st
      | Op_cv_broadcast cv lock \<Rightarrow> cv_broadcast km cv lock st
      | Op_clocksleep n \<Rightarrow> clocksleep km n st
      | Op_fork name newguy block cv \<Rightarrow> map_option snd (thread_fork km name newguy block cv st)
      | Op_exit \<Rightarrow> thread_exit km st
      | Op_wait_pid pid \<Rightarrow>
          do { cur \<leftarrow> k_curthread st; th \<leftarrow> k_threads st cur; wait_pid pid (t_pid th) st }
      | Op_sem_create sem n \<Rightarrow> Some (snd (sem_create (km 0) (km 1) sem n st))
      | Op_sem_destroy sem \<Rightarrow> sem_destroy sem st
      | Op_lock_create lock \<Rightarrow> Some (snd (lock_create (km 0) (km 1) lock st))
      | Op_lock_destroy lock \<Rightarrow> lock_destroy lock st
      | Op_cv_create cv \<Rightarrow> Some (snd (cv_create (km 0) (km 1) cv st))
      | Op_cv_destroy cv \<Rightarrow> cv_destroy cv st)"

definition cur_frames :: "kernel \<Rightarrow> kframe list" where
  "cur_frames st =
     (case k_curthread st of None \<Rightarrow> [] | Some t \<Rightarrow> (case k_threads st t of None \<Rightarrow> [] | Some th \<Rightarrow> t_frames th))"

text \<open>What an operation called by a thread may be applied to: memory the allocator hands out is not in
  use, the lock of the process table and the exit condition variables of the processes are private to
  the process table, and, as \<^verbatim>\<open>synch.h\<close> asks, nobody holds a lock that is destroyed.\<close>

definition exit_cv_of :: "nat \<Rightarrow> kernel \<Rightarrow> bool" where
  "exit_cv_of cv st \<longleftrightarrow>
     list_ex (\<lambda>p. (case p of None \<Rightarrow> False
                  | Some a \<Rightarrow> (case k_pids st a of None \<Rightarrow> False | Some b \<Rightarrow> exit_cv b = cv))) (pid_info_blocks (k_pm st))"

definition call_ok :: "kop \<Rightarrow> kernel \<Rightarrow> bool" where
  "call_ok op st \<longleftrightarrow> k_locks st (pid_lock (k_pm st)) \<noteq> Some (k_curthread st) \<and>
     (case op of
        Op_fork _ newguy block cv \<Rightarrow> k_threads st newguy = None \<and> k_pids st block = None \<and> \<not> k_cvs st cv
      | Op_acquire lock \<Rightarrow> lock \<noteq> pid_lock (k_pm st)
      | Op_sem_create sem n \<Rightarrow> k_sems st sem = None \<and> - (2 ^ 31) \<le> n \<and> n < 2 ^ 31
      | Op_lock_create lock \<Rightarrow> k_locks st lock = None
      | Op_lock_destroy lock \<Rightarrow> lock \<noteq> pid_lock (k_pm st) \<and> k_locks st lock = Some None
      | Op_cv_create cv \<Rightarrow> \<not> k_cvs st cv
      | Op_cv_destroy cv \<Rightarrow> \<not> exit_cv_of cv st
      | _ \<Rightarrow> True)"

inductive kstep :: "kernel \<Rightarrow> kernel \<Rightarrow> bool" where
  step_resume: "resume km st = Some st' \<Longrightarrow> kstep st st'"
| step_call: "k_curthread st \<noteq> None \<Longrightarrow> cur_frames st = [] \<Longrightarrow> call_ok op st \<Longrightarrow> call km op st = Some st' \<Longrightarrow> kstep st st'"
| step_timer: "k_iec st \<or> k_idle st \<noteq> None \<Longrightarrow> timer_interrupt km st = Some st' \<Longrightarrow> kstep st st'"
| step_device: "k_iec st \<or> k_idle st \<noteq> None \<Longrightarrow> device_interrupt km sem st = Some st' \<Longrightarrow> kstep st st'"
| step_idle: "idle_round st = Some st' \<Longrightarrow> kstep st st'"

inductive_cases kstepE: "kstep st st'"

abbreviation ksteps :: "kernel \<Rightarrow> kernel \<Rightarrow> bool" where
  "ksteps \<equiv> kstep\<^sup>*\<^sup>*"

section \<open>Pids of threads\<close>

definition pid_ok :: "kernel \<Rightarrow> int \<Rightarrow> bool" where
  "pid_ok st p \<longleftrightarrow> (\<exists>a b. get_pid_block p st = Some a \<and> k_pids st a = Some b \<and> \<not> is_exited b)"

text \<open>A thread that has not been through \<^verbatim>\<open>inform_process_exit\<close> has a block of its own in the table,
  and a pending \<^verbatim>\<open>inform_process_exit\<close> is for that block.\<close>

definition thread_pid_ok :: "kernel \<Rightarrow> thread \<Rightarrow> bool" where
  "thread_pid_ok st th \<longleftrightarrow> (\<not> exiting th \<longrightarrow> pid_ok st (t_pid th)) \<and>
     fr_ok (\<lambda>p a. p = t_pid th \<and> get_pid_block p st = Some a) (t_frames th)"

definition pids_inv :: "kernel \<Rightarrow> bool" where
  "pids_inv st \<longleftrightarrow>
     (\<forall>t th. t \<in> set (live_tids st) \<longrightarrow> k_threads st t = Some th \<longrightarrow> thread_pid_ok st th) \<and>
     (\<forall>t t' th th'. t \<in> set (live_tids st) \<longrightarrow> t' \<in> set (live_tids st) \<longrightarrow>
        k_threads st t = Some th \<longrightarrow> k_threads st t' = Some th' \<longrightarrow>
        \<not> exiting th \<longrightarrow> \<not> exiting th' \<longrightarrow> t_pid th = t_pid th' \<longrightarrow> t = t')"

definition sys_inv :: "kernel \<Rightarrow> bool" where
  "sys_inv st \<longleftrightarrow> k_inv st \<and> pm_inv st \<and> pids_inv st"

lemma fr_ok_mono: "fr_ok Q fs \<Longrightarrow> (\<And>p a. Q p a \<Longrightarrow> R p a) \<Longrightarrow> fr_ok R fs"
  by (induction fs) (auto split: kframe.splits)

lemma fr_ok_none: "\<not> list_ex is_exit_locked fs \<Longrightarrow> fr_ok Q fs"
  by (induction fs) (auto simp: is_exit_locked_def split: kframe.splits)

lemma pids_invD:
  assumes "pids_inv st"
  shows "t \<in> set (live_tids st) \<Longrightarrow> k_threads st t = Some th \<Longrightarrow> thread_pid_ok st th"
    and "t \<in> set (live_tids st) \<Longrightarrow> t' \<in> set (live_tids st) \<Longrightarrow> k_threads st t = Some th \<Longrightarrow> k_threads st t' = Some th' \<Longrightarrow>
      \<not> exiting th \<Longrightarrow> \<not> exiting th' \<Longrightarrow> t_pid th = t_pid th' \<Longrightarrow> t = t'"
  using assms unfolding pids_inv_def by blast+

lemma pids_invI:
  assumes "\<And>t th. t \<in> set (live_tids st) \<Longrightarrow> k_threads st t = Some th \<Longrightarrow> thread_pid_ok st th"
    and "\<And>t t' th th'. t \<in> set (live_tids st) \<Longrightarrow> t' \<in> set (live_tids st) \<Longrightarrow> k_threads st t = Some th \<Longrightarrow>
      k_threads st t' = Some th' \<Longrightarrow> \<not> exiting th \<Longrightarrow> \<not> exiting th' \<Longrightarrow> t_pid th = t_pid th' \<Longrightarrow> t = t'"
  shows "pids_inv st"
  unfolding pids_inv_def using assms by blast

text \<open>The table may change as long as the entries of the threads that need them stay.\<close>

lemma pids_inv_transfer:
  assumes inv: "pids_inv st" and rel: "thr_rel st st'"
    and keep: "\<And>t th a b. t \<in> set (live_tids st') \<Longrightarrow> k_threads st t = Some th \<Longrightarrow> \<not> exiting th \<Longrightarrow>
      get_pid_block (t_pid th) st = Some a \<Longrightarrow> k_pids st a = Some b \<Longrightarrow> \<not> is_exited b \<Longrightarrow>
      get_pid_block (t_pid th) st' = Some a \<and> (\<exists>b'. k_pids st' a = Some b' \<and> \<not> is_exited b')"
  shows "pids_inv st'"
proof (rule pids_invI)
  fix t th' assume t: "t \<in> set (live_tids st')" and th': "k_threads st' t = Some th'"
  then obtain th where th: "k_threads st t = Some th" "fr_le th th'" and l: "t \<in> set (live_tids st)"
    using rel unfolding thr_rel_def by blast
  have ok: "thread_pid_ok st th" by (rule pids_invD(1) [OF inv l th(1)])
  have e: "exiting th' = exiting th" "t_pid th' = t_pid th" using th(2) by (simp_all add: fr_le_def)
  have f: "fr_ok (\<lambda>p a. p = t_pid th \<and> get_pid_block p st = Some a) (t_frames th')"
    using ok th(2) by (simp add: thread_pid_ok_def fr_le_def)
  show "thread_pid_ok st' th'"
  proof (cases "exiting th")
    case True
    then have "\<not> list_ex is_exit_locked (t_frames th')" using e by (simp add: exiting_def)
    then show ?thesis using True e fr_ok_none by (simp add: thread_pid_ok_def)
  next
    case False
    then obtain a b where ab: "get_pid_block (t_pid th) st = Some a" "k_pids st a = Some b" "\<not> is_exited b"
      using ok by (auto simp: thread_pid_ok_def pid_ok_def)
    note k = keep [OF t th(1) False ab]
    have "fr_ok (\<lambda>p a. p = t_pid th' \<and> get_pid_block p st' = Some a) (t_frames th')"
      by (rule fr_ok_mono [OF f]) (use k e ab in auto)
    with k e show ?thesis by (auto simp: thread_pid_ok_def pid_ok_def)
  qed
next
  fix t t' th' th2'
  assume t: "t \<in> set (live_tids st')" "t' \<in> set (live_tids st')" and th': "k_threads st' t = Some th'" "k_threads st' t' = Some th2'"
    and n: "\<not> exiting th'" "\<not> exiting th2'" "t_pid th' = t_pid th2'"
  from rel t(1) th'(1) obtain th where th: "k_threads st t = Some th" "fr_le th th'" unfolding thr_rel_def by blast
  from rel t(2) th'(2) obtain th2 where th2: "k_threads st t' = Some th2" "fr_le th2 th2'" unfolding thr_rel_def by blast
  have "t \<in> set (live_tids st)" "t' \<in> set (live_tids st)" using rel t unfolding thr_rel_def by blast+
  then show "t = t'"
    by (rule pids_invD(2) [OF inv _ _ th(1) th2(1)]) (use n th(2) th2(2) in \<open>simp_all add: fr_le_def\<close>)
qed

lemma sys_inv_quiet:
  assumes "sys_inv st" and "k_inv st'" and "pm_same st st'" and "k_cvs st' = k_cvs st" and "thr_rel st st'"
  shows "sys_inv st'"
proof -
  have pm: "k_pids st' = k_pids st" "k_pm st' = k_pm st" using assms(3) by (simp_all add: pm_same_def)
  then have "pm_inv st'" using assms(1,4) pm_inv_cong [of st' st] by (simp add: sys_inv_def)
  moreover have "pids_inv st'"
    by (rule pids_inv_transfer [OF _ assms(5)])
      (use assms(1) pm get_pid_block_cong [OF pm(2)] in \<open>auto simp: sys_inv_def\<close>)
  ultimately show ?thesis using assms(2) by (simp add: sys_inv_def)
qed

lemma sys_inv_rest: "sys_inv st \<Longrightarrow> k_inv st' \<Longrightarrow> k_rest st' = k_rest st \<Longrightarrow> thr_rel st st' \<Longrightarrow> sys_inv st'"
  by (rule sys_inv_quiet) (simp_all add: k_rest_def pm_same_def)

section \<open>Every step keeps the system invariant\<close>

lemma k_inv_same:
  assumes "k_inv st" and "k_threads st' = k_threads st" "k_runqueue st' = k_runqueue st" "k_sleepers st' = k_sleepers st"
    "k_zombies st' = k_zombies st" "k_numthreads st' = k_numthreads st" "k_curthread st' = k_curthread st"
    "k_idle st' = k_idle st" "k_sems st' = k_sems st" "k_locks st' = k_locks st"
  shows "k_inv st'"
proof -
  have "sleeper_ok st' = sleeper_ok st" "zombie_ok st' = zombie_ok st"
    using assms by (intro sleeper_ok_cong zombie_ok_cong; simp)+
  with assms show ?thesis
    by (simp add: k_inv_def inv_lists_def k_struct_def live_tids_def cur_list_def)
qed

definition ctl_same :: "kernel \<Rightarrow> kernel \<Rightarrow> bool" where
  "ctl_same st st' \<longleftrightarrow> (\<exists>spl iec ini lb cs. st' = st\<lparr>k_curspl := spl, k_iec := iec, k_inintr := ini, k_lbolt := lb, k_calls := cs\<rparr>)"

lemma ctl_sameI:
  "ctl_same st (st\<lparr>k_curspl := spl, k_iec := iec, k_inintr := ini, k_lbolt := lb, k_calls := cs\<rparr>)"
  unfolding ctl_same_def by (intro exI) (rule refl)

lemma sys_inv_ctl: "sys_inv st \<Longrightarrow> ctl_same st st' \<Longrightarrow> sys_inv st'"
proof -
  assume i: "sys_inv st" and c: "ctl_same st st'"
  show ?thesis
  proof (rule sys_inv_rest [OF i])
    show "k_inv st'"
      by (rule k_inv_same [of st]) (use i c in \<open>auto simp: sys_inv_def ctl_same_def\<close>)
    show "k_rest st' = k_rest st" using c by (auto simp: ctl_same_def k_rest_def)
    show "thr_rel st st'" by (rule thr_rel_same) (use c in \<open>auto simp: ctl_same_def live_tids_def cur_list_def\<close>)
  qed
qed

lemma splx_ctl: "ctl_same st (snd (splx s st))"
  unfolding ctl_same_def
  by (cases st) (auto simp: splx_def interrupts_on_def interrupts_off_def Let_def)

lemma intr_enter_ctl: "ctl_same st (intr_enter st)"
  unfolding ctl_same_def by (cases st) (auto simp: intr_enter_def)

lemma intr_return_ctl: "ctl_same st (intr_return a b st)"
  unfolding ctl_same_def
  by (cases st) (auto simp: intr_return_def splx_def interrupts_on_def interrupts_off_def Let_def SPL_HIGH_def)

lemma sys_inv_splx: "sys_inv st \<Longrightarrow> sys_inv (snd (splx s st))"
  using sys_inv_ctl splx_ctl by blast

lemma push_plain_inv: "sys_inv st \<Longrightarrow> push_frame f st = Some st' \<Longrightarrow> plain_frame f \<Longrightarrow> sys_inv st'"
  using push_frame_inv push_frame_rest push_frame_rel sys_inv_rest by (metis sys_inv_def)

lemma upd_cur_plain_inv:
  assumes i: "sys_inv st" and u: "upd_cur f st = Some st'"
    and f: "\<And>th. t_stack (f th) = t_stack th \<and> t_frames (f th) = t_frames th \<and> t_pid (f th) = t_pid th"
  shows "sys_inv st'"
proof (rule sys_inv_rest [OF i])
  show "k_inv st'" by (rule upd_cur_inv [OF _ u]) (use i f in \<open>simp_all add: sys_inv_def\<close>)
  show "k_rest st' = k_rest st" using u by (auto simp: upd_cur_Some k_rest_def)
  show "thr_rel st st'" using u f by (auto simp: upd_cur_Some intro!: thr_rel_upd fr_le_frames)
qed

lemma set_result_inv: "sys_inv st \<Longrightarrow> set_result r st = Some st' \<Longrightarrow> sys_inv st'"
  using upd_cur_plain_inv [of st "\<lambda>th. th\<lparr>t_result := r\<rparr>" st'] by (simp add: set_result_def)

lemma acquires_inv: "sys_inv st \<Longrightarrow> k_inv st' \<Longrightarrow> acquires l st st' \<Longrightarrow> sys_inv st'"
  unfolding acquires_def using sys_inv_quiet by blast

lemma releases_inv: "sys_inv st \<Longrightarrow> k_inv st' \<Longrightarrow> releases l st st' \<Longrightarrow> sys_inv st'"
  unfolding releases_def using sys_inv_quiet by blast

lemma sys_P_loop: "sys_inv st \<Longrightarrow> P_loop km s spl st = Some st' \<Longrightarrow> sys_inv st'"
  using P_loop_inv sys_inv_quiet by (metis sys_inv_def)

lemma sys_V: "sys_inv st \<Longrightarrow> V km s st = Some st' \<Longrightarrow> sys_inv st'"
  using V_inv sys_inv_quiet by (metis sys_inv_def)

lemma sys_lock_acquire_loop: "sys_inv st \<Longrightarrow> lock_acquire_loop km l spl st = Some st' \<Longrightarrow> sys_inv st'"
  using lock_acquire_loop_inv acquires_inv by (metis sys_inv_def)

lemma sys_lock_acquire: "sys_inv st \<Longrightarrow> lock_acquire km l st = Some st' \<Longrightarrow> sys_inv st'"
  using lock_acquire_inv acquires_inv by (metis sys_inv_def)

lemma sys_lock_release: "sys_inv st \<Longrightarrow> lock_release km l st = Some st' \<Longrightarrow> sys_inv st'"
  using lock_release_inv releases_inv by (metis sys_inv_def)

lemma sys_cv_wait: "sys_inv st \<Longrightarrow> cv_wait km c l st = Some st' \<Longrightarrow> sys_inv st'"
  using cv_wait_inv releases_inv by (metis sys_inv_def)

lemma sys_cv_relock: "sys_inv st \<Longrightarrow> cv_relock km l spl st = Some st' \<Longrightarrow> sys_inv st'"
  using cv_relock_inv acquires_inv by (metis sys_inv_def)

lemma sys_cv_signal: "sys_inv st \<Longrightarrow> cv_signal km c l st = Some st' \<Longrightarrow> sys_inv st'"
  using cv_signal_inv sys_inv_rest by (metis sys_inv_def)

lemma sys_cv_broadcast: "sys_inv st \<Longrightarrow> cv_broadcast km c l st = Some st' \<Longrightarrow> sys_inv st'"
  using cv_broadcast_inv sys_inv_rest by (metis sys_inv_def)

lemma sys_clocksleep_loop: "sys_inv st \<Longrightarrow> clocksleep_loop km n s st = Some st' \<Longrightarrow> sys_inv st'"
  using clocksleep_loop_inv sys_inv_rest by (metis sys_inv_def)

lemma sys_thread_yield: "sys_inv st \<Longrightarrow> thread_yield km st = Some st' \<Longrightarrow> sys_inv st'"
  using thread_yield_inv sys_inv_rest by (metis sys_inv_def)

lemma sys_P: "sys_inv st \<Longrightarrow> P km s st = Some st' \<Longrightarrow> sys_inv st'"
  using P_inv sys_inv_quiet by (metis sys_inv_def)

lemma sys_clocksleep: "sys_inv st \<Longrightarrow> clocksleep km n st = Some st' \<Longrightarrow> sys_inv st'"
  using sys_clocksleep_loop [OF sys_inv_splx] by (auto simp: clocksleep_def split_def Let_def)

lemma sys_wakeup:
  assumes i: "sys_inv st" and w: "thread_wakeup km a st = Some st'"
  shows "sys_inv st'"
proof -
  have l: "inv_lists st" using i by (simp add: sys_inv_def k_inv_def)
  have wk: "woken st a 0 st'" by (rule thread_wakeup_woken [OF l w])
  have "k_inv st'"
    by (rule woken_inv [OF l wk]) (use i in \<open>simp_all add: sys_inv_def k_inv_def list_all_iff\<close>)
  then show ?thesis using i wk woken_fields [OF wk] woken_rel [OF wk] sys_inv_rest by blast
qed

lemma sys_hardclock:
  assumes i: "sys_inv st" and r: "hardclock km st = Some st'"
  shows "sys_inv st'"
proof -
  have c: "sys_inv (st\<lparr>k_lbolt := x\<rparr>)" for x
    by (rule sys_inv_ctl [OF i]) (cases st, auto simp: ctl_same_def)
  from r obtain st2 where y: "thread_yield km st2 = Some st'"
    and "thread_wakeup (mem_skip 1 km) WLbolt (st\<lparr>k_lbolt := 0\<rparr>) = Some st2 \<or> st2 = st\<lparr>k_lbolt := k_lbolt st + 1\<rparr>"
    by (auto simp: hardclock_def kern_simps Let_def split: if_splits)
  then have "sys_inv st2" using c sys_wakeup by blast
  with y show ?thesis by (rule sys_thread_yield [rotated])
qed

lemma cur_live: "k_curthread st = Some c \<Longrightarrow> c \<in> set (live_tids st)"
  by (simp add: live_tids_def cur_list_def)

text \<open>Popping the innermost frame of the current thread.\<close>

lemma pop_inv:
  assumes i: "k_inv st" and c: "k_curthread st = Some c" and th: "k_threads st c = Some th"
  shows "k_inv (st\<lparr>k_threads := (k_threads st)(c \<mapsto> th\<lparr>t_frames := fs\<rparr>)\<rparr>)"
proof -
  have "upd_cur (\<lambda>th. th\<lparr>t_frames := fs\<rparr>) st = Some (st\<lparr>k_threads := (k_threads st)(c \<mapsto> th\<lparr>t_frames := fs\<rparr>)\<rparr>)"
    using c th by (auto simp: upd_cur_Some)
  from upd_cur_inv [OF i this] show ?thesis by simp
qed

lemma pop_plain_inv:
  assumes i: "sys_inv st" and c: "k_curthread st = Some c" and th: "k_threads st c = Some th" "t_frames th = f # fs"
    and p: "plain_frame f"
  shows "sys_inv (st\<lparr>k_threads := (k_threads st)(c \<mapsto> th\<lparr>t_frames := fs\<rparr>)\<rparr>)"
proof (rule sys_inv_rest [OF i])
  show "k_inv (st\<lparr>k_threads := (k_threads st)(c \<mapsto> th\<lparr>t_frames := fs\<rparr>)\<rparr>)"
    by (rule pop_inv [OF _ c th(1)]) (use i in \<open>simp add: sys_inv_def\<close>)
  show "thr_rel st (st\<lparr>k_threads := (k_threads st)(c \<mapsto> th\<lparr>t_frames := fs\<rparr>)\<rparr>)"
    by (rule thr_rel_upd [OF th(1)], rule plain_frame_pop [OF p]) (simp_all add: th)
qed (simp add: k_rest_def)

lemma resume_exit_locked:
  assumes i: "sys_inv st" and c: "k_curthread st = Some c" and th: "k_threads st c = Some th"
    and fr: "t_frames th = F_exit_locked p s a # fs"
    and r: "exit_locked km p s a (st\<lparr>k_threads := (k_threads st)(c \<mapsto> th\<lparr>t_frames := fs\<rparr>)\<rparr>) = Some st'"
  shows "sys_inv st' \<and> k_locks st (pid_lock (k_pm st)) = Some (k_curthread st) \<and>
    k_locks st' = (k_locks st)(pid_lock (k_pm st) \<mapsto> None)"
proof -
  let ?th = "th\<lparr>t_frames := fs\<rparr>"
  let ?s = "st\<lparr>k_threads := (k_threads st)(c \<mapsto> ?th)\<rparr>"
  have inv: "k_inv st" "pm_inv st" "pids_inv st" using i by (simp_all add: sys_inv_def)
  have ok: "thread_pid_ok st th" by (rule pids_invD(1) [OF inv(3) cur_live [OF c] th])
  have fs: "F_thread_exit \<in> set fs" "\<not> list_ex is_exit_locked fs" and p: "p = t_pid th" "get_pid_block p st = Some a"
    using ok fr by (auto simp: thread_pid_ok_def)
  have ki: "k_inv ?s" by (rule pop_inv [OF inv(1) c th])
  have pi: "pm_inv ?s" using inv(2) pm_inv_cong [of ?s st] by simp
  have g: "get_pid_block p ?s = Some a" using p get_pid_block_cong [of ?s st] by simp
  note x = exit_locked_inv [OF ki pi g r]
  have ne: "\<not> exiting th" using fr by (simp add: exiting_def is_exit_locked_def)
  have ex: "exiting ?th" using fs by (simp add: exiting_def)
  have le: "set (live_tids st') \<subseteq> set (live_tids st)"
    using x by (simp add: thr_rel_def live_tids_def cur_list_def)
  have keep: "get_pid_block (t_pid tt) st' = Some d \<and> k_pids st' d = Some b"
    if t: "t \<in> set (live_tids st')" "t \<noteq> c" "k_threads st t = Some tt" "\<not> exiting tt"
      and ab: "get_pid_block (t_pid tt) st = Some d" "k_pids st d = Some b" "\<not> is_exited b" for t tt d b
  proof -
    have "t_pid tt \<noteq> p" using pids_invD(2) [OF inv(3) _ cur_live [OF c] t(3) th t(4) ne] t(1,2) le p by auto
    moreover have "my_pid b = t_pid tt" using get_pid_block_Some [OF inv(2) ab(1)] ab(2) by auto
    moreover obtain pb where "k_pids st a = Some pb" "my_pid pb = p" using get_pid_block_Some [OF inv(2) p(2)] by auto
    ultimately have "d \<noteq> a" using ab(2) by auto
    then have "k_pids st' d = Some b" using x ab by (simp add: keeps_live_def)
    moreover have "pm_inv st'" using x by simp
    ultimately show ?thesis using pm_inv_block [of st' d b] \<open>my_pid b = t_pid tt\<close> by simp
  qed
  have "pids_inv st'"
  proof (rule pids_invI)
    fix t tt assume t: "t \<in> set (live_tids st')" and tt: "k_threads st' t = Some tt"
    show "thread_pid_ok st' tt"
    proof (cases "t = c")
      case True
      then have "tt = ?th" using tt x by simp
      then show ?thesis using ex fs(2) fr_ok_none by (simp add: thread_pid_ok_def)
    next
      case False
      then have ts: "k_threads st t = Some tt" using tt x by simp
      have o: "thread_pid_ok st tt" by (rule pids_invD(1) [OF inv(3) _ ts]) (use t le in blast)
      show ?thesis
      proof (cases "exiting tt")
        case True
        then show ?thesis using fr_ok_none by (simp add: thread_pid_ok_def exiting_def)
      next
        case nx: False
        with o obtain d b where db: "get_pid_block (t_pid tt) st = Some d" "k_pids st d = Some b" "\<not> is_exited b"
          by (auto simp: thread_pid_ok_def pid_ok_def)
        note k = keep [OF t False ts nx db]
        have "fr_ok (\<lambda>p a. p = t_pid tt \<and> get_pid_block p st' = Some a) (t_frames tt)"
          by (rule fr_ok_mono [of "\<lambda>p a. p = t_pid tt \<and> get_pid_block p st = Some a"])
            (use o k db in \<open>auto simp: thread_pid_ok_def\<close>)
        with k db(3) show ?thesis by (auto simp: thread_pid_ok_def pid_ok_def)
      qed
    qed
  next
    fix t t' tt tt'
    assume h: "t \<in> set (live_tids st')" "t' \<in> set (live_tids st')" "k_threads st' t = Some tt" "k_threads st' t' = Some tt'"
      "\<not> exiting tt" "\<not> exiting tt'" "t_pid tt = t_pid tt'"
    have "t \<noteq> c" "t' \<noteq> c" using h x ex by auto
    then have "k_threads st t = Some tt" "k_threads st t' = Some tt'" using h x by simp_all
    then show "t = t'" using pids_invD(2) [OF inv(3)] h le by blast
  qed
  then show ?thesis using x by (simp add: sys_inv_def)
qed

lemma thread_exit_rest_inv:
  assumes i: "sys_inv st" and c: "k_curthread st = Some c" and th: "k_threads st c = Some th"
    and r: "thread_exit_rest km (st\<lparr>k_threads := (k_threads st)(c \<mapsto> th\<lparr>t_frames := fs\<rparr>)\<rparr>) = Some st'"
  shows "sys_inv st' \<and> k_rest st' = k_rest st"
proof -
  let ?th = "th\<lparr>t_frames := fs, t_vmspace := None, t_cwd := None\<rparr>"
  from r c obtain cs where
    m: "mi_switch km S_ZOMB (st\<lparr>k_threads := (k_threads st)(c \<mapsto> ?th), k_calls := cs, k_numthreads := k_numthreads st - 1\<rparr>) = Some st'"
  proof -
    let ?cs = "(case t_cwd th of None \<Rightarrow> [] | Some v \<Rightarrow> [VnDecref v]) @
      (case t_vmspace th of None \<Rightarrow> [] | Some as \<Rightarrow> [AsDestroy as]) @ k_calls st"
    show ?thesis
      by (rule that [of ?cs], cases st, cases "t_vmspace th"; cases "t_cwd th")
        (use r c in \<open>simp_all add: thread_exit_rest_def vop_decref_def upd_cur_Some kern_simps Let_def upd_thread_def upd_cur_def\<close>)
  qed
  define s where "s = st\<lparr>k_threads := (k_threads st)(c \<mapsto> ?th), k_calls := cs\<rparr>"
  have ss: "upd_cur (\<lambda>th. th\<lparr>t_frames := fs, t_vmspace := None, t_cwd := None\<rparr>) (st\<lparr>k_calls := cs\<rparr>) = Some s"
    using c th by (simp add: upd_cur_Some s_def)
  have "k_inv (st\<lparr>k_calls := cs\<rparr>)" by (rule k_inv_same [of st]) (use i in \<open>simp_all add: sys_inv_def\<close>)
  from upd_cur_inv [OF this ss] have ki: "k_inv s" by simp
  have "s\<lparr>k_numthreads := k_numthreads s - 1\<rparr> =
      st\<lparr>k_threads := (k_threads st)(c \<mapsto> ?th), k_calls := cs, k_numthreads := k_numthreads st - 1\<rparr>"
    by (simp add: s_def)
  then have m': "mi_switch km S_ZOMB (s\<lparr>k_numthreads := k_numthreads s - 1\<rparr>) = Some st'" using m by simp
  note z = mi_switch_zombie_inv [OF ki _ _ m', of c]
  have z': "k_inv st'" "switch_frame (s\<lparr>k_numthreads := k_numthreads s - 1\<rparr>) st'" "set (live_tids st') = set (live_tids s) - {c}"
    using z c by (simp_all add: s_def zombie_ok_def)
  have live: "set (live_tids st') = set (live_tids st) - {c}" using z'(3) by (simp add: s_def live_tids_def cur_list_def)
  have rest: "k_rest st' = k_rest st" using z'(2) by (simp add: switch_frame_def k_rest_def s_def)
  have "thr_rel st st'"
    unfolding thr_rel_def
  proof (intro conjI allI impI)
    show "set (live_tids st') \<subseteq> set (live_tids st)" using live by blast
    fix t tt assume t: "t \<in> set (live_tids st')" "k_threads st' t = Some tt"
    then have "t \<noteq> c" using live by blast
    have "threads_le s st'" using z'(2) by (simp add: switch_frame_def threads_le_def)
    then obtain t0 where "k_threads s t = Some t0" "same_thread t0 tt" using t(2) unfolding threads_le_def by blast
    moreover have "k_threads s t = k_threads st t" using \<open>t \<noteq> c\<close> by (simp add: s_def)
    ultimately have "k_threads st t = Some t0" "same_thread t0 tt" by simp_all
    then show "\<exists>t0. k_threads st t = Some t0 \<and> fr_le t0 tt" using same_thread_fr_le by blast
  qed
  with sys_inv_rest [OF i z'(1) rest] rest show ?thesis by blast
qed

lemma plain_frames [simp]:
  "plain_frame (F_wait_locked p)" "plain_frame (F_wait_status p)" "plain_frame (F_wait_acquire p)" "plain_frame (F_intr i j)"
  by (simp_all add: plain_frame_def is_exit_locked_def)

lemma sys_wait_acquire:
  assumes "sys_inv st" and r: "wait_acquire km pid st = Some st'"
  shows "sys_inv st'"
proof -
  from r obtain st1 where p: "push_frame (F_wait_locked pid) st = Some st1"
    and l: "lock_acquire km (pid_lock (k_pm st1)) st1 = Some st'" by (auto simp: wait_acquire_def kern_simps)
  have "sys_inv st1" by (rule push_plain_inv [OF assms(1) p]) simp
  then show ?thesis using l by (rule sys_lock_acquire)
qed

lemma sys_wait_status:
  assumes "sys_inv st" and r: "wait_status km pid st = Some st'"
  shows "sys_inv st'"
proof -
  from r obtain x st1 where l: "lock_release km (pid_lock (k_pm st)) st = Some st1"
    and s: "set_result (EOK, x) st1 = Some st'" unfolding wait_status_def bind_eq_Some by blast
  from sys_lock_release [OF assms(1) l] s show ?thesis by (rule set_result_inv)
qed

lemma sys_wait_locked:
  assumes "sys_inv st" and r: "wait_locked km pid st = Some st'"
  shows "sys_inv st'"
proof -
  from r consider "wait_status km pid st = Some st'"
    | cv st1 where "push_frame (F_wait_status pid) st = Some st1" "cv_wait km cv (pid_lock (k_pm st1)) st1 = Some st'"
    by (auto simp: wait_locked_def kern_simps split: if_splits)
  then show ?thesis
  proof cases
    case 1
    with assms(1) show ?thesis by (rule sys_wait_status)
  next
    case 2
    have "sys_inv st1" by (rule push_plain_inv [OF assms(1) 2(1)]) simp
    then show ?thesis using 2(2) by (rule sys_cv_wait)
  qed
qed

lemma run_plain_frame_inv:
  assumes i: "sys_inv st" and f: "plain_frame f" and r: "run_frame km f st = Some st'"
  shows "sys_inv st'"
proof (cases f)
  case F_sleep
  then show ?thesis using i r upd_cur_plain_inv [of st "\<lambda>th. th\<lparr>t_sleepaddr := None\<rparr>" st'] by (simp add: run_frame_def)
next
  case (F_yield)
  with r show ?thesis using sys_inv_splx [OF i] by (auto simp: run_frame_def)
next
  case (F_intr)
  with r show ?thesis using sys_inv_ctl [OF i intr_return_ctl] by (auto simp: run_frame_def)
next
  case (F_P)
  with r show ?thesis by (simp add: run_frame_def sys_P_loop [OF i])
next
  case (F_lock_acquire)
  with r show ?thesis by (simp add: run_frame_def sys_lock_acquire_loop [OF i])
next
  case (F_cv_relock)
  with r show ?thesis by (simp add: run_frame_def sys_cv_relock [OF i])
next
  case (F_splx)
  with r show ?thesis using sys_inv_splx [OF i] by (auto simp: run_frame_def)
next
  case (F_clocksleep)
  with r show ?thesis by (simp add: run_frame_def sys_clocksleep_loop [OF i])
next
  case (F_wait_acquire)
  with r show ?thesis by (simp add: run_frame_def sys_wait_acquire [OF i])
next
  case (F_wait_locked)
  with r show ?thesis by (simp add: run_frame_def sys_wait_locked [OF i])
next
  case (F_wait_status)
  with r show ?thesis by (simp add: run_frame_def sys_wait_status [OF i])
qed (use f in \<open>simp_all add: plain_frame_def is_exit_locked_def\<close>)

lemma resume_inv:
  assumes i: "sys_inv st" and r: "resume km st = Some st'"
  shows "sys_inv st'"
proof -
  from r obtain c th f fs where c: "k_curthread st = Some c" and th: "k_threads st c = Some th" "t_frames th = f # fs"
    and f: "run_frame km f (st\<lparr>k_threads := (k_threads st)(c \<mapsto> th\<lparr>t_frames := fs\<rparr>)\<rparr>) = Some st'"
    by (auto simp: resume_def kern_simps neq_Nil_conv split: list.splits)
  consider "plain_frame f" | p s a where "f = F_exit_locked p s a" | "f = F_thread_exit"
    by (cases f) (auto simp: plain_frame_def is_exit_locked_def)
  then show ?thesis
  proof cases
    case 1
    from run_plain_frame_inv [OF pop_plain_inv [OF i c th 1] 1 f] show ?thesis .
  next
    case 2
    show ?thesis by (rule conjunct1 [OF resume_exit_locked [OF i c th(1)]]) (use 2 th(2) f in \<open>auto simp: run_frame_def\<close>)
  next
    case 3
    show ?thesis by (rule conjunct1 [OF thread_exit_rest_inv [OF i c th(1)]]) (use 3 f in \<open>auto simp: run_frame_def\<close>)
  qed
qed

lemma thread_pid_ok_cong: "k_pm st' = k_pm st \<Longrightarrow> k_pids st' = k_pids st \<Longrightarrow> thread_pid_ok st' th = thread_pid_ok st th"
  using get_pid_block_cong [of st' st] by (simp add: thread_pid_ok_def pid_ok_def)

lemma pids_inv_upd:
  assumes inv: "pids_inv st" and th: "k_threads st c = Some th"
    and th': "t_pid th' = t_pid th" "exiting th' = exiting th" "thread_pid_ok st th'"
    and s: "k_threads s = (k_threads st)(c \<mapsto> th')" "live_tids s = live_tids st" "k_pm s = k_pm st" "k_pids s = k_pids st"
  shows "pids_inv s"
proof (rule pids_invI)
  fix t tt assume "t \<in> set (live_tids s)" "k_threads s t = Some tt"
  then show "thread_pid_ok s tt"
    using pids_invD(1) [OF inv, of t tt] th'(3) s thread_pid_ok_cong [OF s(3,4)] by (auto split: if_splits)
next
  fix t t' tt tt'
  assume h: "t \<in> set (live_tids s)" "t' \<in> set (live_tids s)" "k_threads s t = Some tt" "k_threads s t' = Some tt'"
    "\<not> exiting tt" "\<not> exiting tt'" "t_pid tt = t_pid tt'"
  have old: "\<exists>t0. k_threads st x = Some t0 \<and> t_pid t0 = t_pid t1 \<and> exiting t0 = exiting t1"
    if "k_threads s x = Some t1" for x t1
    using that th th' s(1) by (auto split: if_splits)
  from old [OF h(3)] old [OF h(4)] show "t = t'"
    using pids_invD(2) [OF inv, of t t'] h s(2) by metis
qed

lemma sys_thread_exit:
  assumes i: "sys_inv st" and n: "cur_frames st = []" and r: "thread_exit km st = Some st'"
  shows "sys_inv st'"
proof -
  from r obtain c th where c: "k_curthread st = Some c" and th: "k_threads st c = Some th"
    and r1: "(do { st1 \<leftarrow> push_frame F_thread_exit (snd (splx SPL_HIGH st)); inform_process_exit km (t_pid th) 0 st1 }) = Some st'"
    by (auto simp: thread_exit_def kern_simps)
  have fs: "t_frames th = []" using n c th by (simp add: cur_frames_def)
  have inv: "k_inv st" "pm_inv st" "pids_inv st" using i by (simp_all add: sys_inv_def)
  have ok: "thread_pid_ok st th" by (rule pids_invD(1) [OF inv(3) cur_live [OF c] th])
  then obtain a b where ab: "get_pid_block (t_pid th) st = Some a" "k_pids st a = Some b" "\<not> is_exited b"
    using fs by (auto simp: thread_pid_ok_def exiting_def pid_ok_def)
  define th1 where "th1 = th\<lparr>t_frames := [F_exit_locked (t_pid th) 0 a, F_thread_exit]\<rparr>"
  define s where "s = (snd (splx SPL_HIGH st))\<lparr>k_threads := (k_threads st)(c \<mapsto> th1)\<rparr>"
  have g: "get_pid_block p (s'\<lparr>k_threads := x\<rparr>) = get_pid_block p s'" for p s' x by (rule get_pid_block_cong) simp
  have l: "lock_acquire km (pid_lock (k_pm st)) s = Some st'"
    using r1 c th fs ab get_pid_block_cong [of "snd (splx SPL_HIGH st)" st]
    by (simp add: push_frame_def upd_cur_def upd_thread_def inform_process_exit_def g s_def th1_def)
  have "k_inv (snd (splx SPL_HIGH st))" by (rule k_inv_splx [OF inv(1)])
  moreover have "upd_cur (\<lambda>th. th\<lparr>t_frames := [F_exit_locked (t_pid th) 0 a, F_thread_exit]\<rparr>) (snd (splx SPL_HIGH st)) = Some s"
    using c th by (simp add: upd_cur_Some s_def th1_def)
  ultimately have ki: "k_inv s" by (rule upd_cur_inv) simp
  have pi: "pm_inv s" using inv(2) pm_inv_cong [of s st] by (simp add: s_def)
  have "pids_inv s"
    by (rule pids_inv_upd [OF inv(3) th, of th1])
      (use ab fs c in \<open>auto simp: th1_def s_def exiting_def is_exit_locked_def thread_pid_ok_def pid_ok_def live_tids_def cur_list_def\<close>)
  with ki pi have "sys_inv s" by (simp add: sys_inv_def)
  then show ?thesis using l by (rule sys_lock_acquire)
qed

lemma k_struct_bound:
  assumes "inv_lists st"
  shows "0 \<le> k_numthreads st \<and> k_numthreads st + 1 < 2 ^ 29"
proof -
  have "k_struct st" using assms by (simp add: inv_lists_def)
  then have "length (runq st) < 2 ^ 27" "length (sleepers st) < 2 ^ 28"
    by (auto simp: k_struct_def q_inv_def q_rep_def a_inv_def a_rep_def a_wf_def)
  moreover have "length (cur_list st) \<le> 1" by (simp add: cur_list_def split: option.splits)
  ultimately show ?thesis using assms by (simp add: inv_lists_def live_tids_def)
qed

definition reserved :: "kernel \<Rightarrow> tid \<Rightarrow> errno \<Rightarrow> kernel \<Rightarrow> bool" where
  "reserved st t e st' \<longleftrightarrow> (\<exists>sl zs q. st' = st\<lparr>k_sleepers := sl, k_zombies := zs, k_runqueue := q\<rparr> \<and>
     q_inv q \<and> a_inv sl \<and> a_inv zs \<and>
     a_list sl = sleepers st \<and> a_list zs = zombies st \<and> q_list q = (if e = EOK then runq st @ [t] else runq st))"

lemma reservedI:
  assumes "st' = st\<lparr>k_sleepers := sl, k_zombies := zs, k_runqueue := q\<rparr>" "q_inv q" "a_inv sl" "a_inv zs"
    "a_list sl = sleepers st" "a_list zs = zombies st" "q_list q = (if e = EOK then runq st @ [t] else runq st)"
  shows "reserved st t e st'"
  unfolding reserved_def using assms by (intro exI conjI)

lemma fork_reserve_cases:
  assumes st: "k_struct st" and n: "k_numthreads st + 1 < 2 ^ 29" and r: "fork_reserve km t st = Some (e, st')"
  shows "reserved st t e st'"
proof -
  have inv: "q_inv (k_runqueue st)" "a_inv (k_sleepers st)" "a_inv (k_zombies st)" using st by (simp_all add: k_struct_def)
  from r obtain e1 sl where sl: "array_preallocate (km 0) (k_sleepers st) (k_numthreads st + 1) = Some (e1, sl)"
    by (auto simp: fork_reserve_def kern_simps)
  with array_preallocate_inv [OF inv(2) n, of "km 0"] have sl': "a_inv sl" "a_list sl = sleepers st"
    using inv(2) by auto
  show ?thesis
  proof (cases "e1 = EOK")
    case False
    then have f: "st' = st\<lparr>k_sleepers := sl, k_zombies := k_zombies st, k_runqueue := k_runqueue st\<rparr>" "e \<noteq> EOK"
      using r sl by (auto simp: fork_reserve_def)
    show ?thesis by (rule reservedI [OF f(1)]) (use f(2) sl' inv in simp_all)
  next
    case e1: True
    with r sl obtain e2 zs where zs: "array_preallocate (km 1) (k_zombies st) (k_numthreads st + 1) = Some (e2, zs)"
      by (auto simp: fork_reserve_def kern_simps)
    with array_preallocate_inv [OF inv(3) n, of "km 1"] have zs': "a_inv zs" "a_list zs = zombies st"
      using inv(3) by auto
    show ?thesis
    proof (cases "e2 = EOK")
      case False
      then have f: "st' = st\<lparr>k_sleepers := sl, k_zombies := zs, k_runqueue := k_runqueue st\<rparr>" "e \<noteq> EOK"
        using r sl e1 zs by (auto simp: fork_reserve_def)
      show ?thesis by (rule reservedI [OF f(1)]) (use f(2) sl' zs' inv in simp_all)
    next
      case e2: True
      with r sl e1 zs obtain e3 q where q: "q_preallocate (km 2) (k_runqueue st) (k_numthreads st + 1) = Some (e3, q)"
        and r3: "(if e3 \<noteq> EOK then Some (e3, st\<lparr>k_sleepers := sl, k_zombies := zs, k_runqueue := q\<rparr>)
          else make_runnable (km 3) t (st\<lparr>k_sleepers := sl, k_zombies := zs, k_runqueue := q\<rparr>)) = Some (e, st')"
        by (auto simp: fork_reserve_def scheduler_preallocate_def kern_simps)
      have "k_numthreads st + 1 \<le> 2 ^ 29" using n by simp
      from q_preallocate_inv [OF inv(1) this, of "km 2"] q have q': "q_inv q" "q_list q = runq st"
        using inv(1) by auto
      show ?thesis
      proof (cases "e3 = EOK")
        case False
        then have f: "st' = st\<lparr>k_sleepers := sl, k_zombies := zs, k_runqueue := q\<rparr>" "e \<noteq> EOK" using r3 by simp_all
        show ?thesis by (rule reservedI [OF f(1)]) (use f(2) sl' zs' q' in simp_all)
      next
        case True
        then obtain q2 where "q_addtail (km 3) q t = Some (e, q2)" "st' = st\<lparr>k_sleepers := sl, k_zombies := zs, k_runqueue := q2\<rparr>"
          using r3 by (auto simp: make_runnable_def kern_simps)
        note a = this
        have qq: "q_inv q2 \<and> q_list q2 = (if e = EOK then runq st @ [t] else runq st)"
          using q_addtail_rep [of q "q_list q" "km 3" t] q' a(1) q_rep_list q_rep_inv by (auto simp: q_inv_def)
        then show ?thesis by (intro reservedI [OF a(2)]) (use sl' zs' in simp_all)
      qed
    qed
  qed
qed

lemma added_keep:
  assumes inv: "pm_inv st" and ad: "added st i parent a cv st'" and fresh: "k_pids st a = None"
    and d: "get_pid_block p st = Some d" "k_pids st d = Some b" "\<not> is_exited b"
  shows "get_pid_block p st' = Some d \<and> (\<exists>b'. k_pids st' d = Some b' \<and> \<not> is_exited b')"
proof
  have p: "1 \<le> p" "p \<le> MAX_PIDS" using get_pid_block_Some [OF inv d(1)] by auto
  have i: "1 \<le> i" "ptable st ! nat (i - 1) = None" and pm: "ptable st' = (ptable st)[nat (i - 1) := Some a]"
    using ad by (auto simp: added_def)
  have "nat (i - 1) \<noteq> nat (p - 1)" using d(1) p i by (auto simp: get_pid_block_table)
  then show "get_pid_block p st' = Some d" using d(1) p pm by (simp add: get_pid_block_table)
  show "\<exists>b'. k_pids st' d = Some b' \<and> \<not> is_exited b'"
  proof (cases "get_pid_block parent st = Some d")
    case True
    then show ?thesis using ad d(2,3) by (fastforce simp: added_def)
  next
    case False
    moreover have "d \<noteq> a" using d(2) fresh by auto
    ultimately have "k_pids st' d = k_pids st d" using ad by (simp add: added_def)
    then show ?thesis using d(2,3) by simp
  qed
qed

lemma pids_inv_added:
  assumes inv: "pm_inv st" "pids_inv st" and ad: "added st i parent a cv st'" and fresh: "k_pids st a = None"
    and s: "k_pm s = k_pm st'" "k_pids s = k_pids st'" "k_threads s = k_threads st" "live_tids s = live_tids st"
  shows "pids_inv s"
proof (rule pids_inv_transfer [OF inv(2)])
  show "thr_rel st s" by (rule thr_rel_same) (simp_all add: s)
  show "get_pid_block (t_pid th) s = Some d \<and> (\<exists>b'. k_pids s d = Some b' \<and> \<not> is_exited b')"
    if "get_pid_block (t_pid th) st = Some d" "k_pids st d = Some b" "\<not> is_exited b" for th d b
    using added_keep [OF inv(1) ad fresh that] get_pid_block_cong [OF s(1)] s(2) by simp
qed

lemma pids_inv_new:
  assumes inv: "pids_inv s" and pm: "k_pm st' = k_pm s" "k_pids st' = k_pids s"
    and t: "k_threads st' = (k_threads s)(t \<mapsto> th)" "set (live_tids st') = insert t (set (live_tids s))"
    and th: "t_frames th = []" "pid_ok s (t_pid th)"
    and new: "\<And>t' th'. t' \<in> set (live_tids s) \<Longrightarrow> k_threads s t' = Some th' \<Longrightarrow> \<not> exiting th' \<Longrightarrow> t_pid th' \<noteq> t_pid th"
  shows "pids_inv st'"
proof (rule pids_invI)
  have "thread_pid_ok s th" using th by (simp add: thread_pid_ok_def)
  then show "thread_pid_ok st' tt" if "t' \<in> set (live_tids st')" "k_threads st' t' = Some tt" for t' tt
    using that pids_invD(1) [OF inv, of t' tt] t thread_pid_ok_cong [OF pm] by (auto split: if_splits)
next
  fix x y tx ty
  assume h: "x \<in> set (live_tids st')" "y \<in> set (live_tids st')" "k_threads st' x = Some tx" "k_threads st' y = Some ty"
    "\<not> exiting tx" "\<not> exiting ty" "t_pid tx = t_pid ty"
  show "x = y"
  proof (rule ccontr)
    assume "x \<noteq> y"
    then show False
      using h t new [of x tx] new [of y ty] pids_invD(2) [OF inv, of x y tx ty] by (auto split: if_splits)
  qed
qed

lemma k_inv_forked:
  assumes inv: "k_inv st" and t: "k_threads st t = None" "k_threads st' = (k_threads st)(t \<mapsto> th)" "stack_ok th"
    and st: "k_struct st'" "runq st' = runq st @ [t]" "sleepers st' = sleepers st" "zombies st' = zombies st"
    and same: "k_numthreads st' = k_numthreads st + 1" "k_curthread st' = k_curthread st" "k_idle st' = k_idle st"
      "k_sems st' = k_sems st" "k_locks st' = k_locks st"
  shows "k_inv st'"
proof -
  have d: "set (live_tids st @ zombies st) = dom (k_threads st)" using inv by (simp add: k_inv_def inv_lists_def)
  then have n: "t \<notin> set (live_tids st @ zombies st)" using t(1) by auto
  have b: "blocked st' = blocked st" by (intro ext blocked_cong) (simp_all add: same)
  have "sleeper_ok st' x" if "x \<in> set (sleepers st)" for x
  proof -
    have "x \<noteq> t" using n that by (auto simp: live_tids_def)
    moreover have "sleeper_ok st x" using inv that by (simp add: k_inv_def list_all_iff)
    ultimately show ?thesis by (simp add: sleeper_ok_def t(2) b)
  qed
  moreover have "zombie_ok st' x" if "x \<in> set (zombies st)" for x
  proof -
    have "x \<noteq> t" using n that by auto
    moreover have "zombie_ok st x" using inv that by (simp add: k_inv_def list_all_iff)
    ultimately show ?thesis by (simp add: zombie_ok_def t(2))
  qed
  moreover have "inv_lists st'"
    unfolding inv_lists_def using inv n d t(2) st same
    by (auto simp: k_inv_def inv_lists_def live_tids_def cur_list_def split: option.splits)
  ultimately show ?thesis using inv t(2,3) st(3,4) by (auto simp: k_inv_def list_all_iff)
qed

lemma k_inv_same_lists:
  assumes "k_inv st" and "k_threads st' = k_threads st" "k_struct st'" "runq st' = runq st" "sleepers st' = sleepers st"
    "zombies st' = zombies st" "k_numthreads st' = k_numthreads st" "k_curthread st' = k_curthread st"
    "k_idle st' = k_idle st" "k_sems st' = k_sems st" "k_locks st' = k_locks st"
  shows "k_inv st'"
proof -
  have "sleeper_ok st' = sleeper_ok st" "zombie_ok st' = zombie_ok st"
    using assms by (intro sleeper_ok_cong zombie_ok_cong; simp)+
  with assms show ?thesis by (simp add: k_inv_def inv_lists_def live_tids_def cur_list_def)
qed

text \<open>The states \<^verbatim>\<open>thread_fork\<close> can end in: nothing happened, only a pid was consumed, or the new
  thread is at the tail of the run queue.\<close>

definition fork_lost :: "tid \<Rightarrow> int \<Rightarrow> nat \<Rightarrow> nat \<Rightarrow> int \<Rightarrow> kernel \<Rightarrow> kernel \<Rightarrow> bool" where
  "fork_lost t parent a cv i st st' \<longleftrightarrow> first_free st i \<and> added st i parent a cv st' \<and> k_struct st' \<and>
     k_threads st' = k_threads st \<and> runq st' = runq st \<and> sleepers st' = sleepers st \<and> zombies st' = zombies st \<and>
     k_numthreads st' = k_numthreads st \<and> k_curthread st' = k_curthread st \<and> k_idle st' = k_idle st \<and>
     k_sems st' = k_sems st \<and> k_locks st' = k_locks st"

definition forked :: "string \<Rightarrow> tid \<Rightarrow> int \<Rightarrow> nat \<Rightarrow> nat \<Rightarrow> int \<Rightarrow> kernel \<Rightarrow> kernel \<Rightarrow> bool" where
  "forked name t parent a cv i st st' \<longleftrightarrow> first_free st i \<and> added st i parent a cv st' \<and> k_struct st' \<and>
     (\<exists>th. k_threads st' = (k_threads st)(t \<mapsto> th) \<and> t_name th = name \<and> t_pid th = i \<and> t_frames th = [] \<and>
        t_fresh th \<and> stack_ok th \<and> t_vmspace th = None) \<and>
     runq st' = runq st @ [t] \<and> sleepers st' = sleepers st \<and> zombies st' = zombies st \<and>
     k_numthreads st' = k_numthreads st + 1 \<and> k_curthread st' = k_curthread st \<and> k_idle st' = k_idle st \<and>
     k_sems st' = k_sems st \<and> k_locks st' = k_locks st"

lemma fork_lost_inv:
  assumes inv: "sys_inv st" and fresh: "k_pids st a = None" "\<not> k_cvs st cv" and l: "fork_lost t parent a cv i st st'"
  shows "sys_inv st'"
proof -
  note d = l [unfolded fork_lost_def]
  have i: "k_inv st" "pm_inv st" "pids_inv st" using inv by (simp_all add: sys_inv_def)
  have ad: "added st i parent a cv st'" using d by blast
  have "k_inv st'" by (rule k_inv_same_lists [OF i(1)]) (use d in simp_all)
  moreover have "pm_inv st'" by (rule added_inv [OF i(2) ad fresh])
  moreover have "pids_inv st'"
    by (rule pids_inv_added [OF i(2,3) ad fresh(1)]) (use d in \<open>simp_all add: live_tids_def cur_list_def\<close>)
  ultimately show ?thesis by (simp add: sys_inv_def)
qed

lemma forked_inv:
  assumes inv: "sys_inv st" and fresh: "k_threads st t = None" "k_pids st a = None" "\<not> k_cvs st cv"
    and l: "forked name t parent a cv i st st'"
  shows "sys_inv st'"
proof -
  note d = l [unfolded forked_def]
  have i: "k_inv st" "pm_inv st" "pids_inv st" using inv by (simp_all add: sys_inv_def)
  have ad: "added st i parent a cv st'" using d by blast
  obtain th where th: "k_threads st' = (k_threads st)(t \<mapsto> th)" "t_pid th = i" "t_frames th = []" "stack_ok th"
    using d by blast
  have "k_inv st'" by (rule k_inv_forked [OF i(1) fresh(1) th(1,4)]) (use d in simp_all)
  moreover have "pm_inv st'" by (rule added_inv [OF i(2) ad fresh(2,3)])
  moreover have "pids_inv st'"
  proof (rule pids_inv_new [OF _ _ _ _ _ th(3)])
    let ?s = "st\<lparr>k_pm := k_pm st', k_pids := k_pids st'\<rparr>"
    show "pids_inv ?s" by (rule pids_inv_added [OF i(2,3) ad fresh(2)]) (simp_all add: live_tids_def cur_list_def)
    show "k_pm st' = k_pm ?s" "k_pids st' = k_pids ?s" "k_threads st' = (k_threads ?s)(t \<mapsto> th)" by (simp_all add: th(1))
    show "set (live_tids st') = insert t (set (live_tids ?s))"
      using d by (simp add: live_tids_def cur_list_def)
    have ir: "1 \<le> i" "i \<le> MAX_PIDS" "ptable st ! nat (i - 1) = None" "ptable st' = (ptable st)[nat (i - 1) := Some a]"
      using ad by (auto simp: added_def)
    have "nat (i - 1) < 100" using ir(1,2) by (simp add: MAX_PIDS_def)
    then have "get_pid_block i ?s = Some a" using ir pm_invD(1) [OF i(2)] by (simp add: get_pid_block_table)
    then show "pid_ok ?s (t_pid th)" using ad th(2) by (auto simp: pid_ok_def added_def)
    show "t_pid th' \<noteq> t_pid th" if h: "t' \<in> set (live_tids ?s)" "k_threads ?s t' = Some th'" "\<not> exiting th'" for t' th'
    proof
      assume e: "t_pid th' = t_pid th"
      have "thread_pid_ok st th'" using pids_invD(1) [OF i(3), of t' th'] h by (simp add: live_tids_def cur_list_def)
      then have "get_pid_block i st \<noteq> None" using h(3) e th(2) by (auto simp: thread_pid_ok_def pid_ok_def)
      then show False using ir by (simp add: get_pid_block_table)
    qed
  qed
  ultimately show ?thesis by (simp add: sys_inv_def)
qed

lemma added_cong:
  assumes "added s i parent a cv s'" and "k_pm st = k_pm s" "k_pids st = k_pids s" "k_cvs st = k_cvs s"
    and "k_pm st' = k_pm s'" "k_pids st' = k_pids s'" "k_cvs st' = k_cvs s'"
  shows "added st i parent a cv st'"
  using assms get_pid_block_cong [of st s] by (simp add: added_def)

lemma first_free_cong: "k_pm s = k_pm st \<Longrightarrow> first_free s i = first_free st i"
  using is_pid_free_cong [of s st] by (simp add: first_free_def)

lemma fork_fail_eq:
  assumes "k_threads st t = Some th"
  shows "\<exists>cs. fork_fail s t st = Some (snd (splx s st)\<lparr>k_calls := cs, k_threads := (k_threads st)(t := None)\<rparr>)"
proof (cases "t_cwd th")
  case None
  have "snd (splx s st)\<lparr>k_calls := k_calls st, k_threads := (k_threads st)(t := None)\<rparr> =
      snd (splx s st)\<lparr>k_threads := (k_threads st)(t := None)\<rparr>"
    by (cases st) (simp add: splx_def interrupts_on_def interrupts_off_def Let_def)
  then show ?thesis using assms None by (intro exI [of _ "k_calls st"]) (simp add: fork_fail_def vop_decref_def Let_def)
next
  case (Some v)
  then show ?thesis using assms by (intro exI [of _ "VnDecref v # k_calls st"]) (simp add: fork_fail_def vop_decref_def Let_def)
qed

lemma ctl_sameI':
  assumes "k_curthread st' = k_curthread st" "k_idle st' = k_idle st" "k_threads st' = k_threads st"
    "k_runqueue st' = k_runqueue st" "k_sleepers st' = k_sleepers st" "k_zombies st' = k_zombies st"
    "k_numthreads st' = k_numthreads st" "k_sems st' = k_sems st" "k_locks st' = k_locks st" "k_cvs st' = k_cvs st"
    "k_pids st' = k_pids st" "k_pm st' = k_pm st"
  shows "ctl_same st st'"
proof -
  have "st' = st\<lparr>k_curspl := k_curspl st', k_iec := k_iec st', k_inintr := k_inintr st', k_lbolt := k_lbolt st', k_calls := k_calls st'\<rparr>"
    using assms by (cases st; cases st') simp
  then show ?thesis unfolding ctl_same_def by blast
qed

lemma ctl_same_refl: "ctl_same st st"
  by (rule ctl_sameI') (rule refl)+

definition new_thread :: "string \<Rightarrow> nat option \<Rightarrow> int \<Rightarrow> thread" where
  "new_thread name cwd pid = \<lparr>t_name = name, t_sleepaddr = None, t_stack = Some STACK_MAGIC, t_pid = pid, t_vmspace = None,
      t_cwd = cwd, t_ininterrupt = 0, t_fresh = True, t_frames = [], t_result = (EOK, 0)\<rparr>"

text \<open>The state in which \<^verbatim>\<open>thread_fork\<close> calls \<^verbatim>\<open>inform_process_add\<close>, and what follows.\<close>

definition fork_start :: "string \<Rightarrow> tid \<Rightarrow> nat option \<Rightarrow> kernel \<Rightarrow> kernel" where
  "fork_start name t cwd st =
     snd (splx SPL_HIGH (vop_incref cwd (st\<lparr>k_threads := (k_threads st)(t \<mapsto> new_thread name cwd 0)\<rparr>)))"

definition fork_finish :: "mem \<Rightarrow> int \<Rightarrow> tid \<Rightarrow> errno \<Rightarrow> kernel \<Rightarrow> (errno \<times> kernel) kern" where
  "fork_finish km s t e st =
     (if e \<noteq> EOK then do { st4 \<leftarrow> fork_fail s t st; Some (e, st4) }
      else do {
        (result, st4) \<leftarrow> fork_reserve (mem_skip 3 km) t st;
        if result \<noteq> EOK then do { st5 \<leftarrow> fork_fail s t st4; Some (result, st5) }
        else Some (EOK, snd (splx s (st4\<lparr>k_numthreads := k_numthreads st4 + 1\<rparr>)))
      })"

lemma vop_incref_fields [simp]:
  "k_threads (vop_incref v st) = k_threads st" "k_runqueue (vop_incref v st) = k_runqueue st"
  "k_sleepers (vop_incref v st) = k_sleepers st" "k_zombies (vop_incref v st) = k_zombies st"
  "k_numthreads (vop_incref v st) = k_numthreads st" "k_curthread (vop_incref v st) = k_curthread st"
  "k_idle (vop_incref v st) = k_idle st" "k_sems (vop_incref v st) = k_sems st" "k_locks (vop_incref v st) = k_locks st"
  "k_cvs (vop_incref v st) = k_cvs st" "k_pids (vop_incref v st) = k_pids st" "k_pm (vop_incref v st) = k_pm st"
  "k_curspl (vop_incref v st) = k_curspl st" "k_lbolt (vop_incref v st) = k_lbolt st" "k_inintr (vop_incref v st) = k_inintr st"
  by (simp_all add: vop_incref_def split: option.splits)

lemma thread_fork_split:
  assumes c: "k_curthread st = Some c" "k_threads st c = Some cth" and "t \<noteq> c"
  shows "thread_fork km name t a cv st =
    (if km 0 \<and> km 1 \<and> kmalloc_ok (km 2) 4096 then
       do { (e, st3) \<leftarrow> inform_process_add (mem_skip 10 km) t (t_pid cth) a cv (fork_start name t (t_cwd cth) st);
            fork_finish km (k_curspl st) t e st3 }
     else Some (ENOMEM, st))"
  using c
  by (auto simp: thread_fork_def thread_create_def fork_start_def fork_finish_def new_thread_def Let_def split_def cong: if_cong)

lemma fork_start_fields [simp]:
  "k_threads (fork_start n t w st) = (k_threads st)(t \<mapsto> new_thread n w 0)" "k_runqueue (fork_start n t w st) = k_runqueue st"
  "k_sleepers (fork_start n t w st) = k_sleepers st" "k_zombies (fork_start n t w st) = k_zombies st"
  "k_numthreads (fork_start n t w st) = k_numthreads st" "k_curthread (fork_start n t w st) = k_curthread st"
  "k_idle (fork_start n t w st) = k_idle st" "k_sems (fork_start n t w st) = k_sems st" "k_locks (fork_start n t w st) = k_locks st"
  "k_cvs (fork_start n t w st) = k_cvs st" "k_pids (fork_start n t w st) = k_pids st" "k_pm (fork_start n t w st) = k_pm st"
  by (simp_all add: fork_start_def)

lemma new_thread_pid [simp]:
  "new_thread n w p\<lparr>t_pid := i\<rparr> = new_thread n w i" "t_pid (new_thread n w p) = p" "t_name (new_thread n w p) = n"
  "t_frames (new_thread n w p) = []" "t_fresh (new_thread n w p)" "t_vmspace (new_thread n w p) = None"
  "stack_ok (new_thread n w p)"
  by (simp_all add: new_thread_def stack_ok_def STACK_MAGIC_def)

lemma fork_finish_added:
  assumes inv: "inv_lists st" and t: "k_threads st t = None"
    and ff: "first_free s2 i" and ad: "added s2 i parent a cv st3" and s2: "s2 = fork_start n t w st"
    and st3: "st3 = s2\<lparr>k_threads := (k_threads st)(t \<mapsto> new_thread n w i), k_cvs := cv', k_pids := p, k_pm := m\<rparr>"
    and r: "fork_finish km spl t EOK st3 = Some (e, st')"
  shows "e \<noteq> EOK \<and> fork_lost t parent a cv i st st' \<or> e = EOK \<and> forked n t parent a cv i st st'"
proof -
  have ff': "first_free st i" using ff first_free_cong [of s2 st] by (simp add: s2)
  have ad': "added st i parent a cv s'" if "k_pm s' = k_pm st3" "k_pids s' = k_pids st3" "k_cvs s' = k_cvs st3" for s'
    by (rule added_cong [OF ad]) (simp_all add: s2 that)
  from r obtain e4 st4 where r4: "fork_reserve (mem_skip 3 km) t st3 = Some (e4, st4)"
    and r5: "(if e4 \<noteq> EOK then do { st5 \<leftarrow> fork_fail spl t st4; Some (e4, st5) }
      else Some (EOK, snd (splx spl (st4\<lparr>k_numthreads := k_numthreads st4 + 1\<rparr>)))) = Some (e, st')"
    by (auto simp: fork_finish_def kern_simps)
  have "k_struct st3" "k_numthreads st3 + 1 < 2 ^ 29"
    using inv k_struct_bound [OF inv] by (simp_all add: inv_lists_def k_struct_def st3 s2)
  from fork_reserve_cases [OF this r4] obtain sl zs q where
    st4: "st4 = st3\<lparr>k_sleepers := sl, k_zombies := zs, k_runqueue := q\<rparr>" "q_inv q" "a_inv sl" "a_inv zs"
    "a_list sl = sleepers st" "a_list zs = zombies st" "q_list q = (if e4 = EOK then runq st @ [t] else runq st)"
    unfolding reserved_def by (auto simp: st3 s2)
  have f4: "k_threads st4 = (k_threads st)(t \<mapsto> new_thread n w i)" "k_sleepers st4 = sl" "k_zombies st4 = zs" "k_runqueue st4 = q"
    "k_numthreads st4 = k_numthreads st" "k_curthread st4 = k_curthread st" "k_idle st4 = k_idle st" "k_sems st4 = k_sems st"
    "k_locks st4 = k_locks st" "k_pm st4 = k_pm st3" "k_pids st4 = k_pids st3" "k_cvs st4 = k_cvs st3"
    unfolding st4(1) st3 s2 by simp_all
  show ?thesis
  proof (cases "e4 = EOK")
    case True
    with r5 have e: "e = EOK" "st' = snd (splx spl (st4\<lparr>k_numthreads := k_numthreads st4 + 1\<rparr>))" by simp_all
    have "forked n t parent a cv i st st'"
      unfolding forked_def using ff' ad' [of st'] st4(2-7) True
      by (intro conjI exI [of _ "new_thread n w i"]) (simp_all add: e(2) f4 k_struct_def)
    with e show ?thesis by simp
  next
    case False
    from fork_fail_eq [of st4 t] f4(1) obtain cs where
      "fork_fail spl t st4 = Some (snd (splx spl st4)\<lparr>k_calls := cs, k_threads := (k_threads st4)(t := None)\<rparr>)" by fastforce
    with r5 False have e: "e \<noteq> EOK" "st' = snd (splx spl st4)\<lparr>k_calls := cs, k_threads := (k_threads st4)(t := None)\<rparr>"
      by auto
    have "(k_threads st)(t := None) = k_threads st" using t by auto
    then have "fork_lost t parent a cv i st st'"
      unfolding fork_lost_def using ff' ad' [of st'] st4(2-7) False by (simp add: e(2) f4 k_struct_def)
    with e show ?thesis by simp
  qed
qed

lemma thread_fork_cases:
  assumes inv: "sys_inv st" and fresh: "k_threads st t = None" "k_pids st a = None" "\<not> k_cvs st cv"
    and nl: "k_locks st (pid_lock (k_pm st)) \<noteq> Some (k_curthread st)"
    and c: "k_curthread st = Some c" "k_threads st c = Some cth"
    and r: "thread_fork km name t a cv st = Some (e, st')"
  shows "e \<in> {EAGAIN, ENOMEM} \<and> ctl_same st st' \<or>
    e \<noteq> EOK \<and> (\<exists>i. fork_lost t (t_pid cth) a cv i st st') \<or>
    e = EOK \<and> (\<exists>i. forked name t (t_pid cth) a cv i st st')"
proof (cases "km 0 \<and> km 1 \<and> kmalloc_ok (km 2) 4096")
  case False
  have "t \<noteq> c" using fresh(1) c(2) by auto
  with r False have "e = ENOMEM" "st' = st" by (auto simp: thread_fork_split [OF c])
  then show ?thesis using ctl_same_refl by simp
next
  case km: True
  have tc: "t \<noteq> c" using fresh(1) c(2) by auto
  have i: "inv_lists st" "pm_inv st" using inv by (simp_all add: sys_inv_def k_inv_def)
  define s2 where "s2 = fork_start name t (t_cwd cth) st"
  obtain e1 st3 where add: "inform_process_add (mem_skip 10 km) t (t_pid cth) a cv s2 = Some (e1, st3)"
    and fin: "fork_finish km (k_curspl st) t e1 st3 = Some (e, st')"
    using r km by (auto simp: thread_fork_split [OF c tc] s2_def kern_simps)
  have "pm_inv s2" using i(2) pm_inv_cong [of s2 st] by (simp add: s2_def)
  from inform_process_add_cases [OF this _ _ _ _ add, of "new_thread name (t_cwd cth) 0"] fresh nl
  consider "e1 \<in> {EAGAIN, ENOMEM}" "st3 = s2\<lparr>k_threads := (k_threads s2)(t \<mapsto> new_thread name (t_cwd cth) 0)\<rparr>"
    | i cv' p m where "e1 = EOK" "first_free s2 i" "added s2 i (t_pid cth) a cv st3"
      "st3 = s2\<lparr>k_threads := (k_threads st)(t \<mapsto> new_thread name (t_cwd cth) i), k_cvs := cv', k_pids := p, k_pm := m\<rparr>"
    by (fastforce simp: s2_def)
  then show ?thesis
  proof cases
    case 1
    have t3: "k_threads st3 t = Some (new_thread name (t_cwd cth) 0)" by (simp add: 1)
    from fork_fail_eq [OF t3] obtain cs where
      "fork_fail (k_curspl st) t st3 = Some (snd (splx (k_curspl st) st3)\<lparr>k_calls := cs, k_threads := (k_threads st3)(t := None)\<rparr>)"
      by blast
    with fin 1(1) have e: "e = e1" "st' = snd (splx (k_curspl st) st3)\<lparr>k_calls := cs, k_threads := (k_threads st3)(t := None)\<rparr>"
      by (auto simp: fork_finish_def)
    have "(k_threads st)(t := None) = k_threads st" using fresh(1) by auto
    then have "ctl_same st st'" by (intro ctl_sameI') (simp_all add: e(2) 1(2) s2_def)
    then show ?thesis using e 1 by simp
  next
    case 2
    from fork_finish_added [OF i(1) fresh(1) 2(2,3) s2_def 2(4)] fin 2(1) show ?thesis by blast
  qed
qed

lemma sys_thread_fork:
  assumes inv: "sys_inv st" and ok: "call_ok (Op_fork name t a cv) st" and r: "thread_fork km name t a cv st = Some (e, st')"
  shows "sys_inv st'"
proof (cases "k_curthread st = None \<or> (\<exists>c. k_curthread st = Some c \<and> k_threads st c = None)")
  case True
  with r have "st' = st" by (auto simp: thread_fork_def split: option.splits if_splits)
  with inv show ?thesis by simp
next
  case False
  then obtain c cth where c: "k_curthread st = Some c" "k_threads st c = Some cth" by auto
  have fresh: "k_threads st t = None" "k_pids st a = None" "\<not> k_cvs st cv"
    and nl: "k_locks st (pid_lock (k_pm st)) \<noteq> Some (k_curthread st)"
    using ok by (simp_all add: call_ok_def)
  from thread_fork_cases [OF inv fresh nl c r] show ?thesis
    using sys_inv_ctl [OF inv] fork_lost_inv [OF inv fresh(2,3)] forked_inv [OF inv fresh] by blast
qed

lemma sys_wait_pid:
  assumes i: "sys_inv st" and r: "wait_pid pid caller st = Some st'"
  shows "sys_inv st'"
proof -
  from r consider e where "set_result e st = Some st'" | "push_frame (F_wait_acquire pid) st = Some st'"
    by (auto simp: wait_pid_def kern_simps split: if_splits)
  then show ?thesis using set_result_inv [OF i] push_plain_inv [OF i] by cases auto
qed

lemma sys_timer_interrupt:
  assumes i: "sys_inv st" and r: "timer_interrupt km st = Some st'"
  shows "sys_inv st'"
proof -
  have e: "sys_inv (intr_enter st)" by (rule sys_inv_ctl [OF i intr_enter_ctl])
  show ?thesis
  proof (cases "k_curthread st")
    case None
    with r obtain st1 where "hardclock km (intr_enter st) = Some st1" "st' = intr_return (k_inintr st) (k_curspl st) st1"
      by (auto simp: timer_interrupt_def kern_simps)
    then show ?thesis using sys_hardclock [OF e] sys_inv_ctl [OF _ intr_return_ctl] by blast
  next
    case (Some c)
    with r obtain st1 where "push_frame (F_intr (k_inintr st) (k_curspl st)) (intr_enter st) = Some st1" "hardclock km st1 = Some st'"
      by (auto simp: timer_interrupt_def kern_simps)
    then show ?thesis using push_plain_inv [OF e] sys_hardclock plain_frames(4) by blast
  qed
qed

lemma sys_device_interrupt:
  assumes i: "sys_inv st" and r: "device_interrupt km sem st = Some st'"
  shows "sys_inv st'"
proof -
  have e: "sys_inv (intr_enter st)" by (rule sys_inv_ctl [OF i intr_enter_ctl])
  from r obtain st1 where "V km sem (intr_enter st) = Some st1" "st' = intr_return (k_inintr st) (k_curspl st) st1"
    by (auto simp: device_interrupt_def kern_simps)
  then show ?thesis using sys_V [OF e] sys_inv_ctl [OF _ intr_return_ctl] by blast
qed

lemma sys_idle_round:
  assumes i: "sys_inv st" and r: "idle_round st = Some st'"
  shows "sys_inv st'"
proof -
  from r obtain c where c: "k_idle st = Some c" and l: "scheduler_loop c st = Some st'"
    by (auto simp: idle_round_def kern_simps)
  have k: "k_inv st" using i by (simp add: sys_inv_def)
  then have n: "k_curthread st = None" using c by (simp add: k_inv_def inv_lists_def)
  have "st\<lparr>k_idle := Some c\<rparr> = st" using c by (cases st) simp
  with scheduler_loop_inv [OF _ n l] k have s: "k_inv st'" "switch_frame st st'" "live_tids st' = live_tids st" by simp_all
  have "thr_rel st st'" by (rule thr_rel_le) (use s in \<open>simp_all add: switch_frame_def\<close>)
  then show ?thesis by (rule sys_inv_rest [OF i s(1), rotated]) (use s in \<open>simp add: switch_frame_def\<close>)
qed

text \<open>Semaphores, locks and condition variables may come and go as long as nobody sleeps on what goes and
  the process table keeps its condition variables.\<close>

lemma sys_objects:
  assumes i: "sys_inv st" and st': "st' = st\<lparr>k_sems := S, k_locks := L, k_cvs := C\<rparr>"
    and b: "\<And>t a. t \<in> set (sleepers st) \<Longrightarrow> sleeping_on st a t \<Longrightarrow> blocked st a \<Longrightarrow> blocked st' a"
    and c: "\<And>a b. k_pids st a = Some b \<Longrightarrow> k_cvs st (exit_cv b) \<Longrightarrow> C (exit_cv b)"
  shows "sys_inv st'"
proof -
  let ?s = "st\<lparr>k_sems := S, k_locks := L\<rparr>"
  have k: "k_inv st" "pm_inv st" "pids_inv st" using i by (simp_all add: sys_inv_def)
  have "blocked ?s a = blocked st' a" for a by (rule blocked_cong) (simp_all add: st')
  with b have "k_inv ?s" by (intro k_inv_sync [OF k(1) refl]) blast
  then have "k_inv st'" by (rule k_inv_same) (simp_all add: st')
  moreover have "pm_inv st'"
    using k(2) c unfolding pm_inv_def block_ok_def children_ok_def by (simp add: st')
  moreover have "pids_inv st'"
    by (rule pids_inv_transfer [OF k(3)])
      (auto simp: st' live_tids_def cur_list_def get_pid_block_def validate_pid_def intro!: thr_rel_same)
  ultimately show ?thesis by (simp add: sys_inv_def)
qed

lemma sys_sem_create:
  assumes i: "sys_inv st" and n: "k_sems st s = None"
  shows "sys_inv (snd (sem_create a b s c st))"
proof -
  have "sys_inv (st\<lparr>k_sems := (k_sems st)(s \<mapsto> c)\<rparr>)"
    by (rule sys_objects [where S = "(k_sems st)(s \<mapsto> c)" and L = "k_locks st" and C = "k_cvs st", OF i])
      (use n in \<open>auto simp: blocked_def split: waddr.splits\<close>)
  with i show ?thesis by (simp add: sem_create_def)
qed

lemma sys_lock_create:
  assumes i: "sys_inv st" and n: "k_locks st l = None"
  shows "sys_inv (snd (lock_create a b l st))"
proof -
  have "sys_inv (st\<lparr>k_locks := (k_locks st)(l \<mapsto> None)\<rparr>)"
    by (rule sys_objects [where S = "k_sems st" and L = "(k_locks st)(l \<mapsto> None)" and C = "k_cvs st", OF i])
      (use n in \<open>auto simp: blocked_def split: waddr.splits\<close>)
  with i show ?thesis by (simp add: lock_create_def)
qed

lemma sys_cv_create:
  assumes i: "sys_inv st"
  shows "sys_inv (snd (cv_create a b c st))"
proof -
  have "sys_inv (st\<lparr>k_cvs := (k_cvs st)(c := True)\<rparr>)"
    by (rule sys_objects [where S = "k_sems st" and L = "k_locks st" and C = "(k_cvs st)(c := True)", OF i])
      (auto simp: blocked_def split: waddr.splits)
  with i show ?thesis by (simp add: cv_create_def)
qed

lemma sys_lock_destroy:
  assumes i: "sys_inv st" and n: "k_locks st l = Some None" and r: "lock_destroy l st = Some st'"
  shows "sys_inv st'"
proof -
  have "sys_inv (st\<lparr>k_locks := (k_locks st)(l := None)\<rparr>)"
    by (rule sys_objects [where S = "k_sems st" and L = "(k_locks st)(l := None)" and C = "k_cvs st", OF i])
      (use n in \<open>auto simp: blocked_def split: waddr.splits\<close>)
  with i r show ?thesis by (auto simp: lock_destroy_def kern_simps)
qed

lemma exit_cv_ofI:
  assumes "pm_inv st" and "k_pids st a = Some b"
  shows "exit_cv_of (exit_cv b) st"
proof -
  have "ptable st ! nat (my_pid b - 1) = Some a" "nat (my_pid b - 1) < length (ptable st)"
    using pm_invD(1) [OF assms(1)] pm_invD(7) [OF assms] by (auto simp: block_ok_def MAX_PIDS_def)
  then have "Some a \<in> set (pid_info_blocks (k_pm st))" by (metis nth_mem)
  then show ?thesis using assms(2) unfolding exit_cv_of_def list_ex_iff by (intro bexI) simp_all
qed

lemma sys_cv_destroy:
  assumes i: "sys_inv st" and n: "\<not> exit_cv_of c st" and r: "cv_destroy c st = Some st'"
  shows "sys_inv st'"
proof -
  have "exit_cv b \<noteq> c" if "k_pids st a = Some b" for a b
    using exit_cv_ofI [OF _ that] i n by (auto simp: sys_inv_def)
  then have "sys_inv (st\<lparr>k_cvs := (k_cvs st)(c := False)\<rparr>)"
    by (intro sys_objects [where S = "k_sems st" and L = "k_locks st" and C = "(k_cvs st)(c := False)", OF i])
      (auto simp: blocked_def split: waddr.splits)
  with r show ?thesis by (auto simp: cv_destroy_def kern_simps)
qed

lemma sys_sem_destroy:
  assumes i: "sys_inv st" and r: "sem_destroy s st = Some st'"
  shows "sys_inv st'"
proof -
  define s1 where "s1 = snd (splx SPL_HIGH st)"
  have i1: "sys_inv s1" unfolding s1_def by (rule sys_inv_splx [OF i])
  from r obtain spl h where h: "thread_hassleepers (WSem s) s1 = Some h" "\<not> h"
    and st': "st' = (snd (splx spl s1))\<lparr>k_sems := (k_sems s1)(s := None)\<rparr>"
    by (auto simp: sem_destroy_def s1_def splhigh_def kern_simps split_def Let_def)
  have l: "inv_lists s1" using i1 by (simp add: sys_inv_def k_inv_def)
  then have "list_all (\<lambda>t. k_threads s1 t \<noteq> None) (sleepers s1)"
    by (auto simp: inv_lists_def live_tids_def list_all_iff)
  with hassleepers_loop_Some [of s1 0 "WSem s"] l h have n: "\<not> sleeping_on s1 (WSem s) t" if "t \<in> set (sleepers s1)" for t
    using that by (auto simp: thread_hassleepers_def inv_lists_def list_ex_iff kern_simps)
  let ?s = "s1\<lparr>k_sems := (k_sems s1)(s := None)\<rparr>"
  have "sys_inv ?s"
    by (rule sys_objects [where S = "(k_sems s1)(s := None)" and L = "k_locks s1" and C = "k_cvs s1", OF i1])
      (use n in \<open>auto simp: blocked_def split: waddr.splits\<close>)
  moreover have "st' = snd (splx spl ?s)"
    by (simp add: st' splx_def interrupts_on_def interrupts_off_def Let_def)
  ultimately show ?thesis using sys_inv_splx by simp
qed

lemma sys_call:
  assumes i: "sys_inv st" and n: "cur_frames st = []" and ok: "call_ok op st" and r: "call km op st = Some st'"
  shows "sys_inv st'"
proof (cases op)
  case (Op_fork name t a cv)
  with r ok sys_thread_fork [OF i] show ?thesis by (auto simp: call_def)
next
  case (Op_wait_pid p)
  with r sys_wait_pid [OF i] show ?thesis by (auto simp: call_def kern_simps)
next
  case Op_exit
  with r show ?thesis by (simp add: call_def sys_thread_exit [OF i n])
qed (use r ok in \<open>auto simp: call_def call_ok_def sys_sem_create [OF i] sys_sem_destroy [OF i] sys_lock_create [OF i]
      sys_lock_destroy [OF i] sys_cv_create [OF i] sys_cv_destroy [OF i] sys_thread_yield [OF i] sys_P [OF i] sys_V [OF i] sys_lock_acquire [OF i]
      sys_lock_release [OF i] sys_cv_wait [OF i] sys_cv_signal [OF i] sys_cv_broadcast [OF i] sys_clocksleep [OF i]\<close>)

lemma kstep_inv: "kstep st st' \<Longrightarrow> sys_inv st \<Longrightarrow> sys_inv st'"
  by (induction rule: kstep.induct)
    (blast intro: resume_inv sys_call sys_timer_interrupt sys_device_interrupt sys_idle_round)+

lemma ksteps_inv: "ksteps st st' \<Longrightarrow> sys_inv st \<Longrightarrow> sys_inv st'"
  by (induction rule: rtranclp_induct) (blast intro: kstep_inv)+

section \<open>Booting\<close>

text \<open>The globals before \<^verbatim>\<open>boot\<close>: zero, with interrupts off; the run queue, the lists and the
  process table are NULL pointers.\<close>

definition null_queue :: "tid queue" where
  "null_queue = \<lparr>q_size = 0, q_nextwrite = 0, q_nextread = 0, q_data = []\<rparr>"

definition null_array :: "tid karray" where
  "null_array = \<lparr>a_num = 0, a_max = 0, a_v = None\<rparr>"

definition start_state :: kernel where
  "start_state =
     \<lparr>k_curspl = SPL_HIGH, k_iec = False, k_inintr = 0, k_curthread = None, k_idle = None,
      k_threads = (\<lambda>_. None), k_runqueue = null_queue, k_sleepers = null_array, k_zombies = null_array,
      k_numthreads = 0, k_lbolt = 0, k_sems = (\<lambda>_. None), k_locks = (\<lambda>_. None), k_cvs = (\<lambda>_. False),
      k_pids = (\<lambda>_. None),
      k_pm = \<lparr>pid_before = None, pid_info_blocks = [], number_of_procs = 0, next_pid = 0, pid_lock = 0\<rparr>,
      k_calls = []\<rparr>"

definition boot :: "mem \<Rightarrow> int \<Rightarrow> nat option \<Rightarrow> nat \<Rightarrow> tid \<Rightarrow> nat \<Rightarrow> nat \<Rightarrow> kernel kern" where
  "boot km nprocs prev lock me block cv =
     do {
       st1 \<leftarrow> scheduler_bootstrap (km 0) (km 1) start_state;
       st2 \<leftarrow> pid_manager_bootstrap (mem_skip 2 km) nprocs prev lock st1;
       thread_bootstrap (mem_skip 5 km) me block cv st2
     }"

lemma boot_steps:
  assumes r: "boot km nprocs prev lock me block cv = Some st"
  shows "\<exists>q sl zs th st1 e. q_inv q \<and> q_list q = [] \<and> a_inv sl \<and> a_list sl = [] \<and> a_inv zs \<and> a_list zs = [] \<and>
    t_pid th = 0 \<and> t_frames th = [] \<and> stack_ok th \<and>
    st1 = start_state\<lparr>k_runqueue := q, k_locks := [lock \<mapsto> None],
      k_pm := \<lparr>pid_before = prev, pid_info_blocks = replicate (nat MAX_PIDS) None, number_of_procs = nprocs,
               next_pid = 1, pid_lock = lock\<rparr>,
      k_sleepers := sl, k_zombies := zs, k_threads := [me \<mapsto> th], k_curthread := Some me, k_numthreads := 1\<rparr> \<and>
    inform_process_add (mem_skip 15 km) me 0 block cv st1 = Some (e, st) \<and>
    (\<exists>x. map_option t_pid (k_threads st me) = Some x \<and> x \<noteq> 0)"
proof -
  from r obtain st1 st2 where s1: "scheduler_bootstrap (km 0) (km 1) start_state = Some st1"
    and s2: "pid_manager_bootstrap (mem_skip 2 km) nprocs prev lock st1 = Some st2"
    and s3: "thread_bootstrap (mem_skip 5 km) me block cv st2 = Some st"
    unfolding boot_def bind_eq_Some by blast
  from s1 obtain q where q: "q_create (km 0) (km 1) 32 = Some q" and e1: "st1 = start_state\<lparr>k_runqueue := q\<rparr>"
    unfolding scheduler_bootstrap_def by (auto split: option.splits)
  have e2: "st2 = st1\<lparr>k_locks := (k_locks st1)(lock \<mapsto> None),
      k_pm := \<lparr>pid_before = prev, pid_info_blocks = replicate (nat MAX_PIDS) None, number_of_procs = nprocs,
               next_pid = 1, pid_lock = lock\<rparr>\<rparr>"
    using s2 by (auto simp: pid_manager_bootstrap_def lock_create_def kern_simps Let_def split: if_splits)
  from s3 obtain sl zs :: "tid karray" and th where sl: "array_create (mem_skip 5 km 0) = Some sl" and zs: "array_create (mem_skip 5 km 1) = Some zs"
    and th: "thread_create (mem_skip 5 km 2) (mem_skip 5 km 3) ''<boot/menu>'' = Some th"
    unfolding thread_bootstrap_def by (auto split: option.splits)
  define s where "s = st2\<lparr>k_sleepers := sl, k_zombies := zs, k_threads := (k_threads st2)(me \<mapsto> th), k_curthread := Some me, k_numthreads := 1\<rparr>"
  from s3 sl zs th obtain e th2 where a: "inform_process_add (mem_skip 10 (mem_skip 5 km)) me 0 block cv s = Some (e, st)"
    "k_threads st me = Some th2" "t_pid th2 \<noteq> 0"
    by (auto simp: thread_bootstrap_def s_def kern_simps Let_def)
  have "mem_skip 10 (mem_skip 5 km) = mem_skip 15 km" by (simp add: mem_skip_def fun_eq_iff add.assoc [symmetric])
  moreover have "s = start_state\<lparr>k_runqueue := q, k_locks := [lock \<mapsto> None],
      k_pm := \<lparr>pid_before = prev, pid_info_blocks = replicate (nat MAX_PIDS) None, number_of_procs = nprocs,
               next_pid = 1, pid_lock = lock\<rparr>,
      k_sleepers := sl, k_zombies := zs, k_threads := [me \<mapsto> th], k_curthread := Some me, k_numthreads := 1\<rparr>"
    unfolding s_def e2 e1 by (simp add: start_state_def)
  moreover have "t_pid th = 0 \<and> t_frames th = [] \<and> stack_ok th"
    using th by (auto simp: thread_create_def stack_ok_def split: if_splits)
  ultimately show ?thesis
    using a q_create_inv [OF _ _ q] array_create_inv [OF sl] array_create_inv [OF zs]
    by (intro exI [of _ q] exI [of _ sl] exI [of _ zs] exI [of _ th] exI [of _ s] exI [of _ e] exI [of _ "t_pid th2"] conjI) simp_all
qed

lemma boot_inv:
  assumes r: "boot km 0 None lock me block cv = Some st"
  shows "sys_inv st \<and> (\<exists>th. k_curthread st = Some me \<and> k_threads st = [me \<mapsto> th] \<and> t_pid th = 1)"
proof -
  obtain q sl zs th st1 e where i: "q_inv q" "q_list q = []" "a_inv sl" "a_list sl = []" "a_inv zs" "a_list zs = []"
    and th: "t_pid th = 0" "t_frames th = []" "stack_ok th"
    and st1: "st1 = start_state\<lparr>k_runqueue := q, k_locks := [lock \<mapsto> None],
      k_pm := \<lparr>pid_before = None, pid_info_blocks = replicate (nat MAX_PIDS) None, number_of_procs = 0,
               next_pid = 1, pid_lock = lock\<rparr>,
      k_sleepers := sl, k_zombies := zs, k_threads := [me \<mapsto> th], k_curthread := Some me, k_numthreads := 1\<rparr>"
    and a: "inform_process_add (mem_skip 15 km) me 0 block cv st1 = Some (e, st)"
    and t2: "\<exists>x. map_option t_pid (k_threads st me) = Some x \<and> x \<noteq> 0"
    using boot_steps [OF r] by blast
  have k1: "k_inv st1"
    using i th by (auto simp: st1 start_state_def k_inv_def inv_lists_def k_struct_def live_tids_def cur_list_def)
  have p1: "pm_inv st1"
    by (rule pm_invI) (simp_all add: st1 start_state_def MAX_PIDS_def used_def)
  have f: "k_threads st1 me = Some th" "k_pids st1 block = None" "\<not> k_cvs st1 cv"
    "k_locks st1 (pid_lock (k_pm st1)) \<noteq> Some (k_curthread st1)"
    by (simp_all add: st1 start_state_def)
  from inform_process_add_cases [OF p1 f a] t2 obtain j c p m where
    ff: "first_free st1 j" and ad: "added st1 j 0 block cv st"
    and st: "st = st1\<lparr>k_threads := (k_threads st1)(me \<mapsto> th\<lparr>t_pid := j\<rparr>), k_cvs := c, k_pids := p, k_pm := m\<rparr>"
    by auto
  have j: "j = 1"
  proof -
    from ff obtain n where n: "n < 100" "j = cyclic_pid 1 n"
      "list_all (\<lambda>l. \<not> is_pid_free (cyclic_pid 1 l) st1) [0..<n]"
      by (auto simp: first_free_def st1 start_state_def)
    have "cyclic_pid 1 0 = 1" by (simp add: cyclic_pid_def MAX_PIDS_def)
    moreover have "is_pid_free 1 st1"
      by (simp add: is_pid_free_def get_pid_block_def st1 start_state_def validate_pid_def MAX_PIDS_def)
    ultimately have "\<not> 0 < n" using n(3) unfolding list_all_iff by (metis atLeastLessThan_iff le0 set_upt)
    then have "n = 0" by simp
    with n show ?thesis by (simp add: cyclic_pid_def)
  qed
  have pm: "pm_inv st" by (rule added_inv [OF p1 ad f(2,3)])
  define s where "s = st1\<lparr>k_threads := (k_threads st1)(me \<mapsto> th\<lparr>t_pid := j\<rparr>)\<rparr>"
  have "k_inv s"
    using i th by (auto simp: s_def st1 start_state_def k_inv_def inv_lists_def k_struct_def live_tids_def cur_list_def stack_ok_def)
  then have "k_inv st" using k_inv_pm [of s] by (simp add: st s_def)
  moreover have "pids_inv st"
  proof (rule pids_invI)
    have l: "set (live_tids st) = {me}" using i by (simp add: st st1 start_state_def live_tids_def cur_list_def)
    obtain nb where nb: "k_pids st block = Some nb" "my_pid nb = j" "\<not> is_exited nb" using ad by (auto simp: added_def)
    have "get_pid_block j st = Some block" using pm_inv_block [OF pm nb(1)] nb(2) by simp
    then have ok: "thread_pid_ok st (th\<lparr>t_pid := j\<rparr>)" using nb th by (auto simp: thread_pid_ok_def pid_ok_def)
    show "thread_pid_ok st tt" if "t \<in> set (live_tids st)" "k_threads st t = Some tt" for t tt
      using ok that l by (simp add: st)
    show "t = t'" if "t \<in> set (live_tids st)" "t' \<in> set (live_tids st)" for t t' using that l by simp
  qed
  ultimately have "sys_inv st" using pm by (simp add: sys_inv_def)
  then show ?thesis
    by (intro conjI exI [of _ "th\<lparr>t_pid := 1\<rparr>"]) (simp_all add: st st1 start_state_def j)
qed

section \<open>Locks\<close>

text \<open>What a step may do to locks: the current thread takes a free one or releases one of its own, or a
  lock is created free or destroyed while free.\<close>

definition lock_step :: "kernel \<Rightarrow> kernel \<Rightarrow> bool" where
  "lock_step st st' \<longleftrightarrow> (\<forall>l. k_locks st' l = k_locks st l \<or>
     k_locks st l = Some None \<and> k_locks st' l = Some (k_curthread st) \<or>
     k_locks st l = Some (k_curthread st) \<and> k_locks st' l = Some None \<or>
     k_locks st l = None \<and> k_locks st' l = Some None \<or> k_locks st l = Some None \<and> k_locks st' l = None)"

lemma lock_step_same: "k_locks st' = k_locks st \<Longrightarrow> lock_step st st'"
  by (simp add: lock_step_def)

lemma lock_step_upd:
  assumes "k_locks st' = (k_locks st)(l := x)" and "k_locks st l = None \<and> x = Some None \<or> k_locks st l = Some None \<and> x = None"
  shows "lock_step st st'"
  unfolding lock_step_def assms(1) using assms(2) by simp

lemma lock_step_rest: "k_rest st' = k_rest st \<Longrightarrow> lock_step st st'"
  by (simp add: lock_step_def k_rest_def)

lemma lock_step_acquires: "acquires l st st' \<Longrightarrow> lock_step st st'"
  by (auto simp: acquires_def lock_step_def split: if_splits)

lemma lock_step_releases: "releases l st st' \<Longrightarrow> lock_step st st'"
  by (auto simp: releases_def lock_step_def split: if_splits)

lemma lock_step_before: "lock_step s st' \<Longrightarrow> k_locks s = k_locks st \<Longrightarrow> k_curthread s = k_curthread st \<Longrightarrow> lock_step st st'"
  by (simp add: lock_step_def)

lemma lock_step_after: "lock_step st s \<Longrightarrow> k_locks st' = k_locks s \<Longrightarrow> lock_step st st'"
  by (simp add: lock_step_def)

lemma lock_step_push: "lock_step s st' \<Longrightarrow> push_frame f st = Some s \<Longrightarrow> lock_step st st'"
  by (erule lock_step_before) (auto simp: push_frame_Some)

lemma lock_step_set_result: "lock_step st s \<Longrightarrow> set_result r s = Some st' \<Longrightarrow> lock_step st st'"
  by (erule lock_step_after) (auto simp: set_result_def upd_cur_Some)

lemma lock_step_lock_acquire: "k_inv st \<Longrightarrow> lock_acquire km l st = Some st' \<Longrightarrow> lock_step st st'"
  using lock_acquire_inv lock_step_acquires by blast

lemma lock_step_wait_status:
  assumes i: "k_inv st" and r: "wait_status km pid st = Some st'"
  shows "lock_step st st'"
proof -
  from r obtain x st1 where l: "lock_release km (pid_lock (k_pm st)) st = Some st1"
    and s: "set_result (EOK, x) st1 = Some st'" unfolding wait_status_def bind_eq_Some by blast
  from lock_release_inv [OF i l] have "lock_step st st1" using lock_step_releases by blast
  then show ?thesis using s by (rule lock_step_set_result)
qed

lemma lock_step_wait_locked:
  assumes i: "k_inv st" and r: "wait_locked km pid st = Some st'"
  shows "lock_step st st'"
proof -
  from r consider "wait_status km pid st = Some st'"
    | cv st1 where "push_frame (F_wait_status pid) st = Some st1" "cv_wait km cv (pid_lock (k_pm st1)) st1 = Some st'"
    by (auto simp: wait_locked_def kern_simps split: if_splits)
  then show ?thesis
  proof cases
    case 1
    with i show ?thesis by (rule lock_step_wait_status)
  next
    case 2
    from cv_wait_inv [OF push_frame_inv [OF i 2(1)] 2(2)] show ?thesis
      using lock_step_push [OF lock_step_releases 2(1)] by blast
  qed
qed

lemma lock_step_wait_acquire:
  assumes i: "k_inv st" and r: "wait_acquire km pid st = Some st'"
  shows "lock_step st st'"
proof -
  from r obtain st1 where p: "push_frame (F_wait_locked pid) st = Some st1"
    and l: "lock_acquire km (pid_lock (k_pm st1)) st1 = Some st'" by (auto simp: wait_acquire_def kern_simps)
  from lock_step_lock_acquire [OF push_frame_inv [OF i p] l] show ?thesis using p by (rule lock_step_push)
qed

lemma lock_step_run_plain:
  assumes i: "k_inv st" and f: "plain_frame f" and r: "run_frame km f st = Some st'"
  shows "lock_step st st'"
proof (cases f)
  case F_sleep
  then show ?thesis using r by (auto simp: run_frame_def upd_cur_Some intro!: lock_step_same)
next
  case (F_intr a b)
  then show ?thesis using r intr_return_ctl [of st a b] by (auto simp: run_frame_def ctl_same_def intro!: lock_step_same)
next
  case (F_P a b)
  then show ?thesis using r P_loop_inv [OF i] by (simp add: run_frame_def lock_step_same)
next
  case (F_lock_acquire a b)
  then show ?thesis using r lock_acquire_loop_inv [OF i] by (simp add: run_frame_def) (blast intro: lock_step_acquires)
next
  case (F_cv_relock a b)
  then show ?thesis using r cv_relock_inv [OF i] by (simp add: run_frame_def) (blast intro: lock_step_acquires)
next
  case (F_clocksleep a b)
  then show ?thesis using r clocksleep_loop_inv [OF i] by (simp add: run_frame_def lock_step_rest)
qed (use r f lock_step_same [of "snd (splx _ st)" st] in \<open>auto simp: run_frame_def plain_frame_def is_exit_locked_def
      lock_step_wait_acquire [OF i] lock_step_wait_locked [OF i] lock_step_wait_status [OF i]\<close>)

lemma lock_step_resume:
  assumes i: "sys_inv st" and r: "resume km st = Some st'"
  shows "lock_step st st'"
proof -
  from r obtain c th f fs where c: "k_curthread st = Some c" and th: "k_threads st c = Some th" "t_frames th = f # fs"
    and f: "run_frame km f (st\<lparr>k_threads := (k_threads st)(c \<mapsto> th\<lparr>t_frames := fs\<rparr>)\<rparr>) = Some st'"
    by (auto simp: resume_def kern_simps neq_Nil_conv split: list.splits)
  consider "plain_frame f" | p s a where "f = F_exit_locked p s a" | "f = F_thread_exit"
    by (cases f) (auto simp: plain_frame_def is_exit_locked_def)
  then show ?thesis
  proof cases
    case 1
    have "k_inv st" using i by (simp add: sys_inv_def)
    from lock_step_run_plain [OF pop_inv [OF this c th(1)] 1 f] show ?thesis by (rule lock_step_before) simp_all
  next
    case 2
    have "k_locks st (pid_lock (k_pm st)) = Some (k_curthread st) \<and> k_locks st' = (k_locks st)(pid_lock (k_pm st) \<mapsto> None)"
      by (rule conjunct2 [OF resume_exit_locked [OF i c th(1)]]) (use 2 th(2) f in \<open>auto simp: run_frame_def\<close>)
    then show ?thesis by (simp add: lock_step_def)
  next
    case 3
    have "k_rest st' = k_rest st"
      by (rule conjunct2 [OF thread_exit_rest_inv [OF i c th(1)]]) (use 3 f in \<open>auto simp: run_frame_def\<close>)
    then show ?thesis by (rule lock_step_rest)
  qed
qed

lemma lock_step_thread_exit:
  assumes i: "sys_inv st" and r: "thread_exit km st = Some st'"
  shows "lock_step st st'"
proof -
  from r obtain p st1 where p: "push_frame F_thread_exit (snd (splx SPL_HIGH st)) = Some st1"
    and x: "inform_process_exit km p 0 st1 = Some st'"
    by (auto simp: thread_exit_def kern_simps)
  have k1: "k_inv st1" by (rule push_frame_inv [OF _ p]) (use i k_inv_splx in \<open>simp add: sys_inv_def\<close>)
  have "lock_step st1 st'"
  proof (cases "get_pid_block p st1")
    case None
    then show ?thesis using x by (simp add: inform_process_exit_def lock_step_same)
  next
    case (Some a)
    then obtain st2 where p2: "push_frame (F_exit_locked p 0 a) st1 = Some st2"
      and l: "lock_acquire km (pid_lock (k_pm st2)) st2 = Some st'"
      using x by (auto simp: inform_process_exit_def kern_simps)
    from lock_step_lock_acquire [OF push_frame_inv [OF k1 p2] l] p2 show ?thesis by (rule lock_step_push)
  qed
  from lock_step_push [OF this p] show ?thesis by (rule lock_step_before) simp_all
qed

lemma lock_step_thread_fork:
  assumes inv: "sys_inv st" and ok: "call_ok (Op_fork name t a cv) st" and c: "k_curthread st = Some c"
    and r: "thread_fork km name t a cv st = Some (e, st')"
  shows "lock_step st st'"
proof (cases "k_threads st c")
  case None
  with r c show ?thesis by (auto simp: thread_fork_def lock_step_same split: option.splits if_splits)
next
  case (Some cth)
  have fresh: "k_threads st t = None" "k_pids st a = None" "\<not> k_cvs st cv"
    and nl: "k_locks st (pid_lock (k_pm st)) \<noteq> Some (k_curthread st)"
    using ok by (simp_all add: call_ok_def)
  from thread_fork_cases [OF inv fresh nl c Some r] have "k_locks st' = k_locks st"
    by (auto simp: ctl_same_def fork_lost_def forked_def)
  then show ?thesis by (rule lock_step_same)
qed

lemma lock_step_call:
  assumes inv: "sys_inv st" and ok: "call_ok op st" and c: "k_curthread st = Some c" and r: "call km op st = Some st'"
  shows "lock_step st st'"
proof -
  have i: "k_inv st" using inv by (simp add: sys_inv_def)
  show ?thesis
  proof (cases op)
    case Op_yield
    then show ?thesis using r thread_yield_inv [OF i] by (simp add: call_def) (blast intro: lock_step_rest)
  next
    case (Op_acquire l)
    then show ?thesis using r by (simp add: call_def lock_step_lock_acquire [OF i])
  next
    case (Op_release l)
    then show ?thesis using r lock_release_inv [OF i] by (simp add: call_def) (blast intro: lock_step_releases)
  next
    case (Op_cv_wait v l)
    then show ?thesis using r cv_wait_inv [OF i] by (simp add: call_def) (blast intro: lock_step_releases)
  next
    case (Op_cv_signal v l)
    then show ?thesis using r cv_signal_inv [OF i] by (simp add: call_def) (blast intro: lock_step_rest)
  next
    case (Op_cv_broadcast v l)
    then show ?thesis using r cv_broadcast_inv [OF i] by (simp add: call_def) (blast intro: lock_step_rest)
  next
    case (Op_clocksleep n)
    then show ?thesis
      using r clocksleep_loop_inv [OF k_inv_splx [OF i], of km n _ _ st']
      by (auto simp: call_def clocksleep_def split_def k_rest_def intro!: lock_step_same)
  next
    case (Op_fork n t a v)
    then show ?thesis using r lock_step_thread_fork [OF inv _ c, of n t a v] ok by (auto simp: call_def)
  next
    case Op_exit
    then show ?thesis using r by (simp add: call_def lock_step_thread_exit [OF inv])
  next
    case (Op_wait_pid p)
    then show ?thesis using r
      by (auto simp: call_def kern_simps wait_pid_def set_result_def upd_cur_Some push_frame_Some intro!: lock_step_same split: if_splits)
  next
    case (Op_lock_create l)
    then have "k_locks st' = k_locks st \<or> k_locks st' = (k_locks st)(l := Some None)" "k_locks st l = None"
      using r ok by (auto simp: call_def call_ok_def lock_create_def)
    then show ?thesis using lock_step_same lock_step_upd by blast
  next
    case (Op_lock_destroy l)
    then show ?thesis using r ok by (auto simp: call_def call_ok_def lock_destroy_def kern_simps intro!: lock_step_upd [of _ _ l None])
  qed (use r P_inv [OF i] V_inv [OF i] in \<open>auto simp: call_def sem_create_def sem_destroy_def cv_create_def cv_destroy_def
      kern_simps split_def Let_def intro!: lock_step_same split: if_splits\<close>)
qed

lemma wakeup_inv:
  assumes i: "k_inv st" and w: "thread_wakeup km a st = Some st'"
  shows "k_inv st' \<and> k_rest st' = k_rest st"
proof -
  have l: "inv_lists st" using i by (simp add: k_inv_def)
  have wk: "woken st a 0 st'" by (rule thread_wakeup_woken [OF l w])
  have "k_inv st'"
    by (rule woken_inv [OF l wk]) (use i in \<open>simp_all add: k_inv_def list_all_iff\<close>)
  then show ?thesis using woken_fields [OF wk] by simp
qed

lemma hardclock_rest:
  assumes i: "k_inv s" and r: "hardclock km s = Some s'"
  shows "k_rest s' = k_rest s"
proof -
  have l: "k_inv (s\<lparr>k_lbolt := x\<rparr>)" for x by (rule k_inv_same [OF i]) simp_all
  from r obtain s2 where y: "thread_yield km s2 = Some s'"
    and "thread_wakeup (mem_skip 1 km) WLbolt (s\<lparr>k_lbolt := 0\<rparr>) = Some s2 \<or> s2 = s\<lparr>k_lbolt := k_lbolt s + 1\<rparr>"
    by (auto simp: hardclock_def kern_simps Let_def split: if_splits)
  then have "k_inv s2 \<and> k_rest s2 = k_rest s"
    using l [of 0] l [of "k_lbolt s + 1"] wakeup_inv by (auto simp: k_rest_def)
  with thread_yield_inv [of s2 km s'] y show ?thesis by simp
qed

lemma kstep_locks:
  assumes k: "kstep st st'" and i: "sys_inv st"
  shows "lock_step st st'"
  using k
proof cases
  case (step_resume km)
  then show ?thesis by (rule lock_step_resume [OF i])
next
  case (step_call op km)
  then show ?thesis using lock_step_call [OF i] by blast
next
  case (step_timer km)
  have e: "k_inv (intr_enter st)" using sys_inv_ctl [OF i intr_enter_ctl] by (simp add: sys_inv_def)
  note h = hardclock_rest [where km = km]
  show ?thesis
  proof (cases "k_curthread st")
    case None
    with step_timer obtain st1 where "hardclock km (intr_enter st) = Some st1" "st' = intr_return (k_inintr st) (k_curspl st) st1"
      by (auto simp: timer_interrupt_def kern_simps)
    with h [OF e] have "k_locks st' = k_locks st"
      by (auto simp: intr_return_def intr_enter_def k_rest_def)
    then show ?thesis by (rule lock_step_same)
  next
    case (Some c)
    with step_timer obtain st1 where p: "push_frame (F_intr (k_inintr st) (k_curspl st)) (intr_enter st) = Some st1"
      and "hardclock km st1 = Some st'"
      by (auto simp: timer_interrupt_def kern_simps)
    with h [OF push_frame_inv [OF e p]] push_frame_rest [OF p] have "k_rest st' = k_rest st"
      by (simp add: intr_enter_def k_rest_def)
    then show ?thesis by (rule lock_step_rest)
  qed
next
  case (step_device km sem)
  have e: "k_inv (intr_enter st)" using sys_inv_ctl [OF i intr_enter_ctl] by (simp add: sys_inv_def)
  from step_device obtain st1 where "V km sem (intr_enter st) = Some st1" "st' = intr_return (k_inintr st) (k_curspl st) st1"
    by (auto simp: device_interrupt_def kern_simps)
  with V_inv [OF e] show ?thesis by (auto simp: intr_return_def intr_enter_def intro!: lock_step_same)
next
  case step_idle
  then obtain c where c: "k_idle st = Some c" and l: "scheduler_loop c st = Some st'"
    by (auto simp: idle_round_def kern_simps)
  have k: "k_inv st" using i by (simp add: sys_inv_def)
  then have n: "k_curthread st = None" using c by (simp add: k_inv_def inv_lists_def)
  have "st\<lparr>k_idle := Some c\<rparr> = st" using c by (cases st) simp
  with scheduler_loop_inv [OF _ n l] k show ?thesis by (simp add: switch_frame_def lock_step_rest)
qed

end
