(* ===== verification/Kernel.thy ===== *)
theory Kernel
  imports Process
begin

text \<open>
  What the thread system guarantees in every state the kernel can reach after \<^verbatim>\<open>boot\<close>, and what its
  operations do: the properties of \<open>Threads\<close>, \<open>Synch\<close>, \<open>Pid_Manager\<close> and \<open>Process\<close> taken together.
  \<open>krun\<close> drives the transition system through a given sequence of calls; the examples use it.
\<close>

section \<open>Runs\<close>

definition plenty :: mem where
  "plenty = (\<lambda>_. True)"

text \<open>\<open>None\<close>: the current thread goes on with what it was doing; \<open>Some op\<close>: it calls \<open>op\<close>.\<close>

fun krun :: "kop option list \<Rightarrow> kernel \<Rightarrow> kernel kern" where
  "krun [] st = Some st"
| "krun (None # es) st = do { st' \<leftarrow> resume plenty st; krun es st' }"
| "krun (Some op # es) st =
     (if k_curthread st \<noteq> None \<and> cur_frames st = [] \<and> call_ok op st
      then do { st' \<leftarrow> call plenty op st; krun es st' } else None)"

lemma krun_ksteps: "krun es st = Some st' \<Longrightarrow> ksteps st st'"
proof (induction es st rule: krun.induct)
  case (2 es st)
  then obtain s where s: "resume plenty st = Some s" "krun es s = Some st'" by (auto simp: kern_simps)
  from step_resume [OF s(1)] 2(1) [OF s] show ?case by (rule converse_rtranclp_into_rtranclp)
next
  case (3 op es st)
  then obtain s where s: "call plenty op st = Some s" "krun es s = Some st'"
    and ok: "k_curthread st \<noteq> None \<and> cur_frames st = [] \<and> call_ok op st"
    by (auto simp: kern_simps split: if_splits)
  have "kstep st s" using step_call ok s(1) by blast
  then show ?case using 3(1) [OF ok s] by (rule converse_rtranclp_into_rtranclp)
qed simp

definition booted :: "kernel kern" where
  "booted = boot plenty 0 None 7 1 2 3"

lemma run_exists: "Q (the (do { st \<leftarrow> m; f st })) \<Longrightarrow> \<not> Option.is_none (do { st \<leftarrow> m; f st }) \<Longrightarrow>
    \<exists>st0 st. m = Some st0 \<and> f st0 = Some st \<and> Q st"
  by (cases m) (auto simp: Option.is_none_def)

text \<open>The first thread creates a second one and yields to it.\<close>

definition demo :: "kop option list" where
  "demo = [Some (Op_fork ''child'' 2 3 4), Some Op_yield]"

lemma demo_runs: "\<exists>st0 st. booted = Some st0 \<and> krun demo st0 = Some st \<and> live_tids st = [2, 1] \<and> zombies st = []"
  by (rule run_exists; code_simp)

section \<open>Every reachable state\<close>

lemma reachable_inv: "boot km 0 None lock me block cv = Some st0 \<Longrightarrow> ksteps st0 st \<Longrightarrow> sys_inv st"
  using ksteps_inv boot_inv by blast

text \<open>C1. In every state the kernel can reach, each thread structure is on exactly one of the CPU, the run
  queue, the sleepers list and the zombies list, nothing else is on them, \<^verbatim>\<open>numthreads\<close> counts the
  threads that have not exited, and the CPU idles exactly when no thread is current.\<close>

theorem threads_on_one_list:
  assumes "boot km 0 None lock me block cv = Some st0" and "ksteps st0 st"
  shows "distinct (live_tids st @ zombies st) \<and> set (live_tids st @ zombies st) = dom (k_threads st) \<and>
    k_numthreads st = int (length (live_tids st)) \<and> (k_curthread st = None \<longleftrightarrow> k_idle st \<noteq> None)"
  using reachable_inv [OF assms] by (simp add: sys_inv_def k_inv_def inv_lists_def)

theorem threads_on_one_list_witness:
  "\<exists>st0 st. booted = Some st0 \<and> ksteps st0 st \<and> live_tids st = [2, 1] \<and> dom (k_threads st) = {1, 2} \<and> k_numthreads st = 2"
proof -
  obtain st0 st where d: "booted = Some st0" "krun demo st0 = Some st" "live_tids st = [2, 1]" "zombies st = []"
    using demo_runs by blast
  have k: "ksteps st0 st" by (rule krun_ksteps [OF d(2)])
  from threads_on_one_list [OF d(1) [unfolded booted_def] k] d k show ?thesis by auto
qed

text \<open>C2. In every state the kernel can reach, whatever semaphores and locks the threads have created and
  destroyed, a thread on the sleepers list sleeps on some address; if that is a semaphore, it exists and its
  count is zero, and if it is a lock, it exists and some thread holds it. So no thread is left asleep on a
  semaphore or a lock that is available. \<^verbatim>\<open>boot\<close> starts with \<^verbatim>\<open>number_of_procs\<close> zero and a NULL word
  in front of the process table.\<close>

theorem no_lost_wakeup:
  assumes "boot km 0 None lock me block cv = Some st0" and "ksteps st0 st" and "t \<in> set (sleepers st)"
  shows "\<exists>th a. k_threads st t = Some th \<and> t_sleepaddr th = Some a \<and>
    (case a of WSem s \<Rightarrow> k_sems st s = Some 0 | WLock l \<Rightarrow> (\<exists>owner. k_locks st l = Some (Some owner)) | _ \<Rightarrow> True)"
  using reachable_inv [OF assms(1,2)] assms(3)
  by (auto simp: sys_inv_def k_inv_def list_all_iff sleeper_ok_def blocked_def)

text \<open>The first thread creates a second one and waits for it to exit.\<close>

definition waiting :: "kop option list" where
  "waiting = [Some (Op_fork ''child'' 2 3 4), Some (Op_wait_pid 2), None, None]"

lemma waiting_runs:
  "\<exists>st0 st. booted = Some st0 \<and> krun waiting st0 = Some st \<and> sleepers st = [1] \<and> k_curthread st = Some 2"
  by (rule run_exists; code_simp)

text \<open>The first thread creates a semaphore and a lock, takes the lock, creates a second thread and blocks on
  the semaphore; the second thread blocks on the lock.\<close>

definition blocking :: "kop option list" where
  "blocking = [Some (Op_sem_create 9 0), Some (Op_lock_create 8), Some (Op_acquire 8), Some (Op_fork ''child'' 2 3 4),
     Some (Op_P 9), Some (Op_acquire 8)]"

lemma blocking_runs:
  "\<exists>st0 st. booted = Some st0 \<and> krun blocking st0 = Some st \<and>
     (sleepers st = [1, 2] \<and> map_option t_sleepaddr (k_threads st 1) = Some (Some (WSem 9)) \<and>
      map_option t_sleepaddr (k_threads st 2) = Some (Some (WLock 8)))"
  by (rule run_exists; code_simp)

theorem no_lost_wakeup_witness:
  "\<exists>st0 st owner. booted = Some st0 \<and> ksteps st0 st \<and> sleepers st = [1, 2] \<and>
     map_option t_sleepaddr (k_threads st 1) = Some (Some (WSem 9)) \<and> k_sems st 9 = Some 0 \<and>
     map_option t_sleepaddr (k_threads st 2) = Some (Some (WLock 8)) \<and> k_locks st 8 = Some (Some owner)"
proof -
  obtain st0 st where d: "booted = Some st0" "krun blocking st0 = Some st" "sleepers st = [1, 2]"
    and a: "map_option t_sleepaddr (k_threads st 1) = Some (Some (WSem 9))"
      "map_option t_sleepaddr (k_threads st 2) = Some (Some (WLock 8))"
    using blocking_runs by blast
  have k: "ksteps st0 st" by (rule krun_ksteps [OF d(2)])
  note w = no_lost_wakeup [OF d(1) [unfolded booted_def] k]
  from w [of 1] w [of 2] a d(3) have "k_sems st 9 = Some 0" "\<exists>owner. k_locks st 8 = Some (Some owner)" by auto
  with d k a show ?thesis by blast
qed

text \<open>C3. Mutual exclusion: a lock that is held stays with its holder until the holder itself releases
  it, and it is free then; no step passes a lock from one thread to another.\<close>

theorem lock_mutual_exclusion:
  assumes "boot km 0 None lock me block cv = Some st0" and "ksteps st0 st" and "kstep st st'"
    and "k_locks st l = Some (Some owner)"
  shows "k_locks st' l = Some (Some owner) \<or> k_locks st' l = Some None \<and> k_curthread st = Some owner"
  using kstep_locks [OF assms(3) reachable_inv [OF assms(1,2)]] assms(4)
  unfolding lock_step_def by (metis option.inject option.discI)

text \<open>The first thread exits: it holds the lock of the process table from the call of
  \<^verbatim>\<open>inform_process_exit\<close> until that returns.\<close>

lemma exit_runs:
  "\<exists>st0 st. booted = Some st0 \<and> krun [Some Op_exit] st0 = Some st \<and>
     (k_locks st 7 = Some (Some 1) \<and> map_option (\<lambda>st'. k_locks st' 7) (resume plenty st) = Some (Some None))"
  by (rule run_exists; code_simp)

theorem lock_mutual_exclusion_witness:
  "\<exists>st0 st st'. booted = Some st0 \<and> ksteps st0 st \<and> kstep st st' \<and> k_locks st 7 = Some (Some 1) \<and>
     k_locks st' 7 = Some None \<and> k_curthread st = Some 1"
proof -
  obtain st0 st where d: "booted = Some st0" "krun [Some Op_exit] st0 = Some st" "k_locks st 7 = Some (Some 1)"
    and m: "map_option (\<lambda>st'. k_locks st' 7) (resume plenty st) = Some (Some None)"
    using exit_runs by blast
  from m obtain st' where r: "resume plenty st = Some st'" and l: "k_locks st' 7 = Some None" by auto
  have k: "ksteps st0 st" by (rule krun_ksteps [OF d(2)])
  have s: "kstep st st'" by (rule step_resume [OF r])
  from lock_mutual_exclusion [OF d(1) [unfolded booted_def] k s d(3)] l d k s show ?thesis by auto
qed

text \<open>C4. In every reachable state the threads that have not reported their exit have pids between 1
  and \<^verbatim>\<open>MAX_PIDS\<close>, no two of them the same, and each pid has a block in the process table that says
  the process has not exited.\<close>

theorem live_pids_distinct:
  assumes "boot km 0 None lock me block cv = Some st0" and "ksteps st0 st"
    and "t \<in> set (live_tids st)" and "k_threads st t = Some th" and "\<not> exiting th"
  shows "1 \<le> t_pid th \<and> t_pid th \<le> MAX_PIDS \<and>
    (\<exists>a b. get_pid_block (t_pid th) st = Some a \<and> k_pids st a = Some b \<and> my_pid b = t_pid th \<and> \<not> is_exited b) \<and>
    (\<forall>t' th'. t' \<in> set (live_tids st) \<and> k_threads st t' = Some th' \<and> \<not> exiting th' \<and> t_pid th' = t_pid th \<longrightarrow> t' = t)"
proof -
  have i: "pm_inv st" "pids_inv st" using reachable_inv [OF assms(1,2)] by (simp_all add: sys_inv_def)
  from pids_invD(1) [OF i(2) assms(3,4)] assms(5) obtain a b where
    ab: "get_pid_block (t_pid th) st = Some a" "k_pids st a = Some b" "\<not> is_exited b"
    by (auto simp: thread_pid_ok_def pid_ok_def)
  from get_pid_block_Some [OF i(1) ab(1)] ab pids_invD(2) [OF i(2) _ assms(3) _ assms(4) _ assms(5)] show ?thesis by auto
qed

lemma demo_pids:
  "\<exists>st0 st. booted = Some st0 \<and> krun demo st0 = Some st \<and>
     (live_tids st = [2, 1] \<and> map_option t_pid (k_threads st 2) = Some 2 \<and> map_option t_frames (k_threads st 2) = Some [])"
  by (rule run_exists; code_simp)

theorem live_pids_distinct_witness:
  "\<exists>st0 st th a b. booted = Some st0 \<and> ksteps st0 st \<and> k_threads st 2 = Some th \<and> t_pid th = 2 \<and>
     get_pid_block 2 st = Some a \<and> k_pids st a = Some b \<and> my_pid b = 2 \<and> \<not> is_exited b"
proof -
  obtain st0 st where d: "booted = Some st0" "krun demo st0 = Some st" and l: "live_tids st = [2, 1]"
    and m: "map_option t_pid (k_threads st 2) = Some 2" "map_option t_frames (k_threads st 2) = Some []"
    using demo_pids by blast
  from m obtain th where th: "k_threads st 2 = Some th" "t_pid th = 2" "t_frames th = []" by auto
  have k: "ksteps st0 st" by (rule krun_ksteps [OF d(2)])
  have "\<not> exiting th" using th(3) by (simp add: exiting_def)
  from live_pids_distinct [OF d(1) [unfolded booted_def] k _ th(1) this] l th d k show ?thesis by auto
qed

section \<open>Operations\<close>

text \<open>C5. \<^verbatim>\<open>thread_fork\<close> either changes nothing and returns \<^verbatim>\<open>EAGAIN\<close> or \<^verbatim>\<open>ENOMEM\<close>; or fails after
  the new process has been registered, and then the pid stays allocated although no thread exists; or
  succeeds, and then the new thread is at the tail of the run queue with the first free pid after the
  one given out last, registered as a child of the caller.\<close>

theorem thread_fork_outcomes:
  assumes "sys_inv st" and "call_ok (Op_fork name t a cv) st"
    and "k_curthread st = Some c" and "k_threads st c = Some cth" and "thread_fork km name t a cv st = Some (e, st')"
  shows "e \<in> {EAGAIN, ENOMEM} \<and> ctl_same st st' \<or>
    e \<noteq> EOK \<and> (\<exists>i. fork_lost t (t_pid cth) a cv i st st') \<or>
    e = EOK \<and> (\<exists>i. forked name t (t_pid cth) a cv i st st')"
  by (rule thread_fork_cases [OF assms(1) _ _ _ _ assms(3-5)]) (use assms(2) in \<open>simp_all add: call_ok_def\<close>)

lemma fork_runs:
  "\<exists>st0 x. booted = Some st0 \<and> thread_fork plenty ''child'' 2 3 4 st0 = Some x \<and> (fst x = EOK \<and> runq (snd x) = [2])"
  by (rule run_exists; code_simp)

theorem thread_fork_outcomes_witness:
  "\<exists>st0 st i. booted = Some st0 \<and> thread_fork plenty ''child'' 2 3 4 st0 = Some (EOK, st) \<and>
     forked ''child'' 2 1 3 4 i st0 st \<and> runq st = [2]"
proof -
  obtain st0 x where d: "booted = Some st0" "thread_fork plenty ''child'' 2 3 4 st0 = Some x" "fst x = EOK" "runq (snd x) = [2]"
    using fork_runs by blast
  obtain th where i: "sys_inv st0" and th: "k_curthread st0 = Some 1" "k_threads st0 = [1 \<mapsto> th]" "t_pid th = 1"
    using boot_inv [OF d(1) [unfolded booted_def]] by auto
  have "\<exists>st0 st. booted = Some st0 \<and> Some st0 = Some st \<and> (call_ok (Op_fork ''child'' 2 3 4) st)"
    by (rule run_exists; code_simp)
  then have ok: "call_ok (Op_fork ''child'' 2 3 4) st0" using d(1) by (metis option.inject)
  have r: "thread_fork plenty ''child'' 2 3 4 st0 = Some (EOK, snd x)" using d(2,3) by (cases x) simp
  from thread_fork_outcomes [OF i ok th(1) _ r, of th] th obtain j where "forked ''child'' 2 1 3 4 j st0 (snd x)" by auto
  then show ?thesis using d r by blast
qed

text \<open>C6. The search for a free pid always ends. It gives the first free pid in the cyclic order that
  starts at \<^verbatim>\<open>next_pid\<close>, or -1 when all of them are taken.\<close>

theorem scan_free_first:
  assumes "pm_inv st"
  shows "\<exists>i. scan_free st = Some i \<and>
    (if \<exists>p. 1 \<le> p \<and> p \<le> MAX_PIDS \<and> is_pid_free p st then 1 \<le> i \<and> i \<le> MAX_PIDS \<and> first_free st i else i = - 1)"
proof (cases "number_of_procs (k_pm st) = MAX_PIDS")
  case False
  from pm_inv_free_slot [OF assms this] obtain i where
    "scan_free st = Some i" "1 \<le> i" "i \<le> MAX_PIDS" "first_free st i" by blast
  moreover from this have "is_pid_free i st" by (simp add: first_free_def)
  ultimately show ?thesis by auto
next
  case True
  have "\<not> is_pid_free p st" if "1 \<le> p" "p \<le> MAX_PIDS" for p
  proof
    assume "is_pid_free p st"
    then have "ptable st ! nat (p - 1) = None" using that by (simp add: is_pid_free_def get_pid_block_table)
    moreover have "nat (p - 1) < length (ptable st)" using that pm_invD(1) [OF assms] by (simp add: MAX_PIDS_def)
    ultimately have "None \<in> set (ptable st)" by (metis nth_mem)
    then have "used (ptable st) < length (ptable st)" unfolding used_def by (rule length_filter_less) simp
    then show False using True pm_invD(1,5) [OF assms] by (simp add: MAX_PIDS_def)
  qed
  then show ?thesis using True by (auto simp: scan_free_def)
qed

theorem scan_free_first_witness:
  "\<exists>st0. booted = Some st0 \<and> scan_free st0 = Some 2 \<and> first_free st0 2"
proof -
  have "\<exists>st0 i. booted = Some st0 \<and> scan_free st0 = Some i \<and> (i = 2)"
    by (rule run_exists; code_simp)
  then obtain st0 where d: "booted = Some st0" "scan_free st0 = Some 2" by blast
  have "pm_inv st0" using boot_inv [OF d(1) [unfolded booted_def]] by (simp add: sys_inv_def)
  from scan_free_first [OF this] d show ?thesis by (auto split: if_splits)
qed

text \<open>C7. \<^verbatim>\<open>thread_wakeup\<close> moves exactly the threads that sleep on the address to the tail of the run
  queue, in the order they went to sleep, and leaves all others asleep in their order; it does not
  panic when the run queue has room for the sleepers.\<close>

theorem thread_wakeup_exact:
  assumes "inv_lists st" and "k_curspl st > 0" and "wake_room st"
  shows "\<exists>st'. thread_wakeup km a st = Some st' \<and> k_threads st' = k_threads st \<and> k_curthread st' = k_curthread st \<and>
    runq st' = runq st @ filter (sleeping_on st a) (sleepers st) \<and>
    sleepers st' = filter (\<lambda>t. \<not> sleeping_on st a t) (sleepers st)"
proof -
  obtain st' where w: "thread_wakeup km a st = Some st'" using thread_wakeup_total [OF assms(1,3,2)] by blast
  from thread_wakeup_woken [OF assms(1) w] w show ?thesis by (auto simp: woken_def)
qed

theorem thread_wakeup_exact_witness:
  "\<exists>st0 st st'. booted = Some st0 \<and> krun waiting st0 = Some st \<and>
     thread_wakeup plenty (WCv 4) (snd (splx SPL_HIGH st)) = Some st' \<and>
     runq st = [] \<and> sleepers st = [1] \<and> runq st' = [1] \<and> sleepers st' = []"
proof -
  have "\<exists>st0 st. booted = Some st0 \<and> krun waiting st0 = Some st \<and>
      (runq st = [] \<and> sleepers st = [1] \<and> map_option t_sleepaddr (k_threads st 1) = Some (Some (WCv 4)) \<and>
       q_size (k_runqueue st) = 32)"
    by (rule run_exists; code_simp)
  then obtain st0 st where d: "booted = Some st0" "krun waiting st0 = Some st" "runq st = []" "sleepers st = [1]"
    and a: "map_option t_sleepaddr (k_threads st 1) = Some (Some (WCv 4))" "q_size (k_runqueue st) = 32" by blast
  let ?s = "snd (splx SPL_HIGH st)"
  have "sys_inv st" using reachable_inv [OF d(1) [unfolded booted_def] krun_ksteps [OF d(2)]] .
  then have "inv_lists st" by (simp add: sys_inv_def k_inv_def)
  then have i: "inv_lists ?s" by (rule inv_lists_same) simp_all
  have w: "wake_room ?s" using d a by (simp add: wake_room_def q_cap_def)
  have p: "k_curspl ?s > 0" by (simp add: SPL_HIGH_def)
  have "sleeping_on ?s (WCv 4) 1" using a(1) by (auto simp: sleeping_on_def)
  with thread_wakeup_exact [OF i p w, of plenty "WCv 4"] d(3,4) obtain st' where
    "thread_wakeup plenty (WCv 4) ?s = Some st'" "runq st' = [1]" "sleepers st' = []" by auto
  with d show ?thesis by blast
qed

text \<open>C8. Under the table lock, with room in the run queue for everybody who waits, the exit of a
  process with a pid of at least 2 always completes: it touches no freed block, and the block of the
  process is marked as exited with its status or has been freed.\<close>

theorem exit_locked_completes:
  assumes inv: "k_inv st" "pm_inv st" and b: "k_pids st block = Some b" "\<not> is_exited b" "2 \<le> my_pid b"
    and l: "k_locks st (pid_lock (k_pm st)) = Some (k_curthread st)" "k_inintr st = 0" and room: "wake_room st"
  shows "\<exists>st'. exit_locked km (my_pid b) status block st = Some st' \<and>
    k_pids st' block \<in> {None, Some (b\<lparr>is_exited := True, exit_status := status\<rparr>)}"
proof -
  have cv: "k_cvs st (exit_cv b)" using pm_invD(7) [OF inv(2) b(1)] by (simp add: block_ok_def)
  have il: "inv_lists st" using inv(1) by (simp add: k_inv_def)
  obtain st1 where st1: "cv_broadcast km (exit_cv b) (pid_lock (k_pm st)) st = Some st1" "wake_room st1" "inv_lists st1"
    using cv_broadcast_total [OF il room cv l, where km = km] by (elim exE conjE)
  note c = cv_broadcast_inv [OF inv(1) st1(1)]
  have p1: "pm_inv st1" "k_pids st1 block = Some b"
    using inv(2) b(1) c pm_inv_rest [of st1 st] by (simp_all add: k_rest_def)
  from exit_body_total [OF p1 b(2,3), of status] obtain st4 where st4: "exit_body (my_pid b) status block st1 = Some st4"
    "k_pids st4 block \<in> {None, Some (b\<lparr>is_exited := True, exit_status := status\<rparr>)}" by blast
  from exit_body_inv [OF p1(1) pm_inv_block [OF p1] st4(1)] obtain cvs p m where
    e4: "st4 = st1\<lparr>k_cvs := cvs, k_pids := p, k_pm := m\<rparr>" "pid_lock m = pid_lock (k_pm st1)" by blast
  have "inv_lists st4" by (rule inv_lists_same [OF st1(3)]) (simp_all add: e4)
  moreover have "wake_room st4" using st1(2) by (simp add: wake_room_def e4)
  moreover have "k_locks st4 (pid_lock (k_pm st4)) = Some (k_curthread st4)" "k_inintr st4 = 0"
    using c l by (simp_all add: e4 k_rest_def)
  ultimately obtain st' where r: "lock_release (mem_skip 1 km) (pid_lock (k_pm st4)) st4 = Some st'"
    using lock_release_total [where km = "mem_skip 1 km"] by blast
  have k4: "k_inv st4" using c k_inv_pm by (simp add: e4(1))
  have "k_pids st' = k_pids st4" using lock_release_inv [OF k4 r] by (simp add: releases_def pm_same_def)
  moreover have "pm_inv st4" using exit_body_inv [OF p1(1) pm_inv_block [OF p1] st4(1)] by simp
  then have "0 \<le> number_of_procs (k_pm st4)" using pm_invD(5) [of st4] by simp
  then have "exit_locked km (my_pid b) status block st = Some st'"
    using b(1) st1(1) st4(1) r by (simp add: exit_locked_body)
  ultimately show ?thesis using st4(2) by auto
qed


text \<open>A second process, created by the first one, exits.\<close>

theorem exit_locked_completes_witness:
  "\<exists>st0 st b st'. booted = Some st0 \<and> krun (demo @ [Some Op_exit]) st0 = Some st \<and> k_pids st 3 = Some b \<and> my_pid b = 2 \<and>
     exit_locked plenty 2 0 3 st = Some st' \<and> k_pids st' 3 \<in> {None, Some (b\<lparr>is_exited := True, exit_status := 0\<rparr>)}"
proof -
  have "\<exists>st0 st. booted = Some st0 \<and> krun (demo @ [Some Op_exit]) st0 = Some st \<and>
      (map_option (\<lambda>b. (my_pid b, is_exited b)) (k_pids st 3) = Some (2, False) \<and>
       k_locks st (pid_lock (k_pm st)) = Some (k_curthread st) \<and> k_inintr st = 0 \<and> wake_room st)"
    by (rule run_exists; code_simp)
  then obtain st0 st where d: "booted = Some st0" "krun (demo @ [Some Op_exit]) st0 = Some st"
    and m: "map_option (\<lambda>b. (my_pid b, is_exited b)) (k_pids st 3) = Some (2, False)"
    and l: "k_locks st (pid_lock (k_pm st)) = Some (k_curthread st)" "k_inintr st = 0" "wake_room st" by blast
  from m obtain b where b: "k_pids st 3 = Some b" "my_pid b = 2" "\<not> is_exited b" by auto
  have "sys_inv st" using reachable_inv [OF d(1) [unfolded booted_def] krun_ksteps [OF d(2)]] .
  then have i: "k_inv st" "pm_inv st" by (simp_all add: sys_inv_def)
  have "2 \<le> my_pid b" using b by simp
  from exit_locked_completes [OF i b(1,3) this l, of plenty 0] b d show ?thesis by auto
qed

section \<open>The first process\<close>



end
