(* ===== verification/Sfs_Layout.thy ===== *)
theory Sfs_Layout
  imports Prelude
begin

text \<open>
  \<^verbatim>\<open>src/src/kern/include/kern/sfs.h\<close>: the on-disk structures of SFS.

  The kernel reads and writes these structures as they lie in memory. The machine is big-endian and
  none of them has padding, so a structure is the concatenation of its fields, most significant byte
  first. The \<open>enc_\<close> functions give the bytes of a structure and the \<open>dec_\<close> functions the structure in
  a run of bytes; each pair is a bijection between well-formed structures and blocks of the right
  size. Character arrays are byte lists; \<open>cstr\<close> is the C string an array starts with.
\<close>

section \<open>Constants\<close>

definition SFS_MAGIC :: u32 where "SFS_MAGIC = 0xabadf001"
definition SFS_BLOCKSIZE :: nat where "SFS_BLOCKSIZE = 512"
definition SFS_VOLNAME_SIZE :: nat where "SFS_VOLNAME_SIZE = 32"
definition SFS_NDIRECT :: nat where "SFS_NDIRECT = 15"
definition SFS_DBPERIDB :: nat where "SFS_DBPERIDB = 128"
definition SFS_NAMELEN :: nat where "SFS_NAMELEN = 60"
definition SFS_SB_LOCATION :: u32 where "SFS_SB_LOCATION = 0"
definition SFS_ROOT_LOCATION :: u32 where "SFS_ROOT_LOCATION = 1"
definition SFS_MAP_LOCATION :: u32 where "SFS_MAP_LOCATION = 2"
definition SFS_NOINO :: u32 where "SFS_NOINO = 0"
definition SFS_TYPE_INVAL :: u16 where "SFS_TYPE_INVAL = 0"
definition SFS_TYPE_FILE :: u16 where "SFS_TYPE_FILE = 1"
definition SFS_TYPE_DIR :: u16 where "SFS_TYPE_DIR = 2"

lemmas sfs_consts = SFS_BLOCKSIZE_def SFS_VOLNAME_SIZE_def SFS_NDIRECT_def SFS_DBPERIDB_def SFS_NAMELEN_def
  SFS_SB_LOCATION_def SFS_ROOT_LOCATION_def SFS_MAP_LOCATION_def SFS_NOINO_def

definition SFS_BLOCKBITS :: u32 where
  "SFS_BLOCKBITS = of_nat SFS_BLOCKSIZE * 8"

definition SFS_ROUNDUP :: "u32 \<Rightarrow> u32 \<Rightarrow> u32" where
  "SFS_ROUNDUP a b = (a + b - 1) div b * b"

definition SFS_BITMAPSIZE :: "u32 \<Rightarrow> u32" where
  "SFS_BITMAPSIZE nblocks = SFS_ROUNDUP nblocks SFS_BLOCKBITS"

definition SFS_BITBLOCKS :: "u32 \<Rightarrow> u32" where
  "SFS_BITBLOCKS nblocks = SFS_BITMAPSIZE nblocks div SFS_BLOCKBITS"

section \<open>Structures\<close>

record sfs_super =
  sp_magic :: u32
  sp_nblocks :: u32
  sp_volname :: "u8 list"
  sp_reserved :: "u32 list"

record sfs_inode =
  sfi_size :: u32
  sfi_type :: u16
  sfi_linkcount :: u16
  sfi_direct :: "u32 list"
  sfi_indirect :: u32
  sfi_waste :: "u32 list"

record sfs_dir =
  sfd_ino :: u32
  sfd_name :: "u8 list"

section \<open>Bytes\<close>

definition be16 :: "u16 \<Rightarrow> u8 list" where
  "be16 w = [ucast (drop_bit 8 w), ucast w]"

definition be32 :: "u32 \<Rightarrow> u8 list" where
  "be32 w = [ucast (drop_bit 24 w), ucast (drop_bit 16 w), ucast (drop_bit 8 w), ucast w]"

fun un16 :: "u8 list \<Rightarrow> u16" where
  "un16 (a # b # _) = push_bit 8 (ucast a) OR ucast b"
| "un16 _ = 0"

fun un32 :: "u8 list \<Rightarrow> u32" where
  "un32 (a # b # c # d # _) = push_bit 24 (ucast a) OR push_bit 16 (ucast b) OR push_bit 8 (ucast c) OR ucast d"
| "un32 _ = 0"

fun words_of :: "u8 list \<Rightarrow> u32 list" where
  "words_of (a # b # c # d # bs) = un32 [a, b, c, d] # words_of bs"
| "words_of _ = []"

definition bytes_of :: "u32 list \<Rightarrow> u8 list" where
  "bytes_of ws = concat (map be32 ws)"

definition cstr :: "u8 list \<Rightarrow> u8 list" where
  "cstr bs = takeWhile (\<lambda>c. c \<noteq> 0) bs"

definition enc_super :: "sfs_super \<Rightarrow> u8 list" where
  "enc_super s = be32 (sp_magic s) @ be32 (sp_nblocks s) @ sp_volname s @ bytes_of (sp_reserved s)"

definition dec_super :: "u8 list \<Rightarrow> sfs_super" where
  "dec_super bs = \<lparr>sp_magic = un32 bs, sp_nblocks = un32 (drop 4 bs), sp_volname = take 32 (drop 8 bs),
     sp_reserved = words_of (drop 40 bs)\<rparr>"

definition enc_inode :: "sfs_inode \<Rightarrow> u8 list" where
  "enc_inode i = be32 (sfi_size i) @ be16 (sfi_type i) @ be16 (sfi_linkcount i) @ bytes_of (sfi_direct i) @
     be32 (sfi_indirect i) @ bytes_of (sfi_waste i)"

definition dec_inode :: "u8 list \<Rightarrow> sfs_inode" where
  "dec_inode bs = \<lparr>sfi_size = un32 bs, sfi_type = un16 (drop 4 bs), sfi_linkcount = un16 (drop 6 bs),
     sfi_direct = words_of (take 60 (drop 8 bs)), sfi_indirect = un32 (drop 68 bs), sfi_waste = words_of (drop 72 bs)\<rparr>"

definition enc_dir :: "sfs_dir \<Rightarrow> u8 list" where
  "enc_dir d = be32 (sfd_ino d) @ sfd_name d"

definition dec_dir :: "u8 list \<Rightarrow> sfs_dir" where
  "dec_dir bs = \<lparr>sfd_ino = un32 bs, sfd_name = drop 4 bs\<rparr>"

section \<open>Round trips\<close>

lemma length_be16 [simp]: "length (be16 w) = 2"
  by (simp add: be16_def)

lemma length_be32 [simp]: "length (be32 w) = 4"
  by (simp add: be32_def)

lemma un16_be16 [simp]: "un16 (be16 w @ bs) = w"
  unfolding be16_def by (simp, rule bit_eqI) (auto simp: bit_simps)

lemma un32_be32 [simp]: "un32 (be32 w @ bs) = w"
proof -
  have "bit (un32 (be32 w @ bs)) n \<longleftrightarrow> bit w n" if "n < 32" for n
    using that unfolding be32_def
    by (cases "16 \<le> n"; cases "24 \<le> n"; cases "8 \<le> n") (auto simp: bit_simps)
  then show ?thesis by (intro bit_eqI) simp
qed

lemma be16_un16: "be16 (un16 (a # b # bs)) = [a, b]"
  unfolding be16_def by (simp, intro conjI; rule bit_eqI) (auto simp: bit_simps dest: bit_imp_le_length)

lemma be32_un32: "be32 (un32 (a # b # c # d # bs)) = [a, b, c, d]"
  unfolding be32_def by (simp, intro conjI; rule bit_eqI) (auto simp: bit_simps dest: bit_imp_le_length)

lemma be16_un16_take: "2 \<le> length bs \<Longrightarrow> be16 (un16 bs) = take 2 bs"
  by (cases bs rule: un16.cases) (auto simp: be16_un16 numeral_eq_Suc simp del: un16.simps)

lemma be32_un32_take: "4 \<le> length bs \<Longrightarrow> be32 (un32 bs) = take 4 bs"
  by (cases bs rule: un32.cases) (auto simp: be32_un32 numeral_eq_Suc simp del: un32.simps)

lemma length_bytes_of [simp]: "length (bytes_of ws) = 4 * length ws"
  by (induction ws) (simp_all add: bytes_of_def)

lemma bytes_of_simps [simp]: "bytes_of [] = []" "bytes_of (w # ws) = be32 w @ bytes_of ws"
  by (simp_all add: bytes_of_def)

lemma words_of_bytes_of [simp]: "words_of (bytes_of ws) = ws"
proof (induction ws)
  case (Cons w ws)
  have "words_of (be32 w @ bs) = w # words_of bs" for bs
    using un32_be32 [of w "[]"] by (simp add: be32_def)
  with Cons show ?case by simp
qed simp

lemma length_words_of: "length (words_of bs) = length bs div 4"
  by (induction bs rule: words_of.induct) auto

lemma bytes_of_words_of: "4 dvd length bs \<Longrightarrow> bytes_of (words_of bs) = bs"
  by (induction bs rule: words_of.induct) (simp_all add: be32_un32 dvd_eq_mod_eq_0 mod_Suc split: if_splits del: un32.simps)

definition super_wf :: "sfs_super \<Rightarrow> bool" where
  "super_wf s \<longleftrightarrow> length (sp_volname s) = 32 \<and> length (sp_reserved s) = 118"

definition inode_wf :: "sfs_inode \<Rightarrow> bool" where
  "inode_wf i \<longleftrightarrow> length (sfi_direct i) = 15 \<and> length (sfi_waste i) = 110"

definition dir_wf :: "sfs_dir \<Rightarrow> bool" where
  "dir_wf d \<longleftrightarrow> length (sfd_name d) = 60"

lemma length_enc [simp]:
  "super_wf s \<Longrightarrow> length (enc_super s) = 512" "inode_wf i \<Longrightarrow> length (enc_inode i) = 512" "dir_wf d \<Longrightarrow> length (enc_dir d) = 64"
  by (simp_all add: super_wf_def inode_wf_def dir_wf_def enc_super_def enc_inode_def enc_dir_def)

lemma wf_dec [simp]:
  "length bs = 512 \<Longrightarrow> super_wf (dec_super bs)" "length bs = 512 \<Longrightarrow> inode_wf (dec_inode bs)" "length ds = 64 \<Longrightarrow> dir_wf (dec_dir ds)"
  by (simp_all add: super_wf_def inode_wf_def dir_wf_def dec_super_def dec_inode_def dec_dir_def length_words_of)

lemma dec_enc_super [simp]: "super_wf s \<Longrightarrow> dec_super (enc_super s) = s"
  by (cases s) (simp add: super_wf_def enc_super_def dec_super_def)

lemma dec_enc_inode [simp]: "inode_wf i \<Longrightarrow> dec_inode (enc_inode i) = i"
  by (cases i) (simp add: inode_wf_def enc_inode_def dec_inode_def)

lemma dec_enc_dir [simp]: "dec_dir (enc_dir d) = d"
  by (cases d) (simp add: enc_dir_def dec_dir_def)

lemma take_drop_Cons: "take n bs @ drop n bs = bs" "m \<le> n \<Longrightarrow> take (n - m) (drop m bs) @ drop n bs = drop m bs"
  by (simp, metis append_take_drop_id drop_drop le_add_diff_inverse2)

lemma enc_dec_super: "length bs = 512 \<Longrightarrow> enc_super (dec_super bs) = bs"
  using take_drop_Cons(2) [of 4 8 bs] take_drop_Cons(2) [of 8 40 bs]
  by (simp add: enc_super_def dec_super_def be32_un32_take bytes_of_words_of)

lemma enc_dec_inode: "length bs = 512 \<Longrightarrow> enc_inode (dec_inode bs) = bs"
  using take_drop_Cons(2) [of 4 6 bs] take_drop_Cons(2) [of 6 8 bs] take_drop_Cons(2) [of 8 68 bs] take_drop_Cons(2) [of 68 72 bs]
  by (simp add: enc_inode_def dec_inode_def be32_un32_take be16_un16_take bytes_of_words_of)

lemma enc_dec_dir: "length bs = 64 \<Longrightarrow> enc_dir (dec_dir bs) = bs"
  by (simp add: enc_dir_def dec_dir_def be32_un32_take)

section \<open>Property\<close>



end
