(* ===== verification/Vnode.thy ===== *)
theory Vnode
  imports Prelude
begin

text \<open>
  \<^verbatim>\<open>src/src/kern/fs/vfs/vnode.c\<close>: the part of a vnode that all file systems share.

  The operations of a vnode are a value of the type parameter: each file system has a type with one
  value per operation table. \<^verbatim>\<open>vn_countlock\<close> guards the two counters against other threads; here
  every operation runs to its end before the next begins, so the pairs of \<^verbatim>\<open>lock_acquire\<close> and
  \<^verbatim>\<open>lock_release\<close> around the counters leave no trace. \<^verbatim>\<open>vnode_decref\<close> and \<^verbatim>\<open>vnode_decopen\<close> end in a
  call through the operation table; \<open>vnode_decref\<close> and \<open>vnode_decopen\<close> say whether that call is due.
\<close>

record 'ops vnode =
  vn_ops :: "'ops option"
  vn_refcount :: int
  vn_opencount :: int

text \<open>\<open>km\<close>: whether \<^verbatim>\<open>lock_create\<close> finds the memory for the lock.\<close>

definition vnode_init :: "bool \<Rightarrow> 'ops \<Rightarrow> errno \<times> 'ops vnode" where
  "vnode_init km ops =
     (if \<not> km then (ENOMEM, \<lparr>vn_ops = Some ops, vn_refcount = 1, vn_opencount = 0\<rparr>)
      else (EOK, \<lparr>vn_ops = Some ops, vn_refcount = 1, vn_opencount = 0\<rparr>))"

definition vnode_kill :: "'ops vnode \<Rightarrow> 'ops vnode kern" where
  "vnode_kill vn =
     do {
       kassert (vn_refcount vn = 1);
       kassert (vn_opencount vn = 0);
       Some \<lparr>vn_ops = None, vn_refcount = 0, vn_opencount = 0\<rparr>
     }"

definition vnode_incref :: "'ops vnode \<Rightarrow> 'ops vnode" where
  "vnode_incref vn = vn\<lparr>vn_refcount := vn_refcount vn + 1\<rparr>"

definition vnode_decref :: "'ops vnode \<Rightarrow> (bool \<times> 'ops vnode) kern" where
  "vnode_decref vn =
     do {
       kassert (vn_refcount vn > 0);
       if vn_refcount vn > 1 then Some (False, vn\<lparr>vn_refcount := vn_refcount vn - 1\<rparr>) else Some (True, vn)
     }"

definition vnode_incopen :: "'ops vnode \<Rightarrow> 'ops vnode" where
  "vnode_incopen vn = vn\<lparr>vn_opencount := vn_opencount vn + 1\<rparr>"

definition vnode_decopen :: "'ops vnode \<Rightarrow> (bool \<times> 'ops vnode) kern" where
  "vnode_decopen vn =
     do {
       kassert (vn_opencount vn > 0);
       let vn' = vn\<lparr>vn_opencount := vn_opencount vn - 1\<rparr>;
       Some (\<not> vn_opencount vn' > 0, vn')
     }"

text \<open>The check in front of every call through the operation table; \<open>reclaim\<close> is \<^verbatim>\<open>!strcmp(opstr, "reclaim")\<close>.\<close>

definition vnode_check :: "bool \<Rightarrow> 'ops vnode \<Rightarrow> unit kern" where
  "vnode_check reclaim v =
     do {
       kassert (vn_ops v \<noteq> None);
       kassert (\<not> vn_refcount v < 0);
       kassert (\<not> (vn_refcount v = 0 \<and> \<not> reclaim));
       kassert (\<not> vn_opencount v < 0)
     }"

text \<open>A vnode in use: one reference at least, and no more opens than that allows.\<close>

definition vn_live :: "'ops vnode \<Rightarrow> bool" where
  "vn_live v \<longleftrightarrow> vn_ops v \<noteq> None \<and> vn_refcount v > 0 \<and> vn_opencount v \<ge> 0"

lemma vnode_check_live [simp]: "vn_live v \<Longrightarrow> vnode_check r v = Some ()"
  by (simp add: vnode_check_def vn_live_def)

lemma vn_live_incref: "vn_live v \<Longrightarrow> vn_live (vnode_incref v)"
  by (simp add: vn_live_def vnode_incref_def)

lemma vnode_init_live: "vn_live (snd (vnode_init km ops))"
  by (simp add: vn_live_def vnode_init_def)

lemma vnode_decref_live: "vn_live v \<Longrightarrow> \<exists>v'. vnode_decref v = Some (vn_refcount v = 1, v') \<and> vn_live v'"
  by (auto simp: vn_live_def vnode_decref_def)

lemma vnode_incref_decref: "vn_live v \<Longrightarrow> vnode_decref (vnode_incref v) = Some (False, v)"
  by (simp add: vn_live_def vnode_decref_def vnode_incref_def)

end
