(* ===== verification/Copyinout.thy ===== *)
theory Copyinout
  imports Prelude
begin

text \<open>
  \<^verbatim>\<open>src/src/kern/lib/copyinout.c\<close>: copies between kernel and user memory that survive faults.

  \<open>machine\<close> is user memory as the current address space shows it: \<open>m_mem\<close> gives the bytes, and
  \<open>m_rd\<close> and \<open>m_wr\<close> say at which addresses a read or a write goes through, once \<^verbatim>\<open>vm_fault\<close> has
  had its turn; \<open>m_space\<close> is \<^verbatim>\<open>curthread->t_vmspace\<close>. An access that does not go through lands in
  \<^verbatim>\<open>copyfail\<close>, which makes the copy return \<^verbatim>\<open>EFAULT\<close>; what was copied before stays copied.
  Kernel buffers are byte lists.
\<close>

record machine =
  m_mem :: "u32 \<Rightarrow> u8"
  m_rd :: "u32 \<Rightarrow> bool"
  m_wr :: "u32 \<Rightarrow> bool"
  m_space :: "nat option"

definition USERTOP :: u32 where
  "USERTOP = 0x80000000"

definition copycheck :: "u32 \<Rightarrow> u32 \<Rightarrow> errno \<times> u32" where
  "copycheck userptr len =
     (let bot = userptr; top = bot + len - 1 in
      if top < bot then (EFAULT, len)
      else if bot \<ge> USERTOP then (EFAULT, len)
      else if top \<ge> USERTOP then (EOK, USERTOP - bot)
      else (EOK, len))"

text \<open>The bytes a copy out of user memory gets, up to the first fault.\<close>

fun user_read :: "'a machine_scheme \<Rightarrow> u32 \<Rightarrow> nat \<Rightarrow> u8 list" where
  "user_read m a 0 = []"
| "user_read m a (Suc n) = (if m_rd m a then m_mem m a # user_read m (a + 1) n else [])"

text \<open>A copy into user memory, up to the first fault, and how many bytes got there.\<close>

fun user_write :: "'a machine_scheme \<Rightarrow> u32 \<Rightarrow> u8 list \<Rightarrow> nat \<times> 'a machine_scheme" where
  "user_write m a [] = (0, m)"
| "user_write m a (x # xs) =
     (if m_wr m a then
        let (n, m') = user_write (m\<lparr>m_mem := (m_mem m)(a := x)\<rparr>) (a + 1) xs in (Suc n, m')
      else (0, m))"

definition copyin :: "'a machine_scheme \<Rightarrow> u32 \<Rightarrow> u8 list \<Rightarrow> u32 \<Rightarrow> (errno \<times> u8 list) kern" where
  "copyin m usersrc dest len =
     (let (result, stoplen) = copycheck usersrc len in
      if result \<noteq> EOK then Some (result, dest)
      else if stoplen \<noteq> len then Some (EFAULT, dest)
      else do {
        kassert (unat len \<le> length dest);
        let bs = user_read m usersrc (unat len);
        let dest' = bs @ drop (length bs) dest;
        Some (if length bs = unat len then EOK else EFAULT, dest')
      })"

definition copyout :: "'a machine_scheme \<Rightarrow> u8 list \<Rightarrow> u32 \<Rightarrow> u32 \<Rightarrow> (errno \<times> 'a machine_scheme) kern" where
  "copyout m src userdest len =
     (let (result, stoplen) = copycheck userdest len in
      if result \<noteq> EOK then Some (result, m)
      else if stoplen \<noteq> len then Some (EFAULT, m)
      else do {
        kassert (unat len \<le> length src);
        let (n, m') = user_write m userdest (take (unat len) src);
        Some (if n = unat len then EOK else EFAULT, m')
      })"

text \<open>\<^verbatim>\<open>copystr\<close>, over a source and a destination whose accesses may fault: \<open>get i s\<close> is \<^verbatim>\<open>src[i]\<close>,
  \<open>put i x s\<close> stores \<^verbatim>\<open>dest[i]\<close>. The length comes back with the terminator counted.\<close>

function copystr ::
  "(nat \<Rightarrow> 's \<Rightarrow> u8 option) \<Rightarrow> (nat \<Rightarrow> u8 \<Rightarrow> 's \<Rightarrow> 's option) \<Rightarrow> nat \<Rightarrow> nat \<Rightarrow> nat \<Rightarrow> 's \<Rightarrow> errno \<times> nat option \<times> 's" where
  "copystr get put maxlen stoplen i s =
     (if i < maxlen \<and> i < stoplen then
        (case get i s of
           None \<Rightarrow> (EFAULT, None, s)
         | Some x \<Rightarrow>
             (case put i x s of
                None \<Rightarrow> (EFAULT, None, s)
              | Some s' \<Rightarrow> if x = 0 then (EOK, Some (i + 1), s') else copystr get put maxlen stoplen (i + 1) s'))
      else if stoplen < maxlen then (EFAULT, None, s)
      else (ENAMETOOLONG, None, s))"
  by pat_completeness auto
termination by (relation "measure (\<lambda>(get, put, maxlen, stoplen, i, s). maxlen - i)") auto

declare copystr.simps [simp del]

text \<open>A store to a kernel buffer of the size the caller promised cannot fault; the model has no value
  for a store behind the buffer.\<close>

definition copyinstr :: "'a machine_scheme \<Rightarrow> u32 \<Rightarrow> u8 list \<Rightarrow> u32 \<Rightarrow> (errno \<times> nat option \<times> u8 list) kern" where
  "copyinstr m usersrc dest len =
     (let (result, stoplen) = copycheck usersrc len in
      if result \<noteq> EOK then Some (result, None, dest)
      else do {
        kassert (unat len \<le> length dest);
        Some (copystr (\<lambda>i d. if m_rd m (usersrc + of_nat i) then Some (m_mem m (usersrc + of_nat i)) else None)
          (\<lambda>i x d. Some (d[i := x])) (unat len) (unat stoplen) 0 dest)
      })"

definition copyoutstr ::
  "'a machine_scheme \<Rightarrow> u8 list \<Rightarrow> u32 \<Rightarrow> u32 \<Rightarrow> (errno \<times> nat option \<times> 'a machine_scheme) kern" where
  "copyoutstr m src userdest len =
     (let (result, stoplen) = copycheck userdest len in
      if result \<noteq> EOK then Some (result, None, m)
      else do {
        kassert (0 \<in> set src \<or> unat len \<le> length src);
        Some (copystr (\<lambda>i _. if i < length src then Some (src ! i) else None)
          (\<lambda>i x m. if m_wr m (userdest + of_nat i)
             then Some (m\<lparr>m_mem := (m_mem m)(userdest + of_nat i := x)\<rparr>) else None)
          (unat len) (unat stoplen) 0 m)
      })"

section \<open>What the check lets through\<close>

lemma copycheck_stop:
  assumes "copycheck p len = (EOK, s)"
  shows "(unat p = 0 \<longrightarrow> unat len > 0 \<or> s \<noteq> len) \<and> (unat p > 0 \<longrightarrow> unat len > 0) \<and> (unat len > 0 \<longrightarrow> unat s \<le> unat len) \<and> unat p + unat s \<le> unat USERTOP \<and> 
   (s \<noteq> len \<longrightarrow> unat p + unat s = unat USERTOP)"
proof -
  have b: "unat p < 2 ^ 32" "unat len < 2 ^ 32" by (rule unat_u32_less)+
  have u: "unat USERTOP = 2 ^ 31" by (simp add: USERTOP_def)
  have o: "unat (1::u32) = 1" by simp
  have t: "unat (p + len - 1) = (if unat p + unat len = 0 \<or> unat p + unat len = 2 ^ 32 then 2 ^ 32 - 1
      else if unat p + unat len < 2 ^ 32 then unat p + unat len - 1 else unat p + unat len - 2 ^ 32 - 1)"
    using b by (auto simp: unat_sub_if' unat_plus_if' o)
  from assms consider "\<not> p + len - 1 < p" "p < USERTOP" "s = USERTOP - p" "p + len - 1 \<ge> USERTOP"
    | "\<not> p + len - 1 < p" "p < USERTOP" "s = len" "p + len - 1 < USERTOP"
    by (auto simp: copycheck_def Let_def not_le split: if_splits)
  then show ?thesis
  proof cases
    case 1
    have "unat s = unat USERTOP - unat p" using 1(2,3) by (simp add: unat_sub_if' word_less_nat_alt)
    then show ?thesis using 1(1,2,4) b t u by (auto simp: word_less_nat_alt word_le_nat_alt split: if_splits)
  next
    case 2
    then show ?thesis using b t u by (auto simp: word_less_nat_alt word_le_nat_alt split: if_splits)
  qed
qed

lemma copycheck_err: "copycheck p len = (r, s) \<Longrightarrow> r \<noteq> EOK \<Longrightarrow> r = EFAULT"
  by (auto simp: copycheck_def Let_def split: if_splits)

lemma copycheck_pass: "copycheck p len = (EOK, len) \<Longrightarrow> 0 < unat len \<and> unat p + unat len \<le> unat USERTOP"
  using copycheck_stop [of p len len] by auto

lemma unat_USERTOP [simp]: "unat USERTOP = 2 ^ 31"
  by (simp add: USERTOP_def)

section \<open>Blocks\<close>

lemma unat_Suc_u32: "unat (a :: u32) + 1 < 2 ^ 32 \<Longrightarrow> unat (a + 1) = unat a + 1"
  by (simp add: unat_plus_if')

lemma user_write_spec:
  "user_write m a xs = (n, m') \<Longrightarrow> unat a + length xs \<le> 2 ^ 31 \<Longrightarrow>
   n \<le> length xs \<and> m_rd m' = m_rd m \<and> m_wr m' = m_wr m \<and> machine.more m' = machine.more m \<and> m_space m' = m_space m \<and>
   (\<forall>b. unat a \<le> unat b \<and> unat b < unat a + n \<longrightarrow> m_wr m b) \<and>
   (\<forall>b. n < length xs \<and> unat b = unat a + n \<longrightarrow> \<not> m_wr m b) \<and>
   (\<forall>b. m_mem m' b = (if unat a \<le> unat b \<and> unat b < unat a + n then xs ! (unat b - unat a) else m_mem m b))"
proof (induction xs arbitrary: m a n m')
  case Nil
  then show ?case by auto
next
  case (Cons x xs)
  show ?case
  proof (cases "m_wr m a")
    case False
    then show ?thesis using Cons.prems by (auto dest!: word_unat_eq_iff [THEN iffD2])
  next
    case True
    let ?m = "m\<lparr>m_mem := (m_mem m)(a := x)\<rparr>"
    from True Cons.prems(1) obtain k where k: "user_write ?m (a + 1) xs = (k, m')" "n = Suc k"
      by (auto split: prod.splits)
    have a1: "unat (a + 1) = unat a + 1" using Cons.prems(2) by (simp add: unat_Suc_u32)
    have "unat (a + 1) + length xs \<le> 2 ^ 31" using Cons.prems(2) a1 by simp
    note ih = Cons.IH [OF k(1) this]
    show ?thesis
    proof (intro conjI allI impI)
      fix b :: u32
      show "m_mem m' b = (if unat a \<le> unat b \<and> unat b < unat a + n then (x # xs) ! (unat b - unat a) else m_mem m b)"
        using ih k(2) a1 by (auto simp: nth_Cons' word_unat_eq_iff)
      assume r: "unat a \<le> unat b \<and> unat b < unat a + n"
      show "m_wr m b"
      proof (cases "b = a")
        case False
        then have "unat b \<noteq> unat a" by (simp add: word_unat_eq_iff)
        then show ?thesis using r ih k(2) a1 by simp
      qed (use True in simp)
    next
      fix b :: u32 assume "n < length (x # xs) \<and> unat b = unat a + n"
      then show "\<not> m_wr m b" using ih k(2) a1 by auto
    qed (use ih k(2) in auto)
  qed
qed

lemma user_read_spec:
  "unat a + n \<le> 2 ^ 31 \<Longrightarrow> length (user_read m a n) \<le> n \<and>
   (\<forall>k<length (user_read m a n). user_read m a n ! k = m_mem m (a + of_nat k) \<and> m_rd m (a + of_nat k)) \<and>
   (length (user_read m a n) < n \<longrightarrow> \<not> m_rd m (a + of_nat (length (user_read m a n))))"
proof (induction n arbitrary: a)
  case 0
  then show ?case by simp
next
  case (Suc n)
  have a1: "unat (a + 1) = unat a + 1" using Suc.prems by (simp add: unat_Suc_u32)
  with Suc.prems have "unat (a + 1) + n \<le> 2 ^ 31" by simp
  note ih = Suc.IH [OF this]
  have s: "a + 1 + of_nat k = a + of_nat (Suc k)" for k by simp
  show ?case using ih by (auto simp: nth_Cons' less_Suc_eq_0_disj add.assoc)
qed

lemma copyout_cases:
  assumes "copyout m src dst len = Some (e, m')"
  shows "e = EFAULT \<and> m' = m \<or>
    (unat dst + unat len \<le> 2 ^ 31 \<and> unat len \<le> length src \<and>
     (\<exists>n. user_write m dst (take (unat len) src) = (n, m') \<and> e = (if n = unat len then EOK else EFAULT)))"
proof -
  obtain r s where c: "copycheck dst len = (r, s)" by (cases "copycheck dst len")
  then have r: "r = EOK \<or> r = EFAULT" by (auto simp: copycheck_def Let_def split: if_splits)
  show ?thesis
  proof (cases "r = EOK \<and> s = len")
    case True
    with c have l: "unat dst + unat len \<le> 2 ^ 31" using copycheck_pass [of dst len] by simp
    obtain n m1 where w: "user_write m dst (take (unat len) src) = (n, m1)" by (cases "user_write m dst (take (unat len) src)")
    have "unat len \<le> length src \<and> (if n = unat len then EOK else EFAULT) = e \<and> m1 = m'"
      using assms c True w by (simp add: copyout_def kern_simps)
    then show ?thesis using l w by auto
  next
    case False
    then show ?thesis using assms c r by (auto simp: copyout_def)
  qed
qed

text \<open>When the check passes: the block is not empty and ends at \<^verbatim>\<open>USERTOP\<close> or below it.\<close>

lemma copycheck_fits: "0 < unat len \<Longrightarrow> unat p + unat len \<le> 2 ^ 31 \<Longrightarrow> copycheck p len = (EOK, len)"
proof -
  assume l: "0 < unat len" "unat p + unat len \<le> 2 ^ 31"
  have "unat (p + len - 1) = unat p + unat len - 1" using l by (simp add: unat_sub_if' unat_plus_if')
  then have "\<not> p + len - 1 < p" "p < USERTOP" "p + len - 1 < USERTOP"
    unfolding word_less_nat_alt unat_USERTOP using l by linarith+
  then show ?thesis unfolding copycheck_def Let_def by (simp only: not_le [symmetric] not_True_eq_False not_False_eq_True if_False if_True)
qed

lemma user_write_all:
  assumes "user_write m a xs = (n, m')" and "unat a + length xs \<le> 2 ^ 31"
  shows "n = length xs \<longleftrightarrow> (\<forall>k<length xs. m_wr m (a + of_nat k))"
proof -
  note s = user_write_spec [OF assms]
  have a: "unat (a + of_nat k) = unat a + k" if "k < length xs" for k
    using that assms(2) by (simp add: unat_plus_if' unat_of_nat)
  show ?thesis
  proof
    assume "n = length xs"
    then show "\<forall>k<length xs. m_wr m (a + of_nat k)" using s a by simp
  next
    assume w: "\<forall>k<length xs. m_wr m (a + of_nat k)"
    show "n = length xs"
    proof (rule ccontr)
      assume "n \<noteq> length xs"
      then have n: "n < length xs" using s by simp
      then have "\<not> m_wr m (a + of_nat n)" using s a [OF n] by blast
      then show False using w n by simp
    qed
  qed
qed

text \<open>C15. \<^verbatim>\<open>copyout\<close> stays within what the user may write. It succeeds exactly when the block is not empty, ends at
  \<^verbatim>\<open>USERTOP\<close> or below, and each of its bytes is writable by the user; then it holds the bytes of the kernel buffer.
  Otherwise the result is \<^verbatim>\<open>EFAULT\<close>. A block that reaches above \<^verbatim>\<open>USERTOP\<close> is refused before anything is written.
  In every case only bytes of the block that the user may write change, and of the rest of the state nothing.\<close>

theorem copyout_confined:
  assumes "copyout m src dst len = Some (e, m')"
  shows "e = (if 0 < unat len \<and> unat dst + unat len \<le> unat USERTOP \<and> (\<forall>k<unat len. m_wr m (dst + of_nat k)) then EOK else EFAULT) \<and>
    (unat USERTOP < unat dst + unat len \<longrightarrow> m' = m) \<and>
    (e = EOK \<longrightarrow> (\<forall>k<unat len. m_mem m' (dst + of_nat k) = src ! k)) \<and>
    (\<forall>a. m_mem m' a \<noteq> m_mem m a \<longrightarrow> a < USERTOP \<and> m_wr m a \<and> unat dst \<le> unat a \<and> unat a < unat dst + unat len) \<and>
    m_rd m' = m_rd m \<and> m_wr m' = m_wr m \<and> m_space m' = m_space m \<and> machine.more m' = machine.more m"
proof (cases "0 < unat len \<and> unat dst + unat len \<le> 2 ^ 31")
  case False
  then have "copycheck dst len \<noteq> (EOK, len)" using copycheck_pass [of dst len] by auto
  then have "e = EFAULT \<and> m' = m" using assms copycheck_err [of dst len] by (auto simp: copyout_def split: prod.splits if_splits)
  then show ?thesis using False by auto
next
  case True
  then have c: "copycheck dst len = (EOK, len)" by (simp add: copycheck_fits)
  obtain n m1 where w1: "user_write m dst (take (unat len) src) = (n, m1)" by (cases "user_write m dst (take (unat len) src)")
  with assms c have e: "e = (if n = unat len then EOK else EFAULT)" and l: "unat len \<le> length src" and w: "user_write m dst (take (unat len) src) = (n, m')"
    by (auto simp: copyout_def kern_simps)
  have t: "unat dst + length (take (unat len) src) \<le> 2 ^ 31" using True l by simp
  note s = user_write_spec [OF w t]
  have n: "n \<le> unat len" using s l by simp
  have "n = unat len \<longleftrightarrow> (\<forall>k<unat len. m_wr m (dst + of_nat k))" using user_write_all [OF w t] l by simp
  then have A: "e = (if 0 < unat len \<and> unat dst + unat len \<le> unat USERTOP \<and> (\<forall>k<unat len. m_wr m (dst + of_nat k)) then EOK else EFAULT)"
    using True e by simp
  have B: "a < USERTOP \<and> m_wr m a \<and> unat dst \<le> unat a \<and> unat a < unat dst + unat len" if "m_mem m' a \<noteq> m_mem m a" for a
  proof -
    have "unat dst \<le> unat a \<and> unat a < unat dst + n" using s that by metis
    moreover from this have "m_wr m a" using s by blast
    ultimately show ?thesis using n True by (simp add: word_less_nat_alt)
  qed
  have C: "m_mem m' (dst + of_nat k) = src ! k" if "e = EOK" "k < unat len" for k
  proof -
    have "n = unat len" using e that(1) by (simp split: if_splits)
    moreover have "unat (dst + of_nat k) = unat dst + k" using that(2) True by (simp add: unat_plus_if' unat_of_nat)
    ultimately show ?thesis using s that(2) by simp
  qed
  have D: "unat USERTOP < unat dst + unat len \<longrightarrow> m' = m" using True by simp
  have E: "m_rd m' = m_rd m" "m_wr m' = m_wr m" "m_space m' = m_space m" "machine.more m' = machine.more m"
    using s by blast+
  show ?thesis by (intro conjI allI impI A D C B E)
qed

definition ram :: "u8 \<Rightarrow> machine" where
  "ram x = \<lparr>m_mem = (\<lambda>_. x), m_rd = (\<lambda>a. a \<ge> 4096), m_wr = (\<lambda>a. a \<ge> 8192), m_space = None\<rparr>"

theorem copyout_confined_witness:
  "(\<exists>m'. copyout (ram 0) [1, 2, 3] 8192 3 = Some (EOK, m') \<and> m_mem m' 8193 = 2 \<and> m_mem m' 8195 = 0) \<and>
   (\<exists>e m'. copyout (ram 0) [1, 2, 3] 0x80000000 3 = Some (e, m') \<and> e = EFAULT \<and> m' = ram 0)"
proof
  obtain m' where m': "copyout (ram 0) [1, 2, 3] 8192 3 = Some (EOK, m')"
    by (simp add: copyout_def copycheck_def ram_def USERTOP_def)
  note t = copyout_confined [OF m']
  have "\<forall>k<unat (3 :: u32). m_mem m' (8192 + of_nat k) = [1, 2, 3] ! k" using t by simp
  from this [rule_format, of 1] have "m_mem m' 8193 = 2" by simp
  moreover have "m_mem m' 8195 = m_mem (ram 0) 8195"
  proof (rule ccontr)
    assume "m_mem m' 8195 \<noteq> m_mem (ram 0) 8195"
    then have "unat (8195 :: u32) < unat (8192 :: u32) + unat (3 :: u32)" using t by blast
    then show False by simp
  qed
  ultimately show "\<exists>m'. copyout (ram 0) [1, 2, 3] 8192 3 = Some (EOK, m') \<and> m_mem m' 8193 = 2 \<and> m_mem m' 8195 = 0"
    using m' by (simp add: ram_def)
next
  obtain e m' where m': "copyout (ram 0) [1, 2, 3] 0x80000000 3 = Some (e, m')"
    by (simp add: copyout_def copycheck_def USERTOP_def)
  from copyout_confined [OF m'] have "e = EFAULT" "m' = ram 0" by simp_all
  with m' show "\<exists>e m'. copyout (ram 0) [1, 2, 3] 0x80000000 3 = Some (e, m') \<and> e = EFAULT \<and> m' = ram 0"
    by blast
qed

text \<open>C16. What \<^verbatim>\<open>copyout\<close> has put into user memory \<^verbatim>\<open>copyin\<close> gets back.\<close>

theorem copyout_copyin:
  assumes "copyout m src dst len = Some (EOK, m')" and "unat len \<le> length buf"
    and "\<And>a. unat dst \<le> unat a \<Longrightarrow> unat a < unat dst + unat len \<Longrightarrow> m_rd m a"
  shows "copyin m' dst buf len = Some (EOK, take (unat len) src @ drop (unat len) buf)"
proof -
  obtain n where l: "unat dst + unat len \<le> 2 ^ 31" "unat len \<le> length src"
    and w: "user_write m dst (take (unat len) src) = (n, m')" and n: "n = unat len"
    using copyout_cases [OF assms(1)] by (auto split: if_splits)
  obtain r s where c: "copycheck dst len = (r, s)" by (cases "copycheck dst len")
  with assms(1) have c': "copycheck dst len = (EOK, len)" by (auto simp: copyout_def split: if_splits)
  have "unat dst + length (take (unat len) src) \<le> 2 ^ 31" using l by simp
  note s = user_write_spec [OF w this]
  let ?bs = "user_read m' dst (unat len)"
  note u = user_read_spec [OF l(1), of m']
  have a: "unat (dst + of_nat k) = unat dst + k" if "k < unat len" for k
    using that l(1) by (simp add: unat_plus_if' unat_of_nat)
  have "length ?bs = unat len"
  proof (rule ccontr)
    assume "length ?bs \<noteq> unat len"
    then have lt: "length ?bs < unat len" using u by simp
    then have "m_rd m (dst + of_nat (length ?bs))" using assms(3) a [OF lt] by simp
    then show False using u lt s by simp
  qed
  moreover have "?bs = take (unat len) src"
    by (rule nth_equalityI) (use calculation u s a n l in simp_all)
  ultimately show ?thesis using c' assms(2) by (simp add: copyin_def)
qed

theorem copyout_copyin_witness:
  "\<exists>m'. copyout (ram 0) [1, 2, 3] 8192 3 = Some (EOK, m') \<and> copyin m' 8192 [9, 9, 9, 9] 3 = Some (EOK, [1, 2, 3, 9])"
proof -
  obtain m' where m': "copyout (ram 0) [1, 2, 3] 8192 3 = Some (EOK, m')"
    by (simp add: copyout_def copycheck_def ram_def USERTOP_def)
  have "m_rd (ram 0) a" if "unat (8192 :: u32) \<le> unat a" for a
    using that by (simp add: ram_def word_le_nat_alt)
  with copyout_copyin [OF m', of "[9, 9, 9, 9]"] m' show ?thesis by simp
qed

section \<open>Strings\<close>

text \<open>One run of the loop of \<^verbatim>\<open>copystr\<close> out of user memory.\<close>

lemma copyinstr_loop:
  assumes "copystr (\<lambda>i d. if m_rd m (p + of_nat i) then Some (m_mem m (p + of_nat i)) else None)
      (\<lambda>i x d. Some (d[i := x])) maxlen stoplen i dest = (e, got, dest')"
    and "maxlen \<le> length dest"
  shows "e \<in> {EOK, EFAULT, ENAMETOOLONG} \<and> length dest' = length dest \<and> (\<forall>k. k < i \<or> min maxlen stoplen \<le> k \<longrightarrow> dest' ! k = dest ! k) \<and>
    (e = EOK \<longrightarrow> (\<exists>n. got = Some (Suc n) \<and> i \<le> n \<and> n < min maxlen stoplen \<and> dest' ! n = 0 \<and>
       (\<forall>k. i \<le> k \<and> k \<le> n \<longrightarrow> m_rd m (p + of_nat k) \<and> dest' ! k = m_mem m (p + of_nat k) \<and> (k < n \<longrightarrow> dest' ! k \<noteq> 0))))"
  using assms
proof (induction "maxlen - i" arbitrary: i dest)
  case 0
  then show ?case by (subst (asm) copystr.simps) (auto split: if_splits)
next
  case (Suc d)
  let ?b = "m_mem m (p + of_nat i)"
  have il: "i < maxlen" using Suc.hyps(2) by simp
  consider "\<not> i < stoplen" | "i < stoplen" "\<not> m_rd m (p + of_nat i)"
    | "i < stoplen" "m_rd m (p + of_nat i)" "?b = 0" | "i < stoplen" "m_rd m (p + of_nat i)" "?b \<noteq> 0" by blast
  then show ?case
  proof cases
    case 1
    with Suc.prems show ?thesis by (subst (asm) copystr.simps) (auto split: if_splits)
  next
    case 2
    with Suc.prems il show ?thesis by (subst (asm) copystr.simps) simp
  next
    case 3
    with Suc.prems il show ?thesis by (subst (asm) copystr.simps) (auto simp: nth_list_update)
  next
    case 4
    have "d = maxlen - (i + 1)" using Suc.hyps(2) by simp
    moreover have "copystr (\<lambda>i d. if m_rd m (p + of_nat i) then Some (m_mem m (p + of_nat i)) else None)
        (\<lambda>i x d. Some (d[i := x])) maxlen stoplen (i + 1) (dest[i := ?b]) = (e, got, dest')"
      using Suc.prems(1) il 4 by (subst (asm) copystr.simps) simp
    moreover have "maxlen \<le> length (dest[i := ?b])" using Suc.prems(2) by simp
    ultimately have ih: "e \<in> {EOK, EFAULT, ENAMETOOLONG} \<and> length dest' = length (dest[i := ?b]) \<and>
      (\<forall>k. k < i + 1 \<or> min maxlen stoplen \<le> k \<longrightarrow> dest' ! k = dest[i := ?b] ! k) \<and>
      (e = EOK \<longrightarrow> (\<exists>n. got = Some (Suc n) \<and> i + 1 \<le> n \<and> n < min maxlen stoplen \<and> dest' ! n = 0 \<and>
       (\<forall>k. i + 1 \<le> k \<and> k \<le> n \<longrightarrow> m_rd m (p + of_nat k) \<and> dest' ! k = m_mem m (p + of_nat k) \<and> (k < n \<longrightarrow> dest' ! k \<noteq> 0))))"
      by (rule Suc.hyps(1))
    have di: "dest' ! i = ?b" using ih il Suc.prems(2) by simp
    have dk: "dest' ! k = dest ! k" if "k < i \<or> min maxlen stoplen \<le> k" for k
    proof -
      have "k \<noteq> i" using that il 4(1) by auto
      moreover have "k < i + 1 \<or> min maxlen stoplen \<le> k" using that by auto
      then have "dest' ! k = dest[i := ?b] ! k" using ih by blast
      ultimately show ?thesis by simp
    qed
    show ?thesis
    proof (intro conjI impI allI)
      assume "e = EOK"
      then obtain n where n: "got = Some (Suc n)" "i + 1 \<le> n" "n < min maxlen stoplen" "dest' ! n = 0"
        "\<forall>k. i + 1 \<le> k \<and> k \<le> n \<longrightarrow> m_rd m (p + of_nat k) \<and> dest' ! k = m_mem m (p + of_nat k) \<and> (k < n \<longrightarrow> dest' ! k \<noteq> 0)"
        using ih by blast
      have "m_rd m (p + of_nat k) \<and> dest' ! k = m_mem m (p + of_nat k) \<and> (k < n \<longrightarrow> dest' ! k \<noteq> 0)" if "i \<le> k \<and> k \<le> n" for k
      proof (cases "k = i")
        case False
        then have "i + 1 \<le> k \<and> k \<le> n" using that by simp
        with n(5) show ?thesis by blast
      qed (use di 4 in simp)
      then show "\<exists>n. got = Some (Suc n) \<and> i \<le> n \<and> n < min maxlen stoplen \<and> dest' ! n = 0 \<and>
          (\<forall>k. i \<le> k \<and> k \<le> n \<longrightarrow> m_rd m (p + of_nat k) \<and> dest' ! k = m_mem m (p + of_nat k) \<and> (k < n \<longrightarrow> dest' ! k \<noteq> 0))"
        using n(1,3,4) Suc_leD [OF n(2) [simplified]] by blast
    qed (use ih dk in auto)
  qed
qed

text \<open>C17. When \<^verbatim>\<open>copyinstr\<close> succeeds the kernel buffer starts with the user's string, its terminator
  included; the length it reports is that of the string; all of it was readable and below
  \<^verbatim>\<open>USERTOP\<close>. It never writes behind the length it was given.\<close>

theorem copyinstr_terminated:
  assumes "copyinstr m p dest len = Some (e, got, dest')"
  shows "length dest' = length dest \<and> (\<forall>k. unat len \<le> k \<longrightarrow> dest' ! k = dest ! k) \<and>
    (e = EOK \<longrightarrow> (\<exists>n. got = Some (Suc n) \<and> n < unat len \<and> unat p + n < 2 ^ 31 \<and> dest' ! n = 0 \<and>
       (\<forall>k\<le>n. m_rd m (p + of_nat k) \<and> dest' ! k = m_mem m (p + of_nat k) \<and> (k < n \<longrightarrow> dest' ! k \<noteq> 0))))"
proof (cases "copycheck p len")
  case (Pair r s)
  show ?thesis
  proof (cases "r = EOK")
    case False
    then show ?thesis using assms Pair by (auto simp: copyinstr_def)
  next
    case True
    with assms Pair have l: "unat len \<le> length dest"
      and c: "copystr (\<lambda>i d. if m_rd m (p + of_nat i) then Some (m_mem m (p + of_nat i)) else None)
        (\<lambda>i x d. Some (d[i := x])) (unat len) (unat s) 0 dest = (e, got, dest')"
      by (auto simp: copyinstr_def kern_simps)
    have s: "unat p + unat s \<le> 2 ^ 31" using copycheck_stop [of p len s] Pair True by simp
    show ?thesis using copyinstr_loop [OF c l] s by fastforce
  qed
qed

theorem copyinstr_terminated_witness:
  "\<exists>n dest. copyinstr ((ram 0)\<lparr>m_mem := (\<lambda>_. 0)(4096 := 65)\<rparr>) 4096 [9, 9, 9] 3 = Some (EOK, Some (Suc n), dest) \<and>
     dest ! n = 0 \<and> dest ! 0 = 65 \<and> length dest = 3"
proof -
  let ?m = "(ram 0)\<lparr>m_mem := (\<lambda>_. 0)(4096 := 65)\<rparr>"
  have "copyinstr ?m 4096 [9, 9, 9] 3 \<noteq> None"
    by (simp add: copyinstr_def copycheck_def USERTOP_def)
  then obtain e got dest where c: "copyinstr ?m 4096 [9, 9, 9] 3 = Some (e, got, dest)" by auto
  have e: "e = EOK"
    using c by (simp add: copyinstr_def copycheck_def USERTOP_def copystr.simps ram_def split: if_splits)
  from copyinstr_terminated [OF c] e obtain n where l: "length dest = 3" "got = Some (Suc n)" "dest ! n = 0"
    and k: "\<forall>k\<le>n. dest ! k = m_mem ?m (4096 + of_nat k)" by auto
  from k have "dest ! 0 = 65" by auto
  with l c e show ?thesis by blast
qed

end
