(* ===== verification/Uio.thy ===== *)
theory Uio
  imports Copyinout
begin

text \<open>
  \<^verbatim>\<open>src/src/kern/userprog/uio.c\<close>: the descriptors of data transfers.

  A \<open>uio\<close> names a region in kernel or user memory, a position in a file or device, and how much is
  left to transfer. A kernel region is a byte list cut at \<^verbatim>\<open>iov_kbase\<close>: \<open>uio_kdone\<close> is what lies
  before that pointer, \<open>uio_kbase\<close> what lies at and after it. Sizes are \<^verbatim>\<open>size_t\<close> values below
  \<open>2 ^ 32\<close> (\<open>size_sub\<close> wraps), offsets are \<^verbatim>\<open>off_t\<close>, which is a signed 32-bit type here.
\<close>

datatype uio_rw = UIO_READ | UIO_WRITE

datatype uio_seg = UIO_USERSPACE | UIO_SYSSPACE | UIO_USERISPACE

record uio =
  uio_kdone :: "u8 list"
  uio_kbase :: "u8 list"
  uio_ubase :: u32
  uio_iovlen :: nat
  uio_offset :: int
  uio_resid :: nat
  uio_segflg :: uio_seg
  uio_rw :: uio_rw
  uio_space :: "nat option"

section \<open>The code\<close>

text \<open>One chunk of a transfer between the kernel buffer \<open>ptr\<close> and the region of the \<open>uio\<close>.\<close>

definition uio_chunk ::
  "u8 list \<Rightarrow> nat \<Rightarrow> uio \<Rightarrow> 'a machine_scheme \<Rightarrow> (errno \<times> u8 list \<times> uio \<times> 'a machine_scheme) kern" where
  "uio_chunk ptr sz u m =
     (case uio_segflg u of
        UIO_SYSSPACE \<Rightarrow>
          do {
            kassert (sz \<le> length ptr \<and> sz \<le> length (uio_kbase u));
            let (ptr', k) = (if uio_rw u = UIO_READ then (ptr, take sz ptr) else (take sz (uio_kbase u) @ drop sz ptr, take sz (uio_kbase u)));
            Some (EOK, ptr', u\<lparr>uio_kdone := uio_kdone u @ k, uio_kbase := drop sz (uio_kbase u)\<rparr>, m)
          }
      | _ \<Rightarrow>
          if uio_rw u = UIO_READ then
            do {
              (result, m') \<leftarrow> copyout m ptr (uio_ubase u) (of_nat sz);
              if result \<noteq> EOK then Some (result, ptr, u, m')
              else Some (EOK, ptr, u\<lparr>uio_ubase := uio_ubase u + of_nat sz\<rparr>, m')
            }
          else
            do {
              (result, ptr') \<leftarrow> copyin m (uio_ubase u) ptr (of_nat sz);
              if result \<noteq> EOK then Some (result, ptr', u, m)
              else Some (EOK, ptr', u\<lparr>uio_ubase := uio_ubase u + of_nat sz\<rparr>, m)
            })"

text \<open>The loop of \<^verbatim>\<open>uiomove\<close>; the buffer is cut at \<^verbatim>\<open>ptr\<close> in the same way.\<close>

function uiomove_loop ::
  "u8 list \<Rightarrow> u8 list \<Rightarrow> nat \<Rightarrow> uio \<Rightarrow> 'a machine_scheme \<Rightarrow> (errno \<times> u8 list \<times> uio \<times> 'a machine_scheme) kern" where
  "uiomove_loop pre ptr n u m =
     (if n > 0 \<and> uio_resid u > 0 then
        let sz = min (uio_iovlen u) n in
        if sz = 0 then None
        else
          (case uio_chunk ptr sz u m of
             None \<Rightarrow> None
           | Some (result, ptr', u', m') \<Rightarrow>
               if result \<noteq> EOK then Some (result, pre @ ptr', u', m')
               else uiomove_loop (pre @ take sz ptr') (drop sz ptr') (n - sz)
                 (u'\<lparr>uio_iovlen := uio_iovlen u' - sz, uio_resid := size_sub (uio_resid u') sz,
                     uio_offset := s32 (uio_offset u' + int sz)\<rparr>) m')
      else Some (EOK, pre @ ptr, u, m))"
  by pat_completeness auto
termination by (relation "measure (\<lambda>(pre, ptr, n, u, m). n)") auto

declare uiomove_loop.simps [simp del]

definition uiomove ::
  "u8 list \<Rightarrow> nat \<Rightarrow> uio \<Rightarrow> 'a machine_scheme \<Rightarrow> (errno \<times> u8 list \<times> uio \<times> 'a machine_scheme) kern" where
  "uiomove ptr n u m =
     do {
       (if uio_segflg u = UIO_SYSSPACE then kassert (uio_space u = None)
        else kassert (uio_space u = m_space m));
       uiomove_loop [] ptr n u m
     }"

function uiomovezeros_loop :: "nat \<Rightarrow> uio \<Rightarrow> 'a machine_scheme \<Rightarrow> (errno \<times> uio \<times> 'a machine_scheme) kern" where
  "uiomovezeros_loop n u m =
     (if n > 0 then
        let amt = min 16 n in
        (case uiomove (replicate 16 0) amt u m of
           None \<Rightarrow> None
         | Some (result, _, u', m') \<Rightarrow>
             if result \<noteq> EOK then Some (result, u', m') else uiomovezeros_loop (n - amt) u' m')
      else Some (EOK, u, m))"
  by pat_completeness auto
termination by (relation "measure (\<lambda>(n, u, m). n)") auto

declare uiomovezeros_loop.simps [simp del]

definition uiomovezeros :: "nat \<Rightarrow> uio \<Rightarrow> 'a machine_scheme \<Rightarrow> (errno \<times> uio \<times> 'a machine_scheme) kern" where
  "uiomovezeros n u m = do { kassert (uio_rw u = UIO_READ); uiomovezeros_loop n u m }"

definition mk_kuio :: "u8 list \<Rightarrow> int \<Rightarrow> uio_rw \<Rightarrow> uio" where
  "mk_kuio kbuf pos rw =
     \<lparr>uio_kdone = [], uio_kbase = kbuf, uio_ubase = 0, uio_iovlen = length kbuf, uio_offset = pos,
      uio_resid = length kbuf, uio_segflg = UIO_SYSSPACE, uio_rw = rw, uio_space = None\<rparr>"

section \<open>Transfers that succeed\<close>

text \<open>A kernel \<open>uio\<close> whose region and residue fit together, and the same \<open>uio\<close> once \<open>bs\<close> has gone
  through it: for a read \<open>bs\<close> has been stored in the region, for a write it came from there.\<close>

definition uio_ok :: "uio \<Rightarrow> bool" where
  "uio_ok u \<longleftrightarrow> uio_resid u \<le> uio_iovlen u \<and> uio_iovlen u \<le> length (uio_kbase u) \<and> uio_iovlen u < 2 ^ 31 \<and>
     - (2 ^ 31) \<le> uio_offset u \<and> uio_offset u < 2 ^ 31 \<and> uio_segflg u = UIO_SYSSPACE \<and> uio_space u = None"

definition uio_pass :: "u8 list \<Rightarrow> uio \<Rightarrow> uio" where
  "uio_pass bs u = u\<lparr>uio_kdone := uio_kdone u @ bs, uio_kbase := drop (length bs) (uio_kbase u),
     uio_iovlen := uio_iovlen u - length bs, uio_resid := uio_resid u - length bs,
     uio_offset := s32 (uio_offset u + int (length bs))\<rparr>"

lemma uio_pass_fields [simp]:
  "uio_kdone (uio_pass bs u) = uio_kdone u @ bs" "uio_kbase (uio_pass bs u) = drop (length bs) (uio_kbase u)"
  "uio_ubase (uio_pass bs u) = uio_ubase u" "uio_iovlen (uio_pass bs u) = uio_iovlen u - length bs"
  "uio_resid (uio_pass bs u) = uio_resid u - length bs" "uio_segflg (uio_pass bs u) = uio_segflg u"
  "uio_offset (uio_pass bs u) = s32 (uio_offset u + int (length bs))"
  "uio_rw (uio_pass bs u) = uio_rw u" "uio_space (uio_pass bs u) = uio_space u"
  by (simp_all add: uio_pass_def)

lemma uio_pass_Nil: "uio_ok u \<Longrightarrow> uio_pass [] u = u"
  by (cases u) (simp add: uio_pass_def uio_ok_def s32_id)

lemma uio_pass_pass: "uio_pass ys (uio_pass xs u) = uio_pass (xs @ ys) u"
  by (cases u) (simp add: uio_pass_def s32_add add.assoc add.commute [of "length ys"])

lemma uio_ok_pass: "uio_ok u \<Longrightarrow> length bs \<le> uio_resid u \<Longrightarrow> uio_ok (uio_pass bs u)"
  using s32_range [of "uio_offset u + int (length bs)"] by (auto simp: uio_ok_def)

text \<open>A single chunk is enough as long as the buffer of the \<open>uio\<close> is long enough.\<close>

lemma uiomove_one:
  assumes n: "n \<le> uio_resid u" and ok: "uio_ok u" and l: "n \<le> length ptr" "length bs = n"
    and c: "uio_chunk ptr n u m = Some (EOK, bs @ drop n ptr, u\<lparr>uio_kdone := uio_kdone u @ bs, uio_kbase := drop n (uio_kbase u)\<rparr>, m)"
  shows "uiomove ptr n u m = Some (EOK, bs @ drop n ptr, uio_pass bs u, m)"
proof (cases "n = 0")
  case True
  then show ?thesis using ok l
    by (subst uiomove_def, subst uiomove_loop.simps) (simp add: uio_ok_def uio_pass_Nil [OF ok])
next
  case False
  have s: "min (uio_iovlen u) n = n" using n ok by (simp add: uio_ok_def)
  have z: "uiomove_loop p q 0 v w = Some (EOK, p @ q, v, w)" for p q v and w :: "'a machine_scheme"
    by (subst uiomove_loop.simps) simp
  have r: "size_sub (uio_resid u) n = uio_resid u - n" using n ok by (simp add: uio_ok_def)
  have "uiomove_loop [] ptr n u m = Some (EOK, bs @ drop n ptr, uio_pass bs u, m)"
    using False n s c l by (subst uiomove_loop.simps) (simp add: z r uio_pass_def)
  then show ?thesis using ok by (simp add: uiomove_def uio_ok_def)
qed

lemma uiomove_read:
  assumes "n \<le> uio_resid u" and "uio_ok u" and "n \<le> length ptr" and "uio_rw u = UIO_READ"
  shows "uiomove ptr n u m = Some (EOK, ptr, uio_pass (take n ptr) u, m)"
  using uiomove_one [of n u ptr "take n ptr" m] assms by (simp add: uio_chunk_def uio_ok_def)

lemma uiomove_write:
  assumes "n \<le> uio_resid u" and "uio_ok u" and "n \<le> length ptr" and "uio_rw u = UIO_WRITE"
  shows "uiomove ptr n u m = Some (EOK, take n (uio_kbase u) @ drop n ptr, uio_pass (take n (uio_kbase u)) u, m)"
  using uiomove_one [of n u ptr "take n (uio_kbase u)" m] assms by (simp add: uio_chunk_def uio_ok_def)

lemma uiomovezeros_zeros:
  "n \<le> uio_resid u \<Longrightarrow> uio_ok u \<Longrightarrow> uio_rw u = UIO_READ \<Longrightarrow>
   uiomovezeros n u m = Some (EOK, uio_pass (replicate n 0) u, m)"
proof (induction n arbitrary: u rule: less_induct)
  case (less n)
  show ?case
  proof (cases "n = 0")
    case True
    then show ?thesis using less.prems by (subst uiomovezeros_def, subst uiomovezeros_loop.simps) (simp add: uio_pass_Nil)
  next
    case False
    let ?k = "min 16 n"
    let ?u = "uio_pass (replicate ?k 0) u"
    have mv: "uiomove (replicate 16 0) ?k u m = Some (EOK, replicate 16 0, ?u, m)"
      using uiomove_read [of ?k u "replicate 16 0" m] less.prems by (simp add: min.commute)
    have "uiomovezeros (n - ?k) ?u m = Some (EOK, uio_pass (replicate (n - ?k) 0) ?u, m)"
      by (rule less.IH) (use False less.prems uio_ok_pass in \<open>auto simp: min_def\<close>)
    moreover have "uio_pass (replicate (n - ?k) 0) ?u = uio_pass (replicate n 0) u"
      by (simp add: uio_pass_pass replicate_add [symmetric])
    ultimately show ?thesis
      using False mv less.prems by (subst uiomovezeros_def, subst uiomovezeros_loop.simps) (simp add: Let_def uiomovezeros_def)
  qed
qed

end
