(* ===== verification/Lhd.thy ===== *)
theory Lhd
  imports Uio
begin

text \<open>
  \<^verbatim>\<open>src/src/kern/dev/lamebus/lhd.c\<close>: the driver of the LAMEbus hard disk.

  \<open>lh_sectors\<close> is the medium. The disk itself is outside of the source: the status values it will
  report for the coming operations are the list \<open>lh_script\<close> (success when it runs out). An operation that
  reports success has transferred the sector between the medium and the on-card buffer; any other
  leaves both alone. The operation runs while the thread waits in \<^verbatim>\<open>P(lh_done)\<close> and ends with the
  interrupt that \<^verbatim>\<open>lhd_irq\<close> handles, so the model runs it at that point; a semaphore at zero that
  nobody is going to raise is a thread that never returns (\<open>None\<close>).
\<close>

record lhd = machine +
  lh_sectors :: "u8 list list"
  lh_buf :: "u8 list"
  lh_stat :: u32
  lh_script :: "u32 list"
  lh_clear :: int
  lh_done :: int
  lh_result :: errno

section \<open>The code\<close>

definition LHD_SECTSIZE :: nat where
  "LHD_SECTSIZE = 512"

definition LHD_IDLE :: u32 where "LHD_IDLE = 0"
definition LHD_WORKING :: u32 where "LHD_WORKING = 1"
definition LHD_OK :: u32 where "LHD_OK = 4"
definition LHD_INVSECT :: u32 where "LHD_INVSECT = 12"
definition LHD_MEDIA :: u32 where "LHD_MEDIA = 20"
definition LHD_ISWRITE :: u32 where "LHD_ISWRITE = 2"
definition LHD_STATEMASK :: u32 where "LHD_STATEMASK = 0x1d"

lemmas lhd_codes = LHD_IDLE_def LHD_WORKING_def LHD_OK_def LHD_INVSECT_def LHD_MEDIA_def LHD_ISWRITE_def LHD_STATEMASK_def

definition lhd_code_to_errno :: "u32 \<Rightarrow> errno" where
  "lhd_code_to_errno code =
     (let c = code AND LHD_STATEMASK in
      if c = LHD_OK then EOK else if c = LHD_INVSECT then EINVAL else if c = LHD_MEDIA then EIO else EAGAIN)"

definition lhd_iodone :: "errno \<Rightarrow> 'a lhd_scheme \<Rightarrow> 'a lhd_scheme" where
  "lhd_iodone err st = st\<lparr>lh_result := err, lh_done := lh_done st + 1\<rparr>"

definition lhd_irq :: "'a lhd_scheme \<Rightarrow> 'a lhd_scheme" where
  "lhd_irq st =
     (let val = lh_stat st; c = val AND LHD_STATEMASK in
      if c = LHD_IDLE \<or> c = LHD_WORKING then st
      else if c = LHD_OK \<or> c = LHD_INVSECT \<or> c = LHD_MEDIA
      then lhd_iodone (lhd_code_to_errno val) (st\<lparr>lh_stat := 0\<rparr>)
      else st)"

text \<open>The disk: what happens to the operation started by writing \<open>statval\<close> to the status register.\<close>

definition lhd_hardware :: "u32 \<Rightarrow> u32 \<Rightarrow> 'a lhd_scheme \<Rightarrow> 'a lhd_scheme" where
  "lhd_hardware sect statval st =
     (let val = (if unat sect < length (lh_sectors st) then (case lh_script st of [] \<Rightarrow> LHD_OK | v # _ \<Rightarrow> v) else LHD_INVSECT);
          st1 = st\<lparr>lh_script := tl (lh_script st), lh_stat := val OR (statval AND LHD_ISWRITE)\<rparr> in
      if val AND LHD_STATEMASK \<noteq> LHD_OK then st1
      else if statval AND LHD_ISWRITE \<noteq> 0 then st1\<lparr>lh_sectors := (lh_sectors st)[unat sect := lh_buf st]\<rparr>
      else st1\<lparr>lh_buf := lh_sectors st ! unat sect\<rparr>)"

definition lhd_P_clear :: "'a lhd_scheme \<Rightarrow> 'a lhd_scheme kern" where
  "lhd_P_clear st = do { kassert (lh_clear st > 0); Some (st\<lparr>lh_clear := lh_clear st - 1\<rparr>) }"

definition lhd_V_clear :: "'a lhd_scheme \<Rightarrow> 'a lhd_scheme" where
  "lhd_V_clear st = st\<lparr>lh_clear := lh_clear st + 1\<rparr>"

definition lhd_P_done :: "'a lhd_scheme \<Rightarrow> 'a lhd_scheme kern" where
  "lhd_P_done st = do { kassert (lh_done st > 0); Some (st\<lparr>lh_done := lh_done st - 1\<rparr>) }"

text \<open>One sector of \<^verbatim>\<open>lhd_io\<close>.\<close>

definition lhd_sector :: "u32 \<Rightarrow> uio \<Rightarrow> 'a lhd_scheme \<Rightarrow> (errno \<times> uio \<times> 'a lhd_scheme) kern" where
  "lhd_sector sect u st =
     do {
       st1 \<leftarrow> lhd_P_clear st;
       (result, u2, st2) \<leftarrow>
         (if uio_rw u = UIO_WRITE then
            do { (result, buf, u', st') \<leftarrow> uiomove (lh_buf st1) LHD_SECTSIZE u st1; Some (result, u', st'\<lparr>lh_buf := buf\<rparr>) }
          else Some (EOK, u, st1));
       if result \<noteq> EOK then Some (result, u2, lhd_V_clear st2)
       else do {
         let statval = (if uio_rw u = UIO_WRITE then LHD_WORKING OR LHD_ISWRITE else LHD_WORKING);
         st3 \<leftarrow> lhd_P_done (lhd_irq (lhd_hardware sect statval st2));
         let result = lh_result st3;
         (result, u4, st4) \<leftarrow>
           (if result = EOK \<and> uio_rw u = UIO_READ then
              do { (result, buf, u', st') \<leftarrow> uiomove (lh_buf st3) LHD_SECTSIZE u2 st3; Some (result, u', st') }
            else Some (result, u2, st3));
         Some (result, u4, lhd_V_clear st4)
       }
     }"

fun lhd_loop :: "u32 \<Rightarrow> nat \<Rightarrow> uio \<Rightarrow> 'a lhd_scheme \<Rightarrow> (errno \<times> uio \<times> 'a lhd_scheme) kern" where
  "lhd_loop sect 0 u st = Some (EOK, u, st)"
| "lhd_loop sect (Suc n) u st =
     do {
       (result, u', st') \<leftarrow> lhd_sector sect u st;
       if result \<noteq> EOK then Some (result, u', st') else lhd_loop (sect + 1) n u' st'
     }"

definition lhd_io :: "uio \<Rightarrow> 'a lhd_scheme \<Rightarrow> (errno \<times> uio \<times> 'a lhd_scheme) kern" where
  "lhd_io u st =
     (let sect = of_int (cdiv (uio_offset u) (int LHD_SECTSIZE));
          sectoff = cmod (uio_offset u) (int LHD_SECTSIZE);
          len = uio_resid u div LHD_SECTSIZE;
          lenoff = uio_resid u mod LHD_SECTSIZE in
      if sectoff \<noteq> 0 \<or> lenoff \<noteq> 0 then Some (EINVAL, u, st)
      else if (sect :: u32) + of_nat len > of_nat (length (lh_sectors st)) then Some (EINVAL, u, st)
      else lhd_loop sect len u st)"

definition lhd_open :: "u32 \<Rightarrow> errno" where
  "lhd_open openflags = EOK"

definition lhd_close :: errno where
  "lhd_close = EOK"

definition lhd_ioctl :: "int \<Rightarrow> u32 \<Rightarrow> errno" where
  "lhd_ioctl op data = EIOCTL"

section \<open>One sector\<close>

text \<open>A disk nobody is using, with sectors of the right size, whose next operation succeeds.\<close>

definition lhd_ok :: "'a lhd_scheme \<Rightarrow> bool" where
  "lhd_ok st \<longleftrightarrow> list_all (\<lambda>s. length s = 512) (lh_sectors st) \<and> length (lh_buf st) = 512 \<and> lh_clear st = 1 \<and> lh_done st = 0 \<and>
     length (lh_sectors st) < 2 ^ 22"

definition lhd_good :: "'a lhd_scheme \<Rightarrow> bool" where
  "lhd_good st \<longleftrightarrow> (case lh_script st of [] \<Rightarrow> True | v # _ \<Rightarrow> v AND LHD_STATEMASK = LHD_OK)"

lemma status_or_write: "(v OR w AND LHD_ISWRITE) AND LHD_STATEMASK = v AND LHD_STATEMASK"
  by (rule bit_eqI) (auto simp: bit_simps lhd_codes)

lemma lhd_distinct [simp]:
  "LHD_OK \<noteq> LHD_IDLE" "LHD_OK \<noteq> LHD_WORKING" "LHD_INVSECT \<noteq> LHD_IDLE" "LHD_INVSECT \<noteq> LHD_WORKING"
  "LHD_MEDIA \<noteq> LHD_IDLE" "LHD_MEDIA \<noteq> LHD_WORKING" "LHD_INVSECT \<noteq> LHD_OK" "LHD_MEDIA \<noteq> LHD_OK" "LHD_MEDIA \<noteq> LHD_INVSECT"
  by (simp_all add: lhd_codes)

lemmas lhd_distinct' [simp] = lhd_distinct [symmetric]

lemma lhd_done_ok:
  assumes "val AND LHD_STATEMASK \<in> {LHD_OK, LHD_INVSECT, LHD_MEDIA}" and "lh_done st = 0" and "lh_stat st = val OR w AND LHD_ISWRITE"
  shows "lhd_P_done (lhd_irq st) = Some (st\<lparr>lh_stat := 0, lh_result := lhd_code_to_errno val\<rparr>)"
proof -
  have c: "lhd_code_to_errno (val OR w AND LHD_ISWRITE) = lhd_code_to_errno val"
    by (simp add: lhd_code_to_errno_def status_or_write)
  have "lhd_irq st = lhd_iodone (lhd_code_to_errno val) (st\<lparr>lh_stat := 0\<rparr>)"
    using assms by (auto simp: lhd_irq_def status_or_write c Let_def)
  then show ?thesis using assms(2) by (cases st) (simp add: lhd_P_done_def lhd_iodone_def)
qed

lemma errno_of_OK: "val AND LHD_STATEMASK = LHD_OK \<Longrightarrow> lhd_code_to_errno val = EOK"
  by (simp add: lhd_code_to_errno_def)

definition lhd_next :: "'a lhd_scheme \<Rightarrow> u32" where
  "lhd_next st = (case lh_script st of [] \<Rightarrow> LHD_OK | v # _ \<Rightarrow> v)"

lemma lhd_good_next: "lhd_good st \<longleftrightarrow> lhd_next st AND LHD_STATEMASK = LHD_OK"
  by (simp add: lhd_good_def lhd_next_def lhd_codes split: list.split)

lemma lhd_sector_read:
  assumes ok: "lhd_ok st" "lhd_good st" and s: "unat sect < length (lh_sectors st)"
    and u: "uio_ok u" "uio_rw u = UIO_READ" "512 \<le> uio_resid u"
  shows "lhd_sector sect u st = Some (EOK, uio_pass (lh_sectors st ! unat sect) u,
    st\<lparr>lh_buf := lh_sectors st ! unat sect, lh_stat := 0, lh_script := tl (lh_script st), lh_result := EOK\<rparr>)"
proof -
  let ?b = "lh_sectors st ! unat sect"
  have lb: "length ?b = 512" using ok(1) s by (simp add: lhd_ok_def list_all_length)
  let ?s1 = "st\<lparr>lh_clear := 0\<rparr>"
  have p: "lhd_P_clear st = Some ?s1" using ok(1) by (simp add: lhd_P_clear_def lhd_ok_def)
  have n: "lhd_next st AND LHD_STATEMASK = LHD_OK" using ok(2) by (simp add: lhd_good_next)
  let ?s2 = "?s1\<lparr>lh_script := tl (lh_script st), lh_stat := lhd_next st OR (LHD_WORKING AND LHD_ISWRITE), lh_buf := ?b\<rparr>"
  have h: "lhd_hardware sect LHD_WORKING ?s1 = ?s2"
    using s n by (simp add: lhd_hardware_def Let_def lhd_next_def [symmetric] lhd_codes)
  let ?s3 = "?s2\<lparr>lh_stat := 0, lh_result := EOK\<rparr>"
  have d: "lhd_P_done (lhd_irq ?s2) = Some ?s3"
    using lhd_done_ok [of "lhd_next st" ?s2 LHD_WORKING] n ok(1) errno_of_OK [OF n] by (simp add: lhd_ok_def)
  have m: "uiomove ?b LHD_SECTSIZE u ?s3 = Some (EOK, ?b, uio_pass ?b u, ?s3)"
    using uiomove_read [of LHD_SECTSIZE u ?b ?s3] u lb by (simp add: LHD_SECTSIZE_def)
  have "lhd_sector sect u st = Some (EOK, uio_pass ?b u, lhd_V_clear ?s3)"
    using p h d m u(2) by (simp add: lhd_sector_def)
  moreover have "lhd_V_clear ?s3 = st\<lparr>lh_buf := ?b, lh_stat := 0, lh_script := tl (lh_script st), lh_result := EOK\<rparr>"
    using ok(1) by (cases st) (simp add: lhd_V_clear_def lhd_ok_def)
  ultimately show ?thesis by simp
qed

lemma lhd_sector_write:
  assumes ok: "lhd_ok st" "lhd_good st" and s: "unat sect < length (lh_sectors st)"
    and u: "uio_ok u" "uio_rw u = UIO_WRITE" "512 \<le> uio_resid u"
  shows "lhd_sector sect u st = Some (EOK, uio_pass (take 512 (uio_kbase u)) u,
    st\<lparr>lh_buf := take 512 (uio_kbase u), lh_stat := 0, lh_script := tl (lh_script st), lh_result := EOK,
       lh_sectors := (lh_sectors st)[unat sect := take 512 (uio_kbase u)]\<rparr>)"
proof -
  let ?b = "take 512 (uio_kbase u)"
  let ?s1 = "st\<lparr>lh_clear := 0\<rparr>"
  have p: "lhd_P_clear st = Some ?s1" using ok(1) by (simp add: lhd_P_clear_def lhd_ok_def)
  have m: "uiomove (lh_buf ?s1) LHD_SECTSIZE u ?s1 = Some (EOK, ?b, uio_pass ?b u, ?s1)"
    using uiomove_write [of LHD_SECTSIZE u "lh_buf ?s1" ?s1] u ok(1) by (simp add: LHD_SECTSIZE_def lhd_ok_def)
  have n: "lhd_next st AND LHD_STATEMASK = LHD_OK" using ok(2) by (simp add: lhd_good_next)
  let ?w = "LHD_WORKING OR LHD_ISWRITE"
  have w: "?w AND LHD_ISWRITE \<noteq> 0" by (simp add: lhd_codes)
  let ?s2 = "?s1\<lparr>lh_buf := ?b, lh_script := tl (lh_script st), lh_stat := lhd_next st OR (?w AND LHD_ISWRITE),
      lh_sectors := (lh_sectors st)[unat sect := ?b]\<rparr>"
  have h: "lhd_hardware sect ?w (?s1\<lparr>lh_buf := ?b\<rparr>) = ?s2"
    using s n w by (cases st) (simp add: lhd_hardware_def Let_def lhd_next_def)
  let ?s3 = "?s2\<lparr>lh_stat := 0, lh_result := EOK\<rparr>"
  have d: "lhd_P_done (lhd_irq ?s2) = Some ?s3"
    using lhd_done_ok [of "lhd_next st" ?s2 ?w] n ok(1) errno_of_OK [OF n] by (simp add: lhd_ok_def)
  have "lhd_sector sect u st = Some (EOK, uio_pass ?b u, lhd_V_clear ?s3)"
    using p m h d u(2) by (simp add: lhd_sector_def)
  moreover have "lhd_V_clear ?s3 = st\<lparr>lh_buf := ?b, lh_stat := 0, lh_script := tl (lh_script st), lh_result := EOK,
      lh_sectors := (lh_sectors st)[unat sect := ?b]\<rparr>"
    using ok(1) by (cases st) (simp add: lhd_V_clear_def lhd_ok_def)
  ultimately show ?thesis by simp
qed

text \<open>A media error: a read can be tried again, but a write has already used up its \<open>uio\<close>.\<close>

lemma lhd_sector_media:
  assumes ok: "lhd_ok st" and n: "lhd_next st AND LHD_STATEMASK = LHD_MEDIA" and s: "unat sect < length (lh_sectors st)"
    and u: "uio_ok u" "512 \<le> uio_resid u"
  shows "\<exists>b. length b = 512 \<and> lhd_sector sect u st = Some (EIO, if uio_rw u = UIO_WRITE then uio_pass (take 512 (uio_kbase u)) u else u,
    st\<lparr>lh_buf := b, lh_stat := 0, lh_script := tl (lh_script st), lh_result := EIO\<rparr>)"
proof -
  let ?b = "if uio_rw u = UIO_WRITE then take 512 (uio_kbase u) else lh_buf st"
  let ?u = "if uio_rw u = UIO_WRITE then uio_pass (take 512 (uio_kbase u)) u else u"
  let ?s1 = "st\<lparr>lh_clear := 0\<rparr>"
  have p: "lhd_P_clear st = Some ?s1" using ok by (simp add: lhd_P_clear_def lhd_ok_def)
  have m: "uio_rw u = UIO_WRITE \<Longrightarrow> uiomove (lh_buf ?s1) LHD_SECTSIZE u ?s1 = Some (EOK, ?b, ?u, ?s1)"
    using uiomove_write [of LHD_SECTSIZE u "lh_buf ?s1" ?s1] u ok by (simp add: LHD_SECTSIZE_def lhd_ok_def)
  let ?w = "if uio_rw u = UIO_WRITE then LHD_WORKING OR LHD_ISWRITE else LHD_WORKING"
  let ?s2 = "?s1\<lparr>lh_buf := ?b, lh_script := tl (lh_script st), lh_stat := lhd_next st OR (?w AND LHD_ISWRITE)\<rparr>"
  have h: "lhd_hardware sect ?w (?s1\<lparr>lh_buf := ?b\<rparr>) = ?s2"
    using s n by (cases st) (simp add: lhd_hardware_def Let_def lhd_next_def)
  have e: "lhd_code_to_errno (lhd_next st) = EIO" using n by (simp add: lhd_code_to_errno_def)
  let ?s3 = "?s2\<lparr>lh_stat := 0, lh_result := EIO\<rparr>"
  have d: "lhd_P_done (lhd_irq ?s2) = Some ?s3"
    using lhd_done_ok [of "lhd_next st" ?s2 ?w] n ok e by (simp add: lhd_ok_def)
  have "lhd_sector sect u st = Some (EIO, ?u, lhd_V_clear ?s3)"
  proof (cases "uio_rw u = UIO_WRITE")
    case True
    then show ?thesis using p m h d by (simp add: lhd_sector_def)
  next
    case False
    moreover have "?s1\<lparr>lh_buf := lh_buf st\<rparr> = ?s1" by (cases st) simp
    ultimately show ?thesis using p h d by (simp add: lhd_sector_def)
  qed
  moreover have "lhd_V_clear ?s3 = st\<lparr>lh_buf := ?b, lh_stat := 0, lh_script := tl (lh_script st), lh_result := EIO\<rparr>"
    using ok by (cases st) (simp add: lhd_V_clear_def lhd_ok_def)
  moreover have "length ?b = 512" using ok u by (simp add: lhd_ok_def uio_ok_def)
  ultimately show ?thesis by metis
qed

text \<open>A transfer of exactly one sector.\<close>

lemma lhd_io_one:
  assumes "lhd_ok st" and "b < length (lh_sectors st)" and "uio_offset u = int b * 512" and "uio_resid u = 512"
  shows "lhd_io u st = lhd_sector (of_nat b) u st"
proof -
  have b: "b < 2 ^ 22" using assms(1,2) by (simp add: lhd_ok_def)
  then have ub: "unat (of_nat b :: u32) = b" by (simp add: unat_of_nat)
  have s: "cdiv (uio_offset u) (int LHD_SECTSIZE) = int b" "cmod (uio_offset u) (int LHD_SECTSIZE) = 0"
    using assms(3) by (simp_all add: LHD_SECTSIZE_def cdiv_pos cmod_pos)
  have "unat (of_nat b + 1 :: u32) = b + 1" using b ub by (simp add: unat_Suc_u32)
  moreover have "unat (of_nat (length (lh_sectors st)) :: u32) = length (lh_sectors st)"
    using assms(1) by (simp add: lhd_ok_def unat_of_nat)
  ultimately have c: "\<not> (of_nat (length (lh_sectors st)) < (of_nat b + 1 :: u32))"
    using assms(2) by (simp add: word_less_nat_alt)
  have "lhd_loop (of_nat b) (Suc 0) u st = lhd_sector (of_nat b) u st"
    by (cases "lhd_sector (of_nat b) u st") auto
  then show ?thesis using s c assms(4) by (simp add: lhd_io_def LHD_SECTSIZE_def Let_def)
qed

end
