(* ===== verification/Kbitmap.thy ===== *)
theory Kbitmap
  imports Contracts
begin

text \<open>
  \<^verbatim>\<open>src/src/kern/lib/bitmap.c\<close>: the bitmap SFS keeps its free-block map in.

  The record \<open>bitmap\<close> is \<^verbatim>\<open>struct bitmap\<close>; \<^verbatim>\<open>WORD_TYPE\<close> is a byte, so that the data can be
  written to disk as it is. All index arithmetic is done in \<^verbatim>\<open>u_int32_t\<close>. The invariant
  \<open>b_inv\<close> includes what \<^verbatim>\<open>bitmap_create\<close> sets up for \<^verbatim>\<open>bitmap_alloc\<close>: the bits behind
  \<^verbatim>\<open>nbits\<close> in the last byte are marked, so that a byte different from \<^verbatim>\<open>0xff\<close> always has a free
  bit below \<^verbatim>\<open>nbits\<close>. The \<open>bit_allocator\<close> contract is interpreted as \<open>kb\<close>.
\<close>

section \<open>The code\<close>

record bitmap =
  b_nbits :: u32
  b_v :: "u8 list"

definition divroundup8 :: "u32 \<Rightarrow> u32" where
  "divroundup8 n = (n + 8 - 1) div 8"

definition byte_at :: "u8 list \<Rightarrow> u32 \<Rightarrow> u8 kern" where
  "byte_at v ix = (if unat ix < length v then Some (v ! unat ix) else None)"

definition bitmap_create :: "bool \<Rightarrow> bool \<Rightarrow> u32 \<Rightarrow> bitmap option kern" where
  "bitmap_create km1 km2 nbits =
     (let words = divroundup8 nbits in
      if \<not> kmalloc_ok km1 8 then Some None
      else if \<not> kmalloc_ok km2 (uint words) then Some None
      else
        let v = replicate (unat words) 0 in
        if nbits div 8 < words then
          do {
            let ix = words - 1;
            let overbits = nbits - ix * 8;
            kassert (nbits div 8 = words - 1);
            kassert (overbits > 0 \<and> overbits < 8);
            w \<leftarrow> byte_at v ix;
            Some (Some \<lparr>b_nbits = nbits,
              b_v = v[unat ix := foldl (\<lambda>w j. w OR push_bit j 1) w [unat overbits..<8]]\<rparr>)
          }
        else Some (Some \<lparr>b_nbits = nbits, b_v = v\<rparr>))"

definition bitmap_getdata :: "bitmap \<Rightarrow> u8 list" where
  "bitmap_getdata b = b_v b"

text \<open>The inner loop of \<^verbatim>\<open>bitmap_alloc\<close>: the first clear bit of a byte.\<close>

definition clear_offset :: "u8 \<Rightarrow> nat option" where
  "clear_offset w = find (\<lambda>offset. w AND push_bit offset 1 = 0) [0..<8]"

function bitmap_scan :: "bitmap \<Rightarrow> nat \<Rightarrow> nat \<Rightarrow> (errno \<times> u32 \<times> bitmap) kern" where
  "bitmap_scan b ix maxix =
     (if ix < maxix then
        do {
          w \<leftarrow> byte_at (b_v b) (of_nat ix);
          if w \<noteq> 0xff then
            (case clear_offset w of
               None \<Rightarrow> None
             | Some offset \<Rightarrow>
                 do {
                   let index = of_nat ix * 8 + of_nat offset;
                   kassert (index < b_nbits b);
                   Some (EOK, index, b\<lparr>b_v := (b_v b)[ix := w OR push_bit offset 1]\<rparr>)
                 })
          else bitmap_scan b (ix + 1) maxix
        }
      else Some (ENOSPC, 0, b))"
  by pat_completeness auto
termination by (relation "measure (\<lambda>(b, ix, maxix). maxix - ix)") auto

declare bitmap_scan.simps [simp del]

definition bitmap_alloc :: "bitmap \<Rightarrow> (errno \<times> u32 \<times> bitmap) kern" where
  "bitmap_alloc b = bitmap_scan b 0 (unat (divroundup8 (b_nbits b)))"

definition bitmap_translate :: "u32 \<Rightarrow> u32 \<times> u8" where
  "bitmap_translate bitno = (bitno div 8, push_bit (unat (bitno mod 8)) 1)"

definition bitmap_mark :: "bitmap \<Rightarrow> u32 \<Rightarrow> bitmap kern" where
  "bitmap_mark b index =
     do {
       kassert (index < b_nbits b);
       let (ix, mask) = bitmap_translate index;
       w \<leftarrow> byte_at (b_v b) ix;
       kassert (w AND mask = 0);
       Some (b\<lparr>b_v := (b_v b)[unat ix := w OR mask]\<rparr>)
     }"

definition bitmap_unmark :: "bitmap \<Rightarrow> u32 \<Rightarrow> bitmap kern" where
  "bitmap_unmark b index =
     do {
       kassert (index < b_nbits b);
       let (ix, mask) = bitmap_translate index;
       w \<leftarrow> byte_at (b_v b) ix;
       kassert (w AND mask \<noteq> 0);
       Some (b\<lparr>b_v := (b_v b)[unat ix := w AND NOT mask]\<rparr>)
     }"

definition bitmap_isset :: "bitmap \<Rightarrow> u32 \<Rightarrow> int kern" where
  "bitmap_isset b index =
     do {
       let (ix, mask) = bitmap_translate index;
       w \<leftarrow> byte_at (b_v b) ix;
       Some (uint (w AND mask))
     }"

section \<open>The bits of a bitmap\<close>

definition b_bit :: "u8 list \<Rightarrow> nat \<Rightarrow> bool" where
  "b_bit v i = bit (v ! (i div 8)) (i mod 8)"

definition b_bits :: "bitmap \<Rightarrow> bool list" where
  "b_bits b = map (b_bit (b_v b)) [0..<unat (b_nbits b)]"

definition b_inv :: "bitmap \<Rightarrow> bool" where
  "b_inv b \<longleftrightarrow> unat (b_nbits b) + 8 \<le> 2 ^ 32 \<and> length (b_v b) = (unat (b_nbits b) + 7) div 8 \<and>
     list_all (b_bit (b_v b)) [unat (b_nbits b)..<8 * length (b_v b)]"

lemma length_b_bits [simp]: "length (b_bits b) = unat (b_nbits b)"
  by (simp add: b_bits_def)

lemma nth_b_bits: "i < unat (b_nbits b) \<Longrightarrow> b_bits b ! i = b_bit (b_v b) i"
  by (simp add: b_bits_def)

lemma unat_divroundup8: "unat n + 8 \<le> 2 ^ 32 \<Longrightarrow> unat (divroundup8 n) = (unat n + 7) div 8"
proof -
  assume a: "unat n + 8 \<le> 2 ^ 32"
  have "n + 8 - 1 = n + 7" by simp
  moreover have "unat (n + 7) = unat n + 7"
    using a by (simp add: unat_word_ariths)
  moreover have "unat (8 :: u32) = 8" by simp
  ultimately show ?thesis by (simp only: divroundup8_def unat_div)
qed

lemma byte_mask_clear: "k < 8 \<Longrightarrow> (w :: u8) AND 2 ^ k = 0 \<longleftrightarrow> \<not> bit w k"
  by (simp add: and_exp_eq_0_iff_not_bit push_bit_eq_mult)

lemma byte_mask_set: "k < 8 \<Longrightarrow> j < 8 \<Longrightarrow> bit ((w :: u8) OR 2 ^ k) j \<longleftrightarrow> bit w j \<or> j = k"
  by (auto simp: bit_simps)

lemma byte_mask_unset: "k < 8 \<Longrightarrow> j < 8 \<Longrightarrow> bit ((w :: u8) AND NOT (2 ^ k)) j \<longleftrightarrow> bit w j \<and> j \<noteq> k"
  by (auto simp: bit_simps)

lemma byte_full: "(w :: u8) = 0xff \<longleftrightarrow> (\<forall>k<8. bit w k)"
proof -
  have "(0xff :: u8) = - 1" by simp
  then show ?thesis by (auto simp: bit_eq_iff)
qed

lemma byte_at_nth: "ix < length v \<Longrightarrow> ix < 2 ^ 32 \<Longrightarrow> byte_at v (of_nat ix) = Some (v ! ix)"
  by (simp add: byte_at_def unat_of_nat)

lemma byte_at_div:
  "b_inv b \<Longrightarrow> unat i < unat (b_nbits b) \<Longrightarrow>
   unat i div 8 < length (b_v b) \<and> byte_at (b_v b) (i div 8) = Some (b_v b ! (unat i div 8))"
  by (auto simp: byte_at_def b_inv_def unat_div)

lemma b_bit_update:
  assumes "i div 8 < length v"
    and "\<And>k. k < 8 \<Longrightarrow> bit w k \<longleftrightarrow> (if k = i mod 8 then x else bit (v ! (i div 8)) k)"
  shows "b_bit (v[i div 8 := w]) j = (if j = i then x else b_bit v j)"
proof -
  have "j = i \<longleftrightarrow> j div 8 = i div 8 \<and> j mod 8 = i mod 8" by (metis div_mult_mod_eq)
  with assms show ?thesis by (auto simp: b_bit_def nth_list_update)
qed

lemma b_bits_update:
  assumes "b_inv b" and "i < unat (b_nbits b)"
    and "\<And>j. b_bit v' j = (if j = i then x else b_bit (b_v b) j)" and "length v' = length (b_v b)"
  shows "b_inv (b\<lparr>b_v := v'\<rparr>) \<and> b_bits (b\<lparr>b_v := v'\<rparr>) = (b_bits b)[i := x]"
proof -
  have "b_bits (b\<lparr>b_v := v'\<rparr>) = (b_bits b)[i := x]"
    using assms(2,3) by (auto simp: b_bits_def nth_list_update intro!: nth_equalityI)
  then show ?thesis using assms by (auto simp: b_inv_def list_all_iff)
qed

section \<open>The operations on the bits\<close>

lemma bitmap_mark_bits:
  assumes "b_inv b" and i: "unat i < unat (b_nbits b)" and "\<not> b_bits b ! unat i"
  shows "\<exists>b'. bitmap_mark b i = Some b' \<and> b_inv b' \<and> b_nbits b' = b_nbits b \<and>
    b_bits b' = (b_bits b)[unat i := True]"
proof -
  let ?k = "unat i"
  let ?w = "b_v b ! (?k div 8)"
  let ?v = "(b_v b)[?k div 8 := ?w OR push_bit (?k mod 8) 1]"
  have at: "?k div 8 < length (b_v b)" "byte_at (b_v b) (i div 8) = Some ?w"
    using byte_at_div [OF assms(1) i] by simp_all
  have "bitmap_mark b i = Some (b\<lparr>b_v := ?v\<rparr>)"
    using assms(3) i at
    by (simp add: bitmap_mark_def bitmap_translate_def nth_b_bits b_bit_def byte_mask_clear
        word_less_nat_alt unat_div unat_mod)
  moreover have "b_bit ?v j = (if j = ?k then True else b_bit (b_v b) j)" for j
    by (rule b_bit_update [OF at(1)]) (simp add: byte_mask_set)
  ultimately show ?thesis
    using b_bits_update [OF assms(1) i, of ?v True] by simp
qed

lemma bitmap_unmark_bits:
  assumes "b_inv b" and i: "unat i < unat (b_nbits b)" and "b_bits b ! unat i"
  shows "\<exists>b'. bitmap_unmark b i = Some b' \<and> b_inv b' \<and> b_nbits b' = b_nbits b \<and>
    b_bits b' = (b_bits b)[unat i := False]"
proof -
  let ?k = "unat i"
  let ?w = "b_v b ! (?k div 8)"
  let ?v = "(b_v b)[?k div 8 := ?w AND NOT (push_bit (?k mod 8) 1)]"
  have at: "?k div 8 < length (b_v b)" "byte_at (b_v b) (i div 8) = Some ?w"
    using byte_at_div [OF assms(1) i] by simp_all
  have "bitmap_unmark b i = Some (b\<lparr>b_v := ?v\<rparr>)"
    using assms(3) i at
    by (simp add: bitmap_unmark_def bitmap_translate_def nth_b_bits b_bit_def byte_mask_clear
        word_less_nat_alt unat_div unat_mod)
  moreover have "b_bit ?v j = (if j = ?k then False else b_bit (b_v b) j)" for j
    by (rule b_bit_update [OF at(1)]) (simp add: byte_mask_unset)
  ultimately show ?thesis
    using b_bits_update [OF assms(1) i, of ?v False] by simp
qed

lemma bitmap_isset_bits:
  assumes "b_inv b" and i: "unat i < unat (b_nbits b)"
  shows "\<exists>r. bitmap_isset b i = Some r \<and> (r \<noteq> 0 \<longleftrightarrow> b_bits b ! unat i)"
  using byte_at_div [OF assms] i
  by (simp add: bitmap_isset_def bitmap_translate_def nth_b_bits b_bit_def byte_mask_clear
      unat_div unat_mod uint_0_iff)

lemma bitmap_mark_panics: "b_inv b \<Longrightarrow> unat i < unat (b_nbits b) \<Longrightarrow> b_bits b ! unat i \<Longrightarrow> bitmap_mark b i = None"
  using byte_at_div [of b i]
  by (simp add: bitmap_mark_def bitmap_translate_def nth_b_bits b_bit_def byte_mask_clear
      kassert_def unat_div unat_mod word_less_nat_alt)

lemma bitmap_unmark_panics:
  "b_inv b \<Longrightarrow> unat i < unat (b_nbits b) \<Longrightarrow> \<not> b_bits b ! unat i \<Longrightarrow> bitmap_unmark b i = None"
  using byte_at_div [of b i]
  by (simp add: bitmap_unmark_def bitmap_translate_def nth_b_bits b_bit_def byte_mask_clear
      kassert_def unat_div unat_mod word_less_nat_alt)

lemma clear_offset_cases:
  "(\<exists>k<8. clear_offset w = Some k \<and> \<not> bit w k \<and> (\<forall>j<k. bit w j)) \<or> clear_offset w = None \<and> w = 0xff"
proof (cases "clear_offset w")
  case None
  then have "\<forall>k<8. bit w k"
    by (auto simp: clear_offset_def find_None_iff byte_mask_clear)
  then have "w = 0xff" by (simp only: byte_full)
  with None show ?thesis by simp
next
  case (Some k)
  then obtain n where "n < 8" "\<not> bit w n" "k = n" "\<forall>j<n. bit w j"
    by (auto simp: clear_offset_def find_Some_iff byte_mask_clear)
  with Some show ?thesis by auto
qed

lemma bitmap_scan_hit:
  assumes inv: "b_inv b" and ix: "ix < length (b_v b)"
    and k: "k < 8" "clear_offset (b_v b ! ix) = Some k" "\<not> bit (b_v b ! ix) k"
  shows "\<exists>i b'. bitmap_scan b ix (length (b_v b)) = Some (EOK, i, b') \<and> unat i = ix * 8 + k \<and>
     unat i < unat (b_nbits b) \<and> b_inv b' \<and> b_nbits b' = b_nbits b \<and> b_bits b' = (b_bits b)[unat i := True]"
proof -
  let ?w = "b_v b ! ix"
  let ?i = "of_nat ix * 8 + of_nat k :: u32"
  let ?v = "(b_v b)[ix := ?w OR 2 ^ k]"
  have bnd: "unat (b_nbits b) + 8 \<le> 2 ^ 32" "length (b_v b) = (unat (b_nbits b) + 7) div 8"
    using inv by (simp_all add: b_inv_def)
  then have m: "8 * length (b_v b) < 2 ^ 32" by linarith
  then have "ix * 8 + k < 2 ^ 32" using ix k by linarith
  moreover have "?i = of_nat (ix * 8 + k)" by simp
  ultimately have ui: "unat ?i = ix * 8 + k" by (simp only: unat_of_nat) simp
  have free: "\<not> b_bit (b_v b) (ix * 8 + k)" using k by (simp add: b_bit_def)
  have lt: "ix * 8 + k < unat (b_nbits b)"
  proof (rule ccontr)
    assume "\<not> ix * 8 + k < unat (b_nbits b)"
    moreover have "ix * 8 + k < 8 * length (b_v b)" using ix k by linarith
    ultimately have "b_bit (b_v b) (ix * 8 + k)" using inv by (simp add: b_inv_def list_all_iff)
    with free show False by simp
  qed
  have full: "?w \<noteq> 0xff" using k byte_full by blast
  have at: "byte_at (b_v b) (of_nat ix) = Some ?w" using ix m by (simp add: byte_at_nth)
  have "bitmap_scan b ix (length (b_v b)) = Some (EOK, ?i, b\<lparr>b_v := ?v\<rparr>)"
    using ix at full k(2) lt ui by (subst bitmap_scan.simps) (simp add: word_less_nat_alt)
  moreover have "b_bit ?v j = (if j = ix * 8 + k then True else b_bit (b_v b) j)" for j
    using b_bit_update [of "ix * 8 + k" "b_v b" "?w OR 2 ^ k" True j] ix k(1)
    by (simp add: byte_mask_set)
  ultimately show ?thesis
    using b_bits_update [OF inv lt, of ?v True] ui lt by auto
qed

lemma bitmap_scan_bits:
  assumes inv: "b_inv b"
  shows "ix \<le> length (b_v b) \<Longrightarrow> \<forall>j<8 * ix. b_bit (b_v b) j \<Longrightarrow>
    (\<exists>i b'. bitmap_scan b ix (length (b_v b)) = Some (EOK, i, b') \<and> unat i < unat (b_nbits b) \<and>
       \<not> b_bits b ! unat i \<and> (\<forall>j<unat i. b_bits b ! j) \<and> b_inv b' \<and> b_nbits b' = b_nbits b \<and>
       b_bits b' = (b_bits b)[unat i := True]) \<or>
    bitmap_scan b ix (length (b_v b)) = Some (ENOSPC, 0, b) \<and> (\<forall>j<unat (b_nbits b). b_bits b ! j)"
proof (induction "length (b_v b) - ix" arbitrary: ix)
  case 0
  have "unat (b_nbits b) \<le> 8 * length (b_v b)" using inv by (simp add: b_inv_def)
  with 0 show ?case by (subst (2) bitmap_scan.simps) (simp add: nth_b_bits)
next
  case (Suc d)
  then have ix: "ix < length (b_v b)" by simp
  let ?w = "b_v b ! ix"
  consider k where "k < 8" "clear_offset ?w = Some k" "\<not> bit ?w k" "\<forall>j<k. bit ?w j" | "?w = 0xff"
    using clear_offset_cases by blast
  then show ?case
  proof cases
    case 1
    from bitmap_scan_hit [OF inv ix 1(1-3)] obtain i b' where
      r: "bitmap_scan b ix (length (b_v b)) = Some (EOK, i, b')" "unat i = ix * 8 + k"
        "unat i < unat (b_nbits b)" "b_inv b'" "b_nbits b' = b_nbits b" "b_bits b' = (b_bits b)[unat i := True]"
      by (elim exE conjE)
    have "b_bit (b_v b) j" if "j < ix * 8 + k" for j
    proof (cases "j < 8 * ix")
      case False
      then obtain r where "j = ix * 8 + r" by (metis le_iff_add mult.commute not_less)
      with that 1(1,4) show ?thesis by (simp add: b_bit_def)
    qed (use Suc.prems in simp)
    moreover have "\<not> b_bit (b_v b) (ix * 8 + k)" using 1 by (simp add: b_bit_def)
    ultimately show ?thesis using r by (auto simp: nth_b_bits)
  next
    case 2
    have "unat (b_nbits b) + 8 \<le> 2 ^ 32" "length (b_v b) = (unat (b_nbits b) + 7) div 8"
      using inv by (simp_all add: b_inv_def)
    then have "length (b_v b) \<le> 2 ^ 32" by linarith
    then have at: "byte_at (b_v b) (of_nat ix) = Some ?w" using ix by (simp add: byte_at_nth)
    have next_ix: "bitmap_scan b ix (length (b_v b)) = bitmap_scan b (Suc ix) (length (b_v b))"
      using ix at 2 by (subst bitmap_scan.simps) simp
    have "b_bit (b_v b) j" if "j < 8 * Suc ix" for j
    proof (cases "j < 8 * ix")
      case False
      then obtain r where "j = ix * 8 + r" by (metis le_iff_add mult.commute not_less)
      with that 2 byte_full [of ?w] show ?thesis by (simp add: b_bit_def)
    qed (use Suc.prems in simp)
    then show ?thesis using Suc.hyps(1) [of "Suc ix"] Suc.hyps(2) ix unfolding next_ix by simp
  qed
qed

lemma bitmap_alloc_bits:
  assumes inv: "b_inv b"
  shows "(\<exists>i b'. bitmap_alloc b = Some (EOK, i, b') \<and> unat i < unat (b_nbits b) \<and>
       \<not> b_bits b ! unat i \<and> (\<forall>j<unat i. b_bits b ! j) \<and> b_inv b' \<and> b_nbits b' = b_nbits b \<and>
       b_bits b' = (b_bits b)[unat i := True]) \<or>
    bitmap_alloc b = Some (ENOSPC, 0, b) \<and> (\<forall>j<unat (b_nbits b). b_bits b ! j)"
proof -
  have "unat (divroundup8 (b_nbits b)) = length (b_v b)"
    using inv unat_divroundup8 [of "b_nbits b"] by (simp add: b_inv_def)
  then show ?thesis
    using bitmap_scan_bits [OF inv, of 0] by (simp only: bitmap_alloc_def) simp
qed

lemma foldl_mask_bit:
  "k < 8 \<Longrightarrow> bit (foldl (\<lambda>w j. w OR 2 ^ j) (w :: u8) [a..<8]) k \<longleftrightarrow> bit w k \<or> a \<le> k"
proof -
  have "bit (foldl (\<lambda>w j. w OR 2 ^ j) w (js :: nat list)) k \<longleftrightarrow> bit w k \<or> k \<in> set js"
    if "k < 8" for js and w :: u8
    using that by (induction js arbitrary: w) (auto simp: bit_simps)
  then show "k < 8 \<Longrightarrow> ?thesis" by auto
qed

lemma create_overbits:
  fixes n :: u32
  assumes n: "unat n + 8 \<le> 2 ^ 32" and lt: "n div 8 < divroundup8 n"
  shows "unat (divroundup8 n - 1) = unat n div 8 \<and> unat (n - (divroundup8 n - 1) * 8) = unat n mod 8 \<and>
    unat (divroundup8 n) = Suc (unat n div 8) \<and> unat n mod 8 \<noteq> 0"
proof -
  have e8: "unat (8 :: u32) = 8" by simp
  have d: "unat (divroundup8 n) = (unat n + 7) div 8" using unat_divroundup8 [OF n] .
  have "unat n div 8 < (unat n + 7) div 8"
    using lt d by (simp only: word_less_nat_alt unat_div e8)
  then have m: "unat n mod 8 \<noteq> 0" "(unat n + 7) div 8 = Suc (unat n div 8)" by presburger+
  have "divroundup8 n \<noteq> 0" using d m by auto
  then have w: "unat (divroundup8 n - 1) = unat n div 8"
    using d m by (simp add: unat_minus_one)
  then have "divroundup8 n - 1 = n div 8"
    by (simp only: word_unat_eq_iff unat_div e8)
  then have "n - (divroundup8 n - 1) * 8 = n mod 8"
    by (simp only: minus_div_mult_eq_mod)
  then have "unat (n - (divroundup8 n - 1) * 8) = unat n mod 8"
    by (simp only: unat_mod e8)
  with w d m show ?thesis by simp
qed

lemma b_inv_create:
  assumes "unat n + 8 \<le> 2 ^ 32" and "length v = (unat n + 7) div 8"
    and "\<And>i. i < 8 * length v \<Longrightarrow> b_bit v i \<longleftrightarrow> unat n \<le> i"
  shows "b_inv \<lparr>b_nbits = n, b_v = v\<rparr> \<and> b_bits \<lparr>b_nbits = n, b_v = v\<rparr> = replicate (unat n) False"
proof -
  have "unat n \<le> 8 * length v" using assms(2) by linarith
  then show ?thesis
    using assms by (auto simp: b_inv_def b_bits_def list_all_iff intro!: nth_equalityI)
qed

lemma bitmap_create_bits:
  assumes n: "unat n + 8 \<le> 2 ^ 32"
  shows "bitmap_create km1 km2 n = Some None \<or>
    (\<exists>b. bitmap_create km1 km2 n = Some (Some b) \<and> b_inv b \<and> b_nbits b = n \<and>
       b_bits b = replicate (unat n) False)"
proof (cases "kmalloc_ok km1 8 \<and> kmalloc_ok km2 (uint (divroundup8 n))")
  case False
  then show ?thesis by (auto simp: bitmap_create_def Let_def)
next
  case ok: True
  define W where "W = unat (divroundup8 n)"
  have W: "W = (unat n + 7) div 8" using unat_divroundup8 [OF n] by (simp add: W_def)
  show ?thesis
  proof (cases "n div 8 < divroundup8 n")
    case True
    note o = create_overbits [OF n True]
    let ?v = "(replicate W (0 :: u8))[unat n div 8 := foldl (\<lambda>w j. w OR push_bit j 1) 0 [unat n mod 8..<8]]"
    have Ws: "W = Suc (unat n div 8)" using o by (simp add: W_def)
    have "b_bit ?v i \<longleftrightarrow> unat n \<le> i" if "i < 8 * length ?v" for i
    proof (cases "i div 8 = unat n div 8")
      case True
      then have "unat n mod 8 \<le> i mod 8 \<longleftrightarrow> unat n \<le> i"
        using div_mult_mod_eq [of i 8] div_mult_mod_eq [of "unat n" 8] by linarith
      moreover have "unat n div 8 < W" using Ws by simp
      ultimately show ?thesis using True by (simp add: b_bit_def foldl_mask_bit)
    next
      case False
      have "i < 8 * W" using that by (simp only: length_list_update length_replicate)
      with False Ws have "i div 8 < unat n div 8" by linarith
      moreover from this have "i < unat n" by (meson div_le_mono not_le)
      moreover have "i div 8 < W" using calculation(1) Ws by simp
      ultimately show ?thesis by (simp add: b_bit_def)
    qed
    then have "b_inv \<lparr>b_nbits = n, b_v = ?v\<rparr> \<and> b_bits \<lparr>b_nbits = n, b_v = ?v\<rparr> = replicate (unat n) False"
      by (intro b_inv_create [OF n]) (simp_all add: W)
    moreover have "bitmap_create km1 km2 n = Some (Some \<lparr>b_nbits = n, b_v = ?v\<rparr>)"
    proof -
      have "n div 8 = divroundup8 n - 1" using o by (simp only: word_unat_eq_iff unat_div) simp
      moreover have "0 < n - (divroundup8 n - 1) * 8 \<and> n - (divroundup8 n - 1) * 8 < 8"
        using o by (simp add: word_less_nat_alt)
      moreover have "byte_at (replicate (unat (divroundup8 n)) 0) (divroundup8 n - 1) = Some 0"
      proof -
        have "unat (divroundup8 n - 1) < unat (divroundup8 n)" using o by simp
        then show ?thesis by (simp add: byte_at_def)
      qed
      ultimately show ?thesis
        using ok True o by (simp add: bitmap_create_def Let_def W_def)
    qed
    ultimately show ?thesis by auto
  next
    case False
    have d: "\<not> unat n div 8 < (unat n + 7) div 8"
      using False W W_def by (simp only: word_less_nat_alt unat_div) simp
    then have "8 * ((unat n + 7) div 8) = unat n" by linarith
    then have "b_bit (replicate W 0) i \<longleftrightarrow> unat n \<le> i" if "i < 8 * W" for i
      using that W by (simp add: b_bit_def)
    then have "b_inv \<lparr>b_nbits = n, b_v = replicate W 0\<rparr> \<and>
        b_bits \<lparr>b_nbits = n, b_v = replicate W 0\<rparr> = replicate (unat n) False"
      by (intro b_inv_create [OF n]) (simp_all add: W)
    then show ?thesis using ok False by (simp add: bitmap_create_def Let_def W_def)
  qed
qed

section \<open>The contract\<close>

interpretation kb: bit_allocator b_inv b_bits bitmap_alloc bitmap_mark bitmap_unmark bitmap_isset
proof (unfold_locales, goal_cases)
  case (1 b)
  then show ?case using bitmap_alloc_bits [of b] by auto
next
  case (2 b i)
  then show ?case using bitmap_mark_bits [of b i] by auto
next
  case (3 b i)
  then show ?case using bitmap_unmark_bits [of b i] by auto
next
  case (4 b i)
  then show ?case using bitmap_isset_bits [of b i] by auto
qed

section \<open>Properties\<close>

text \<open>\<^verbatim>\<open>bitmap_alloc\<close> on a well-formed bitmap never panics. It hands out the lowest clear bit
  and marks exactly that bit, or it returns \<^verbatim>\<open>ENOSPC\<close>, changes nothing, and all bits are set.\<close>

theorem bitmap_alloc_lowest:
  assumes "b_inv b"
  shows "(\<exists>i b'. bitmap_alloc b = Some (EOK, i, b') \<and> i < b_nbits b \<and> \<not> b_bits b ! unat i \<and>
      list_all id (take (unat i) (b_bits b)) \<and> b_inv b' \<and> b_bits b' = (b_bits b)[unat i := True]) \<or>
    bitmap_alloc b = Some (ENOSPC, 0, b) \<and> list_all id (b_bits b)"
  using bitmap_alloc_bits [OF assms]
  by (auto simp: list_all_length word_less_nat_alt)

theorem bitmap_alloc_lowest_witness:
  "\<exists>i b'. bitmap_alloc \<lparr>b_nbits = 10, b_v = [0xff, 0xfd]\<rparr> = Some (EOK, i, b') \<and> unat i = 9"
proof -
  define b :: bitmap where "b = \<lparr>b_nbits = 10, b_v = [0xff, 0xfd]\<rparr>"
  have i: "b_inv b" by (simp add: b_inv_def b_def upt_rec b_bit_def)
  have l: "b_bits b = replicate 9 True @ [False]" unfolding b_def by code_simp
  then have "\<not> list_all id (b_bits b)" by simp
  with bitmap_alloc_lowest [OF i] obtain i b' where
    r: "bitmap_alloc b = Some (EOK, i, b')" "i < b_nbits b" "\<not> b_bits b ! unat i" by blast
  have "unat i < 10" using r(2) by (simp add: word_less_nat_alt b_def)
  then have "unat i = 9" using r(3) by (cases "unat i < 9") (simp_all add: l nth_append)
  with r(1) show ?thesis by (auto simp: b_def)
qed

text \<open>A bitmap made by \<^verbatim>\<open>bitmap_create(n)\<close> hands out \<^verbatim>\<open>n\<close> different indices below
  \<^verbatim>\<open>n\<close>, one per \<^verbatim>\<open>bitmap_alloc\<close>, and the allocation after that fails with \<^verbatim>\<open>ENOSPC\<close>.\<close>

theorem bitmap_create_alloc_all:
  assumes "unat n + 8 \<le> 2 ^ 32" and "bitmap_create km1 km2 n = Some (Some b)"
  shows "\<exists>is b'. kb.alloc_n (unat n) b = Some (is, b') \<and> length is = unat n \<and> distinct is \<and>
    list_all (\<lambda>i. i < n) is \<and> bitmap_alloc b' = Some (ENOSPC, 0, b')"
proof -
  from bitmap_create_bits [OF assms(1), of km1 km2] assms(2)
  have b: "b_inv b" "b_bits b = replicate (unat n) False" "b_nbits b = n" by auto
  then have f: "kb.free b = unat n" by (simp add: kb.free_def)
  then have "unat n \<le> kb.free b" by simp
  from kb.alloc_n_distinct [OF b(1) this] obtain "is" b' where
    r: "kb.alloc_n (unat n) b = Some (is, b')" "length is = unat n" "distinct is"
      "\<forall>i\<in>set is. unat i < length (b_bits b) \<and> \<not> b_bits b ! unat i" by blast
  from kb.alloc_n_free [OF b(1) r(1)] f have "b_inv b'" "kb.free b' = 0" by simp_all
  then have "bitmap_alloc b' = Some (ENOSPC, 0, b')" using kb.alloc_free [of b'] by auto
  with r b show ?thesis by (auto simp: list_all_iff word_less_nat_alt)
qed

theorem bitmap_create_alloc_all_witness:
  "\<exists>b is b'. bitmap_create True True 10 = Some (Some b) \<and> kb.alloc_n 10 b = Some (is, b') \<and>
     distinct is \<and> bitmap_alloc b' = Some (ENOSPC, 0, b')"
proof -
  have "\<exists>b. bitmap_create True True 10 = Some (Some b)"
    by (simp add: bitmap_create_def divroundup8_def kmalloc_ok_def RAM_MAX_def byte_at_def)
  then obtain b where b: "bitmap_create True True 10 = Some (Some b)" by blast
  from bitmap_create_alloc_all [OF _ b] b show ?thesis by auto
qed

end
