(* ===== verification/Sfs_Block.thy ===== *)
theory Sfs_Block
  imports Sfs_Layout Vnode Lhd Karray Kbitmap
begin

text \<open>
  The block level of SFS: \<^verbatim>\<open>src/src/kern/fs/sfs/sfs_io.c\<close> and the first part of
  \<^verbatim>\<open>src/src/kern/fs/sfs/sfs_vnode.c\<close>.

  \<open>sfs_fs\<close> is \<^verbatim>\<open>struct sfs_fs\<close> together with the disk it is mounted on and the memory its vnodes
  live in: \<open>sfs_v\<close> maps the address of a \<^verbatim>\<open>struct sfs_vnode\<close> to its contents, \<open>None\<close> for free memory;
  \<open>sfs_vnext\<close> is the address the next \<^verbatim>\<open>kmalloc\<close> of one will return.
  One operation runs at a time. Block buffers that the code declares \<^verbatim>\<open>static\<close> are filled completely
  before they are looked at, so the model does not keep their old contents.
\<close>

datatype sfs_ops = sfs_fileops | sfs_dirops

record sfs_vnode =
  sv_v :: "sfs_ops vnode"
  sv_i :: sfs_inode
  sv_ino :: u32
  sv_dirty :: bool

record sfs_fs = lhd +
  sfs_super :: sfs_super
  sfs_superdirty :: bool
  sfs_freemap :: bitmap
  sfs_freemapdirty :: bool
  sfs_vnodes :: "nat karray"
  sfs_v :: "nat \<Rightarrow> sfs_vnode option"
  sfs_vnext :: nat

section \<open>Block I/O\<close>

function sfs_retry :: "nat \<Rightarrow> uio \<Rightarrow> 'a lhd_scheme \<Rightarrow> (errno \<times> uio \<times> 'a lhd_scheme) kern" where
  "sfs_retry tries u st =
     (case lhd_io u st of
        None \<Rightarrow> None
      | Some (result, u', st') \<Rightarrow>
          if result = EINVAL then None
          else if result = EIO \<and> tries < 10 then sfs_retry (tries + 1) u' st'
          else Some (result, u', st'))"
  by pat_completeness auto
termination by (relation "measure (\<lambda>(tries, u, st). 10 - tries)") auto

declare sfs_retry.simps [simp del]

definition sfs_rwblock :: "uio \<Rightarrow> 'a lhd_scheme \<Rightarrow> (errno \<times> uio \<times> 'a lhd_scheme) kern" where
  "sfs_rwblock u st = sfs_retry 0 u st"

definition SFSUIO :: "u8 list \<Rightarrow> u32 \<Rightarrow> uio_rw \<Rightarrow> uio" where
  "SFSUIO data block rw = mk_kuio data (s32 (sint block * int SFS_BLOCKSIZE)) rw"

definition sfs_rblock :: "u8 list \<Rightarrow> u32 \<Rightarrow> 'a lhd_scheme \<Rightarrow> (errno \<times> u8 list \<times> 'a lhd_scheme) kern" where
  "sfs_rblock data block st =
     do {
       (result, u, st') \<leftarrow> sfs_rwblock (SFSUIO data block UIO_READ) st;
       Some (result, uio_kdone u @ uio_kbase u, st')
     }"

definition sfs_wblock :: "u8 list \<Rightarrow> u32 \<Rightarrow> 'a lhd_scheme \<Rightarrow> (errno \<times> 'a lhd_scheme) kern" where
  "sfs_wblock data block st =
     do {
       (result, u, st') \<leftarrow> sfs_rwblock (SFSUIO data block UIO_WRITE) st;
       Some (result, st')
     }"

definition sfs_clearblock :: "u32 \<Rightarrow> 'a lhd_scheme \<Rightarrow> (errno \<times> 'a lhd_scheme) kern" where
  "sfs_clearblock block st = sfs_wblock (replicate SFS_BLOCKSIZE 0) block st"

section \<open>Vnodes and the free map\<close>

abbreviation sv_put :: "nat \<Rightarrow> sfs_vnode \<Rightarrow> 'a sfs_fs_scheme \<Rightarrow> 'a sfs_fs_scheme" where
  "sv_put v sv st \<equiv> st\<lparr>sfs_v := (sfs_v st)(v := Some sv)\<rparr>"

definition sfs_sync_inode :: "nat \<Rightarrow> 'a sfs_fs_scheme \<Rightarrow> (errno \<times> 'a sfs_fs_scheme) kern" where
  "sfs_sync_inode v st =
     do {
       sv \<leftarrow> sfs_v st v;
       if sv_dirty sv then
         do {
           (result, st1) \<leftarrow> sfs_wblock (enc_inode (sv_i sv)) (sv_ino sv) st;
           if result \<noteq> EOK then Some (result, st1)
           else Some (EOK, sv_put v (sv\<lparr>sv_dirty := False\<rparr>) st1)
         }
       else Some (EOK, st)
     }"

definition sfs_balloc :: "'a sfs_fs_scheme \<Rightarrow> (errno \<times> u32 \<times> 'a sfs_fs_scheme) kern" where
  "sfs_balloc st =
     do {
       (result, diskblock, fm) \<leftarrow> bitmap_alloc (sfs_freemap st);
       if result \<noteq> EOK then Some (result, diskblock, st)
       else do {
         let st1 = st\<lparr>sfs_freemap := fm, sfs_freemapdirty := True\<rparr>;
         kassert (\<not> diskblock \<ge> sp_nblocks (sfs_super st1));
         (result, st2) \<leftarrow> sfs_clearblock diskblock st1;
         Some (result, diskblock, st2)
       }
     }"

definition sfs_bfree :: "u32 \<Rightarrow> 'a sfs_fs_scheme \<Rightarrow> 'a sfs_fs_scheme kern" where
  "sfs_bfree diskblock st =
     do {
       fm \<leftarrow> bitmap_unmark (sfs_freemap st) diskblock;
       Some (st\<lparr>sfs_freemap := fm, sfs_freemapdirty := True\<rparr>)
     }"

definition sfs_bused :: "u32 \<Rightarrow> 'a sfs_fs_scheme \<Rightarrow> bool kern" where
  "sfs_bused diskblock st =
     do {
       kassert (\<not> diskblock \<ge> sp_nblocks (sfs_super st));
       r \<leftarrow> bitmap_isset (sfs_freemap st) diskblock;
       Some (r \<noteq> 0)
     }"

text \<open>The end of both branches of \<^verbatim>\<open>sfs_bmap\<close>: hand back a block that must be marked in use.\<close>

definition bmap_return :: "u32 \<Rightarrow> 'a sfs_fs_scheme \<Rightarrow> (errno \<times> u32 \<times> 'a sfs_fs_scheme) kern" where
  "bmap_return block st =
     (if block \<noteq> 0 then do { used \<leftarrow> sfs_bused block st; kassert used; Some (EOK, block, st) }
      else Some (EOK, block, st))"

definition bmap_direct :: "nat \<Rightarrow> u32 \<Rightarrow> bool \<Rightarrow> 'a sfs_fs_scheme \<Rightarrow> (errno \<times> u32 \<times> 'a sfs_fs_scheme) kern" where
  "bmap_direct v fileblock doalloc st =
     do {
       sv \<leftarrow> sfs_v st v;
       let block = sfi_direct (sv_i sv) ! unat fileblock;
       if block = 0 \<and> doalloc then
         do {
           (result, block, st1) \<leftarrow> sfs_balloc st;
           if result \<noteq> EOK then Some (result, 0, st1)
           else bmap_return block (sv_put v (sv\<lparr>sv_i := (sv_i sv)\<lparr>sfi_direct := (sfi_direct (sv_i sv))[unat fileblock := block]\<rparr>,
             sv_dirty := True\<rparr>) st1)
         }
       else bmap_return block st
     }"

text \<open>The indirect block and its contents, allocated if it has to be.\<close>

definition bmap_idblock :: "nat \<Rightarrow> 'a sfs_fs_scheme \<Rightarrow> (errno \<times> u32 \<times> u32 list \<times> 'a sfs_fs_scheme) kern" where
  "bmap_idblock v st =
     do {
       sv \<leftarrow> sfs_v st v;
       let idblock = sfi_indirect (sv_i sv);
       if idblock = 0 then
         do {
           (result, idblock, st1) \<leftarrow> sfs_balloc st;
           if result \<noteq> EOK then Some (result, 0, [], st1)
           else Some (EOK, idblock, replicate SFS_DBPERIDB 0,
             sv_put v (sv\<lparr>sv_i := (sv_i sv)\<lparr>sfi_indirect := idblock\<rparr>, sv_dirty := True\<rparr>) st1)
         }
       else
         do {
           (result, idbuf, st1) \<leftarrow> sfs_rblock (replicate SFS_BLOCKSIZE 0) idblock st;
           Some (result, idblock, words_of idbuf, st1)
         }
     }"

definition bmap_indirect :: "nat \<Rightarrow> nat \<Rightarrow> bool \<Rightarrow> 'a sfs_fs_scheme \<Rightarrow> (errno \<times> u32 \<times> 'a sfs_fs_scheme) kern" where
  "bmap_indirect v idoff doalloc st =
     do {
       sv \<leftarrow> sfs_v st v;
       if sfi_indirect (sv_i sv) = 0 \<and> \<not> doalloc then Some (EOK, 0, st)
       else do {
         (result, idblock, idbuf, st1) \<leftarrow> bmap_idblock v st;
         if result \<noteq> EOK then Some (result, 0, st1)
         else if idbuf ! idoff = 0 \<and> doalloc then
           do {
             (result, block, st2) \<leftarrow> sfs_balloc st1;
             if result \<noteq> EOK then Some (result, 0, st2)
             else do {
               (result, st3) \<leftarrow> sfs_wblock (bytes_of (idbuf[idoff := block])) idblock st2;
               if result \<noteq> EOK then Some (result, 0, st3) else bmap_return block st3
             }
           }
         else bmap_return (idbuf ! idoff) st1
       }
     }"

definition sfs_bmap :: "nat \<Rightarrow> u32 \<Rightarrow> bool \<Rightarrow> 'a sfs_fs_scheme \<Rightarrow> (errno \<times> u32 \<times> 'a sfs_fs_scheme) kern" where
  "sfs_bmap v fileblock doalloc st =
     (if fileblock < of_nat SFS_NDIRECT then bmap_direct v fileblock doalloc st
      else
        let fileblock = fileblock - of_nat SFS_NDIRECT;
            idnum = fileblock div of_nat SFS_DBPERIDB; idoff = fileblock mod of_nat SFS_DBPERIDB in
        if idnum > 0 then Some (EINVAL, 0, st)
        else bmap_indirect v (unat idoff) doalloc st)"

section \<open>Blocks of a disk without faults\<close>

definition calm :: "'a lhd_scheme \<Rightarrow> bool" where
  "calm st \<longleftrightarrow> lhd_ok st \<and> lh_script st = []"

text \<open>The disk after a block has been read or written.\<close>

definition dsk_rd :: "nat \<Rightarrow> 'a lhd_scheme \<Rightarrow> 'a lhd_scheme" where
  "dsk_rd b st = st\<lparr>lh_buf := lh_sectors st ! b, lh_stat := 0, lh_result := EOK\<rparr>"

definition dsk_wr :: "nat \<Rightarrow> u8 list \<Rightarrow> 'a lhd_scheme \<Rightarrow> 'a lhd_scheme" where
  "dsk_wr b d st = st\<lparr>lh_sectors := (lh_sectors st)[b := d], lh_buf := d, lh_stat := 0, lh_result := EOK\<rparr>"

lemma sint_small: "unat (w :: u32) < 2 ^ 31 \<Longrightarrow> sint w = int (unat w)"
proof -
  assume a: "unat w < 2 ^ 31"
  have i: "uint w = int (unat w)" by simp
  from a have "unat w < 2147483648" by simp
  then have "int (unat w) < 2147483648" by linarith
  then have "uint w < 2 ^ 31" by simp
  moreover have "- (2 ^ 31) \<le> uint w" by (rule order_trans [OF _ uint_ge_0]) simp
  ultimately have "signed_take_bit 31 (uint w) = uint w" by (intro signed_take_bit_int_eq_self)
  then have "sint w = uint w" by (simp add: sint_uint)
  then show ?thesis using i by (rule trans)
qed

lemma sfsuio_ok:
  assumes "lhd_ok st" and "unat b < length (lh_sectors st)" and "length data = 512"
  shows "uio_ok (SFSUIO data b rw)" "uio_offset (SFSUIO data b rw) = int (unat b) * 512" "uio_resid (SFSUIO data b rw) = 512"
    "uio_kbase (SFSUIO data b rw) = data" "uio_kdone (SFSUIO data b rw) = []" "uio_rw (SFSUIO data b rw) = rw"
proof -
  obtain n where n: "n = unat b" by simp
  have b: "n < 2 ^ 22" using assms n by (simp add: lhd_ok_def)
  have "sint b = int n" unfolding n by (rule sint_small) (use b n in simp)
  moreover have "s32 (int n * 512) = int n * 512" using b by (intro s32_id) simp_all
  ultimately have o: "s32 (sint b * 512) = int n * 512" by simp
  have r: "- 2147483648 \<le> int n * 512" "int n * 512 < 2147483648" using b by simp_all
  show "uio_ok (SFSUIO data b rw)" "uio_offset (SFSUIO data b rw) = int (unat b) * 512" "uio_resid (SFSUIO data b rw) = 512"
    "uio_kbase (SFSUIO data b rw) = data" "uio_kdone (SFSUIO data b rw) = []" "uio_rw (SFSUIO data b rw) = rw"
    unfolding n [symmetric] using assms(3) o r by (simp_all add: SFSUIO_def mk_kuio_def SFS_BLOCKSIZE_def uio_ok_def)
qed

lemma retry_read:
  assumes "lhd_ok st" and "b < length (lh_sectors st)" and "uio_ok u" and "uio_offset u = int b * 512" and "uio_resid u = 512"
    and "uio_rw u = UIO_READ" and "lh_script st = errs @ rest" and "list_all (\<lambda>e. e AND LHD_STATEMASK = LHD_MEDIA) errs"
    and "length errs + tries \<le> 10" and "rest = [] \<or> hd rest AND LHD_STATEMASK = LHD_OK"
  shows "sfs_retry tries u st = Some (EOK, uio_pass (lh_sectors st ! b) u,
    st\<lparr>lh_buf := lh_sectors st ! b, lh_stat := 0, lh_script := tl rest, lh_result := EOK\<rparr>)"
  using assms
proof (induction errs arbitrary: tries st)
  case Nil
  have ub: "unat (of_nat b :: u32) = b" using Nil.prems(1,2) by (simp add: lhd_ok_def unat_of_nat)
  have g: "lhd_good st" using Nil.prems(7,10) by (auto simp: lhd_good_def split: list.split)
  have "lhd_io u st = Some (EOK, uio_pass (lh_sectors st ! b) u,
      st\<lparr>lh_buf := lh_sectors st ! b, lh_stat := 0, lh_script := tl rest, lh_result := EOK\<rparr>)"
    using lhd_io_one [OF Nil.prems(1,2,4,5)] lhd_sector_read [OF Nil.prems(1) g, of "of_nat b" u] Nil.prems(2,3,5,6,7) ub by simp
  then show ?case by (subst sfs_retry.simps) simp
next
  case (Cons e errs)
  have ub: "unat (of_nat b :: u32) = b" using Cons.prems(1,2) by (simp add: lhd_ok_def unat_of_nat)
  have n: "lhd_next st AND LHD_STATEMASK = LHD_MEDIA" using Cons.prems(7,8) by (simp add: lhd_next_def)
  obtain x where x: "length x = 512" "lhd_io u st = Some (EIO, u, st\<lparr>lh_buf := x, lh_stat := 0, lh_script := tl (lh_script st), lh_result := EIO\<rparr>)"
    using lhd_io_one [OF Cons.prems(1,2,4,5)] lhd_sector_media [OF Cons.prems(1) n, of "of_nat b" u] Cons.prems(2,3,5,6) ub by auto
  let ?s = "st\<lparr>lh_buf := x, lh_stat := 0, lh_script := tl (lh_script st), lh_result := EIO\<rparr>"
  have "sfs_retry (tries + 1) u ?s = Some (EOK, uio_pass (lh_sectors ?s ! b) u,
     ?s\<lparr>lh_buf := lh_sectors ?s ! b, lh_stat := 0, lh_script := tl rest, lh_result := EOK\<rparr>)"
    by (rule Cons.IH) (use Cons.prems x(1) in \<open>simp_all add: lhd_ok_def\<close>)
  then show ?case using x(2) Cons.prems(9) by (subst sfs_retry.simps) simp
qed

lemma retry_read_fail:
  assumes "lhd_ok st" and "b < length (lh_sectors st)" and "uio_ok u" and "uio_offset u = int b * 512" and "uio_resid u = 512"
    and "uio_rw u = UIO_READ" and "lh_script st = errs @ rest" and "list_all (\<lambda>e. e AND LHD_STATEMASK = LHD_MEDIA) errs"
    and "length errs + tries = 11" and "tries \<le> 10"
  shows "\<exists>st'. sfs_retry tries u st = Some (EIO, u, st') \<and> lh_sectors st' = lh_sectors st \<and> lh_script st' = rest"
  using assms
proof (induction errs arbitrary: tries st)
  case Nil
  then show ?case by simp
next
  case (Cons e errs)
  have ub: "unat (of_nat b :: u32) = b" using Cons.prems(1,2) by (simp add: lhd_ok_def unat_of_nat)
  have n: "lhd_next st AND LHD_STATEMASK = LHD_MEDIA" using Cons.prems(7,8) by (simp add: lhd_next_def)
  obtain x where x: "length x = 512" "lhd_io u st = Some (EIO, u, st\<lparr>lh_buf := x, lh_stat := 0, lh_script := tl (lh_script st), lh_result := EIO\<rparr>)"
    using lhd_io_one [OF Cons.prems(1,2,4,5)] lhd_sector_media [OF Cons.prems(1) n, of "of_nat b" u] Cons.prems(2,3,5,6) ub by auto
  let ?s = "st\<lparr>lh_buf := x, lh_stat := 0, lh_script := tl (lh_script st), lh_result := EIO\<rparr>"
  show ?case
  proof (cases "tries < 10")
    case True
    have "\<exists>st'. sfs_retry (tries + 1) u ?s = Some (EIO, u, st') \<and> lh_sectors st' = lh_sectors ?s \<and> lh_script st' = rest"
      by (rule Cons.IH) (use Cons.prems x(1) True in \<open>simp_all add: lhd_ok_def\<close>)
    then show ?thesis using x(2) True by (subst sfs_retry.simps) simp
  next
    case False
    then have "errs = []" using Cons.prems(9,10) by simp
    then show ?thesis using x(2) False Cons.prems(7) by (subst sfs_retry.simps) simp
  qed
qed

lemma retry_write:
  assumes "lhd_ok st" and "b < length (lh_sectors st)" and "uio_ok u" and "uio_offset u = int b * 512" and "uio_resid u = 512"
    and "uio_rw u = UIO_WRITE" and "lhd_good st"
  shows "sfs_retry tries u st = Some (EOK, uio_pass (take 512 (uio_kbase u)) u,
    st\<lparr>lh_buf := take 512 (uio_kbase u), lh_stat := 0, lh_script := tl (lh_script st), lh_result := EOK,
       lh_sectors := (lh_sectors st)[b := take 512 (uio_kbase u)]\<rparr>)"
proof -
  have ub: "unat (of_nat b :: u32) = b" using assms(1,2) by (simp add: lhd_ok_def unat_of_nat)
  have "lhd_io u st = Some (EOK, uio_pass (take 512 (uio_kbase u)) u,
    st\<lparr>lh_buf := take 512 (uio_kbase u), lh_stat := 0, lh_script := tl (lh_script st), lh_result := EOK,
       lh_sectors := (lh_sectors st)[b := take 512 (uio_kbase u)]\<rparr>)"
    using lhd_io_one [OF assms(1,2,4,5)] lhd_sector_write [OF assms(1,7), of "of_nat b" u] assms ub by simp
  then show ?thesis by (subst sfs_retry.simps) simp
qed

text \<open>A \<open>uio\<close> with nothing left asks for no sectors, and the driver reports success.\<close>

lemma lhd_io_empty:
  assumes "lhd_ok st" and "b \<le> length (lh_sectors st)" and "uio_offset u = int b * 512" and "uio_resid u = 0"
  shows "lhd_io u st = Some (EOK, u, st)"
proof -
  have b: "b < 2 ^ 22" using assms(1,2) by (simp add: lhd_ok_def)
  then have "unat (of_nat b :: u32) = b" by (simp add: unat_of_nat)
  moreover have "unat (of_nat (length (lh_sectors st)) :: u32) = length (lh_sectors st)"
    using assms(1) by (simp add: lhd_ok_def unat_of_nat)
  ultimately have "\<not> (of_nat (length (lh_sectors st)) < (of_nat b :: u32))"
    using assms(2) by (simp add: word_less_nat_alt)
  then show ?thesis using assms(3,4) by (simp add: lhd_io_def LHD_SECTSIZE_def cdiv_pos cmod_pos Let_def)
qed

lemma dsk_fields [simp]:
  "lh_sectors (dsk_rd b st) = lh_sectors st" "lh_sectors (dsk_wr b d st) = (lh_sectors st)[b := d]"
  by (simp_all add: dsk_rd_def dsk_wr_def)

lemma calm_dsk_rd [simp]: "calm st \<Longrightarrow> b < length (lh_sectors st) \<Longrightarrow> calm (dsk_rd b st)"
  by (auto simp: calm_def lhd_ok_def dsk_rd_def list_all_length)

lemma calm_dsk_wr [simp]: "calm st \<Longrightarrow> length d = 512 \<Longrightarrow> calm (dsk_wr b d st)"
  by (cases "b < length (lh_sectors st)")
    (auto simp: calm_def lhd_ok_def dsk_wr_def list_all_length nth_list_update list_update_beyond)

lemma calm_block: "calm st \<Longrightarrow> b < length (lh_sectors st) \<Longrightarrow> length (lh_sectors st ! b) = 512"
  by (simp add: calm_def lhd_ok_def list_all_length)

lemma rwblock_read:
  assumes "calm st" and "b < length (lh_sectors st)" and "uio_ok u" and "uio_offset u = int b * 512" and "uio_resid u = 512"
    and "uio_rw u = UIO_READ"
  shows "sfs_rwblock u st = Some (EOK, uio_pass (lh_sectors st ! b) u, dsk_rd b st)"
proof -
  have "st\<lparr>lh_buf := lh_sectors st ! b, lh_stat := 0, lh_script := [], lh_result := EOK\<rparr> = dsk_rd b st"
    using assms(1) by (cases st) (simp add: dsk_rd_def calm_def)
  then show ?thesis
    using retry_read [of st b u "[]" "[]" 0] assms by (simp add: sfs_rwblock_def calm_def)
qed

lemma rwblock_write:
  assumes "calm st" and "b < length (lh_sectors st)" and "uio_ok u" and "uio_offset u = int b * 512" and "uio_resid u = 512"
    and "uio_rw u = UIO_WRITE"
  shows "sfs_rwblock u st = Some (EOK, uio_pass (take 512 (uio_kbase u)) u, dsk_wr b (take 512 (uio_kbase u)) st)"
proof -
  have "st\<lparr>lh_buf := take 512 (uio_kbase u), lh_stat := 0, lh_script := [], lh_result := EOK,
      lh_sectors := (lh_sectors st)[b := take 512 (uio_kbase u)]\<rparr> = dsk_wr b (take 512 (uio_kbase u)) st"
    using assms(1) by (cases st) (simp add: dsk_wr_def calm_def)
  then show ?thesis
    using retry_write [of st b u 0] assms by (simp add: sfs_rwblock_def calm_def lhd_good_def)
qed

lemma rblock_calm:
  assumes "calm st" and "unat b < length (lh_sectors st)" and "length data = 512"
  shows "sfs_rblock data b st = Some (EOK, lh_sectors st ! unat b, dsk_rd (unat b) st)"
proof -
  have ok: "lhd_ok st" using assms(1) by (simp add: calm_def)
  show ?thesis
    using rwblock_read [OF assms(1,2) sfsuio_ok(1,2,3,6) [OF ok assms(2,3)]] sfsuio_ok(4,5) [OF ok assms(2,3)] assms calm_block [OF assms(1,2)]
    by (simp add: sfs_rblock_def)
qed

lemma wblock_calm:
  assumes "calm st" and "unat b < length (lh_sectors st)" and "length data = 512"
  shows "sfs_wblock data b st = Some (EOK, dsk_wr (unat b) data st)"
proof -
  have ok: "lhd_ok st" using assms(1) by (simp add: calm_def)
  show ?thesis
    using rwblock_write [OF assms(1,2) sfsuio_ok(1,2,3,6) [OF ok assms(2,3)]] sfsuio_ok(4) [OF ok assms(2,3)] assms
    by (simp add: sfs_wblock_def)
qed

section \<open>Well-formed file systems\<close>

text \<open>A block in use, and what a mounted file system must satisfy apart from its files: the disk works
  and is large enough, the free map is a well-formed bitmap that covers all blocks, and neither the
  superblock nor anything behind the last block is free.\<close>

definition used :: "'a sfs_fs_scheme \<Rightarrow> u32 \<Rightarrow> bool" where
  "used st p \<longleftrightarrow> p < sp_nblocks (sfs_super st) \<and> b_bits (sfs_freemap st) ! unat p"

definition fs_wf :: "'a sfs_fs_scheme \<Rightarrow> bool" where
  "fs_wf st \<longleftrightarrow> calm st \<and> b_inv (sfs_freemap st) \<and> unat (sp_nblocks (sfs_super st)) \<le> length (lh_sectors st) \<and>
     sp_nblocks (sfs_super st) \<le> b_nbits (sfs_freemap st) \<and>
     list_all (\<lambda>k. b_bits (sfs_freemap st) ! k) [unat (sp_nblocks (sfs_super st))..<unat (b_nbits (sfs_freemap st))] \<and>
     used st 0"

text \<open>What the operations on one file leave alone.\<close>

definition base :: "'a sfs_fs_scheme \<Rightarrow> _" where
  "base st = (m_mem st, m_rd st, m_wr st, m_space st, length (lh_sectors st), sfs_super st, sfs_superdirty st, sfs_vnodes st,
     sfs_vnext st, b_nbits (sfs_freemap st), sfs_fs.more st)"

lemma base_simps [simp]:
  "base (dsk_rd b st) = base st" "base (dsk_wr b d st) = base st" "base (st\<lparr>sfs_v := f\<rparr>) = base st"
  "b_nbits fm = b_nbits (sfs_freemap st) \<Longrightarrow> base (st\<lparr>sfs_freemap := fm, sfs_freemapdirty := x\<rparr>) = base st"
  by (simp_all add: base_def dsk_rd_def dsk_wr_def)

lemma dsk_keeps [simp]:
  "sfs_super (dsk_rd b st) = sfs_super st" "sfs_super (dsk_wr b d st) = sfs_super st"
  "sfs_freemap (dsk_rd b st) = sfs_freemap st" "sfs_freemap (dsk_wr b d st) = sfs_freemap st"
  "sfs_v (dsk_rd b st) = sfs_v st" "sfs_v (dsk_wr b d st) = sfs_v st"
  "sfs_vnodes (dsk_rd b st) = sfs_vnodes st" "sfs_vnodes (dsk_wr b d st) = sfs_vnodes st"
  by (simp_all add: dsk_rd_def dsk_wr_def)

lemma used_simps [simp]:
  "used (dsk_rd b st) = used st" "used (dsk_wr b d st) = used st" "used (st\<lparr>sfs_v := f\<rparr>) = used st"
  by (simp_all add: used_def fun_eq_iff)

lemma calm_update [simp]:
  "calm (st\<lparr>sfs_v := f\<rparr>) = calm st" "calm (st\<lparr>sfs_freemap := fm\<rparr>) = calm st" "calm (st\<lparr>sfs_freemapdirty := x\<rparr>) = calm st"
  by (simp_all add: calm_def lhd_ok_def)

lemma fs_wf_simps [simp]:
  "fs_wf st \<Longrightarrow> b < length (lh_sectors st) \<Longrightarrow> fs_wf (dsk_rd b st)"
  "fs_wf st \<Longrightarrow> length d = 512 \<Longrightarrow> fs_wf (dsk_wr b d st)"
  "fs_wf (st\<lparr>sfs_v := f\<rparr>) = fs_wf st"
  by (simp_all add: fs_wf_def)

lemma fs_wf_block: "fs_wf st \<Longrightarrow> p < sp_nblocks (sfs_super st) \<Longrightarrow> unat p < length (lh_sectors st)"
  by (simp add: fs_wf_def word_less_nat_alt)

lemma used_block: "fs_wf st \<Longrightarrow> used st p \<Longrightarrow> unat p < length (lh_sectors st)"
  by (simp add: used_def fs_wf_block)

lemma used_length: "fs_wf st \<Longrightarrow> used st p \<Longrightarrow> length (lh_sectors st ! unat p) = 512"
  using calm_block [of st "unat p"] used_block [of st p] by (simp add: fs_wf_def)

lemma balloc_cases:
  assumes wf: "fs_wf st"
  shows "(\<exists>b fm. sfs_balloc st = Some (EOK, b, dsk_wr (unat b) (replicate 512 0) (st\<lparr>sfs_freemap := fm, sfs_freemapdirty := True\<rparr>)) \<and>
       b \<noteq> 0 \<and> \<not> used st b \<and> b < sp_nblocks (sfs_super st) \<and> b_inv fm \<and> b_nbits fm = b_nbits (sfs_freemap st) \<and>
       b_bits fm = (b_bits (sfs_freemap st))[unat b := True]) \<or>
    sfs_balloc st = Some (ENOSPC, 0, st) \<and> (\<forall>p < sp_nblocks (sfs_super st). used st p)"
proof -
  let ?m = "sfs_freemap st" let ?n = "sp_nblocks (sfs_super st)"
  have inv: "b_inv ?m" and cal: "calm st" and nb: "?n \<le> b_nbits ?m" using wf by (simp_all add: fs_wf_def)
  from bitmap_alloc_bits [OF inv] consider b fm where
      "bitmap_alloc ?m = Some (EOK, b, fm)" "unat b < unat (b_nbits ?m)" "\<not> b_bits ?m ! unat b"
      "b_inv fm" "b_nbits fm = b_nbits ?m" "b_bits fm = (b_bits ?m)[unat b := True]"
    | "bitmap_alloc ?m = Some (ENOSPC, 0, ?m)" "\<forall>j<unat (b_nbits ?m). b_bits ?m ! j" by blast
  then show ?thesis
  proof cases
    case 1
    have lt: "b < ?n"
    proof (rule ccontr)
      assume "\<not> b < ?n"
      then have "unat b \<in> set [unat ?n..<unat (b_nbits ?m)]" using 1(2) by (simp add: word_less_nat_alt)
      then have "b_bits ?m ! unat b" using wf unfolding fs_wf_def list_all_iff by blast
      with 1(3) show False by simp
    qed
    have "b \<noteq> 0" using 1(3) wf by (auto simp: fs_wf_def used_def)
    moreover have "\<not> used st b" using 1(3) by (simp add: used_def)
    moreover have "sfs_balloc st = Some (EOK, b, dsk_wr (unat b) (replicate 512 0) (st\<lparr>sfs_freemap := fm, sfs_freemapdirty := True\<rparr>))"
      using 1(1) lt wblock_calm [of "st\<lparr>sfs_freemap := fm, sfs_freemapdirty := True\<rparr>" b "replicate 512 0"] cal fs_wf_block [OF wf lt]
      by (simp add: sfs_balloc_def sfs_clearblock_def SFS_BLOCKSIZE_def)
    ultimately show ?thesis using 1 lt by blast
  next
    case 2
    then have "sfs_balloc st = Some (ENOSPC, 0, st)" by (simp add: sfs_balloc_def)
    moreover have "\<forall>p<?n. used st p" using 2(2) nb by (auto simp: used_def word_less_nat_alt word_le_nat_alt)
    ultimately show ?thesis by blast
  qed
qed

lemma used_alloc:
  assumes "fs_wf st" and "b < sp_nblocks (sfs_super st)" and "b_bits fm = (b_bits (sfs_freemap st))[unat b := True]"
  shows "used (st\<lparr>sfs_freemap := fm, sfs_freemapdirty := x\<rparr>) p \<longleftrightarrow> used st p \<or> p = b"
proof -
  have "unat b < length (b_bits (sfs_freemap st))"
    using assms(1,2) by (simp add: fs_wf_def word_less_nat_alt word_le_nat_alt)
  then show ?thesis using assms(2,3) by (auto simp: used_def nth_list_update word_unat_eq_iff word_less_nat_alt)
qed

lemma fs_wf_alloc:
  assumes wf: "fs_wf st" and "b < sp_nblocks (sfs_super st)" and "b_bits fm = (b_bits (sfs_freemap st))[unat b := True]"
    and "b_inv fm" and "b_nbits fm = b_nbits (sfs_freemap st)"
  shows "fs_wf (st\<lparr>sfs_freemap := fm, sfs_freemapdirty := x\<rparr>)"
proof -
  have "unat b < length (b_bits (sfs_freemap st))"
    using assms(1,2) by (simp add: fs_wf_def word_less_nat_alt word_le_nat_alt)
  then show ?thesis
    using wf assms(3-5) used_alloc [OF assms(1-3), of x 0]
    by (auto simp: fs_wf_def list_all_iff nth_list_update)
qed

lemma bused_used: "fs_wf st \<Longrightarrow> used st p \<Longrightarrow> sfs_bused p st = Some True"
  using bitmap_isset_bits [of "sfs_freemap st" p]
  by (auto simp: sfs_bused_def used_def fs_wf_def word_less_nat_alt word_le_nat_alt)

lemma bfree_used:
  assumes wf: "fs_wf st" and u: "used st p" and p: "p \<noteq> 0"
  shows "\<exists>fm. sfs_bfree p st = Some (st\<lparr>sfs_freemap := fm, sfs_freemapdirty := True\<rparr>) \<and>
    fs_wf (st\<lparr>sfs_freemap := fm, sfs_freemapdirty := True\<rparr>) \<and> b_nbits fm = b_nbits (sfs_freemap st) \<and>
    (\<forall>q. used (st\<lparr>sfs_freemap := fm, sfs_freemapdirty := True\<rparr>) q \<longleftrightarrow> used st q \<and> q \<noteq> p)"
proof -
  let ?m = "sfs_freemap st"
  have inv: "b_inv ?m" and lt: "unat p < unat (b_nbits ?m)" and bit: "b_bits ?m ! unat p"
    using wf u by (simp_all add: fs_wf_def used_def word_less_nat_alt word_le_nat_alt)
  from bitmap_unmark_bits [OF inv lt bit] obtain fm where
    fm: "bitmap_unmark ?m p = Some fm" "b_inv fm" "b_nbits fm = b_nbits ?m" "b_bits fm = (b_bits ?m)[unat p := False]" by blast
  let ?s = "st\<lparr>sfs_freemap := fm, sfs_freemapdirty := True\<rparr>"
  have q: "used ?s q \<longleftrightarrow> used st q \<and> q \<noteq> p" for q
    using fm(4) lt by (auto simp: used_def nth_list_update word_unat_eq_iff word_less_nat_alt)
  moreover have "fs_wf ?s"
    using wf fm lt u q [of 0] p by (auto simp: fs_wf_def list_all_iff nth_list_update used_def word_less_nat_alt)
  ultimately show ?thesis using fm by (auto simp: sfs_bfree_def)
qed

section \<open>Properties\<close>

text \<open>C19. Reads survive transient media errors: after up to ten of them in a row \<^verbatim>\<open>sfs_rblock\<close> still returns
  the contents of the block, after eleven it gives up with \<^verbatim>\<open>EIO\<close>; it always returns, and the disk is not
  changed.\<close>

theorem sfs_rblock_retries:
  assumes ok: "lhd_ok st" and b: "unat b < length (lh_sectors st)" and d: "length data = 512"
    and s: "lh_script st = errs @ rest" "list_all (\<lambda>e. e AND LHD_STATEMASK = LHD_MEDIA) errs"
  shows "(length errs \<le> 10 \<and> (rest = [] \<or> hd rest AND LHD_STATEMASK = LHD_OK) \<longrightarrow>
      (\<exists>st'. sfs_rblock data b st = Some (EOK, lh_sectors st ! unat b, st') \<and> lh_sectors st' = lh_sectors st)) \<and>
    (length errs = 11 \<longrightarrow> (\<exists>st'. sfs_rblock data b st = Some (EIO, data, st') \<and> lh_sectors st' = lh_sectors st))"
proof (intro conjI impI)
  note u = sfsuio_ok [OF ok b d, of UIO_READ]
  have lb: "length (lh_sectors st ! unat b) = 512" using ok b by (simp add: lhd_ok_def list_all_length)
  assume "length errs \<le> 10 \<and> (rest = [] \<or> hd rest AND LHD_STATEMASK = LHD_OK)"
  then show "\<exists>st'. sfs_rblock data b st = Some (EOK, lh_sectors st ! unat b, st') \<and> lh_sectors st' = lh_sectors st"
    using retry_read [OF ok b u(1,2,3,6) s, of 0] u(4,5) lb d by (simp add: sfs_rblock_def sfs_rwblock_def)
next
  note u = sfsuio_ok [OF ok b d, of UIO_READ]
  assume "length errs = 11"
  then show "\<exists>st'. sfs_rblock data b st = Some (EIO, data, st') \<and> lh_sectors st' = lh_sectors st"
    using retry_read_fail [OF ok b u(1,2,3,6) s, of 0] u(4,5) by (auto simp: sfs_rblock_def sfs_rwblock_def)
qed

definition ex_disk :: "u32 list \<Rightarrow> lhd" where
  "ex_disk script = \<lparr>m_mem = \<lambda>_. 0, m_rd = \<lambda>_. False, m_wr = \<lambda>_. False, m_space = None,
     lh_sectors = [replicate 512 1, replicate 512 2], lh_buf = replicate 512 0, lh_stat = 0, lh_script = script, lh_clear = 1,
     lh_done = 0, lh_result = EOK\<rparr>"

theorem sfs_rblock_retries_witness:
  "\<exists>st'. sfs_rblock (replicate 512 0) 1 (ex_disk (replicate 10 LHD_MEDIA)) = Some (EOK, replicate 512 2, st')"
proof -
  let ?st = "ex_disk (replicate 10 LHD_MEDIA)"
  have ok: "lhd_ok ?st" "unat (1 :: u32) < length (lh_sectors ?st)" by (simp_all add: lhd_ok_def ex_disk_def)
  have "LHD_MEDIA AND LHD_STATEMASK = LHD_MEDIA" by (simp add: lhd_codes)
  then have "list_all (\<lambda>e. e AND LHD_STATEMASK = LHD_MEDIA) (replicate 10 LHD_MEDIA)" by (simp add: list_all_iff)
  moreover have "lh_script ?st = replicate 10 LHD_MEDIA @ []" by (simp add: ex_disk_def)
  ultimately show ?thesis using sfs_rblock_retries [OF ok, of "replicate 512 0" "replicate 10 LHD_MEDIA" "[]"] by (auto simp: ex_disk_def)
qed

text \<open>C20. Writes do not survive them: when the first attempt of \<^verbatim>\<open>sfs_wblock\<close> ends with a media error, the
  retry finds the transfer descriptor used up by the failed attempt, asks the disk for nothing, and
  \<^verbatim>\<open>sfs_wblock\<close> reports success although the block was not written.\<close>

theorem sfs_wblock_lost:
  assumes ok: "lhd_ok st" and b: "unat b < length (lh_sectors st)" and d: "length data = 512"
    and e: "lh_script st = e # rest" "e AND LHD_STATEMASK = LHD_MEDIA"
  shows "\<exists>st'. sfs_wblock data b st = Some (EOK, st') \<and> lh_sectors st' = lh_sectors st \<and> lh_script st' = rest"
proof -
  let ?u = "SFSUIO data b UIO_WRITE"
  note u = sfsuio_ok [OF ok b d, of UIO_WRITE]
  have n: "lhd_next st AND LHD_STATEMASK = LHD_MEDIA" using e by (simp add: lhd_next_def)
  have bb: "(of_nat (unat b) :: u32) = b" by simp
  let ?u1 = "uio_pass (take 512 data) ?u"
  from lhd_sector_media [OF ok n b, of ?u] u obtain x where x: "length x = 512"
    "lhd_sector b ?u st = Some (EIO, ?u1, st\<lparr>lh_buf := x, lh_stat := 0, lh_script := tl (lh_script st), lh_result := EIO\<rparr>)" by auto
  let ?s = "st\<lparr>lh_buf := x, lh_stat := 0, lh_script := tl (lh_script st), lh_result := EIO\<rparr>"
  have io: "lhd_io ?u st = Some (EIO, ?u1, ?s)" using lhd_io_one [OF ok b u(2,3)] x(2) by (simp only: bb)
  have nb: "Suc (unat b) < 2 ^ 22 + 1" using ok b by (simp add: lhd_ok_def)
  have "s32 (int (Suc (unat b)) * 512) = int (Suc (unat b)) * 512" if "Suc (unat b) < 2 ^ 22"
    using that by (intro s32_id) (simp_all del: of_nat_Suc)
  then have "uio_offset ?u1 = int (Suc (unat b)) * 512"
    using nb u d b ok by (simp add: lhd_ok_def algebra_simps)
  then have "lhd_io ?u1 ?s = Some (EOK, ?u1, ?s)"
    using ok b x(1) u d by (intro lhd_io_empty [where b = "Suc (unat b)"]) (simp_all add: lhd_ok_def)
  then have "sfs_retry 0 ?u st = Some (EOK, ?u1, ?s)"
    using io by (subst sfs_retry.simps, simp, subst sfs_retry.simps, simp)
  then show ?thesis using e by (simp add: sfs_wblock_def sfs_rwblock_def)
qed

theorem sfs_wblock_lost_witness:
  "\<exists>st'. sfs_wblock (replicate 512 7) 1 (ex_disk [LHD_MEDIA]) = Some (EOK, st') \<and> lh_sectors st' ! 1 = replicate 512 2"
proof -
  let ?st = "ex_disk [LHD_MEDIA]"
  have ok: "lhd_ok ?st" "unat (1 :: u32) < length (lh_sectors ?st)" by (simp_all add: lhd_ok_def ex_disk_def)
  have "LHD_MEDIA AND LHD_STATEMASK = LHD_MEDIA" by (simp add: lhd_codes)
  moreover have "lh_script ?st = [LHD_MEDIA]" by (simp add: ex_disk_def)
  ultimately show ?thesis using sfs_wblock_lost [OF ok, of "replicate 512 7" LHD_MEDIA "[]"] by (auto simp: ex_disk_def)
qed

end
