(* ===== verification/Sfs_Map.thy ===== *)
theory Sfs_Map
  imports Sfs_Block
begin

text \<open>
  What the block pointers of an SFS inode mean, and that \<^verbatim>\<open>sfs_bmap\<close> respects it.

  \<open>ptrs\<close> lists the 144 block pointers of an inode: the direct ones, the indirect one and the entries
  of the indirect block (zeros without one). \<open>fblk\<close> gives the contents of a file block, zeros where no
  block is allocated. \<open>grow\<close> relates the file system before and after an operation on one file that
  allocates but never frees: all blocks in use stay in use, the file takes over only free blocks, and
  blocks that belong to nobody or to another file keep their contents.
\<close>

section \<open>Pointers\<close>

definition idx :: "u8 list list \<Rightarrow> sfs_inode \<Rightarrow> u32 list" where
  "idx ss i = (if sfi_indirect i = 0 then replicate 128 0 else words_of (ss ! unat (sfi_indirect i)))"

definition ptrs :: "u8 list list \<Rightarrow> sfs_inode \<Rightarrow> u32 list" where
  "ptrs ss i = sfi_direct i @ sfi_indirect i # idx ss i"

text \<open>Where the pointer for file block \<open>n\<close> is in that list.\<close>

definition pos :: "nat \<Rightarrow> nat" where
  "pos n = (if n < 15 then n else n + 1)"

definition fmap :: "u8 list list \<Rightarrow> sfs_inode \<Rightarrow> nat \<Rightarrow> u32" where
  "fmap ss i n = (if n < 143 then ptrs ss i ! pos n else 0)"

definition fblk :: "u8 list list \<Rightarrow> sfs_inode \<Rightarrow> nat \<Rightarrow> u8 list" where
  "fblk ss i n = (if fmap ss i n = 0 then replicate 512 0 else ss ! unat (fmap ss i n))"

definition nz_distinct :: "u32 list \<Rightarrow> bool" where
  "nz_distinct ps \<longleftrightarrow> distinct (filter (\<lambda>p. p \<noteq> 0) ps)"

definition inode_ok :: "'a sfs_fs_scheme \<Rightarrow> sfs_inode \<Rightarrow> bool" where
  "inode_ok st i \<longleftrightarrow> inode_wf i \<and> nz_distinct (ptrs (lh_sectors st) i) \<and>
     list_all (\<lambda>p. p = 0 \<or> used st p) (ptrs (lh_sectors st) i)"

lemma nz_distinct_nth: "nz_distinct ps \<Longrightarrow> j < length ps \<Longrightarrow> k < length ps \<Longrightarrow> ps ! j = ps ! k \<Longrightarrow> ps ! j \<noteq> 0 \<Longrightarrow> j = k"
proof (induction ps arbitrary: j k)
  case (Cons p ps)
  have nd: "nz_distinct ps" using Cons.prems(1) by (auto simp: nz_distinct_def split: if_splits)
  have notin: "p \<noteq> 0 \<Longrightarrow> p \<notin> set ps" using Cons.prems(1) by (auto simp: nz_distinct_def)
  show ?case
  proof (cases j)
    case 0
    then show ?thesis using Cons.prems notin by (cases k) auto
  next
    case (Suc j')
    then show ?thesis using Cons.prems notin Cons.IH [OF nd, of j' "k - 1"] by (cases k) auto
  qed
qed simp

lemma nz_distinct_update:
  assumes "nz_distinct ps" and "p \<notin> set ps"
  shows "nz_distinct (ps[k := p])"
proof (cases "k < length ps")
  case True
  have "ps = take k ps @ ps ! k # drop (Suc k) ps" using True by (simp add: id_take_nth_drop)
  then have "distinct (filter (\<lambda>p. p \<noteq> 0) (take k ps @ ps ! k # drop (Suc k) ps))" "p \<notin> set (take k ps @ ps ! k # drop (Suc k) ps)"
    using assms by (simp_all add: nz_distinct_def)
  then show ?thesis using True by (auto simp: nz_distinct_def upd_conv_take_nth_drop split: if_splits)
qed (simp add: assms(1) list_update_beyond)

lemma inode_okD:
  assumes "fs_wf st" and "inode_ok st i"
  shows "length (sfi_direct i) = 15" "length (idx (lh_sectors st) i) = 128" "length (ptrs (lh_sectors st) i) = 144"
    "p \<in> set (ptrs (lh_sectors st) i) \<Longrightarrow> p \<noteq> 0 \<Longrightarrow> used st p"
proof -
  show d: "length (sfi_direct i) = 15" using assms(2) by (simp add: inode_ok_def inode_wf_def)
  show u: "p \<in> set (ptrs (lh_sectors st) i) \<Longrightarrow> p \<noteq> 0 \<Longrightarrow> used st p" for p
    using assms(2) by (auto simp: inode_ok_def list_all_iff)
  have "sfi_indirect i \<noteq> 0 \<Longrightarrow> used st (sfi_indirect i)" by (rule u) (simp_all add: ptrs_def)
  then show x: "length (idx (lh_sectors st) i) = 128"
    using used_length [OF assms(1)] by (simp add: idx_def length_words_of)
  show "length (ptrs (lh_sectors st) i) = 144" using d x by (simp add: ptrs_def)
qed

lemma pos_less: "n < 143 \<Longrightarrow> pos n < 144" "pos n \<noteq> 15" "pos m = pos n \<longleftrightarrow> m = n"
  by (auto simp: pos_def)

lemma fmap_direct: "length (sfi_direct i) = 15 \<Longrightarrow> n < 15 \<Longrightarrow> fmap ss i n = sfi_direct i ! n"
  by (simp add: fmap_def pos_def ptrs_def nth_append)

lemma fmap_indirect: "length (sfi_direct i) = 15 \<Longrightarrow> n < 128 \<Longrightarrow> fmap ss i (15 + n) = idx ss i ! n"
  by (simp add: fmap_def pos_def ptrs_def nth_append)

lemma fmap_in: "fs_wf st \<Longrightarrow> inode_ok st i \<Longrightarrow> fmap (lh_sectors st) i n \<noteq> 0 \<Longrightarrow> fmap (lh_sectors st) i n \<in> set (ptrs (lh_sectors st) i)"
  using inode_okD(3) [of st i] pos_less(1) [of n] by (auto simp: fmap_def intro!: nth_mem split: if_splits)

lemma fmap_inj:
  "fs_wf st \<Longrightarrow> inode_ok st i \<Longrightarrow> fmap (lh_sectors st) i m = fmap (lh_sectors st) i n \<Longrightarrow> fmap (lh_sectors st) i m \<noteq> 0 \<Longrightarrow> m = n"
  using nz_distinct_nth [of "ptrs (lh_sectors st) i" "pos m" "pos n"] inode_okD(3) [of st i] pos_less(1) [of n] pos_less(1) [of m] pos_less(3) [of m n]
  by (auto simp: fmap_def inode_ok_def split: if_splits)

lemma fmap_not_indirect:
  "fs_wf st \<Longrightarrow> inode_ok st i \<Longrightarrow> fmap (lh_sectors st) i n = sfi_indirect i \<Longrightarrow> fmap (lh_sectors st) i n = 0"
  using nz_distinct_nth [of "ptrs (lh_sectors st) i" "pos n" 15] inode_okD(1,3) [of st i] pos_less(1) [of n] pos_less(2) [of n]
  by (auto simp: fmap_def inode_ok_def ptrs_def nth_append split: if_splits)

lemma fmap_used: "fs_wf st \<Longrightarrow> inode_ok st i \<Longrightarrow> fmap (lh_sectors st) i n \<noteq> 0 \<Longrightarrow> used st (fmap (lh_sectors st) i n)"
  by (rule inode_okD(4) [OF _ _ fmap_in])

lemma length_fblk: "fs_wf st \<Longrightarrow> inode_ok st i \<Longrightarrow> length (fblk (lh_sectors st) i n) = 512"
  using used_length [OF _ fmap_used, of st i n] by (simp add: fblk_def)

section \<open>Growth\<close>

definition grow :: "'a sfs_fs_scheme \<Rightarrow> sfs_inode \<Rightarrow> 'a sfs_fs_scheme \<Rightarrow> sfs_inode \<Rightarrow> bool" where
  "grow st i st' i' \<longleftrightarrow> fs_wf st' \<and> base st' = base st \<and> inode_ok st' i' \<and>
     sfi_type i' = sfi_type i \<and> sfi_linkcount i' = sfi_linkcount i \<and> sfi_waste i' = sfi_waste i \<and>
     (\<forall>p. used st p \<longrightarrow> used st' p) \<and>
     (\<forall>p\<in>set (ptrs (lh_sectors st') i'). p = 0 \<or> p \<in> set (ptrs (lh_sectors st) i) \<or> \<not> used st p) \<and>
     (\<forall>p. used st p \<and> (p = 0 \<or> p \<notin> set (ptrs (lh_sectors st) i)) \<longrightarrow> lh_sectors st' ! unat p = lh_sectors st ! unat p)"

lemma grow_refl: "fs_wf st \<Longrightarrow> inode_ok st i \<Longrightarrow> grow st i st i"
  by (simp add: grow_def)

lemma grow_trans:
  assumes "grow st i st1 i1" and "grow st1 i1 st2 i2"
  shows "grow st i st2 i2"
proof -
  have "lh_sectors st2 ! unat p = lh_sectors st ! unat p" if "used st p" "p = 0 \<or> p \<notin> set (ptrs (lh_sectors st) i)" for p
  proof -
    have "used st1 p" "p = 0 \<or> p \<notin> set (ptrs (lh_sectors st1) i1)" using assms(1) that by (auto simp: grow_def)
    then show ?thesis using assms that by (simp add: grow_def)
  qed
  moreover have "p = 0 \<or> p \<in> set (ptrs (lh_sectors st) i) \<or> \<not> used st p" if "p \<in> set (ptrs (lh_sectors st2) i2)" for p
    using assms that unfolding grow_def by blast
  ultimately show ?thesis using assms by (simp add: grow_def)
qed

lemma fblk_cong:
  assumes "fs_wf st" and "inode_ok st i" and "\<And>n. n < 143 \<Longrightarrow> fmap ss' i' n = fmap (lh_sectors st) i n"
    and "\<And>p. used st p \<Longrightarrow> p \<in> set (ptrs (lh_sectors st) i) \<Longrightarrow> p \<noteq> sfi_indirect i \<Longrightarrow> ss' ! unat p = lh_sectors st ! unat p"
  shows "fblk ss' i' n = fblk (lh_sectors st) i n"
proof (cases "fmap (lh_sectors st) i n = 0")
  case True
  then show ?thesis using assms(3) [of n] by (auto simp: fblk_def fmap_def)
next
  case False
  then have "n < 143" by (auto simp: fmap_def split: if_splits)
  moreover have "fmap (lh_sectors st) i n \<noteq> sfi_indirect i" using False fmap_not_indirect [OF assms(1,2), of n] by auto
  ultimately show ?thesis
    using False assms(3) assms(4) [OF fmap_used [OF assms(1,2) False] fmap_in [OF assms(1,2) False]] by (simp add: fblk_def)
qed

text \<open>A free block that becomes pointer number \<open>k\<close> of the inode.\<close>

lemma grow_alloc:
  assumes wf: "fs_wf st" and ok: "inode_ok st i" and wf': "fs_wf st'" "base st' = base st" "inode_wf i'"
    and meta: "sfi_type i' = sfi_type i" "sfi_linkcount i' = sfi_linkcount i" "sfi_waste i' = sfi_waste i"
    and us: "\<And>p. used st' p \<longleftrightarrow> used st p \<or> p = b"
    and ss: "\<And>p. used st p \<Longrightarrow> p = 0 \<or> p \<noteq> sfi_indirect i \<Longrightarrow> lh_sectors st' ! unat p = lh_sectors st ! unat p"
    and z: "lh_sectors st' ! unat b = replicate 512 0"
    and ps: "ptrs (lh_sectors st') i' = (ptrs (lh_sectors st) i)[k := b]" and k: "k < 144" "ptrs (lh_sectors st) i ! k = 0"
    and b: "b \<noteq> 0" "\<not> used st b"
  shows "grow st i st' i' \<and> (\<forall>n. fblk (lh_sectors st') i' n = fblk (lh_sectors st) i n)"
proof -
  let ?p = "ptrs (lh_sectors st) i"
  note okD = inode_okD [OF wf ok]
  have nb: "b \<notin> set ?p" using okD(4) b by blast
  have sub: "set (ptrs (lh_sectors st') i') \<subseteq> insert b (set ?p)" unfolding ps by (rule set_update_subset_insert)
  have "nz_distinct (ptrs (lh_sectors st') i')" unfolding ps using ok nb by (intro nz_distinct_update) (simp_all add: inode_ok_def)
  then have "inode_ok st' i'" using wf'(3) sub okD(4) us by (auto simp: inode_ok_def list_all_iff)
  moreover have "p \<noteq> 0 \<Longrightarrow> p \<notin> set ?p \<Longrightarrow> p \<noteq> sfi_indirect i" for p by (auto simp: ptrs_def)
  ultimately have "grow st i st' i'"
    using wf' meta us ss sub b(2) by (auto simp: grow_def)
  moreover have "fblk (lh_sectors st') i' n = fblk (lh_sectors st) i n" for n
  proof (cases "n < 143 \<and> pos n = k")
    case True
    then show ?thesis using k z b okD(3) by (simp add: fblk_def fmap_def ps)
  next
    case False
    then have f: "fmap (lh_sectors st') i' n = fmap (lh_sectors st) i n" by (auto simp: fmap_def ps)
    show ?thesis
    proof (cases "fmap (lh_sectors st) i n = 0")
      case False
      then have "fmap (lh_sectors st) i n \<noteq> sfi_indirect i" using fmap_not_indirect [OF wf ok, of n] by auto
      then show ?thesis using f ss [OF fmap_used [OF wf ok False]] by (simp add: fblk_def)
    qed (simp add: fblk_def f)
  qed
  ultimately show ?thesis by blast
qed

section \<open>Block mapping\<close>

text \<open>The same for a vnode: besides, every change of the inode marks it dirty.\<close>

definition vstep :: "nat \<Rightarrow> 'a sfs_fs_scheme \<Rightarrow> sfs_vnode \<Rightarrow> 'a sfs_fs_scheme \<Rightarrow> sfs_vnode \<Rightarrow> bool" where
  "vstep v st sv st' sv' \<longleftrightarrow> sfs_v st' = (sfs_v st)(v \<mapsto> sv') \<and> grow st (sv_i sv) st' (sv_i sv') \<and> sv_v sv' = sv_v sv \<and>
     sv_ino sv' = sv_ino sv \<and> (sv_dirty sv \<or> sv_i sv' \<noteq> sv_i sv \<longrightarrow> sv_dirty sv')"

lemma vstep_refl: "fs_wf st \<Longrightarrow> sfs_v st v = Some sv \<Longrightarrow> inode_ok st (sv_i sv) \<Longrightarrow> vstep v st sv st sv"
  by (auto simp: vstep_def grow_refl)

lemma vstep_trans: "vstep v st sv st1 sv1 \<Longrightarrow> vstep v st1 sv1 st2 sv2 \<Longrightarrow> vstep v st sv st2 sv2"
  unfolding vstep_def using grow_trans by fastforce

lemma vstepD:
  assumes "vstep v st sv st' sv'"
  shows "fs_wf st'" "sfs_v st' v = Some sv'" "inode_ok st' (sv_i sv')" "base st' = base st" "sfs_v st' = (sfs_v st)(v \<mapsto> sv')"
  using assms by (simp_all add: vstep_def grow_def)

lemma vstep_dsk_rd: "vstep v st sv st' sv' \<Longrightarrow> b < length (lh_sectors st') \<Longrightarrow> vstep v st sv (dsk_rd b st') sv'"
  by (auto simp: vstep_def grow_def inode_ok_def)

text \<open>\<open>sfs_bmap\<close> has no effect on the contents of the file; with \<open>doalloc\<close> it finds a block or there is
  no space left.\<close>

definition full :: "'a sfs_fs_scheme \<Rightarrow> bool" where
  "full st \<longleftrightarrow> (\<forall>p < sp_nblocks (sfs_super st). used st p)"

definition bmap_post :: "nat \<Rightarrow> nat \<Rightarrow> bool \<Rightarrow> 'a sfs_fs_scheme \<Rightarrow> sfs_vnode \<Rightarrow> errno \<times> u32 \<times> 'a sfs_fs_scheme \<Rightarrow> bool" where
  "bmap_post v n doalloc st sv r \<longleftrightarrow> (case r of (e, b, st') \<Rightarrow> \<exists>sv'. vstep v st sv st' sv' \<and> sfi_size (sv_i sv') = sfi_size (sv_i sv) \<and>
     (\<forall>m. fblk (lh_sectors st') (sv_i sv') m = fblk (lh_sectors st) (sv_i sv) m) \<and>
     (e = EOK \<and> b = fmap (lh_sectors st') (sv_i sv') n \<and> (doalloc \<longrightarrow> b \<noteq> 0) \<or> e = ENOSPC \<and> doalloc \<and> full st'))"

lemma balloc_spec:
  assumes "fs_wf st"
  obtains b st1 where "sfs_balloc st = Some (EOK, b, st1)" "b \<noteq> 0" "\<not> used st b" "fs_wf st1" "base st1 = base st"
      "sfs_v st1 = sfs_v st" "\<And>p. used st1 p \<longleftrightarrow> used st p \<or> p = b" "lh_sectors st1 = (lh_sectors st)[unat b := replicate 512 0]"
      "unat b < length (lh_sectors st)"
    | "sfs_balloc st = Some (ENOSPC, 0, st)" "full st"
proof -
  consider b fm where "sfs_balloc st = Some (EOK, b, dsk_wr (unat b) (replicate 512 0) (st\<lparr>sfs_freemap := fm, sfs_freemapdirty := True\<rparr>))"
      "b \<noteq> 0" "\<not> used st b" "b < sp_nblocks (sfs_super st)" "b_inv fm" "b_nbits fm = b_nbits (sfs_freemap st)"
      "b_bits fm = (b_bits (sfs_freemap st))[unat b := True]"
    | "sfs_balloc st = Some (ENOSPC, 0, st)" "full st" using balloc_cases [OF assms] unfolding full_def by blast
  then show ?thesis
  proof cases
    case 1
    let ?s = "st\<lparr>sfs_freemap := fm, sfs_freemapdirty := True\<rparr>"
    have "fs_wf (dsk_wr (unat b) (replicate 512 0) ?s)" using fs_wf_alloc [OF assms 1(4,7,5,6)] by simp
    moreover have "used (dsk_wr (unat b) (replicate 512 0) ?s) p \<longleftrightarrow> used st p \<or> p = b" for p
      using used_alloc [OF assms 1(4,7)] by simp
    ultimately show thesis
      by (intro that(1) [OF 1(1-3)]) (use 1(6) fs_wf_block [OF assms 1(4)] in simp_all)
  next
    case 2
    then show thesis by (rule that(2))
  qed
qed

lemma bmap_return_ok:
  "fs_wf st \<Longrightarrow> (b \<noteq> 0 \<Longrightarrow> used st b) \<Longrightarrow> bmap_return b st = Some (EOK, b, st)"
  using bused_used [of st b] by (simp add: bmap_return_def)

lemma bmap_direct_post:
  assumes wf: "fs_wf st" and sv: "sfs_v st v = Some sv" and ok: "inode_ok st (sv_i sv)" and n: "unat n < 15"
  shows "\<exists>r. bmap_direct v n doalloc st = Some r \<and> bmap_post v (unat n) doalloc st sv r"
proof (cases "sfi_direct (sv_i sv) ! unat n = 0 \<and> doalloc")
  case False
  let ?b = "sfi_direct (sv_i sv) ! unat n"
  have l: "length (sfi_direct (sv_i sv)) = 15" using inode_okD [OF wf ok] by simp
  then have b: "fmap (lh_sectors st) (sv_i sv) (unat n) = ?b" using n by (simp add: fmap_direct)
  have "bmap_return ?b st = Some (EOK, ?b, st)"
    using fmap_used [OF wf ok, of "unat n"] by (intro bmap_return_ok [OF wf]) (simp add: b)
  then have "bmap_direct v n doalloc st = Some (EOK, ?b, st)" using sv False by (auto simp: bmap_direct_def Let_def)
  then show ?thesis using vstep_refl [OF wf sv ok] False b by (auto simp: bmap_post_def)
next
  case True
  let ?i = "sv_i sv"
  have l: "length (sfi_direct ?i) = 15" using inode_okD [OF wf ok] by simp
  from balloc_spec [OF wf] show ?thesis
  proof cases
    case (1 b st1)
    let ?i' = "?i\<lparr>sfi_direct := (sfi_direct ?i)[unat n := b]\<rparr>"
    let ?sv = "sv\<lparr>sv_i := ?i', sv_dirty := True\<rparr>"
    let ?st = "sv_put v ?sv st1"
    have id: "sfi_indirect ?i \<noteq> 0 \<Longrightarrow> used st (sfi_indirect ?i)" by (rule inode_okD(4) [OF wf ok]) (simp_all add: ptrs_def)
    then have ind: "sfi_indirect ?i \<noteq> 0 \<Longrightarrow> unat b \<noteq> unat (sfi_indirect ?i)" using 1(3) by (metis word_unat_eq_iff)
    then have "idx (lh_sectors ?st) ?i' = idx (lh_sectors st) ?i" using 1(8) by (cases "sfi_indirect ?i = 0") (simp_all add: idx_def)
    then have ps: "ptrs (lh_sectors ?st) ?i' = (ptrs (lh_sectors st) ?i)[unat n := b]"
      using n l by (simp add: ptrs_def list_update_append)
    have "grow st ?i ?st ?i' \<and> (\<forall>m. fblk (lh_sectors ?st) ?i' m = fblk (lh_sectors st) ?i m)"
    proof (rule grow_alloc [OF wf ok, where b = b and k = "unat n"])
      show "fs_wf ?st" "base ?st = base st" using 1 by simp_all
      show "inode_wf ?i'" using ok by (simp add: inode_ok_def inode_wf_def)
      show "used ?st p \<longleftrightarrow> used st p \<or> p = b" for p using 1 by simp
      show "lh_sectors ?st ! unat p = lh_sectors st ! unat p" if "used st p" for p
        using 1(3,8) that by (cases "p = b") (auto simp: word_unat_eq_iff)
      show "lh_sectors ?st ! unat b = replicate 512 0" using 1(8,9) by simp
      show "ptrs (lh_sectors st) ?i ! unat n = 0" using True n l by (simp add: ptrs_def nth_append)
    qed (use ps n 1 in simp_all)
    then have g: "vstep v st sv ?st ?sv" "\<forall>m. fblk (lh_sectors ?st) ?i' m = fblk (lh_sectors st) ?i m"
      using 1(6) by (simp_all add: vstep_def)
    have "bmap_return b ?st = Some (EOK, b, ?st)" using 1 by (intro bmap_return_ok) simp_all
    then have "bmap_direct v n doalloc st = Some (EOK, b, ?st)" using sv True 1(1) by (simp add: bmap_direct_def)
    moreover have "bmap_post v (unat n) doalloc st sv (EOK, b, ?st)"
      unfolding bmap_post_def split using g l n 1(2) by (intro exI [of _ ?sv]) (simp add: fmap_direct)
    ultimately show ?thesis by blast
  next
    case 2
    then have "bmap_direct v n doalloc st = Some (ENOSPC, 0, st)" using sv True by (simp add: bmap_direct_def)
    then show ?thesis using vstep_refl [OF wf sv ok] True 2(2) by (auto simp: bmap_post_def)
  qed
qed

lemma bmap_idblock_post:
  assumes wf: "fs_wf st" and sv: "sfs_v st v = Some sv" and ok: "inode_ok st (sv_i sv)"
  obtains idb st1 sv1 where "bmap_idblock v st = Some (EOK, idb, idx (lh_sectors st1) (sv_i sv1), st1)" "vstep v st sv st1 sv1"
      "sfi_size (sv_i sv1) = sfi_size (sv_i sv)" "\<And>m. fblk (lh_sectors st1) (sv_i sv1) m = fblk (lh_sectors st) (sv_i sv) m"
      "sfi_indirect (sv_i sv1) = idb" "idb \<noteq> 0"
    | "bmap_idblock v st = Some (ENOSPC, 0, [], st)" "full st"
proof (cases "sfi_indirect (sv_i sv) = 0")
  case False
  let ?b = "sfi_indirect (sv_i sv)"
  have u: "used st ?b" by (rule inode_okD(4) [OF wf ok]) (simp_all add: ptrs_def False)
  have "sfs_rblock (replicate SFS_BLOCKSIZE 0) ?b st = Some (EOK, lh_sectors st ! unat ?b, dsk_rd (unat ?b) st)"
    by (rule rblock_calm) (use wf used_block [OF wf u] in \<open>simp_all add: fs_wf_def SFS_BLOCKSIZE_def\<close>)
  then have "bmap_idblock v st = Some (EOK, ?b, idx (lh_sectors (dsk_rd (unat ?b) st)) (sv_i sv), dsk_rd (unat ?b) st)"
    using sv False by (simp add: bmap_idblock_def idx_def Let_def)
  then show ?thesis
    by (rule that(1)) (use vstep_dsk_rd [OF vstep_refl [OF wf sv ok]] used_block [OF wf u] False in simp_all)
next
  case True
  let ?i = "sv_i sv"
  have l: "length (sfi_direct ?i) = 15" using inode_okD [OF wf ok] by simp
  from balloc_spec [OF wf] show ?thesis
  proof cases
    case (1 b st1)
    let ?i' = "?i\<lparr>sfi_indirect := b\<rparr>"
    let ?sv = "sv\<lparr>sv_i := ?i', sv_dirty := True\<rparr>"
    let ?st = "sv_put v ?sv st1"
    have w: "words_of (replicate 512 0) = replicate 128 0" by code_simp
    then have ix: "idx (lh_sectors ?st) ?i' = replicate 128 0" using 1(2,8,9) by (simp add: idx_def)
    have ps: "ptrs (lh_sectors ?st) ?i' = (ptrs (lh_sectors st) ?i)[15 := b]"
      using True l ix by (simp add: ptrs_def list_update_append idx_def)
    have "grow st ?i ?st ?i' \<and> (\<forall>m. fblk (lh_sectors ?st) ?i' m = fblk (lh_sectors st) ?i m)"
    proof (rule grow_alloc [OF wf ok, where b = b and k = 15])
      show "fs_wf ?st" "base ?st = base st" using 1 by simp_all
      show "inode_wf ?i'" using ok by (simp add: inode_ok_def inode_wf_def)
      show "used ?st p \<longleftrightarrow> used st p \<or> p = b" for p using 1 by simp
      show "lh_sectors ?st ! unat p = lh_sectors st ! unat p" if "used st p" for p
        using 1(3,8) that by (cases "p = b") (auto simp: word_unat_eq_iff)
      show "lh_sectors ?st ! unat b = replicate 512 0" using 1(8,9) by simp
      show "ptrs (lh_sectors st) ?i ! 15 = 0" using True l by (simp add: ptrs_def nth_append)
    qed (use ps 1 in simp_all)
    then have g: "vstep v st sv ?st ?sv" "\<And>m. fblk (lh_sectors ?st) ?i' m = fblk (lh_sectors st) ?i m"
      using 1(6) by (simp_all add: vstep_def)
    have "bmap_idblock v st = Some (EOK, b, idx (lh_sectors ?st) ?i', ?st)"
      using sv True 1(1) ix by (simp add: bmap_idblock_def SFS_DBPERIDB_def)
    then show ?thesis by (intro that(1) [of b ?st ?sv]) (use g 1(2) in simp_all)
  next
    case 2
    then show ?thesis using sv True by (intro that(2)) (simp_all add: bmap_idblock_def)
  qed
qed

lemma bmap_indirect_post:
  assumes wf: "fs_wf st" and sv: "sfs_v st v = Some sv" and ok: "inode_ok st (sv_i sv)" and n: "n < 128"
  shows "\<exists>r. bmap_indirect v n doalloc st = Some r \<and> bmap_post v (15 + n) doalloc st sv r"
proof (cases "sfi_indirect (sv_i sv) = 0 \<and> \<not> doalloc")
  case True
  then have "bmap_indirect v n doalloc st = Some (EOK, 0, st)" using sv by (simp add: bmap_indirect_def)
  then show ?thesis using vstep_refl [OF wf sv ok] True n inode_okD(1) [OF wf ok]
    by (auto simp: bmap_post_def fmap_indirect idx_def)
next
  case False
  from bmap_idblock_post [OF wf sv ok] show ?thesis
  proof cases
    case 2
    have a: doalloc using 2(1) False by (cases doalloc) (auto simp: bmap_idblock_def sv bind_eq_Some Let_def split: if_splits)
    with 2 False have "bmap_indirect v n doalloc st = Some (ENOSPC, 0, st)" using sv by (simp add: bmap_indirect_def)
    then show ?thesis using vstep_refl [OF wf sv ok] a 2(2) by (auto simp: bmap_post_def)
  next
    case (1 idb st1 sv1)
    let ?i = "sv_i sv1" let ?ix = "idx (lh_sectors st1) ?i"
    note D = vstepD [OF 1(2)]
    note okD = inode_okD [OF D(1,3)]
    have f: "fmap (lh_sectors st1) ?i (15 + n) = ?ix ! n" using okD(1) n by (simp add: fmap_indirect)
    show ?thesis
    proof (cases "?ix ! n = 0 \<and> doalloc")
      case alloc: False
      have "bmap_return (?ix ! n) st1 = Some (EOK, ?ix ! n, st1)"
        using fmap_used [OF D(1,3), of "15 + n"] by (intro bmap_return_ok [OF D(1)]) (simp add: f)
      then have "bmap_indirect v n doalloc st = Some (EOK, ?ix ! n, st1)"
        using sv False alloc 1(1) by (auto simp: bmap_indirect_def)
      then show ?thesis using 1 f alloc by (auto simp: bmap_post_def)
    next
      case alloc: True
      have uid: "used st1 idb" by (rule okD(4)) (simp_all add: ptrs_def 1(5,6))
      from balloc_spec [OF D(1)] show ?thesis
      proof cases
        case 2
        then have "bmap_indirect v n doalloc st = Some (ENOSPC, 0, st1)"
          using sv False alloc 1(1) by (simp add: bmap_indirect_def)
        then show ?thesis using 1 alloc 2(2) by (auto simp: bmap_post_def)
      next
        case b: (1 b st2)
        let ?d = "bytes_of (?ix[n := b])"
        let ?st = "dsk_wr (unat idb) ?d st2"
        have ld: "length ?d = 512" using okD(2) by simp
        have idb: "unat idb < length (lh_sectors st2)" "unat b \<noteq> unat idb"
          using used_block [OF D(1) uid] uid b(3,8) by (auto simp: word_unat_eq_iff [symmetric])
        have ix: "idx (lh_sectors ?st) ?i = ?ix[n := b]"
          using 1(5,6) idb by (simp add: idx_def)
        have ps: "ptrs (lh_sectors ?st) ?i = (ptrs (lh_sectors st1) ?i)[16 + n := b]"
          using okD(1) ix by (simp add: ptrs_def list_update_append)
        have "grow st1 ?i ?st ?i \<and> (\<forall>m. fblk (lh_sectors ?st) ?i m = fblk (lh_sectors st1) ?i m)"
        proof (rule grow_alloc [OF D(1,3), where b = b and k = "16 + n"])
          show "fs_wf ?st" "base ?st = base st1" using b ld by simp_all
          show "inode_wf ?i" using D(3) by (simp add: inode_ok_def)
          show "used ?st p \<longleftrightarrow> used st1 p \<or> p = b" for p using b by simp
          show "lh_sectors ?st ! unat p = lh_sectors st1 ! unat p" if "used st1 p" "p = 0 \<or> p \<noteq> sfi_indirect ?i" for p
            using b(2,3,8) that 1(5,6) by (cases "p = b") (auto simp: word_unat_eq_iff)
          show "lh_sectors ?st ! unat b = replicate 512 0" using b(8,9) idb by simp
          show "ptrs (lh_sectors st1) ?i ! (16 + n) = 0" using alloc okD(1) by (simp add: ptrs_def nth_append)
        qed (use ps n b in simp_all)
        then have g: "vstep v st1 sv1 ?st sv1" "\<forall>m. fblk (lh_sectors ?st) ?i m = fblk (lh_sectors st1) ?i m"
          using b(6) D(2) by (auto simp: vstep_def)
        have w: "sfs_wblock ?d idb st2 = Some (EOK, ?st)"
          by (rule wblock_calm) (use b(4) idb ld in \<open>simp_all add: fs_wf_def\<close>)
        have "bmap_return b ?st = Some (EOK, b, ?st)" using b ld by (intro bmap_return_ok) simp_all
        then have "bmap_indirect v n doalloc st = Some (EOK, b, ?st)"
          using sv False alloc 1(1) b(1) w by (simp add: bmap_indirect_def)
        moreover have "bmap_post v (15 + n) doalloc st sv (EOK, b, ?st)"
          unfolding bmap_post_def split using vstep_trans [OF 1(2) g(1)] g(2) 1(3,4) okD(1,2) n b(2) ix
          by (intro exI [of _ sv1]) (simp add: fmap_indirect)
        ultimately show ?thesis by blast
      qed
    qed
  qed
qed

lemma bmap_far_side:
  assumes "\<not> unat n < 15" and "unat n < 143"
  shows "sfs_bmap v n doalloc st = bmap_indirect v (unat n - 15) doalloc st"
proof -
  have u: "unat (15 :: u32) = 15" "unat (128 :: u32) = 128" by simp_all
  have s: "unat (n - 15) = unat n - 15" using assms(1) u by (simp add: unat_sub_if')
  then have "unat ((n - 15) div 128) = 0" "unat ((n - 15) mod 128) = unat n - 15"
    using assms(2) u by (simp_all only: unat_div unat_mod) (simp_all add: s)
  then show ?thesis
    using assms(1) by (simp add: sfs_bmap_def word_less_nat_alt SFS_NDIRECT_def SFS_DBPERIDB_def Let_def)
qed

lemma bmap_ok:
  assumes "fs_wf st" and "sfs_v st v = Some sv" and "inode_ok st (sv_i sv)" and "unat n < 143"
  shows "\<exists>r. sfs_bmap v n doalloc st = Some r \<and> bmap_post v (unat n) doalloc st sv r"
proof (cases "unat n < 15")
  case True
  then show ?thesis
    using bmap_direct_post [OF assms(1-3)] by (simp add: sfs_bmap_def word_less_nat_alt SFS_NDIRECT_def)
next
  case False
  then show ?thesis
    unfolding bmap_far_side [OF False assms(4)]
    using bmap_indirect_post [OF assms(1-3), of "unat n - 15" doalloc] assms(4) by simp
qed

lemma bmap_far: "143 \<le> unat n \<Longrightarrow> sfs_bmap v n doalloc st = Some (EINVAL, 0, st)"
proof -
  assume n: "143 \<le> unat n"
  have u: "unat (15 :: u32) = 15" "unat (128 :: u32) = 128" by simp_all
  have s: "unat (n - 15) = unat n - 15" using n u by (simp add: unat_sub_if')
  have "unat ((n - 15) div 128) > 0" using n u by (simp add: unat_div s)
  then show ?thesis using n by (simp add: sfs_bmap_def word_less_nat_alt SFS_NDIRECT_def SFS_DBPERIDB_def Let_def)
qed

section \<open>Lookups that change nothing\<close>

text \<open>Two states that differ at most in what the disk driver keeps of its last transfer.\<close>

definition rd_same :: "'a sfs_fs_scheme \<Rightarrow> 'a sfs_fs_scheme \<Rightarrow> bool" where
  "rd_same st st' \<longleftrightarrow> (\<exists>b s r. st' = st\<lparr>lh_buf := b, lh_stat := s, lh_result := r\<rparr>)"

lemma rd_same_refl [simp]: "rd_same st st"
  unfolding rd_same_def by (intro exI [of _ "lh_buf st"] exI [of _ "lh_stat st"] exI [of _ "lh_result st"]) simp

lemma rd_same_dsk [simp]: "rd_same st (dsk_rd b st)"
  unfolding rd_same_def dsk_rd_def by blast

lemma rd_same_trans: "rd_same a b \<Longrightarrow> rd_same b c \<Longrightarrow> rd_same a c"
  unfolding rd_same_def by (clarsimp, blast)

lemma rd_same_fields:
  assumes "rd_same st st'"
  shows "lh_sectors st' = lh_sectors st" "sfs_v st' = sfs_v st" "sfs_freemap st' = sfs_freemap st" "sfs_super st' = sfs_super st"
  using assms by (auto simp: rd_same_def)

text \<open>Without the order to allocate, or where a block is there already.\<close>

lemma bmap_same:
  assumes wf: "fs_wf st" and sv: "sfs_v st v = Some sv" and ok: "inode_ok st (sv_i sv)" and n: "unat n < 143"
    and a: "doalloc \<Longrightarrow> fmap (lh_sectors st) (sv_i sv) (unat n) \<noteq> 0" and r: "sfs_bmap v n doalloc st = Some (e, b, st')"
  shows "e = EOK \<and> rd_same st st'"
proof (cases "unat n < 15")
  case True
  then have "fmap (lh_sectors st) (sv_i sv) (unat n) = sfi_direct (sv_i sv) ! unat n"
    using inode_okD(1) [OF wf ok] by (simp add: fmap_direct)
  then have "\<not> (sfi_direct (sv_i sv) ! unat n = 0 \<and> doalloc)" using a by auto
  then have "bmap_return (sfi_direct (sv_i sv) ! unat n) st = Some (e, b, st')"
    using r sv True by (auto simp: sfs_bmap_def word_less_nat_alt SFS_NDIRECT_def bmap_direct_def Let_def)
  then show ?thesis by (auto simp: bmap_return_def kern_simps split: if_splits)
next
  case False
  have f: "fmap (lh_sectors st) (sv_i sv) (unat n) = idx (lh_sectors st) (sv_i sv) ! (unat n - 15)"
    using fmap_indirect [OF inode_okD(1) [OF wf ok], of "unat n - 15" "lh_sectors st"] False n by simp
  from r have r: "bmap_indirect v (unat n - 15) doalloc st = Some (e, b, st')" unfolding bmap_far_side [OF False n] .
  show ?thesis
  proof (cases "sfi_indirect (sv_i sv) = 0")
    case True
    have "idx (lh_sectors st) (sv_i sv) ! (unat n - 15) = 0" using True False n by (simp add: idx_def)
    then have "\<not> doalloc" using a f by auto
    then show ?thesis using r sv True by (simp add: bmap_indirect_def)
  next
    case ind: False
    let ?b = "sfi_indirect (sv_i sv)"
    have u: "used st ?b" by (rule inode_okD(4) [OF wf ok]) (simp_all add: ptrs_def ind)
    have "sfs_rblock (replicate SFS_BLOCKSIZE 0) ?b st = Some (EOK, lh_sectors st ! unat ?b, dsk_rd (unat ?b) st)"
      by (rule rblock_calm) (use wf used_block [OF wf u] in \<open>simp_all add: fs_wf_def SFS_BLOCKSIZE_def\<close>)
    then have "bmap_idblock v st = Some (EOK, ?b, idx (lh_sectors st) (sv_i sv), dsk_rd (unat ?b) st)"
      using sv ind by (simp add: bmap_idblock_def idx_def Let_def)
    moreover have "\<not> (idx (lh_sectors st) (sv_i sv) ! (unat n - 15) = 0 \<and> doalloc)" using a f by auto
    ultimately have "bmap_return (idx (lh_sectors st) (sv_i sv) ! (unat n - 15)) (dsk_rd (unat ?b) st) = Some (e, b, st')"
      using r sv ind by (auto simp: bmap_indirect_def)
    then show ?thesis by (auto simp: bmap_return_def kern_simps split: if_splits)
  qed
qed

end
