(* ===== verification/Sfs_File.thy ===== *)
theory Sfs_File
  imports Sfs_Map
begin

text \<open>
  File I/O of SFS: \<^verbatim>\<open>sfs_partialio\<close>, \<^verbatim>\<open>sfs_blockio\<close> and \<^verbatim>\<open>sfs_io\<close> of
  \<^verbatim>\<open>src/src/kern/fs/sfs/sfs_vnode.c\<close>.

  Offsets are \<^verbatim>\<open>off_t\<close>, a signed 32-bit type; where the code mixes them with unsigned values the
  conversion is written out.
\<close>

section \<open>The code\<close>

definition sfs_partialio :: "nat \<Rightarrow> uio \<Rightarrow> u32 \<Rightarrow> u32 \<Rightarrow> 'a sfs_fs_scheme \<Rightarrow> (errno \<times> uio \<times> 'a sfs_fs_scheme) kern" where
  "sfs_partialio v u skipstart len st =
     do {
       let doalloc = (uio_rw u = UIO_WRITE);
       kassert (skipstart + len \<le> of_nat SFS_BLOCKSIZE);
       let fileblock = of_int (cdiv (uio_offset u) (int SFS_BLOCKSIZE));
       (result, diskblock, st1) \<leftarrow> sfs_bmap v fileblock doalloc st;
       if result \<noteq> EOK then Some (result, u, st1)
       else do {
         (result, iobuf, st2) \<leftarrow>
           (if diskblock = 0 then do { kassert (uio_rw u = UIO_READ); Some (EOK, replicate SFS_BLOCKSIZE 0, st1) }
            else sfs_rblock (replicate SFS_BLOCKSIZE 0) diskblock st1);
         if result \<noteq> EOK then Some (result, u, st2)
         else do {
           (result, buf, u3, st3) \<leftarrow> uiomove (drop (unat skipstart) iobuf) (unat len) u st2;
           if result \<noteq> EOK then Some (result, u3, st3)
           else if uio_rw u3 = UIO_WRITE then
             do {
               (result, st4) \<leftarrow> sfs_wblock (take (unat skipstart) iobuf @ buf) diskblock st3;
               Some (result, u3, st4)
             }
           else Some (EOK, u3, st3)
         }
       }
     }"

definition sfs_blockio :: "nat \<Rightarrow> uio \<Rightarrow> 'a sfs_fs_scheme \<Rightarrow> (errno \<times> uio \<times> 'a sfs_fs_scheme) kern" where
  "sfs_blockio v u st =
     do {
       let doalloc = (uio_rw u = UIO_WRITE);
       let fileblock = of_int (cdiv (uio_offset u) (int SFS_BLOCKSIZE));
       (result, diskblock, st1) \<leftarrow> sfs_bmap v fileblock doalloc st;
       if result \<noteq> EOK then Some (result, u, st1)
       else if diskblock = 0 then do { kassert (uio_rw u = UIO_READ); uiomovezeros SFS_BLOCKSIZE u st1 }
       else do {
         let saveoff = uio_offset u;
         let diskoff = sint (diskblock * of_nat SFS_BLOCKSIZE);
         kassert (uio_resid u \<ge> SFS_BLOCKSIZE);
         let saveres = s32 (int (uio_resid u));
         let diskres = int SFS_BLOCKSIZE;
         (result, u2, st2) \<leftarrow> sfs_rwblock (u\<lparr>uio_offset := diskoff, uio_resid := SFS_BLOCKSIZE\<rparr>) st1;
         Some (result, u2\<lparr>uio_offset := s32 (s32 (uio_offset u2 - diskoff) + saveoff),
           uio_resid := nat ((int (uio_resid u2) - diskres + saveres) mod 2 ^ 32)\<rparr>, st2)
       }
     }"

fun sfs_ioblocks :: "nat \<Rightarrow> nat \<Rightarrow> uio \<Rightarrow> 'a sfs_fs_scheme \<Rightarrow> (errno \<times> uio \<times> 'a sfs_fs_scheme) kern" where
  "sfs_ioblocks v 0 u st = Some (EOK, u, st)"
| "sfs_ioblocks v (Suc n) u st =
     do {
       (result, u1, st1) \<leftarrow> sfs_blockio v u st;
       if result \<noteq> EOK then Some (result, u1, st1) else sfs_ioblocks v n u1 st1
     }"

text \<open>\<^verbatim>\<open>sfs_io\<close> from the leading partial block up to the label \<^verbatim>\<open>out\<close>.\<close>

definition sfs_io_leading :: "nat \<Rightarrow> uio \<Rightarrow> 'a sfs_fs_scheme \<Rightarrow> (errno \<times> uio \<times> 'a sfs_fs_scheme) kern" where
  "sfs_io_leading v u st =
     (let blkoff = of_int (cmod (uio_offset u) (int SFS_BLOCKSIZE)) in
      if blkoff \<noteq> 0 then
        let skip = blkoff; len = of_nat SFS_BLOCKSIZE - blkoff;
            len = (if unat len > uio_resid u then of_nat (uio_resid u) else len) in
        sfs_partialio v u skip len st
      else Some (EOK, u, st))"

definition sfs_io_whole :: "nat \<Rightarrow> uio \<Rightarrow> 'a sfs_fs_scheme \<Rightarrow> (errno \<times> uio \<times> 'a sfs_fs_scheme) kern" where
  "sfs_io_whole v u st =
     do {
       kassert (cmod (uio_offset u) (int SFS_BLOCKSIZE) = 0);
       (result, u1, st1) \<leftarrow> sfs_ioblocks v (uio_resid u div SFS_BLOCKSIZE) u st;
       if result \<noteq> EOK then Some (result, u1, st1)
       else do {
         kassert (uio_resid u1 < SFS_BLOCKSIZE);
         if uio_resid u1 > 0 then sfs_partialio v u1 0 (of_nat (uio_resid u1)) st1 else Some (EOK, u1, st1)
       }
     }"

definition sfs_io_body :: "nat \<Rightarrow> uio \<Rightarrow> 'a sfs_fs_scheme \<Rightarrow> (errno \<times> uio \<times> 'a sfs_fs_scheme) kern" where
  "sfs_io_body v u st =
     do {
       (result, u1, st1) \<leftarrow> sfs_io_leading v u st;
       if result \<noteq> EOK then Some (result, u1, st1)
       else if uio_resid u1 = 0 then Some (EOK, u1, st1)
       else sfs_io_whole v u1 st1
     }"

text \<open>The file length after a write.\<close>

definition sfs_io_out :: "nat \<Rightarrow> uio \<Rightarrow> 'a sfs_fs_scheme \<Rightarrow> 'a sfs_fs_scheme kern" where
  "sfs_io_out v u st =
     do {
       sv \<leftarrow> sfs_v st v;
       if uio_rw u = UIO_WRITE \<and> uio_offset u > sint (sfi_size (sv_i sv))
       then Some (sv_put v (sv\<lparr>sv_i := (sv_i sv)\<lparr>sfi_size := of_int (uio_offset u)\<rparr>, sv_dirty := True\<rparr>) st)
       else Some st
     }"

definition sfs_io :: "nat \<Rightarrow> uio \<Rightarrow> 'a sfs_fs_scheme \<Rightarrow> (errno \<times> uio \<times> 'a sfs_fs_scheme) kern" where
  "sfs_io v u st =
     do {
       sv \<leftarrow> sfs_v st v;
       let sz = sint (sfi_size (sv_i sv));
       let endpos = s32 (uio_offset u + int (uio_resid u));
       if uio_rw u = UIO_READ \<and> uio_offset u \<ge> sz then Some (EOK, u, st)
       else do {
         let extraresid = (if uio_rw u = UIO_READ \<and> endpos > sz then nat ((endpos - sz) mod 2 ^ 32) else 0);
         kassert (extraresid = 0 \<or> uio_resid u > extraresid);
         (result, u1, st1) \<leftarrow> sfs_io_body v (u\<lparr>uio_resid := uio_resid u - extraresid\<rparr>) st;
         st2 \<leftarrow> sfs_io_out v u1 st1;
         Some (result, u1\<lparr>uio_resid := (uio_resid u1 + extraresid) mod 2 ^ 32\<rparr>, st2)
       }
     }"

section \<open>File contents\<close>

text \<open>Byte \<open>k\<close> of a file, zero where nothing was ever written, and what a transfer of \<open>n\<close> bytes between a
  \<open>uio\<close> and a file does: it moves some of them, in order, all of them if there is no error.\<close>

definition fbyte :: "u8 list list \<Rightarrow> sfs_inode \<Rightarrow> nat \<Rightarrow> u8" where
  "fbyte ss i k = fblk ss i (k div 512) ! (k mod 512)"

definition io_pre :: "uio \<Rightarrow> bool" where
  "io_pre u \<longleftrightarrow> uio_ok u \<and> 0 \<le> uio_offset u \<and> uio_offset u + int (uio_resid u) < 2 ^ 31"

definition uoff :: "uio \<Rightarrow> nat" where
  "uoff u = nat (uio_offset u)"

definition io_post :: "nat \<Rightarrow> nat \<Rightarrow> 'a sfs_fs_scheme \<Rightarrow> sfs_vnode \<Rightarrow> uio \<Rightarrow> errno \<times> uio \<times> 'a sfs_fs_scheme \<Rightarrow> bool" where
  "io_post v n st sv u r \<longleftrightarrow> (case r of (e, u', st') \<Rightarrow> \<exists>bs sv'. length bs \<le> n \<and> u' = uio_pass bs u \<and> vstep v st sv st' sv' \<and>
     sfi_size (sv_i sv') = sfi_size (sv_i sv) \<and> e \<in> {EOK, ENOSPC, EINVAL} \<and> (e = EOK \<longrightarrow> length bs = n) \<and>
     (e \<noteq> EOK \<and> n \<noteq> 0 \<longrightarrow> length bs < n) \<and> (e = EOK \<and> n \<noteq> 0 \<longrightarrow> uoff u + n \<le> 143 * 512) \<and>
     (e = EINVAL \<longrightarrow> 143 * 512 \<le> uoff u + length bs) \<and> (e = ENOSPC \<longrightarrow> full st') \<and>
     (if uio_rw u = UIO_WRITE
      then bs = take (length bs) (uio_kbase u) \<and> (\<forall>k. fbyte (lh_sectors st') (sv_i sv') k =
        (if uoff u \<le> k \<and> k < uoff u + length bs then bs ! (k - uoff u) else fbyte (lh_sectors st) (sv_i sv) k))
      else bs = map (fbyte (lh_sectors st) (sv_i sv)) [uoff u..<uoff u + length bs] \<and> e \<noteq> ENOSPC \<and> rd_same st st' \<and>
        (\<forall>k. fbyte (lh_sectors st') (sv_i sv') k = fbyte (lh_sectors st) (sv_i sv) k)))"

lemma uoff_pass: "io_pre u \<Longrightarrow> length bs \<le> uio_resid u \<Longrightarrow> uoff (uio_pass bs u) = uoff u + length bs"
  by (simp add: io_pre_def uoff_def s32_id nat_add_distrib)

lemma io_pre_pass: "io_pre u \<Longrightarrow> length bs \<le> uio_resid u \<Longrightarrow> io_pre (uio_pass bs u)"
  using uio_ok_pass [of u bs] by (simp add: io_pre_def s32_id)

lemma io_post_trans:
  assumes pre: "io_pre u" and n: "n1 \<le> uio_resid u" and p1: "io_post v n1 st sv u (EOK, u1, st1)"
    and p2: "\<And>sv1. sfs_v st1 v = Some sv1 \<Longrightarrow> io_post v n2 st1 sv1 u1 (e, u2, st2)" and z: "n2 = 0 \<Longrightarrow> e = EOK"
  shows "io_post v (n1 + n2) st sv u (e, u2, st2)"
proof -
  from p1 obtain bs sv1 where a: "length bs = n1" "u1 = uio_pass bs u" "vstep v st sv st1 sv1" "sfi_size (sv_i sv1) = sfi_size (sv_i sv)"
      "n1 \<noteq> 0 \<longrightarrow> uoff u + n1 \<le> 143 * 512"
    and A: "if uio_rw u = UIO_WRITE
      then bs = take (length bs) (uio_kbase u) \<and> (\<forall>k. fbyte (lh_sectors st1) (sv_i sv1) k =
        (if uoff u \<le> k \<and> k < uoff u + length bs then bs ! (k - uoff u) else fbyte (lh_sectors st) (sv_i sv) k))
      else bs = map (fbyte (lh_sectors st) (sv_i sv)) [uoff u..<uoff u + length bs] \<and> rd_same st st1 \<and>
        (\<forall>k. fbyte (lh_sectors st1) (sv_i sv1) k = fbyte (lh_sectors st) (sv_i sv) k)"
    unfolding io_post_def split by metis
  from p2 [OF vstepD(2) [OF a(3)]] obtain cs sv2 where c: "length cs \<le> n2" "u2 = uio_pass cs u1" "vstep v st1 sv1 st2 sv2"
      "sfi_size (sv_i sv2) = sfi_size (sv_i sv1)" "e \<in> {EOK, ENOSPC, EINVAL}" "e = EOK \<longrightarrow> length cs = n2"
      "e \<noteq> EOK \<and> n2 \<noteq> 0 \<longrightarrow> length cs < n2" "e = EOK \<and> n2 \<noteq> 0 \<longrightarrow> uoff u1 + n2 \<le> 143 * 512" "e = EINVAL \<longrightarrow> 143 * 512 \<le> uoff u1 + length cs" "e = ENOSPC \<longrightarrow> full st2"
    and C: "if uio_rw u1 = UIO_WRITE
      then cs = take (length cs) (uio_kbase u1) \<and> (\<forall>k. fbyte (lh_sectors st2) (sv_i sv2) k =
        (if uoff u1 \<le> k \<and> k < uoff u1 + length cs then cs ! (k - uoff u1) else fbyte (lh_sectors st1) (sv_i sv1) k))
      else cs = map (fbyte (lh_sectors st1) (sv_i sv1)) [uoff u1..<uoff u1 + length cs] \<and> e \<noteq> ENOSPC \<and> rd_same st1 st2 \<and>
        (\<forall>k. fbyte (lh_sectors st2) (sv_i sv2) k = fbyte (lh_sectors st1) (sv_i sv1) k)"
    unfolding io_post_def split by (elim exE conjE) (rule that)
  have o: "uoff u1 = uoff u + length bs" using a n uoff_pass [OF pre] by simp
  have I: "if uio_rw u = UIO_WRITE
      then bs @ cs = take (length (bs @ cs)) (uio_kbase u) \<and> (\<forall>k. fbyte (lh_sectors st2) (sv_i sv2) k =
        (if uoff u \<le> k \<and> k < uoff u + length (bs @ cs) then (bs @ cs) ! (k - uoff u) else fbyte (lh_sectors st) (sv_i sv) k))
      else bs @ cs = map (fbyte (lh_sectors st) (sv_i sv)) [uoff u..<uoff u + length (bs @ cs)] \<and> e \<noteq> ENOSPC \<and> rd_same st st2 \<and>
        (\<forall>k. fbyte (lh_sectors st2) (sv_i sv2) k = fbyte (lh_sectors st) (sv_i sv) k)"
  proof (cases "uio_rw u = UIO_WRITE")
    case True
    have "bs @ cs = take (length bs) (uio_kbase u) @ take (length cs) (drop (length bs) (uio_kbase u))"
      using A C True a(2) by simp
    then have "bs @ cs = take (length (bs @ cs)) (uio_kbase u)" unfolding length_append take_add .
    moreover have "fbyte (lh_sectors st2) (sv_i sv2) k =
        (if uoff u \<le> k \<and> k < uoff u + length (bs @ cs) then (bs @ cs) ! (k - uoff u) else fbyte (lh_sectors st) (sv_i sv) k)" for k
      using A C True a(2) o by (auto simp: nth_append)
    ultimately show ?thesis unfolding if_P [OF True] by blast
  next
    case False
    have "fbyte (lh_sectors st1) (sv_i sv1) = fbyte (lh_sectors st) (sv_i sv)" using A False by (auto simp: fun_eq_iff)
    then have "bs = map (fbyte (lh_sectors st) (sv_i sv)) [uoff u..<uoff u + length bs]"
      "cs = map (fbyte (lh_sectors st) (sv_i sv)) [uoff u + length bs..<uoff u + length bs + length cs]"
      using A C a(2) o False by simp_all
    moreover have "[uoff u..<uoff u + length (bs @ cs)] = [uoff u..<uoff u + length bs] @ [uoff u + length bs..<uoff u + length bs + length cs]"
      using upt_add_eq_append [of "uoff u" "uoff u + length bs" "length cs"] by (simp add: add.assoc)
    ultimately have "bs @ cs = map (fbyte (lh_sectors st) (sv_i sv)) [uoff u..<uoff u + length (bs @ cs)]" by simp
    moreover have "rd_same st st2" using A C a(2) False rd_same_trans [of st st1 st2] by simp
    ultimately show ?thesis unfolding if_not_P [OF False] using False A C a(2) by simp
  qed
  have U: "u2 = uio_pass (bs @ cs) u" using a(2) c(2) by (simp add: uio_pass_pass)
  have S: "sfi_size (sv_i sv2) = sfi_size (sv_i sv)" using a(4) c(4) by simp
  have L: "length (bs @ cs) \<le> n1 + n2" "e = EOK \<longrightarrow> length (bs @ cs) = n1 + n2"
      "e \<noteq> EOK \<and> n1 + n2 \<noteq> 0 \<longrightarrow> length (bs @ cs) < n1 + n2" "e = EINVAL \<longrightarrow> 143 * 512 \<le> uoff u + length (bs @ cs)"
      "e = EOK \<and> n1 + n2 \<noteq> 0 \<longrightarrow> uoff u + (n1 + n2) \<le> 143 * 512"
    using a(1,5) c(1,6-9) z o by (auto simp: add.assoc)
  show ?thesis
    unfolding io_post_def split
    by (intro exI [of _ "bs @ cs"] exI [of _ sv2] conjI) (fact L U S I c(5,10) vstep_trans [OF a(3) c(3)])+
qed

section \<open>Transfers within a block\<close>

lemma fbyte_cong: "(\<And>m. fblk ss' i' m = fblk ss i m) \<Longrightarrow> fbyte ss' i' k = fbyte ss i k"
  by (simp add: fbyte_def)

lemma unat_fileblock: "io_pre u \<Longrightarrow> unat (of_int (cdiv (uio_offset u) 512) :: u32) = uoff u div 512"
proof -
  assume a: "io_pre u"
  obtain k where k: "uio_offset u = int k" "k < 2 ^ 31" using a by (auto simp: io_pre_def dest: zero_le_imp_eq_int)
  have "cdiv (uio_offset u) 512 = int (k div 512)" using k(1) by (simp add: cdiv_pos zdiv_int)
  moreover have "k div 512 < 2 ^ 32" using k(2) by simp
  ultimately show ?thesis using k(1) by (simp add: uoff_def unat_of_nat)
qed

lemma cmod_offset: "io_pre u \<Longrightarrow> cmod (uio_offset u) 512 = int (uoff u mod 512)"
proof -
  assume "io_pre u"
  then have "uio_offset u = int (uoff u)" by (simp add: io_pre_def uoff_def)
  then show ?thesis by (simp add: cmod_pos zmod_int)
qed

lemma io_post_nothing:
  assumes "io_pre u" and "vstep v st sv st' sv'" and "sfi_size (sv_i sv') = sfi_size (sv_i sv)"
    and "\<And>m. fblk (lh_sectors st') (sv_i sv') m = fblk (lh_sectors st) (sv_i sv) m"
    and "e = EINVAL \<and> 143 * 512 \<le> uoff u \<or> e = ENOSPC \<and> uio_rw u = UIO_WRITE \<and> full st'" and "uio_rw u \<noteq> UIO_WRITE \<Longrightarrow> rd_same st st'"
  shows "io_post v n st sv u (e, u, st')"
  unfolding io_post_def split
  using assms uio_pass_Nil [of u] fbyte_cong [OF assms(4)] by (intro exI [of _ "[]"] exI [of _ sv']) (auto simp: io_pre_def)

lemma vstep_data:
  assumes vs: "vstep v st sv st' sv'" and b: "b = fmap (lh_sectors st') (sv_i sv') n" "b \<noteq> 0" and d: "length d = 512"
  shows "vstep v st sv (dsk_wr (unat b) d st') sv'"
    and "fblk ((lh_sectors st')[unat b := d]) (sv_i sv') m = (if m = n then d else fblk (lh_sectors st') (sv_i sv') m)"
proof -
  let ?i = "sv_i sv'" let ?ss = "lh_sectors st'"
  note D = vstepD [OF vs]
  have u: "used st' b" unfolding b(1) by (rule fmap_used [OF D(1,3)]) (use b in simp)
  have bi: "b \<in> set (ptrs ?ss ?i)" unfolding b(1) by (rule fmap_in [OF D(1,3)]) (use b in simp)
  have "unat b \<noteq> unat (sfi_indirect ?i)"
    using b fmap_not_indirect [OF D(1,3), of n] by (auto simp: word_unat_eq_iff [symmetric])
  then have ix: "idx (?ss[unat b := d]) ?i = idx ?ss ?i" by (simp add: idx_def)
  then have ps: "ptrs (?ss[unat b := d]) ?i = ptrs ?ss ?i" by (simp add: ptrs_def)
  then have fm: "fmap (?ss[unat b := d]) ?i k = fmap ?ss ?i k" for k by (simp add: fmap_def)
  have "?ss[unat b := d] ! unat p = ?ss ! unat p" if "p \<notin> set (ptrs ?ss ?i) \<or> p = 0" for p
    using bi b(2) that by (cases "p = b") (auto simp: word_unat_eq_iff)
  then have "grow st' ?i (dsk_wr (unat b) d st') ?i" using D(1,3) d ps by (auto simp: grow_def inode_ok_def)
  then have "vstep v st' sv' (dsk_wr (unat b) d st') sv'" using D(2) by (auto simp: vstep_def)
  then show "vstep v st sv (dsk_wr (unat b) d st') sv'" by (rule vstep_trans [OF vs])
  show "fblk (?ss[unat b := d]) ?i m = (if m = n then d else fblk ?ss ?i m)"
  proof (cases "m = n")
    case True
    then show ?thesis using b(2) used_block [OF D(1) u] by (simp add: fblk_def fm b(1) [symmetric])
  next
    case False
    then have "fmap ?ss ?i m \<noteq> 0 \<Longrightarrow> unat (fmap ?ss ?i m) \<noteq> unat b"
      using fmap_inj [OF D(1,3), of m n] b by (auto simp: word_unat_eq_iff [symmetric])
    then show ?thesis using False by (auto simp: fblk_def fm)
  qed
qed

text \<open>A block of which the bytes from \<open>skip\<close> on have been replaced by \<open>bs\<close>.\<close>

definition patch :: "u8 list \<Rightarrow> nat \<Rightarrow> u8 list \<Rightarrow> u8 list" where
  "patch old skip bs = take skip old @ bs @ drop (skip + length bs) old"

lemma length_patch [simp]: "skip + length bs \<le> length old \<Longrightarrow> length (patch old skip bs) = length old"
  by (simp add: patch_def)

lemma nth_patch:
  "skip + length bs \<le> length old \<Longrightarrow> j < length old \<Longrightarrow>
   patch old skip bs ! j = (if skip \<le> j \<and> j < skip + length bs then bs ! (j - skip) else old ! j)"
  by (auto simp: patch_def nth_append min_def)

lemma fbyte_patch:
  assumes "length (fblk ss i n) = 512" and "off = 512 * n + skip" and "skip + length bs \<le> 512"
    and "\<And>m. fblk ss' i' m = (if m = n then patch (fblk ss i n) skip bs else fblk ss i m)"
  shows "fbyte ss' i' k = (if off \<le> k \<and> k < off + length bs then bs ! (k - off) else fbyte ss i k)"
proof (cases "k div 512 = n")
  case True
  define j where "j = k mod 512"
  have j: "k = 512 * n + j" "j < 512" using True div_mult_mod_eq [of k 512] by (simp_all add: j_def)
  then have "(off \<le> k \<and> k < off + length bs) = (skip \<le> j \<and> j < skip + length bs)" "k - off = j - skip" using assms(2) by auto
  then show ?thesis
    using True assms(1,3,4) j(2) nth_patch [of skip bs "fblk ss i n" j] by (simp add: fbyte_def j_def [symmetric])
next
  case False
  have "\<not> (off \<le> k \<and> k < off + length bs)"
  proof
    assume "off \<le> k \<and> k < off + length bs"
    then have "512 * n \<le> k" "k < 512 * n + 512" using assms(2,3) by auto
    then have "k div 512 = n" by (simp add: div_nat_eqI)
    with False show False by simp
  qed
  then show ?thesis using False assms(4) by (auto simp: fbyte_def)
qed

lemma map_fbyte:
  assumes "length (fblk ss i n) = 512" and "off = 512 * n + skip" and "skip + len \<le> 512"
  shows "map (fbyte ss i) [off..<off + len] = take len (drop skip (fblk ss i n))"
proof (rule nth_equalityI)
  fix j assume "j < length (map (fbyte ss i) [off..<off + len])"
  then have j: "j < len" by simp
  then have "(off + j) div 512 = n" "(off + j) mod 512 = skip + j" using assms(2,3) by (simp_all add: add.assoc)
  then show "map (fbyte ss i) [off..<off + len] ! j = take len (drop skip (fblk ss i n)) ! j"
    using j assms by (simp add: fbyte_def)
qed (use assms in simp)

lemma bmap_err_block: "sfs_bmap v n doalloc st = Some (e, b, st1) \<Longrightarrow> e \<noteq> EOK \<Longrightarrow> b = 0"
  by (auto simp: sfs_bmap_def bmap_direct_def bmap_indirect_def bmap_return_def Let_def bind_eq_Some split: if_splits)

text \<open>Finding the block of a file position: either nothing happens, or the block is there.\<close>

lemma bmap_at:
  assumes wf: "fs_wf st" and sv: "sfs_v st v = Some sv" and ok: "inode_ok st (sv_i sv)" and pre: "io_pre u"
  obtains e st1 where "sfs_bmap v (of_int (cdiv (uio_offset u) (int SFS_BLOCKSIZE))) (uio_rw u = UIO_WRITE) st = Some (e, 0, st1)"
      "e \<noteq> EOK" "\<And>n. io_post v n st sv u (e, u, st1)" "e = ENOSPC \<Longrightarrow> fmap (lh_sectors st) (sv_i sv) (uoff u div 512) = 0"
    | b st1 sv1 where "sfs_bmap v (of_int (cdiv (uio_offset u) (int SFS_BLOCKSIZE))) (uio_rw u = UIO_WRITE) st = Some (EOK, b, st1)"
      "vstep v st sv st1 sv1" "sfi_size (sv_i sv1) = sfi_size (sv_i sv)"
      "\<And>m. fblk (lh_sectors st1) (sv_i sv1) m = fblk (lh_sectors st) (sv_i sv) m"
      "b = fmap (lh_sectors st1) (sv_i sv1) (uoff u div 512)" "uio_rw u = UIO_WRITE \<Longrightarrow> b \<noteq> 0" "uoff u div 512 < 143"
      "uio_rw u \<noteq> UIO_WRITE \<Longrightarrow> rd_same st st1"
proof -
  let ?fb = "of_int (cdiv (uio_offset u) (int SFS_BLOCKSIZE)) :: u32"
  have n: "unat ?fb = uoff u div 512" using unat_fileblock [OF pre] by (simp add: SFS_BLOCKSIZE_def)
  show thesis
  proof (cases "unat ?fb < 143")
    case False
    have "io_post v n st sv u (EINVAL, u, st)" for n
      by (rule io_post_nothing [OF pre vstep_refl [OF wf sv ok]]) (use False n in simp_all)
    then show thesis using False bmap_far [of ?fb v "uio_rw u = UIO_WRITE" st] by (intro that(1) [of EINVAL st]) simp_all
  next
    case T: True
    from bmap_ok [OF wf sv ok T, of "uio_rw u = UIO_WRITE"] obtain e b st1 where
      r: "sfs_bmap v ?fb (uio_rw u = UIO_WRITE) st = Some (e, b, st1)" "bmap_post v (unat ?fb) (uio_rw u = UIO_WRITE) st sv (e, b, st1)"
      by auto
    from r(2) obtain sv1 where s: "vstep v st sv st1 sv1" "sfi_size (sv_i sv1) = sfi_size (sv_i sv)"
      "\<And>m. fblk (lh_sectors st1) (sv_i sv1) m = fblk (lh_sectors st) (sv_i sv) m"
      "e = EOK \<and> b = fmap (lh_sectors st1) (sv_i sv1) (unat ?fb) \<and> (uio_rw u = UIO_WRITE \<longrightarrow> b \<noteq> 0) \<or> e = ENOSPC \<and> uio_rw u = UIO_WRITE \<and> full st1"
      unfolding bmap_post_def split by blast
    note same = bmap_same [OF wf sv ok T _ r(1)]
    show thesis
    proof (cases "e = EOK")
      case True
      then show thesis using r(1) s n T same by (intro that(2) [of b st1 sv1]) auto
    next
      case False
      have "io_post v n st sv u (e, u, st1)" for n
        by (rule io_post_nothing [OF pre s(1-3)]) (use s(4) False same in auto)
      moreover have "b = 0" using bmap_err_block r(1) False by blast
      moreover have "fmap (lh_sectors st) (sv_i sv) (uoff u div 512) = 0" using same False n by auto
      ultimately show thesis using r(1) False by (intro that(1) [of e st1]) simp_all
    qed
  qed
qed

lemma partialio_post:
  assumes wf: "fs_wf st" and sv: "sfs_v st v = Some sv" and ok: "inode_ok st (sv_i sv)" and pre: "io_pre u"
    and skip: "unat skip = uoff u mod 512" and len: "unat skip + unat len \<le> 512" "unat len \<le> uio_resid u"
  shows "\<exists>r. sfs_partialio v u skip len st = Some r \<and> io_post v (unat len) st sv u r \<and>
    (fst r \<noteq> EOK \<longrightarrow> fst (snd r) = u \<and> (fst r = ENOSPC \<longrightarrow> fmap (lh_sectors st) (sv_i sv) (uoff u div 512) = 0))"
proof -
  let ?n = "uoff u div 512"
  have pass: "skip + len \<le> (512 :: u32)" using len(1) by (simp add: word_le_nat_alt unat_plus_if')
  from bmap_at [OF wf sv ok pre] show ?thesis
  proof cases
    case (1 e st1)
    then have "sfs_partialio v u skip len st = Some (e, u, st1)" using pass by (simp add: sfs_partialio_def SFS_BLOCKSIZE_def)
    then show ?thesis using 1(3,4) by auto
  next
    case (2 b st1 sv1)
    let ?i = "sv_i sv1" let ?B = "fblk (lh_sectors st1) ?i ?n"
    note D = vstepD [OF 2(2)]
    have lB: "length ?B = 512" by (rule length_fblk [OF D(1,3)])
    have off: "uoff u = 512 * ?n + unat skip" using skip by simp
    then have far: "uoff u + unat len \<le> 143 * 512" using 2(7) len(1) by linarith
    define st2 where "st2 = (if b = 0 then st1 else dsk_rd (unat b) st1)"
    have ub: "b \<noteq> 0 \<Longrightarrow> used st1 b" using fmap_used [OF D(1,3), of ?n] 2(5) by simp
    have vs: "vstep v st sv st2 sv1" "lh_sectors st2 = lh_sectors st1" "calm st2"
      using vstep_dsk_rd [OF 2(2)] 2(2) used_block [OF D(1) ub] D(1) by (auto simp: st2_def fs_wf_def)
    have rb: "(if b = 0 then do { kassert (uio_rw u = UIO_READ); Some (EOK, replicate SFS_BLOCKSIZE 0, st1) }
        else sfs_rblock (replicate SFS_BLOCKSIZE 0) b st1) = Some (EOK, ?B, st2)"
    proof (cases "b = 0")
      case True
      then have "uio_rw u = UIO_READ" using 2(6) by (cases "uio_rw u") auto
      then show ?thesis using True 2(5) by (simp add: fblk_def st2_def SFS_BLOCKSIZE_def)
    next
      case False
      then show ?thesis using rblock_calm [of st1 b "replicate SFS_BLOCKSIZE 0"] used_block [OF D(1) ub] D(1) 2(5)
        by (simp add: fblk_def st2_def SFS_BLOCKSIZE_def fs_wf_def)
    qed
    have u: "uio_ok u" using pre by (simp add: io_pre_def)
    have ll: "unat len \<le> length (drop (unat skip) ?B)" using len lB by simp
    show ?thesis
    proof (cases "uio_rw u = UIO_WRITE")
      case False
      then have rd: "uio_rw u = UIO_READ" by (cases "uio_rw u") auto
      let ?bs = "take (unat len) (drop (unat skip) ?B)"
      have "sfs_partialio v u skip len st = Some (EOK, uio_pass ?bs u, st2)"
        using pass 2(1) rb rd uiomove_read [OF len(2) u ll rd, of st2] by (simp add: sfs_partialio_def SFS_BLOCKSIZE_def)
      moreover have "?bs = map (fbyte (lh_sectors st) (sv_i sv)) [uoff u..<uoff u + unat len]"
        using map_fbyte [of "lh_sectors st" "sv_i sv" ?n, OF _ off len(1)] lB by (simp add: 2(4))
      moreover have "length ?bs = unat len" using ll by simp
      moreover have "rd_same st st2" using 2(8) False rd_same_trans [OF 2(8) rd_same_dsk] by (simp add: st2_def)
      ultimately have "io_post v (unat len) st sv u (EOK, uio_pass ?bs u, st2)"
        unfolding io_post_def split using vs(1,2) 2(3) fbyte_cong [OF 2(4)] False far
        by (intro exI [of _ ?bs] exI [of _ sv1]) simp
      with \<open>sfs_partialio v u skip len st = _\<close> show ?thesis by auto
    next
      case True
      let ?bs = "take (unat len) (uio_kbase u)" let ?d = "patch ?B (unat skip) ?bs"
      have lb: "length ?bs = unat len" using len(2) u by (simp add: uio_ok_def)
      have ld: "length ?d = 512" using lb lB len(1) by simp
      have b: "b = fmap (lh_sectors st2) ?i ?n" "b \<noteq> 0" using 2(5,6) True vs(2) by simp_all
      let ?st = "dsk_wr (unat b) ?d st2"
      note vd = vstep_data [OF vs(1) b ld]
      have w: "sfs_wblock ?d b st2 = Some (EOK, ?st)"
        using vs(3) used_block [OF D(1) ub] b(2) ld vs(2) by (intro wblock_calm) simp_all
      have "take (unat skip) ?B @ ?bs @ drop (unat len) (drop (unat skip) ?B) = ?d"
        using lb by (simp add: patch_def add.commute)
      then have P: "sfs_partialio v u skip len st = Some (EOK, uio_pass ?bs u, ?st)"
        using pass 2(1) rb True w uiomove_write [OF len(2) u ll True, of st2] by (simp add: sfs_partialio_def SFS_BLOCKSIZE_def)
      have fb: "fbyte (lh_sectors ?st) ?i k =
          (if uoff u \<le> k \<and> k < uoff u + length ?bs then ?bs ! (k - uoff u) else fbyte (lh_sectors st) (sv_i sv) k)" for k
        by (rule fbyte_patch [OF _ off]) (use lB lb len(1) vd(2) vs(2) 2(4) in simp_all)
      have "io_post v (unat len) st sv u (EOK, uio_pass ?bs u, ?st)"
        unfolding io_post_def split
        by (intro exI [of _ ?bs] exI [of _ sv1]) (use vd(1) fb 2(3) True lb far in simp)
      with P show ?thesis by auto
    qed
  qed
qed

section \<open>Whole blocks\<close>

text \<open>The detour of \<^verbatim>\<open>sfs_blockio\<close> through the device offset leaves the \<open>uio\<close> as a direct transfer would.\<close>

lemma blockio_uio:
  assumes pre: "io_pre u" and res: "512 \<le> uio_resid u" and l: "length bs = 512" and b: "b < 2 ^ 22"
  defines "u0 \<equiv> u\<lparr>uio_offset := int b * 512, uio_resid := 512\<rparr>"
  shows "uio_ok u0"
    and "(uio_pass bs u0)\<lparr>uio_offset := s32 (s32 (uio_offset (uio_pass bs u0) - int b * 512) + uio_offset u),
        uio_resid := nat ((int (uio_resid (uio_pass bs u0)) - 512 + s32 (int (uio_resid u))) mod 2 ^ 32)\<rparr> = uio_pass bs u"
proof -
  have r: "uio_resid u < 2 ^ 31" using pre by (auto simp: io_pre_def)
  show "uio_ok u0" using pre res b by (simp add: io_pre_def uio_ok_def u0_def)
  have "s32 (int (uio_resid u)) = int (uio_resid u)" using r by (intro s32_id) simp_all
  moreover have "(int (uio_resid u) - 512) mod 2 ^ 32 = int (uio_resid u - 512)" using r res by simp
  ultimately have e1: "nat ((int (uio_resid (uio_pass bs u0)) - 512 + s32 (int (uio_resid u))) mod 2 ^ 32) = uio_resid u - 512"
    using l by (simp add: u0_def)
  have "s32 (s32 (s32 (int b * 512 + 512) - int b * 512) + uio_offset u) = s32 (uio_offset u + 512)"
    using s32_add [of "int b * 512 + 512" "- (int b * 512)"] s32_add [of 512 "uio_offset u"] by (simp add: add.commute)
  then have e2: "s32 (s32 (uio_offset (uio_pass bs u0) - int b * 512) + uio_offset u) = s32 (uio_offset u + 512)"
    using l by (simp add: u0_def)
  show "(uio_pass bs u0)\<lparr>uio_offset := s32 (s32 (uio_offset (uio_pass bs u0) - int b * 512) + uio_offset u),
        uio_resid := nat ((int (uio_resid (uio_pass bs u0)) - 512 + s32 (int (uio_resid u))) mod 2 ^ 32)\<rparr> = uio_pass bs u"
    unfolding e1 e2 using l by (cases u) (simp add: u0_def uio_pass_def)
qed

lemma blockio_post:
  assumes wf: "fs_wf st" and sv: "sfs_v st v = Some sv" and ok: "inode_ok st (sv_i sv)" and pre: "io_pre u"
    and al: "uoff u mod 512 = 0" and res: "512 \<le> uio_resid u"
  shows "\<exists>r. sfs_blockio v u st = Some r \<and> io_post v 512 st sv u r"
proof -
  let ?n = "uoff u div 512"
  from bmap_at [OF wf sv ok pre] show ?thesis
  proof cases
    case (1 e st1)
    then have "sfs_blockio v u st = Some (e, u, st1)" by (simp add: sfs_blockio_def)
    then show ?thesis using 1(3) by blast
  next
    case (2 b st1 sv1)
    let ?i = "sv_i sv1" let ?B = "fblk (lh_sectors st1) ?i ?n"
    note D = vstepD [OF 2(2)]
    have lB: "length ?B = 512" by (rule length_fblk [OF D(1,3)])
    have off: "uoff u = 512 * ?n + 0" using al mult_div_mod_eq [of 512 "uoff u"] by simp
    then have far: "uoff u + 512 \<le> 143 * 512" using 2(7) by linarith
    have u: "uio_ok u" using pre by (simp add: io_pre_def)
    have ub: "b \<noteq> 0 \<Longrightarrow> used st1 b" using fmap_used [OF D(1,3), of ?n] 2(5) by simp
    have rd_post: "io_post v 512 st sv u (EOK, uio_pass ?B u, st2)"
      if "vstep v st sv st2 sv1" "lh_sectors st2 = lh_sectors st1" "uio_rw u = UIO_READ" "rd_same st1 st2" for st2
    proof -
      have "?B = map (fbyte (lh_sectors st) (sv_i sv)) [uoff u..<uoff u + length ?B]"
        using map_fbyte [of "lh_sectors st" "sv_i sv" ?n, OF _ off, of 512] lB by (simp add: 2(4))
      then show ?thesis
        unfolding io_post_def split using that 2(3) fbyte_cong [OF 2(4)] lB far rd_same_trans [OF 2(8) that(4)]
        by (intro exI [of _ ?B] exI [of _ sv1]) simp
    qed
    show ?thesis
    proof (cases "b = 0")
      case True
      then have rd: "uio_rw u = UIO_READ" using 2(6) by (cases "uio_rw u") auto
      have "?B = replicate 512 0" using True 2(5) by (simp add: fblk_def)
      then have "sfs_blockio v u st = Some (EOK, uio_pass ?B u, st1)"
        using 2(1) True rd uiomovezeros_zeros [OF res u rd] by (simp add: sfs_blockio_def SFS_BLOCKSIZE_def)
      then show ?thesis using rd_post [OF 2(2) refl rd rd_same_refl] by blast
    next
      case False
      have bl: "unat b < length (lh_sectors st1)" using used_block [OF D(1) ub] False by simp
      then have b22: "unat b < 2 ^ 22" and cal: "calm st1" using D(1) by (simp_all add: fs_wf_def calm_def lhd_ok_def)
      have "unat (b * 512) = unat b * 512" using b22 by (simp add: unat_mult_lem [symmetric] unat_word_ariths)
      then have doff: "sint (b * 512) = int (unat b) * 512" using b22 by (subst sint_small) (simp_all del: of_nat_unat)
      let ?u0 = "u\<lparr>uio_offset := int (unat b) * 512, uio_resid := 512\<rparr>"
      note bu = blockio_uio [OF pre res _ b22]
      have blk: "sfs_blockio v u st = Some (EOK, uio_pass bs u, st2)"
        if "sfs_rwblock ?u0 st1 = Some (EOK, uio_pass bs ?u0, st2)" "length bs = 512" for bs st2
        using 2(1) False that res doff bu(2) [of bs] by (simp add: sfs_blockio_def SFS_BLOCKSIZE_def del: of_nat_unat)
      show ?thesis
      proof (cases "uio_rw u = UIO_WRITE")
        case wr: False
        then have rd: "uio_rw u = UIO_READ" by (cases "uio_rw u") auto
        have "lh_sectors st1 ! unat b = ?B" using 2(5) False by (simp add: fblk_def)
        then have "sfs_rwblock ?u0 st1 = Some (EOK, uio_pass ?B ?u0, dsk_rd (unat b) st1)"
          using rwblock_read [OF cal bl bu(1) [OF lB]] rd by simp
        then have "sfs_blockio v u st = Some (EOK, uio_pass ?B u, dsk_rd (unat b) st1)" using blk lB by blast
        then show ?thesis using rd_post [OF vstep_dsk_rd [OF 2(2) bl] _ rd rd_same_dsk] by auto
      next
        case True
        let ?bs = "take 512 (uio_kbase u)"
        have lb: "length ?bs = 512" using res u by (simp add: uio_ok_def)
        let ?st = "dsk_wr (unat b) ?bs st1"
        have "sfs_rwblock ?u0 st1 = Some (EOK, uio_pass ?bs ?u0, ?st)"
          using rwblock_write [OF cal bl bu(1) [OF lb]] True by simp
        then have P: "sfs_blockio v u st = Some (EOK, uio_pass ?bs u, ?st)" using blk lb by blast
        note vd = vstep_data [OF 2(2) 2(5) False lb]
        have "?bs = patch ?B 0 ?bs" using lB lb by (simp add: patch_def)
        then have fb: "fbyte (lh_sectors ?st) ?i k =
            (if uoff u \<le> k \<and> k < uoff u + length ?bs then ?bs ! (k - uoff u) else fbyte (lh_sectors st) (sv_i sv) k)" for k
          using vd(2) 2(4) lB lb by (intro fbyte_patch [OF _ off]) simp_all
        have "io_post v 512 st sv u (EOK, uio_pass ?bs u, ?st)"
          unfolding io_post_def split
          by (intro exI [of _ ?bs] exI [of _ sv1]) (use vd(1) fb 2(3) True lb far in simp)
        with P show ?thesis by blast
      qed
    qed
  qed
qed

section \<open>Whole transfers\<close>

lemma io_post_mono: "io_post v n st sv u (e, u', st') \<Longrightarrow> e \<noteq> EOK \<Longrightarrow> n \<le> m \<Longrightarrow> io_post v m st sv u (e, u', st')"
  unfolding io_post_def split by (elim ex_forward) auto

lemma io_post_zero:
  assumes "fs_wf st" and "sfs_v st v = Some sv" and "inode_ok st (sv_i sv)" and "io_pre u"
  shows "io_post v 0 st sv u (EOK, u, st)"
  unfolding io_post_def split
  using vstep_refl [OF assms(1-3)] uio_pass_Nil [of u] assms(4) by (intro exI [of _ "[]"] exI [of _ sv]) (auto simp: io_pre_def)

lemma io_postD:
  assumes "io_post v n st sv u (EOK, u', st')" and "io_pre u" and "n \<le> uio_resid u"
  obtains sv' where "vstep v st sv st' sv'" "io_pre u'" "uoff u' = uoff u + n" "uio_resid u' = uio_resid u - n" "uio_rw u' = uio_rw u"
proof -
  from assms(1) obtain bs sv' where "length bs = n" "u' = uio_pass bs u" "vstep v st sv st' sv'"
    unfolding io_post_def split by metis
  then show thesis using assms(2,3) by (intro that [of sv']) (simp_all add: io_pre_pass uoff_pass)
qed

text \<open>Transfers one after the other.\<close>

lemma io_post_seq:
  assumes pre: "io_pre u" and n: "n1 + n2 \<le> uio_resid u" and f: "\<exists>r. f = Some r \<and> io_post v n1 st sv u r"
    and g: "\<And>u1 st1 sv1. vstep v st sv st1 sv1 \<Longrightarrow> io_pre u1 \<Longrightarrow> uoff u1 = uoff u + n1 \<Longrightarrow> uio_resid u1 = uio_resid u - n1 \<Longrightarrow>
      \<exists>r. g u1 st1 = Some r \<and> io_post v n2 st1 sv1 u1 r"
    and z: "\<And>u1 st1. uio_resid u1 = uio_resid u - n1 \<Longrightarrow> n2 = 0 \<Longrightarrow> g u1 st1 = Some (EOK, u1, st1)"
  shows "\<exists>r. do { (e, u1, st1) \<leftarrow> f; if e \<noteq> EOK then Some (e, u1, st1) else g u1 st1 } = Some r \<and> io_post v (n1 + n2) st sv u r"
proof -
  from f obtain e u1 st1 where f: "f = Some (e, u1, st1)" "io_post v n1 st sv u (e, u1, st1)" by auto
  show ?thesis
  proof (cases "e = EOK")
    case False
    then show ?thesis using f io_post_mono [OF f(2) False, of "n1 + n2"] by auto
  next
    case True
    with f(2) have p: "io_post v n1 st sv u (EOK, u1, st1)" by simp
    from io_postD [OF p pre] n obtain sv1 where
      s: "vstep v st sv st1 sv1" "io_pre u1" "uoff u1 = uoff u + n1" "uio_resid u1 = uio_resid u - n1" by auto
    from g [OF s] obtain e2 u2 st2 where g2: "g u1 st1 = Some (e2, u2, st2)" "io_post v n2 st1 sv1 u1 (e2, u2, st2)" by auto
    have "io_post v (n1 + n2) st sv u (e2, u2, st2)"
      by (rule io_post_trans [OF pre _ p]) (use n g2 vstepD(2) [OF s(1)] z [OF s(4)] in auto)
    then show ?thesis using f(1) True g2(1) by auto
  qed
qed

lemma ioblocks_post:
  "fs_wf st \<Longrightarrow> sfs_v st v = Some sv \<Longrightarrow> inode_ok st (sv_i sv) \<Longrightarrow> io_pre u \<Longrightarrow> uoff u mod 512 = 0 \<Longrightarrow> n * 512 \<le> uio_resid u \<Longrightarrow>
   \<exists>r. sfs_ioblocks v n u st = Some r \<and> io_post v (n * 512) st sv u r"
proof (induction n arbitrary: u st sv)
  case 0
  then show ?case using io_post_zero [of st v sv u] by simp
next
  case (Suc n)
  have "\<exists>r. do { (e, u1, st1) \<leftarrow> sfs_blockio v u st; if e \<noteq> EOK then Some (e, u1, st1) else sfs_ioblocks v n u1 st1 } = Some r \<and>
      io_post v (512 + n * 512) st sv u r"
  proof (rule io_post_seq)
    show "\<exists>r. sfs_blockio v u st = Some r \<and> io_post v 512 st sv u r"
      by (rule blockio_post) (use Suc.prems in simp_all)
    show "\<exists>r. sfs_ioblocks v n u1 st1 = Some r \<and> io_post v (n * 512) st1 sv1 u1 r"
      if "vstep v st sv st1 sv1" "io_pre u1" "uoff u1 = uoff u + 512" "uio_resid u1 = uio_resid u - 512" for u1 st1 sv1
      by (rule Suc.IH) (use vstepD [OF that(1)] that Suc.prems in simp_all)
  qed (use Suc.prems in simp_all)
  then show ?case by simp
qed

lemma io_whole_post:
  assumes "fs_wf st" and "sfs_v st v = Some sv" and "inode_ok st (sv_i sv)" and pre: "io_pre u" and al: "uoff u mod 512 = 0"
  shows "\<exists>r. sfs_io_whole v u st = Some r \<and> io_post v (uio_resid u) st sv u r"
proof -
  let ?n = "uio_resid u div 512 * 512" let ?m = "uio_resid u mod 512"
  have off: "cmod (uio_offset u) 512 = 0" using cmod_offset [OF pre] al by simp
  have "\<exists>r. do { (e, u1, st1) \<leftarrow> sfs_ioblocks v (uio_resid u div 512) u st; if e \<noteq> EOK then Some (e, u1, st1)
      else do { kassert (uio_resid u1 < 512);
        if uio_resid u1 > 0 then sfs_partialio v u1 0 (of_nat (uio_resid u1)) st1 else Some (EOK, u1, st1) } } = Some r \<and>
      io_post v (?n + ?m) st sv u r"
  proof (rule io_post_seq [OF pre])
    show "\<exists>r. sfs_ioblocks v (uio_resid u div 512) u st = Some r \<and> io_post v ?n st sv u r"
      by (rule ioblocks_post) (use assms in simp_all)
    show "\<exists>r. do { kassert (uio_resid u1 < 512);
        if uio_resid u1 > 0 then sfs_partialio v u1 0 (of_nat (uio_resid u1)) st1 else Some (EOK, u1, st1) } = Some r \<and>
        io_post v ?m st1 sv1 u1 r"
      if s: "vstep v st sv st1 sv1" "io_pre u1" "uoff u1 = uoff u + ?n" "uio_resid u1 = uio_resid u - ?n" for u1 st1 sv1
    proof -
      have r: "uio_resid u1 = ?m" using s(4) minus_div_mult_eq_mod [of "uio_resid u" 512] by simp
      then have "unat (of_nat (uio_resid u1) :: u32) = ?m" by (simp add: unat_of_nat)
      moreover have "uoff u1 mod 512 = 0" using s(3) al by (simp add: mod_add_eq [symmetric])
      ultimately show ?thesis
        using r partialio_post [OF vstepD(1,2,3) [OF s(1)] s(2), of 0 "of_nat (uio_resid u1)"]
          io_post_zero [OF vstepD(1,2,3) [OF s(1)] s(2)] by auto
    qed
  qed (auto simp: minus_div_mult_eq_mod)
  then show ?thesis using off unfolding sfs_io_whole_def SFS_BLOCKSIZE_def by simp
qed

lemma io_body_post:
  assumes wf: "fs_wf st" "sfs_v st v = Some sv" "inode_ok st (sv_i sv)" and pre: "io_pre u"
  shows "\<exists>r. sfs_io_body v u st = Some r \<and> io_post v (uio_resid u) st sv u r"
proof -
  let ?k = "uoff u mod 512"
  have bo: "(of_int (cmod (uio_offset u) 512) :: u32) = of_nat ?k" unfolding cmod_offset [OF pre] by (rule of_int_of_nat_eq)
  have uk: "unat (of_nat ?k :: u32) = ?k" by (simp add: unat_of_nat)
  let ?n = "if ?k = 0 then 0 else min (512 - ?k) (uio_resid u)"
  have lead: "\<exists>r. sfs_io_leading v u st = Some r \<and> io_post v ?n st sv u r"
  proof (cases "?k = 0")
    case True
    then show ?thesis using io_post_zero [OF wf pre] bo by (simp add: sfs_io_leading_def SFS_BLOCKSIZE_def)
  next
    case False
    then have nz: "(of_nat ?k :: u32) \<noteq> 0" using uk by auto
    have rl: "uio_resid u < 2 ^ 31" using pre by (auto simp: io_pre_def)
    have ul: "unat (512 - of_nat ?k :: u32) = 512 - ?k" using uk by (simp add: unat_sub_if')
    define len :: u32 where "len = (if unat (512 - of_nat ?k :: u32) > uio_resid u then of_nat (uio_resid u) else 512 - of_nat ?k)"
    have len: "unat len = ?n" using False ul rl by (auto simp: len_def unat_of_nat)
    have "sfs_io_leading v u st = sfs_partialio v u (of_nat ?k) len st"
      using nz by (simp add: sfs_io_leading_def SFS_BLOCKSIZE_def bo len_def Let_def)
    moreover have "?k + min (512 - ?k) (uio_resid u) \<le> 512" by (auto simp: min_def)
    ultimately show ?thesis
      using partialio_post [OF wf pre, of "of_nat ?k" len] uk len False by auto
  qed
  have "\<exists>r. do { (e, u1, st1) \<leftarrow> sfs_io_leading v u st; if e \<noteq> EOK then Some (e, u1, st1)
      else if uio_resid u1 = 0 then Some (EOK, u1, st1) else sfs_io_whole v u1 st1 } = Some r \<and>
      io_post v (?n + (uio_resid u - ?n)) st sv u r"
  proof (rule io_post_seq [OF pre _ lead])
    show "\<exists>r. (if uio_resid u1 = 0 then Some (EOK, u1, st1) else sfs_io_whole v u1 st1) = Some r \<and>
        io_post v (uio_resid u - ?n) st1 sv1 u1 r"
      if s: "vstep v st sv st1 sv1" "io_pre u1" "uoff u1 = uoff u + ?n" "uio_resid u1 = uio_resid u - ?n" for u1 st1 sv1
    proof (cases "uio_resid u1 = 0")
      case True
      then show ?thesis using io_post_zero [OF vstepD(1,2,3) [OF s(1)] s(2)] s(4) by auto
    next
      case False
      have "uoff u1 mod 512 = 0"
      proof (cases "?k = 0")
        case True
        then show ?thesis using s(3) by simp
      next
        case k: False
        then have "uoff u1 = uoff u + (512 - ?k)" using False s(3,4) by simp
        moreover have "?k \<le> 512" by simp
        ultimately have "uoff u1 = 512 * (uoff u div 512) + 512" using mult_div_mod_eq [of 512 "uoff u"] by linarith
        then show ?thesis by simp
      qed
      then show ?thesis using False io_whole_post [OF vstepD(1,2,3) [OF s(1)] s(2)] s(4) by simp
    qed
  qed (simp, drule (1) trans, simp)
  then show ?thesis by (simp add: sfs_io_body_def)
qed

text \<open>A transfer that stays within a block moves everything or nothing.\<close>

lemma io_body_within:
  assumes wf: "fs_wf st" "sfs_v st v = Some sv" "inode_ok st (sv_i sv)" and pre: "io_pre u"
    and r: "0 < uio_resid u" "uoff u mod 512 + uio_resid u \<le> 512" "uio_resid u < 512"
    and b: "sfs_io_body v u st = Some (e, u1, st1)" "e \<noteq> EOK"
  shows "u1 = u \<and> (e = ENOSPC \<longrightarrow> fmap (lh_sectors st) (sv_i sv) (uoff u div 512) = 0)"
proof -
  let ?k = "uoff u mod 512"
  have bo: "(of_int (cmod (uio_offset u) 512) :: u32) = of_nat ?k" unfolding cmod_offset [OF pre] by (rule of_int_of_nat_eq)
  have uk: "unat (of_nat ?k :: u32) = ?k" "unat (of_nat (uio_resid u) :: u32) = uio_resid u" using r(3) by (simp_all add: unat_of_nat)
  from partialio_post [OF wf pre, of "of_nat ?k" "of_nat (uio_resid u)"] r(2) uk obtain e2 u2 st2 where
    p: "sfs_partialio v u (of_nat ?k) (of_nat (uio_resid u)) st = Some (e2, u2, st2)"
      "e2 \<noteq> EOK \<Longrightarrow> u2 = u \<and> (e2 = ENOSPC \<longrightarrow> fmap (lh_sectors st) (sv_i sv) (uoff u div 512) = 0)"
      "io_post v (uio_resid u) st sv u (e2, u2, st2)" by auto
  show ?thesis
  proof (cases "?k = 0")
    case True
    then have "cmod (uio_offset u) 512 = 0" using cmod_offset [OF pre] by simp
    then have "sfs_io_body v u st = Some (e2, u2, st2)"
      using p(1) True r by (simp add: sfs_io_body_def sfs_io_leading_def sfs_io_whole_def SFS_BLOCKSIZE_def)
    then show ?thesis using b p(2) by simp
  next
    case False
    then have nz: "(of_nat ?k :: u32) \<noteq> 0" using uk by auto
    have "unat (512 - of_nat ?k :: u32) = 512 - ?k" using uk by (simp add: unat_sub_if')
    moreover have "512 - of_nat ?k = (of_nat (uio_resid u) :: u32)" if "512 - ?k = uio_resid u"
      using that calculation uk(2) by (simp add: word_unat_eq_iff)
    ultimately have "sfs_io_leading v u st = Some (e2, u2, st2)"
      using p(1) nz r(2) by (auto simp: sfs_io_leading_def SFS_BLOCKSIZE_def bo Let_def)
    moreover have "e2 = EOK \<Longrightarrow> uio_resid u2 = 0"
    proof -
      assume "e2 = EOK"
      with p(3) have "io_post v (uio_resid u) st sv u (EOK, u2, st2)" by simp
      from io_postD [OF this pre] show ?thesis by auto
    qed
    ultimately have "sfs_io_body v u st = Some (e2, u2, st2)" by (cases "e2 = EOK") (simp_all add: sfs_io_body_def)
    then show ?thesis using b p(2) by simp
  qed
qed

section \<open>Reading and writing files\<close>

text \<open>The contract: a file is a size and an infinite sequence of bytes.\<close>

type_synonym filedata = "nat \<times> (nat \<Rightarrow> u8)"

definition contents :: "'a sfs_fs_scheme \<Rightarrow> sfs_vnode \<Rightarrow> filedata" where
  "contents st sv = (unat (sfi_size (sv_i sv)), fbyte (lh_sectors st) (sv_i sv))"

definition file_write :: "nat \<Rightarrow> u8 list \<Rightarrow> filedata \<Rightarrow> filedata" where
  "file_write off bs f =
     (max (fst f) (off + length bs), \<lambda>k. if off \<le> k \<and> k < off + length bs then bs ! (k - off) else snd f k)"

definition file_read :: "nat \<Rightarrow> nat \<Rightarrow> filedata \<Rightarrow> u8 list" where
  "file_read off len f = map (snd f) [off..<min (off + len) (fst f)]"

lemma file_read_write: "file_read off (length bs) (file_write off bs f) = bs"
  by (rule nth_equalityI) (simp_all add: file_read_def file_write_def)

lemma sfs_io_write_lemma:
  assumes wf: "fs_wf st" "sfs_v st v = Some sv" "inode_ok st (sv_i sv)" and pre: "io_pre u" and wr: "uio_rw u = UIO_WRITE"
    and sz: "unat (sfi_size (sv_i sv)) < 2 ^ 31"
  shows "\<exists>e bs st' sv'. sfs_io v u st = Some (e, uio_pass bs u, st') \<and> bs = take (length bs) (uio_kbase u) \<and> length bs \<le> uio_resid u \<and>
    vstep v st sv st' sv' \<and> contents st' sv' = file_write (uoff u) bs (contents st sv) \<and>
    (e = EOK \<and> length bs = uio_resid u \<and> (bs \<noteq> [] \<longrightarrow> uoff u + length bs \<le> 143 * 512) \<or> e = EINVAL \<and> 143 * 512 \<le> uoff u + length bs \<or> e = ENOSPC \<and> full st') \<and>
    (0 < uio_resid u \<and> uoff u mod 512 + uio_resid u \<le> 512 \<and> uio_resid u < 512 \<and> e \<noteq> EOK \<longrightarrow>
       bs = [] \<and> (e = ENOSPC \<longrightarrow> fmap (lh_sectors st) (sv_i sv) (uoff u div 512) = 0))"
proof -
  from io_body_post [OF wf pre] obtain e u1 st1 where
    b: "sfs_io_body v u st = Some (e, u1, st1)" "io_post v (uio_resid u) st sv u (e, u1, st1)" by auto
  from b(2) obtain bs sv1 where p: "length bs \<le> uio_resid u" "u1 = uio_pass bs u" "vstep v st sv st1 sv1"
      "sfi_size (sv_i sv1) = sfi_size (sv_i sv)" "e \<in> {EOK, ENOSPC, EINVAL}" "e = EOK \<longrightarrow> length bs = uio_resid u \<and> (uio_resid u \<noteq> 0 \<longrightarrow> uoff u + uio_resid u \<le> 143 * 512)"
      "e = EINVAL \<longrightarrow> 143 * 512 \<le> uoff u + length bs" "e = ENOSPC \<longrightarrow> full st1" "bs = take (length bs) (uio_kbase u)"
      "\<And>k. fbyte (lh_sectors st1) (sv_i sv1) k =
        (if uoff u \<le> k \<and> k < uoff u + length bs then bs ! (k - uoff u) else fbyte (lh_sectors st) (sv_i sv) k)"
    unfolding io_post_def split if_P [OF wr] by (elim exE conjE) (rule that; blast)
  note D = vstepD [OF p(3)]
  have pre1: "io_pre u1" and off1: "uoff u1 = uoff u + length bs"
    using p(1,2) io_pre_pass [OF pre p(1)] uoff_pass [OF pre p(1)] by simp_all
  from pre1 have "uio_offset u1 = int (uoff u1)" by (simp add: io_pre_def uoff_def)
  note o = this off1
  from pre1 have "uio_offset u1 < 2147483648" by (auto simp: io_pre_def)
  then have o31: "uoff u + length bs < 2 ^ 31" unfolding o by simp
  have s: "sint (sfi_size (sv_i sv)) = int (unat (sfi_size (sv_i sv)))" by (rule sint_small [OF sz])
  define sz' where "sz' = max (unat (sfi_size (sv_i sv))) (uoff u + length bs)"
  define sv2 where "sv2 = (if uoff u + length bs > unat (sfi_size (sv_i sv))
    then sv1\<lparr>sv_i := (sv_i sv1)\<lparr>sfi_size := of_int (uio_offset u1)\<rparr>, sv_dirty := True\<rparr> else sv1)"
  have i2: "sfi_direct (sv_i sv2) = sfi_direct (sv_i sv1)" "sfi_indirect (sv_i sv2) = sfi_indirect (sv_i sv1)"
    by (simp_all add: sv2_def)
  have fb: "fbyte ss (sv_i sv2) = fbyte ss (sv_i sv1)" for ss
    by (simp add: fbyte_def fblk_def fmap_def ptrs_def idx_def i2 fun_eq_iff)
  have "uoff u1 < 2 ^ 32" using o31 o(2) by simp
  then have "unat (of_nat (uoff u1) :: u32) = uoff u1" by (simp add: unat_of_nat)
  then have "unat (of_int (uio_offset u1) :: u32) = uoff u1" unfolding o(1) by simp
  then have z2: "unat (sfi_size (sv_i sv2)) = sz'" using p(4) o(2) by (auto simp: sv2_def sz'_def)
  let ?st = "sv_put v sv2 st1"
  have "ptrs (lh_sectors st1) (sv_i sv2) = ptrs (lh_sectors st1) (sv_i sv1)" by (simp add: ptrs_def idx_def i2)
  then have "grow st1 (sv_i sv1) ?st (sv_i sv2)"
    using D(1,3) by (auto simp: grow_def inode_ok_def inode_wf_def sv2_def)
  then have "vstep v st1 sv1 ?st sv2" by (simp add: vstep_def) (simp add: sv2_def)
  then have vs: "vstep v st sv ?st sv2" by (rule vstep_trans [OF p(3)])
  have "(uio_offset u1 > sint (sfi_size (sv_i sv1))) = (uoff u + length bs > unat (sfi_size (sv_i sv)))"
    unfolding p(4) s o by (rule of_nat_less_iff)
  moreover have "st1\<lparr>sfs_v := (sfs_v st1)(v \<mapsto> sv1)\<rparr> = st1" using D(2) by (cases st1) (simp add: fun_upd_idem)
  ultimately have out: "sfs_io_out v u1 st1 = Some ?st"
    using D(2) wr p(2) by (simp add: sfs_io_out_def sv2_def)
  have ru: "uio_resid u1 < 2 ^ 32" using pre p(1,2) by (auto simp: io_pre_def)
  then have "u1\<lparr>uio_resid := uio_resid u1 mod 2 ^ 32\<rparr> = u1" by (cases u1) simp
  moreover have "u\<lparr>uio_resid := uio_resid u\<rparr> = u" by (cases u) simp
  ultimately have "sfs_io v u st = Some (e, u1, ?st)" using wf(2) wr b(1) out by (simp add: sfs_io_def)
  moreover have "contents ?st sv2 = file_write (uoff u) bs (contents st sv)"
    using p(10) z2 fb by (simp add: contents_def file_write_def sz'_def fun_eq_iff)
  moreover have "bs = [] \<and> (e = ENOSPC \<longrightarrow> fmap (lh_sectors st) (sv_i sv) (uoff u div 512) = 0)" if "0 < uio_resid u \<and> uoff u mod 512 + uio_resid u \<le> 512 \<and> uio_resid u < 512 \<and> e \<noteq> EOK"
  proof -
    have w: "uio_pass bs u = u \<and> (e = ENOSPC \<longrightarrow> fmap (lh_sectors st) (sv_i sv) (uoff u div 512) = 0)"
      using io_body_within [OF wf pre _ _ _ b(1)] that p(2) by simp
    from arg_cong [OF conjunct1 [OF w], of uio_kdone] have "bs = []" by simp
    with w show ?thesis by blast
  qed
  ultimately show ?thesis using p(1,2,5-9) vs by (intro exI [of _ e] exI [of _ bs] exI [of _ ?st] exI [of _ sv2]) (auto simp: full_def)
qed

lemma io_pre_resid: "io_pre u \<Longrightarrow> n \<le> uio_resid u \<Longrightarrow> io_pre (u\<lparr>uio_resid := n\<rparr>)"
  by (auto simp: io_pre_def uio_ok_def)

lemma sfs_io_read_lemma:
  assumes wf: "fs_wf st" "sfs_v st v = Some sv" "inode_ok st (sv_i sv)" and pre: "io_pre u" and rd: "uio_rw u = UIO_READ"
    and sz: "unat (sfi_size (sv_i sv)) \<le> 143 * 512"
  shows "\<exists>st' sv'. sfs_io v u st = Some (EOK, uio_pass (file_read (uoff u) (uio_resid u) (contents st sv)) u, st') \<and>
    vstep v st sv st' sv' \<and> contents st' sv' = contents st sv \<and> rd_same st st'"
proof -
  let ?z = "unat (sfi_size (sv_i sv))"
  have s: "sint (sfi_size (sv_i sv)) = int ?z" by (rule sint_small) (use sz in simp)
  have o: "uio_offset u = int (uoff u)" using pre by (simp add: io_pre_def uoff_def)
  have en: "s32 (uio_offset u + int (uio_resid u)) = int (uoff u + uio_resid u)"
    using pre o by (subst s32_id) (simp_all add: io_pre_def)
  show ?thesis
  proof (cases "uoff u \<ge> ?z")
    case True
    then have "sfs_io v u st = Some (EOK, u, st)" using wf(2) rd s o by (simp add: sfs_io_def del: of_nat_unat)
    moreover have "file_read (uoff u) (uio_resid u) (contents st sv) = []" using True by (simp add: file_read_def contents_def)
    moreover have "uio_pass [] u = u" using pre by (intro uio_pass_Nil) (simp add: io_pre_def)
    ultimately show ?thesis using vstep_refl [OF wf] by auto
  next
    case False
    define x where "x = uoff u + uio_resid u - ?z"
    have r31: "uoff u + uio_resid u < 2 ^ 31" using pre o by (simp add: io_pre_def)
    have xr: "x \<le> uio_resid u" "x = 0 \<or> x < uio_resid u" "x < 2 ^ 32" using False r31 by (auto simp: x_def)
    have ex: "(if int (uoff u + uio_resid u) > int ?z then nat ((int (uoff u + uio_resid u) - int ?z) mod 2 ^ 32) else 0) = x"
    proof (cases "uoff u + uio_resid u > ?z")
      case True
      then have "int (uoff u + uio_resid u) - int ?z = int x" by (simp add: x_def of_nat_diff del: of_nat_unat)
      then show ?thesis using True xr(3) by (simp del: of_nat_unat of_nat_add)
    qed (simp add: x_def del: of_nat_unat of_nat_add)
    let ?u = "u\<lparr>uio_resid := uio_resid u - x\<rparr>"
    let ?bs = "file_read (uoff u) (uio_resid u) (contents st sv)"
    have pre': "io_pre ?u" using io_pre_resid [OF pre] by simp
    have uo: "uoff ?u = uoff u" by (simp add: uoff_def)
    from io_body_post [OF wf pre'] obtain e u1 st1 where
      b: "sfs_io_body v ?u st = Some (e, u1, st1)" "io_post v (uio_resid u - x) st sv ?u (e, u1, st1)" by auto
    have nw: "\<not> uio_rw ?u = UIO_WRITE" using rd by simp
    from b(2) obtain bs sv1 where p: "length bs \<le> uio_resid u - x" "u1 = uio_pass bs ?u" "vstep v st sv st1 sv1"
        "sfi_size (sv_i sv1) = sfi_size (sv_i sv)" "e \<in> {EOK, ENOSPC, EINVAL}" "e = EOK \<longrightarrow> length bs = uio_resid u - x"
        "e \<noteq> EOK \<and> uio_resid u - x \<noteq> 0 \<longrightarrow> length bs < uio_resid u - x"
        "e = EINVAL \<longrightarrow> 143 * 512 \<le> uoff u + length bs" "bs = map (fbyte (lh_sectors st) (sv_i sv)) [uoff u..<uoff u + length bs]"
        "e \<noteq> ENOSPC" "rd_same st st1" "\<forall>k. fbyte (lh_sectors st1) (sv_i sv1) k = fbyte (lh_sectors st) (sv_i sv) k"
      unfolding io_post_def split if_not_P [OF nw] uo by (elim exE conjE) (rule that)
    have z: "uoff u + length bs \<le> ?z" using p(1) False by (auto simp: x_def)
    have e: "e = EOK"
    proof (rule ccontr)
      assume "e \<noteq> EOK"
      then have "e = EINVAL" using p(5,10) by blast
      then have "uoff u + length bs = 143 * 512" "?z = 143 * 512" using p(8) z sz by auto
      moreover have "length bs < uio_resid u - x" using p(7) \<open>e \<noteq> EOK\<close> \<open>e = EINVAL\<close> p(1,8) z sz False by (auto simp: x_def)
      ultimately show False using False by (auto simp: x_def)
    qed
    have lb: "length bs = uio_resid u - x" using p(6) e by simp
    then have n: "uoff u + length bs = min (uoff u + uio_resid u) ?z" using False xr(1) by (auto simp: x_def)
    then have bs: "bs = ?bs" using p(9) by (simp add: file_read_def contents_def)
    have out: "sfs_io_out v u1 st1 = Some st1" using vstepD(2) [OF p(3)] p(2) rd by (simp add: sfs_io_out_def)
    have "uio_resid u < 2 ^ 32" using r31 by simp
    then have u1: "u1\<lparr>uio_resid := (uio_resid u1 + x) mod 2 ^ 32\<rparr> = uio_pass ?bs u"
      using p(2) bs lb xr(1) by (cases u) (simp add: uio_pass_def)
    have "sfs_io v u st = Some (EOK, uio_pass ?bs u, st1)"
      using wf(2) rd False b(1) out u1 s o en ex xr(2) e by (simp add: sfs_io_def del: of_nat_unat of_nat_add)
    moreover have "contents st1 sv1 = contents st sv" using p(4,12) by (simp add: contents_def fun_eq_iff)
    ultimately show ?thesis using p(3,11) by blast
  qed
qed

section \<open>Other files\<close>

text \<open>Two inodes without a block in common.\<close>

definition apart :: "'a sfs_fs_scheme \<Rightarrow> sfs_inode \<Rightarrow> sfs_inode \<Rightarrow> bool" where
  "apart st i j \<longleftrightarrow> list_all (\<lambda>p. p = 0 \<or> p \<notin> set (ptrs (lh_sectors st) j)) (ptrs (lh_sectors st) i)"

lemma grow_other:
  assumes g: "grow st i st' i'" and wf: "fs_wf st" and j: "inode_ok st j" and a: "apart st i j"
  shows "inode_ok st' j \<and> apart st' i' j \<and> (\<forall>k. fbyte (lh_sectors st') j k = fbyte (lh_sectors st) j k)"
proof -
  let ?ss = "lh_sectors st" let ?ss' = "lh_sectors st'"
  have same: "?ss' ! unat p = ?ss ! unat p" if "p \<in> set (ptrs ?ss j)" for p
  proof -
    have "used st p" using inode_okD(4) [OF wf j that] wf by (cases "p = 0") (simp_all add: fs_wf_def)
    moreover have "p = 0 \<or> p \<notin> set (ptrs ?ss i)" using a that by (auto simp: apart_def list_all_iff)
    ultimately show ?thesis using g by (simp add: grow_def)
  qed
  have "idx ?ss' j = idx ?ss j" using same [of "sfi_indirect j"] by (simp add: idx_def ptrs_def)
  then have ps: "ptrs ?ss' j = ptrs ?ss j" by (simp add: ptrs_def)
  have "inode_ok st' j" using j g ps by (auto simp: inode_ok_def grow_def list_all_iff)
  moreover have "apart st' i' j"
    unfolding apart_def ps list_all_iff
  proof (intro ballI)
    fix p assume "p \<in> set (ptrs ?ss' i')"
    then have "p = 0 \<or> p \<in> set (ptrs ?ss i) \<or> \<not> used st p" using g by (auto simp: grow_def)
    then show "p = 0 \<or> p \<notin> set (ptrs ?ss j)" using a inode_okD(4) [OF wf j] by (auto simp: apart_def list_all_iff)
  qed
  moreover have "fbyte ?ss' j k = fbyte ?ss j k" for k
    by (rule fbyte_cong, rule fblk_cong [OF wf j]) (simp_all add: fmap_def ps same)
  ultimately show ?thesis by blast
qed

section \<open>Properties\<close>

text \<open>C9. Writing refines the update of a byte sequence. On a well-formed file system \<^verbatim>\<open>sfs_io\<close> with a write
  request for a kernel buffer never panics. It stores a prefix of the buffer at the offset of the
  request and grows the file to the end of what it stored; nothing else in the file changes. The
  prefix is the whole buffer unless the request reaches the maximal file size (\<^verbatim>\<open>EINVAL\<close>) or every
  block of the disk is in use (\<^verbatim>\<open>ENOSPC\<close>). The file system and the inode stay well-formed, and an inode
  that has changed is marked dirty.\<close>

theorem sfs_write_refines:
  assumes "fs_wf st" and "sfs_v st v = Some sv" and "inode_ok st (sv_i sv)" and "io_pre u" and "uio_rw u = UIO_WRITE"
    and "unat (sfi_size (sv_i sv)) < 2 ^ 31"
  shows "\<exists>e bs st' sv'. sfs_io v u st = Some (e, uio_pass bs u, st') \<and> bs = take (length bs) (uio_kbase u) \<and>
    length bs \<le> uio_resid u \<and> sfs_v st' = (sfs_v st)(v \<mapsto> sv') \<and> contents st' sv' = file_write (uoff u) bs (contents st sv) \<and>
    (e = EOK \<and> length bs = uio_resid u \<or> e = EINVAL \<and> 143 * 512 \<le> uoff u + length bs \<or> e = ENOSPC \<and> full st') \<and>
    fs_wf st' \<and> inode_ok st' (sv_i sv') \<and> (sv_i sv' \<noteq> sv_i sv \<longrightarrow> sv_dirty sv')"
  using sfs_io_write_lemma [OF assms] unfolding vstep_def grow_def by (elim ex_forward) blast

text \<open>A small file system for examples: eight blocks, of which three are in use, and two empty files.\<close>

definition ex_inode :: "u32 \<Rightarrow> u16 \<Rightarrow> sfs_inode" where
  "ex_inode b ty = \<lparr>sfi_size = (if b = 0 then 0 else 512), sfi_type = ty, sfi_linkcount = 1, sfi_direct = b # replicate 14 0, sfi_indirect = 0,
     sfi_waste = replicate 110 0\<rparr>"

definition ex_vnode :: "u32 \<Rightarrow> u32 \<Rightarrow> u16 \<Rightarrow> sfs_vnode" where
  "ex_vnode ino b ty = \<lparr>sv_v = \<lparr>vn_ops = Some (if ty = SFS_TYPE_DIR then sfs_dirops else sfs_fileops), vn_refcount = 1, vn_opencount = 0\<rparr>,
     sv_i = ex_inode b ty, sv_ino = ino, sv_dirty = False\<rparr>"

definition ex_fs :: sfs_fs where
  "ex_fs = \<lparr>m_mem = \<lambda>_. 0, m_rd = \<lambda>_. False, m_wr = \<lambda>_. False, m_space = None,
     lh_sectors = replicate 8 (replicate 512 0), lh_buf = replicate 512 0, lh_stat = 0, lh_script = [], lh_clear = 1, lh_done = 0,
     lh_result = EOK, sfs_super = \<lparr>sp_magic = SFS_MAGIC, sp_nblocks = 8, sp_volname = replicate 32 0, sp_reserved = replicate 118 0\<rparr>,
     sfs_superdirty = False, sfs_freemap = \<lparr>b_nbits = 8, b_v = [0x1f]\<rparr>, sfs_freemapdirty = False,
     sfs_vnodes = \<lparr>a_num = 2, a_max = 2, a_v = Some [Some 0, Some 1]\<rparr>,
     sfs_v = [0 \<mapsto> ex_vnode 1 0 SFS_TYPE_DIR, 1 \<mapsto> ex_vnode 3 4 SFS_TYPE_FILE], sfs_vnext = 2\<rparr>"

lemma ex_fs_wf: "fs_wf ex_fs"
  by (simp add: fs_wf_def ex_fs_def calm_def lhd_ok_def used_def b_inv_def b_bits_def b_bit_def list_all_iff)

lemma ex_fs_files:
  "sfs_v ex_fs 0 = Some (ex_vnode 1 0 SFS_TYPE_DIR)" "sfs_v ex_fs 1 = Some (ex_vnode 3 4 SFS_TYPE_FILE)"
  by (simp_all add: ex_fs_def)

lemma ex_fs_inode: "b \<in> {0, 4} \<Longrightarrow> inode_ok ex_fs (ex_inode b ty)"
  by (auto simp: inode_ok_def inode_wf_def ex_inode_def ptrs_def idx_def nz_distinct_def used_def ex_fs_def b_bits_def b_bit_def
      list_all_iff bit_simps)

lemma ex_uio:
  "length bs < 1000 \<Longrightarrow> off < 100000 \<Longrightarrow> io_pre (mk_kuio bs (int off) rw)" "uoff (mk_kuio bs (int off) rw) = off"
  "uio_rw (mk_kuio bs at rw) = rw" "uio_resid (mk_kuio bs at rw) = length bs" "uio_kbase (mk_kuio bs at rw) = bs"
  by (simp_all add: io_pre_def uio_ok_def mk_kuio_def uoff_def)

lemma ex_size: "unat (sfi_size (sv_i (ex_vnode ino b ty))) \<le> 512"
  by (simp add: ex_vnode_def ex_inode_def)

theorem sfs_write_refines_witness:
  "\<exists>e bs st' sv'. sfs_io 1 (mk_kuio [7, 8, 9] (int 600) UIO_WRITE) ex_fs = Some (e, uio_pass bs (mk_kuio [7, 8, 9] (int 600) UIO_WRITE), st') \<and>
     contents st' sv' = file_write 600 bs (contents ex_fs (ex_vnode 3 4 SFS_TYPE_FILE)) \<and> fs_wf st'"
proof -
  have u: "io_pre (mk_kuio [7, 8, 9] (int 600) UIO_WRITE)" by (rule ex_uio) simp_all
  have i: "inode_ok ex_fs (sv_i (ex_vnode 3 4 SFS_TYPE_FILE))" by (simp add: ex_vnode_def ex_fs_inode)
  have z: "unat (sfi_size (sv_i (ex_vnode 3 4 SFS_TYPE_FILE))) < 2 ^ 31" using ex_size [of 3 4 SFS_TYPE_FILE] by simp
  from sfs_write_refines [OF ex_fs_wf ex_fs_files(2) i u ex_uio(3) z] show ?thesis unfolding ex_uio(2) by blast
qed

text \<open>C10. Reading refines the selection of a part of the byte sequence: a read request returns exactly the
  bytes of the file between its offset and the end of the request or of the file, and nothing behind the
  end of the file. It does not fail, and it changes nothing: the disk, the free map, all inodes and vnodes and every other part
  of the state stay as they are, except what the disk driver keeps of its last transfer.\<close>

theorem sfs_read_refines:
  assumes "fs_wf st" and "sfs_v st v = Some sv" and "inode_ok st (sv_i sv)" and "io_pre u" and "uio_rw u = UIO_READ"
    and "unat (sfi_size (sv_i sv)) \<le> 143 * 512"
  shows "\<exists>b s r. sfs_io v u st = Some (EOK, uio_pass (file_read (uoff u) (uio_resid u) (contents st sv)) u,
    st\<lparr>lh_buf := b, lh_stat := s, lh_result := r\<rparr>)"
  using sfs_io_read_lemma [OF assms] unfolding rd_same_def by blast

theorem sfs_read_refines_witness:
  "\<exists>st'. sfs_io 1 (mk_kuio [7, 8, 9] (int 510) UIO_READ) ex_fs = Some (EOK, uio_pass [0, 0] (mk_kuio [7, 8, 9] (int 510) UIO_READ), st')"
proof -
  let ?f = "ex_vnode 3 4 SFS_TYPE_FILE"
  have u: "io_pre (mk_kuio [7, 8, 9] (int 510) UIO_READ)" by (rule ex_uio) simp_all
  have i: "inode_ok ex_fs (sv_i ?f)" by (simp add: ex_vnode_def ex_fs_inode)
  have z: "unat (sfi_size (sv_i ?f)) \<le> 143 * 512" using ex_size [of 3 4 SFS_TYPE_FILE] by simp
  have f: "file_read 510 (length [7 :: u8, 8, 9]) (contents ex_fs ?f) = [0, 0]"
    by (simp add: file_read_def contents_def ex_vnode_def ex_inode_def fbyte_def fblk_def fmap_def pos_def ptrs_def ex_fs_def upt_rec)
  from sfs_read_refines [OF ex_fs_wf ex_fs_files(2) i u ex_uio(3) z] show ?thesis unfolding ex_uio(2,4) f by blast
qed

text \<open>C11. What was written is what is read: after a write that returned success, a read of the same length
  at the same offset returns the data that was written.\<close>

theorem sfs_write_read:
  assumes "fs_wf st" and "sfs_v st v = Some sv" and "inode_ok st (sv_i sv)" and "unat (sfi_size (sv_i sv)) \<le> 143 * 512"
    and "off + length bs \<le> 143 * 512" and "length buf = length bs"
    and "sfs_io v (mk_kuio bs (int off) UIO_WRITE) st = Some (EOK, u, st1)"
  shows "\<exists>u2 st2. sfs_io v (mk_kuio buf (int off) UIO_READ) st1 = Some (EOK, u2, st2) \<and> uio_kdone u2 = bs \<and> uio_resid u2 = 0"
proof -
  let ?w = "mk_kuio bs (int off) UIO_WRITE" let ?r = "mk_kuio buf (int off) UIO_READ"
  have w: "io_pre ?w" "uoff ?w = off" and r: "io_pre ?r" "uoff ?r = off"
    using assms(5,6) by (simp_all add: io_pre_def uio_ok_def mk_kuio_def uoff_def)
  have z: "unat (sfi_size (sv_i sv)) < 2 ^ 31" using assms(4) by simp
  from sfs_io_write_lemma [OF assms(1-3) w(1) _ z] assms(7) obtain cs sv1 where
    c: "cs = take (length cs) bs" "length cs = length bs" "vstep v st sv st1 sv1"
      "contents st1 sv1 = file_write off cs (contents st sv)"
    unfolding w(2) by (auto simp: mk_kuio_def)
  have cs: "cs = bs" using c(1,2) by simp
  note D = vstepD [OF c(3)]
  have "unat (sfi_size (sv_i sv1)) \<le> 143 * 512"
    using arg_cong [OF c(4), of fst] assms(4,5) cs by (simp add: contents_def file_write_def)
  from sfs_io_read_lemma [OF D(1-3) r(1) _ this] obtain st2 where
    "sfs_io v ?r st1 = Some (EOK, uio_pass (file_read off (length buf) (contents st1 sv1)) ?r, st2)"
    unfolding r(2) by (auto simp: mk_kuio_def)
  moreover have "file_read off (length buf) (contents st1 sv1) = bs"
    unfolding c(4) cs assms(6) by (rule file_read_write)
  ultimately show ?thesis using assms(6) by (auto simp: mk_kuio_def)
qed

lemma ex_write:
  defines "u \<equiv> mk_kuio [7, 8, 9] (int 100) UIO_WRITE"
  shows "\<exists>u1 st1. sfs_io 1 u ex_fs = Some (EOK, u1, st1)"
proof -
  have pre: "io_pre u" unfolding u_def by (rule ex_uio) simp_all
  have u: "uio_offset u = 100" "uio_resid u = 3" "uio_rw u = UIO_WRITE" "uio_kbase u = [7, 8, 9]" by (simp_all add: u_def mk_kuio_def)
  have us: "used ex_fs 4" by (simp add: used_def ex_fs_def b_bits_def b_bit_def bit_simps)
  then have "bmap_return 4 ex_fs = Some (EOK, 4, ex_fs)" using ex_fs_wf by (intro bmap_return_ok)
  then have bm: "sfs_bmap 1 0 True ex_fs = Some (EOK, 4, ex_fs)"
    using ex_fs_files(2) by (simp add: sfs_bmap_def bmap_direct_def SFS_NDIRECT_def ex_vnode_def ex_inode_def)
  have cal: "calm ex_fs" and len: "unat (4 :: u32) < length (lh_sectors ex_fs)" using ex_fs_wf used_block [OF ex_fs_wf us] by (simp_all add: fs_wf_def)
  have blk: "lh_sectors ex_fs ! unat (4 :: u32) = replicate 512 0" by (simp add: ex_fs_def)
  have rb: "sfs_rblock (replicate 512 0) 4 ex_fs = Some (EOK, replicate 512 0, dsk_rd 4 ex_fs)"
    using rblock_calm [OF cal len, of "replicate 512 0"] blk by simp
  have mv: "uiomove (replicate 412 0) 3 u (dsk_rd 4 ex_fs) = Some (EOK, [7, 8, 9] @ replicate 409 0, uio_pass [7, 8, 9] u, dsk_rd 4 ex_fs)"
    using uiomove_write [of 3 u "replicate 412 0" "dsk_rd 4 ex_fs"] u pre by (simp add: io_pre_def)
  let ?d = "replicate 100 0 @ [7, 8, 9] @ replicate 409 0 :: u8 list"
  have wb: "sfs_wblock ?d 4 (dsk_rd 4 ex_fs) = Some (EOK, dsk_wr 4 ?d (dsk_rd 4 ex_fs))"
    using wblock_calm [of "dsk_rd 4 ex_fs" 4 ?d] cal len by simp
  have "sfs_partialio 1 u 100 3 ex_fs = Some (EOK, uio_pass [7, 8, 9] u, dsk_wr 4 ?d (dsk_rd 4 ex_fs))"
    using u bm rb mv wb by (simp add: sfs_partialio_def SFS_BLOCKSIZE_def cdiv_pos)
  then have "sfs_io_body 1 u ex_fs = Some (EOK, uio_pass [7, 8, 9] u, dsk_wr 4 ?d (dsk_rd 4 ex_fs))"
    using u by (simp add: sfs_io_body_def sfs_io_leading_def SFS_BLOCKSIZE_def cmod_pos)
  moreover have uu: "u\<lparr>uio_resid := 3\<rparr> = u" using u(2) by (cases u) simp
  ultimately show ?thesis
    using u ex_fs_files(2) by (simp add: sfs_io_def sfs_io_out_def ex_vnode_def ex_inode_def uu)
qed

theorem sfs_write_read_witness:
  "\<exists>u1 st1 u2 st2. sfs_io 1 (mk_kuio [7, 8, 9] (int 100) UIO_WRITE) ex_fs = Some (EOK, u1, st1) \<and>
     sfs_io 1 (mk_kuio [0, 0, 0] (int 100) UIO_READ) st1 = Some (EOK, u2, st2) \<and> uio_kdone u2 = [7, 8, 9]"
proof -
  let ?f = "ex_vnode 3 4 SFS_TYPE_FILE"
  have i: "inode_ok ex_fs (sv_i ?f)" by (simp add: ex_vnode_def ex_fs_inode)
  have z: "unat (sfi_size (sv_i ?f)) \<le> 143 * 512" using ex_size [of 3 4 SFS_TYPE_FILE] by simp
  obtain u1 st1 where w: "sfs_io 1 (mk_kuio [7, 8, 9] (int 100) UIO_WRITE) ex_fs = Some (EOK, u1, st1)" using ex_write by blast
  have "\<exists>u2 st2. sfs_io 1 (mk_kuio [0, 0, 0] (int 100) UIO_READ) st1 = Some (EOK, u2, st2) \<and> uio_kdone u2 = [7, 8, 9] \<and> uio_resid u2 = 0"
    by (rule sfs_write_read [OF ex_fs_wf ex_fs_files(2) i z _ _ w]) simp_all
  with w show ?thesis by blast
qed

text \<open>C12. Files do not disturb each other: whatever becomes of a write to one file, every other file that
  shares no block with it keeps its inode valid and its contents, and still shares no block with it.\<close>

theorem sfs_write_isolated:
  assumes "fs_wf st" and "sfs_v st v = Some sv" and "inode_ok st (sv_i sv)" and "io_pre u" and "uio_rw u = UIO_WRITE"
    and "unat (sfi_size (sv_i sv)) < 2 ^ 31" and "sfs_v st w = Some sw" and "w \<noteq> v" and "inode_ok st (sv_i sw)"
    and "apart st (sv_i sv) (sv_i sw)"
  shows "\<exists>e u' st' sv'. sfs_io v u st = Some (e, u', st') \<and> sfs_v st' v = Some sv' \<and> sfs_v st' w = Some sw \<and>
    contents st' sw = contents st sw \<and> inode_ok st' (sv_i sw) \<and> apart st' (sv_i sv') (sv_i sw)"
proof -
  from sfs_io_write_lemma [OF assms(1-6)] obtain e bs st' sv' where
    r: "sfs_io v u st = Some (e, uio_pass bs u, st')" "vstep v st sv st' sv'" by blast
  have g: "grow st (sv_i sv) st' (sv_i sv')" using r(2) by (simp add: vstep_def)
  have "sfs_v st' v = Some sv'" "sfs_v st' w = Some sw" using vstepD(5) [OF r(2)] assms(7,8) by simp_all
  then show ?thesis using r(1) grow_other [OF g assms(1,9,10)] by (auto simp: contents_def fun_eq_iff)
qed

theorem sfs_write_isolated_witness:
  "\<exists>e u' st'. sfs_io 0 (mk_kuio [7, 8, 9] (int 600) UIO_WRITE) ex_fs = Some (e, u', st') \<and>
     contents st' (ex_vnode 3 4 SFS_TYPE_FILE) = contents ex_fs (ex_vnode 3 4 SFS_TYPE_FILE)"
proof -
  let ?f = "ex_vnode 3 4 SFS_TYPE_FILE" let ?d = "ex_vnode 1 0 SFS_TYPE_DIR"
  have u: "io_pre (mk_kuio [7, 8, 9] (int 600) UIO_WRITE)" by (rule ex_uio) simp_all
  have i: "inode_ok ex_fs (sv_i ?f)" "inode_ok ex_fs (sv_i ?d)" by (simp_all add: ex_vnode_def ex_fs_inode)
  have z: "unat (sfi_size (sv_i ?d)) < 2 ^ 31" using ex_size [of 1 0 SFS_TYPE_DIR] by simp
  have "apart ex_fs (sv_i ?d) (sv_i ?f)"
    by (auto simp: apart_def ex_vnode_def ex_inode_def ptrs_def idx_def ex_fs_def list_all_iff)
  from sfs_write_isolated [OF ex_fs_wf ex_fs_files(1) i(2) u ex_uio(3) z ex_fs_files(2) _ i(1) this] show ?thesis by auto
qed

end
