(* ===== verification/Sfs_Dir.thy ===== *)
theory Sfs_Dir
  imports Sfs_File
begin

text \<open>
  Directories of SFS, from \<^verbatim>\<open>src/src/kern/fs/sfs/sfs_vnode.c\<close>: a directory is a file whose contents are
  slots of 64 bytes, each free or holding a name and an inode number.

  Names are C strings without their terminator. Where the code passes pointers for several optional
  results, the model returns all of them.
\<close>

section \<open>The code\<close>

definition sfs_readdir :: "nat \<Rightarrow> int \<Rightarrow> 'a sfs_fs_scheme \<Rightarrow> (errno \<times> sfs_dir \<times> 'a sfs_fs_scheme) kern" where
  "sfs_readdir v slot st =
     do {
       let actualpos = s32 (slot * 64);
       (result, ku, st1) \<leftarrow> sfs_io v (mk_kuio (replicate 64 0) actualpos UIO_READ) st;
       if result \<noteq> EOK then Some (result, dec_dir (uio_kdone ku @ uio_kbase ku), st1)
       else do {
         kassert (\<not> uio_resid ku > 0);
         Some (EOK, dec_dir (uio_kdone ku @ uio_kbase ku), st1)
       }
     }"

definition sfs_writedir :: "nat \<Rightarrow> sfs_dir \<Rightarrow> int \<Rightarrow> 'a sfs_fs_scheme \<Rightarrow> (errno \<times> 'a sfs_fs_scheme) kern" where
  "sfs_writedir v sd slot st =
     do {
       kassert (slot \<ge> 0);
       let actualpos = s32 (slot * 64);
       (result, ku, st1) \<leftarrow> sfs_io v (mk_kuio (enc_dir sd) actualpos UIO_WRITE) st;
       if result \<noteq> EOK then Some (result, st1)
       else do { kassert (\<not> uio_resid ku > 0); Some (EOK, st1) }
     }"

definition sfs_dir_nentries :: "nat \<Rightarrow> 'a sfs_fs_scheme \<Rightarrow> int kern" where
  "sfs_dir_nentries v st =
     do {
       sv \<leftarrow> sfs_v st v;
       kassert (sfi_type (sv_i sv) = SFS_TYPE_DIR);
       let sz = uint (sfi_size (sv_i sv));
       kassert (sz mod 64 = 0);
       Some (sz div 64)
     }"

text \<open>The loop of \<^verbatim>\<open>sfs_dir_findname\<close>: the slot and inode of the name and the last empty slot.\<close>

fun findname_loop :: "nat \<Rightarrow> u8 list \<Rightarrow> nat \<Rightarrow> int \<Rightarrow> (int \<times> u32) option \<Rightarrow> int option \<Rightarrow> 'a sfs_fs_scheme \<Rightarrow>
    (errno \<times> (int \<times> u32) option \<times> int option \<times> 'a sfs_fs_scheme) kern" where
  "findname_loop v name 0 i found emptyslot st = Some (if found \<noteq> None then EOK else ENOENT, found, emptyslot, st)"
| "findname_loop v name (Suc n) i found emptyslot st =
     do {
       (result, tsd, st1) \<leftarrow> sfs_readdir v i st;
       if result \<noteq> EOK then Some (result, found, emptyslot, st1)
       else if sfd_ino tsd = SFS_NOINO then findname_loop v name n (i + 1) found (Some i) st1
       else if cstr ((sfd_name tsd)[SFS_NAMELEN - 1 := 0]) = name then
         do { kassert (found = None); findname_loop v name n (i + 1) (Some (i, sfd_ino tsd)) emptyslot st1 }
       else findname_loop v name n (i + 1) found emptyslot st1
     }"

definition sfs_dir_findname ::
  "nat \<Rightarrow> u8 list \<Rightarrow> 'a sfs_fs_scheme \<Rightarrow> (errno \<times> (int \<times> u32) option \<times> int option \<times> 'a sfs_fs_scheme) kern" where
  "sfs_dir_findname v name st =
     do {
       nentries \<leftarrow> sfs_dir_nentries v st;
       findname_loop v name (nat nentries) 0 None None st
     }"

definition dir_entry :: "u32 \<Rightarrow> u8 list \<Rightarrow> sfs_dir" where
  "dir_entry ino name = \<lparr>sfd_ino = ino, sfd_name = name @ replicate (SFS_NAMELEN - length name) 0\<rparr>"

definition sfs_dir_link :: "nat \<Rightarrow> u8 list \<Rightarrow> u32 \<Rightarrow> 'a sfs_fs_scheme \<Rightarrow> (errno \<times> int \<times> 'a sfs_fs_scheme) kern" where
  "sfs_dir_link v name ino st =
     do {
       (result, found, emptyslot, st1) \<leftarrow> sfs_dir_findname v name st;
       if result \<noteq> EOK \<and> result \<noteq> ENOENT then Some (result, -1, st1)
       else if result = EOK then Some (EEXIST, -1, st1)
       else if length name + 1 > SFS_NAMELEN then Some (ENAMETOOLONG, -1, st1)
       else do {
         slot \<leftarrow> (case emptyslot of Some i \<Rightarrow> Some i | None \<Rightarrow> sfs_dir_nentries v st1);
         (result, st2) \<leftarrow> sfs_writedir v (dir_entry ino name) slot st1;
         Some (result, slot, st2)
       }
     }"

definition sfs_dir_unlink :: "nat \<Rightarrow> int \<Rightarrow> 'a sfs_fs_scheme \<Rightarrow> (errno \<times> 'a sfs_fs_scheme) kern" where
  "sfs_dir_unlink v slot st = sfs_writedir v (dir_entry SFS_NOINO []) slot st"

section \<open>The entries of a directory\<close>

definition dirents :: "filedata \<Rightarrow> sfs_dir list" where
  "dirents c = map (\<lambda>s. dec_dir (map (snd c) [64 * s..<64 * s + 64])) [0..<fst c div 64]"

definition dir_ok :: "'a sfs_fs_scheme \<Rightarrow> nat \<Rightarrow> sfs_vnode \<Rightarrow> bool" where
  "dir_ok st v sv \<longleftrightarrow> fs_wf st \<and> sfs_v st v = Some sv \<and> inode_ok st (sv_i sv) \<and> sfi_type (sv_i sv) = SFS_TYPE_DIR \<and>
     unat (sfi_size (sv_i sv)) mod 64 = 0 \<and> unat (sfi_size (sv_i sv)) \<le> 143 * 512"

lemma dir_ok_step:
  assumes "dir_ok st v sv" and "vstep v st sv st' sv'" and "unat (sfi_size (sv_i sv')) mod 64 = 0"
    and "unat (sfi_size (sv_i sv')) \<le> 143 * 512"
  shows "dir_ok st' v sv'"
  using assms by (auto simp: dir_ok_def vstep_def grow_def)

lemma length_dirents [simp]: "length (dirents c) = fst c div 64"
  by (simp add: dirents_def)

lemma fst_contents: "fst (contents st sv) = unat (sfi_size (sv_i sv))"
  by (simp add: contents_def)

lemma dir_uio:
  assumes "s \<le> 1144" and "length bs = 64"
  shows "s32 (int s * 64) = int (64 * s)" "io_pre (mk_kuio bs (int (64 * s)) rw)"
proof -
  show "s32 (int s * 64) = int (64 * s)" using assms(1) by (subst s32_id) simp_all
  show "io_pre (mk_kuio bs (int (64 * s)) rw)" using assms by (simp add: io_pre_def uio_ok_def mk_kuio_def)
qed

lemma readdir_ok:
  assumes d: "dir_ok st v sv" and s: "s < length (dirents (contents st sv))"
  shows "\<exists>st' sv'. sfs_readdir v (int s) st = Some (EOK, dirents (contents st sv) ! s, st') \<and> vstep v st sv st' sv' \<and>
    contents st' sv' = contents st sv \<and> dir_ok st' v sv' \<and> rd_same st st'"
proof -
  let ?c = "contents st sv" let ?z = "unat (sfi_size (sv_i sv))"
  have z: "64 * s + 64 \<le> ?z" "s \<le> 1144" using d s by (auto simp: dir_ok_def fst_contents)
  let ?u = "mk_kuio (replicate 64 0) (int (64 * s)) UIO_READ"
  note u = dir_uio [OF z(2), of "replicate 64 0"]
  have pre: "io_pre ?u" using u(2) by simp
  have D: "fs_wf st" "sfs_v st v = Some sv" "inode_ok st (sv_i sv)" "?z \<le> 143 * 512" using d by (simp_all add: dir_ok_def)
  from sfs_io_read_lemma [OF D(1-3) pre ex_uio(3) D(4)] obtain st' sv' where
    r: "sfs_io v ?u st = Some (EOK, uio_pass (file_read (uoff ?u) (uio_resid ?u) ?c) ?u, st')" "vstep v st sv st' sv'"
      "contents st' sv' = contents st sv" "rd_same st st'" by blast
  have f: "file_read (uoff ?u) (uio_resid ?u) ?c = map (snd ?c) [64 * s..<64 * s + 64]"
    unfolding ex_uio(2,4) using z(1) by (simp add: file_read_def fst_contents min_def)
  have "sfs_readdir v (int s) st = Some (EOK, dirents ?c ! s, st')"
    using r(1) [unfolded f] u(1) s by (simp add: sfs_readdir_def dirents_def mk_kuio_def)
  moreover have "dir_ok st' v sv'"
    using d r(3) by (intro dir_ok_step [OF d r(2)]) (auto simp: dir_ok_def contents_def)
  ultimately show ?thesis using r(2-4) by blast
qed

lemma file_write_Nil: "off \<le> fst c \<Longrightarrow> file_write off [] c = c"
  by (cases c) (auto simp: file_write_def fun_eq_iff max_def)

lemma dirents_write:
  assumes "fst c mod 64 = 0" and "s \<le> fst c div 64" and "dir_wf sd"
  shows "dirents (file_write (64 * s) (enc_dir sd) c) = (if s < fst c div 64 then (dirents c)[s := sd] else dirents c @ [sd])"
proof (rule nth_equalityI)
  let ?c = "file_write (64 * s) (enc_dir sd) c"
  have le: "length (enc_dir sd) = 64" using assms(3) by simp
  have n: "fst ?c div 64 = (if s < fst c div 64 then fst c div 64 else Suc (fst c div 64))"
  proof (cases "s < fst c div 64")
    case True
    then have "64 * s + 64 \<le> fst c" by auto
    then show ?thesis using True le by (simp add: file_write_def max_def)
  next
    case False
    then have "64 * s = fst c" using assms(1,2) by auto
    then show ?thesis using False le by (simp add: file_write_def)
  qed
  then show "length (dirents ?c) = length (if s < fst c div 64 then (dirents c)[s := sd] else dirents c @ [sd])"
    by simp
  fix k assume k: "k < length (dirents ?c)"
  have blk: "map (snd ?c) [64 * k..<64 * k + 64] = (if k = s then enc_dir sd else map (snd c) [64 * k..<64 * k + 64])"
    by (rule nth_equalityI) (use le in \<open>auto simp: file_write_def\<close>)
  show "dirents ?c ! k = (if s < fst c div 64 then (dirents c)[s := sd] else dirents c @ [sd]) ! k"
    using k n assms(2) blk by (auto simp: dirents_def nth_list_update nth_append)
qed

lemma writedir_ok:
  assumes d: "dir_ok st v sv" and s: "s \<le> length (dirents (contents st sv))" and wf: "dir_wf sd"
  shows "\<exists>e st' sv'. sfs_writedir v sd (int s) st = Some (e, st') \<and> vstep v st sv st' sv' \<and> dir_ok st' v sv' \<and>
    (e = EOK \<and> dirents (contents st' sv') = (let ds = dirents (contents st sv) in if s < length ds then ds[s := sd] else ds @ [sd]) \<or>
     (e = EINVAL \<and> 1144 \<le> s \<or> e = ENOSPC \<and> full st' \<and> fmap (lh_sectors st) (sv_i sv) (s div 8) = 0) \<and> contents st' sv' = contents st sv)"
proof -
  let ?c = "contents st sv" let ?z = "unat (sfi_size (sv_i sv))"
  have z: "64 * s \<le> ?z" "s \<le> 1144" "?z < 2 ^ 31" using d s by (auto simp: dir_ok_def fst_contents)
  let ?u = "mk_kuio (enc_dir sd) (int (64 * s)) UIO_WRITE"
  have le: "length (enc_dir sd) = 64" using wf by simp
  note u = dir_uio [OF z(2) le]
  have "64 * s mod 512 = 64 * (s mod 8)" using mult_mod_right [of 64 s 8] by simp
  moreover have "s mod 8 < 8" by simp
  ultimately have "64 * s mod 512 + 64 \<le> 512" by linarith
  then have w: "0 < uio_resid ?u \<and> uoff ?u mod 512 + uio_resid ?u \<le> 512 \<and> uio_resid ?u < 512" "uoff ?u = 64 * s"
    unfolding ex_uio(2,4) using le by simp_all
  have D: "fs_wf st" "sfs_v st v = Some sv" "inode_ok st (sv_i sv)" using d by (simp_all add: dir_ok_def)
  from sfs_io_write_lemma [OF D u(2) ex_uio(3) z(3)] w(1) obtain e bs st' sv' where
    r: "sfs_io v ?u st = Some (e, uio_pass bs ?u, st')" "bs = take (length bs) (uio_kbase ?u)" "vstep v st sv st' sv'"
      "contents st' sv' = file_write (64 * s) bs ?c"
      "e = EOK \<and> length bs = uio_resid ?u \<and> (bs \<noteq> [] \<longrightarrow> 64 * s + length bs \<le> 143 * 512) \<or>
        e = EINVAL \<and> 143 * 512 \<le> 64 * s + length bs \<or> e = ENOSPC \<and> full st'"
      "e \<noteq> EOK \<Longrightarrow> bs = [] \<and> (e = ENOSPC \<longrightarrow> fmap (lh_sectors st) (sv_i sv) (64 * s div 512) = 0)"
    unfolding w(2) by blast
  have b8: "64 * s div 512 = s div 8" using div_mult2_eq [of "64 * s" 64 8] by simp
  show ?thesis
  proof (cases "e = EOK")
    case True
    then have bs: "bs = enc_dir sd" using r(2,5) le by (auto simp: mk_kuio_def)
    have m: "?z mod 64 = 0" using d by (simp add: dir_ok_def)
    have sz: "unat (sfi_size (sv_i sv')) = max ?z (64 * s + 64)"
      using arg_cong [OF r(4), of fst] le by (simp add: contents_def file_write_def bs)
    have "dir_ok st' v sv'"
      by (rule dir_ok_step [OF d r(3)]) (use sz m d r(5) True le bs in \<open>auto simp: max_def dir_ok_def mod_add_eq\<close>)
    moreover have "sfs_writedir v sd (int s) st = Some (EOK, st')"
      using r(1) True u(1) bs le by (simp add: sfs_writedir_def mk_kuio_def)
    moreover have "dirents (contents st' sv') = (let ds = dirents ?c in if s < length ds then ds[s := sd] else ds @ [sd])"
      using dirents_write [of ?c s sd] m s wf by (simp add: r(4) bs fst_contents)
    ultimately show ?thesis using r(3) by blast
  next
    case False
    then have same: "contents st' sv' = ?c" using r(4) r(6) z(1) by (simp add: file_write_Nil fst_contents)
    then have "dir_ok st' v sv'" using d by (intro dir_ok_step [OF d r(3)]) (auto simp: dir_ok_def contents_def)
    moreover have "sfs_writedir v sd (int s) st = Some (e, st')" using r(1) False u(1) by (simp add: sfs_writedir_def)
    moreover have "e = EINVAL \<and> 1144 \<le> s \<or> e = ENOSPC \<and> full st' \<and> fmap (lh_sectors st) (sv_i sv) (s div 8) = 0"
      using r(5,6) False b8 by auto
    ultimately show ?thesis using r(3) same by blast
  qed
qed

section \<open>A directory as a map\<close>

text \<open>The contract of a directory: a finite map from names to inode numbers. \<open>dname\<close> is the name in an entry
  as \<^verbatim>\<open>sfs_dir_findname\<close> sees it; in a proper directory no two entries in use have the same name.\<close>

definition dname :: "sfs_dir \<Rightarrow> u8 list" where
  "dname d = cstr ((sfd_name d)[59 := 0])"

definition live :: "sfs_dir \<Rightarrow> bool" where
  "live d \<longleftrightarrow> sfd_ino d \<noteq> 0"

definition dmap :: "sfs_dir list \<Rightarrow> u8 list \<Rightarrow> u32 option" where
  "dmap ds = map_of (map (\<lambda>d. (dname d, sfd_ino d)) (filter live ds))"

definition dir_inv :: "sfs_dir list \<Rightarrow> bool" where
  "dir_inv ds \<longleftrightarrow> distinct (map dname (filter live ds))"

lemma dir_inv_unique:
  "dir_inv ds \<Longrightarrow> s < length ds \<Longrightarrow> t < length ds \<Longrightarrow> live (ds ! s) \<Longrightarrow> live (ds ! t) \<Longrightarrow> dname (ds ! s) = dname (ds ! t) \<Longrightarrow> s = t"
proof (induction ds arbitrary: s t)
  case (Cons d ds)
  have inv: "dir_inv ds" using Cons.prems(1) by (auto simp: dir_inv_def split: if_splits)
  have new: "live d \<Longrightarrow> k < length ds \<Longrightarrow> live (ds ! k) \<Longrightarrow> dname (ds ! k) \<noteq> dname d" for k
    using Cons.prems(1) by (auto simp: dir_inv_def image_iff in_set_conv_nth)
  show ?case
    using Cons.prems new Cons.IH [OF inv, of "s - 1" "t - 1"] by (cases s; cases t) (auto dest: sym)
qed simp

definition found_at :: "sfs_dir list \<Rightarrow> u8 list \<Rightarrow> nat \<Rightarrow> (int \<times> u32) option \<Rightarrow> bool" where
  "found_at ds name i f \<longleftrightarrow> (case f of
     None \<Rightarrow> (\<forall>s<i. \<not> (live (ds ! s) \<and> dname (ds ! s) = name))
   | Some (k, ino) \<Rightarrow> (\<exists>s<i. k = int s \<and> live (ds ! s) \<and> dname (ds ! s) = name \<and> ino = sfd_ino (ds ! s)))"

definition empty_at :: "sfs_dir list \<Rightarrow> nat \<Rightarrow> int option \<Rightarrow> bool" where
  "empty_at ds i e \<longleftrightarrow> (case e of None \<Rightarrow> (\<forall>s<i. live (ds ! s)) | Some k \<Rightarrow> (\<exists>s<i. k = int s \<and> \<not> live (ds ! s)))"

lemma found_at_Suc:
  "found_at ds name i f \<Longrightarrow> \<not> (live (ds ! i) \<and> dname (ds ! i) = name) \<Longrightarrow> found_at ds name (Suc i) f"
  by (auto simp: found_at_def less_Suc_eq split: option.splits)

lemma empty_at_Suc: "empty_at ds i e \<Longrightarrow> live (ds ! i) \<Longrightarrow> empty_at ds (Suc i) e"
  by (auto simp: empty_at_def less_Suc_eq split: option.splits)

lemma found_at_dmap:
  assumes "dir_inv ds" and "found_at ds name (length ds) f"
  shows "map_option snd f = dmap ds name"
proof (cases f)
  case None
  then have "\<forall>d\<in>set ds. \<not> (live d \<and> dname d = name)" using assms(2) by (auto simp: found_at_def in_set_conv_nth)
  then have "name \<notin> fst ` set (map (\<lambda>d. (dname d, sfd_ino d)) (filter live ds))" by auto
  then have "dmap ds name = None" unfolding dmap_def map_of_eq_None_iff .
  then show ?thesis using None by simp
next
  case (Some p)
  then obtain s where s: "s < length ds" "live (ds ! s)" "dname (ds ! s) = name" "snd p = sfd_ino (ds ! s)"
    using assms(2) by (cases p) (auto simp: found_at_def)
  have "distinct (map fst (map (\<lambda>d. (dname d, sfd_ino d)) (filter live ds)))" using assms(1) by (simp add: dir_inv_def comp_def)
  moreover have "(name, snd p) \<in> set (map (\<lambda>d. (dname d, sfd_ino d)) (filter live ds))" using s by (auto intro!: image_eqI [of _ _ "ds ! s"])
  ultimately show ?thesis using Some by (simp add: dmap_def)
qed

lemma findname_loop_ok:
  "dir_ok st v sv \<Longrightarrow> dirents (contents st sv) = ds \<Longrightarrow> dir_inv ds \<Longrightarrow> i + n = length ds \<Longrightarrow> found_at ds name i f \<Longrightarrow> empty_at ds i e \<Longrightarrow>
   \<exists>f' e' st' sv'. findname_loop v name n (int i) f e st = Some (if f' \<noteq> None then EOK else ENOENT, f', e', st') \<and>
     vstep v st sv st' sv' \<and> contents st' sv' = contents st sv \<and> dir_ok st' v sv' \<and> found_at ds name (length ds) f' \<and> empty_at ds (length ds) e' \<and> rd_same st st'"
proof (induction n arbitrary: st sv i f e)
  case 0
  then show ?case using vstep_refl [of st v sv] by (auto simp: dir_ok_def)
next
  case (Suc n)
  have i: "i < length ds" using Suc.prems(4) by simp
  from readdir_ok [OF Suc.prems(1), of i] i Suc.prems(2) obtain st1 sv1 where
    r: "sfs_readdir v (int i) st = Some (EOK, ds ! i, st1)" "vstep v st sv st1 sv1" "contents st1 sv1 = contents st sv" "dir_ok st1 v sv1" "rd_same st st1"
    by auto
  have go: "\<exists>f' e' st' sv'. findname_loop v name n (int (Suc i)) f2 e2 st1 = Some (if f' \<noteq> None then EOK else ENOENT, f', e', st') \<and>
      vstep v st sv st' sv' \<and> contents st' sv' = contents st sv \<and> dir_ok st' v sv' \<and> found_at ds name (length ds) f' \<and> empty_at ds (length ds) e' \<and> rd_same st st'"
    if "found_at ds name (Suc i) f2" "empty_at ds (Suc i) e2" for f2 e2
    using Suc.IH [OF r(4), of "Suc i" f2 e2] Suc.prems(2,3,4) r(3) that vstep_trans [OF r(2)] rd_same_trans [OF r(5)] by fastforce
  show ?case
  proof (cases "live (ds ! i)")
    case False
    then have "found_at ds name (Suc i) f" "empty_at ds (Suc i) (Some (int i))"
      using found_at_Suc [OF Suc.prems(5)] by (auto simp: empty_at_def)
    from go [OF this] show ?thesis using r(1) False by (simp add: live_def SFS_NOINO_def add.commute)
  next
    case True
    have e: "empty_at ds (Suc i) e" by (rule empty_at_Suc [OF Suc.prems(6) True])
    show ?thesis
    proof (cases "dname (ds ! i) = name")
      case False
      from go [OF found_at_Suc [OF Suc.prems(5)] e] False show ?thesis
        using r(1) True by (simp add: live_def SFS_NOINO_def SFS_NAMELEN_def dname_def add.commute)
    next
      case m: True
      have "f = None"
      proof (cases f)
        case (Some p)
        then obtain s where "s < i" "live (ds ! s)" "dname (ds ! s) = name"
          using Suc.prems(5) by (cases p) (auto simp: found_at_def)
        then show ?thesis using dir_inv_unique [OF Suc.prems(3), of s i] i True m by simp
      qed
      moreover have "found_at ds name (Suc i) (Some (int i, sfd_ino (ds ! i)))" using True m by (auto simp: found_at_def)
      from go [OF this e] have "\<exists>f' e' st' sv'. findname_loop v name n (int (Suc i)) (Some (int i, sfd_ino (ds ! i))) e st1 =
          Some (if f' \<noteq> None then EOK else ENOENT, f', e', st') \<and> vstep v st sv st' sv' \<and> contents st' sv' = contents st sv \<and>
          dir_ok st' v sv' \<and> found_at ds name (length ds) f' \<and> empty_at ds (length ds) e' \<and> rd_same st st'" .
      ultimately show ?thesis
        using r(1) True m by (simp add: live_def SFS_NOINO_def SFS_NAMELEN_def dname_def add.commute)
    qed
  qed
qed

lemma nentries_ok: "dir_ok st v sv \<Longrightarrow> sfs_dir_nentries v st = Some (int (length (dirents (contents st sv))))"
proof -
  assume d: "dir_ok st v sv"
  obtain z where z: "z = unat (sfi_size (sv_i sv))" by simp
  then have u: "uint (sfi_size (sv_i sv)) = int z" by simp
  have "int z mod int 64 = int (z mod 64)" "int z div int 64 = int (z div 64)" by (rule zmod_int [symmetric], rule zdiv_int [symmetric])
  then have "uint (sfi_size (sv_i sv)) mod 64 = 0" "uint (sfi_size (sv_i sv)) div 64 = int (unat (sfi_size (sv_i sv)) div 64)"
    using d z unfolding u by (simp_all add: dir_ok_def)
  then show ?thesis using d by (simp add: sfs_dir_nentries_def dir_ok_def fst_contents)
qed

lemma findname_ok:
  assumes d: "dir_ok st v sv" and inv: "dir_inv (dirents (contents st sv))"
  obtains f e st' sv' where "sfs_dir_findname v name st = Some (if f \<noteq> None then EOK else ENOENT, f, e, st')"
    "vstep v st sv st' sv'" "contents st' sv' = contents st sv" "dir_ok st' v sv'"
    "found_at (dirents (contents st sv)) name (length (dirents (contents st sv))) f"
    "empty_at (dirents (contents st sv)) (length (dirents (contents st sv))) e" "rd_same st st'"
proof -
  let ?ds = "dirents (contents st sv)"
  have "found_at ?ds name 0 None" "empty_at ?ds 0 None" by (simp_all add: found_at_def empty_at_def)
  from findname_loop_ok [OF d refl inv _ this, of "length ?ds"] show thesis
    using that nentries_ok [OF d] by (auto simp: sfs_dir_findname_def)
qed

text \<open>An entry stored in slot \<open>s\<close> of a directory.\<close>

definition put_entry :: "nat \<Rightarrow> sfs_dir \<Rightarrow> sfs_dir list \<Rightarrow> sfs_dir list" where
  "put_entry s d ds = (if s < length ds then ds[s := d] else ds @ [d])"

lemma put_entry_split: "s \<le> length ds \<Longrightarrow> put_entry s d ds = take s ds @ d # drop (Suc s) ds"
  by (auto simp: put_entry_def upd_conv_take_nth_drop)

lemma live_split: "s \<le> length ds \<Longrightarrow> (s < length ds \<Longrightarrow> \<not> live (ds ! s)) \<Longrightarrow> filter live ds = filter live (take s ds) @ filter live (drop (Suc s) ds)"
proof (cases "s < length ds")
  case True
  moreover assume "s < length ds \<Longrightarrow> \<not> live (ds ! s)"
  ultimately show ?thesis using arg_cong [OF id_take_nth_drop [OF True], of "filter live"] by simp
qed simp

lemma dmap_put:
  assumes inv: "dir_inv ds" and s: "s \<le> length ds" "s < length ds \<Longrightarrow> \<not> live (ds ! s)" and d: "live d" "dmap ds (dname d) = None"
  shows "dmap (put_entry s d ds) = (dmap ds)(dname d \<mapsto> sfd_ino d) \<and> dir_inv (put_entry s d ds)"
proof -
  let ?A = "filter live (take s ds)" let ?B = "filter live (drop (Suc s) ds)" let ?g = "\<lambda>d. (dname d, sfd_ino d)"
  have f: "filter live ds = ?A @ ?B" by (rule live_split [OF s])
  have p: "filter live (put_entry s d ds) = ?A @ d # ?B" using d(1) by (simp add: put_entry_split [OF s(1)])
  have new: "dname d \<notin> fst ` set (map ?g (?A @ ?B))" using d(2) unfolding dmap_def f map_of_eq_None_iff .
  then have "dname d \<notin> dom (map_of (map ?g ?A))" by (simp only: dom_map_of_conv_image_fst map_append set_append image_Un) simp
  then have "dmap (put_entry s d ds) = (dmap ds)(dname d \<mapsto> sfd_ino d)"
    unfolding dmap_def p f by (simp add: map_add_upd_left)
  moreover have "dname d \<notin> set (map dname (?A @ ?B))" using new by (simp add: image_Un image_image)
  then have "dir_inv (put_entry s d ds)" using inv unfolding dir_inv_def p f by simp
  ultimately show ?thesis by blast
qed

lemma dmap_clear:
  assumes inv: "dir_inv ds" and s: "s < length ds" "live (ds ! s)" and d: "\<not> live d"
  shows "dmap (put_entry s d ds) = (dmap ds)(dname (ds ! s) := None) \<and> dir_inv (put_entry s d ds)"
proof -
  let ?A = "filter live (take s ds)" let ?B = "filter live (drop (Suc s) ds)" let ?g = "\<lambda>d. (dname d, sfd_ino d)"
  have f: "filter live ds = ?A @ ds ! s # ?B"
    using arg_cong [OF id_take_nth_drop [OF s(1)], of "filter live"] s(2) by simp
  have p: "filter live (put_entry s d ds) = ?A @ ?B" using d s by (simp add: put_entry_split)
  have "distinct (map dname (?A @ ds ! s # ?B))" using inv unfolding dir_inv_def f .
  then have new: "dname (ds ! s) \<notin> dname ` set ?A" "dname (ds ! s) \<notin> dname ` set ?B" and "dir_inv (put_entry s d ds)"
    unfolding dir_inv_def p by simp_all
  moreover have "dmap (put_entry s d ds) n = ((dmap ds)(dname (ds ! s) := None)) n" for n
  proof (cases "n = dname (ds ! s)")
    case True
    have "map_of (map ?g ?A) n = None" "map_of (map ?g ?B) n = None"
      unfolding map_of_eq_None_iff using new True by (auto simp: image_iff)
    then show ?thesis using True unfolding dmap_def p by (simp add: map_add_def)
  next
    case False
    then show ?thesis unfolding dmap_def p f by (simp add: map_add_def split: option.split)
  qed
  ultimately show ?thesis by blast
qed

lemma dname_entry: "0 \<notin> set name \<Longrightarrow> length name < 60 \<Longrightarrow> dname (dir_entry ino name) = name"
proof -
  assume n: "0 \<notin> set name" "length name < 60"
  have "(name @ replicate (60 - length name) 0)[59 := 0] = name @ replicate (60 - length name) 0"
    using n(2) by (simp add: list_update_append list_update_same_conv)
  moreover have "takeWhile (\<lambda>c. c \<noteq> 0) (name @ replicate (60 - length name) 0) = name"
    using n by (subst takeWhile_append2) (auto simp: takeWhile_replicate)
  ultimately show ?thesis by (simp add: dname_def dir_entry_def SFS_NAMELEN_def cstr_def)
qed

lemma dir_entry_wf: "length name \<le> 60 \<Longrightarrow> dir_wf (dir_entry ino name)"
  by (simp add: dir_wf_def dir_entry_def SFS_NAMELEN_def)

section \<open>Properties\<close>

text \<open>C13. \<^verbatim>\<open>sfs_dir_findname\<close> decides membership: it returns 0 and the inode number the directory has for the
  name, or \<^verbatim>\<open>ENOENT\<close> if it has none. It never panics on a proper directory, and leaves it as it was.\<close>

theorem sfs_dir_findname_exact:
  assumes "dir_ok st v sv" and "dir_inv (dirents (contents st sv))"
  shows "\<exists>f e st' sv'. sfs_dir_findname v name st = Some (if dmap (dirents (contents st sv)) name \<noteq> None then EOK else ENOENT, f, e, st') \<and>
    map_option snd f = dmap (dirents (contents st sv)) name \<and> dir_ok st' v sv' \<and> contents st' sv' = contents st sv"
proof -
  from findname_ok [OF assms, of name] obtain f e st' sv' where
    r: "sfs_dir_findname v name st = Some (if f \<noteq> None then EOK else ENOENT, f, e, st')" "contents st' sv' = contents st sv"
      "dir_ok st' v sv'" "found_at (dirents (contents st sv)) name (length (dirents (contents st sv))) f" .
  have dm: "map_option snd f = dmap (dirents (contents st sv)) name" by (rule found_at_dmap [OF assms(2) r(4)])
  have "(f \<noteq> None) = (dmap (dirents (contents st sv)) name \<noteq> None)" unfolding dm [symmetric] by simp
  then show ?thesis using r(1-3) dm by (intro exI [of _ f] exI [of _ e] exI [of _ st'] exI [of _ sv']) simp
qed

text \<open>An example: a directory of eight slots that knows one file, inode 3, by the name \<^verbatim>\<open>a\<close>.\<close>

definition ex_dir :: sfs_fs where
  "ex_dir = (dsk_wr 4 (enc_dir (dir_entry 3 [97]) @ replicate 448 0) ex_fs)\<lparr>sfs_v := [0 \<mapsto> ex_vnode 1 4 SFS_TYPE_DIR]\<rparr>"

lemma ex_entry: "dir_wf (dir_entry 3 [97])" "live (dir_entry 3 [97])" "dname (dir_entry 3 [97]) = [97]"
  by (rule dir_entry_wf, simp, simp add: live_def dir_entry_def, rule dname_entry, simp_all)

lemma ex_dir_contents:
  "contents ex_dir (ex_vnode 1 4 SFS_TYPE_DIR) = file_write 0 (enc_dir (dir_entry 3 [97])) (512, \<lambda>k. 0)"
proof -
  let ?i = "sv_i (ex_vnode 1 4 SFS_TYPE_DIR)" let ?e = "enc_dir (dir_entry 3 [97])"
  have le: "length ?e = 64" using ex_entry(1) by simp
  have f0: "fmap (lh_sectors ex_dir) ?i 0 = 4" by (simp add: fmap_def pos_def ptrs_def ex_vnode_def ex_inode_def)
  have "(4 # replicate 14 0 @ replicate 129 0) ! m = (0 :: u32)" if "0 < m" "m < 144" for m
    using that by (simp add: replicate_add [symmetric])
  then have fm: "fmap (lh_sectors ex_dir) ?i n = 0" if "n \<noteq> 0" for n
    using that by (auto simp: fmap_def pos_def ptrs_def idx_def ex_vnode_def ex_inode_def replicate_append_same [symmetric]
      replicate_add [symmetric] nth_Cons' nth_append)
  have "fbyte (lh_sectors ex_dir) ?i k = (if k < 64 then ?e ! k else 0)" for k
  proof (cases "k < 512")
    case True
    then show ?thesis using f0 le by (auto simp: fbyte_def fblk_def ex_dir_def ex_fs_def nth_append)
  next
    case False
    then have "k div 512 \<noteq> 0" by simp
    then show ?thesis using fm [of "k div 512"] False by (simp add: fbyte_def fblk_def)
  qed
  then show ?thesis using le by (simp add: contents_def file_write_def ex_vnode_def ex_inode_def fun_eq_iff)
qed

lemma ex_dir_entries: "dirents (contents ex_dir (ex_vnode 1 4 SFS_TYPE_DIR)) = dir_entry 3 [97] # replicate 7 (dec_dir (replicate 64 0))"
proof -
  have "dirents (512, \<lambda>k. 0) = replicate 8 (dec_dir (replicate 64 0))"
    by (rule nth_equalityI) (simp_all add: dirents_def map_replicate_const)
  moreover have "replicate 8 (dec_dir (replicate 64 0)) = dec_dir (replicate 64 0) # replicate 7 (dec_dir (replicate 64 0))"
    using replicate_Suc [of 7 "dec_dir (replicate 64 0)"] by simp
  ultimately have "(dirents (512, \<lambda>k. 0))[0 := dir_entry 3 [97]] = dir_entry 3 [97] # replicate 7 (dec_dir (replicate 64 0))" by simp
  then show ?thesis
    unfolding ex_dir_contents using dirents_write [of "(512, \<lambda>k. 0)" 0 "dir_entry 3 [97]"] ex_entry(1) by simp
qed

lemma ex_dir_free: "\<not> live (dec_dir (replicate 64 0))"
  by (simp add: live_def dec_dir_def numeral_eq_Suc)

lemma ex_dir_inv: "dir_inv (dirents (contents ex_dir (ex_vnode 1 4 SFS_TYPE_DIR)))"
  unfolding ex_dir_entries using ex_entry ex_dir_free by (simp add: dir_inv_def)

lemma ex_dir_map: "dmap (dirents (contents ex_dir (ex_vnode 1 4 SFS_TYPE_DIR))) = [[97] \<mapsto> 3]"
  unfolding ex_dir_entries using ex_entry ex_dir_free by (simp add: dmap_def dir_entry_def)

lemma ex_dir_ok: "dir_ok ex_dir 0 (ex_vnode 1 4 SFS_TYPE_DIR)"
proof -
  have "length (enc_dir (dir_entry 3 [97]) @ replicate 448 0 :: u8 list) = 512" using ex_entry(1) by simp
  then have wf: "fs_wf ex_dir" using ex_fs_wf by (simp add: ex_dir_def)
  have "inode_ok ex_dir (ex_inode 4 SFS_TYPE_DIR)"
    using ex_fs_inode [of 4 SFS_TYPE_DIR] by (simp add: inode_ok_def ex_dir_def ptrs_def idx_def ex_inode_def)
  then show ?thesis using wf by (simp add: dir_ok_def ex_vnode_def) (simp add: ex_dir_def ex_vnode_def ex_inode_def)
qed

theorem sfs_dir_findname_exact_witness:
  "\<exists>f e st'. sfs_dir_findname 0 [97] ex_dir = Some (EOK, f, e, st') \<and> map_option snd f = Some 3"
  using sfs_dir_findname_exact [OF ex_dir_ok ex_dir_inv, of "[97]"] unfolding ex_dir_map by auto

text \<open>C14. Adding a name refines the update of a map, and what \<^verbatim>\<open>sfs_dir_link\<close> does is determined. A name that exists is refused
  with \<^verbatim>\<open>EEXIST\<close>, any other of 60 or more characters with \<^verbatim>\<open>ENAMETOOLONG\<close>, and in these cases nothing changes except
  what the disk driver keeps of its last transfer. Every other name goes to a slot that is free, or behind the last one if
  none is free: then it is mapped to the inode number, all other names keep theirs, and the directory stays proper. That fails
  only with \<^verbatim>\<open>EINVAL\<close> when the directory has all the 1144 slots a file can hold and none is free, or with \<^verbatim>\<open>ENOSPC\<close> when the
  slot lies in a block that is not allocated yet and afterwards no block of the disk is free; an indirect block may have been allocated then, but
  the contents of the directory are as before.\<close>

theorem sfs_dir_link_refines:
  assumes d: "dir_ok st v sv" and inv: "dir_inv (dirents (contents st sv))" and n: "0 \<notin> set name" and ino: "ino \<noteq> 0"
  shows "\<exists>e slot st' sv'. sfs_dir_link v name ino st = Some (e, slot, st') \<and> vstep v st sv st' sv' \<and> dir_ok st' v sv' \<and>
    (let ds = dirents (contents st sv); ds' = dirents (contents st' sv') in
     if dmap ds name \<noteq> None then e = EEXIST \<and> rd_same st st'
     else if 60 \<le> length name then e = ENAMETOOLONG \<and> rd_same st st'
     else \<exists>s\<le>length ds. slot = int s \<and> (if s < length ds then \<not> live (ds ! s) else list_all live ds) \<and>
       (e = EOK \<and> dir_inv ds' \<and> dmap ds' = (dmap ds)(name \<mapsto> ino) \<or>
        contents st' sv' = contents st sv \<and> (e = EINVAL \<and> length ds = 1144 \<and> list_all live ds \<or>
          e = ENOSPC \<and> full st' \<and> fmap (lh_sectors st) (sv_i sv) (s div 8) = 0)))"
proof -
  let ?ds = "dirents (contents st sv)"
  from findname_ok [OF d inv, of name] obtain f es st1 sv1 where
    r: "sfs_dir_findname v name st = Some (if f \<noteq> None then EOK else ENOENT, f, es, st1)" "vstep v st sv st1 sv1"
      "contents st1 sv1 = contents st sv" "dir_ok st1 v sv1" "found_at ?ds name (length ?ds) f" "empty_at ?ds (length ?ds) es" "rd_same st st1" .
  have dm: "map_option snd f = dmap ?ds name" by (rule found_at_dmap [OF inv r(5)])
  show ?thesis
  proof (cases "f = None \<and> length name < 60")
    case False
    let ?e = "if f \<noteq> None then EEXIST else ENAMETOOLONG"
    have "sfs_dir_link v name ino st = Some (?e, - 1, st1)" using r(1) False by (auto simp: sfs_dir_link_def SFS_NAMELEN_def)
    moreover have "(f \<noteq> None) = (dmap ?ds name \<noteq> None)" unfolding dm [symmetric] by simp
    ultimately show ?thesis using r(2-4,7) False by (intro exI [of _ ?e] exI [of _ "- 1"] exI [of _ st1] exI [of _ sv1]) (auto simp: Let_def)
  next
    case True
    then have none: "dmap ?ds name = None" using dm by simp
    obtain s where s: "s \<le> length ?ds" "s < length ?ds \<Longrightarrow> \<not> live (?ds ! s)" "s = length ?ds \<Longrightarrow> list_all live ?ds"
        "(case es of Some i \<Rightarrow> Some i | None \<Rightarrow> sfs_dir_nentries v st1) = Some (int s)"
      using r(3,6) nentries_ok [OF r(4)] by (cases es) (auto simp: empty_at_def list_all_length)
    have sv1: "sv1 = sv" using r(4) d rd_same_fields(2) [OF r(7)] by (simp add: dir_ok_def)
    have le: "length ?ds \<le> 1144" using d by (auto simp: dir_ok_def fst_contents)
    let ?d = "dir_entry ino name"
    have "dir_wf ?d" using True by (intro dir_entry_wf) simp
    from writedir_ok [OF r(4) _ this, of s] s(1) r(3) obtain e st' sv' where
      w: "sfs_writedir v ?d (int s) st1 = Some (e, st')" "vstep v st1 sv1 st' sv'" "dir_ok st' v sv'"
        "e = EOK \<and> dirents (contents st' sv') = put_entry s ?d ?ds \<or>
         (e = EINVAL \<and> 1144 \<le> s \<or> e = ENOSPC \<and> full st' \<and> fmap (lh_sectors st) (sv_i sv) (s div 8) = 0) \<and> contents st' sv' = contents st sv"
      by (auto simp: put_entry_def Let_def sv1 rd_same_fields(1) [OF r(7)])
    have full: "length ?ds = 1144 \<and> list_all live ?ds" if "1144 \<le> s" using that s(1,3) le by simp
    have l: "sfs_dir_link v name ino st = Some (e, int s, st')"
      using r(1) True s(4) w(1) by (simp add: sfs_dir_link_def SFS_NAMELEN_def)
    have "live ?d" "dname ?d = name" using ino True dname_entry [OF n] by (simp_all add: live_def dir_entry_def)
    then have p: "dmap (put_entry s ?d ?ds) = (dmap ?ds)(name \<mapsto> ino) \<and> dir_inv (put_entry s ?d ?ds)"
      using dmap_put [OF inv s(1,2), of ?d] none by (simp add: dir_entry_def)
    show ?thesis
      by (intro exI [of _ e] exI [of _ "int s"] exI [of _ st'] exI [of _ sv'])
        (use l vstep_trans [OF r(2) w(2)] w(3,4) p none True s(1-3) full in \<open>auto simp: Let_def\<close>)
  qed
qed

text \<open>In the example, a name that exists, one that is too long, and one that goes to one of the seven free slots of the allocated block.\<close>

theorem sfs_dir_link_refines_witness:
  "(\<exists>slot st'. sfs_dir_link 0 [97] 6 ex_dir = Some (EEXIST, slot, st') \<and> rd_same ex_dir st') \<and>
   (\<exists>slot st'. sfs_dir_link 0 (replicate 60 97) 6 ex_dir = Some (ENAMETOOLONG, slot, st') \<and> rd_same ex_dir st') \<and>
   (\<exists>slot st' sv'. sfs_dir_link 0 [98] 6 ex_dir = Some (EOK, slot, st') \<and> dmap (dirents (contents st' sv')) = [[97] \<mapsto> 3, [98] \<mapsto> 6])"
proof (intro conjI)
  note t = sfs_dir_link_refines [OF ex_dir_ok ex_dir_inv, of _ 6, unfolded ex_dir_map Let_def]
  show "\<exists>slot st'. sfs_dir_link 0 [97] 6 ex_dir = Some (EEXIST, slot, st') \<and> rd_same ex_dir st'"
    using t [of "[97]"] by (auto split: if_splits)
  have "(replicate 60 97 :: u8 list) \<noteq> [97]" by (simp add: numeral_eq_Suc)
  then show "\<exists>slot st'. sfs_dir_link 0 (replicate 60 97) 6 ex_dir = Some (ENAMETOOLONG, slot, st') \<and> rd_same ex_dir st'"
    using t [of "replicate 60 97"] by (auto split: if_splits)
  let ?ds = "dirents (contents ex_dir (ex_vnode 1 4 SFS_TYPE_DIR))"
  have ds: "length ?ds = 8" "\<not> list_all live ?ds" unfolding ex_dir_entries using ex_dir_free by (simp_all add: list_all_iff)
  have f: "fmap (lh_sectors ex_dir) (sv_i (ex_vnode 1 4 SFS_TYPE_DIR)) 0 \<noteq> 0"
    by (simp add: fmap_def pos_def ptrs_def ex_vnode_def ex_inode_def)
  from t [of "[98]"] obtain e slot st' sv' s where l: "sfs_dir_link 0 [98] 6 ex_dir = Some (e, slot, st')" "s < length ?ds \<or> list_all live ?ds"
      "e = EOK \<and> dmap (dirents (contents st' sv')) = [[97] \<mapsto> 3, [98] \<mapsto> 6] \<or> length ?ds = 1144 \<or>
       fmap (lh_sectors ex_dir) (sv_i (ex_vnode 1 4 SFS_TYPE_DIR)) (s div 8) = 0"
    by (auto simp del: length_dirents split: if_splits)
  have "s < 8" using l(2) ds by simp
  then have "s div 8 = 0" by simp
  with l(3) f ds(1) have "e = EOK \<and> dmap (dirents (contents st' sv')) = [[97] \<mapsto> 3, [98] \<mapsto> 6]" by simp
  then show "\<exists>slot st' sv'. sfs_dir_link 0 [98] 6 ex_dir = Some (EOK, slot, st') \<and> dmap (dirents (contents st' sv')) = [[97] \<mapsto> 3, [98] \<mapsto> 6]"
    using l(1) by blast
qed

end
