(* ===== verification/Sfs_Vnode.thy ===== *)
theory Sfs_Vnode
  imports Sfs_Dir
begin

text \<open>
  The vnode operations of SFS, from \<^verbatim>\<open>src/src/kern/fs/sfs/sfs_vnode.c\<close>.

  A vnode is named by the address of its \<^verbatim>\<open>struct sfs_vnode\<close> (the embedded \<^verbatim>\<open>struct vnode\<close> and the
  pointers \<^verbatim>\<open>vn_data\<close> and \<^verbatim>\<open>vn_fs\<close> lead back to it and to the one mounted file system). \<open>sfs_mem\<close> says
  which of the allocations of an operation succeed: the vnode itself, its lock, and the growth of the
  vnode table.
\<close>

record sfs_mem =
  km_vnode :: bool
  km_lock :: bool
  km_table :: bool

section \<open>Truncation\<close>

fun truncate_direct :: "nat \<Rightarrow> u32 \<Rightarrow> nat list \<Rightarrow> 'a sfs_fs_scheme \<Rightarrow> 'a sfs_fs_scheme kern" where
  "truncate_direct v blocklen [] st = Some st"
| "truncate_direct v blocklen (i # is) st =
     do {
       sv \<leftarrow> sfs_v st v;
       let block = sfi_direct (sv_i sv) ! i;
       if of_nat i \<ge> blocklen \<and> block \<noteq> 0 then
         do {
           st1 \<leftarrow> sfs_bfree block st;
           truncate_direct v blocklen is
             (sv_put v (sv\<lparr>sv_i := (sv_i sv)\<lparr>sfi_direct := (sfi_direct (sv_i sv))[i := 0]\<rparr>, sv_dirty := True\<rparr>) st1)
         }
       else truncate_direct v blocklen is st
     }"

text \<open>The loop over the indirect block; \<open>idbuf\<close> is what is left of it from entry \<open>j\<close> on.\<close>

fun truncate_entries :: "u32 \<Rightarrow> u32 \<Rightarrow> u32 list \<Rightarrow> 'a sfs_fs_scheme \<Rightarrow> (bool \<times> u32 list \<times> 'a sfs_fs_scheme) kern" where
  "truncate_entries blocklen j [] st = Some (False, [], st)"
| "truncate_entries blocklen j (b # idbuf) st =
     (if blocklen < of_nat SFS_NDIRECT + j \<and> b \<noteq> 0 then
        do {
          st1 \<leftarrow> sfs_bfree b st;
          (iddirty, idbuf', st2) \<leftarrow> truncate_entries blocklen (j + 1) idbuf st1;
          Some (True, 0 # idbuf', st2)
        }
      else
        do {
          (iddirty, idbuf', st2) \<leftarrow> truncate_entries blocklen (j + 1) idbuf st;
          Some (iddirty, b # idbuf', st2)
        })"

definition truncate_indirect :: "nat \<Rightarrow> u32 \<Rightarrow> 'a sfs_fs_scheme \<Rightarrow> (errno \<times> 'a sfs_fs_scheme) kern" where
  "truncate_indirect v blocklen st =
     do {
       sv \<leftarrow> sfs_v st v;
       let idblock = sfi_indirect (sv_i sv);
       let highblock = of_nat SFS_NDIRECT + of_nat SFS_DBPERIDB - 1;
       if blocklen < highblock \<and> idblock \<noteq> 0 then
         do {
           (result, buf, st1) \<leftarrow> sfs_rblock (replicate SFS_BLOCKSIZE 0) idblock st;
           if result \<noteq> EOK then Some (result, st1)
           else do {
             (iddirty, idbuf, st2) \<leftarrow> truncate_entries blocklen 0 (words_of buf) st1;
             let hasnonzero = list_ex (\<lambda>b. b \<noteq> 0) idbuf;
             if \<not> hasnonzero then
               do {
                 st3 \<leftarrow> sfs_bfree idblock st2;
                 sv \<leftarrow> sfs_v st3 v;
                 Some (EOK, sv_put v (sv\<lparr>sv_i := (sv_i sv)\<lparr>sfi_indirect := 0\<rparr>, sv_dirty := True\<rparr>) st3)
               }
             else if iddirty then sfs_wblock (bytes_of idbuf) idblock st2
             else Some (EOK, st2)
           }
         }
       else Some (EOK, st)
     }"

definition sfs_truncate :: "nat \<Rightarrow> int \<Rightarrow> 'a sfs_fs_scheme \<Rightarrow> (errno \<times> 'a sfs_fs_scheme) kern" where
  "sfs_truncate v len st =
     do {
       let blocklen = of_int (cdiv (s32 (s32 (len + int SFS_BLOCKSIZE) - 1)) (int SFS_BLOCKSIZE));
       st1 \<leftarrow> truncate_direct v blocklen [0..<SFS_NDIRECT] st;
       (result, st2) \<leftarrow> truncate_indirect v blocklen st1;
       if result \<noteq> EOK then Some (result, st2)
       else do {
         sv \<leftarrow> sfs_v st2 v;
         Some (EOK, sv_put v (sv\<lparr>sv_i := (sv_i sv)\<lparr>sfi_size := of_int len\<rparr>, sv_dirty := True\<rparr>) st2)
       }
     }"

section \<open>References\<close>

text \<open>Calls through the operation tables \<^verbatim>\<open>sfs_fileops\<close> and \<^verbatim>\<open>sfs_dirops\<close>: \<^verbatim>\<open>vnode_check\<close>, then the
  entry of the table. \<open>vop_ops\<close> is the first half. SFS itself uses the first two.\<close>

definition sfs_notdir :: errno where "sfs_notdir = ENOTDIR"
definition sfs_isdir :: errno where "sfs_isdir = EISDIR"
definition sfs_unimp :: errno where "sfs_unimp = EUNIMP"

definition vop_ops :: "nat \<Rightarrow> 'a sfs_fs_scheme \<Rightarrow> sfs_ops kern" where
  "vop_ops v st = do { sv \<leftarrow> sfs_v st v; vnode_check False (sv_v sv); vn_ops (sv_v sv) }"

definition VOP_TRUNCATE :: "nat \<Rightarrow> int \<Rightarrow> 'a sfs_fs_scheme \<Rightarrow> (errno \<times> 'a sfs_fs_scheme) kern" where
  "VOP_TRUNCATE v len st =
     do {
       ops \<leftarrow> vop_ops v st;
       (case ops of sfs_fileops \<Rightarrow> sfs_truncate v len st | sfs_dirops \<Rightarrow> Some (sfs_isdir, st))
     }"

definition sfs_fsync :: "nat \<Rightarrow> 'a sfs_fs_scheme \<Rightarrow> (errno \<times> 'a sfs_fs_scheme) kern" where
  "sfs_fsync v st = sfs_sync_inode v st"

definition VOP_FSYNC :: "nat \<Rightarrow> 'a sfs_fs_scheme \<Rightarrow> (errno \<times> 'a sfs_fs_scheme) kern" where
  "VOP_FSYNC v st = do { ops \<leftarrow> vop_ops v st; sfs_fsync v st }"

text \<open>The search for a vnode in the table, by address.\<close>

function table_index :: "nat \<Rightarrow> int \<Rightarrow> 'a sfs_fs_scheme \<Rightarrow> int option kern" where
  "table_index v i st =
     (if i < array_getnum (sfs_vnodes st) then
        (case array_getguy (sfs_vnodes st) i of
           None \<Rightarrow> None
         | Some v2 \<Rightarrow> if v2 = v then Some (Some i) else table_index v (i + 1) st)
      else Some None)"
  by pat_completeness auto
termination by (relation "measure (\<lambda>(v, i, st). nat (array_getnum (sfs_vnodes st) - i))") auto

declare table_index.simps [simp del]

definition sfs_reclaim :: "nat \<Rightarrow> 'a sfs_fs_scheme \<Rightarrow> (errno \<times> 'a sfs_fs_scheme) kern" where
  "sfs_reclaim v st =
     do {
       sv \<leftarrow> sfs_v st v;
       if vn_refcount (sv_v sv) \<noteq> 1 then
         do {
           kassert (vn_refcount (sv_v sv) > 1);
           Some (EBUSY, sv_put v (sv\<lparr>sv_v := (sv_v sv)\<lparr>vn_refcount := vn_refcount (sv_v sv) - 1\<rparr>\<rparr>) st)
         }
       else do {
         (result, st1) \<leftarrow> (if sfi_linkcount (sv_i sv) = 0 then VOP_TRUNCATE v 0 st else Some (EOK, st));
         if result \<noteq> EOK then Some (result, st1)
         else do {
           (result, st2) \<leftarrow> sfs_sync_inode v st1;
           if result \<noteq> EOK then Some (result, st2)
           else do {
             sv2 \<leftarrow> sfs_v st2 v;
             st3 \<leftarrow> (if sfi_linkcount (sv_i sv2) = 0 then sfs_bfree (sv_ino sv2) st2 else Some st2);
             ix \<leftarrow> table_index v 0 st3;
             i \<leftarrow> ix;
             tab \<leftarrow> array_remove (sfs_vnodes st3) i;
             vn \<leftarrow> vnode_kill (sv_v sv2);
             Some (EOK, st3\<lparr>sfs_vnodes := tab, sfs_v := (sfs_v st3)(v := None)\<rparr>)
           }
         }
       }
     }"

text \<open>\<^verbatim>\<open>VOP_DECREF\<close>: \<^verbatim>\<open>vnode_decref\<close> with the call of \<^verbatim>\<open>VOP_RECLAIM\<close> it ends in, whose result is only printed.\<close>

definition VOP_DECREF :: "nat \<Rightarrow> 'a sfs_fs_scheme \<Rightarrow> 'a sfs_fs_scheme kern" where
  "VOP_DECREF v st =
     do {
       sv \<leftarrow> sfs_v st v;
       (actually_do_it, vn) \<leftarrow> vnode_decref (sv_v sv);
       let st1 = sv_put v (sv\<lparr>sv_v := vn\<rparr>) st;
       if actually_do_it then do { vnode_check True vn; (result, st2) \<leftarrow> sfs_reclaim v st1; Some st2 }
       else Some st1
     }"

definition VOP_INCREF :: "nat \<Rightarrow> 'a sfs_fs_scheme \<Rightarrow> 'a sfs_fs_scheme kern" where
  "VOP_INCREF v st = do { sv \<leftarrow> sfs_v st v; Some (sv_put v (sv\<lparr>sv_v := vnode_incref (sv_v sv)\<rparr>) st) }"

section \<open>Loading and creating objects\<close>

text \<open>The linear search of \<^verbatim>\<open>sfs_loadvnode\<close>.\<close>

function find_loaded :: "u32 \<Rightarrow> int \<Rightarrow> 'a sfs_fs_scheme \<Rightarrow> nat option kern" where
  "find_loaded ino i st =
     (if i < array_getnum (sfs_vnodes st) then
        (case array_getguy (sfs_vnodes st) i of
           None \<Rightarrow> None
         | Some v \<Rightarrow>
             (case sfs_v st v of
                None \<Rightarrow> None
              | Some sv \<Rightarrow>
                  if sfs_bused (sv_ino sv) st \<noteq> Some True then None
                  else if sv_ino sv = ino then Some (Some v)
                  else find_loaded ino (i + 1) st))
      else Some None)"
  by pat_completeness auto
termination by (relation "measure (\<lambda>(ino, i, st). nat (array_getnum (sfs_vnodes st) - i))") auto

declare find_loaded.simps [simp del]

text \<open>The rest of \<^verbatim>\<open>sfs_loadvnode\<close>, for an inode that is not in memory yet.\<close>

definition load_inode :: "sfs_mem \<Rightarrow> u32 \<Rightarrow> u16 \<Rightarrow> 'a sfs_fs_scheme \<Rightarrow> (errno \<times> nat \<times> 'a sfs_fs_scheme) kern" where
  "load_inode km ino forcetype st =
     (if \<not> km_vnode km then Some (ENOMEM, 0, st)
      else do {
        used \<leftarrow> sfs_bused ino st;
        kassert used;
        (result, buf, st1) \<leftarrow> sfs_rblock (replicate SFS_BLOCKSIZE 0) ino st;
        if result \<noteq> EOK then Some (result, 0, st1)
        else do {
          let i = dec_inode buf;
          kassert (forcetype \<noteq> SFS_TYPE_INVAL \<longrightarrow> sfi_type i = SFS_TYPE_INVAL);
          let i = (if forcetype \<noteq> SFS_TYPE_INVAL then i\<lparr>sfi_type := forcetype\<rparr> else i);
          ops \<leftarrow> (if sfi_type i = SFS_TYPE_FILE then Some sfs_fileops
                  else if sfi_type i = SFS_TYPE_DIR then Some sfs_dirops else None);
          let (result, vn) = vnode_init (km_lock km) ops;
          if result \<noteq> EOK then Some (result, 0, st1)
          else do {
            let v = sfs_vnext st1;
            let sv = \<lparr>sv_v = vn, sv_i = i, sv_ino = ino, sv_dirty = (forcetype \<noteq> SFS_TYPE_INVAL)\<rparr>;
            (result, tab) \<leftarrow> array_add (km_table km) (sfs_vnodes st1) v;
            if result \<noteq> EOK then do { vn' \<leftarrow> vnode_kill vn; Some (result, 0, st1\<lparr>sfs_vnodes := tab\<rparr>) }
            else Some (EOK, v, st1\<lparr>sfs_vnodes := tab, sfs_v := (sfs_v st1)(v := Some sv), sfs_vnext := v + 1\<rparr>)
          }
        }
      })"

definition sfs_loadvnode :: "sfs_mem \<Rightarrow> u32 \<Rightarrow> u16 \<Rightarrow> 'a sfs_fs_scheme \<Rightarrow> (errno \<times> nat \<times> 'a sfs_fs_scheme) kern" where
  "sfs_loadvnode km ino forcetype st =
     do {
       r \<leftarrow> find_loaded ino 0 st;
       (case r of
          Some v \<Rightarrow> do { kassert (forcetype = SFS_TYPE_INVAL); st1 \<leftarrow> VOP_INCREF v st; Some (EOK, v, st1) }
        | None \<Rightarrow> load_inode km ino forcetype st)
     }"

definition sfs_getroot :: "sfs_mem \<Rightarrow> 'a sfs_fs_scheme \<Rightarrow> (nat \<times> 'a sfs_fs_scheme) kern" where
  "sfs_getroot km st =
     do {
       (result, v, st1) \<leftarrow> sfs_loadvnode km SFS_ROOT_LOCATION SFS_TYPE_INVAL st;
       kassert (result = EOK);
       Some (v, st1)
     }"

definition sfs_lookonce :: "sfs_mem \<Rightarrow> nat \<Rightarrow> u8 list \<Rightarrow> 'a sfs_fs_scheme \<Rightarrow> (errno \<times> nat \<times> int \<times> 'a sfs_fs_scheme) kern" where
  "sfs_lookonce km v name st =
     do {
       (result, found, emptyslot, st1) \<leftarrow> sfs_dir_findname v name st;
       if result \<noteq> EOK then Some (result, 0, -1, st1)
       else do {
         (slot, ino) \<leftarrow> found;
         (result, f, st2) \<leftarrow> sfs_loadvnode km ino SFS_TYPE_INVAL st1;
         if result \<noteq> EOK then Some (result, 0, slot, st2)
         else do {
           sv \<leftarrow> sfs_v st2 f;
           kassert (\<not> sfi_linkcount (sv_i sv) = 0);
           Some (EOK, f, slot, st2)
         }
       }
     }"

definition sfs_makeobj :: "sfs_mem \<Rightarrow> u16 \<Rightarrow> 'a sfs_fs_scheme \<Rightarrow> (errno \<times> nat \<times> 'a sfs_fs_scheme) kern" where
  "sfs_makeobj km type st =
     do {
       (result, ino, st1) \<leftarrow> sfs_balloc st;
       if result \<noteq> EOK then Some (result, 0, st1) else sfs_loadvnode km ino type st1
     }"

section \<open>Operations on files\<close>

definition O_APPEND :: "32 word" where "O_APPEND = 32"
definition O_ACCMODE :: "32 word" where "O_ACCMODE = 3"
definition O_RDONLY :: "32 word" where "O_RDONLY = 0"
definition S_IFREG :: u32 where "S_IFREG = 4096"
definition S_IFDIR :: u32 where "S_IFDIR = 8192"

definition sfs_open :: "u32 \<Rightarrow> errno" where
  "sfs_open openflags = (if openflags AND O_APPEND \<noteq> 0 then EUNIMP else EOK)"

definition sfs_opendir :: "u32 \<Rightarrow> errno" where
  "sfs_opendir openflags =
     (if openflags AND O_ACCMODE \<noteq> O_RDONLY then EISDIR
      else if openflags AND O_APPEND \<noteq> 0 then EISDIR else EOK)"

definition sfs_close :: "nat \<Rightarrow> 'a sfs_fs_scheme \<Rightarrow> (errno \<times> 'a sfs_fs_scheme) kern" where
  "sfs_close v st = VOP_FSYNC v st"

definition sfs_read :: "nat \<Rightarrow> uio \<Rightarrow> 'a sfs_fs_scheme \<Rightarrow> (errno \<times> uio \<times> 'a sfs_fs_scheme) kern" where
  "sfs_read v u st = do { kassert (uio_rw u = UIO_READ); sfs_io v u st }"

definition sfs_write :: "nat \<Rightarrow> uio \<Rightarrow> 'a sfs_fs_scheme \<Rightarrow> (errno \<times> uio \<times> 'a sfs_fs_scheme) kern" where
  "sfs_write v u st = do { kassert (uio_rw u = UIO_WRITE); sfs_io v u st }"

definition sfs_ioctl :: errno where
  "sfs_ioctl = EINVAL"

definition sfs_gettype :: "nat \<Rightarrow> 'a sfs_fs_scheme \<Rightarrow> (errno \<times> u32) kern" where
  "sfs_gettype v st =
     do {
       sv \<leftarrow> sfs_v st v;
       if sfi_type (sv_i sv) = SFS_TYPE_FILE then Some (EOK, S_IFREG)
       else if sfi_type (sv_i sv) = SFS_TYPE_DIR then Some (EOK, S_IFDIR)
       else None
     }"

definition VOP_GETTYPE :: "nat \<Rightarrow> 'a sfs_fs_scheme \<Rightarrow> (errno \<times> u32) kern" where
  "VOP_GETTYPE v st = do { ops \<leftarrow> vop_ops v st; sfs_gettype v st }"

record stat =
  st_mode :: u32
  st_nlink :: u32
  st_size :: int
  st_blocks :: u32

definition sfs_stat :: "nat \<Rightarrow> 'a sfs_fs_scheme \<Rightarrow> (errno \<times> stat) kern" where
  "sfs_stat v st =
     do {
       sv \<leftarrow> sfs_v st v;
       (result, mode) \<leftarrow> VOP_GETTYPE v st;
       Some (result, \<lparr>st_mode = mode, st_nlink = 0, st_size = sint (sfi_size (sv_i sv)), st_blocks = 0\<rparr>)
     }"

definition sfs_tryseek :: "int \<Rightarrow> errno" where
  "sfs_tryseek offset = (if offset < 0 then EINVAL else EOK)"

definition sfs_mmap :: errno where
  "sfs_mmap = EUNIMP"

section \<open>Operations on the directory\<close>

definition sfs_namefile :: "nat \<Rightarrow> 'a sfs_fs_scheme \<Rightarrow> errno kern" where
  "sfs_namefile v st = do { sv \<leftarrow> sfs_v st v; kassert (sv_ino sv = SFS_ROOT_LOCATION); Some EOK }"

text \<open>Add \<open>d\<close> to the link count of a vnode and mark its inode dirty.\<close>

definition sv_links :: "nat \<Rightarrow> u16 \<Rightarrow> 'a sfs_fs_scheme \<Rightarrow> 'a sfs_fs_scheme kern" where
  "sv_links f d st =
     do {
       sv \<leftarrow> sfs_v st f;
       Some (sv_put f (sv\<lparr>sv_i := (sv_i sv)\<lparr>sfi_linkcount := sfi_linkcount (sv_i sv) + d\<rparr>, sv_dirty := True\<rparr>) st)
     }"

definition sfs_creat :: "sfs_mem \<Rightarrow> nat \<Rightarrow> u8 list \<Rightarrow> bool \<Rightarrow> 'a sfs_fs_scheme \<Rightarrow> (errno \<times> nat \<times> 'a sfs_fs_scheme) kern" where
  "sfs_creat km v name excl st =
     do {
       (result, found, emptyslot, st1) \<leftarrow> sfs_dir_findname v name st;
       if result \<noteq> EOK \<and> result \<noteq> ENOENT then Some (result, 0, st1)
       else if result = EOK \<and> excl then Some (EEXIST, 0, st1)
       else if result = EOK then do { (slot, ino) \<leftarrow> found; sfs_loadvnode km ino SFS_TYPE_INVAL st1 }
       else do {
         (result, newguy, st2) \<leftarrow> sfs_makeobj km SFS_TYPE_FILE st1;
         if result \<noteq> EOK then Some (result, 0, st2)
         else do {
           sv \<leftarrow> sfs_v st2 newguy;
           (result, slot, st3) \<leftarrow> sfs_dir_link v name (sv_ino sv) st2;
           if result \<noteq> EOK then do { st4 \<leftarrow> VOP_DECREF newguy st3; Some (result, 0, st4) }
           else do { st4 \<leftarrow> sv_links newguy 1 st3; Some (EOK, newguy, st4) }
         }
       }
     }"

definition sfs_link :: "nat \<Rightarrow> u8 list \<Rightarrow> nat \<Rightarrow> 'a sfs_fs_scheme \<Rightarrow> (errno \<times> 'a sfs_fs_scheme) kern" where
  "sfs_link v name file st =
     do {
       f \<leftarrow> sfs_v st file;
       (result, slot, st1) \<leftarrow> sfs_dir_link v name (sv_ino f) st;
       if result \<noteq> EOK then Some (result, st1)
       else do { st2 \<leftarrow> sv_links file 1 st1; Some (EOK, st2) }
     }"

definition sfs_remove :: "sfs_mem \<Rightarrow> nat \<Rightarrow> u8 list \<Rightarrow> 'a sfs_fs_scheme \<Rightarrow> (errno \<times> 'a sfs_fs_scheme) kern" where
  "sfs_remove km v name st =
     do {
       (result, victim, slot, st1) \<leftarrow> sfs_lookonce km v name st;
       if result \<noteq> EOK then Some (result, st1)
       else do {
         (result, st2) \<leftarrow> sfs_dir_unlink v slot st1;
         st3 \<leftarrow> (if result = EOK then
                   do { sv \<leftarrow> sfs_v st2 victim; kassert (sfi_linkcount (sv_i sv) > 0); sv_links victim (- 1) st2 }
                 else Some st2);
         st4 \<leftarrow> VOP_DECREF victim st3;
         Some (result, st4)
       }
     }"

text \<open>The error recovery of \<^verbatim>\<open>sfs_rename\<close>, at the label \<^verbatim>\<open>puke_harder\<close>.\<close>

definition rename_undo :: "nat \<Rightarrow> nat \<Rightarrow> int \<Rightarrow> errno \<Rightarrow> 'a sfs_fs_scheme \<Rightarrow> (errno \<times> 'a sfs_fs_scheme) kern" where
  "rename_undo v g1 slot2 result st =
     do {
       (result2, st1) \<leftarrow> sfs_dir_unlink v slot2 st;
       kassert (result2 = EOK);
       sv \<leftarrow> sfs_v st1 g1;
       st2 \<leftarrow> VOP_DECREF g1 (sv_put g1 (sv\<lparr>sv_i := (sv_i sv)\<lparr>sfi_linkcount := sfi_linkcount (sv_i sv) - 1\<rparr>\<rparr>) st1);
       Some (result, st2)
     }"

definition sfs_rename :: "sfs_mem \<Rightarrow> nat \<Rightarrow> u8 list \<Rightarrow> nat \<Rightarrow> u8 list \<Rightarrow> 'a sfs_fs_scheme \<Rightarrow> (errno \<times> 'a sfs_fs_scheme) kern" where
  "sfs_rename km d1 n1 d2 n2 st =
     do {
       kassert (d1 = d2);
       sv \<leftarrow> sfs_v st d1;
       kassert (sv_ino sv = SFS_ROOT_LOCATION);
       (result, g1, slot1, st1) \<leftarrow> sfs_lookonce km d1 n1 st;
       if result \<noteq> EOK then Some (result, st1)
       else do {
         g \<leftarrow> sfs_v st1 g1;
         kassert (sfi_type (sv_i g) = SFS_TYPE_FILE);
         (result, slot2, st2) \<leftarrow> sfs_dir_link d1 n2 (sv_ino g) st1;
         if result \<noteq> EOK then do { st3 \<leftarrow> VOP_DECREF g1 st2; Some (result, st3) }
         else do {
           st3 \<leftarrow> sv_links g1 1 st2;
           (result, st4) \<leftarrow> sfs_dir_unlink d1 slot1 st3;
           if result \<noteq> EOK then rename_undo d1 g1 slot2 result st4
           else do {
             g \<leftarrow> sfs_v st4 g1;
             kassert (sfi_linkcount (sv_i g) > 0);
             st5 \<leftarrow> sv_links g1 (- 1) st4;
             st6 \<leftarrow> VOP_DECREF g1 st5;
             Some (EOK, st6)
           }
         }
       }
     }"

definition sfs_lookparent :: "nat \<Rightarrow> u8 list \<Rightarrow> nat \<Rightarrow> 'a sfs_fs_scheme \<Rightarrow> (errno \<times> (nat \<times> u8 list) option \<times> 'a sfs_fs_scheme) kern" where
  "sfs_lookparent v path buflen st =
     do {
       sv \<leftarrow> sfs_v st v;
       if sfi_type (sv_i sv) \<noteq> SFS_TYPE_DIR then Some (ENOTDIR, None, st)
       else if length path + 1 > buflen then Some (ENAMETOOLONG, None, st)
       else do { st1 \<leftarrow> VOP_INCREF v st; Some (EOK, Some (v, path), st1) }
     }"

definition sfs_lookup :: "sfs_mem \<Rightarrow> nat \<Rightarrow> u8 list \<Rightarrow> 'a sfs_fs_scheme \<Rightarrow> (errno \<times> nat \<times> 'a sfs_fs_scheme) kern" where
  "sfs_lookup km v path st =
     do {
       sv \<leftarrow> sfs_v st v;
       if sfi_type (sv_i sv) \<noteq> SFS_TYPE_DIR then Some (ENOTDIR, 0, st)
       else do {
         (result, final, slot, st1) \<leftarrow> sfs_lookonce km v path st;
         Some (result, final, st1)
       }
     }"

section \<open>The operation tables\<close>

definition VOP_OPEN :: "nat \<Rightarrow> u32 \<Rightarrow> 'a sfs_fs_scheme \<Rightarrow> errno kern" where
  "VOP_OPEN v flags st =
     do { ops \<leftarrow> vop_ops v st; Some (case ops of sfs_fileops \<Rightarrow> sfs_open flags | sfs_dirops \<Rightarrow> sfs_opendir flags) }"

definition VOP_CLOSE :: "nat \<Rightarrow> 'a sfs_fs_scheme \<Rightarrow> (errno \<times> 'a sfs_fs_scheme) kern" where
  "VOP_CLOSE v st = do { ops \<leftarrow> vop_ops v st; sfs_close v st }"

definition VOP_READ :: "nat \<Rightarrow> uio \<Rightarrow> 'a sfs_fs_scheme \<Rightarrow> (errno \<times> uio \<times> 'a sfs_fs_scheme) kern" where
  "VOP_READ v u st =
     do { ops \<leftarrow> vop_ops v st; (case ops of sfs_fileops \<Rightarrow> sfs_read v u st | sfs_dirops \<Rightarrow> Some (sfs_isdir, u, st)) }"

definition VOP_WRITE :: "nat \<Rightarrow> uio \<Rightarrow> 'a sfs_fs_scheme \<Rightarrow> (errno \<times> uio \<times> 'a sfs_fs_scheme) kern" where
  "VOP_WRITE v u st =
     do { ops \<leftarrow> vop_ops v st; (case ops of sfs_fileops \<Rightarrow> sfs_write v u st | sfs_dirops \<Rightarrow> Some (sfs_isdir, u, st)) }"

definition VOP_IOCTL :: "nat \<Rightarrow> 'a sfs_fs_scheme \<Rightarrow> errno kern" where
  "VOP_IOCTL v st = do { ops \<leftarrow> vop_ops v st; Some sfs_ioctl }"

definition VOP_STAT :: "nat \<Rightarrow> 'a sfs_fs_scheme \<Rightarrow> (errno \<times> stat) kern" where
  "VOP_STAT v st = do { ops \<leftarrow> vop_ops v st; sfs_stat v st }"

definition VOP_TRYSEEK :: "nat \<Rightarrow> int \<Rightarrow> 'a sfs_fs_scheme \<Rightarrow> errno kern" where
  "VOP_TRYSEEK v offset st =
     do { ops \<leftarrow> vop_ops v st; Some (case ops of sfs_fileops \<Rightarrow> sfs_tryseek offset | sfs_dirops \<Rightarrow> sfs_unimp) }"

definition VOP_MMAP :: "nat \<Rightarrow> 'a sfs_fs_scheme \<Rightarrow> errno kern" where
  "VOP_MMAP v st = do { ops \<leftarrow> vop_ops v st; Some (case ops of sfs_fileops \<Rightarrow> sfs_mmap | sfs_dirops \<Rightarrow> sfs_isdir) }"

definition VOP_NAMEFILE :: "nat \<Rightarrow> 'a sfs_fs_scheme \<Rightarrow> errno kern" where
  "VOP_NAMEFILE v st =
     do { ops \<leftarrow> vop_ops v st; (case ops of sfs_fileops \<Rightarrow> Some sfs_notdir | sfs_dirops \<Rightarrow> sfs_namefile v st) }"

text \<open>Table entries no SFS object supports: \<^verbatim>\<open>getdirentry\<close>, \<^verbatim>\<open>symlink\<close>, \<^verbatim>\<open>mkdir\<close>, \<^verbatim>\<open>rmdir\<close>; and \<^verbatim>\<open>readlink\<close>.\<close>

definition VOP_UNSUPPORTED :: "nat \<Rightarrow> 'a sfs_fs_scheme \<Rightarrow> errno kern" where
  "VOP_UNSUPPORTED v st = do { ops \<leftarrow> vop_ops v st; Some (case ops of sfs_fileops \<Rightarrow> sfs_notdir | sfs_dirops \<Rightarrow> sfs_unimp) }"

definition VOP_READLINK :: "nat \<Rightarrow> 'a sfs_fs_scheme \<Rightarrow> errno kern" where
  "VOP_READLINK v st = do { ops \<leftarrow> vop_ops v st; Some (case ops of sfs_fileops \<Rightarrow> sfs_notdir | sfs_dirops \<Rightarrow> sfs_isdir) }"

definition VOP_CREAT :: "sfs_mem \<Rightarrow> nat \<Rightarrow> u8 list \<Rightarrow> bool \<Rightarrow> 'a sfs_fs_scheme \<Rightarrow> (errno \<times> nat \<times> 'a sfs_fs_scheme) kern" where
  "VOP_CREAT km v name excl st =
     do { ops \<leftarrow> vop_ops v st; (case ops of sfs_fileops \<Rightarrow> Some (sfs_notdir, 0, st) | sfs_dirops \<Rightarrow> sfs_creat km v name excl st) }"

definition VOP_LINK :: "nat \<Rightarrow> u8 list \<Rightarrow> nat \<Rightarrow> 'a sfs_fs_scheme \<Rightarrow> (errno \<times> 'a sfs_fs_scheme) kern" where
  "VOP_LINK v name file st =
     do { ops \<leftarrow> vop_ops v st; (case ops of sfs_fileops \<Rightarrow> Some (sfs_notdir, st) | sfs_dirops \<Rightarrow> sfs_link v name file st) }"

definition VOP_REMOVE :: "sfs_mem \<Rightarrow> nat \<Rightarrow> u8 list \<Rightarrow> 'a sfs_fs_scheme \<Rightarrow> (errno \<times> 'a sfs_fs_scheme) kern" where
  "VOP_REMOVE km v name st =
     do { ops \<leftarrow> vop_ops v st; (case ops of sfs_fileops \<Rightarrow> Some (sfs_notdir, st) | sfs_dirops \<Rightarrow> sfs_remove km v name st) }"

definition VOP_RENAME :: "sfs_mem \<Rightarrow> nat \<Rightarrow> u8 list \<Rightarrow> nat \<Rightarrow> u8 list \<Rightarrow> 'a sfs_fs_scheme \<Rightarrow> (errno \<times> 'a sfs_fs_scheme) kern" where
  "VOP_RENAME km v n1 v2 n2 st =
     do { ops \<leftarrow> vop_ops v st; (case ops of sfs_fileops \<Rightarrow> Some (sfs_notdir, st) | sfs_dirops \<Rightarrow> sfs_rename km v n1 v2 n2 st) }"

definition VOP_LOOKUP :: "sfs_mem \<Rightarrow> nat \<Rightarrow> u8 list \<Rightarrow> 'a sfs_fs_scheme \<Rightarrow> (errno \<times> nat \<times> 'a sfs_fs_scheme) kern" where
  "VOP_LOOKUP km v path st =
     do { ops \<leftarrow> vop_ops v st; (case ops of sfs_fileops \<Rightarrow> Some (sfs_notdir, 0, st) | sfs_dirops \<Rightarrow> sfs_lookup km v path st) }"

definition VOP_LOOKPARENT :: "nat \<Rightarrow> u8 list \<Rightarrow> nat \<Rightarrow> 'a sfs_fs_scheme \<Rightarrow> (errno \<times> (nat \<times> u8 list) option \<times> 'a sfs_fs_scheme) kern" where
  "VOP_LOOKPARENT v path buflen st =
     do { ops \<leftarrow> vop_ops v st; (case ops of sfs_fileops \<Rightarrow> Some (sfs_notdir, None, st) | sfs_dirops \<Rightarrow> sfs_lookparent v path buflen st) }"

text \<open>\<^verbatim>\<open>VOP_INCOPEN\<close> and \<^verbatim>\<open>VOP_DECOPEN\<close>; the last close ends in \<^verbatim>\<open>VOP_CLOSE\<close>, whose result is only printed.\<close>

definition VOP_INCOPEN :: "nat \<Rightarrow> 'a sfs_fs_scheme \<Rightarrow> 'a sfs_fs_scheme kern" where
  "VOP_INCOPEN v st = do { sv \<leftarrow> sfs_v st v; Some (sv_put v (sv\<lparr>sv_v := vnode_incopen (sv_v sv)\<rparr>) st) }"

definition VOP_DECOPEN :: "nat \<Rightarrow> 'a sfs_fs_scheme \<Rightarrow> 'a sfs_fs_scheme kern" where
  "VOP_DECOPEN v st =
     do {
       sv \<leftarrow> sfs_v st v;
       (last, vn) \<leftarrow> vnode_decopen (sv_v sv);
       let st1 = sv_put v (sv\<lparr>sv_v := vn\<rparr>) st;
       if last then do { (result, st2) \<leftarrow> VOP_CLOSE v st1; Some st2 } else Some st1
     }"

end
