(* ===== verification/Sfs_Trunc.thy ===== *)
theory Sfs_Trunc
  imports Sfs_Vnode
begin

text \<open>
  What \<^verbatim>\<open>sfs_truncate\<close> and \<^verbatim>\<open>sfs_reclaim\<close> do to a file. \<open>shrink\<close> is the counterpart of \<open>grow\<close>: it relates
  the file system before and after an operation on one file that gives blocks back and never takes
  one. Every pointer of the inode is kept or cleared, exactly the blocks behind cleared pointers become
  free, and no block but the indirect block of the file is written.
\<close>

section \<open>Giving blocks back\<close>

definition shrink :: "'a sfs_fs_scheme \<Rightarrow> sfs_inode \<Rightarrow> 'a sfs_fs_scheme \<Rightarrow> sfs_inode \<Rightarrow> bool" where
  "shrink st i st' i' \<longleftrightarrow> fs_wf st' \<and> base st' = base st \<and> inode_ok st' i' \<and>
     sfi_type i' = sfi_type i \<and> sfi_linkcount i' = sfi_linkcount i \<and> sfi_waste i' = sfi_waste i \<and>
     list_all2 (\<lambda>p q. q = 0 \<or> q = p) (ptrs (lh_sectors st) i) (ptrs (lh_sectors st') i') \<and>
     (\<forall>p. used st' p \<longleftrightarrow> used st p \<and> (p = 0 \<or> p \<notin> set (ptrs (lh_sectors st) i) \<or> p \<in> set (ptrs (lh_sectors st') i'))) \<and>
     (\<forall>k. k = 0 \<or> k \<noteq> unat (sfi_indirect i) \<longrightarrow> lh_sectors st' ! k = lh_sectors st ! k)"

lemma cleared_set: "list_all2 (\<lambda>p q. q = 0 \<or> q = p) ps qs \<Longrightarrow> set qs \<subseteq> insert 0 (set ps)"
  by (induction ps qs rule: list_all2_induct) auto

lemma cleared_distinct: "list_all2 (\<lambda>p q. q = 0 \<or> q = p) ps qs \<Longrightarrow> nz_distinct ps \<Longrightarrow> nz_distinct qs"
proof (induction ps qs rule: list_all2_induct)
  case (Cons p ps q qs)
  then show ?case using cleared_set [OF Cons.hyps(2)] by (auto simp: nz_distinct_def split: if_splits)
qed simp

lemma cleared_trans:
  "list_all2 (\<lambda>p q. q = 0 \<or> q = p) ps qs \<Longrightarrow> list_all2 (\<lambda>p q. q = 0 \<or> q = p) qs rs \<Longrightarrow> list_all2 (\<lambda>p q. q = 0 \<or> q = (p :: u32)) ps rs"
  by (rule list_all2_trans) auto

lemma shrink_refl: "fs_wf st \<Longrightarrow> inode_ok st i \<Longrightarrow> shrink st i st i"
  by (auto simp: shrink_def list_all2_same)

lemma shrink_indirect: "shrink st i st' i' \<Longrightarrow> fs_wf st \<Longrightarrow> inode_ok st i \<Longrightarrow> sfi_indirect i' = 0 \<or> sfi_indirect i' = sfi_indirect i"
  using inode_okD(1,3) [of st i] inode_okD(1) [of st' i'] list_all2_nthD [of _ "ptrs (lh_sectors st) i" "ptrs (lh_sectors st') i'" 15]
  by (auto simp: shrink_def ptrs_def nth_append)

lemma shrink_sector: "shrink st i st' i' \<Longrightarrow> k = 0 \<or> k \<noteq> unat (sfi_indirect i) \<Longrightarrow> lh_sectors st' ! k = lh_sectors st ! k"
  unfolding shrink_def by blast

lemma shrink_trans:
  assumes "shrink st i st1 i1" and "shrink st1 i1 st2 i2" and "fs_wf st" and "inode_ok st i"
  shows "shrink st i st2 i2"
proof -
  have c: "list_all2 (\<lambda>p q. q = 0 \<or> q = p) (ptrs (lh_sectors st) i) (ptrs (lh_sectors st1) i1)"
    "list_all2 (\<lambda>p q. q = 0 \<or> q = p) (ptrs (lh_sectors st1) i1) (ptrs (lh_sectors st2) i2)" using assms(1,2) by (simp_all add: shrink_def)
  have "used st2 p \<longleftrightarrow> used st p \<and> (p = 0 \<or> p \<notin> set (ptrs (lh_sectors st) i) \<or> p \<in> set (ptrs (lh_sectors st2) i2))" for p
    using assms(1,2) cleared_set [OF c(1)] cleared_set [OF c(2)] unfolding shrink_def by blast
  moreover have "lh_sectors st2 ! k = lh_sectors st ! k" if "k = 0 \<or> k \<noteq> unat (sfi_indirect i)" for k
  proof -
    have "k = 0 \<or> k \<noteq> unat (sfi_indirect i1)" using that shrink_indirect [OF assms(1,3,4)] by auto
    from shrink_sector [OF assms(2) this] shrink_sector [OF assms(1) that] show ?thesis by (rule trans)
  qed
  ultimately show ?thesis using assms(1,2) cleared_trans [OF c] by (simp add: shrink_def)
qed

text \<open>Enough for \<open>shrink\<close>: the inode is valid again without further proof.\<close>

lemma shrinkI:
  assumes "fs_wf st" and "inode_ok st i" and "fs_wf st'" and "base st' = base st" and "inode_wf i'"
    and "sfi_type i' = sfi_type i" and "sfi_linkcount i' = sfi_linkcount i" and "sfi_waste i' = sfi_waste i"
    and c: "list_all2 (\<lambda>p q. q = 0 \<or> q = p) (ptrs (lh_sectors st) i) (ptrs (lh_sectors st') i')"
    and u: "\<And>p. used st' p \<longleftrightarrow> used st p \<and> (p = 0 \<or> p \<notin> set (ptrs (lh_sectors st) i) \<or> p \<in> set (ptrs (lh_sectors st') i'))"
    and "\<And>k. k = 0 \<or> k \<noteq> unat (sfi_indirect i) \<Longrightarrow> lh_sectors st' ! k = lh_sectors st ! k"
  shows "shrink st i st' i'"
proof -
  have "inode_ok st' i'" unfolding inode_ok_def list_all_iff
  proof (intro conjI ballI)
    show "nz_distinct (ptrs (lh_sectors st') i')" using cleared_distinct [OF c] assms(2) by (simp add: inode_ok_def)
    fix p assume p: "p \<in> set (ptrs (lh_sectors st') i')"
    show "p = 0 \<or> used st' p" using u [of p] p cleared_set [OF c] inode_okD(4) [OF assms(1,2), of p] by auto
  qed (rule assms(5))
  then show ?thesis using assms by (simp add: shrink_def)
qed

definition vshrink :: "nat \<Rightarrow> 'a sfs_fs_scheme \<Rightarrow> sfs_vnode \<Rightarrow> 'a sfs_fs_scheme \<Rightarrow> sfs_vnode \<Rightarrow> bool" where
  "vshrink v st sv st' sv' \<longleftrightarrow> sfs_v st' = (sfs_v st)(v \<mapsto> sv') \<and> shrink st (sv_i sv) st' (sv_i sv') \<and> sv_v sv' = sv_v sv \<and>
     sv_ino sv' = sv_ino sv \<and> (sv_dirty sv \<or> sv_i sv' \<noteq> sv_i sv \<longrightarrow> sv_dirty sv')"

lemma vshrink_refl: "fs_wf st \<Longrightarrow> sfs_v st v = Some sv \<Longrightarrow> inode_ok st (sv_i sv) \<Longrightarrow> vshrink v st sv st sv"
  by (auto simp: vshrink_def shrink_refl)

lemma vshrink_trans:
  "vshrink v st sv st1 sv1 \<Longrightarrow> vshrink v st1 sv1 st2 sv2 \<Longrightarrow> fs_wf st \<Longrightarrow> inode_ok st (sv_i sv) \<Longrightarrow> vshrink v st sv st2 sv2"
  unfolding vshrink_def using shrink_trans by fastforce

lemma vshrinkD:
  assumes "vshrink v st sv st' sv'"
  shows "fs_wf st'" "sfs_v st' v = Some sv'" "inode_ok st' (sv_i sv')" "base st' = base st" "sfs_v st' = (sfs_v st)(v \<mapsto> sv')"
  using assms by (simp_all add: vshrink_def shrink_def)

section \<open>Truncation\<close>

text \<open>Which blocks of a file \<^verbatim>\<open>sfs_truncate\<close> keeps when the new length is \<open>b\<close> blocks: behind the direct blocks
  it compares with the wrong operator and keeps one too many.\<close>

definition tkeep :: "nat \<Rightarrow> nat \<Rightarrow> bool" where
  "tkeep b n \<longleftrightarrow> n < b \<or> n = b \<and> 15 \<le> n"

lemma cleared_at:
  assumes "nz_distinct ps" and "k < length ps" and "ps ! k \<noteq> 0" and "q \<noteq> 0"
  shows "q \<in> set (ps[k := 0]) \<longleftrightarrow> q \<in> set ps \<and> q \<noteq> ps ! k"
proof -
  have ps: "ps = take k ps @ ps ! k # drop (Suc k) ps" using assms(2) by (simp add: id_take_nth_drop)
  have "distinct (filter (\<lambda>p. p \<noteq> 0) (take k ps @ ps ! k # drop (Suc k) ps))" using assms(1) ps by (simp add: nz_distinct_def)
  then have "ps ! k \<notin> set (take k ps)" "ps ! k \<notin> set (drop (Suc k) ps)" using assms(3) by auto
  moreover have "set ps = insert (ps ! k) (set (take k ps) \<union> set (drop (Suc k) ps))" by (subst ps) simp
  ultimately show ?thesis using assms(2,4) by (auto simp: upd_conv_take_nth_drop)
qed

lemma free_direct:
  assumes wf: "fs_wf st" and sv: "sfs_v st v = Some sv" and ok: "inode_ok st (sv_i sv)" and k: "k < 15"
    and p: "sfi_direct (sv_i sv) ! k = p" "p \<noteq> 0" and fm: "fs_wf (st\<lparr>sfs_freemap := fm, sfs_freemapdirty := True\<rparr>)"
    "b_nbits fm = b_nbits (sfs_freemap st)" "\<And>q. used (st\<lparr>sfs_freemap := fm, sfs_freemapdirty := True\<rparr>) q \<longleftrightarrow> used st q \<and> q \<noteq> p"
  defines "sv' \<equiv> sv\<lparr>sv_i := (sv_i sv)\<lparr>sfi_direct := (sfi_direct (sv_i sv))[k := 0]\<rparr>, sv_dirty := True\<rparr>"
  shows "vshrink v st sv (sv_put v sv' (st\<lparr>sfs_freemap := fm, sfs_freemapdirty := True\<rparr>)) sv'"
proof -
  let ?i = "sv_i sv" let ?st = "sv_put v sv' (st\<lparr>sfs_freemap := fm, sfs_freemapdirty := True\<rparr>)"
  have l: "length (sfi_direct ?i) = 15" "length (ptrs (lh_sectors st) ?i) = 144" using inode_okD [OF wf ok] by simp_all
  have ps: "ptrs (lh_sectors ?st) (sv_i sv') = (ptrs (lh_sectors st) ?i)[k := 0]"
    using k l(1) by (simp add: sv'_def ptrs_def idx_def list_update_append)
  have at: "ptrs (lh_sectors st) ?i ! k = p" using k l(1) p(1) by (simp add: ptrs_def nth_append)
  have nd: "nz_distinct (ptrs (lh_sectors st) ?i)" using ok by (simp add: inode_ok_def)
  have "shrink st ?i ?st (sv_i sv')"
  proof (rule shrinkI [OF wf ok])
    show "fs_wf ?st" "base ?st = base st" using fm by simp_all
    show "inode_wf (sv_i sv')" using ok by (simp add: sv'_def inode_ok_def inode_wf_def)
    show "list_all2 (\<lambda>p q. q = 0 \<or> q = p) (ptrs (lh_sectors st) ?i) (ptrs (lh_sectors ?st) (sv_i sv'))"
      unfolding ps using k l(2) by (auto simp: list_all2_conv_all_nth nth_list_update)
    fix q
    have "q \<in> set ((ptrs (lh_sectors st) ?i)[k := 0]) \<longleftrightarrow> q \<in> set (ptrs (lh_sectors st) ?i) \<and> q \<noteq> p" if "q \<noteq> 0"
      using cleared_at [OF nd, of k q] at p(2) k l(2) that by simp
    moreover have "p \<in> set (ptrs (lh_sectors st) ?i)" using at k l(2) nth_mem [of k "ptrs (lh_sectors st) ?i"] by simp
    ultimately show "used ?st q \<longleftrightarrow> used st q \<and> (q = 0 \<or> q \<notin> set (ptrs (lh_sectors st) ?i) \<or> q \<in> set (ptrs (lh_sectors ?st) (sv_i sv')))"
      unfolding ps using fm(3) [of q] p(2) by auto
  qed (simp_all add: sv'_def)
  then show ?thesis by (simp add: vshrink_def) (simp add: sv'_def)
qed

lemma truncate_direct_post:
  assumes "fs_wf st" and "sfs_v st v = Some sv" and "inode_ok st (sv_i sv)" and "set ks \<subseteq> {..<15}"
  shows "\<exists>st' sv'. truncate_direct v bl ks st = Some st' \<and> vshrink v st sv st' sv' \<and> lh_sectors st' = lh_sectors st \<and>
    sfi_size (sv_i sv') = sfi_size (sv_i sv) \<and> sfi_indirect (sv_i sv') = sfi_indirect (sv_i sv) \<and>
    (\<forall>n<15. sfi_direct (sv_i sv') ! n = (if n \<in> set ks \<and> unat bl \<le> n then 0 else sfi_direct (sv_i sv) ! n))"
  using assms
proof (induction ks arbitrary: st sv)
  case Nil
  then show ?case using vshrink_refl by auto
next
  case (Cons k ks)
  let ?i = "sv_i sv" let ?p = "sfi_direct ?i ! k"
  have k: "k < 15" "unat (of_nat k :: u32) = k" using Cons.prems(4) by (auto simp: unat_of_nat)
  have l: "length (sfi_direct ?i) = 15" using inode_okD [OF Cons.prems(1,3)] by simp
  have bl: "of_nat k \<ge> bl \<longleftrightarrow> unat bl \<le> k" using k(2) by (simp add: word_le_nat_alt)
  show ?case
  proof (cases "unat bl \<le> k \<and> ?p \<noteq> 0")
    case True
    have "?p \<in> set (ptrs (lh_sectors st) ?i)" using k(1) l nth_mem [of k "sfi_direct ?i"] by (auto simp: ptrs_def)
    then have "used st ?p" using inode_okD(4) [OF Cons.prems(1,3)] True by blast
    with bfree_used [OF Cons.prems(1)] True obtain fm where fm: "sfs_bfree ?p st = Some (st\<lparr>sfs_freemap := fm, sfs_freemapdirty := True\<rparr>)"
      "fs_wf (st\<lparr>sfs_freemap := fm, sfs_freemapdirty := True\<rparr>)" "b_nbits fm = b_nbits (sfs_freemap st)"
      "\<And>q. used (st\<lparr>sfs_freemap := fm, sfs_freemapdirty := True\<rparr>) q \<longleftrightarrow> used st q \<and> q \<noteq> ?p" by blast
    define sv1 where "sv1 = sv\<lparr>sv_i := ?i\<lparr>sfi_direct := (sfi_direct ?i)[k := 0]\<rparr>, sv_dirty := True\<rparr>"
    define st1 where "st1 = sv_put v sv1 (st\<lparr>sfs_freemap := fm, sfs_freemapdirty := True\<rparr>)"
    have vs: "vshrink v st sv st1 sv1"
      unfolding st1_def sv1_def by (rule free_direct [OF Cons.prems(1-3) k(1) refl _ fm(2-4)]) (use True in simp)
    note D = vshrinkD [OF vs]
    from Cons.IH [OF D(1-3)] Cons.prems(4) obtain st' sv' where r: "truncate_direct v bl ks st1 = Some st'" "vshrink v st1 sv1 st' sv'"
      "lh_sectors st' = lh_sectors st1" "sfi_size (sv_i sv') = sfi_size (sv_i sv1)" "sfi_indirect (sv_i sv') = sfi_indirect (sv_i sv1)"
      "\<forall>n<15. sfi_direct (sv_i sv') ! n = (if n \<in> set ks \<and> unat bl \<le> n then 0 else sfi_direct (sv_i sv1) ! n)" by auto
    have "truncate_direct v bl (k # ks) st = Some st'" using Cons.prems(2) True bl fm(1) r(1) by (simp add: st1_def sv1_def)
    then show ?thesis
      using vshrink_trans [OF vs r(2) Cons.prems(1,3)] r(3-6) True l k(1)
      by (intro exI [of _ st'] exI [of _ sv']) (auto simp: st1_def sv1_def nth_list_update)
  next
    case False
    then have "truncate_direct v bl (k # ks) st = truncate_direct v bl ks st" using Cons.prems(2) bl by (auto simp: Let_def)
    moreover have "set ks \<subseteq> {..<15}" using Cons.prems(4) by simp
    ultimately show ?thesis using Cons.IH [OF Cons.prems(1-3)] False by (fastforce elim!: ex_forward)
  qed
qed

lemma truncate_entries_post:
  assumes "fs_wf st" and "nz_distinct ws" and "list_all (\<lambda>w. w = 0 \<or> used st w) ws" and "unat j + length ws \<le> 128"
  shows "\<exists>ws' st'. truncate_entries bl j ws st = Some (ws' \<noteq> ws, ws', st') \<and> fs_wf st' \<and> base st' = base st \<and>
    lh_sectors st' = lh_sectors st \<and> sfs_v st' = sfs_v st \<and> length ws' = length ws \<and>
    (\<forall>k<length ws. ws' ! k = (if tkeep (unat bl) (15 + (unat j + k)) then ws ! k else 0)) \<and>
    (\<forall>q. used st' q \<longleftrightarrow> used st q \<and> (q = 0 \<or> q \<notin> set ws \<or> q \<in> set ws'))"
  using assms
proof (induction ws arbitrary: j st)
  case Nil
  then show ?case by (intro exI [of _ "[]"] exI [of _ st]) simp
next
  case (Cons w ws)
  have j: "unat (j + 1) = unat j + 1" "unat (of_nat SFS_NDIRECT + j) = 15 + unat j"
    using Cons.prems(4) by (simp_all add: unat_word_ariths SFS_NDIRECT_def)
  have cond: "bl < of_nat SFS_NDIRECT + j \<longleftrightarrow> \<not> tkeep (unat bl) (15 + unat j)" using j(2) by (auto simp: word_less_nat_alt tkeep_def)
  have nd: "nz_distinct ws" "w = 0 \<or> w \<notin> set ws" using Cons.prems(2) by (auto simp: nz_distinct_def split: if_splits)
  have us: "list_all (\<lambda>w. w = 0 \<or> used st w) ws" and le: "unat (j + 1) + length ws \<le> 128" using Cons.prems(3,4) j(1) by simp_all
  show ?case
  proof (cases "\<not> tkeep (unat bl) (15 + unat j) \<and> w \<noteq> 0")
    case True
    then have "used st w" using Cons.prems(3) by simp
    with bfree_used [OF Cons.prems(1)] True obtain fm where fm: "sfs_bfree w st = Some (st\<lparr>sfs_freemap := fm, sfs_freemapdirty := True\<rparr>)"
      "fs_wf (st\<lparr>sfs_freemap := fm, sfs_freemapdirty := True\<rparr>)" "b_nbits fm = b_nbits (sfs_freemap st)"
      "\<And>q. used (st\<lparr>sfs_freemap := fm, sfs_freemapdirty := True\<rparr>) q \<longleftrightarrow> used st q \<and> q \<noteq> w" by blast
    define st1 where "st1 = st\<lparr>sfs_freemap := fm, sfs_freemapdirty := True\<rparr>"
    have us1: "list_all (\<lambda>w. w = 0 \<or> used st1 w) ws" using us nd(2) True fm(4) unfolding st1_def list_all_iff by auto
    from Cons.IH [OF fm(2) [folded st1_def] nd(1) us1 le] obtain ws' st' where r: "truncate_entries bl (j + 1) ws st1 = Some (ws' \<noteq> ws, ws', st')"
      "fs_wf st'" "base st' = base st1" "lh_sectors st' = lh_sectors st1" "sfs_v st' = sfs_v st1" "length ws' = length ws"
      "\<And>k. k < length ws \<Longrightarrow> ws' ! k = (if tkeep (unat bl) (15 + (unat (j + 1) + k)) then ws ! k else 0)"
      "\<And>q. used st' q \<longleftrightarrow> used st1 q \<and> (q = 0 \<or> q \<notin> set ws \<or> q \<in> set ws')" by blast
    have "truncate_entries bl j (w # ws) st = Some (0 # ws' \<noteq> w # ws, 0 # ws', st')" using True cond fm(1) r(1) by (simp add: st1_def)
    moreover have "ws' ! k \<in> insert 0 (set ws)" if "k < length ws" for k using r(7) [OF that] that by auto
    then have "set ws' \<subseteq> insert 0 (set ws)" using r(6) by (metis in_set_conv_nth subsetI)
    ultimately show ?thesis
      using r(2-8) fm(3,4) True j(1) nd(2) by (intro exI [of _ "0 # ws'"] exI [of _ st']) (auto simp: st1_def nth_Cons split: nat.split)
  next
    case False
    from Cons.IH [OF Cons.prems(1) nd(1) us le] obtain ws' st' where r: "truncate_entries bl (j + 1) ws st = Some (ws' \<noteq> ws, ws', st')"
      "fs_wf st'" "base st' = base st" "lh_sectors st' = lh_sectors st" "sfs_v st' = sfs_v st" "length ws' = length ws"
      "\<And>k. k < length ws \<Longrightarrow> ws' ! k = (if tkeep (unat bl) (15 + (unat (j + 1) + k)) then ws ! k else 0)"
      "\<And>q. used st' q \<longleftrightarrow> used st q \<and> (q = 0 \<or> q \<notin> set ws \<or> q \<in> set ws')" by blast
    have "truncate_entries bl j (w # ws) st = Some (w # ws' \<noteq> w # ws, w # ws', st')" using False cond r(1) by auto
    moreover have "w \<noteq> 0 \<Longrightarrow> used st w" using Cons.prems(3) by simp
    ultimately show ?thesis
      using r(2-8) False j(1) nd(2) by (intro exI [of _ "w # ws'"] exI [of _ st']) (auto simp: nth_Cons split: nat.split)
  qed
qed

lemma nz_distinct_append: "nz_distinct (ps @ qs) \<longleftrightarrow> nz_distinct ps \<and> nz_distinct qs \<and> (\<forall>p\<in>set ps. p = 0 \<or> p \<notin> set qs)"
  by (auto simp: nz_distinct_def)

lemma shrink_ids:
  assumes wf: "fs_wf st" and ok: "inode_ok st i" and idb: "sfi_indirect i = idb" "idb \<noteq> 0" and st': "fs_wf st'" "base st' = base st"
    and i': "i' = i\<lparr>sfi_indirect := x\<rparr>" "x = 0 \<or> x = idb" and ix: "idx (lh_sectors st') i' = ws'" "length ws' = 128"
    and ws': "\<And>k. k < 128 \<Longrightarrow> ws' ! k = 0 \<or> ws' ! k = idx (lh_sectors st) i ! k"
    and u: "\<And>q. used st' q \<longleftrightarrow> used st q \<and> (q = 0 \<or> q \<notin> set (idx (lh_sectors st) i) \<or> q \<in> set ws') \<and> (q = idb \<longrightarrow> x = idb)"
    and ss: "\<And>k. k \<noteq> unat idb \<Longrightarrow> lh_sectors st' ! k = lh_sectors st ! k"
  shows "shrink st i st' i'"
proof (rule shrinkI [OF wf ok st'])
  let ?ws = "idx (lh_sectors st) i"
  have ps: "ptrs (lh_sectors st) i = sfi_direct i @ idb # ?ws" "ptrs (lh_sectors st') i' = sfi_direct i @ x # ws'"
    using ix(1) i' idb(1) by (simp_all add: ptrs_def)
  have lws: "length ?ws = 128" by (rule inode_okD [OF wf ok])
  have c: "list_all2 (\<lambda>p q. q = 0 \<or> q = p) ?ws ws'" using lws ix(2) ws' by (auto simp: list_all2_conv_all_nth)
  show "inode_wf i'" using ok i' by (simp add: inode_ok_def inode_wf_def)
  show "list_all2 (\<lambda>p q. q = 0 \<or> q = p) (ptrs (lh_sectors st) i) (ptrs (lh_sectors st') i')"
    unfolding ps using c i'(2) by (auto intro!: list_all2_appendI list_all2_refl)
  fix q
  have "nz_distinct (sfi_direct i @ idb # ?ws)" using ok unfolding inode_ok_def ps by simp
  then have "nz_distinct (idb # ?ws)" "q \<in> set (sfi_direct i) \<Longrightarrow> q = 0 \<or> q \<notin> set (idb # ?ws)"
    unfolding nz_distinct_append by blast+
  then have "idb \<notin> set ?ws" "q \<in> set (sfi_direct i) \<Longrightarrow> q \<noteq> 0 \<Longrightarrow> q \<noteq> idb \<and> q \<notin> set ?ws" using idb(2) by (auto simp: nz_distinct_def)
  then show "used st' q \<longleftrightarrow> used st q \<and> (q = 0 \<or> q \<notin> set (ptrs (lh_sectors st) i) \<or> q \<in> set (ptrs (lh_sectors st') i'))"
    unfolding u ps using i'(2) idb(2) cleared_set [OF c] by auto
  show "lh_sectors st' ! k = lh_sectors st ! k" if "k = 0 \<or> k \<noteq> unat (sfi_indirect i)" for k
    using that ss idb by (auto simp: unat_eq_zero)
qed (simp_all add: i')

lemma truncate_indirect_post:
  assumes wf: "fs_wf st" and sv: "sfs_v st v = Some sv" and ok: "inode_ok st (sv_i sv)"
  shows "\<exists>st' sv'. truncate_indirect v bl st = Some (EOK, st') \<and> vshrink v st sv st' sv' \<and>
    sfi_size (sv_i sv') = sfi_size (sv_i sv) \<and> sfi_direct (sv_i sv') = sfi_direct (sv_i sv) \<and>
    (\<forall>n<128. idx (lh_sectors st') (sv_i sv') ! n = (if tkeep (unat bl) (15 + n) then idx (lh_sectors st) (sv_i sv) ! n else 0)) \<and>
    (sfi_indirect (sv_i sv') \<noteq> 0 \<longrightarrow> 142 \<le> unat bl \<or> (\<exists>n<128. idx (lh_sectors st') (sv_i sv') ! n \<noteq> 0))"
proof -
  let ?i = "sv_i sv" let ?ws = "idx (lh_sectors st) ?i"
  define idb where "idb = sfi_indirect ?i"
  have hb: "bl < of_nat SFS_NDIRECT + of_nat SFS_DBPERIDB - 1 \<longleftrightarrow> unat bl < 142" by (simp add: SFS_NDIRECT_def SFS_DBPERIDB_def word_less_nat_alt)
  show ?thesis
  proof (cases "unat bl < 142 \<and> idb \<noteq> 0")
    case False
    then have "truncate_indirect v bl st = Some (EOK, st)" using sv hb by (auto simp: truncate_indirect_def idb_def Let_def)
    moreover have "?ws ! n = (if tkeep (unat bl) (15 + n) then ?ws ! n else 0)" if "n < 128" for n
      using False that by (auto simp: tkeep_def idx_def idb_def)
    ultimately show ?thesis using vshrink_refl [OF wf sv ok] False by (intro exI [of _ st] exI [of _ sv]) (auto simp: idb_def)
  next
    case True
    have uid: "used st idb" by (rule inode_okD(4) [OF wf ok]) (simp_all add: ptrs_def True idb_def [symmetric])
    have lid: "unat idb < length (lh_sectors st)" by (rule used_block [OF wf uid])
    have ws: "words_of (lh_sectors st ! unat idb) = ?ws" using True by (simp add: idx_def idb_def)
    let ?s1 = "dsk_rd (unat idb) st"
    have rb: "sfs_rblock (replicate SFS_BLOCKSIZE 0) idb st = Some (EOK, lh_sectors st ! unat idb, ?s1)"
      by (rule rblock_calm) (use wf lid in \<open>simp_all add: fs_wf_def SFS_BLOCKSIZE_def\<close>)
    have lws: "length ?ws = 128" by (rule inode_okD [OF wf ok])
    have nd: "nz_distinct (idb # ?ws)" using ok by (auto simp: inode_ok_def ptrs_def nz_distinct_append idb_def)
    then have nd': "nz_distinct ?ws" "idb \<notin> set ?ws" using True by (auto simp: nz_distinct_def split: if_splits)
    have us: "list_all (\<lambda>w. w = 0 \<or> used ?s1 w) ?ws" using ok by (simp add: inode_ok_def ptrs_def)
    have wf1: "fs_wf ?s1" using wf lid by simp
    from truncate_entries_post [OF wf1 nd'(1) us, of 0 bl] lws obtain ws' st2 where
      e: "truncate_entries bl 0 ?ws ?s1 = Some (ws' \<noteq> ?ws, ws', st2)" "fs_wf st2" "base st2 = base st" "lh_sectors st2 = lh_sectors st"
        "sfs_v st2 = sfs_v st" "length ws' = 128" "\<And>k. k < 128 \<Longrightarrow> ws' ! k = (if tkeep (unat bl) (15 + k) then ?ws ! k else 0)"
        "\<And>q. used st2 q \<longleftrightarrow> used st q \<and> (q = 0 \<or> q \<notin> set ?ws \<or> q \<in> set ws')" by auto
    have kept: "ws' ! k = 0 \<or> ws' ! k = ?ws ! k" if "k < 128" for k using e(7) [OF that] by simp
    note ids = shrink_ids [OF wf ok idb_def [symmetric] _ _ _ _ _ _ e(6) kept]
    note start = sv hb True rb ws e(1)
    show ?thesis
    proof (cases "list_ex (\<lambda>b. b \<noteq> 0) ws'")
      case False
      have "used st2 idb" using uid nd'(2) e(8) by simp
      with bfree_used [OF e(2)] True obtain fm where fm: "sfs_bfree idb st2 = Some (st2\<lparr>sfs_freemap := fm, sfs_freemapdirty := True\<rparr>)"
        "fs_wf (st2\<lparr>sfs_freemap := fm, sfs_freemapdirty := True\<rparr>)" "b_nbits fm = b_nbits (sfs_freemap st2)"
        "\<And>q. used (st2\<lparr>sfs_freemap := fm, sfs_freemapdirty := True\<rparr>) q \<longleftrightarrow> used st2 q \<and> q \<noteq> idb" by blast
      define sv' where "sv' = sv\<lparr>sv_i := ?i\<lparr>sfi_indirect := 0\<rparr>, sv_dirty := True\<rparr>"
      define st' where "st' = sv_put v sv' (st2\<lparr>sfs_freemap := fm, sfs_freemapdirty := True\<rparr>)"
      have z: "ws' = replicate 128 0" using False e(6) by (auto simp: list_ex_iff intro: replicate_eqI)
      have "shrink st ?i st' (sv_i sv')"
      proof (rule ids [where x = 0])
        show "fs_wf st'" "base st' = base st" using fm(2,3) e(3) by (simp_all add: st'_def)
        show "used st' q \<longleftrightarrow> used st q \<and> (q = 0 \<or> q \<notin> set ?ws \<or> q \<in> set ws') \<and> (q = idb \<longrightarrow> 0 = idb)" for q
          using fm(4) [of q] e(8) [of q] True by (auto simp: st'_def)
      qed (use True z e(4) in \<open>simp_all add: st'_def sv'_def idx_def\<close>)
      then have vs: "vshrink v st sv st' sv'" using e(5) by (simp add: vshrink_def st'_def) (simp add: sv'_def)
      have "truncate_indirect v bl st = Some (EOK, st')"
        using start False fm(1) e(5) by (simp add: truncate_indirect_def idb_def Let_def st'_def sv'_def)
      then show ?thesis using vs e(7) z by (intro exI [of _ st'] exI [of _ sv']) (simp add: sv'_def idx_def)
    next
      case nz: True
      define st' where "st' = (if ws' \<noteq> ?ws then dsk_wr (unat idb) (bytes_of ws') st2 else st2)"
      have ld: "length (bytes_of ws') = 512" using e(6) by simp
      have w: "sfs_wblock (bytes_of ws') idb st2 = Some (EOK, dsk_wr (unat idb) (bytes_of ws') st2)"
        by (rule wblock_calm) (use e(2,4) lid ld in \<open>simp_all add: fs_wf_def\<close>)
      have ix: "idx (lh_sectors st') ?i = ws'" using True lid e(4) ws by (auto simp: st'_def idx_def idb_def [symmetric])
      have "shrink st ?i st' ?i"
      proof (rule ids [where x = idb])
        show "fs_wf st'" "base st' = base st" using e(2,3) ld by (simp_all add: st'_def)
        show "used st' q \<longleftrightarrow> used st q \<and> (q = 0 \<or> q \<notin> set ?ws \<or> q \<in> set ws') \<and> (q = idb \<longrightarrow> idb = idb)" for q
          using e(8) [of q] by (simp add: st'_def)
        show "lh_sectors st' ! k = lh_sectors st ! k" if "k \<noteq> unat idb" for k using that e(4) by (simp add: st'_def)
      qed (use True ix in \<open>simp_all add: idb_def\<close>)
      moreover have "sfs_v st' = sfs_v st" using e(5) by (simp add: st'_def)
      ultimately have vs: "vshrink v st sv st' sv" using sv by (auto simp: vshrink_def)
      have "truncate_indirect v bl st = Some (EOK, st')"
        using start nz w by (auto simp: truncate_indirect_def idb_def Let_def st'_def)
      moreover have "\<exists>n<128. ws' ! n \<noteq> 0" using nz e(6) by (auto simp: list_ex_length)
      ultimately show ?thesis using vs e(7) ix by (intro exI [of _ st'] exI [of _ sv]) simp
    qed
  qed
qed

text \<open>The number of blocks a length takes, and the lengths for which \<^verbatim>\<open>DIVROUNDUP\<close> does not overflow.\<close>

definition tblocks :: "int \<Rightarrow> nat" where
  "tblocks len = nat ((len + 511) div 512)"

lemma tblocks_word:
  assumes "0 \<le> len" and "len + 512 < 2 ^ 31"
  shows "unat (of_int (cdiv (s32 (s32 (len + int SFS_BLOCKSIZE) - 1)) (int SFS_BLOCKSIZE)) :: u32) = tblocks len"
proof -
  have "s32 (len + 512) = len + 512" "s32 (511 + len) = 511 + len" using assms by (intro s32_id; simp)+
  then have c: "cdiv (s32 (s32 (len + int SFS_BLOCKSIZE) - 1)) (int SFS_BLOCKSIZE) = int (tblocks len)"
    using assms(1) by (simp add: SFS_BLOCKSIZE_def cdiv_pos tblocks_def add.commute)
  have "(len + 511) div 512 < 2 ^ 31" using assms by linarith
  then have "tblocks len < 2 ^ 32" by (simp add: tblocks_def)
  then show ?thesis unfolding c by (simp add: unat_of_nat)
qed

lemma fmap_ids:
  assumes "length (sfi_direct i) = 15" "length (sfi_direct i') = 15"
    and "\<And>n. n < 15 \<Longrightarrow> sfi_direct i' ! n = (if K n then sfi_direct i ! n else 0)"
    and "\<And>n. n < 128 \<Longrightarrow> idx ss' i' ! n = (if K (15 + n) then idx ss i ! n else 0)"
  shows "fmap ss' i' n = (if K n then fmap ss i n else 0)"
proof -
  consider "n < 15" | "143 \<le> n" | m where "n = 15 + m" "m < 128" using le_Suc_ex [of 15 n] by force
  then show ?thesis
  proof cases
    case (3 m)
    then show ?thesis using assms(4) [of m] fmap_indirect [OF assms(1), of m ss] fmap_indirect [OF assms(2), of m ss'] by simp
  qed (use assms(1-3) in \<open>simp_all add: fmap_direct, simp_all add: fmap_def\<close>)
qed

lemma truncate_lemma:
  assumes wf: "fs_wf st" and sv: "sfs_v st v = Some sv" and ok: "inode_ok st (sv_i sv)" and len: "0 \<le> len" "len + 512 < 2 ^ 31"
  shows "\<exists>st' sv'. sfs_truncate v len st = Some (EOK, st') \<and> vshrink v st sv st' sv' \<and> unat (sfi_size (sv_i sv')) = nat len \<and> sv_dirty sv' \<and>
    (\<forall>n. fmap (lh_sectors st') (sv_i sv') n = (if tkeep (tblocks len) n then fmap (lh_sectors st) (sv_i sv) n else 0)) \<and>
    (sfi_indirect (sv_i sv') \<noteq> 0 \<longrightarrow> 142 \<le> tblocks len \<or> (\<exists>n<128. fmap (lh_sectors st') (sv_i sv') (15 + n) \<noteq> 0))"
proof -
  define bl :: u32 where "bl = of_int (cdiv (s32 (s32 (len + int SFS_BLOCKSIZE) - 1)) (int SFS_BLOCKSIZE))"
  have bl: "unat bl = tblocks len" unfolding bl_def by (rule tblocks_word [OF len])
  have "set [0..<SFS_NDIRECT] \<subseteq> {..<15}" by (auto simp: SFS_NDIRECT_def)
  from truncate_direct_post [OF wf sv ok this, of bl] obtain st1 sv1 where d: "truncate_direct v bl [0..<SFS_NDIRECT] st = Some st1"
    "vshrink v st sv st1 sv1" "lh_sectors st1 = lh_sectors st" "sfi_size (sv_i sv1) = sfi_size (sv_i sv)"
    "sfi_indirect (sv_i sv1) = sfi_indirect (sv_i sv)"
    "\<And>n. n < 15 \<Longrightarrow> sfi_direct (sv_i sv1) ! n = (if unat bl \<le> n then 0 else sfi_direct (sv_i sv) ! n)" by (auto simp: SFS_NDIRECT_def)
  note D1 = vshrinkD [OF d(2)]
  from truncate_indirect_post [OF D1(1-3), of bl] obtain st2 sv2 where e: "truncate_indirect v bl st1 = Some (EOK, st2)" "vshrink v st1 sv1 st2 sv2"
    "sfi_direct (sv_i sv2) = sfi_direct (sv_i sv1)"
    "\<And>n. n < 128 \<Longrightarrow> idx (lh_sectors st2) (sv_i sv2) ! n = (if tkeep (unat bl) (15 + n) then idx (lh_sectors st1) (sv_i sv1) ! n else 0)"
    "sfi_indirect (sv_i sv2) \<noteq> 0 \<longrightarrow> 142 \<le> unat bl \<or> (\<exists>n<128. idx (lh_sectors st2) (sv_i sv2) ! n \<noteq> 0)" by blast
  note D2 = vshrinkD [OF e(2)]
  define sv' where "sv' = sv2\<lparr>sv_i := (sv_i sv2)\<lparr>sfi_size := of_int len\<rparr>, sv_dirty := True\<rparr>"
  define st' where "st' = sv_put v sv' st2"
  have i': "ptrs ss (sv_i sv') = ptrs ss (sv_i sv2)" "idx ss (sv_i sv') = idx ss (sv_i sv2)" for ss by (simp_all add: sv'_def ptrs_def idx_def)
  have "shrink st2 (sv_i sv2) st' (sv_i sv')"
    using shrink_refl [OF D2(1,3)] by (auto simp: shrink_def st'_def i' inode_ok_def) (simp_all add: sv'_def inode_wf_def)
  then have "vshrink v st2 sv2 st' sv'" by (simp add: vshrink_def st'_def) (simp add: sv'_def)
  then have vs: "vshrink v st sv st' sv'"
    by (rule vshrink_trans [OF vshrink_trans [OF d(2) e(2) wf ok] _ wf ok])
  have "nat len < 2 ^ 32" using len by simp
  then have "unat (of_nat (nat len) :: u32) = nat len" by (simp add: unat_of_nat)
  moreover have "(of_int len :: u32) = of_nat (nat len)" using len(1) by (simp add: of_nat_nat)
  ultimately have z: "unat (of_int len :: u32) = nat len" by simp
  have "sfs_truncate v len st = Some (EOK, st')" using d(1) e(1) D2(2) by (simp add: sfs_truncate_def bl_def [symmetric] st'_def sv'_def)
  moreover have "fmap (lh_sectors st') (sv_i sv') n = (if tkeep (tblocks len) n then fmap (lh_sectors st) (sv_i sv) n else 0)" for n
  proof (rule fmap_ids)
    show "length (sfi_direct (sv_i sv)) = 15" "length (sfi_direct (sv_i sv')) = 15"
      using inode_okD(1) [OF wf ok] inode_okD(1) [OF vshrinkD(1,3) [OF vs]] by simp_all
  next
    fix n :: nat assume "n < 15"
    then show "sfi_direct (sv_i sv') ! n = (if tkeep (tblocks len) n then sfi_direct (sv_i sv) ! n else 0)"
      using d(6) [of n] e(3) bl by (auto simp: sv'_def tkeep_def)
  next
    fix n :: nat assume "n < 128"
    then show "idx (lh_sectors st') (sv_i sv') ! n = (if tkeep (tblocks len) (15 + n) then idx (lh_sectors st) (sv_i sv) ! n else 0)"
      using e(4) [of n] d(3,5) bl by (simp add: i' st'_def) (simp add: idx_def)
  qed
  moreover have "fmap (lh_sectors st') (sv_i sv') (15 + n) = idx (lh_sectors st2) (sv_i sv2) ! n" if "n < 128" for n
    using fmap_indirect [OF inode_okD(1) [OF vshrinkD(1,3) [OF vs]] that] i'(2) by (simp add: st'_def)
  then have "sfi_indirect (sv_i sv') \<noteq> 0 \<longrightarrow> 142 \<le> tblocks len \<or> (\<exists>n<128. fmap (lh_sectors st') (sv_i sv') (15 + n) \<noteq> 0)"
    using e(5) bl by (auto simp: sv'_def)
  ultimately show ?thesis using vs z by (intro exI [of _ st'] exI [of _ sv']) (simp add: sv'_def)
qed

lemma truncate_bytes:
  assumes wf: "fs_wf st" and ok: "inode_ok st i" and s: "shrink st i st' i'"
    and f: "\<And>n. fmap (lh_sectors st') i' n = (if K n then fmap (lh_sectors st) i n else 0)"
  shows "fbyte (lh_sectors st') i' k = (if K (k div 512) then fbyte (lh_sectors st) i k else 0)"
proof (cases "K (k div 512) \<and> fmap (lh_sectors st) i (k div 512) \<noteq> 0")
  case True
  then have "fmap (lh_sectors st) i (k div 512) \<noteq> sfi_indirect i" using fmap_not_indirect [OF wf ok, of "k div 512"] by auto
  then have "lh_sectors st' ! unat (fmap (lh_sectors st) i (k div 512)) = lh_sectors st ! unat (fmap (lh_sectors st) i (k div 512))"
    using s by (auto simp: shrink_def word_unat_eq_iff)
  then show ?thesis using True f [of "k div 512"] by (simp add: fbyte_def fblk_def)
next
  case False
  then show ?thesis using f [of "k div 512"] by (auto simp: fbyte_def fblk_def)
qed

lemma ptrs_all_zero:
  assumes "length (sfi_direct i) = 15" and "length (idx ss i) = 128" and "\<And>n. fmap ss i n = 0" and "sfi_indirect i = 0"
  shows "set (ptrs ss i) = {0}"
proof -
  have "sfi_direct i = replicate 15 0" using assms(1,3) fmap_direct [OF assms(1), of _ ss] by (intro nth_equalityI) simp_all
  moreover have "idx ss i = replicate 128 0" using assms(4) by (simp add: idx_def)
  ultimately show ?thesis using assms(4) by (simp add: ptrs_def)
qed

text \<open>Truncation to nothing gives every block of the file back.\<close>

lemma truncate_zero:
  assumes wf: "fs_wf st" and sv: "sfs_v st v = Some sv" and ok: "inode_ok st (sv_i sv)"
  obtains st' sv' where "sfs_truncate v 0 st = Some (EOK, st')" "vshrink v st sv st' sv'" "sv_dirty sv'" "sfi_size (sv_i sv') = 0"
    "set (ptrs (lh_sectors st') (sv_i sv')) = {0}"
proof -
  have "(0 :: int) \<le> 0" "(0 :: int) + 512 < 2 ^ 31" by simp_all
  from truncate_lemma [OF wf sv ok this] obtain st' sv' where r: "sfs_truncate v 0 st = Some (EOK, st')" "vshrink v st sv st' sv'" "sv_dirty sv'"
    "unat (sfi_size (sv_i sv')) = nat 0" "\<And>n. fmap (lh_sectors st') (sv_i sv') n = (if tkeep (tblocks 0) n then fmap (lh_sectors st) (sv_i sv) n else 0)"
    "sfi_indirect (sv_i sv') \<noteq> 0 \<longrightarrow> 142 \<le> tblocks 0 \<or> (\<exists>n<128. fmap (lh_sectors st') (sv_i sv') (15 + n) \<noteq> 0)" by blast
  have z: "\<not> tkeep (tblocks 0) n" for n by (auto simp: tkeep_def tblocks_def)
  note okD = inode_okD [OF vshrinkD(1,3) [OF r(2)]]
  have "sfi_indirect (sv_i sv') = 0" using r(5,6) z by (auto simp: tblocks_def)
  then have "set (ptrs (lh_sectors st') (sv_i sv')) = {0}" using r(5) z okD(1,2) by (intro ptrs_all_zero) simp_all
  then show thesis using r(1-4) by (intro that) (simp_all add: unat_eq_zero)
qed

section \<open>The last reference\<close>

lemma table_index_from:
  assumes inv: "a_inv (sfs_vnodes st)" and k: "k < length (a_list (sfs_vnodes st))" "a_list (sfs_vnodes st) ! k = v"
    and first: "\<And>j. i \<le> j \<Longrightarrow> j < k \<Longrightarrow> a_list (sfs_vnodes st) ! j \<noteq> v" and i: "i \<le> k"
  shows "table_index v (int i) st = Some (Some (int k))"
  using i first
proof (induction "k - i" arbitrary: i)
  case 0
  then show ?case using k array_getguy_rep [OF a_inv_rep [OF inv], of k] array_getnum_rep [OF a_inv_rep [OF inv]]
    by (subst table_index.simps) simp
next
  case (Suc n)
  have "table_index v (int (Suc i)) st = Some (Some (int k))" using Suc.hyps Suc.prems by (intro Suc.hyps(1)) auto
  moreover have "a_list (sfs_vnodes st) ! i \<noteq> v" using Suc.hyps(2) Suc.prems by auto
  ultimately show ?case
    using Suc.hyps(2) k array_getguy_rep [OF a_inv_rep [OF inv], of i] array_getnum_rep [OF a_inv_rep [OF inv]]
    by (subst table_index.simps) (simp add: add.commute)
qed

lemma table_index_ok:
  assumes inv: "a_inv (sfs_vnodes st)" and d: "distinct (a_list (sfs_vnodes st))" and v: "v \<in> set (a_list (sfs_vnodes st))"
  obtains k where "table_index v 0 st = Some (Some (int k))" "k < length (a_list (sfs_vnodes st))"
    "take k (a_list (sfs_vnodes st)) @ drop (Suc k) (a_list (sfs_vnodes st)) = remove1 v (a_list (sfs_vnodes st))"
proof -
  let ?l = "a_list (sfs_vnodes st)"
  from v obtain k where k: "k < length ?l" "?l ! k = v" by (auto simp: in_set_conv_nth)
  have "table_index v (int 0) st = Some (Some (int k))"
    by (rule table_index_from [OF inv k]) (use d k nth_eq_iff_index_eq [OF d] in auto)
  moreover have l: "?l = take k ?l @ v # drop (Suc k) ?l" using id_take_nth_drop [OF k(1)] unfolding k(2) .
  have "v \<notin> set (take k ?l)" using d by (subst (asm) l) simp
  then have "take k ?l @ drop (Suc k) ?l = remove1 v ?l" by (subst (3) l) (simp add: remove1_append)
  ultimately show thesis using that [of k] k(1) by simp
qed

lemma decref_last:
  assumes wf: "fs_wf st" and sv: "sfs_v st v = Some sv" and ok: "inode_ok st (sv_i sv)"
    and vn: "sv_v sv = \<lparr>vn_ops = Some sfs_fileops, vn_refcount = 1, vn_opencount = 0\<rparr>" and lc: "sfi_linkcount (sv_i sv) = 0"
    and ino: "used st (sv_ino sv)" "sv_ino sv \<noteq> 0" "sv_ino sv \<notin> set (ptrs (lh_sectors st) (sv_i sv))"
    and tab: "a_inv (sfs_vnodes st)" "distinct (a_list (sfs_vnodes st))" "v \<in> set (a_list (sfs_vnodes st))"
  shows "\<exists>st'. VOP_DECREF v st = Some st' \<and> fs_wf st' \<and> sfs_v st' = (sfs_v st)(v := None) \<and>
    a_inv (sfs_vnodes st') \<and> a_list (sfs_vnodes st') = remove1 v (a_list (sfs_vnodes st)) \<and>
    (\<forall>p. used st' p \<longleftrightarrow> used st p \<and> (p = 0 \<or> p \<noteq> sv_ino sv \<and> p \<notin> set (ptrs (lh_sectors st) (sv_i sv)))) \<and>
    (\<forall>p. used st' p \<longrightarrow> lh_sectors st' ! unat p = lh_sectors st ! unat p)"
proof -
  from truncate_zero [OF wf sv ok] obtain st1 sv1 where t: "sfs_truncate v 0 st = Some (EOK, st1)" "vshrink v st sv st1 sv1" "sv_dirty sv1"
    "set (ptrs (lh_sectors st1) (sv_i sv1)) = {0}" .
  note D = vshrinkD [OF t(2)]
  have s: "shrink st (sv_i sv) st1 (sv_i sv1)" and v1: "sv_v sv1 = sv_v sv" "sv_ino sv1 = sv_ino sv" using t(2) by (simp_all add: vshrink_def)
  have u1: "used st1 p \<longleftrightarrow> used st p \<and> (p = 0 \<or> p \<notin> set (ptrs (lh_sectors st) (sv_i sv)))" for p
    using s t(4) by (auto simp: shrink_def)
  have lc1: "sfi_linkcount (sv_i sv1) = 0" using s lc by (simp add: shrink_def)
  have l1: "unat (sv_ino sv) < length (lh_sectors st1)" using used_block [OF D(1), of "sv_ino sv"] u1 ino by simp
  have wf1: "inode_wf (sv_i sv1)" using D(3) by (simp add: inode_ok_def)
  define st2 where "st2 = sv_put v (sv1\<lparr>sv_dirty := False\<rparr>) (dsk_wr (unat (sv_ino sv)) (enc_inode (sv_i sv1)) st1)"
  have sy: "sfs_sync_inode v st1 = Some (EOK, st2)"
    using D(2) t(3) v1(2) wblock_calm [of st1 "sv_ino sv" "enc_inode (sv_i sv1)"] l1 D(1) wf1
    by (simp add: sfs_sync_inode_def st2_def fs_wf_def)
  have wf2: "fs_wf st2" and u2: "used st2 = used st1" using D(1) wf1 by (simp_all add: st2_def)
  have "used st2 (sv_ino sv)" using ino u1 u2 by simp
  with bfree_used [OF wf2] ino(2) obtain fm where fm: "sfs_bfree (sv_ino sv) st2 = Some (st2\<lparr>sfs_freemap := fm, sfs_freemapdirty := True\<rparr>)"
    "fs_wf (st2\<lparr>sfs_freemap := fm, sfs_freemapdirty := True\<rparr>)"
    "\<And>q. used (st2\<lparr>sfs_freemap := fm, sfs_freemapdirty := True\<rparr>) q \<longleftrightarrow> used st2 q \<and> q \<noteq> sv_ino sv" by blast
  define st3 where "st3 = st2\<lparr>sfs_freemap := fm, sfs_freemapdirty := True\<rparr>"
  have tb: "sfs_vnodes st3 = sfs_vnodes st" using D(4) by (simp add: st3_def st2_def base_def)
  with table_index_ok [of st3 v] tab obtain k where k: "table_index v 0 st3 = Some (Some (int k))" "k < length (a_list (sfs_vnodes st))"
    "take k (a_list (sfs_vnodes st)) @ drop (Suc k) (a_list (sfs_vnodes st)) = remove1 v (a_list (sfs_vnodes st))" by auto
  from array_remove_rep [OF a_inv_rep [OF tab(1)] k(2)] obtain tab' where
    r: "array_remove (sfs_vnodes st) (int k) = Some tab'" "a_rep tab' (remove1 v (a_list (sfs_vnodes st)))" using k(3) by auto
  define st4 where "st4 = st3\<lparr>sfs_vnodes := tab', sfs_v := (sfs_v st3)(v := None)\<rparr>"
  have v2: "sfs_v st2 v = Some (sv1\<lparr>sv_dirty := False\<rparr>)" by (simp add: st2_def)
  have "VOP_TRUNCATE v 0 st = Some (EOK, st1)" using t(1) sv vn by (simp add: VOP_TRUNCATE_def vop_ops_def vnode_check_def)
  then have "sfs_reclaim v st = Some (EOK, st4)"
    using sv vn lc sy v2 lc1 v1 fm(1) k(1) r(1) tb by (simp add: sfs_reclaim_def st3_def [symmetric] st4_def vnode_kill_def)
  moreover have "sv_put v (sv\<lparr>sv_v := sv_v sv\<rparr>) st = st" using sv by (simp add: fun_upd_idem)
  ultimately have "VOP_DECREF v st = Some st4" using sv vn by (simp add: VOP_DECREF_def vnode_decref_def vnode_check_def Let_def)
  moreover have "fs_wf st4" using fm(2) unfolding st4_def st3_def [symmetric] by (simp add: fs_wf_def calm_def lhd_ok_def used_def)
  moreover have u4: "used st4 p \<longleftrightarrow> used st p \<and> (p = 0 \<or> p \<noteq> sv_ino sv \<and> p \<notin> set (ptrs (lh_sectors st) (sv_i sv)))" for p
    using fm(3) [of p] u1 [of p] u2 ino(2) unfolding st4_def st3_def [symmetric] by (auto simp: used_def)
  moreover have "lh_sectors st4 ! unat p = lh_sectors st ! unat p" if "used st4 p" for p
  proof -
    have p: "p = 0 \<or> p \<noteq> sv_ino sv \<and> p \<notin> set (ptrs (lh_sectors st) (sv_i sv))" using u4 that by blast
    then have np: "unat p \<noteq> unat (sv_ino sv)" using ino(2) by (auto simp: word_unat_eq_iff [symmetric])
    have "unat p = 0 \<or> unat p \<noteq> unat (sfi_indirect (sv_i sv))" using p by (auto simp: ptrs_def word_unat_eq_iff [symmetric])
    from shrink_sector [OF s this] np show ?thesis by (simp add: st4_def st3_def st2_def)
  qed
  moreover have "sfs_v st4 = (sfs_v st)(v := None)" using D(5) by (simp add: st4_def st3_def st2_def)
  moreover have "a_inv (sfs_vnodes st4) \<and> a_list (sfs_vnodes st4) = remove1 v (a_list (sfs_vnodes st))"
    using r(2) by (simp add: st4_def a_rep_inv a_rep_list)
  ultimately show ?thesis by blast
qed

section \<open>Properties\<close>

text \<open>C21. \<^verbatim>\<open>sfs_truncate\<close> to any length the 32-bit block computation can represent succeeds on a fault-free
  disk. The file gets that length; of its blocks it keeps those below the new length, unchanged, and,
  because of a comparison with the wrong operator, also the one right behind it if that block is reached
  through the indirect block. What it does not keep reads as zeros, and exactly the blocks the inode no
  longer points to become free. File system and inode stay well-formed.\<close>

theorem sfs_truncate_exact:
  assumes "fs_wf st" and "sfs_v st v = Some sv" and "inode_ok st (sv_i sv)" and "0 \<le> len" and "len + 512 < 2 ^ 31"
  shows "\<exists>st' sv'. sfs_truncate v len st = Some (EOK, st') \<and> sfs_v st' = (sfs_v st)(v \<mapsto> sv') \<and> fs_wf st' \<and> inode_ok st' (sv_i sv') \<and>
    sv_dirty sv' \<and> unat (sfi_size (sv_i sv')) = nat len \<and>
    (\<forall>k. fbyte (lh_sectors st') (sv_i sv') k = (if tkeep (tblocks len) (k div 512) then fbyte (lh_sectors st) (sv_i sv) k else 0)) \<and>
    (\<forall>p. used st' p \<longleftrightarrow> used st p \<and>
      (p = 0 \<or> p \<notin> set (ptrs (lh_sectors st) (sv_i sv)) \<or> p \<in> set (ptrs (lh_sectors st') (sv_i sv'))))"
proof -
  from truncate_lemma [OF assms] obtain st' sv' where r: "sfs_truncate v len st = Some (EOK, st')" "vshrink v st sv st' sv'"
    "unat (sfi_size (sv_i sv')) = nat len" "sv_dirty sv'"
    "\<And>n. fmap (lh_sectors st') (sv_i sv') n = (if tkeep (tblocks len) n then fmap (lh_sectors st) (sv_i sv) n else 0)" by blast
  have s: "shrink st (sv_i sv) st' (sv_i sv')" using r(2) by (simp add: vshrink_def)
  note b = truncate_bytes [OF assms(1,3) s r(5)]
  show ?thesis
    by (intro exI [of _ st'] exI [of _ sv'] conjI allI b r(1,3,4) vshrinkD [OF r(2)]) (use s in \<open>auto simp: shrink_def\<close>)
qed

theorem sfs_truncate_exact_witness:
  "\<exists>st' sv'. sfs_truncate 1 0 ex_fs = Some (EOK, st') \<and> sfs_v st' 1 = Some sv' \<and> unat (sfi_size (sv_i sv')) = 0"
proof -
  let ?f = "ex_vnode 3 4 SFS_TYPE_FILE"
  have i: "inode_ok ex_fs (sv_i ?f)" by (simp add: ex_vnode_def ex_fs_inode)
  have "(0 :: int) \<le> 0" "(0 :: int) + 512 < 2 ^ 31" by simp_all
  from sfs_truncate_exact [OF ex_fs_wf ex_fs_files(2) i this] show ?thesis by (auto simp del: One_nat_def)
qed

text \<open>C22. The last reference to a file that has no name left erases it. \<^verbatim>\<open>VOP_DECREF\<close> on such a vnode, through
  \<^verbatim>\<open>vnode_decref\<close>, \<^verbatim>\<open>sfs_reclaim\<close>, \<^verbatim>\<open>sfs_truncate\<close> and \<^verbatim>\<open>sfs_sync_inode\<close>, does not panic; it takes the vnode
  out of the table and frees it, and the blocks that become free are exactly those of the file with its
  indirect block and its inode. Every block still in use keeps its contents.\<close>

theorem VOP_DECREF_erases:
  assumes "fs_wf st" and "sfs_v st v = Some sv" and "inode_ok st (sv_i sv)"
    and "sv_v sv = \<lparr>vn_ops = Some sfs_fileops, vn_refcount = 1, vn_opencount = 0\<rparr>" and "sfi_linkcount (sv_i sv) = 0"
    and "used st (sv_ino sv)" and "sv_ino sv \<noteq> 0" and "sv_ino sv \<notin> set (ptrs (lh_sectors st) (sv_i sv))"
    and "a_inv (sfs_vnodes st)" and "distinct (a_list (sfs_vnodes st))" and "v \<in> set (a_list (sfs_vnodes st))"
  shows "\<exists>st'. VOP_DECREF v st = Some st' \<and> fs_wf st' \<and> sfs_v st' = (sfs_v st)(v := None) \<and>
    a_inv (sfs_vnodes st') \<and> a_list (sfs_vnodes st') = remove1 v (a_list (sfs_vnodes st)) \<and>
    (\<forall>p. used st' p \<longleftrightarrow> used st p \<and> (p = 0 \<or> p \<noteq> sv_ino sv \<and> p \<notin> set (ptrs (lh_sectors st) (sv_i sv)))) \<and>
    (\<forall>p. used st' p \<longrightarrow> lh_sectors st' ! unat p = lh_sectors st ! unat p)"
  by (rule decref_last [OF assms])

theorem VOP_DECREF_erases_witness:
  defines "sv \<equiv> (ex_vnode 3 4 SFS_TYPE_FILE)\<lparr>sv_i := (ex_inode 4 SFS_TYPE_FILE)\<lparr>sfi_linkcount := 0\<rparr>\<rparr>"
  shows "\<exists>st'. VOP_DECREF 1 (sv_put 1 sv ex_fs) = Some st' \<and> \<not> used st' 3 \<and> \<not> used st' 4 \<and> sfs_v st' 1 = None"
proof -
  let ?st = "sv_put 1 sv ex_fs"
  have ps: "ptrs (lh_sectors ?st) (sv_i sv) = ptrs (lh_sectors ex_fs) (ex_inode 4 SFS_TYPE_FILE)" by (simp add: sv_def ptrs_def idx_def)
  have i: "inode_ok ?st (sv_i sv)"
    using ex_fs_inode [of 4 SFS_TYPE_FILE] unfolding inode_ok_def ps by (simp add: sv_def inode_wf_def)
  have p: "4 \<in> set (ptrs (lh_sectors ?st) (sv_i sv))" "3 \<notin> set (ptrs (lh_sectors ?st) (sv_i sv))"
    unfolding ps by (simp_all add: ptrs_def idx_def ex_inode_def)
  have u: "used ?st (sv_ino sv)" by (simp add: sv_def ex_vnode_def used_def ex_fs_def b_bits_def b_bit_def bit_simps)
  have t: "a_list (sfs_vnodes ?st) = [0, 1]" "a_inv (sfs_vnodes ?st)"
    by (simp_all add: ex_fs_def a_list_def a_cells_def a_inv_def a_rep_def a_wf_def numeral_2_eq_2)
  have v: "sfs_v ?st 1 = Some sv" "fs_wf ?st" using ex_fs_wf by simp_all
  have n: "sv_ino sv = 3" "sv_v sv = \<lparr>vn_ops = Some sfs_fileops, vn_refcount = 1, vn_opencount = 0\<rparr>" "sfi_linkcount (sv_i sv) = 0"
    by (simp_all add: sv_def ex_vnode_def SFS_TYPE_FILE_def SFS_TYPE_DIR_def)
  have "\<exists>st'. VOP_DECREF 1 ?st = Some st' \<and> fs_wf st' \<and> sfs_v st' = (sfs_v ?st)(1 := None) \<and>
    a_inv (sfs_vnodes st') \<and> a_list (sfs_vnodes st') = remove1 1 (a_list (sfs_vnodes ?st)) \<and>
    (\<forall>p. used st' p \<longleftrightarrow> used ?st p \<and> (p = 0 \<or> p \<noteq> sv_ino sv \<and> p \<notin> set (ptrs (lh_sectors ?st) (sv_i sv)))) \<and>
    (\<forall>p. used st' p \<longrightarrow> lh_sectors st' ! unat p = lh_sectors ?st ! unat p)"
    by (rule VOP_DECREF_erases [OF v(2,1) i n(2,3) u _ _ t(2)]) (use p(2) n(1) t(1) in simp_all)
  then show ?thesis using p(1) n(1) by (elim ex_forward) auto
qed

end
