(* ===== verification/Libc_Mem.thy ===== *)
theory Libc_Mem
  imports Prelude
begin

text \<open>
  The memory functions of \<^verbatim>\<open>src/src/lib/libc\<close>, which the kernel shares: \<^verbatim>\<open>memcpy.c\<close>, \<^verbatim>\<open>memmove.c\<close>,
  \<^verbatim>\<open>bzero.c\<close>, \<^verbatim>\<open>memset.c\<close> and \<^verbatim>\<open>memcmp.c\<close>.

  Memory is a function from 32-bit addresses to bytes. Each function returns what the C function returns and
  the memory it leaves. A \<^verbatim>\<open>long\<close> is four bytes, read before any of the four is written.
\<close>

section \<open>The code\<close>

type_synonym mem = "u32 \<Rightarrow> u8"

definition copy_char :: "u32 \<Rightarrow> u32 \<Rightarrow> mem \<Rightarrow> mem" where
  "copy_char d s m = m(d := m s)"

definition copy_long :: "u32 \<Rightarrow> u32 \<Rightarrow> mem \<Rightarrow> mem" where
  "copy_long d s m = m(d := m s, d + 1 := m (s + 1), d + 2 := m (s + 2), d + 3 := m (s + 3))"

definition memcpy :: "u32 \<Rightarrow> u32 \<Rightarrow> u32 \<Rightarrow> mem \<Rightarrow> u32 \<times> mem" where
  "memcpy dst src len m =
     (if dst mod 4 = 0 \<and> src mod 4 = 0 \<and> len mod 4 = 0
      then (dst, foldl (\<lambda>m i. copy_long (dst + of_nat (i * 4)) (src + of_nat (i * 4)) m) m [0..<unat (len div 4)])
      else (dst, foldl (\<lambda>m i. copy_char (dst + of_nat (i * 1)) (src + of_nat (i * 1)) m) m [0..<unat len]))"

definition memmove :: "u32 \<Rightarrow> u32 \<Rightarrow> u32 \<Rightarrow> mem \<Rightarrow> u32 \<times> mem" where
  "memmove dst src len m =
     (if dst < src then memcpy dst src len m
      else if dst mod 4 = 0 \<and> src mod 4 = 0 \<and> len mod 4 = 0
      then (dst, foldl (\<lambda>m i. copy_long (dst + of_nat (i * 4)) (src + of_nat (i * 4)) m) m (rev [0..<unat (len div 4)]))
      else (dst, foldl (\<lambda>m i. copy_char (dst + of_nat (i * 1)) (src + of_nat (i * 1)) m) m (rev [0..<unat len])))"

definition set_long :: "u32 \<Rightarrow> u8 \<Rightarrow> mem \<Rightarrow> mem" where
  "set_long d v m = m(d := v, d + 1 := v, d + 2 := v, d + 3 := v)"

definition bzero :: "u32 \<Rightarrow> u32 \<Rightarrow> mem \<Rightarrow> mem" where
  "bzero block len m =
     (if block mod 4 = 0 \<and> len mod 4 = 0
      then foldl (\<lambda>m i. set_long (block + of_nat (i * 4)) 0 m) m [0..<unat (len div 4)]
      else foldl (\<lambda>m i. m(block + of_nat i := 0)) m [0..<unat len])"

definition memset :: "u32 \<Rightarrow> int \<Rightarrow> u32 \<Rightarrow> mem \<Rightarrow> u32 \<times> mem" where
  "memset ptr ch len m = (ptr, foldl (\<lambda>m i. m(ptr + of_nat i := of_int ch)) m [0..<unat len])"

definition memcmp :: "u32 \<Rightarrow> u32 \<Rightarrow> u32 \<Rightarrow> mem \<Rightarrow> int" where
  "memcmp a b len m =
     (case find (\<lambda>i. m (a + of_nat i) \<noteq> m (b + of_nat i)) [0..<unat len] of
        None \<Rightarrow> 0
      | Some i \<Rightarrow> int (unat (m (a + of_nat i))) - int (unat (m (b + of_nat i))))"

section \<open>Copying in units\<close>

declare of_nat_mult [simp del]

text \<open>\<open>copied d s n m\<close>: the \<open>n\<close> bytes from \<open>s\<close> on, as they are in \<open>m\<close>, stand at \<open>d\<close>.\<close>

definition copied :: "u32 \<Rightarrow> u32 \<Rightarrow> nat \<Rightarrow> mem \<Rightarrow> mem" where
  "copied d s n m = (\<lambda>x. if unat (x - d) < n then m (x - d + s) else m x)"

lemma offset_window:
  assumes "n + u \<le> 2 ^ 32"
  shows "unat (x - (d + of_nat n) :: u32) < u \<longleftrightarrow> n \<le> unat (x - d) \<and> unat (x - d) < n + u"
proof -
  define k where "k = unat (x - d)"
  have x: "x - (d + of_nat n) = of_nat k - of_nat n" by (simp add: k_def algebra_simps)
  have k32: "k < 2 ^ 32" unfolding k_def by (rule unat_u32_less)
  show ?thesis
  proof (cases "n \<le> k")
    case True
    then have "(of_nat k - of_nat n :: u32) = of_nat (k - n)" by (simp add: of_nat_diff)
    then have "unat (of_nat k - of_nat n :: u32) = k - n" using k32 by (simp add: unat_of_nat)
    then show ?thesis using True unfolding x k_def [symmetric] by linarith
  next
    case False
    have "(of_nat (2 ^ 32 + k - n) :: u32) + of_nat n = of_nat (2 ^ 32 + k)" using assms by (simp flip: of_nat_add)
    also have "\<dots> = of_nat k" by simp
    finally have "(of_nat k - of_nat n :: u32) = of_nat (2 ^ 32 + k - n)" by (simp add: algebra_simps)
    moreover have "2 ^ 32 + k - n < 2 ^ 32" using False by simp
    ultimately have "unat (of_nat k - of_nat n :: u32) = 2 ^ 32 + k - n" by (simp add: unat_of_nat)
    then show ?thesis using False assms unfolding x k_def [symmetric] by simp
  qed
qed

text \<open>An operation that copies \<open>u\<close> bytes at a time.\<close>

locale unit_copy =
  fixes cp :: "u32 \<Rightarrow> u32 \<Rightarrow> mem \<Rightarrow> mem" and u :: nat
  assumes cp: "cp d s m = copied d s u m"
begin

lemma step:
  assumes "\<And>k. n * u \<le> k \<Longrightarrow> k < n * u + u \<Longrightarrow> m' (s + of_nat k) = m (s + of_nat k)" and "n * u + u \<le> 2 ^ 32"
  shows "cp (d + of_nat (n * u)) (s + of_nat (n * u)) m' x =
    (if n * u \<le> unat (x - d) \<and> unat (x - d) < n * u + u then m (x - d + s) else m' x)"
proof -
  have "x - (d + of_nat (n * u)) + (s + of_nat (n * u)) = s + of_nat (unat (x - d))" "s + of_nat (unat (x - d)) = x - d + s" by simp_all
  then show ?thesis using assms(1) [of "unat (x - d)"] offset_window [OF assms(2), of x d] unfolding cp copied_def by metis
qed

lemma forward:
  assumes "d < s" and "unat s + len \<le> 2 ^ 32"
  shows "n * u \<le> len \<Longrightarrow> foldl (\<lambda>m i. cp (d + of_nat (i * u)) (s + of_nat (i * u)) m) m [0..<n] = copied d s (n * u) m"
proof (induction n)
  case 0
  then show ?case by (simp add: copied_def fun_eq_iff)
next
  case (Suc n)
  have "copied d s (n * u) m (s + of_nat k) = m (s + of_nat k)" if "n * u \<le> k" "k < n * u + u" for k
  proof -
    have "unat (s + of_nat k) = unat s + k" using that Suc.prems assms(2) by (simp add: unat_word_ariths(1) unat_of_nat)
    then have "unat (s + of_nat k - d) = unat s + k - unat d" using assms(1) by (subst unat_sub) (auto simp: word_le_nat_alt word_less_nat_alt)
    then have "\<not> unat (s + of_nat k - d) < n * u" using assms(1) that(1) by (simp add: word_less_nat_alt)
    then show ?thesis by (simp add: copied_def)
  qed
  moreover have "n * u + u \<le> 2 ^ 32" using Suc.prems assms(2) by simp
  moreover have "foldl (\<lambda>m i. cp (d + of_nat (i * u)) (s + of_nat (i * u)) m) m [0..<n] = copied d s (n * u) m" using Suc by simp
  ultimately show ?case by (auto simp: step copied_def fun_eq_iff)
qed

lemma backward:
  assumes "s \<le> d" and "unat d + N * u \<le> 2 ^ 32"
  shows "n \<le> N \<Longrightarrow> foldl (\<lambda>m i. cp (d + of_nat (i * u)) (s + of_nat (i * u)) m) m (rev [N - n..<N]) =
    (\<lambda>x. if (N - n) * u \<le> unat (x - d) \<and> unat (x - d) < N * u then m (x - d + s) else m x)"
proof (induction n)
  case 0
  then show ?case by (auto simp: fun_eq_iff)
next
  case (Suc n)
  define i where "i = N - Suc n"
  have i: "N - n = Suc i" "i < N" using Suc.prems by (simp_all add: i_def)
  let ?m = "\<lambda>x. if Suc i * u \<le> unat (x - d) \<and> unat (x - d) < N * u then m (x - d + s) else m x"
  have top: "i * u + u \<le> N * u" using mult_le_mono1 [of "Suc i" N u] i(2) by simp
  have "?m (s + of_nat k) = m (s + of_nat k)" if k: "i * u \<le> k" "k < i * u + u" for k
  proof -
    have a: "unat (s + of_nat k) = unat s + k" using k top assms by (simp add: unat_word_ariths(1) unat_of_nat word_le_nat_alt)
    have "\<not> (Suc i * u \<le> unat (s + of_nat k - d) \<and> unat (s + of_nat k - d) < N * u)"
    proof (cases "d \<le> s + of_nat k")
      case True
      then have "unat (s + of_nat k - d) = unat s + k - unat d" using a by (simp add: unat_sub)
      then show ?thesis using k assms(1) unfolding word_le_nat_alt mult_Suc by linarith
    next
      case False
      then have "unat (s + of_nat k - d) = 2 ^ 32 + (unat s + k) - unat d"
        using a unat_sub_if_size [of "s + of_nat k" d] by (simp add: word_le_nat_alt word_size)
      then show ?thesis using assms(2) by linarith
    qed
    then show ?thesis by (rule if_not_P)
  qed
  moreover have "i * u + u \<le> 2 ^ 32" using top assms(2) by simp
  moreover have "rev [i..<N] = rev [Suc i..<N] @ [i]" using i(2) by (simp add: upt_conv_Cons)
  moreover have "foldl (\<lambda>m i. cp (d + of_nat (i * u)) (s + of_nat (i * u)) m) m (rev [Suc i..<N]) = ?m" using Suc i by simp
  ultimately show ?case using top unfolding i_def [symmetric] by (auto simp: step [where m = m] fun_eq_iff)
qed

end

lemma copy_char_copied: "copy_char d s m = copied d s 1 m"
proof
  show "copy_char d s m x = copied d s 1 m x" for x
    by (cases "x = d") (simp_all add: copy_char_def copied_def unat_eq_zero)
qed

lemma copy_long_copied: "copy_long d s m = copied d s 4 m"
proof
  fix x
  have "unat (x - d) < 4 \<longleftrightarrow> x - d \<in> {0, 1, 2, 3}" by (auto simp: word_unat_eq_iff)
  moreover have "x - d = k \<longleftrightarrow> x = d + k" for k by (auto simp: algebra_simps)
  ultimately have "unat (x - d) < 4 \<longleftrightarrow> x = d \<or> x = d + 1 \<or> x = d + 2 \<or> x = d + 3" by auto
  moreover have "(1 :: u32) \<noteq> 0" "(2 :: u32) \<noteq> 0" "(3 :: u32) \<noteq> 0" "(1 :: u32) \<noteq> 2" "(1 :: u32) \<noteq> 3" "(2 :: u32) \<noteq> 3"
    by (simp_all add: word_unat_eq_iff)
  ultimately show "copy_long d s m x = copied d s 4 m x" by (auto simp: copy_long_def copied_def add.commute)
qed

interpretation char: unit_copy copy_char 1
  by unfold_locales (rule copy_char_copied)

interpretation long: unit_copy copy_long 4
  by unfold_locales (rule copy_long_copied)

lemma long_count: "len mod 4 = 0 \<Longrightarrow> unat (len div 4 :: u32) * 4 = unat len"
proof -
  assume "len mod 4 = 0"
  then have "unat (len mod 4) = 0" by simp
  then have "unat len mod 4 = 0" by (simp add: unat_mod)
  then show ?thesis by (simp add: unat_div dvd_div_mult_self mod_eq_0_iff_dvd)
qed

text \<open>What \<^verbatim>\<open>memmove\<close> needs \<^verbatim>\<open>memcpy\<close> to do: a forward copy to a lower address.\<close>

lemma memcpy_down:
  assumes "dst < src" and "unat src + unat len \<le> 2 ^ 32"
  shows "memcpy dst src len m = (dst, copied dst src (unat len) m)"
  using char.forward [OF assms, of "unat len" m] long.forward [OF assms, of "unat (len div 4)" m] long_count [of len]
  by (simp add: memcpy_def)

lemma memmove_up:
  assumes "src \<le> dst" and "unat dst + unat len \<le> 2 ^ 32"
  shows "memmove dst src len m = (dst, copied dst src (unat len) m)"
  using char.backward [of src dst "unat len" "unat len" m] long.backward [of src dst "unat (len div 4)" "unat (len div 4)" m]
    assms long_count [of len] leD [OF assms(1)]
  by (simp add: memmove_def copied_def)

lemma memmove_copied:
  assumes "unat dst + unat len \<le> 2 ^ 32" and "unat src + unat len \<le> 2 ^ 32"
  shows "memmove dst src len m = (dst, copied dst src (unat len) m)"
proof (cases "dst < src")
  case True
  then show ?thesis using memcpy_down [OF True assms(2)] by (simp add: memmove_def)
next
  case False
  then show ?thesis using assms(1) by (intro memmove_up) simp_all
qed

lemma copied_in: "i < n \<Longrightarrow> n \<le> 2 ^ 32 \<Longrightarrow> copied dst src n m (dst + of_nat i) = m (src + of_nat i)"
proof -
  assume i: "i < n" "n \<le> 2 ^ 32"
  then have "unat (dst + of_nat i - dst) = i" by (simp add: unat_of_nat)
  moreover have "dst + of_nat i - dst + src = src + of_nat i" by simp
  ultimately show ?thesis using i(1) unfolding copied_def by presburger
qed

lemma copied_out: "unat dst + n \<le> 2 ^ 32 \<Longrightarrow> unat x < unat dst \<or> unat dst + n \<le> unat x \<Longrightarrow> copied dst src n m x = m x"
  using unat_sub_if_size [of x dst] by (auto simp: copied_def word_size word_le_nat_alt split: if_splits)

text \<open>Filling in units.\<close>

definition filled :: "u32 \<Rightarrow> u8 \<Rightarrow> nat \<Rightarrow> mem \<Rightarrow> mem" where
  "filled d v n m = (\<lambda>x. if unat (x - d) < n then v else m x)"

lemma fill_units:
  assumes "\<And>d m. st d m = filled d v u m"
  shows "n * u \<le> 2 ^ 32 \<Longrightarrow> foldl (\<lambda>m i. st (d + of_nat (i * u)) m) m [0..<n] = filled d v (n * u) m"
proof (induction n)
  case 0
  then show ?case by (simp add: filled_def fun_eq_iff)
next
  case (Suc n)
  then have "foldl (\<lambda>m i. st (d + of_nat (i * u)) m) m [0..<n] = filled d v (n * u) m" "n * u + u \<le> 2 ^ 32" by simp_all
  then show ?case by (auto simp: assms filled_def fun_eq_iff offset_window)
qed

lemma set_byte_filled: "m(d := v) = filled d v 1 m"
  by (auto simp: filled_def fun_eq_iff unat_eq_zero)

lemma set_long_filled: "set_long d v m = filled d v 4 m"
proof
  fix x
  have "unat (x - d) < 4 \<longleftrightarrow> x - d \<in> {0, 1, 2, 3}" by (auto simp: word_unat_eq_iff)
  moreover have "x - d = k \<longleftrightarrow> x = d + k" for k by (auto simp: algebra_simps)
  ultimately have "unat (x - d) < 4 \<longleftrightarrow> x = d \<or> x = d + 1 \<or> x = d + 2 \<or> x = d + 3" by auto
  then show "set_long d v m x = filled d v 4 m x" by (auto simp: set_long_def filled_def)
qed

lemma len_bound: "unat (len :: u32) * 1 \<le> 2 ^ 32" "unat (len div 4 :: u32) * 4 \<le> 2 ^ 32"
  using unat_u32_less(1) [of len] by (simp_all add: unat_div)

lemma bzero_filled: "bzero block len m = filled block 0 (unat len) m"
  using fill_units [where v = 0 and d = block and m = m, OF set_byte_filled len_bound(1) [of len]]
    fill_units [where v = 0 and d = block and m = m, OF set_long_filled len_bound(2) [of len]] long_count [of len]
  by (simp add: bzero_def)

lemma memset_filled: "memset ptr ch len m = (ptr, filled ptr (of_int ch) (unat len) m)"
  using fill_units [where v = "of_int ch" and d = ptr and m = m, OF set_byte_filled len_bound(1) [of len]] by (simp add: memset_def)

lemma memcmp_zero: "memcmp a b len m = 0 \<longleftrightarrow> (\<forall>i<unat len. m (a + of_nat i) = m (b + of_nat i))"
  by (auto simp: memcmp_def find_None_iff find_Some_iff word_uint_eq_iff split: option.splits)

section \<open>Properties\<close>

text \<open>C28. \<^verbatim>\<open>memmove\<close> copies as if through a temporary buffer, whichever way the two ranges overlap and whether it goes
  by words or by bytes: every byte of the target range is the byte the source had before the call, and nothing else
  changes. Neither range rolls over the top of memory, as the code assumes.\<close>

theorem memmove_copies:
  assumes "unat dst + unat len \<le> 2 ^ 32" and "unat src + unat len \<le> 2 ^ 32"
  shows "\<exists>m'. memmove dst src len m = (dst, m') \<and> (\<forall>i<unat len. m' (dst + of_nat i) = m (src + of_nat i)) \<and>
    (\<forall>x. unat x < unat dst \<or> unat dst + unat len \<le> unat x \<longrightarrow> m' x = m x)"
  using memmove_copied [OF assms, of m] copied_in [of _ "unat len" dst src m] copied_out [OF assms(1), of _ src m] unat_u32_less(1) [of len]
  by (intro exI [of _ "copied dst src (unat len) m"]) simp

theorem memmove_copies_witness:
  "\<exists>m'. memmove 0x1001 0x1000 7 (\<lambda>x. ucast x) = (0x1001, m') \<and> m' 0x1007 = 6 \<and> m' 0x1001 = 0 \<and> m' 0x1008 = 8"
proof -
  obtain m' where m: "memmove 0x1001 0x1000 7 (\<lambda>x. ucast x) = (0x1001, m')" "\<forall>i<7. m' (0x1001 + of_nat i) = ucast (0x1000 + of_nat i :: u32)"
    "\<forall>x. unat x < 0x1001 \<or> 0x1008 \<le> unat x \<longrightarrow> m' x = ucast x"
    using memmove_copies [of "0x1001" 7 "0x1000" "\<lambda>x. ucast x"] by auto
  have "m' 0x1007 = 6" "m' 0x1001 = 0" "m' 0x1008 = 8"
    using m(2) [rule_format, of 6] m(2) [rule_format, of 0] m(3) [rule_format, of "0x1008"] by simp_all
  then show ?thesis using m(1) by blast
qed

end
