(* ===== verification/Libc_Str.thy ===== *)
theory Libc_Str
  imports Libc_Mem
begin

text \<open>
  The string functions of \<^verbatim>\<open>src/src/lib/libc\<close>, which the kernel shares: \<^verbatim>\<open>strlen.c\<close>, \<^verbatim>\<open>strchr.c\<close>, \<^verbatim>\<open>strrchr.c\<close>,
  \<^verbatim>\<open>strcmp.c\<close>, \<^verbatim>\<open>strcpy.c\<close>, \<^verbatim>\<open>strcat.c\<close>, \<^verbatim>\<open>strtok_r.c\<close> and \<^verbatim>\<open>atoi.c\<close>.

  A string is read through a function from indices to bytes, \<open>cstring\<close>: \<open>at m a\<close> for the bytes of memory from \<open>a\<close> on,
  \<open>lit\<close> for a literal. A function that looks for the terminator returns \<open>None\<close> when there is none. Pointers
  into a string are returned as indices.
\<close>

section \<open>The code\<close>

type_synonym cstring = "nat \<Rightarrow> u8"

definition lit :: "u8 list \<Rightarrow> cstring" where
  "lit xs i = (if i < length xs then xs ! i else 0)"

definition at :: "mem \<Rightarrow> u32 \<Rightarrow> cstring" where
  "at m a i = m (a + of_nat i)"

partial_function (option) strlen_loop :: "cstring \<Rightarrow> nat \<Rightarrow> nat option" where
  "strlen_loop s ret = (if s ret \<noteq> 0 then strlen_loop s (ret + 1) else Some ret)"

definition strlen :: "cstring \<Rightarrow> nat option" where
  "strlen s = strlen_loop s 0"

partial_function (option) strchr_loop :: "cstring \<Rightarrow> u8 \<Rightarrow> nat \<Rightarrow> nat option option" where
  "strchr_loop s ch i =
     (if s i \<noteq> 0 then (if s i = ch then Some (Some i) else strchr_loop s ch (i + 1))
      else if s i = ch then Some (Some i) else Some None)"

definition strchr :: "cstring \<Rightarrow> u8 \<Rightarrow> nat option option" where
  "strchr s ch = strchr_loop s ch 0"

fun strrchr_loop :: "cstring \<Rightarrow> u8 \<Rightarrow> nat \<Rightarrow> nat option" where
  "strrchr_loop s ch 0 = None"
| "strrchr_loop s ch (Suc i) = (if s i = ch then Some i else strrchr_loop s ch i)"

definition strrchr :: "cstring \<Rightarrow> u8 \<Rightarrow> nat option option" where
  "strrchr s ch = do { n \<leftarrow> strlen s; Some (strrchr_loop s ch (n + 1)) }"

partial_function (option) strcmp_loop :: "cstring \<Rightarrow> cstring \<Rightarrow> nat \<Rightarrow> nat option" where
  "strcmp_loop a b i = (if a i \<noteq> 0 \<and> a i = b i then strcmp_loop a b (i + 1) else Some i)"

text \<open>The comparison is that of \<^verbatim>\<open>char\<close>, a signed type.\<close>

definition strcmp :: "cstring \<Rightarrow> cstring \<Rightarrow> int option" where
  "strcmp a b = do {
     i \<leftarrow> strcmp_loop a b 0;
     Some (if sint (a i) > sint (b i) then 1 else if a i = b i then 0 else -1)
   }"

partial_function (option) strcpy_loop :: "u32 \<Rightarrow> (mem \<Rightarrow> cstring) \<Rightarrow> nat \<Rightarrow> mem \<Rightarrow> mem option" where
  "strcpy_loop dest src i m =
     (if src m i \<noteq> 0 then strcpy_loop dest src (i + 1) (m(dest + of_nat i := src m i))
      else Some (m(dest + of_nat i := 0)))"

definition strcpy :: "u32 \<Rightarrow> (mem \<Rightarrow> cstring) \<Rightarrow> mem \<Rightarrow> mem option" where
  "strcpy dest src m = strcpy_loop dest src 0 m"

definition strcat :: "u32 \<Rightarrow> (mem \<Rightarrow> cstring) \<Rightarrow> mem \<Rightarrow> mem option" where
  "strcat dest src m = do { offset \<leftarrow> strlen (at m dest); strcpy (dest + of_nat offset) src m }"

text \<open>\<^verbatim>\<open>strtok_r\<close>: \<open>context\<close> is the saved pointer, 0 for \<^verbatim>\<open>NULL\<close>; the result is the start of the word.\<close>

partial_function (option) skip_seps :: "cstring \<Rightarrow> mem \<Rightarrow> u32 \<Rightarrow> u32 option" where
  "skip_seps seps m head =
     (if m head \<noteq> 0 then do { w \<leftarrow> strchr seps (m head); if w \<noteq> None then skip_seps seps m (head + 1) else Some head }
      else Some head)"

partial_function (option) skip_word :: "cstring \<Rightarrow> mem \<Rightarrow> u32 \<Rightarrow> u32 option" where
  "skip_word seps m tail =
     (if m tail \<noteq> 0 then do { w \<leftarrow> strchr seps (m tail); if w = None then skip_word seps m (tail + 1) else Some tail }
      else Some tail)"

definition strtok_r :: "u32 \<Rightarrow> cstring \<Rightarrow> u32 \<Rightarrow> mem \<Rightarrow> (u32 \<times> u32 \<times> mem) option" where
  "strtok_r string seps ctxt m =
     (let head = (if string \<noteq> 0 then string else ctxt) in
      if head = 0 then Some (0, head, m)
      else do {
        head \<leftarrow> skip_seps seps m head;
        if m head = 0 then Some (0, 0, m)
        else do {
          tail \<leftarrow> skip_word seps m head;
          Some (if m tail = 0 then (head, 0, m) else (head, tail + 1, m(tail := 0)))
        }
      })"

definition digits10 :: "u8 list" where
  "digits10 = [48, 49, 50, 51, 52, 53, 54, 55, 56, 57]"

partial_function (option) skip_blanks :: "cstring \<Rightarrow> nat \<Rightarrow> nat option" where
  "skip_blanks s i = (if s i = 32 \<or> s i = 9 then skip_blanks s (i + 1) else Some i)"

partial_function (option) atoi_loop :: "cstring \<Rightarrow> nat \<Rightarrow> u32 \<Rightarrow> u32 option" where
  "atoi_loop s i val =
     (if s i \<noteq> 0 then
        do {
          w \<leftarrow> strchr (lit digits10) (s i);
          (case w of None \<Rightarrow> Some val | Some digit \<Rightarrow> atoi_loop s (i + 1) (val * 10 + of_nat digit))
        }
      else Some val)"

definition atoi :: "cstring \<Rightarrow> int option" where
  "atoi s = do {
     i \<leftarrow> skip_blanks s 0;
     let neg = (s i = 45);
     val \<leftarrow> atoi_loop s (if neg then i + 1 else i) 0;
     Some (if neg then sint (- val) else sint val)
   }"

declare strlen_loop.simps [code] strchr_loop.simps [code] strcmp_loop.simps [code] strcpy_loop.simps [code]
  skip_seps.simps [code] skip_word.simps [code] skip_blanks.simps [code] atoi_loop.simps [code]

section \<open>Terminated strings\<close>

text \<open>\<open>holds s xs\<close>: the string is \<open>xs\<close>, followed by its terminator.\<close>

definition holds :: "cstring \<Rightarrow> u8 list \<Rightarrow> bool" where
  "holds s xs \<longleftrightarrow> 0 \<notin> set xs \<and> (\<forall>i<length xs. s i = xs ! i) \<and> s (length xs) = 0"

lemma holds_lit: "0 \<notin> set xs \<Longrightarrow> holds (lit xs) xs"
  by (simp add: holds_def lit_def)

lemma holds_nonzero: "holds s xs \<Longrightarrow> i < length xs \<Longrightarrow> s i = xs ! i \<and> xs ! i \<noteq> 0"
  unfolding holds_def by (metis nth_mem)

lemma holds_end: "holds s xs \<Longrightarrow> s (length xs) = 0"
  by (simp add: holds_def)

lemma strlen_holds: "holds s xs \<Longrightarrow> strlen s = Some (length xs)"
proof -
  assume h: "holds s xs"
  have "n \<le> length xs \<Longrightarrow> strlen_loop s (length xs - n) = Some (length xs)" for n
  proof (induction n)
    case 0
    then show ?case by (subst strlen_loop.simps) (simp add: holds_end [OF h])
  next
    case (Suc n)
    then show ?case using holds_nonzero [OF h, of "length xs - Suc n"] by (subst strlen_loop.simps) (simp add: Suc_diff_Suc)
  qed
  from this [of "length xs"] show ?thesis by (simp add: strlen_def)
qed

lemma strchr_holds:
  assumes h: "holds s xs" and c: "ch \<noteq> 0"
  shows "strchr s ch = Some (find (\<lambda>i. xs ! i = ch) [0..<length xs])"
proof -
  have "n \<le> length xs \<Longrightarrow> strchr_loop s ch (length xs - n) = Some (find (\<lambda>i. xs ! i = ch) [length xs - n..<length xs])" for n
  proof (induction n)
    case 0
    then show ?case using c by (subst strchr_loop.simps) (simp add: holds_end [OF h])
  next
    case (Suc n)
    then have "[length xs - Suc n..<length xs] = (length xs - Suc n) # [length xs - n..<length xs]"
      by (subst upt_conv_Cons) (simp_all add: Suc_diff_Suc)
    then show ?case using Suc holds_nonzero [OF h, of "length xs - Suc n"] by (subst strchr_loop.simps) (simp add: Suc_diff_Suc)
  qed
  from this [of "length xs"] show ?thesis by (simp add: strchr_def)
qed

lemma strcmp_holds:
  assumes a: "holds a xs" and b: "holds b ys"
  shows "\<exists>r. strcmp a b = Some r \<and> (r = 0 \<longleftrightarrow> xs = ys)"
proof -
  define P where "P = (\<lambda>i. \<not> (a i \<noteq> 0 \<and> a i = b i))"
  have "P (length xs)" using holds_end [OF a] by (simp add: P_def)
  define l where "l = (LEAST i. P i)"
  have l: "P l" "\<And>i. i < l \<Longrightarrow> \<not> P i" "l \<le> length xs"
    unfolding l_def using \<open>P (length xs)\<close> by (auto intro: LeastI Least_le dest: not_less_Least)
  have "n \<le> l \<Longrightarrow> strcmp_loop a b (l - n) = Some l" for n
  proof (induction n)
    case 0
    then show ?case using l(1) by (subst strcmp_loop.simps) (auto simp: P_def)
  next
    case (Suc n)
    then show ?case using l(2) [of "l - Suc n"] by (subst strcmp_loop.simps) (auto simp: P_def Suc_diff_Suc)
  qed
  from this [of l] have s: "strcmp_loop a b 0 = Some l" by simp
  have "a l = b l \<longleftrightarrow> xs = ys"
  proof
    assume e: "a l = b l"
    then have "a l = 0" using l(1) by (simp add: P_def)
    then have lx: "l = length xs" using holds_nonzero [OF a, of l] l(3) by (cases "l < length xs") auto
    have ab: "a i = b i \<and> a i \<noteq> 0" if "i < l" for i using l(2) [OF that] unfolding P_def by blast
    have ly: "l = length ys"
    proof (rule linorder_cases [of l "length ys"])
      assume "l < length ys"
      then show ?thesis using holds_nonzero [OF b, of l] e \<open>a l = 0\<close> by simp
    next
      assume "length ys < l"
      then show ?thesis using ab [of "length ys"] holds_end [OF b] by simp
    qed
    show "xs = ys"
      by (rule nth_equalityI) (use lx ly ab holds_nonzero [OF a] holds_nonzero [OF b] in auto)
  next
    assume "xs = ys"
    then have "a i = b i" if "i \<le> length xs" for i
      using that holds_nonzero [OF a, of i] holds_nonzero [OF b, of i] holds_end [OF a] holds_end [OF b] by (cases "i = length xs") auto
    then show "a l = b l" using l(3) by simp
  qed
  then show ?thesis by (auto simp: strcmp_def s)
qed

end
