(* ===== verification/Printf.thy ===== *)
theory Printf
  imports Libc_Str
begin

text \<open>
  Formatted output: \<^verbatim>\<open>src/src/lib/libc/__printf.c\<close> and \<^verbatim>\<open>snprintf.c\<close>, which the kernel shares.

  \<open>PF\<close> is the state of one call. The callback that takes the output is an argument of the functions, its client data
  a field of the state, of any type. The arguments are a list of machine words and strings; fetching one of the wrong
  kind, or one too many, has no meaning in C and is \<open>None\<close>. Names that C starts with underscores lose them.
\<close>

section \<open>The code\<close>

datatype va = VInt u32 | VStr "u8 list option"

datatype pf_intsize = INTSZ | LONGSZ

record 'c PF =
  clientdata :: 'c
  ap :: "va list"
  charcount :: int
  in_pct :: bool
  pf_size :: pf_intsize
  num :: u32
  sign :: int
  spacing :: int
  rightspc :: bool
  fillchar :: u8
  pf_base :: nat
  baseprefix :: bool
  altformat :: bool

type_synonym 'c sendfunc = "'c \<Rightarrow> u8 list \<Rightarrow> 'c"

definition NUMBER_BUF_SIZE :: nat where "NUMBER_BUF_SIZE = (4 * 8) div 3 + 2"

definition pf_print :: "'c sendfunc \<Rightarrow> u8 list \<Rightarrow> 'c PF \<Rightarrow> 'c PF" where
  "pf_print send txt pf = pf\<lparr>clientdata := send (clientdata pf) txt, charcount := s32 (charcount pf + int (length txt))\<rparr>"

definition pf_endfield :: "'c PF \<Rightarrow> 'c PF" where
  "pf_endfield pf = pf\<lparr>in_pct := False, pf_size := INTSZ, num := 0, sign := 0, spacing := 0, rightspc := False,
     fillchar := 32, pf_base := 0, baseprefix := False, altformat := False\<rparr>"

definition pf_modifier :: "u8 \<Rightarrow> 'c PF \<Rightarrow> 'c PF kern" where
  "pf_modifier ch pf =
     (if ch = 35 then Some (pf\<lparr>altformat := True\<rparr>)
      else if ch = 45 then Some (pf\<lparr>rightspc := True\<rparr>)
      else if ch = 108 \<or> ch = 113 then Some (pf\<lparr>pf_size := LONGSZ\<rparr>)
      else if ch = 48 then
        Some (if spacing pf > 0 then pf\<lparr>spacing := s32 (spacing pf * 10)\<rparr> else pf\<lparr>fillchar := 48\<rparr>)
      else do {
        kassert (48 < ch \<and> ch \<le> 57);
        Some (pf\<lparr>spacing := s32 (spacing pf * 10 + (int (unat ch) - 48))\<rparr>)
      })"

definition va_int :: "'c PF \<Rightarrow> (u32 \<times> 'c PF) kern" where
  "va_int pf = (case ap pf of VInt w # as \<Rightarrow> Some (w, pf\<lparr>ap := as\<rparr>) | _ \<Rightarrow> None)"

definition va_str :: "'c PF \<Rightarrow> (u8 list option \<times> 'c PF) kern" where
  "va_str pf = (case ap pf of VStr s # as \<Rightarrow> Some (s, pf\<lparr>ap := as\<rparr>) | _ \<Rightarrow> None)"

text \<open>\<^verbatim>\<open>int\<close> and \<^verbatim>\<open>long\<close> are both 32 bits, so the cases of \<^verbatim>\<open>pf_size\<close> fetch the same thing.\<close>

definition pf_getnum :: "u8 \<Rightarrow> 'c PF \<Rightarrow> 'c PF kern" where
  "pf_getnum ch pf = do {
     (w, pf) \<leftarrow> va_int pf;
     Some (if ch = 112 then pf\<lparr>num := w\<rparr>
       else if ch = 100 then (if sint w < 0 then pf\<lparr>sign := -1, num := - w\<rparr> else pf\<lparr>num := w\<rparr>)
       else pf\<lparr>num := w\<rparr>)
   }"

definition pf_setbase :: "u8 \<Rightarrow> 'c PF \<Rightarrow> 'c PF" where
  "pf_setbase ch pf =
     (let pf = (if ch = 100 \<or> ch = 117 then pf\<lparr>pf_base := 10\<rparr>
                else if ch = 120 \<or> ch = 112 then pf\<lparr>pf_base := 16\<rparr>
                else if ch = 111 then pf\<lparr>pf_base := 8\<rparr> else pf) in
      if altformat pf \<or> ch = 112 then pf\<lparr>baseprefix := True\<rparr> else pf)"

definition pf_fill :: "'c sendfunc \<Rightarrow> int \<Rightarrow> 'c PF \<Rightarrow> 'c PF" where
  "pf_fill send spc pf = (let f = fillchar pf in foldl (\<lambda>pf _. pf_print send [f] pf) pf [0..<nat spc])"

definition pf_printstuff :: "'c sendfunc \<Rightarrow> u8 list \<Rightarrow> u8 list \<Rightarrow> u8 list \<Rightarrow> 'c PF \<Rightarrow> 'c PF" where
  "pf_printstuff send prefix prefix2 stuff pf =
     (let len = s32 (int (length prefix) + int (length prefix2) + int (length stuff));
          spc = (if spacing pf > len then s32 (spacing pf - len) else 0);
          pf = (if spc > 0 \<and> \<not> rightspc pf \<and> fillchar pf \<noteq> 48 then pf_fill send spc pf else pf);
          pf = pf_print send prefix pf;
          pf = pf_print send prefix2 pf;
          pf = (if spc > 0 \<and> \<not> rightspc pf \<and> fillchar pf = 48 then pf_fill send spc pf else pf);
          pf = pf_print send stuff pf
      in if spc > 0 \<and> rightspc pf then pf_fill send spc pf else pf)"

definition digits16 :: "u8 list" where
  "digits16 = [48, 49, 50, 51, 52, 53, 54, 55, 56, 57, 97, 98, 99, 100, 101, 102]"

text \<open>The loop of \<^verbatim>\<open>__pf_printnum\<close>, with the number of slots of the buffer still to its left; \<open>acc\<close> is the part already
  filled.\<close>

fun pf_digits :: "nat \<Rightarrow> nat \<Rightarrow> u32 \<Rightarrow> u8 list \<Rightarrow> u8 list kern" where
  "pf_digits 0 b xnum acc = None"
| "pf_digits (Suc k) b xnum acc =
     (if b = 0 then None
      else
        let acc = digits16 ! (unat xnum mod b) # acc;
            xnum = of_nat (unat xnum div b)
        in if xnum > 0 then pf_digits k b xnum acc else Some acc)"

definition pf_printnum :: "'c sendfunc \<Rightarrow> 'c PF \<Rightarrow> 'c PF kern" where
  "pf_printnum send pf = do {
     x \<leftarrow> pf_digits (NUMBER_BUF_SIZE - 1) (pf_base pf) (num pf) [];
     let bprefix = (if baseprefix pf \<and> pf_base pf = 16 then [48, 120] else if baseprefix pf \<and> pf_base pf = 8 then [48] else []);
     let sprefix = (if sign pf \<noteq> 0 then [45] else []);
     Some (pf_printstuff send sprefix bprefix x pf)
   }"

text \<open>The modifiers are the characters of \<^verbatim>\<open>#-ql0123456789\<close>, the integer types those of \<^verbatim>\<open>doupx\<close>.\<close>

definition pf_modifiers :: "u8 list" where
  "pf_modifiers = [35, 45, 113, 108, 48, 49, 50, 51, 52, 53, 54, 55, 56, 57]"

definition pf_inttypes :: "u8 list" where
  "pf_inttypes = [100, 111, 117, 112, 120]"

definition pf_send :: "'c sendfunc \<Rightarrow> 'c PF \<Rightarrow> u8 \<Rightarrow> 'c PF kern" where
  "pf_send send pf ch = do {
     kassert (ch \<noteq> 0);
     if \<not> in_pct pf \<and> ch \<noteq> 37 then Some (pf_print send [ch] pf)
     else if \<not> in_pct pf then Some (pf\<lparr>in_pct := True\<rparr>)
     else if ch \<in> set pf_modifiers then pf_modifier ch pf
     else if ch \<in> set pf_inttypes then
       do {
         pf \<leftarrow> pf_getnum ch pf;
         pf \<leftarrow> pf_printnum send (pf_setbase ch pf);
         Some (pf_endfield pf)
       }
     else if ch = 115 then
       do {
         (s, pf) \<leftarrow> va_str pf;
         let str = (case s of None \<Rightarrow> [40, 110, 117, 108, 108, 41] | Some str \<Rightarrow> str);
         Some (pf_endfield (pf_printstuff send [] [] str pf))
       }
     else if ch = 99 then
       do {
         (w, pf) \<leftarrow> va_int pf;
         let x = (ucast w :: u8);
         Some (pf_endfield (pf_printstuff send [] [] (if x = 0 then [] else [x]) pf))
       }
     else Some (pf_endfield (pf_printstuff send [] [] [ch] pf))
   }"

definition pf_start :: "'c \<Rightarrow> va list \<Rightarrow> 'c PF" where
  "pf_start c args = pf_endfield \<lparr>clientdata = c, ap = args, charcount = 0, in_pct = False, pf_size = INTSZ, num = 0, sign = 0,
     spacing = 0, rightspc = False, fillchar = 0, pf_base = 0, baseprefix = False, altformat = False\<rparr>"

definition vprintf :: "'c sendfunc \<Rightarrow> 'c \<Rightarrow> u8 list \<Rightarrow> va list \<Rightarrow> (int \<times> 'c) kern" where
  "vprintf func c format args = do {
     pf \<leftarrow> kfold (pf_send func) (pf_start c args) format;
     Some (charcount pf, clientdata pf)
   }"

record SNP =
  snp_mem :: mem
  snp_buf :: u32
  buflen :: nat
  bufpos :: nat

definition snprintf_send :: "SNP \<Rightarrow> u8 list \<Rightarrow> SNP" where
  "snprintf_send snp data = foldl (\<lambda>snp c.
     if bufpos snp < buflen snp
     then snp\<lparr>snp_mem := (snp_mem snp)(snp_buf snp + of_nat (bufpos snp) := c), bufpos := bufpos snp + 1\<rparr> else snp) snp data"

definition vsnprintf :: "u32 \<Rightarrow> nat \<Rightarrow> u8 list \<Rightarrow> va list \<Rightarrow> mem \<Rightarrow> (int \<times> mem) kern" where
  "vsnprintf buf len fmt args m = do {
     let snp = \<lparr>snp_mem = m, snp_buf = buf, buflen = (if len = 0 then 0 else len - 1), bufpos = 0\<rparr>;
     (chars, snp) \<leftarrow> vprintf snprintf_send snp fmt args;
     Some (chars, if len > 0 then (snp_mem snp)(buf + of_nat (bufpos snp) := 0) else snp_mem snp)
   }"

definition snprintf :: "u32 \<Rightarrow> nat \<Rightarrow> u8 list \<Rightarrow> va list \<Rightarrow> mem \<Rightarrow> (int \<times> mem) kern" where
  "snprintf buf len fmt args m = vsnprintf buf len fmt args m"

section \<open>One call, two callbacks\<close>

definition PF_map :: "('c \<Rightarrow> 'd) \<Rightarrow> 'c PF \<Rightarrow> 'd PF" where
  "PF_map h pf = \<lparr>clientdata = h (clientdata pf), ap = ap pf, charcount = charcount pf, in_pct = in_pct pf, pf_size = pf_size pf,
     num = num pf, sign = sign pf, spacing = spacing pf, rightspc = rightspc pf, fillchar = fillchar pf, pf_base = pf_base pf,
     baseprefix = baseprefix pf, altformat = altformat pf\<rparr>"

lemma PF_map_simps [simp]:
  "clientdata (PF_map h pf) = h (clientdata pf)" "ap (PF_map h pf) = ap pf" "charcount (PF_map h pf) = charcount pf"
  "in_pct (PF_map h pf) = in_pct pf" "num (PF_map h pf) = num pf" "sign (PF_map h pf) = sign pf" "spacing (PF_map h pf) = spacing pf"
  "rightspc (PF_map h pf) = rightspc pf" "fillchar (PF_map h pf) = fillchar pf" "pf_base (PF_map h pf) = pf_base pf"
  "baseprefix (PF_map h pf) = baseprefix pf" "altformat (PF_map h pf) = altformat pf"
  by (simp_all add: PF_map_def)

lemma PF_map_update:
  "(PF_map h pf)\<lparr>ap := a\<rparr> = PF_map h (pf\<lparr>ap := a\<rparr>)" "(PF_map h pf)\<lparr>in_pct := b\<rparr> = PF_map h (pf\<lparr>in_pct := b\<rparr>)"
  "(PF_map h pf)\<lparr>pf_size := z\<rparr> = PF_map h (pf\<lparr>pf_size := z\<rparr>)" "(PF_map h pf)\<lparr>num := n\<rparr> = PF_map h (pf\<lparr>num := n\<rparr>)"
  "(PF_map h pf)\<lparr>sign := i, num := n\<rparr> = PF_map h (pf\<lparr>sign := i, num := n\<rparr>)"
  "(PF_map h pf)\<lparr>spacing := i\<rparr> = PF_map h (pf\<lparr>spacing := i\<rparr>)"
  "(PF_map h pf)\<lparr>rightspc := b\<rparr> = PF_map h (pf\<lparr>rightspc := b\<rparr>)" "(PF_map h pf)\<lparr>fillchar := c\<rparr> = PF_map h (pf\<lparr>fillchar := c\<rparr>)"
  "(PF_map h pf)\<lparr>pf_base := k\<rparr> = PF_map h (pf\<lparr>pf_base := k\<rparr>)"
  "(PF_map h pf)\<lparr>baseprefix := b\<rparr> = PF_map h (pf\<lparr>baseprefix := b\<rparr>)" "(PF_map h pf)\<lparr>altformat := b\<rparr> = PF_map h (pf\<lparr>altformat := b\<rparr>)"
  by (simp_all add: PF_map_def)

lemma PF_map_endfield: "pf_endfield (PF_map h pf) = PF_map h (pf_endfield pf)"
  by (simp add: pf_endfield_def PF_map_def)

lemma PF_map_modifier: "pf_modifier ch (PF_map h pf) = map_option (PF_map h) (pf_modifier ch pf)"
  by (simp add: pf_modifier_def PF_map_update kassert_def)

lemma PF_map_va:
  "va_int (PF_map h pf) = map_option (map_prod id (PF_map h)) (va_int pf)"
  "va_str (PF_map h pf) = map_option (map_prod id (PF_map h)) (va_str pf)"
  by (simp_all add: va_int_def va_str_def PF_map_update split: list.split va.split)

lemma PF_map_setbase: "pf_setbase ch (PF_map h pf) = PF_map h (pf_setbase ch pf)"
  by (simp add: pf_setbase_def Let_def PF_map_update)

lemma PF_map_getnum: "pf_getnum ch (PF_map h pf) = map_option (PF_map h) (pf_getnum ch pf)"
  by (cases "va_int pf") (auto simp: pf_getnum_def PF_map_va PF_map_update)

lemma PF_map_start: "PF_map h (pf_start c args) = pf_start (h c) args"
  by (simp add: pf_start_def pf_endfield_def PF_map_def)

text \<open>Two callbacks of which one does to the image under \<open>h\<close> what the other does to the original.\<close>

locale sender_hom =
  fixes send1 :: "'c sendfunc" and send2 :: "'d sendfunc" and h :: "'c \<Rightarrow> 'd"
  assumes hom: "h (send1 c txt) = send2 (h c) txt"
begin

lemma print_hom: "pf_print send2 txt (PF_map h pf) = PF_map h (pf_print send1 txt pf)"
  by (simp add: pf_print_def PF_map_def hom)

lemma fill_hom: "pf_fill send2 spc (PF_map h pf) = PF_map h (pf_fill send1 spc pf)"
proof -
  have "foldl (\<lambda>pf _. pf_print send2 [f] pf) (PF_map h pf) xs = PF_map h (foldl (\<lambda>pf _. pf_print send1 [f] pf) pf xs)" for f and xs :: "nat list"
    by (induction xs arbitrary: pf) (simp_all add: print_hom)
  then show ?thesis by (simp add: pf_fill_def Let_def)
qed

lemma printstuff_hom: "pf_printstuff send2 p1 p2 s (PF_map h pf) = PF_map h (pf_printstuff send1 p1 p2 s pf)"
  unfolding pf_printstuff_def Let_def by (simp add: print_hom fill_hom if_distrib [of "PF_map h", symmetric] cong: if_cong)

lemma printnum_hom: "pf_printnum send2 (PF_map h pf) = map_option (PF_map h) (pf_printnum send1 pf)"
  by (cases "pf_digits (NUMBER_BUF_SIZE - 1) (pf_base pf) (num pf) []") (simp_all add: pf_printnum_def Let_def printstuff_hom)

lemma send_hom: "pf_send send2 (PF_map h pf) ch = map_option (PF_map h) (pf_send send1 pf ch)"
  unfolding pf_send_def kassert_def Let_def
  by (auto simp: print_hom PF_map_update PF_map_modifier PF_map_getnum PF_map_setbase printnum_hom PF_map_endfield PF_map_va printstuff_hom
      Option.bind_map_option map_option_bind o_def case_prod_unfold split: option.splits cong: if_cong)

lemma fold_hom: "kfold (pf_send send2) (PF_map h pf) fmt = map_option (PF_map h) (kfold (pf_send send1) pf fmt)"
proof (induction fmt arbitrary: pf)
  case (Cons ch fmt)
  then show ?case by (cases "pf_send send1 pf ch") (simp_all add: send_hom)
qed simp

lemma vprintf_hom: "vprintf send2 (h c) fmt args = map_option (map_prod id h) (vprintf send1 c fmt args)"
  using fold_hom [of "pf_start c args" fmt]
  by (cases "kfold (pf_send send1) (pf_start c args) fmt") (simp_all add: vprintf_def PF_map_start)

end

section \<open>The number buffer\<close>

text \<open>Eleven slots are enough for any word in base 8, and so for the larger bases.\<close>

lemma pf_digits_total:
  "2 \<le> b \<Longrightarrow> unat x < b ^ Suc k \<Longrightarrow> \<exists>ds. pf_digits (Suc k) b x acc = Some (ds @ acc) \<and> ds \<noteq> [] \<and> set ds \<subseteq> (!) digits16 ` {..<b} "
proof (induction k arbitrary: x acc)
  case 0
  then have "unat x div b = 0" by simp
  then show ?case using 0 by (auto simp: Let_def)
next
  case (Suc k)
  let ?y = "of_nat (unat x div b) :: u32"
  have y: "unat ?y = unat x div b" using unat_u32_less(1) [of x] by (simp add: unat_of_nat order_le_less_trans [OF div_le_dividend])
  have d: "unat x mod b < b" using Suc.prems(1) by simp
  show ?case
  proof (cases "?y > 0")
    case True
    have "unat ?y < b ^ Suc k" using Suc.prems y by (simp add: less_mult_imp_div_less mult.commute)
    then obtain ds where "pf_digits (Suc k) b ?y (digits16 ! (unat x mod b) # acc) = Some (ds @ digits16 ! (unat x mod b) # acc)"
      "ds \<noteq> []" "set ds \<subseteq> (!) digits16 ` {..<b}" using Suc.IH [OF Suc.prems(1)] by blast
    then show ?thesis using Suc.prems(1) d True
      by (intro exI [of _ "ds @ [digits16 ! (unat x mod b)]"]) (auto simp: Let_def)
  next
    case False
    then show ?thesis using Suc.prems(1) d by (intro exI [of _ "[digits16 ! (unat x mod b)]"]) (auto simp: Let_def)
  qed
qed

lemma pf_digits_ok: "8 \<le> b \<Longrightarrow> \<exists>ds. pf_digits (NUMBER_BUF_SIZE - 1) b x [] = Some ds \<and> ds \<noteq> []"
proof -
  assume b: "8 \<le> b"
  have "unat x < 8 ^ Suc 10" using unat_u32_less(2) [of x] by simp
  also have "8 ^ Suc 10 \<le> b ^ Suc 10" using b by (rule power_mono) simp
  finally have "unat x < b ^ Suc 10" .
  then obtain ds where "pf_digits (Suc 10) b x [] = Some ds" "ds \<noteq> []" using pf_digits_total [of b x 10 "[]"] b by auto
  moreover have "NUMBER_BUF_SIZE - 1 = Suc 10" by (simp add: NUMBER_BUF_SIZE_def)
  ultimately show ?thesis by metis
qed

section \<open>Formats and arguments\<close>

datatype va_kind = KInt | KStr

definition kind :: "va \<Rightarrow> va_kind" where
  "kind v = (case v of VInt _ \<Rightarrow> KInt | VStr _ \<Rightarrow> KStr)"

text \<open>The arguments a format asks for; the flag says whether a \<^verbatim>\<open>%\<close> is open.\<close>

fun wanted :: "bool \<Rightarrow> u8 list \<Rightarrow> va_kind list" where
  "wanted p [] = []"
| "wanted False (c # cs) = wanted (c = 37) cs"
| "wanted True (c # cs) =
     (if c \<in> set pf_modifiers then wanted True cs
      else if c \<in> set pf_inttypes \<or> c = 99 then KInt # wanted False cs
      else if c = 115 then KStr # wanted False cs
      else wanted False cs)"

lemma printstuff_frame:
  "ap (pf_printstuff send p1 p2 s pf) = ap pf" "in_pct (pf_endfield pf) = False" "ap (pf_endfield pf) = ap pf"
proof -
  have "ap (foldl (\<lambda>pf _. pf_print send [f] pf) pf xs) = ap pf" for f pf and xs :: "nat list"
    by (induction xs arbitrary: pf) (simp_all add: pf_print_def)
  then show "ap (pf_printstuff send p1 p2 s pf) = ap pf" by (simp add: pf_printstuff_def Let_def pf_fill_def pf_print_def)
qed (simp_all add: pf_endfield_def)

lemma pf_modifier_ok: "ch \<in> set pf_modifiers \<Longrightarrow> \<exists>pf'. pf_modifier ch pf = Some pf' \<and> ap pf' = ap pf \<and> in_pct pf' = in_pct pf"
  by (auto simp: pf_modifiers_def pf_modifier_def kassert_def)

lemma pf_int_ok:
  assumes "ch \<in> set pf_inttypes" and "ap pf = VInt w # as"
  shows "\<exists>pf1 pf2. pf_getnum ch pf = Some pf1 \<and> pf_printnum send (pf_setbase ch pf1) = Some pf2 \<and> ap pf2 = as"
proof -
  obtain pf1 where 1: "pf_getnum ch pf = Some pf1" "ap pf1 = as" using assms(2) by (auto simp: pf_getnum_def va_int_def)
  have b: "8 \<le> pf_base (pf_setbase ch pf1)" "ap (pf_setbase ch pf1) = as"
    using assms(1) 1(2) by (auto simp: pf_inttypes_def pf_setbase_def Let_def)
  obtain ds where "pf_digits (NUMBER_BUF_SIZE - 1) (pf_base (pf_setbase ch pf1)) (num (pf_setbase ch pf1)) [] = Some ds"
    using pf_digits_ok [OF b(1)] by blast
  then show ?thesis using 1 b(2) by (simp add: pf_printnum_def Let_def printstuff_frame(1))
qed

lemma pf_send_ok:
  assumes "ch \<noteq> 0" and "map kind (ap pf) = wanted (in_pct pf) (ch # fmt)"
  shows "\<exists>pf'. pf_send send pf ch = Some pf' \<and> map kind (ap pf') = wanted (in_pct pf') fmt"
proof (cases "in_pct pf")
  case False
  then show ?thesis using assms by (simp add: pf_send_def pf_print_def)
next
  case p: True
  consider "ch \<in> set pf_modifiers" | "ch \<notin> set pf_modifiers" "ch \<in> set pf_inttypes" | "ch \<notin> set pf_modifiers" "ch \<notin> set pf_inttypes" by blast
  then show ?thesis
  proof cases
    case 1
    then show ?thesis using pf_modifier_ok [OF 1, of pf] p assms by (auto simp: pf_send_def)
  next
    case 2
    then obtain w as where a: "ap pf = VInt w # as" "map kind as = wanted False fmt"
      using assms(2) p by (cases "ap pf") (auto simp: kind_def split: va.splits)
    then show ?thesis using pf_int_ok [OF 2(2) a(1), of send] 2 p assms(1) by (auto simp: pf_send_def printstuff_frame)
  next
    case 3
    then show ?thesis using assms p
      by (cases "ap pf") (auto simp: pf_send_def va_int_def va_str_def kind_def printstuff_frame Let_def split: va.splits if_splits)
  qed
qed

lemma vprintf_total: "0 \<notin> set fmt \<Longrightarrow> map kind args = wanted False fmt \<Longrightarrow> \<exists>r. vprintf send c fmt args = Some r"
proof -
  have "0 \<notin> set fmt \<Longrightarrow> map kind (ap pf) = wanted (in_pct pf) fmt \<Longrightarrow> \<exists>pf'. kfold (pf_send send) pf fmt = Some pf'" for pf
  proof (induction fmt arbitrary: pf)
    case (Cons ch fmt)
    then obtain pf' where "pf_send send pf ch = Some pf'" "map kind (ap pf') = wanted (in_pct pf') fmt"
      using pf_send_ok [of ch pf fmt send] by auto
    then show ?case using Cons.IH [of pf'] Cons.prems(1) by simp
  qed simp
  from this [of "pf_start c args"] show "0 \<notin> set fmt \<Longrightarrow> map kind args = wanted False fmt \<Longrightarrow> \<exists>r. vprintf send c fmt args = Some r"
    by (auto simp: vprintf_def pf_start_def pf_endfield_def)
qed

section \<open>Printing into a buffer\<close>

interpretation collect: sender_hom "(@)" snprintf_send "snprintf_send snp" for snp
  by unfold_locales (simp add: snprintf_send_def)

definition written :: "u32 \<Rightarrow> u8 list \<Rightarrow> mem \<Rightarrow> mem" where
  "written buf xs m = (\<lambda>x. if unat (x - buf) < length xs then xs ! unat (x - buf) else m x)"

lemma snprintf_send_written:
  assumes "n \<le> 2 ^ 32"
  shows "snprintf_send \<lparr>snp_mem = m, snp_buf = buf, buflen = n, bufpos = 0\<rparr> xs =
    \<lparr>snp_mem = written buf (take n xs) m, snp_buf = buf, buflen = n, bufpos = min (length xs) n\<rparr>"
proof (induction xs rule: rev_induct)
  case Nil
  then show ?case by (simp add: snprintf_send_def written_def)
next
  case (snoc c xs)
  have "(written buf xs m)(buf + of_nat (length xs) := c) = written buf (xs @ [c]) m" if l: "length xs < n"
  proof
    fix x
    have u: "unat (of_nat (length xs) :: u32) = length xs" using l assms by (simp add: unat_of_nat)
    have "x = buf + of_nat (length xs) \<longleftrightarrow> unat (x - buf) = length xs"
    proof
      assume e: "unat (x - buf) = length xs"
      have "x = buf + of_nat (unat (x - buf))" by simp
      then show "x = buf + of_nat (length xs)" by (simp only: e)
    qed (simp add: u)
    then show "((written buf xs m)(buf + of_nat (length xs) := c)) x = written buf (xs @ [c]) m x"
      by (auto simp: written_def nth_append less_Suc_eq)
  qed
  then show ?case using snoc by (cases "length xs < n") (simp_all add: snprintf_send_def min_def)
qed

text \<open>The count returned is the length of the output, as an \<^verbatim>\<open>int\<close>.\<close>

definition counted :: "u8 list PF \<Rightarrow> bool" where
  "counted pf \<longleftrightarrow> charcount pf = s32 (int (length (clientdata pf)))"

lemma counted_print: "counted pf \<Longrightarrow> counted (pf_print (@) txt pf)"
  by (simp add: counted_def pf_print_def s32_add)

lemma counted_fill: "counted pf \<Longrightarrow> counted (pf_fill (@) spc pf)"
proof -
  have "counted pf \<Longrightarrow> counted (foldl (\<lambda>pf _. pf_print (@) [f] pf) pf xs)" for f and xs :: "nat list"
    by (induction xs arbitrary: pf) (simp_all add: counted_print)
  then show "counted pf \<Longrightarrow> counted (pf_fill (@) spc pf)" by (simp add: pf_fill_def Let_def)
qed

lemma counted_printstuff: "counted pf \<Longrightarrow> counted (pf_printstuff (@) p1 p2 s pf)"
  by (simp add: pf_printstuff_def Let_def counted_print counted_fill)

lemma counted_send: "counted pf \<Longrightarrow> pf_send (@) pf ch = Some pf' \<Longrightarrow> counted pf'"
proof -
  assume c: "counted pf" and s: "pf_send (@) pf ch = Some pf'"
  have upd: "counted (pf_endfield q) = counted q" "counted (pf_setbase ch q) = counted q" "counted (q\<lparr>in_pct := b\<rparr>) = counted q" for q b
    by (simp_all add: counted_def pf_endfield_def pf_setbase_def Let_def)
  have opt: "pf_modifier ch q = Some q' \<Longrightarrow> counted q' = counted q" "pf_getnum ch q = Some q' \<Longrightarrow> counted q' = counted q"
    "va_int q = Some (w, q') \<Longrightarrow> counted q' = counted q" "va_str q = Some (t, q') \<Longrightarrow> counted q' = counted q"
    "pf_printnum (@) q = Some q' \<Longrightarrow> counted q \<Longrightarrow> counted q'" for q q' w t
    by (auto simp: counted_def pf_modifier_def kassert_def pf_getnum_def va_int_def va_str_def bind_eq_Some pf_printnum_def Let_def
        counted_printstuff [unfolded counted_def] split: if_splits list.splits va.splits)
  show "counted pf'"
    using c s unfolding pf_send_def Let_def
    by (auto simp: kern_simps upd counted_print counted_printstuff opt split: if_splits)
qed

lemma vprintf_counted: "vprintf (@) [] fmt args = Some (chars, out) \<Longrightarrow> chars = s32 (int (length out))"
proof -
  assume "vprintf (@) [] fmt args = Some (chars, out)"
  then obtain pf where pf: "kfold (pf_send (@)) (pf_start [] args) fmt = Some pf" "chars = charcount pf" "out = clientdata pf"
    by (auto simp: vprintf_def kern_simps)
  have "counted (pf_start [] args)" by (simp add: counted_def pf_start_def pf_endfield_def s32_id)
  with pf(1) have "counted pf" by (rule kfold_inv) (rule counted_send)
  then show ?thesis using pf by (simp add: counted_def)
qed

lemma vsnprintf_written:
  assumes "vprintf (@) [] fmt args = Some (chars, out)" and "len \<le> 2 ^ 32"
  shows "vsnprintf buf len fmt args m = Some (chars, if len = 0 then m
    else (written buf (take (len - 1) out) m)(buf + of_nat (min (length out) (len - 1)) := 0))"
proof -
  define snp where "snp = \<lparr>snp_mem = m, snp_buf = buf, buflen = (if len = 0 then 0 else len - 1), bufpos = 0\<rparr>"
  have "snprintf_send snp [] = snp" by (simp add: snprintf_send_def)
  then have "vprintf snprintf_send snp fmt args = Some (chars, snprintf_send snp out)"
    using collect.vprintf_hom [of snp "[]" fmt args] assms(1) by simp
  moreover have "snprintf_send snp out = \<lparr>snp_mem = written buf (take (len - 1) out) m, snp_buf = buf, buflen = len - 1, bufpos = min (length out) (len - 1)\<rparr>"
    using snprintf_send_written [of "len - 1" m buf out] assms(2) by (cases "len = 0") (simp_all add: snp_def)
  ultimately show ?thesis by (simp add: vsnprintf_def snp_def Let_def written_def)
qed

section \<open>Properties\<close>

text \<open>C29. \<^verbatim>\<open>vsnprintf\<close> with arguments that match the format always returns: it leaves the output, cut to the room there is,
  in the buffer with a terminator behind it, writes nothing outside the buffer, and returns the length of
  the whole output. The output is what the same call sends to a callback that collects everything.\<close>

theorem vsnprintf_fits:
  assumes "0 \<notin> set fmt" and "map kind args = wanted False fmt" and "unat buf + len \<le> 2 ^ 32"
  shows "\<exists>chars out m'. vprintf (@) [] fmt args = Some (chars, out) \<and> chars = s32 (int (length out)) \<and>
    vsnprintf buf len fmt args m = Some (chars, m') \<and>
    (if len = 0 then m' = m
     else (\<forall>i<min (length out) (len - 1). m' (buf + of_nat i) = out ! i) \<and> m' (buf + of_nat (min (length out) (len - 1))) = 0) \<and>
    (\<forall>x. unat x < unat buf \<or> unat buf + len \<le> unat x \<longrightarrow> m' x = m x)"
proof -
  obtain chars out where v: "vprintf (@) [] fmt args = Some (chars, out)" using vprintf_total [OF assms(1, 2), of "(@)" "[]"] by auto
  have len: "len \<le> 2 ^ 32" using assms(3) by linarith
  let ?k = "min (length out) (len - 1)"
  let ?m = "if len = 0 then m else (written buf (take (len - 1) out) m)(buf + of_nat ?k := 0)"
  have off: "unat (buf + of_nat i) = unat buf + i" "unat (of_nat i :: u32) = i" if "i < len" for i
    using that assms(3) by (simp_all add: unat_word_ariths(1) unat_of_nat)
  have "?m (buf + of_nat i) = out ! i" if "i < ?k" "len \<noteq> 0" for i
  proof -
    have "i < len" "?k < len" "i \<noteq> ?k" using that by auto
    then have "buf + of_nat i \<noteq> buf + of_nat ?k" using off(1) by (metis add_left_cancel)
    moreover have "buf + of_nat i - buf = of_nat i" by simp
    ultimately show ?thesis using that off(2) [OF \<open>i < len\<close>] by (simp add: written_def)
  qed
  moreover have "?m x = m x" if "unat x < unat buf \<or> unat buf + len \<le> unat x" for x
  proof (cases "len = 0")
    case False
    then have k: "?k < len" by simp
    have "x \<noteq> buf + of_nat ?k" using that off(1) [OF k] k by auto
    moreover have "\<not> unat (x - buf) < ?k"
      using that assms(3) unat_sub_if_size [of x buf] k by (auto simp: word_size word_le_nat_alt split: if_splits)
    ultimately show ?thesis using False by (auto simp: written_def)
  qed simp
  ultimately show ?thesis using v vprintf_counted [OF v] vsnprintf_written [OF v len, of buf m]
    by (intro exI [of _ chars] exI [of _ out] exI [of _ ?m]) simp
qed

theorem vsnprintf_fits_witness:
  "\<exists>m'. vsnprintf 0x100 5 [37, 51, 120, 33, 37, 115] [VInt 10, VStr (Some [97, 98, 99])] (\<lambda>_. 255) = Some (7, m') \<and>
     m' 0x100 = 32 \<and> m' 0x102 = 97 \<and> m' 0x103 = 33 \<and> m' 0x104 = 0 \<and> m' 0x105 = 255"
proof -
  have run: "vprintf (@) [] [37, 51, 120, 33, 37, 115] [VInt 10, VStr (Some [97, 98, 99])] = Some (7, [32, 32, 97, 33, 97, 98, 99])"
    by code_simp
  obtain m' where m: "vsnprintf 0x100 5 [37, 51, 120, 33, 37, 115] [VInt 10, VStr (Some [97, 98, 99])] (\<lambda>_. 255) = Some (7, m')"
    "\<forall>i<4. m' (0x100 + of_nat i) = [32, 32, 97, 33, 97, 98, 99 :: u8] ! i" "m' (0x100 + of_nat 4) = 0"
    "\<forall>x. unat x < 0x100 \<or> 0x105 \<le> unat x \<longrightarrow> m' x = 255"
    using vsnprintf_fits [of "[37, 51, 120, 33, 37, 115]" "[VInt 10, VStr (Some [97, 98, 99])]" "0x100" 5 "\<lambda>_. 255"] run
    by (auto simp: kind_def pf_modifiers_def pf_inttypes_def)
  have "m' 0x100 = 32" "m' 0x102 = 97" "m' 0x103 = 33" "m' 0x104 = 0" "m' 0x105 = 255"
    using m(2) [rule_format, of 0] m(2) [rule_format, of 2] m(2) [rule_format, of 3] m(3) m(4) [rule_format, of "0x105"] by simp_all
  then show ?thesis using m(1) by blast
qed

text \<open>Decimal digits: what \<^verbatim>\<open>__pf_printnum\<close> produces, and what \<^verbatim>\<open>atoi\<close> makes of it.\<close>

definition is_digit :: "u8 \<Rightarrow> bool" where
  "is_digit d \<longleftrightarrow> 48 \<le> unat d \<and> unat d \<le> 57"

definition decimal :: "u8 list \<Rightarrow> nat" where
  "decimal ds = foldl (\<lambda>v d. v * 10 + (unat d - 48)) 0 ds"

lemma digits16_decimal: "d < 10 \<Longrightarrow> is_digit (digits16 ! d) \<and> unat (digits16 ! d) - 48 = d"
proof -
  assume "d < 10"
  then have "d \<in> {0, 1, 2, 3, 4, 5, 6, 7, 8, 9}" by auto
  then show ?thesis by (auto simp: digits16_def is_digit_def)
qed

lemma pf_digits_value:
  "pf_digits k 10 x acc = Some r \<Longrightarrow> \<exists>ds. r = ds @ acc \<and> ds \<noteq> [] \<and> list_all is_digit ds \<and> decimal ds = unat x \<and> length ds \<le> k"
proof (induction k arbitrary: x acc)
  case (Suc k)
  let ?y = "of_nat (unat x div 10) :: u32" and ?d = "digits16 ! (unat x mod 10)"
  have y: "unat ?y = unat x div 10" using unat_u32_less(1) [of x] by (simp add: unat_of_nat order_le_less_trans [OF div_le_dividend])
  have d: "is_digit ?d" "unat ?d - 48 = unat x mod 10" using digits16_decimal [of "unat x mod 10"] by simp_all
  show ?case
  proof (cases "?y > 0")
    case True
    then have "pf_digits k 10 ?y (?d # acc) = Some r" using Suc.prems by (simp add: Let_def)
    then obtain ds where ds: "r = ds @ ?d # acc" "list_all is_digit ds" "decimal ds = unat ?y" "length ds \<le> k" using Suc.IH by blast
    have "decimal (ds @ [?d]) = unat x" using ds(3) d(2) y by (simp add: decimal_def)
    then show ?thesis using ds d(1) by (intro exI [of _ "ds @ [?d]"]) simp
  next
    case False
    then have "unat x div 10 = 0" using y by (simp add: word_less_nat_alt)
    then have "unat x mod 10 = unat x" by simp
    then show ?thesis using False Suc.prems d by (intro exI [of _ "[?d]"]) (simp add: Let_def decimal_def)
  qed
qed simp

lemma pf_digits_more: "pf_digits k b x acc = Some r \<Longrightarrow> pf_digits (Suc k) b x acc = Some r"
proof (induction k arbitrary: x acc)
  case (Suc k)
  have "pf_digits k b y acc' = Some r \<Longrightarrow> pf_digits (Suc k) b y acc' = Some r" for y acc' by (rule Suc.IH)
  moreover note Suc.prems [unfolded pf_digits.simps(2) [of k b x acc]]
  ultimately show ?case unfolding pf_digits.simps(2) [of "Suc k"] by (simp_all only: Let_def split: if_splits) simp_all
qed simp

lemma decimal_digits:
  "\<exists>ds. pf_digits (NUMBER_BUF_SIZE - 1) 10 x [] = Some ds \<and> ds \<noteq> [] \<and> list_all is_digit ds \<and> decimal ds = unat x \<and> length ds \<le> 10"
proof -
  have "unat x < 10 ^ Suc 9" using unat_u32_less(2) [of x] by simp
  then obtain ds where ds: "pf_digits (Suc 9) 10 x [] = Some ds" using pf_digits_total [of 10 x 9 "[]"] by auto
  moreover have "NUMBER_BUF_SIZE - 1 = Suc (Suc 9)" by (simp add: NUMBER_BUF_SIZE_def)
  ultimately have "pf_digits (NUMBER_BUF_SIZE - 1) 10 x [] = Some ds" using pf_digits_more by metis
  then show ?thesis using pf_digits_value [OF ds] by auto
qed

lemma printstuff_plain:
  assumes "spacing pf = 0" and "length p1 + length p2 + length s < 2 ^ 31"
  shows "clientdata (pf_printstuff (@) p1 p2 s pf) = clientdata pf @ p1 @ p2 @ s"
proof -
  have "s32 (int (length p1) + int (length p2) + int (length s)) = int (length p1) + int (length p2) + int (length s)"
    using assms(2) by (intro s32_id) simp_all
  then show ?thesis using assms(1) by (simp add: pf_printstuff_def Let_def pf_print_def)
qed

lemma vprintf_d:
  "\<exists>ds. vprintf (@) [] [37, 100] [VInt w] = Some (s32 (int (length ((if sint w < 0 then [45] else []) @ ds))), (if sint w < 0 then [45] else []) @ ds) \<and>
    ds \<noteq> [] \<and> list_all is_digit ds \<and> decimal ds = unat (if sint w < 0 then - w else w) \<and> length ds \<le> 10"
proof -
  obtain ds where ds: "pf_digits (NUMBER_BUF_SIZE - 1) 10 (if sint w < 0 then - w else w) [] = Some ds" "ds \<noteq> []" "list_all is_digit ds"
    "decimal ds = unat (if sint w < 0 then - w else w)" "length ds \<le> 10" using decimal_digits by blast
  let ?p = "pf_start ([] :: u8 list) [VInt w]"
  define q where "q = (if sint w < 0 then ?p\<lparr>in_pct := True, ap := [], sign := -1, num := - w\<rparr> else ?p\<lparr>in_pct := True, ap := [], num := w\<rparr>)"
  have "pf_getnum 100 (?p\<lparr>in_pct := True\<rparr>) = Some q" by (simp add: q_def pf_getnum_def va_int_def pf_start_def pf_endfield_def)
  moreover have "pf_setbase 100 q = q\<lparr>pf_base := 10\<rparr>" by (simp add: q_def pf_setbase_def pf_start_def pf_endfield_def)
  moreover have "pf_printnum (@) (q\<lparr>pf_base := 10\<rparr>) = Some (pf_printstuff (@) (if sint w < 0 then [45] else []) [] ds (q\<lparr>pf_base := 10\<rparr>))"
    using ds(1) by (cases "sint w < 0") (simp_all add: q_def pf_printnum_def pf_start_def pf_endfield_def)
  ultimately have "kfold (pf_send (@)) ?p [37, 100] =
      Some (pf_endfield (pf_printstuff (@) (if sint w < 0 then [45] else []) [] ds (q\<lparr>pf_base := 10\<rparr>)))"
    by (simp add: pf_send_def pf_modifiers_def pf_inttypes_def) (simp add: pf_start_def pf_endfield_def)
  moreover have "clientdata (pf_printstuff (@) (if sint w < 0 then [45] else []) [] ds (q\<lparr>pf_base := 10\<rparr>)) = (if sint w < 0 then [45] else []) @ ds"
    using printstuff_plain [of "q\<lparr>pf_base := 10\<rparr>" "if sint w < 0 then [45] else []" "[]" ds] ds(5)
    by (simp add: q_def pf_start_def pf_endfield_def)
  ultimately have "\<exists>c. vprintf (@) [] [37, 100] [VInt w] = Some (c, (if sint w < 0 then [45] else []) @ ds)"
    by (simp add: vprintf_def pf_endfield_def)
  then show ?thesis using vprintf_counted ds(2-5) by blast
qed

lemma strchr_digit: "is_digit d \<Longrightarrow> strchr (lit digits10) d = Some (Some (unat d - 48))"
proof -
  assume d: "is_digit d"
  have h: "holds (lit digits10) digits10" by (rule holds_lit) (simp add: digits10_def)
  have "d \<noteq> 0" using d by (auto simp: is_digit_def)
  define k where "k = unat d - 48"
  have "k < 10" "unat d = 48 + k" using d by (auto simp: is_digit_def k_def)
  moreover from this have "k \<in> {0, 1, 2, 3, 4, 5, 6, 7, 8, 9}" by auto
  ultimately have "d \<in> {48, 49, 50, 51, 52, 53, 54, 55, 56, 57}" by (auto simp: word_unat_eq_iff)
  then have "find (\<lambda>i. digits10 ! i = d) [0..<length digits10] = Some (unat d - 48)" by (auto simp: digits10_def)
  then show ?thesis using strchr_holds [OF h \<open>d \<noteq> 0\<close>] by simp
qed

lemma atoi_loop_digits:
  assumes h: "holds s (xs @ ds)" and d: "list_all is_digit ds"
  shows "atoi_loop s (length xs) val = Some (foldl (\<lambda>v d. v * 10 + of_nat (unat d - 48)) val ds)"
  using assms
proof (induction ds arbitrary: xs val)
  case Nil
  then show ?case using holds_end [OF Nil(1)] by (subst atoi_loop.simps) simp
next
  case (Cons d ds)
  then show ?case using holds_nonzero [OF Cons.prems(1), of "length xs"] Cons.IH [of "xs @ [d]"]
    by (subst atoi_loop.simps) (simp add: strchr_digit)
qed

lemma decimal_word: "foldl (\<lambda>v d. v * 10 + of_nat (unat d - 48)) (of_nat a :: u32) ds = of_nat (foldl (\<lambda>v d. v * 10 + (unat d - 48)) a ds)"
proof (induction ds arbitrary: a)
  case (Cons d ds)
  have "(of_nat a * 10 + of_nat (unat d - 48) :: u32) = of_nat (a * 10 + (unat d - 48))" by (simp add: of_nat_mult)
  then show ?case using Cons [of "a * 10 + (unat d - 48)"] by (simp only: foldl_Cons)
qed simp

lemma atoi_decimal:
  assumes h: "holds s ((if neg then [45] else []) @ ds)" and d: "ds \<noteq> []" "list_all is_digit ds"
  shows "atoi s = Some (if neg then sint (- (of_nat (decimal ds) :: u32)) else sint (of_nat (decimal ds) :: u32))"
proof -
  have z: "s 0 = (if neg then 45 else hd ds)" using holds_nonzero [OF h, of 0] d(1) by (cases ds) (auto split: if_splits)
  have "is_digit (hd ds)" using d by (cases ds) simp_all
  then have hd: "hd ds \<noteq> 32" "hd ds \<noteq> 9" "hd ds \<noteq> 45" by (auto simp: is_digit_def)
  have "skip_blanks s 0 = Some 0" using z hd by (subst skip_blanks.simps) simp
  moreover have "atoi_loop s (if neg then 1 else 0) 0 = Some (of_nat (decimal ds))"
    using atoi_loop_digits [OF h d(2), of 0] decimal_word [of 0 ds] by (cases neg) (simp_all add: decimal_def)
  ultimately show ?thesis using z hd by (cases neg) (simp_all add: atoi_def Let_def)
qed

text \<open>C30. Reading back what was printed: for every word, also the most negative one, \<^verbatim>\<open>snprintf\<close> with format \<^verbatim>\<open>%d\<close> into a
  buffer of twelve bytes leaves a string of which \<^verbatim>\<open>atoi\<close> makes the same signed number.\<close>

theorem snprintf_atoi:
  "\<exists>n m'. snprintf buf 12 [37, 100] [VInt w] m = Some (n, m') \<and> atoi (at m' buf) = Some (sint w)"
proof -
  obtain ds where ds: "vprintf (@) [] [37, 100] [VInt w] = Some (s32 (int (length ((if sint w < 0 then [45] else []) @ ds))), (if sint w < 0 then [45] else []) @ ds)"
    "ds \<noteq> []" "list_all is_digit ds" "decimal ds = unat (if sint w < 0 then - w else w)" "length ds \<le> 10" using vprintf_d by blast
  let ?o = "(if sint w < 0 then [45] else []) @ ds"
  let ?m = "(written buf (take 11 ?o) m)(buf + of_nat (min (length ?o) 11) := 0)"
  have len: "length ?o \<le> 11" using ds(5) by simp
  have run: "snprintf buf 12 [37, 100] [VInt w] m = Some (s32 (int (length ?o)), ?m)"
    using vsnprintf_written [OF ds(1), of 12 buf m] by (simp add: snprintf_def)
  have off: "unat (of_nat i :: u32) = i" if "i \<le> 11" for i using that by (simp add: unat_of_nat)
  have "at ?m buf i = ?o ! i" if "i < length ?o" for i
  proof -
    have "of_nat i \<noteq> (of_nat (length ?o) :: u32)" using off [of i] off [of "length ?o"] that len by (metis less_imp_neq order_less_le_trans less_imp_le)
    then show ?thesis using that len off [of i] by (simp add: at_def written_def min_def)
  qed
  moreover have "at ?m buf (length ?o) = 0" using len by (simp add: at_def min_def)
  moreover have "0 \<notin> set ?o" using ds(3) by (auto simp: list_all_iff is_digit_def)
  ultimately have "holds (at ?m buf) ?o" by (simp add: holds_def)
  from atoi_decimal [OF this ds(2, 3)] have "atoi (at ?m buf) = Some (sint w)" unfolding ds(4) by (cases "sint w < 0") simp_all
  then show ?thesis using run by blast
qed

end
