(* ===== verification/Ram.thy ===== *)
theory Ram
  imports Prelude
begin

text \<open>
  Physical memory: \<^verbatim>\<open>src/src/kern/arch/mips/mips/ram.c\<close> and the page allocation of
  \<^verbatim>\<open>src/src/kern/arch/mips/mips/dumbvm.c\<close> on top of it.

  \<open>ram\<close> holds the two static variables of \<^verbatim>\<open>ram.c\<close>. Pages are handed out in ascending order and never
  come back. All arithmetic is that of \<^verbatim>\<open>u_int32_t\<close> and wraps around.
\<close>

section \<open>The code\<close>

definition PAGE_SIZE :: u32 where "PAGE_SIZE = 4096"
definition PAGE_FRAME :: u32 where "PAGE_FRAME = 0xfffff000"
definition MIPS_KSEG0 :: u32 where "MIPS_KSEG0 = 0x80000000"

definition PADDR_TO_KVADDR :: "u32 \<Rightarrow> u32" where
  "PADDR_TO_KVADDR paddr = paddr + MIPS_KSEG0"

record ram =
  firstpaddr :: u32
  lastpaddr :: u32

text \<open>\<open>ramsize\<close> is what \<^verbatim>\<open>mips_ramsize\<close> reports, \<open>firstfree\<close> the address \<^verbatim>\<open>start.S\<close> has saved.\<close>

definition ram_bootstrap :: "u32 \<Rightarrow> u32 \<Rightarrow> ram" where
  "ram_bootstrap ramsize firstfree =
     \<lparr>firstpaddr = firstfree - MIPS_KSEG0,
      lastpaddr = (if ramsize > 508 * 1024 * 1024 then 508 * 1024 * 1024 else ramsize)\<rparr>"

definition ram_stealmem :: "u32 \<Rightarrow> 'a ram_scheme \<Rightarrow> u32 \<times> 'a ram_scheme" where
  "ram_stealmem npages st =
     (let size = npages * PAGE_SIZE in
      if firstpaddr st + size > lastpaddr st then (0, st)
      else (firstpaddr st, st\<lparr>firstpaddr := firstpaddr st + size\<rparr>))"

definition ram_getsize :: "'a ram_scheme \<Rightarrow> u32 \<times> u32 \<times> 'a ram_scheme" where
  "ram_getsize st = (firstpaddr st, lastpaddr st, st\<lparr>firstpaddr := 0, lastpaddr := 0\<rparr>)"

definition getppages :: "u32 \<Rightarrow> 'a ram_scheme \<Rightarrow> u32 \<times> 'a ram_scheme" where
  "getppages npages st = ram_stealmem npages st"

definition alloc_kpages :: "u32 \<Rightarrow> 'a ram_scheme \<Rightarrow> u32 \<times> 'a ram_scheme" where
  "alloc_kpages npages st =
     (let (pa, st1) = getppages npages st in
      if pa = 0 then (0, st1) else (PADDR_TO_KVADDR pa, st1))"

definition free_kpages :: "u32 \<Rightarrow> 'a ram_scheme \<Rightarrow> 'a ram_scheme" where
  "free_kpages addr st = st"

section \<open>What is handed out\<close>

text \<open>Memory as \<^verbatim>\<open>ram_bootstrap\<close> leaves it: page-aligned, below the cap, and not the page of the exception handlers.\<close>

definition ram_ok :: "'a ram_scheme \<Rightarrow> bool" where
  "ram_ok st \<longleftrightarrow> firstpaddr st \<noteq> 0 \<and> unat (firstpaddr st) mod 4096 = 0 \<and> firstpaddr st \<le> lastpaddr st \<and>
     lastpaddr st \<le> 508 * 1024 * 1024"

lemma ram_ok_bound: "ram_ok st \<Longrightarrow> unat (firstpaddr st) \<le> 0x1fc00000"
  by (simp add: ram_ok_def word_le_nat_alt)

text \<open>A request that does not wrap around gets the next pages or nothing.\<close>

lemma stealmem_ok:
  assumes ok: "ram_ok st" and n: "unat npages < 0xdfc00"
  shows "ram_stealmem npages st = (0, st) \<and> unat (lastpaddr st) < unat (firstpaddr st) + unat npages * 4096 \<or>
    (\<exists>st'. ram_stealmem npages st = (firstpaddr st, st') \<and> st' = st\<lparr>firstpaddr := firstpaddr st'\<rparr> \<and>
       unat (firstpaddr st') = unat (firstpaddr st) + unat npages * 4096 \<and> ram_ok st')"
proof -
  have f: "unat (firstpaddr st) \<le> 0x1fc00000" by (rule ram_ok_bound [OF ok])
  have s: "unat (npages * PAGE_SIZE) = unat npages * 4096" using n by (simp add: PAGE_SIZE_def unat_word_ariths)
  have t: "unat (firstpaddr st + npages * PAGE_SIZE) = unat (firstpaddr st) + unat npages * 4096"
    using f n by (simp add: unat_word_ariths(1) s)
  show ?thesis
  proof (cases "firstpaddr st + npages * PAGE_SIZE > lastpaddr st")
    case True
    then show ?thesis using t by (simp add: ram_stealmem_def Let_def word_less_nat_alt)
  next
    case False
    let ?s = "st\<lparr>firstpaddr := firstpaddr st + npages * PAGE_SIZE\<rparr>"
    have "unat (firstpaddr st) mod 4096 = 0" "firstpaddr st \<noteq> 0" using ok by (simp_all add: ram_ok_def)
    then have "unat (firstpaddr ?s) mod 4096 = 0" "firstpaddr ?s \<noteq> 0" using t by (auto simp: unat_eq_zero [symmetric])
    moreover have "firstpaddr ?s \<le> lastpaddr ?s" using False by simp
    ultimately have "ram_ok ?s" using ok by (simp add: ram_ok_def)
    then show ?thesis using False t by (simp add: ram_stealmem_def Let_def)
  qed
qed

end
