(* ===== verification/Kheap.thy ===== *)
theory Kheap
  imports Ram
begin

text \<open>
  The kernel heap, \<^verbatim>\<open>src/src/kern/lib/kheap.c\<close>: \<^verbatim>\<open>kmalloc\<close> and \<^verbatim>\<open>kfree\<close> over the pool-based subpage allocator.

  \<open>kheap\<close> has the static variables of the file and the memory they govern. A \<^verbatim>\<open>struct pageref *\<close> is an
  index into \<^verbatim>\<open>pagerefs\<close>, \<open>None\<close> for \<^verbatim>\<open>NULL\<close>; the free lists themselves live in the words of memory, as in
  the code. The functions run with interrupts off, so \<^verbatim>\<open>splhigh\<close> and \<^verbatim>\<open>splx\<close> leave no trace; \<^verbatim>\<open>SLOW\<close> and
  \<^verbatim>\<open>SLOWER\<close> are undefined, so \<^verbatim>\<open>checksubpage\<close> and \<^verbatim>\<open>checksubpages\<close> do nothing.
\<close>

section \<open>The code\<close>

definition sizes :: "nat list" where
  "sizes = [16, 32, 64, 128, 256, 512, 1024, 2048]"

definition LARGEST_SUBPAGE_SIZE :: u32 where "LARGEST_SUBPAGE_SIZE = 2048"
definition INVALID_OFFSET :: u16 where "INVALID_OFFSET = 0xffff"

record pageref =
  next_samesize :: "nat option"
  next_all :: "nat option"
  pageaddr_and_blocktype :: u32
  freelist_offset :: u16
  nfree :: u16

definition PR_PAGEADDR :: "pageref \<Rightarrow> u32" where
  "PR_PAGEADDR pr = pageaddr_and_blocktype pr AND PAGE_FRAME"

definition PR_BLOCKTYPE :: "pageref \<Rightarrow> u32" where
  "PR_BLOCKTYPE pr = pageaddr_and_blocktype pr AND NOT PAGE_FRAME"

definition MKPAB :: "u32 \<Rightarrow> u32 \<Rightarrow> u32" where
  "MKPAB pa blk = (pa AND PAGE_FRAME) OR (blk AND NOT PAGE_FRAME)"

record kheap = ram +
  kmem :: "u32 \<Rightarrow> u32"
  pagerefs :: "pageref list"
  pagerefs_inuse :: "u32 list"
  sizebases :: "nat option list"
  allbase :: "nat option"

definition NPAGEREFS :: nat where "NPAGEREFS = 256"
definition INUSE_WORDS :: nat where "INUSE_WORDS = 8"

abbreviation set_ref :: "nat \<Rightarrow> pageref \<Rightarrow> 'a kheap_scheme \<Rightarrow> 'a kheap_scheme" where
  "set_ref p pr kh \<equiv> kh\<lparr>pagerefs := (pagerefs kh)[p := pr]\<rparr>"

definition fill_deadbeef :: "u32 \<Rightarrow> nat \<Rightarrow> (u32 \<Rightarrow> u32) \<Rightarrow> u32 \<Rightarrow> u32" where
  "fill_deadbeef ptr len m = foldl (\<lambda>m i. m(ptr + of_nat (4 * i) := 0xdeadbeef)) m [0..<len div 4]"

text \<open>The outer loop of \<^verbatim>\<open>allocpageref\<close>, over the words from number \<open>i\<close> on; \<open>Some None\<close> is its \<^verbatim>\<open>NULL\<close>.\<close>

fun allocpageref_loop :: "nat list \<Rightarrow> 'a kheap_scheme \<Rightarrow> (nat option \<times> 'a kheap_scheme) kern" where
  "allocpageref_loop [] kh = Some (None, kh)"
| "allocpageref_loop (i # ix) kh =
     (if pagerefs_inuse kh ! i = 0xffffffff then allocpageref_loop ix kh
      else
        (case find (\<lambda>j. pagerefs_inuse kh ! i AND push_bit j 1 = 0) [0..<32] of
           None \<Rightarrow> None
         | Some j \<Rightarrow>
             Some (Some (i * 32 + j), kh\<lparr>pagerefs_inuse := (pagerefs_inuse kh)[i := pagerefs_inuse kh ! i OR push_bit j 1]\<rparr>)))"

definition allocpageref :: "'a kheap_scheme \<Rightarrow> (nat option \<times> 'a kheap_scheme) kern" where
  "allocpageref kh = allocpageref_loop [0..<INUSE_WORDS] kh"

definition freepageref :: "nat \<Rightarrow> 'a kheap_scheme \<Rightarrow> 'a kheap_scheme kern" where
  "freepageref j kh =
     do {
       kassert (j < NPAGEREFS);
       let i = j div 32;
       let k = push_bit (j mod 32) 1;
       kassert (pagerefs_inuse kh ! i AND k \<noteq> 0);
       Some (kh\<lparr>pagerefs_inuse := (pagerefs_inuse kh)[i := pagerefs_inuse kh ! i AND NOT k]\<rparr>)
     }"

text \<open>\<^verbatim>\<open>remove_lists\<close> walks with a pointer to the link it may change: a list base or the link field of a pageref.\<close>

datatype link = Base | Next nat

definition samesize_link :: "nat \<Rightarrow> link \<Rightarrow> 'a kheap_scheme \<Rightarrow> nat option" where
  "samesize_link b l kh = (case l of Base \<Rightarrow> sizebases kh ! b | Next p \<Rightarrow> next_samesize (pagerefs kh ! p))"

definition set_samesize_link :: "nat \<Rightarrow> link \<Rightarrow> nat option \<Rightarrow> 'a kheap_scheme \<Rightarrow> 'a kheap_scheme" where
  "set_samesize_link b l x kh =
     (case l of Base \<Rightarrow> kh\<lparr>sizebases := (sizebases kh)[b := x]\<rparr>
      | Next p \<Rightarrow> set_ref p ((pagerefs kh ! p)\<lparr>next_samesize := x\<rparr>) kh)"

definition all_link :: "link \<Rightarrow> 'a kheap_scheme \<Rightarrow> nat option" where
  "all_link l kh = (case l of Base \<Rightarrow> allbase kh | Next p \<Rightarrow> next_all (pagerefs kh ! p))"

definition set_all_link :: "link \<Rightarrow> nat option \<Rightarrow> 'a kheap_scheme \<Rightarrow> 'a kheap_scheme" where
  "set_all_link l x kh =
     (case l of Base \<Rightarrow> kh\<lparr>allbase := x\<rparr> | Next p \<Rightarrow> set_ref p ((pagerefs kh ! p)\<lparr>next_all := x\<rparr>) kh)"

partial_function (option) remove_samesize :: "nat \<Rightarrow> link \<Rightarrow> nat \<Rightarrow> 'a kheap_scheme \<Rightarrow> 'a kheap_scheme option" where
  "remove_samesize b guy pr kh =
     (case samesize_link b guy kh of
        None \<Rightarrow> Some kh
      | Some g \<Rightarrow>
          if g = pr then Some (set_samesize_link b guy (next_samesize (pagerefs kh ! pr)) kh)
          else remove_samesize b (Next g) pr kh)"

partial_function (option) remove_all :: "link \<Rightarrow> nat \<Rightarrow> 'a kheap_scheme \<Rightarrow> 'a kheap_scheme option" where
  "remove_all guy pr kh =
     (case all_link guy kh of
        None \<Rightarrow> Some kh
      | Some g \<Rightarrow>
          if g = pr then Some (set_all_link guy (next_all (pagerefs kh ! pr)) kh)
          else remove_all (Next g) pr kh)"

declare remove_samesize.simps [code] remove_all.simps [code]

definition remove_lists :: "nat \<Rightarrow> nat \<Rightarrow> 'a kheap_scheme \<Rightarrow> 'a kheap_scheme kern" where
  "remove_lists pr blktype kh =
     do {
       kassert (blktype < length sizes);
       kh1 \<leftarrow> remove_samesize blktype Base pr kh;
       remove_all Base pr kh1
     }"

definition blocktype :: "u32 \<Rightarrow> nat kern" where
  "blocktype sz = find (\<lambda>i. unat sz \<le> sizes ! i) [0..<length sizes]"

text \<open>The search of \<^verbatim>\<open>subpage_kmalloc\<close> for a page with a free block.\<close>

partial_function (option) find_page :: "u32 \<Rightarrow> nat option \<Rightarrow> 'a kheap_scheme \<Rightarrow> nat option option" where
  "find_page blktype p kh =
     (case p of
        None \<Rightarrow> Some None
      | Some p \<Rightarrow>
          if PR_BLOCKTYPE (pagerefs kh ! p) \<noteq> blktype then None
          else if nfree (pagerefs kh ! p) > 0 then Some (Some p)
          else find_page blktype (next_samesize (pagerefs kh ! p)) kh)"

text \<open>The search of \<^verbatim>\<open>subpage_kfree\<close> for the page an address is on.\<close>

partial_function (option) find_addr :: "u32 \<Rightarrow> nat option \<Rightarrow> 'a kheap_scheme \<Rightarrow> nat option option" where
  "find_addr ptraddr p kh =
     (case p of
        None \<Rightarrow> Some None
      | Some p \<Rightarrow>
          if \<not> unat (PR_BLOCKTYPE (pagerefs kh ! p)) < length sizes then None
          else if ptraddr \<ge> PR_PAGEADDR (pagerefs kh ! p) \<and> ptraddr < PR_PAGEADDR (pagerefs kh ! p) + PAGE_SIZE then Some (Some p)
          else find_addr ptraddr (next_all (pagerefs kh ! p)) kh)"

declare find_page.simps [code] find_addr.simps [code]

text \<open>The part of \<^verbatim>\<open>subpage_kmalloc\<close> from the label \<^verbatim>\<open>doalloc\<close> on.\<close>

definition doalloc :: "nat \<Rightarrow> 'a kheap_scheme \<Rightarrow> (u32 \<times> 'a kheap_scheme) kern" where
  "doalloc p kh =
     do {
       let pr = pagerefs kh ! p;
       kassert (ucast (freelist_offset pr) < PAGE_SIZE);
       let prpage = PR_PAGEADDR pr;
       let retptr = prpage + ucast (freelist_offset pr);
       let fl = kmem kh retptr;
       let pr = pr\<lparr>nfree := nfree pr - 1\<rparr>;
       if fl \<noteq> 0 then
         do {
           kassert (nfree pr > 0);
           kassert (fl - prpage < PAGE_SIZE);
           Some (retptr, set_ref p (pr\<lparr>freelist_offset := ucast (fl - prpage)\<rparr>) kh)
         }
       else
         do {
           kassert (nfree pr = 0);
           Some (retptr, set_ref p (pr\<lparr>freelist_offset := INVALID_OFFSET\<rparr>) kh)
         }
     }"

text \<open>The loop that links the blocks of a fresh page.\<close>

definition link_blocks :: "u32 \<Rightarrow> nat \<Rightarrow> nat \<Rightarrow> (u32 \<Rightarrow> u32) \<Rightarrow> (u32 \<Rightarrow> u32) kern" where
  "link_blocks fla bsize n m =
     kfold (\<lambda>m i. do {
       let fl = fla + of_nat (i * bsize);
       let nxt = fla + of_nat ((i - 1) * bsize);
       kassert (fl \<noteq> nxt);
       Some (m(fl := nxt))
     }) (m(fla := 0)) [1..<n]"

definition subpage_kmalloc :: "u32 \<Rightarrow> 'a kheap_scheme \<Rightarrow> (u32 \<times> 'a kheap_scheme) kern" where
  "subpage_kmalloc sz kh =
     do {
       blktype \<leftarrow> blocktype sz;
       let sz = sizes ! blktype;
       r \<leftarrow> find_page (of_nat blktype) (sizebases kh ! blktype) kh;
       (case r of
          Some p \<Rightarrow> doalloc p kh
        | None \<Rightarrow>
            do {
              (q, kh1) \<leftarrow> allocpageref kh;
              (case q of
                 None \<Rightarrow> Some (0, kh1)
               | Some p \<Rightarrow>
                   let (prpage, kh2) = alloc_kpages 1 kh1 in
                   if prpage = 0 then do { kh3 \<leftarrow> freepageref p kh2; Some (0, kh3) }
                   else do {
                     let n = 4096 div sz;
                     m \<leftarrow> link_blocks prpage sz n (kmem kh2);
                     let off = (prpage + of_nat ((n - 1) * sz)) - prpage;
                     kassert (unat (ucast off :: u16) = (n - 1) * sz);
                     let pr = \<lparr>next_samesize = sizebases kh2 ! blktype, next_all = allbase kh2,
                       pageaddr_and_blocktype = MKPAB prpage (of_nat blktype), freelist_offset = ucast off, nfree = of_nat n\<rparr>;
                     doalloc p (set_ref p pr (kh2\<lparr>kmem := m, sizebases := (sizebases kh2)[blktype := Some p], allbase := Some p\<rparr>))
                   })
            })
     }"

definition subpage_kfree :: "u32 \<Rightarrow> 'a kheap_scheme \<Rightarrow> (int \<times> 'a kheap_scheme) kern" where
  "subpage_kfree ptraddr kh =
     do {
       r \<leftarrow> find_addr ptraddr (allbase kh) kh;
       (case r of
          None \<Rightarrow> Some (-1, kh)
        | Some p \<Rightarrow>
            do {
              let pr = pagerefs kh ! p;
              let prpage = PR_PAGEADDR pr;
              let blktype = unat (PR_BLOCKTYPE pr);
              let offset = ptraddr - prpage;
              kassert (\<not> (offset \<ge> PAGE_SIZE \<or> unat offset mod sizes ! blktype \<noteq> 0));
              let m = fill_deadbeef ptraddr (sizes ! blktype) (kmem kh);
              let fla = prpage + offset;
              let m = m(fla := (if freelist_offset pr = INVALID_OFFSET then 0 else prpage + ucast (freelist_offset pr)));
              let pr = pr\<lparr>freelist_offset := ucast offset, nfree := nfree pr + 1\<rparr>;
              let kh1 = set_ref p pr (kh\<lparr>kmem := m\<rparr>);
              kassert (unat (nfree pr) \<le> 4096 div sizes ! blktype);
              if unat (nfree pr) = 4096 div sizes ! blktype then
                do {
                  kh2 \<leftarrow> remove_lists p blktype kh1;
                  kh3 \<leftarrow> freepageref p (free_kpages prpage kh2);
                  Some (0, kh3)
                }
              else Some (0, kh1)
            })
     }"

definition kmalloc :: "u32 \<Rightarrow> 'a kheap_scheme \<Rightarrow> (u32 \<times> 'a kheap_scheme) kern" where
  "kmalloc sz kh =
     (if sz \<ge> LARGEST_SUBPAGE_SIZE then
        let npages = (sz + PAGE_SIZE - 1) div PAGE_SIZE in
        Some (alloc_kpages npages kh)
      else subpage_kmalloc sz kh)"

definition kfree :: "u32 \<Rightarrow> 'a kheap_scheme \<Rightarrow> 'a kheap_scheme kern" where
  "kfree ptr kh =
     (if ptr = 0 then Some kh
      else do {
        (r, kh1) \<leftarrow> subpage_kfree ptr kh;
        if r \<noteq> 0 then do { kassert (unat ptr mod 4096 = 0); Some (free_kpages ptr kh1) } else Some kh1
      })"

section \<open>Sizes and addresses\<close>

abbreviation nblocks :: "nat \<Rightarrow> nat" where
  "nblocks b \<equiv> 4096 div sizes ! b"

lemma length_sizes [simp]: "length sizes = 8"
  by (simp add: sizes_def)

lemma sizes_ok:
  assumes "b < 8"
  shows "nblocks b * sizes ! b = 4096" "16 \<le> sizes ! b" "2 \<le> nblocks b" "nblocks b \<le> 256" "4 dvd sizes ! b" "sizes ! b \<le> 2048"
proof -
  have "b \<in> {0, 1, 2, 3, 4, 5, 6, 7}" using assms by auto
  then show "nblocks b * sizes ! b = 4096" "16 \<le> sizes ! b" "2 \<le> nblocks b" "nblocks b \<le> 256" "4 dvd sizes ! b" "sizes ! b \<le> 2048"
    by (auto simp: sizes_def)
qed

lemma block_inside:
  assumes "b < 8" and "k < nblocks b"
  shows "k * sizes ! b + sizes ! b \<le> 4096" "k * sizes ! b < 4096"
proof -
  have "(k + 1) * sizes ! b \<le> nblocks b * sizes ! b" using assms(2) by (intro mult_right_mono) simp_all
  then show "k * sizes ! b + sizes ! b \<le> 4096" using sizes_ok(1) [OF assms(1)] by simp
  then show "k * sizes ! b < 4096" using sizes_ok(2) [OF assms(1)] by simp
qed

lemma block_inj: "b < 8 \<Longrightarrow> j * sizes ! b = k * sizes ! b \<longleftrightarrow> j = k"
  using sizes_ok(2) [of b] by auto

lemma off_word: "n < 4096 \<Longrightarrow> unat (of_nat n :: u32) = n" "n < 4096 \<Longrightarrow> unat (of_nat n :: u16) = n"
  "n < 4096 \<Longrightarrow> (ucast (of_nat n :: u16) :: u32) = of_nat n" "n < 4096 \<Longrightarrow> (ucast (of_nat n :: u32) :: u16) = of_nat n"
  by (simp_all add: unat_of_nat word_unat_eq_iff unsigned_ucast_eq take_bit_nat_eq_self)

lemma frame_mask: "PAGE_FRAME = NOT (mask 12)"
  by (simp add: PAGE_FRAME_def mask_eq_exp_minus_1)

lemma unat_low: "unat (a AND mask 12 :: u32) = unat a mod 4096"
  by (simp add: take_bit_eq_mask [symmetric] take_bit_eq_mod unat_mod)

lemma aligned_frame: "unat (a :: u32) mod 4096 = 0 \<Longrightarrow> a AND PAGE_FRAME = a"
proof -
  assume "unat a mod 4096 = 0"
  then have "a AND mask 12 = 0" by (simp add: word_unat_eq_iff unat_low)
  moreover have "a = (a AND NOT (mask 12)) OR (a AND mask 12)" by (simp add: bit_eq_iff bit_simps) blast
  ultimately show ?thesis unfolding frame_mask by simp
qed

lemma MKPAB_parts:
  assumes "unat a mod 4096 = 0" and "b < 8"
  shows "MKPAB a (of_nat b) AND PAGE_FRAME = a" "MKPAB a (of_nat b) AND NOT PAGE_FRAME = of_nat b"
proof -
  have "of_nat b AND mask 12 = (of_nat b :: u32)" using assms(2) by (simp add: word_unat_eq_iff unat_low unat_of_nat)
  moreover have "MKPAB a (of_nat b) AND PAGE_FRAME = a AND PAGE_FRAME" by (simp add: MKPAB_def bit_eq_iff bit_simps) blast
  moreover have "MKPAB a (of_nat b) AND NOT PAGE_FRAME = of_nat b AND NOT PAGE_FRAME" by (simp add: MKPAB_def bit_eq_iff bit_simps) blast
  ultimately show "MKPAB a (of_nat b) AND PAGE_FRAME = a" "MKPAB a (of_nat b) AND NOT PAGE_FRAME = of_nat b"
    using aligned_frame [OF assms(1)] by (simp_all add: frame_mask)
qed

section \<open>The invariant\<close>

text \<open>A linked list of pagerefs, and the free list of a page as block numbers.\<close>

fun chain :: "(nat \<Rightarrow> nat option) \<Rightarrow> nat option \<Rightarrow> nat list \<Rightarrow> bool" where
  "chain nxt s [] \<longleftrightarrow> s = None"
| "chain nxt s (p # ps) \<longleftrightarrow> s = Some p \<and> chain nxt (nxt p) ps"

definition nextw :: "u32 \<Rightarrow> nat \<Rightarrow> nat list \<Rightarrow> u32" where
  "nextw page s ks = (case ks of [] \<Rightarrow> 0 | k # _ \<Rightarrow> page + of_nat (k * s))"

fun free_at :: "(u32 \<Rightarrow> u32) \<Rightarrow> u32 \<Rightarrow> nat \<Rightarrow> nat list \<Rightarrow> bool" where
  "free_at m page s [] \<longleftrightarrow> True"
| "free_at m page s (k # ks) \<longleftrightarrow> m (page + of_nat (k * s)) = nextw page s ks \<and> free_at m page s ks"

definition page_ok :: "(u32 \<Rightarrow> u32) \<Rightarrow> pageref \<Rightarrow> nat list \<Rightarrow> bool" where
  "page_ok m pr ks \<longleftrightarrow> (let b = unat (PR_BLOCKTYPE pr) in
     b < 8 \<and> distinct ks \<and> set ks \<subseteq> {..<nblocks b} \<and> unat (nfree pr) = length ks \<and>
     freelist_offset pr = (case ks of [] \<Rightarrow> INVALID_OFFSET | k # _ \<Rightarrow> of_nat (k * sizes ! b)) \<and>
     free_at m (PR_PAGEADDR pr) (sizes ! b) ks)"

text \<open>A range of whole pages of the memory handed out so far, by its kernel address.\<close>

definition in_ram :: "'a ram_scheme \<Rightarrow> u32 \<Rightarrow> nat \<Rightarrow> bool" where
  "in_ram kh a n \<longleftrightarrow> unat a mod 4096 = 0 \<and> 0x80000000 \<le> unat a \<and> unat a + n \<le> 0x80000000 + unat (firstpaddr kh)"

definition bytes :: "u32 \<times> nat \<Rightarrow> nat set" where
  "bytes blk = {unat (fst blk)..<unat (fst blk) + snd blk}"

text \<open>\<open>L\<close>: the pagerefs in use, in the order of the list; \<open>F p\<close>: the free blocks of a page, in the order of its free
  list; \<open>G\<close>: the allocations of whole pages.\<close>

definition inuse_bit :: "u32 list \<Rightarrow> nat \<Rightarrow> bool" where
  "inuse_bit u p \<longleftrightarrow> bit (u ! (p div 32)) (p mod 32)"

definition refs_ok :: "'a kheap_scheme \<Rightarrow> nat list \<Rightarrow> bool" where
  "refs_ok kh L \<longleftrightarrow> length (pagerefs kh) = 256 \<and> length (pagerefs_inuse kh) = 8 \<and> length (sizebases kh) = 8 \<and> distinct L \<and>
     (\<forall>p. p \<in> set L \<longleftrightarrow> p < 256 \<and> inuse_bit (pagerefs_inuse kh) p) \<and>
     chain (\<lambda>p. next_all (pagerefs kh ! p)) (allbase kh) L \<and>
     (\<forall>b<8. chain (\<lambda>p. next_samesize (pagerefs kh ! p)) (sizebases kh ! b)
        (filter (\<lambda>p. unat (PR_BLOCKTYPE (pagerefs kh ! p)) = b) L))"

definition space_ok :: "'a kheap_scheme \<Rightarrow> nat list \<Rightarrow> (u32 \<times> nat) set \<Rightarrow> bool" where
  "space_ok kh L G \<longleftrightarrow> ram_ok kh \<and> (\<forall>p\<in>set L. in_ram kh (PR_PAGEADDR (pagerefs kh ! p)) 4096) \<and>
     (\<forall>p\<in>set L. \<forall>q\<in>set L. p \<noteq> q \<longrightarrow> PR_PAGEADDR (pagerefs kh ! p) \<noteq> PR_PAGEADDR (pagerefs kh ! q)) \<and>
     (\<forall>g\<in>G. in_ram kh (fst g) (snd g) \<and> 4096 \<le> snd g) \<and>
     (\<forall>g\<in>G. \<forall>h\<in>G. g \<noteq> h \<longrightarrow> bytes g \<inter> bytes h = {}) \<and>
     (\<forall>g\<in>G. \<forall>p\<in>set L. bytes g \<inter> bytes (PR_PAGEADDR (pagerefs kh ! p), 4096) = {})"

definition heap_rep :: "'a kheap_scheme \<Rightarrow> nat list \<Rightarrow> (nat \<Rightarrow> nat list) \<Rightarrow> (u32 \<times> nat) set \<Rightarrow> bool" where
  "heap_rep kh L F G \<longleftrightarrow> refs_ok kh L \<and> space_ok kh L G \<and> (\<forall>p\<in>set L. page_ok (kmem kh) (pagerefs kh ! p) (F p))"

definition not_all_free :: "'a kheap_scheme \<Rightarrow> nat list \<Rightarrow> (nat \<Rightarrow> nat list) \<Rightarrow> bool" where
  "not_all_free kh L F \<longleftrightarrow> (\<forall>p\<in>set L. length (F p) < nblocks (unat (PR_BLOCKTYPE (pagerefs kh ! p))))"

text \<open>The blocks a page has given away.\<close>

definition taken :: "pageref \<Rightarrow> nat list \<Rightarrow> (u32 \<times> nat) set" where
  "taken pr ks = (\<lambda>k. (PR_PAGEADDR pr + of_nat (k * sizes ! unat (PR_BLOCKTYPE pr)), sizes ! unat (PR_BLOCKTYPE pr))) `
     ({..<nblocks (unat (PR_BLOCKTYPE pr))} - set ks)"

definition live :: "'a kheap_scheme \<Rightarrow> nat list \<Rightarrow> (nat \<Rightarrow> nat list) \<Rightarrow> (u32 \<times> nat) set \<Rightarrow> (u32 \<times> nat) set" where
  "live kh L F G = (\<Union>p\<in>set L. taken (pagerefs kh ! p) (F p)) \<union> G"

text \<open>\<open>heap kh B\<close>: the heap is in order and \<open>B\<close> is the set of blocks, with their sizes, that are allocated.\<close>

definition heap :: "'a kheap_scheme \<Rightarrow> (u32 \<times> nat) set \<Rightarrow> bool" where
  "heap kh B \<longleftrightarrow> (\<exists>L F G. heap_rep kh L F G \<and> not_all_free kh L F \<and> B = live kh L F G)"

lemma chain_cong: "chain f s ps \<Longrightarrow> (\<And>p. p \<in> set ps \<Longrightarrow> g p = f p) \<Longrightarrow> chain g s ps"
  by (induction ps arbitrary: s) auto

lemma find_page_chain:
  "chain (\<lambda>p. next_samesize (pagerefs kh ! p)) s ps \<Longrightarrow> (\<And>p. p \<in> set ps \<Longrightarrow> PR_BLOCKTYPE (pagerefs kh ! p) = b) \<Longrightarrow>
   find_page b s kh = Some (find (\<lambda>p. nfree (pagerefs kh ! p) > 0) ps)"
proof (induction ps arbitrary: s)
  case (Cons p ps)
  from Cons.prems have "s = Some p" "find_page b (next_samesize (pagerefs kh ! p)) kh = Some (find (\<lambda>p. nfree (pagerefs kh ! p) > 0) ps)"
    by (auto intro: Cons.IH)
  then show ?case using Cons.prems(2) [of p] by (subst find_page.simps) simp
qed (subst find_page.simps, simp)

lemma find_addr_chain:
  "chain (\<lambda>p. next_all (pagerefs kh ! p)) s ps \<Longrightarrow> (\<And>p. p \<in> set ps \<Longrightarrow> unat (PR_BLOCKTYPE (pagerefs kh ! p)) < 8) \<Longrightarrow>
   find_addr a s kh = Some (find (\<lambda>p. a \<ge> PR_PAGEADDR (pagerefs kh ! p) \<and> a < PR_PAGEADDR (pagerefs kh ! p) + PAGE_SIZE) ps)"
proof (induction ps arbitrary: s)
  case (Cons p ps)
  from Cons.prems have "s = Some p" "find_addr a (next_all (pagerefs kh ! p)) kh =
      Some (find (\<lambda>p. a \<ge> PR_PAGEADDR (pagerefs kh ! p) \<and> a < PR_PAGEADDR (pagerefs kh ! p) + PAGE_SIZE) ps)"
    by (auto intro: Cons.IH)
  then show ?case using Cons.prems(2) [of p] by (subst find_addr.simps) simp
qed (subst find_addr.simps, simp)

section \<open>Removing from a linked list\<close>

text \<open>The two loops of \<^verbatim>\<open>remove_lists\<close> have one contract, over the links they read and write.\<close>

locale link_list =
  fixes get :: "link \<Rightarrow> 's \<Rightarrow> nat option"
    and put :: "link \<Rightarrow> nat option \<Rightarrow> 's \<Rightarrow> 's"
    and valid :: "link \<Rightarrow> 's \<Rightarrow> bool"
    and rem :: "link \<Rightarrow> nat \<Rightarrow> 's \<Rightarrow> 's option"
  assumes get_put: "valid l st \<Longrightarrow> get l' (put l x st) = (if l' = l then x else get l' st)"
    and rem_step: "rem l p st = (case get l st of None \<Rightarrow> Some st
      | Some g \<Rightarrow> if g = p then Some (put l (get (Next p) st) st) else rem (Next g) p st)"
begin

lemma rem_chain:
  "chain (\<lambda>q. get (Next q) st) (get l st) ps \<Longrightarrow> p \<in> set ps \<Longrightarrow> distinct ps \<Longrightarrow> l \<notin> Next ` set ps \<Longrightarrow>
   valid l st \<Longrightarrow> (\<And>q. q \<in> set ps \<Longrightarrow> valid (Next q) st) \<Longrightarrow>
   \<exists>l' st'. rem l p st = Some st' \<and> st' = put l' (get (Next p) st) st \<and> valid l' st \<and> l' \<in> insert l (Next ` set ps) \<and>
     chain (\<lambda>q. get (Next q) st') (get l st') (remove1 p ps)"
proof (induction ps arbitrary: l)
  case (Cons g ps)
  have g: "get l st = Some g" "chain (\<lambda>q. get (Next q) st) (get (Next g) st) ps" using Cons.prems(1) by simp_all
  show ?case
  proof (cases "g = p")
    case True
    have "chain (\<lambda>q. get (Next q) (put l (get (Next p) st) st)) (get (Next p) st) ps"
      by (rule chain_cong [OF g(2) [unfolded True]]) (use Cons.prems(4, 5) in \<open>auto simp: get_put\<close>)
    then show ?thesis using g True Cons.prems(5) by (subst rem_step) (auto simp: get_put)
  next
    case False
    obtain l' st' where r: "rem (Next g) p st = Some st'" "st' = put l' (get (Next p) st) st" "valid l' st" "l' \<in> insert (Next g) (Next ` set ps)"
      "chain (\<lambda>q. get (Next q) st') (get (Next g) st') (remove1 p ps)"
      using Cons.IH [of "Next g", OF g(2)] Cons.prems False by auto
    have "l \<noteq> l'" using r(4) Cons.prems(4) by auto
    then have "get l st' = Some g" using g(1) r(2, 3) by (simp add: get_put)
    then show ?thesis using r g False by (subst rem_step) auto
  qed
qed simp

end

definition link_ok :: "nat \<Rightarrow> link \<Rightarrow> 'a kheap_scheme \<Rightarrow> bool" where
  "link_ok b l kh \<longleftrightarrow> (case l of Base \<Rightarrow> b < length (sizebases kh) | Next p \<Rightarrow> p < length (pagerefs kh))"

interpretation same: link_list "samesize_link b" "set_samesize_link b" "link_ok b" "remove_samesize b" for b
proof
  show "link_ok b l kh \<Longrightarrow> samesize_link b l' (set_samesize_link b l x kh) = (if l' = l then x else samesize_link b l' kh)"
    for l l' x and kh :: "'a kheap_scheme"
    by (auto simp: link_ok_def samesize_link_def set_samesize_link_def nth_list_update split: link.splits)
  show "remove_samesize b l p kh = (case samesize_link b l kh of None \<Rightarrow> Some kh
      | Some g \<Rightarrow> if g = p then Some (set_samesize_link b l (samesize_link b (Next p) kh) kh) else remove_samesize b (Next g) p kh)"
    for l p and kh :: "'a kheap_scheme"
    by (subst remove_samesize.simps) (simp add: samesize_link_def [of _ "Next p"] split: option.split)
qed

interpretation all: link_list all_link set_all_link "link_ok 0" remove_all
proof
  show "link_ok 0 l kh \<Longrightarrow> all_link l' (set_all_link l x kh) = (if l' = l then x else all_link l' kh)"
    for l l' x and kh :: "'a kheap_scheme"
    by (auto simp: link_ok_def all_link_def set_all_link_def nth_list_update split: link.splits)
  show "remove_all l p kh = (case all_link l kh of None \<Rightarrow> Some kh
      | Some g \<Rightarrow> if g = p then Some (set_all_link l (all_link (Next p) kh) kh) else remove_all (Next g) p kh)"
    for l p and kh :: "'a kheap_scheme"
    by (subst remove_all.simps) (simp add: all_link_def [of "Next p"] split: option.split)
qed

section \<open>The pageref bitmap\<close>

lemma and_push_bit: "(w AND 2 ^ j = (0 :: u32)) \<longleftrightarrow> \<not> (j < 32 \<and> bit w j)"
  by (auto simp: bit_eq_iff [where 'a = u32] bit_simps)

lemma inuse_bit_set:
  assumes "length u = 8" and "i < 8" and "j < 32" and "\<And>n. n < 32 \<Longrightarrow> bit v n = (if n = j then x else bit (u ! i) n)"
  shows "inuse_bit (u[i := v]) q = (if q = i * 32 + j then x else inuse_bit u q)"
proof -
  have "q = i * 32 + j \<longleftrightarrow> q div 32 = i \<and> q mod 32 = j" using assms(3) by auto
  then show ?thesis using assms(1, 2) assms(4) [of "q mod 32"] by (auto simp: inuse_bit_def nth_list_update)
qed

lemma allocpageref_loop_ok:
  "length (pagerefs_inuse kh) = 8 \<Longrightarrow> set ix \<subseteq> {..<8} \<Longrightarrow>
   allocpageref_loop ix kh = Some (None, kh) \<and> (\<forall>i\<in>set ix. pagerefs_inuse kh ! i = 0xffffffff) \<or>
   (\<exists>p u. allocpageref_loop ix kh = Some (Some p, kh\<lparr>pagerefs_inuse := u\<rparr>) \<and> p < 256 \<and> \<not> inuse_bit (pagerefs_inuse kh) p \<and>
      length u = 8 \<and> (\<forall>q. inuse_bit u q = (if q = p then True else inuse_bit (pagerefs_inuse kh) q)))"
proof (induction ix)
  case (Cons i ix)
  let ?w = "pagerefs_inuse kh ! i"
  show ?case
  proof (cases "?w = 0xffffffff")
    case True
    then show ?thesis using Cons by simp
  next
    case False
    have "\<exists>j<32. \<not> bit ?w j"
    proof (rule ccontr)
      assume "\<not> (\<exists>j<32. \<not> bit ?w j)"
      then have "?w = mask 32" by (auto simp: bit_eq_iff [where 'a = u32] bit_simps)
      then show False using False by (simp add: mask_eq_exp_minus_1)
    qed
    then obtain j where j: "find (\<lambda>j. ?w AND push_bit j 1 = 0) [0..<32] = Some j"
      by (cases "find (\<lambda>j. ?w AND push_bit j 1 = 0) [0..<32]") (auto simp: find_None_iff and_push_bit)
    then have "j < 32" "\<not> bit ?w j" by (auto simp: find_Some_iff and_push_bit)
    moreover have "i < 8" using Cons.prems(2) by simp
    moreover have "inuse_bit ((pagerefs_inuse kh)[i := ?w OR push_bit j 1]) q =
        (if q = i * 32 + j then True else inuse_bit (pagerefs_inuse kh) q)" if "j < 32" "i < 8" for q
      by (rule inuse_bit_set) (use that Cons.prems(1) in \<open>auto simp: bit_simps\<close>)
    moreover have "\<not> inuse_bit (pagerefs_inuse kh) (i * 32 + j)" if "j < 32" "\<not> bit ?w j" using that by (simp add: inuse_bit_def)
    ultimately show ?thesis using False j Cons.prems(1)
      by (intro disjI2 exI [of _ "i * 32 + j"] exI [of _ "(pagerefs_inuse kh)[i := ?w OR push_bit j 1]"]) simp
  qed
qed simp

lemma inuse_all:
  assumes "u ! (p div 32) = 0xffffffff"
  shows "inuse_bit u p"
proof -
  have "u ! (p div 32) = mask 32" using assms by (simp add: mask_eq_exp_minus_1)
  then show ?thesis unfolding inuse_bit_def by (simp only: bit_simps) simp
qed

lemma allocpageref_ok:
  assumes "length (pagerefs_inuse kh) = 8"
  shows "allocpageref kh = Some (None, kh) \<and> (\<forall>p<256. inuse_bit (pagerefs_inuse kh) p) \<or>
   (\<exists>p u. allocpageref kh = Some (Some p, kh\<lparr>pagerefs_inuse := u\<rparr>) \<and> p < 256 \<and> \<not> inuse_bit (pagerefs_inuse kh) p \<and>
      length u = 8 \<and> (\<forall>q. inuse_bit u q = (if q = p then True else inuse_bit (pagerefs_inuse kh) q)))"
proof -
  have "set [0..<INUSE_WORDS] \<subseteq> {..<8}" by (auto simp: INUSE_WORDS_def)
  moreover have "\<forall>i\<in>set [0..<INUSE_WORDS]. pagerefs_inuse kh ! i = 0xffffffff \<Longrightarrow> \<forall>p<256. inuse_bit (pagerefs_inuse kh) p"
    by (auto simp: INUSE_WORDS_def intro!: inuse_all)
  ultimately show ?thesis using allocpageref_loop_ok [OF assms, of "[0..<INUSE_WORDS]"] unfolding allocpageref_def by blast
qed

lemma freepageref_ok:
  assumes "length (pagerefs_inuse kh) = 8" and "p < 256" and "inuse_bit (pagerefs_inuse kh) p"
  shows "\<exists>u. freepageref p kh = Some (kh\<lparr>pagerefs_inuse := u\<rparr>) \<and> length u = 8 \<and>
    (\<forall>q. inuse_bit u q = (if q = p then False else inuse_bit (pagerefs_inuse kh) q))"
proof -
  let ?v = "pagerefs_inuse kh ! (p div 32) AND NOT (push_bit (p mod 32) 1)"
  have "inuse_bit ((pagerefs_inuse kh)[p div 32 := ?v]) q = (if q = p div 32 * 32 + p mod 32 then False else inuse_bit (pagerefs_inuse kh) q)" for q
    by (rule inuse_bit_set) (use assms in \<open>auto simp: bit_simps\<close>)
  moreover have "freepageref p kh = Some (kh\<lparr>pagerefs_inuse := (pagerefs_inuse kh)[p div 32 := ?v]\<rparr>)"
    using assms by (simp add: freepageref_def NPAGEREFS_def kern_simps Let_def and_push_bit inuse_bit_def)
  ultimately show ?thesis using assms(1) by (intro exI [of _ "(pagerefs_inuse kh)[p div 32 := ?v]"]) simp
qed

section \<open>Blocks and pages\<close>

declare of_nat_mult [simp del]

abbreviation block :: "pageref \<Rightarrow> nat \<Rightarrow> u32 \<times> nat" where
  "block pr k \<equiv> (PR_PAGEADDR pr + of_nat (k * sizes ! unat (PR_BLOCKTYPE pr)), sizes ! unat (PR_BLOCKTYPE pr))"

text \<open>A page of memory that does not reach the end of the address space.\<close>

definition is_page :: "u32 \<Rightarrow> bool" where
  "is_page a \<longleftrightarrow> unat a mod 4096 = 0 \<and> 0x80000000 \<le> unat a \<and> unat a + 4096 \<le> 0x9fc00000"

lemma in_ram_page: "ram_ok kh \<Longrightarrow> in_ram kh a 4096 \<Longrightarrow> is_page a"
  using ram_ok_bound [of kh] by (auto simp: in_ram_def is_page_def)

lemma page_addr: "is_page a \<Longrightarrow> n < 4096 \<Longrightarrow> unat (a + of_nat n) = unat a + n"
  by (simp add: is_page_def unat_word_ariths(1) off_word)

lemma off_inj: "n < 4096 \<Longrightarrow> n' < 4096 \<Longrightarrow> (of_nat n :: u32) = of_nat n' \<longleftrightarrow> n = n'"
  by (metis off_word(1))

lemma page_addr_nonzero: "is_page a \<Longrightarrow> n < 4096 \<Longrightarrow> a + of_nat n \<noteq> 0"
  by (auto simp: unat_eq_zero [symmetric] page_addr is_page_def)

lemma page_block:
  assumes "is_page (PR_PAGEADDR pr)" and "unat (PR_BLOCKTYPE pr) < 8" and "k < nblocks (unat (PR_BLOCKTYPE pr))"
  shows "bytes (block pr k) = {unat (PR_PAGEADDR pr) + k * sizes ! unat (PR_BLOCKTYPE pr)..<
    unat (PR_PAGEADDR pr) + k * sizes ! unat (PR_BLOCKTYPE pr) + sizes ! unat (PR_BLOCKTYPE pr)}"
    and "bytes (block pr k) \<subseteq> bytes (PR_PAGEADDR pr, 4096)"
  using block_inside [OF assms(2, 3)] by (auto simp: bytes_def page_addr [OF assms(1)])

lemma blocks_apart:
  assumes "is_page (PR_PAGEADDR pr)" and "unat (PR_BLOCKTYPE pr) < 8" and "j \<noteq> k"
    and "j < nblocks (unat (PR_BLOCKTYPE pr))" "k < nblocks (unat (PR_BLOCKTYPE pr))"
  shows "bytes (block pr j) \<inter> bytes (block pr k) = {}"
proof -
  let ?s = "sizes ! unat (PR_BLOCKTYPE pr)"
  have "j < k \<Longrightarrow> (j + 1) * ?s \<le> k * ?s" "k < j \<Longrightarrow> (k + 1) * ?s \<le> j * ?s" by (rule mult_right_mono; simp)+
  then have "j * ?s + ?s \<le> k * ?s \<or> k * ?s + ?s \<le> j * ?s" using assms(3) by (cases "j < k") simp_all
  then show ?thesis using page_block(1) [OF assms(1, 2, 4)] page_block(1) [OF assms(1, 2, 5)] by auto
qed

lemma pages_apart:
  assumes "is_page a" "is_page c" "a \<noteq> c"
  shows "bytes (a, 4096) \<inter> bytes (c, 4096) = {}"
proof -
  have "unat a \<noteq> unat c" using assms(3) by (simp add: word_unat_eq_iff)
  moreover obtain i j where "unat a = 4096 * i" "unat c = 4096 * j" using assms(1, 2) unfolding is_page_def by (auto elim!: dvdE)
  ultimately have "unat a + 4096 \<le> unat c \<or> unat c + 4096 \<le> unat a" by simp linarith
  then show ?thesis by (auto simp: bytes_def)
qed

text \<open>The free list of a page depends on the page's own words only, and only on the free blocks.\<close>

lemma free_at_cong: "free_at m a s ks \<Longrightarrow> (\<And>k. k \<in> set ks \<Longrightarrow> m' (a + of_nat (k * s)) = m (a + of_nat (k * s))) \<Longrightarrow> free_at m' a s ks"
  by (induction ks) simp_all

lemma page_ok_cong:
  assumes "page_ok m pr ks" and "\<And>k. k \<in> set ks \<Longrightarrow> m' (fst (block pr k)) = m (fst (block pr k))"
  shows "page_ok m' pr ks"
  using assms free_at_cong [of m "PR_PAGEADDR pr" "sizes ! unat (PR_BLOCKTYPE pr)" ks m'] by (simp add: page_ok_def Let_def)

lemma block_start:
  assumes "is_page (PR_PAGEADDR pr)" and "page_ok m pr ks" and "k \<in> set ks"
  shows "k < nblocks (unat (PR_BLOCKTYPE pr))" "unat (fst (block pr k)) \<in> bytes (block pr k)"
  using assms sizes_ok(2) [of "unat (PR_BLOCKTYPE pr)"] by (auto simp: page_ok_def Let_def bytes_def)

lemma taken_cons:
  assumes "is_page (PR_PAGEADDR pr)" and "page_ok m pr (k # ks)"
  shows "taken pr ks = insert (block pr k) (taken pr (k # ks))" "block pr k \<notin> taken pr (k # ks)"
proof -
  have k: "k < nblocks (unat (PR_BLOCKTYPE pr))" "k \<notin> set ks" "unat (PR_BLOCKTYPE pr) < 8"
    using assms(2) by (auto simp: page_ok_def Let_def)
  then show "taken pr ks = insert (block pr k) (taken pr (k # ks))" unfolding taken_def by auto
  show "block pr k \<notin> taken pr (k # ks)"
    using k by (auto simp: taken_def off_inj block_inside(2) block_inj)
qed

text \<open>Taking a block off the free list of a page.\<close>

lemma doalloc_ok:
  assumes pg: "is_page (PR_PAGEADDR (pagerefs kh ! p))" and ok: "page_ok (kmem kh) (pagerefs kh ! p) (k # ks)"
  shows "\<exists>f n. doalloc p kh = Some (fst (block (pagerefs kh ! p) k), set_ref p ((pagerefs kh ! p)\<lparr>nfree := n, freelist_offset := f\<rparr>) kh) \<and>
    page_ok (kmem kh) ((pagerefs kh ! p)\<lparr>nfree := n, freelist_offset := f\<rparr>) ks"
proof -
  let ?pr = "pagerefs kh ! p" and ?s = "sizes ! unat (PR_BLOCKTYPE (pagerefs kh ! p))"
  have b: "unat (PR_BLOCKTYPE ?pr) < 8" "distinct (k # ks)" "\<forall>j\<in>set (k # ks). j * ?s < 4096"
    using ok block_inside(2) by (auto simp: page_ok_def Let_def subset_iff)
  have off: "freelist_offset ?pr = of_nat (k * ?s)" "unat (nfree ?pr) = Suc (length ks)"
    "kmem kh (PR_PAGEADDR ?pr + of_nat (k * ?s)) = nextw (PR_PAGEADDR ?pr) ?s ks"
    using ok by (simp_all add: page_ok_def Let_def)
  have n: "unat (nfree ?pr - 1) = length ks" using off(2) by (simp add: unat_minus_one unat_eq_zero [symmetric])
  have same: "PR_PAGEADDR (?pr\<lparr>nfree := x, freelist_offset := f\<rparr>) = PR_PAGEADDR ?pr"
    "PR_BLOCKTYPE (?pr\<lparr>nfree := x, freelist_offset := f\<rparr>) = PR_BLOCKTYPE ?pr" for x f
    by (simp_all add: PR_PAGEADDR_def PR_BLOCKTYPE_def)
  note run = doalloc_def Let_def kern_simps off off_word PAGE_SIZE_def word_less_nat_alt nextw_def n
  show ?thesis
  proof (cases ks)
    case Nil
    then have "doalloc p kh = Some (fst (block ?pr k), set_ref p (?pr\<lparr>nfree := nfree ?pr - 1, freelist_offset := INVALID_OFFSET\<rparr>) kh)"
      using b n by (simp add: run word_unat_eq_iff)
    then show ?thesis using ok Nil n
      by (intro exI [of _ INVALID_OFFSET] exI [of _ "nfree ?pr - 1"]) (simp add: page_ok_def Let_def same)
  next
    case (Cons j js)
    have "j * ?s < 4096" using b(3) Cons by simp
    then have "doalloc p kh = Some (fst (block ?pr k), set_ref p (?pr\<lparr>nfree := nfree ?pr - 1, freelist_offset := of_nat (j * ?s)\<rparr>) kh)"
      using b n Cons page_addr_nonzero [OF pg, of "j * ?s"] by (simp add: run)
    then show ?thesis using ok Cons n
      by (intro exI [of _ "of_nat (j * ?s)"] exI [of _ "nfree ?pr - 1"]) (simp add: page_ok_def Let_def same)
  qed
qed

text \<open>Linking the blocks of a fresh page.\<close>

lemma link_blocks_step:
  assumes "1 \<le> n"
  shows "link_blocks a s (Suc n) m = do { m' \<leftarrow> link_blocks a s n m;
    kassert (a + of_nat (n * s) \<noteq> a + of_nat ((n - 1) * s)); Some (m'(a + of_nat (n * s) := a + of_nat ((n - 1) * s))) }"
  using assms by (simp add: link_blocks_def kfold_append Let_def)

lemma link_blocks_ok:
  assumes "is_page a" and "0 < s"
  shows "1 \<le> n \<Longrightarrow> n * s \<le> 4096 \<Longrightarrow> \<exists>m'. link_blocks a s n m = Some m' \<and> free_at m' a s (rev [0..<n]) \<and>
    (\<forall>x. unat x \<notin> bytes (a, 4096) \<longrightarrow> m' x = m x)"
proof (induction n rule: nat_induct_at_least)
  case base
  have "unat x \<notin> bytes (a, 4096) \<Longrightarrow> x \<noteq> a" for x by (auto simp: bytes_def)
  then show ?case by (auto simp: link_blocks_def kern_simps nextw_def)
next
  case (Suc n)
  have "n * s = (n - 1) * s + s" using Suc.hyps by (cases n) simp_all
  then have n: "n * s < 4096" "(n - 1) * s < 4096" "n * s \<noteq> (n - 1) * s" using Suc.prems assms(2) by auto
  obtain m' where m: "link_blocks a s n m = Some m'" "free_at m' a s (rev [0..<n])" "\<forall>x. unat x \<notin> bytes (a, 4096) \<longrightarrow> m' x = m x"
    using Suc.IH Suc.prems by auto
  let ?m = "m'(a + of_nat (n * s) := a + of_nat ((n - 1) * s))"
  have "k * s < 4096 \<and> k * s \<noteq> n * s" if "k < n" for k
    using mult_less_mono1 [OF that assms(2)] n(1) by linarith
  then have "free_at ?m a s (rev [0..<n])" using n(1) by (intro free_at_cong [OF m(2)]) (auto simp: off_inj)
  moreover have "nextw a s (rev [0..<n]) = a + of_nat ((n - 1) * s)" using Suc.hyps by (cases n) (simp_all add: nextw_def)
  moreover have "unat (a + of_nat (n * s)) \<in> bytes (a, 4096)" using n(1) by (simp add: page_addr [OF assms(1)] bytes_def)
  then have "unat x \<notin> bytes (a, 4096) \<Longrightarrow> ?m x = m x" for x using m(3) by auto
  ultimately show ?case using m(1) n by (auto simp: link_blocks_step [OF Suc.hyps] kern_simps off_inj)
qed

section \<open>The blocks of a heap\<close>

lemma heap_rep_parts:
  assumes "heap_rep kh L F G" and "p \<in> set L"
  shows "is_page (PR_PAGEADDR (pagerefs kh ! p))" "page_ok (kmem kh) (pagerefs kh ! p) (F p)" "p < length (pagerefs kh)"
    "unat (PR_BLOCKTYPE (pagerefs kh ! p)) < 8" "in_ram kh (PR_PAGEADDR (pagerefs kh ! p)) 4096"
  using assms in_ram_page [of kh] by (auto simp: heap_rep_def refs_ok_def space_ok_def page_ok_def Let_def)

lemma rep_blocks_apart:
  assumes rep: "heap_rep kh L F G" and "p \<in> set L" "q \<in> set L"
    and "j < nblocks (unat (PR_BLOCKTYPE (pagerefs kh ! p)))" "k < nblocks (unat (PR_BLOCKTYPE (pagerefs kh ! q)))"
    and "p \<noteq> q \<or> j \<noteq> k"
  shows "bytes (block (pagerefs kh ! p) j) \<inter> bytes (block (pagerefs kh ! q) k) = {}"
proof (cases "p = q")
  case True
  then show ?thesis using blocks_apart [OF heap_rep_parts(1, 4) [OF rep assms(2)], of j k] assms(4-6) by simp
next
  case False
  then have "PR_PAGEADDR (pagerefs kh ! p) \<noteq> PR_PAGEADDR (pagerefs kh ! q)"
    using assms(1-3) by (auto simp: heap_rep_def space_ok_def)
  then show ?thesis
    using pages_apart [OF heap_rep_parts(1) [OF rep assms(2)] heap_rep_parts(1) [OF rep assms(3)]]
      page_block(2) [OF heap_rep_parts(1, 4) [OF rep assms(2)] assms(4)] page_block(2) [OF heap_rep_parts(1, 4) [OF rep assms(3)] assms(5)]
    by blast
qed

lemma rep_big_apart:
  assumes rep: "heap_rep kh L F G" and "p \<in> set L" "g \<in> G" "k < nblocks (unat (PR_BLOCKTYPE (pagerefs kh ! p)))"
  shows "bytes g \<inter> bytes (block (pagerefs kh ! p) k) = {}"
proof -
  have "bytes g \<inter> bytes (PR_PAGEADDR (pagerefs kh ! p), 4096) = {}" using assms(1-3) by (simp add: heap_rep_def space_ok_def)
  then show ?thesis using page_block(2) [OF heap_rep_parts(1, 4) [OF rep assms(2)] assms(4)] by blast
qed

lemma live_cases:
  assumes "x \<in> live kh L F G"
  obtains p k where "p \<in> set L" "k < nblocks (unat (PR_BLOCKTYPE (pagerefs kh ! p)))" "k \<notin> set (F p)" "x = block (pagerefs kh ! p) k"
  | "x \<in> G"
  using assms by (auto simp: live_def taken_def)

lemma live_apart:
  assumes rep: "heap_rep kh L F G" and "x \<in> live kh L F G" "y \<in> live kh L F G" "x \<noteq> y"
  shows "bytes x \<inter> bytes y = {}"
  using assms(2)
proof (cases rule: live_cases)
  case (1 p k)
  from assms(3) show ?thesis
  proof (cases rule: live_cases)
    case (1 q j)
    then show ?thesis using \<open>x = _\<close> \<open>x \<noteq> y\<close> rep_blocks_apart [OF rep \<open>p \<in> set L\<close> \<open>q \<in> set L\<close> \<open>k < _\<close> \<open>j < _\<close>] by auto
  next
    case 2
    then show ?thesis using 1 rep_big_apart [OF rep \<open>p \<in> set L\<close> 2 \<open>k < _\<close>] by (simp add: Int_commute)
  qed
next
  case 2
  from assms(3) show ?thesis
  proof (cases rule: live_cases)
    case (1 q j)
    then show ?thesis using rep_big_apart [OF rep 1(1) 2 1(2)] by simp
  next
    case y: 2
    then show ?thesis using 2 rep \<open>x \<noteq> y\<close> by (simp add: heap_rep_def space_ok_def)
  qed
qed

lemma heap_apart: "heap kh B \<Longrightarrow> x \<in> B \<Longrightarrow> y \<in> B \<Longrightarrow> x \<noteq> y \<Longrightarrow> bytes x \<inter> bytes y = {}"
  unfolding heap_def using live_apart by blast

lemma free_not_live:
  assumes rep: "heap_rep kh L F G" and "x \<in> live kh L F G" "p \<in> set L" "k \<in> set (F p)"
  shows "unat (fst (block (pagerefs kh ! p) k)) \<notin> bytes x"
proof -
  note k = block_start [OF heap_rep_parts(1, 2) [OF rep assms(3)] assms(4)]
  from assms(2) have "bytes x \<inter> bytes (block (pagerefs kh ! p) k) = {}"
  proof (cases rule: live_cases)
    case (1 q j)
    then show ?thesis using rep_blocks_apart [OF rep 1(1) assms(3) 1(2) k(1)] assms(4) by auto
  next
    case 2
    then show ?thesis by (rule rep_big_apart [OF rep assms(3) _ k(1)])
  qed
  then show ?thesis using k(2) by blast
qed

text \<open>A write into an allocated block leaves the heap as it is.\<close>

lemma heap_write:
  assumes "heap kh B" and "x \<in> B" and "\<And>a. m a \<noteq> kmem kh a \<Longrightarrow> unat a \<in> bytes x"
  shows "heap (kh\<lparr>kmem := m\<rparr>) B"
proof -
  obtain L F G where rep: "heap_rep kh L F G" "not_all_free kh L F" "B = live kh L F G" using assms(1) unfolding heap_def by blast
  have "page_ok m (pagerefs kh ! p) (F p)" if "p \<in> set L" for p
    by (rule page_ok_cong [OF heap_rep_parts(2) [OF rep(1) that]]) (use free_not_live [OF rep(1)] that assms(2, 3) rep(3) in metis)
  then have "heap_rep (kh\<lparr>kmem := m\<rparr>) L F G"
    using rep(1) by (simp add: heap_rep_def refs_ok_def space_ok_def ram_ok_def in_ram_def)
  then show ?thesis using rep(2, 3) unfolding heap_def by (intro exI [of _ L] exI [of _ F] exI [of _ G]) (simp add: live_def not_all_free_def)
qed

section \<open>Changing one page\<close>

lemma same_parts [simp]:
  "PR_PAGEADDR (pr\<lparr>nfree := n, freelist_offset := f\<rparr>) = PR_PAGEADDR pr"
  "PR_BLOCKTYPE (pr\<lparr>nfree := n, freelist_offset := f\<rparr>) = PR_BLOCKTYPE pr"
  "taken (pr\<lparr>nfree := n, freelist_offset := f\<rparr>) = taken pr"
  by (simp_all add: PR_PAGEADDR_def PR_BLOCKTYPE_def taken_def fun_eq_iff)

text \<open>\<open>relisted kh p n f m\<close>: the free list of page \<open>p\<close> is replaced and the memory is \<open>m\<close>.\<close>

definition relisted :: "'a kheap_scheme \<Rightarrow> nat \<Rightarrow> u16 \<Rightarrow> u16 \<Rightarrow> (u32 \<Rightarrow> u32) \<Rightarrow> 'a kheap_scheme" where
  "relisted kh p n f m = set_ref p ((pagerefs kh ! p)\<lparr>nfree := n, freelist_offset := f\<rparr>) (kh\<lparr>kmem := m\<rparr>)"

lemma relisted_simps:
  assumes "p < length (pagerefs kh)"
  shows "PR_PAGEADDR (pagerefs (relisted kh p n f m) ! q) = PR_PAGEADDR (pagerefs kh ! q)"
    "PR_BLOCKTYPE (pagerefs (relisted kh p n f m) ! q) = PR_BLOCKTYPE (pagerefs kh ! q)"
    "next_all (pagerefs (relisted kh p n f m) ! q) = next_all (pagerefs kh ! q)"
    "next_samesize (pagerefs (relisted kh p n f m) ! q) = next_samesize (pagerefs kh ! q)"
    "taken (pagerefs (relisted kh p n f m) ! q) = taken (pagerefs kh ! q)"
    "kmem (relisted kh p n f m) = m" "length (pagerefs (relisted kh p n f m)) = length (pagerefs kh)"
    "sizebases (relisted kh p n f m) = sizebases kh" "allbase (relisted kh p n f m) = allbase kh"
    "pagerefs_inuse (relisted kh p n f m) = pagerefs_inuse kh"
    "firstpaddr (relisted kh p n f m) = firstpaddr kh" "lastpaddr (relisted kh p n f m) = lastpaddr kh"
    "p \<noteq> q \<Longrightarrow> pagerefs (relisted kh p n f m) ! q = pagerefs kh ! q"
    "pagerefs (relisted kh p n f m) ! p = (pagerefs kh ! p)\<lparr>nfree := n, freelist_offset := f\<rparr>"
  using assms by (cases "q = p"; simp add: relisted_def)+

lemma relisted_rep:
  assumes rep: "heap_rep kh L F G" and p: "p \<in> set L"
    and m: "\<And>q k. q \<in> set L \<Longrightarrow> q \<noteq> p \<Longrightarrow> k \<in> set (F q) \<Longrightarrow> m (fst (block (pagerefs kh ! q) k)) = kmem kh (fst (block (pagerefs kh ! q) k))"
    and ok: "page_ok m ((pagerefs kh ! p)\<lparr>nfree := n, freelist_offset := f\<rparr>) ks"
  shows "heap_rep (relisted kh p n f m) L (F(p := ks)) G"
    "live (relisted kh p n f m) L (F(p := ks)) G = taken (pagerefs kh ! p) ks \<union> live kh [q \<leftarrow> L. q \<noteq> p] F G"
    "live kh L F G = taken (pagerefs kh ! p) (F p) \<union> live kh [q \<leftarrow> L. q \<noteq> p] F G"
proof -
  note s = relisted_simps [OF heap_rep_parts(3) [OF rep p]]
  have "page_ok m (pagerefs (relisted kh p n f m) ! q) ((F(p := ks)) q)" if "q \<in> set L" for q
  proof (cases "q = p")
    case False
    then show ?thesis using page_ok_cong [OF heap_rep_parts(2) [OF rep that] m [OF that]] by (simp add: s)
  qed (use ok in \<open>simp add: s\<close>)
  then show "heap_rep (relisted kh p n f m) L (F(p := ks)) G"
    using rep by (simp add: heap_rep_def refs_ok_def space_ok_def ram_ok_def in_ram_def s)
  show "live (relisted kh p n f m) L (F(p := ks)) G = taken (pagerefs kh ! p) ks \<union> live kh [q \<leftarrow> L. q \<noteq> p] F G"
    using p by (auto simp: live_def s split: if_splits)
  show "live kh L F G = taken (pagerefs kh ! p) (F p) \<union> live kh [q \<leftarrow> L. q \<noteq> p] F G"
    using p by (auto simp: live_def)
qed

text \<open>A block is in one page only.\<close>

lemma block_not_elsewhere:
  assumes rep: "heap_rep kh L F G" and p: "p \<in> set L" and k: "k < nblocks (unat (PR_BLOCKTYPE (pagerefs kh ! p)))"
  shows "block (pagerefs kh ! p) k \<notin> live kh [q \<leftarrow> L. q \<noteq> p] F G"
proof
  assume "block (pagerefs kh ! p) k \<in> live kh [q \<leftarrow> L. q \<noteq> p] F G"
  then have "bytes (block (pagerefs kh ! p) k) = {}"
  proof (cases rule: live_cases)
    case (1 q j)
    then show ?thesis using rep_blocks_apart [OF rep p _ k 1(2)] by auto
  next
    case 2
    then show ?thesis using rep_big_apart [OF rep p 2 k] by simp
  qed
  then show False using page_block(1) [OF heap_rep_parts(1, 4) [OF rep p] k] sizes_ok(2) [OF heap_rep_parts(4) [OF rep p]] by simp
qed

lemma doalloc_rep:
  assumes rep: "heap_rep kh L F G" and p: "p \<in> set L" and F: "F p = k # ks"
    and full: "\<And>q. q \<in> set L \<Longrightarrow> q \<noteq> p \<Longrightarrow> length (F q) < nblocks (unat (PR_BLOCKTYPE (pagerefs kh ! q)))"
  shows "\<exists>kh'. doalloc p kh = Some (fst (block (pagerefs kh ! p) k), kh') \<and> heap kh' (insert (block (pagerefs kh ! p) k) (live kh L F G)) \<and>
    block (pagerefs kh ! p) k \<notin> live kh L F G \<and> kmem kh' = kmem kh"
proof -
  note pg = heap_rep_parts [OF rep p]
  have ok: "page_ok (kmem kh) (pagerefs kh ! p) (k # ks)" using pg(2) F by simp
  obtain n f where d: "doalloc p kh = Some (fst (block (pagerefs kh ! p) k), relisted kh p n f (kmem kh))"
    "page_ok (kmem kh) ((pagerefs kh ! p)\<lparr>nfree := n, freelist_offset := f\<rparr>) ks"
    using doalloc_ok [OF pg(1) ok] by (auto simp: relisted_def)
  note r = relisted_rep [OF rep p refl d(2)]
  have kn: "k < nblocks (unat (PR_BLOCKTYPE (pagerefs kh ! p)))" using block_start(1) [OF pg(1) ok] by simp
  have "live (relisted kh p n f (kmem kh)) L (F(p := ks)) G = insert (block (pagerefs kh ! p) k) (live kh L F G)"
    using r(2, 3) taken_cons(1) [OF pg(1) ok] F by simp
  moreover have "length (k # ks) \<le> nblocks (unat (PR_BLOCKTYPE (pagerefs kh ! p)))"
    using ok card_mono [of "{..<nblocks (unat (PR_BLOCKTYPE (pagerefs kh ! p)))}" "set (k # ks)"] by (simp add: page_ok_def Let_def distinct_card)
  then have "not_all_free (relisted kh p n f (kmem kh)) L (F(p := ks))"
    using full by (auto simp: not_all_free_def relisted_simps [OF pg(3)])
  moreover have "block (pagerefs kh ! p) k \<notin> live kh L F G"
    using r(3) taken_cons(2) [OF pg(1) ok] block_not_elsewhere [OF rep p kn] F by simp
  ultimately show ?thesis using d(1) r(1) unfolding heap_def by (intro exI [of _ "relisted kh p n f (kmem kh)"]) (auto simp: relisted_simps [OF pg(3)])
qed

section \<open>Allocation\<close>

lemma alloc_kpages_ok:
  assumes ok: "ram_ok kh" and n: "unat npages < 0xdfc00"
  shows "alloc_kpages npages kh = (0, kh) \<and> unat (lastpaddr kh) < unat (firstpaddr kh) + unat npages * 4096 \<or>
    (\<exists>a f. alloc_kpages npages kh = (a, kh\<lparr>firstpaddr := f\<rparr>) \<and> a \<noteq> 0 \<and> unat a = 0x80000000 + unat (firstpaddr kh) \<and>
       unat f = unat (firstpaddr kh) + unat npages * 4096 \<and> ram_ok (kh\<lparr>firstpaddr := f\<rparr>))"
proof -
  have f: "unat (firstpaddr kh) \<le> 0x1fc00000" "firstpaddr kh \<noteq> 0" using ram_ok_bound [OF ok] ok by (simp_all add: ram_ok_def)
  then have a: "unat (PADDR_TO_KVADDR (firstpaddr kh)) = 0x80000000 + unat (firstpaddr kh)"
    by (simp add: PADDR_TO_KVADDR_def MIPS_KSEG0_def unat_word_ariths(1))
  then have "PADDR_TO_KVADDR (firstpaddr kh) \<noteq> 0" by (auto simp: unat_eq_zero [symmetric])
  with stealmem_ok [OF ok n] show ?thesis
  proof (elim disjE exE conjE)
    fix st' assume st: "ram_stealmem npages kh = (firstpaddr kh, st')" "st' = kh\<lparr>firstpaddr := firstpaddr st'\<rparr>"
      "unat (firstpaddr st') = unat (firstpaddr kh) + unat npages * 4096" "ram_ok st'"
    then show ?thesis using a f(2) \<open>PADDR_TO_KVADDR (firstpaddr kh) \<noteq> 0\<close>
      by (intro disjI2 exI [of _ "PADDR_TO_KVADDR (firstpaddr kh)"] exI [of _ "firstpaddr st'"])
        (simp add: alloc_kpages_def getppages_def)
  qed (simp add: alloc_kpages_def getppages_def)
qed

text \<open>What is in use stays in use when more memory is handed out, and what is new is apart from it.\<close>

lemma in_ram_mono: "in_ram kh a n \<Longrightarrow> unat (firstpaddr kh) \<le> unat f \<Longrightarrow> in_ram (kh\<lparr>firstpaddr := f\<rparr>) a n"
  by (simp add: in_ram_def)

lemma in_ram_new: "in_ram kh a n \<Longrightarrow> unat c = 0x80000000 + unat (firstpaddr kh) \<Longrightarrow> bytes (a, n) \<inter> bytes (c, k) = {}"
  by (auto simp: in_ram_def bytes_def)

lemma in_ram_top:
  assumes "ram_ok kh" and "unat c = 0x80000000 + unat (firstpaddr kh)" and "unat f = unat (firstpaddr kh) + n"
  shows "in_ram (kh\<lparr>firstpaddr := f\<rparr>) c n"
proof -
  have "(0x80000000 + unat (firstpaddr kh)) mod 4096 = 0" using assms(1) by (simp add: ram_ok_def mod_add_eq [symmetric])
  then show ?thesis using assms by (simp add: in_ram_def)
qed

lemma big_rep:
  assumes rep: "heap_rep kh L F G" and nf: "not_all_free kh L F"
    and a: "unat a = 0x80000000 + unat (firstpaddr kh)" and f: "unat f = unat (firstpaddr kh) + n" "4096 \<le> n" "ram_ok (kh\<lparr>firstpaddr := f\<rparr>)"
  shows "heap (kh\<lparr>firstpaddr := f\<rparr>) (insert (a, n) (live kh L F G))" "(a, n) \<notin> live kh L F G"
proof -
  let ?kh = "kh\<lparr>firstpaddr := f\<rparr>"
  have sp: "space_ok kh L G" using rep by (simp add: heap_rep_def)
  have old: "\<forall>g\<in>G. in_ram kh (fst g) (snd g)" "\<forall>p\<in>set L. in_ram kh (PR_PAGEADDR (pagerefs kh ! p)) 4096" "ram_ok kh"
    using sp by (simp_all add: space_ok_def)
  have new: "bytes (a, n) \<inter> bytes (PR_PAGEADDR (pagerefs kh ! p), 4096) = {}" if "p \<in> set L" for p
    using in_ram_new [OF old(2) [rule_format, OF that] a, of n] by (simp add: Int_commute)
  have big: "bytes g \<inter> bytes (a, n) = {}" if "g \<in> G" for g
    using in_ram_new [OF old(1) [rule_format, OF that] a, of n] by simp
  have top: "in_ram ?kh a n" by (rule in_ram_top [OF old(3) a f(1)])
  have mono: "\<forall>g\<in>G. in_ram ?kh (fst g) (snd g)" "\<forall>p\<in>set L. in_ram ?kh (PR_PAGEADDR (pagerefs kh ! p)) 4096"
    using old(1, 2) in_ram_mono [of kh _ _ f] f(1) by simp_all
  have "space_ok ?kh L (insert (a, n) G)"
    using sp mono top new big f(2, 3) by (simp add: space_ok_def Int_commute [of "bytes (a, n)"])
  then have "heap_rep ?kh L F (insert (a, n) G)" using rep by (simp add: heap_rep_def refs_ok_def)
  moreover have "live ?kh L F (insert (a, n) G) = insert (a, n) (live kh L F G)" "not_all_free ?kh L F"
    using nf by (simp_all add: live_def not_all_free_def)
  ultimately show "heap ?kh (insert (a, n) (live kh L F G))" unfolding heap_def by metis
  show "(a, n) \<notin> live kh L F G"
  proof
    assume "(a, n) \<in> live kh L F G"
    then have "bytes (a, n) \<inter> bytes (a, n) = {}"
    proof (cases rule: live_cases)
      case (1 p k)
      then show ?thesis using new [OF 1(1)] page_block(2) [OF heap_rep_parts(1, 4) [OF rep 1(1)] 1(2)] by auto
    next
      case 2
      then show ?thesis by (rule big)
    qed
    then show False using f(2) by (simp add: bytes_def)
  qed
qed

text \<open>The heap after \<^verbatim>\<open>subpage_kmalloc\<close> has entered a fresh page.\<close>

definition new_page :: "'a kheap_scheme \<Rightarrow> nat \<Rightarrow> nat \<Rightarrow> u32 list \<Rightarrow> u32 \<Rightarrow> u32 \<Rightarrow> (u32 \<Rightarrow> u32) \<Rightarrow> 'a kheap_scheme" where
  "new_page kh p b u f a m =
     set_ref p \<lparr>next_samesize = sizebases kh ! b, next_all = allbase kh, pageaddr_and_blocktype = MKPAB a (of_nat b),
         freelist_offset = of_nat ((nblocks b - 1) * sizes ! b), nfree = of_nat (nblocks b)\<rparr>
       (kh\<lparr>pagerefs_inuse := u, firstpaddr := f, kmem := m, sizebases := (sizebases kh)[b := Some p], allbase := Some p\<rparr>)"

lemma new_page_simps:
  assumes "p < length (pagerefs kh)" and "unat a mod 4096 = 0" and "b < 8"
  shows "PR_PAGEADDR (pagerefs (new_page kh p b u f a m) ! p) = a"
    "unat (PR_BLOCKTYPE (pagerefs (new_page kh p b u f a m) ! p)) = b"
    "next_all (pagerefs (new_page kh p b u f a m) ! p) = allbase kh"
    "next_samesize (pagerefs (new_page kh p b u f a m) ! p) = sizebases kh ! b"
    "freelist_offset (pagerefs (new_page kh p b u f a m) ! p) = of_nat ((nblocks b - 1) * sizes ! b)"
    "nfree (pagerefs (new_page kh p b u f a m) ! p) = of_nat (nblocks b)"
    "q \<noteq> p \<Longrightarrow> pagerefs (new_page kh p b u f a m) ! q = pagerefs kh ! q"
    "kmem (new_page kh p b u f a m) = m" "length (pagerefs (new_page kh p b u f a m)) = length (pagerefs kh)"
    "sizebases (new_page kh p b u f a m) = (sizebases kh)[b := Some p]" "allbase (new_page kh p b u f a m) = Some p"
    "pagerefs_inuse (new_page kh p b u f a m) = u"
    "firstpaddr (new_page kh p b u f a m) = f" "lastpaddr (new_page kh p b u f a m) = lastpaddr kh"
  using assms MKPAB_parts [OF assms(2, 3)] off_word(1) [of b]
  by (simp_all add: new_page_def PR_PAGEADDR_def PR_BLOCKTYPE_def)

lemma new_page_refs:
  assumes refs: "refs_ok kh L" and p: "p \<notin> set L" "p < 256" and b: "b < 8" and a: "unat a mod 4096 = 0"
    and u: "length u = 8" "\<forall>q. inuse_bit u q = (if q = p then True else inuse_bit (pagerefs_inuse kh) q)"
  shows "refs_ok (new_page kh p b u f a m) (p # L)"
proof -
  have len: "length (pagerefs kh) = 256" "length (sizebases kh) = 8" and inuse: "\<forall>q. q \<in> set L \<longleftrightarrow> q < 256 \<and> inuse_bit (pagerefs_inuse kh) q"
    and al: "chain (\<lambda>p. next_all (pagerefs kh ! p)) (allbase kh) L"
    and sa: "\<forall>b<8. chain (\<lambda>p. next_samesize (pagerefs kh ! p)) (sizebases kh ! b) [p \<leftarrow> L. unat (PR_BLOCKTYPE (pagerefs kh ! p)) = b]"
    using refs by (simp_all add: refs_ok_def)
  have pl: "p < length (pagerefs kh)" using p(2) len by simp
  let ?kh = "new_page kh p b u f a m"
  note s = new_page_simps [OF pl a b]
  have old: "pagerefs ?kh ! q = pagerefs kh ! q" if "q \<in> set L" for q using that p(1) s(7) [of q u f m] by auto
  have filt: "[q \<leftarrow> L. unat (PR_BLOCKTYPE (pagerefs ?kh ! q)) = c] = [q \<leftarrow> L. unat (PR_BLOCKTYPE (pagerefs kh ! q)) = c]" for c
    by (rule filter_cong) (simp_all add: old)
  have "chain (\<lambda>p. next_all (pagerefs ?kh ! p)) (allbase kh) L" by (rule chain_cong [OF al]) (simp add: old)
  moreover have "chain (\<lambda>p. next_samesize (pagerefs ?kh ! p)) (sizebases kh ! c) [q \<leftarrow> L. unat (PR_BLOCKTYPE (pagerefs kh ! q)) = c]"
    if "c < 8" for c by (rule chain_cong [OF sa [rule_format, OF that]]) (simp add: old)
  ultimately show ?thesis using len inuse p u b refs
    by (auto simp: refs_ok_def s filt nth_list_update)
qed

lemma new_page_rep:
  assumes rep: "heap_rep kh L F G" and p: "p \<notin> set L" "p < 256" and b: "b < 8"
    and u: "length u = 8" "\<forall>q. inuse_bit u q = (if q = p then True else inuse_bit (pagerefs_inuse kh) q)"
    and a: "unat a = 0x80000000 + unat (firstpaddr kh)" and f: "unat f = unat (firstpaddr kh) + 4096" "ram_ok (kh\<lparr>firstpaddr := f\<rparr>)"
    and m: "free_at m a (sizes ! b) (rev [0..<nblocks b])" "\<forall>x. unat x \<notin> bytes (a, 4096) \<longrightarrow> m x = kmem kh x"
  shows "heap_rep (new_page kh p b u f a m) (p # L) (F(p := rev [0..<nblocks b])) G"
    "live (new_page kh p b u f a m) (p # L) (F(p := rev [0..<nblocks b])) G = live kh L F G"
proof -
  let ?kh = "new_page kh p b u f a m"
  have sp: "space_ok kh L G" and refs: "refs_ok kh L" using rep by (simp_all add: heap_rep_def)
  have old: "\<forall>g\<in>G. in_ram kh (fst g) (snd g)" "\<forall>p\<in>set L. in_ram kh (PR_PAGEADDR (pagerefs kh ! p)) 4096" "ram_ok kh"
    using sp by (simp_all add: space_ok_def)
  have top: "in_ram (kh\<lparr>firstpaddr := f\<rparr>) a 4096" by (rule in_ram_top [OF old(3) a f(1)])
  then have al: "unat a mod 4096 = 0" by (simp add: in_ram_def)
  have pl: "p < length (pagerefs kh)" using p(2) refs by (simp add: refs_ok_def)
  note s = new_page_simps [OF pl al b]
  have ref: "pagerefs ?kh ! q = pagerefs kh ! q" if "q \<in> set L" for q using that p(1) s(7) [of q u f m] by auto
  have new: "bytes (PR_PAGEADDR (pagerefs kh ! q), 4096) \<inter> bytes (a, 4096) = {}" if "q \<in> set L" for q
    by (rule in_ram_new [OF old(2) [rule_format, OF that] a])
  have big: "bytes g \<inter> bytes (a, 4096) = {}" if "g \<in> G" for g
    using in_ram_new [OF old(1) [rule_format, OF that] a, of 4096] by simp
  have ne: "PR_PAGEADDR (pagerefs kh ! q) \<noteq> a" if "q \<in> set L" for q using new [OF that] by (auto simp: bytes_def)
  have sp': "space_ok ?kh (p # L) G"
    using sp old top f(1, 2) new big ne ne [symmetric] by (auto simp: space_ok_def s ref in_ram_def ram_ok_def)
  have "(case rev [0..<nblocks b] of [] \<Rightarrow> INVALID_OFFSET | k # _ \<Rightarrow> of_nat (k * sizes ! b)) = of_nat ((nblocks b - 1) * sizes ! b)"
    using sizes_ok(3) [OF b] by (cases "nblocks b") simp_all
  then have "page_ok m (pagerefs ?kh ! p) (rev [0..<nblocks b])"
    using m(1) sizes_ok(4) [OF b] off_word(2) [of "nblocks b"] b by (auto simp: page_ok_def Let_def s)
  moreover have "page_ok m (pagerefs kh ! q) (F q)" if "q \<in> set L" for q
  proof (rule page_ok_cong [OF heap_rep_parts(2) [OF rep that]])
    fix k assume k: "k \<in> set (F q)"
    note st = block_start [OF heap_rep_parts(1, 2) [OF rep that] k]
    then have "unat (fst (block (pagerefs kh ! q) k)) \<notin> bytes (a, 4096)"
      using page_block(2) [OF heap_rep_parts(1, 4) [OF rep that] st(1)] new [OF that] by blast
    then show "m (fst (block (pagerefs kh ! q) k)) = kmem kh (fst (block (pagerefs kh ! q) k))" using m(2) by blast
  qed
  ultimately show "heap_rep ?kh (p # L) (F(p := rev [0..<nblocks b])) G"
    using new_page_refs [OF refs p b al u] sp' p(1) by (auto simp: heap_rep_def s ref)
  have "taken (pagerefs ?kh ! p) (rev [0..<nblocks b]) = {}" by (auto simp: taken_def s)
  moreover have "(\<Union>q\<in>set L. taken (pagerefs ?kh ! q) ((F(p := rev [0..<nblocks b])) q)) = (\<Union>q\<in>set L. taken (pagerefs kh ! q) (F q))"
    by (rule SUP_cong) (use p(1) ref in auto)
  ultimately show "live ?kh (p # L) (F(p := rev [0..<nblocks b])) G = live kh L F G" by (simp add: live_def)
qed

lemma blocktype_ok:
  assumes "unat sz \<le> 2048"
  shows "\<exists>b<8. blocktype sz = Some b \<and> unat sz \<le> sizes ! b"
proof (cases "blocktype sz")
  case None
  have "sizes ! 7 = 2048" by (simp add: sizes_def)
  with assms have "\<exists>i\<in>set [0..<length sizes]. unat sz \<le> sizes ! i" by (intro bexI [of _ 7]) simp_all
  then show ?thesis using None by (auto simp: blocktype_def find_None_iff)
next
  case (Some b)
  then have "b < 8" "unat sz \<le> sizes ! b" by (auto simp: blocktype_def find_Some_iff)
  then show ?thesis using Some by simp
qed

lemma find_in: "find P xs = Some x \<Longrightarrow> x \<in> set xs \<and> P x"
  by (auto simp: find_Some_iff)

lemma find_page_ok:
  assumes rep: "heap_rep kh L F G" and b: "b < 8"
  shows "find_page (of_nat b) (sizebases kh ! b) kh = Some None \<or>
    (\<exists>p k ks. find_page (of_nat b) (sizebases kh ! b) kh = Some (Some p) \<and> p \<in> set L \<and> F p = k # ks \<and>
       unat (PR_BLOCKTYPE (pagerefs kh ! p)) = b)"
proof -
  let ?ps = "[p \<leftarrow> L. unat (PR_BLOCKTYPE (pagerefs kh ! p)) = b]"
  have "chain (\<lambda>p. next_samesize (pagerefs kh ! p)) (sizebases kh ! b) ?ps" using rep b by (simp add: heap_rep_def refs_ok_def)
  moreover have "p \<in> set ?ps \<Longrightarrow> PR_BLOCKTYPE (pagerefs kh ! p) = of_nat b" for p by auto
  ultimately have "find_page (of_nat b) (sizebases kh ! b) kh = Some (find (\<lambda>p. nfree (pagerefs kh ! p) > 0) ?ps)" by (rule find_page_chain)
  moreover have "F p \<noteq> []" if "p \<in> set L" "nfree (pagerefs kh ! p) > 0" for p
    using heap_rep_parts(2) [OF rep that(1)] that(2) by (auto simp: page_ok_def Let_def word_less_nat_alt)
  ultimately show ?thesis
    by (cases "find (\<lambda>p. nfree (pagerefs kh ! p) > 0) ?ps") (auto dest!: find_in simp: neq_Nil_conv)
qed

text \<open>\<open>exhausted sz kh\<close>: there is no page left for the request, or no pageref to keep account of it;
  \<open>allocated sz kh B ptr kh'\<close>: what \<^verbatim>\<open>kmalloc\<close> promises of its result and the heap it leaves.\<close>

definition exhausted :: "u32 \<Rightarrow> 'a kheap_scheme \<Rightarrow> bool" where
  "exhausted sz kh \<longleftrightarrow>
     (if sz < LARGEST_SUBPAGE_SIZE
      then unat (lastpaddr kh) < unat (firstpaddr kh) + 4096 \<or> (\<forall>p<256. inuse_bit (pagerefs_inuse kh) p)
      else unat (lastpaddr kh) < unat (firstpaddr kh) + (unat sz + 4095) div 4096 * 4096)"

definition allocated :: "u32 \<Rightarrow> 'a kheap_scheme \<Rightarrow> (u32 \<times> nat) set \<Rightarrow> u32 \<Rightarrow> 'a kheap_scheme \<Rightarrow> bool" where
  "allocated sz kh B ptr kh' \<longleftrightarrow> (if ptr = 0 then heap kh' B \<and> exhausted sz kh else (\<exists>n. unat sz \<le> n \<and> (ptr, n) \<notin> B \<and> heap kh' (insert (ptr, n) B))) \<and>
     (\<forall>x\<in>B. \<forall>a. unat a \<in> bytes x \<longrightarrow> kmem kh' a = kmem kh a)"

lemma doalloc_allocated:
  assumes rep: "heap_rep kh L F G" and p: "p \<in> set L" and F: "F p = k # ks" and sz: "unat sz \<le> sizes ! unat (PR_BLOCKTYPE (pagerefs kh ! p))"
    and full: "\<And>q. q \<in> set L \<Longrightarrow> q \<noteq> p \<Longrightarrow> length (F q) < nblocks (unat (PR_BLOCKTYPE (pagerefs kh ! q)))"
    and mem: "\<forall>x\<in>live kh L F G. \<forall>a. unat a \<in> bytes x \<longrightarrow> kmem kh a = kmem kh0 a"
  shows "\<exists>ptr kh'. doalloc p kh = Some (ptr, kh') \<and> allocated sz kh0 (live kh L F G) ptr kh'"
proof -
  obtain kh' where d: "doalloc p kh = Some (fst (block (pagerefs kh ! p) k), kh')" "heap kh' (insert (block (pagerefs kh ! p) k) (live kh L F G))"
    "block (pagerefs kh ! p) k \<notin> live kh L F G" "kmem kh' = kmem kh"
    using doalloc_rep [OF rep p F full] by blast
  have "k < nblocks (unat (PR_BLOCKTYPE (pagerefs kh ! p)))"
    using block_start(1) [OF heap_rep_parts(1, 2) [OF rep p], of k] F by simp
  then have "fst (block (pagerefs kh ! p) k) \<noteq> 0"
    using page_addr_nonzero [OF heap_rep_parts(1) [OF rep p]] block_inside(2) [OF heap_rep_parts(4) [OF rep p]] by simp
  then show ?thesis using d sz mem by (intro exI [of _ "fst (block (pagerefs kh ! p) k)"] exI [of _ kh']) (auto simp: allocated_def)
qed

text \<open>The three ways \<^verbatim>\<open>subpage_kmalloc\<close> goes on when no page has a free block.\<close>

lemma inuse_same:
  assumes "heap_rep kh L F G" and "not_all_free kh L F" and "length u = 8" "\<forall>q. inuse_bit u q = inuse_bit (pagerefs_inuse kh) q"
  shows "heap (kh\<lparr>pagerefs_inuse := u\<rparr>) (live kh L F G)"
proof -
  have "heap_rep (kh\<lparr>pagerefs_inuse := u\<rparr>) L F G"
    using assms by (simp add: heap_rep_def refs_ok_def space_ok_def ram_ok_def in_ram_def)
  then show ?thesis using assms(2) unfolding heap_def by (intro exI [of _ L] exI [of _ F] exI [of _ G]) (simp add: live_def not_all_free_def)
qed

lemma fresh_page_ok:
  assumes rep: "heap_rep kh L F G" and nf: "not_all_free kh L F" and b: "b < 8" "unat sz \<le> sizes ! b"
    and p: "p < 256" "\<not> inuse_bit (pagerefs_inuse kh) p"
    and u: "length u = 8" "\<forall>q. inuse_bit u q = (if q = p then True else inuse_bit (pagerefs_inuse kh) q)"
    and a: "unat a = 0x80000000 + unat (firstpaddr kh)" and f: "unat f = unat (firstpaddr kh) + 4096" "ram_ok (kh\<lparr>firstpaddr := f\<rparr>)"
  shows "\<exists>m ptr kh'. link_blocks a (sizes ! b) (nblocks b) (kmem kh) = Some m \<and> doalloc p (new_page kh p b u f a m) = Some (ptr, kh') \<and>
    allocated sz kh (live kh L F G) ptr kh'"
proof -
  have old: "ram_ok kh" using rep by (simp add: heap_rep_def space_ok_def)
  have top: "in_ram (kh\<lparr>firstpaddr := f\<rparr>) a 4096" by (rule in_ram_top [OF old a f(1)])
  then have pg: "is_page a" by (rule in_ram_page [OF f(2)])
  obtain m where m: "link_blocks a (sizes ! b) (nblocks b) (kmem kh) = Some m" "free_at m a (sizes ! b) (rev [0..<nblocks b])"
    "\<forall>x. unat x \<notin> bytes (a, 4096) \<longrightarrow> m x = kmem kh x"
    using link_blocks_ok [OF pg, of "sizes ! b" "nblocks b" "kmem kh"] sizes_ok [OF b(1)] by auto
  let ?kh = "new_page kh p b u f a m" and ?F = "F(p := rev [0..<nblocks b])"
  have pL: "p \<notin> set L" and pl: "p < length (pagerefs kh)" using rep p by (simp_all add: heap_rep_def refs_ok_def)
  note r = new_page_rep [OF rep pL p(1) b(1) u a f m(2, 3)]
  note s = new_page_simps [OF pl _ b(1)]
  have al: "unat a mod 4096 = 0" using pg by (simp add: is_page_def)
  have F: "?F p = (nblocks b - 1) # rev [0..<nblocks b - 1]" using sizes_ok(3) [OF b(1)] by (cases "nblocks b") simp_all
  have mem: "\<forall>x\<in>live ?kh (p # L) ?F G. \<forall>c. unat c \<in> bytes x \<longrightarrow> kmem ?kh c = kmem kh c"
  proof (intro ballI allI impI)
    fix x and c :: u32 assume x: "x \<in> live ?kh (p # L) ?F G" "unat c \<in> bytes x"
    then have "x \<in> live kh L F G" using r(2) by simp
    then have "bytes x \<inter> bytes (a, 4096) = {}"
      using heap_apart [OF big_rep(1) [OF rep nf a f(1) _ f(2)], of x "(a, 4096)"] big_rep(2) [OF rep nf a f(1) _ f(2)] by auto
    then have "unat c \<notin> bytes (a, 4096)" using x(2) by blast
    then show "kmem ?kh c = kmem kh c" using m(3) by (simp add: s(8) [OF al])
  qed
  have "length (?F q) < nblocks (unat (PR_BLOCKTYPE (pagerefs ?kh ! q)))" if "q \<in> set (p # L)" "q \<noteq> p" for q
    using that nf s(7) [OF al, of q] by (simp add: not_all_free_def)
  then show ?thesis using doalloc_allocated [OF r(1) _ F _ _ mem, of sz] b(2) m(1) s(2) [OF al] r(2) by simp
qed

lemma subpage_kmalloc_ok:
  assumes "heap kh B" and "sz < LARGEST_SUBPAGE_SIZE"
  shows "\<exists>ptr kh'. subpage_kmalloc sz kh = Some (ptr, kh') \<and> allocated sz kh B ptr kh'"
proof -
  obtain L F G where rep: "heap_rep kh L F G" and nf: "not_all_free kh L F" and B: "B = live kh L F G" using assms(1) unfolding heap_def by blast
  obtain b where b: "b < 8" "blocktype sz = Some b" "unat sz \<le> sizes ! b" using blocktype_ok [of sz] assms(2)
    by (auto simp: LARGEST_SUBPAGE_SIZE_def word_less_nat_alt)
  have full: "length (F q) < nblocks (unat (PR_BLOCKTYPE (pagerefs kh ! q)))" if "q \<in> set L" for q using nf that by (simp add: not_all_free_def)
  from find_page_ok [OF rep b(1)] show ?thesis
  proof (elim disjE exE conjE)
    fix p k ks assume "find_page (of_nat b) (sizebases kh ! b) kh = Some (Some p)" "p \<in> set L" "F p = k # ks" "unat (PR_BLOCKTYPE (pagerefs kh ! p)) = b"
    then show ?thesis using doalloc_allocated [OF rep \<open>p \<in> set L\<close> \<open>F p = _\<close>, of sz kh] b full B
      by (simp add: subpage_kmalloc_def kern_simps Let_def)
  next
    assume none: "find_page (of_nat b) (sizebases kh ! b) kh = Some None"
    have ok: "ram_ok kh" "length (pagerefs_inuse kh) = 8" using rep by (simp_all add: heap_rep_def space_ok_def refs_ok_def)
    note run = subpage_kmalloc_def kern_simps Let_def b(2) none
    from allocpageref_ok [OF ok(2)] show ?thesis
    proof (elim disjE exE conjE)
      assume "allocpageref kh = Some (None, kh)" "\<forall>p<256. inuse_bit (pagerefs_inuse kh) p"
      then show ?thesis using assms by (simp add: run allocated_def exhausted_def)
    next
      fix p u assume p: "allocpageref kh = Some (Some p, kh\<lparr>pagerefs_inuse := u\<rparr>)" "p < 256" "\<not> inuse_bit (pagerefs_inuse kh) p"
        and u: "length u = 8" "\<forall>q. inuse_bit u q = (if q = p then True else inuse_bit (pagerefs_inuse kh) q)"
      have "ram_ok (kh\<lparr>pagerefs_inuse := u\<rparr>)" using ok(1) by (simp add: ram_ok_def)
      from alloc_kpages_ok [OF this, of 1, simplified] show ?thesis
      proof (elim disjE exE conjE)
        assume z: "alloc_kpages 1 (kh\<lparr>pagerefs_inuse := u\<rparr>) = (0, kh\<lparr>pagerefs_inuse := u\<rparr>)"
          "unat (lastpaddr kh) < unat (firstpaddr kh) + 4096"
        obtain v where v: "freepageref p (kh\<lparr>pagerefs_inuse := u\<rparr>) = Some (kh\<lparr>pagerefs_inuse := v\<rparr>)" "length v = 8"
          "\<forall>q. inuse_bit v q = (if q = p then False else inuse_bit u q)"
          using freepageref_ok [of "kh\<lparr>pagerefs_inuse := u\<rparr>" p] p(2) u by auto
        have "heap (kh\<lparr>pagerefs_inuse := v\<rparr>) B" unfolding B by (rule inuse_same [OF rep nf v(2)]) (use v(3) u(2) p(3) in auto)
        then show ?thesis using p(1) z v(1) assms(2) by (simp add: run allocated_def exhausted_def)
      next
        fix a f assume a: "alloc_kpages 1 (kh\<lparr>pagerefs_inuse := u\<rparr>) = (a, kh\<lparr>pagerefs_inuse := u, firstpaddr := f\<rparr>)" "a \<noteq> 0"
          "unat a = 0x80000000 + unat (firstpaddr kh)" "unat f = unat (firstpaddr kh) + 4096" "ram_ok (kh\<lparr>pagerefs_inuse := u, firstpaddr := f\<rparr>)"
        then have r: "ram_ok (kh\<lparr>firstpaddr := f\<rparr>)" by (simp add: ram_ok_def)
        obtain m ptr kh' where m: "link_blocks a (sizes ! b) (nblocks b) (kmem kh) = Some m"
          "doalloc p (new_page kh p b u f a m) = Some (ptr, kh')" "allocated sz kh B ptr kh'"
          using fresh_page_ok [OF rep nf b(1, 3) p(2, 3) u a(3, 4) r] unfolding B by blast
        have "(nblocks b - 1) * sizes ! b < 4096" using block_inside(2) [OF b(1), of "nblocks b - 1"] sizes_ok(3) [OF b(1)] by simp
        then show ?thesis using p(1) a(1, 2) m by (simp add: run off_word new_page_def)
      qed
    qed
  qed
qed

lemma kmalloc_ok:
  assumes heap: "heap kh B" and sz: "unat sz \<le> 0xdfbff000"
  shows "\<exists>ptr kh'. kmalloc sz kh = Some (ptr, kh') \<and> allocated sz kh B ptr kh'"
proof (cases "sz \<ge> LARGEST_SUBPAGE_SIZE")
  case False
  then have "kmalloc sz kh = subpage_kmalloc sz kh" "sz < LARGEST_SUBPAGE_SIZE" by (simp_all add: kmalloc_def)
  then show ?thesis using subpage_kmalloc_ok [OF heap] by simp
next
  case True
  obtain L F G where rep: "heap_rep kh L F G" and nf: "not_all_free kh L F" and B: "B = live kh L F G" using heap unfolding heap_def by blast
  have ok: "ram_ok kh" using rep by (simp add: heap_rep_def space_ok_def)
  let ?n = "(sz + PAGE_SIZE - 1) div PAGE_SIZE"
  have "unat (sz + PAGE_SIZE - 1) = unat sz + 4095" using sz by (simp add: PAGE_SIZE_def unat_word_ariths(1))
  then have n: "unat ?n = (unat sz + 4095) div 4096" by (simp add: unat_div PAGE_SIZE_def)
  have "2048 \<le> unat sz" using True by (simp add: LARGEST_SUBPAGE_SIZE_def word_le_nat_alt)
  then have b: "unat ?n < 0xdfc00" "unat sz \<le> unat ?n * 4096" "4096 \<le> unat ?n * 4096" unfolding n using sz by auto
  from alloc_kpages_ok [OF ok b(1)] show ?thesis
  proof (elim disjE exE conjE)
    assume "alloc_kpages ?n kh = (0, kh)" "unat (lastpaddr kh) < unat (firstpaddr kh) + unat ?n * 4096"
    then show ?thesis using True leD [OF True] heap by (simp add: kmalloc_def allocated_def exhausted_def n)
  next
    fix a f assume a: "alloc_kpages ?n kh = (a, kh\<lparr>firstpaddr := f\<rparr>)" "a \<noteq> 0" "unat a = 0x80000000 + unat (firstpaddr kh)"
      "unat f = unat (firstpaddr kh) + unat ?n * 4096" "ram_ok (kh\<lparr>firstpaddr := f\<rparr>)"
    then show ?thesis using big_rep [OF rep nf a(3, 4) b(3) a(5)] b(2) True B by (auto simp: kmalloc_def allocated_def)
  qed
qed

section \<open>Release\<close>

lemma fill_deadbeef_frame:
  assumes "unat ptr + len \<le> 2 ^ 32" and "unat x \<notin> bytes (ptr, len)"
  shows "fill_deadbeef ptr len m x = m x"
proof -
  have "x \<noteq> ptr + of_nat (4 * i)" if "i < len div 4" for i
  proof
    assume x: "x = ptr + of_nat (4 * i)"
    have i: "4 * i < len" using that by simp
    then have "unat x = unat ptr + 4 * i" using assms(1) unfolding x by (simp add: unat_word_ariths(1) unat_of_nat)
    then show False using assms(2) i by (simp add: bytes_def)
  qed
  then have "n \<le> len div 4 \<Longrightarrow> foldl (\<lambda>m i. m(ptr + of_nat (4 * i) := 0xdeadbeef)) m [0..<n] x = m x" for n by (induction n) auto
  then show ?thesis by (simp add: fill_deadbeef_def)
qed

lemma find_addr_ok:
  assumes rep: "heap_rep kh L F G"
  shows "p \<in> set L \<Longrightarrow> unat a \<in> bytes (PR_PAGEADDR (pagerefs kh ! p), 4096) \<Longrightarrow> find_addr a (allbase kh) kh = Some (Some p)"
    "(\<And>p. p \<in> set L \<Longrightarrow> unat a \<notin> bytes (PR_PAGEADDR (pagerefs kh ! p), 4096)) \<Longrightarrow> find_addr a (allbase kh) kh = Some None"
proof -
  let ?P = "\<lambda>p. a \<ge> PR_PAGEADDR (pagerefs kh ! p) \<and> a < PR_PAGEADDR (pagerefs kh ! p) + PAGE_SIZE"
  have "chain (\<lambda>p. next_all (pagerefs kh ! p)) (allbase kh) L" using rep by (simp add: heap_rep_def refs_ok_def)
  then have f: "find_addr a (allbase kh) kh = Some (find ?P L)"
    by (rule find_addr_chain) (rule heap_rep_parts(4) [OF rep])
  have P: "?P p \<longleftrightarrow> unat a \<in> bytes (PR_PAGEADDR (pagerefs kh ! p), 4096)" if "p \<in> set L" for p
  proof -
    have "unat (PR_PAGEADDR (pagerefs kh ! p) + PAGE_SIZE) = unat (PR_PAGEADDR (pagerefs kh ! p)) + 4096"
      using heap_rep_parts(1) [OF rep that] by (simp add: is_page_def unat_word_ariths(1) PAGE_SIZE_def)
    then show ?thesis by (simp add: word_le_nat_alt word_less_nat_alt bytes_def)
  qed
  show "find_addr a (allbase kh) kh = Some (Some p)" if p: "p \<in> set L" "unat a \<in> bytes (PR_PAGEADDR (pagerefs kh ! p), 4096)"
  proof -
    have "find ?P L \<noteq> None" using P p by (auto simp: find_None_iff)
    then obtain q where q: "find ?P L = Some q" by blast
    then have qa: "q \<in> set L" "unat a \<in> bytes (PR_PAGEADDR (pagerefs kh ! q), 4096)" using find_in [OF q] P by blast+
    then have "PR_PAGEADDR (pagerefs kh ! q) = PR_PAGEADDR (pagerefs kh ! p)"
      using pages_apart [OF heap_rep_parts(1) [OF rep p(1)] heap_rep_parts(1) [OF rep qa(1)]] p(2) by (metis IntI empty_iff)
    then have "q = p" using rep p(1) qa(1) by (auto simp: heap_rep_def space_ok_def)
    then show ?thesis using f q by simp
  qed
  show "find_addr a (allbase kh) kh = Some None" if "\<And>p. p \<in> set L \<Longrightarrow> unat a \<notin> bytes (PR_PAGEADDR (pagerefs kh ! p), 4096)"
    using f that P by (auto simp: find_None_iff)
qed

text \<open>\<open>relinked kh kh'\<close>: the pages and the memory are the same, the links may differ.\<close>

definition relinked :: "'a kheap_scheme \<Rightarrow> 'a kheap_scheme \<Rightarrow> bool" where
  "relinked kh kh' \<longleftrightarrow> (\<forall>q. pageaddr_and_blocktype (pagerefs kh' ! q) = pageaddr_and_blocktype (pagerefs kh ! q) \<and>
       nfree (pagerefs kh' ! q) = nfree (pagerefs kh ! q) \<and> freelist_offset (pagerefs kh' ! q) = freelist_offset (pagerefs kh ! q)) \<and>
     length (pagerefs kh') = length (pagerefs kh) \<and> length (sizebases kh') = length (sizebases kh) \<and> kmem kh' = kmem kh \<and>
     firstpaddr kh' = firstpaddr kh \<and> lastpaddr kh' = lastpaddr kh \<and> pagerefs_inuse kh' = pagerefs_inuse kh"

lemma relinked_trans: "relinked kh kh' \<Longrightarrow> relinked kh' kh'' \<Longrightarrow> relinked kh kh''"
  by (simp add: relinked_def)

lemma relinked_parts:
  assumes "relinked kh kh'"
  shows "PR_PAGEADDR (pagerefs kh' ! q) = PR_PAGEADDR (pagerefs kh ! q)" "PR_BLOCKTYPE (pagerefs kh' ! q) = PR_BLOCKTYPE (pagerefs kh ! q)"
    "taken (pagerefs kh' ! q) = taken (pagerefs kh ! q)" "page_ok m (pagerefs kh' ! q) = page_ok m (pagerefs kh ! q)"
  using assms by (simp_all add: relinked_def PR_PAGEADDR_def PR_BLOCKTYPE_def taken_def page_ok_def fun_eq_iff)

lemma set_samesize_link_frame:
  assumes "link_ok b l kh"
  shows "relinked kh (set_samesize_link b l x kh)" "allbase (set_samesize_link b l x kh) = allbase kh"
    "next_all (pagerefs (set_samesize_link b l x kh) ! q) = next_all (pagerefs kh ! q)"
    "l \<noteq> Next q \<Longrightarrow> next_samesize (pagerefs (set_samesize_link b l x kh) ! q) = next_samesize (pagerefs kh ! q)"
    "c \<noteq> b \<Longrightarrow> sizebases (set_samesize_link b l x kh) ! c = sizebases kh ! c"
  using assms by (auto simp: link_ok_def set_samesize_link_def relinked_def nth_list_update split: link.splits)

lemma set_all_link_frame:
  assumes "link_ok 0 l kh"
  shows "relinked kh (set_all_link l x kh)" "sizebases (set_all_link l x kh) = sizebases kh"
    "next_samesize (pagerefs (set_all_link l x kh) ! q) = next_samesize (pagerefs kh ! q)"
  using assms by (auto simp: link_ok_def set_all_link_def relinked_def nth_list_update split: link.splits)

lemma remove_lists_ok:
  assumes refs: "refs_ok kh L" and p: "p \<in> set L" and b: "unat (PR_BLOCKTYPE (pagerefs kh ! p)) = b" "b < 8"
  shows "\<exists>kh'. remove_lists p b kh = Some kh' \<and> relinked kh kh' \<and>
    chain (\<lambda>p. next_all (pagerefs kh' ! p)) (allbase kh') (remove1 p L) \<and>
    (\<forall>c<8. chain (\<lambda>p. next_samesize (pagerefs kh' ! p)) (sizebases kh' ! c) (remove1 p [p \<leftarrow> L. unat (PR_BLOCKTYPE (pagerefs kh ! p)) = c]))"
proof -
  let ?ps = "\<lambda>c. [p \<leftarrow> L. unat (PR_BLOCKTYPE (pagerefs kh ! p)) = c]"
  have len: "length (pagerefs kh) = 256" "length (sizebases kh) = 8" "\<And>q. q \<in> set L \<Longrightarrow> q < 256" "distinct L"
    and al: "chain (\<lambda>p. all_link (Next p) kh) (all_link Base kh) L"
    and sa: "\<And>c. c < 8 \<Longrightarrow> chain (\<lambda>p. samesize_link c (Next p) kh) (samesize_link c Base kh) (?ps c)"
    using refs by (simp_all add: refs_ok_def all_link_def samesize_link_def)
  obtain l kh1 where 1: "remove_samesize b Base p kh = Some kh1" "kh1 = set_samesize_link b l (samesize_link b (Next p) kh) kh" "link_ok b l kh"
    "l \<in> insert Base (Next ` set (?ps b))" "chain (\<lambda>q. samesize_link b (Next q) kh1) (samesize_link b Base kh1) (remove1 p (?ps b))"
    using same.rem_chain [OF sa [OF b(2)], of p] p b len by (auto simp: link_ok_def)
  note f = set_samesize_link_frame [OF 1(3), where x = "samesize_link b (Next p) kh", folded 1(2)]
  have len1: "length (pagerefs kh1) = 256" "length (sizebases kh1) = 8" using f(1) len by (simp_all add: relinked_def)
  have al1: "chain (\<lambda>p. all_link (Next p) kh1) (all_link Base kh1) L" using al f(2, 3) by (simp add: all_link_def)
  obtain l' kh2 where 2: "remove_all Base p kh1 = Some kh2" "kh2 = set_all_link l' (all_link (Next p) kh1) kh1" "link_ok 0 l' kh1"
    "chain (\<lambda>q. all_link (Next q) kh2) (all_link Base kh2) (remove1 p L)"
    using all.rem_chain [OF al1, of p] p len len1 by (auto simp: link_ok_def)
  note g = set_all_link_frame [OF 2(3), where x = "all_link (Next p) kh1", folded 2(2)]
  have "chain (\<lambda>q. next_samesize (pagerefs kh2 ! q)) (sizebases kh2 ! c) (remove1 p (?ps c))" if "c < 8" for c
  proof (cases "c = b")
    case True
    then show ?thesis using 1(5) g(2, 3) by (simp add: samesize_link_def)
  next
    case False
    have "l \<noteq> Next q" if "q \<in> set (?ps c)" for q using that 1(4) False by auto
    then have "chain (\<lambda>q. next_samesize (pagerefs kh1 ! q)) (sizebases kh ! c) (?ps c)"
      by (intro chain_cong [OF sa [OF that, simplified samesize_link_def link.case] f(4)])
    moreover have "remove1 p (?ps c) = ?ps c" using b(1) False by (intro remove1_idem) simp
    ultimately show ?thesis using f(5) [OF False] g(2, 3) by simp
  qed
  then show ?thesis using 1(1) 2(1, 4) relinked_trans [OF f(1) g(1)] b(2) by (simp add: remove_lists_def kern_simps all_link_def)
qed

lemma drop_page:
  assumes rep: "heap_rep kh L F G" and p: "p \<in> set L"
  shows "\<exists>kh1 kh2. remove_lists p (unat (PR_BLOCKTYPE (pagerefs kh ! p))) kh = Some kh1 \<and> freepageref p kh1 = Some kh2 \<and>
    heap_rep kh2 [q \<leftarrow> L. q \<noteq> p] F G \<and> live kh2 [q \<leftarrow> L. q \<noteq> p] F G = live kh [q \<leftarrow> L. q \<noteq> p] F G \<and> kmem kh2 = kmem kh \<and>
    (\<forall>q. PR_BLOCKTYPE (pagerefs kh2 ! q) = PR_BLOCKTYPE (pagerefs kh ! q))"
proof -
  have refs: "refs_ok kh L" using rep by (simp add: heap_rep_def)
  obtain kh1 where r: "remove_lists p (unat (PR_BLOCKTYPE (pagerefs kh ! p))) kh = Some kh1" "relinked kh kh1"
    "chain (\<lambda>p. next_all (pagerefs kh1 ! p)) (allbase kh1) (remove1 p L)"
    "\<forall>c<8. chain (\<lambda>p. next_samesize (pagerefs kh1 ! p)) (sizebases kh1 ! c) (remove1 p [p \<leftarrow> L. unat (PR_BLOCKTYPE (pagerefs kh ! p)) = c])"
    using remove_lists_ok [OF refs p refl heap_rep_parts(4) [OF rep p]] by blast
  have len: "length (pagerefs_inuse kh) = 8" "p < 256" "inuse_bit (pagerefs_inuse kh) p" "distinct L" using refs p by (auto simp: refs_ok_def)
  then obtain u where u: "freepageref p kh1 = Some (kh1\<lparr>pagerefs_inuse := u\<rparr>)" "length u = 8"
    "\<forall>q. inuse_bit u q = (if q = p then False else inuse_bit (pagerefs_inuse kh) q)"
    using freepageref_ok [of kh1 p] r(2) by (auto simp: relinked_def)
  let ?kh = "kh1\<lparr>pagerefs_inuse := u\<rparr>"
  have L: "[q \<leftarrow> L. q \<noteq> p] = remove1 p L" "\<And>P. remove1 p (filter P L) = filter P (remove1 p L)"
    using len(4) by (simp_all add: distinct_remove1_removeAll removeAll_filter_not_eq eq_commute [of _ p] conj_commute)
  note e = relinked_parts [OF r(2)]
  have "refs_ok ?kh (remove1 p L)"
    using refs r(2-4) u(2, 3) len L(2) by (auto simp: refs_ok_def e relinked_def)
  moreover have "space_ok ?kh (remove1 p L) G"
    using rep r(2) len(4) by (auto simp: heap_rep_def space_ok_def e relinked_def ram_ok_def in_ram_def)
  ultimately have "heap_rep ?kh (remove1 p L) F G" using rep r(2) len(4) by (simp add: heap_rep_def e relinked_def)
  then show ?thesis using r(1, 2) u(1) unfolding L(1)
    by (intro exI [of _ kh1] exI [of _ ?kh]) (simp add: live_def e relinked_def)
qed

text \<open>What is written into a block that goes back to its page.\<close>

definition freed_mem :: "pageref \<Rightarrow> nat \<Rightarrow> (u32 \<Rightarrow> u32) \<Rightarrow> u32 \<Rightarrow> u32" where
  "freed_mem pr k m = (fill_deadbeef (fst (block pr k)) (snd (block pr k)) m)
     (fst (block pr k) := (if freelist_offset pr = INVALID_OFFSET then 0 else PR_PAGEADDR pr + ucast (freelist_offset pr)))"

lemma freed_mem_frame:
  assumes "is_page (PR_PAGEADDR pr)" and "unat (PR_BLOCKTYPE pr) < 8" and "k < nblocks (unat (PR_BLOCKTYPE pr))"
    and "unat x \<notin> bytes (block pr k)"
  shows "freed_mem pr k m x = m x"
proof -
  have "unat (fst (block pr k)) + snd (block pr k) \<le> 2 ^ 32"
    using block_inside [OF assms(2, 3)] assms(1) page_addr [OF assms(1)] by (simp add: is_page_def)
  moreover have "x \<noteq> fst (block pr k)" using assms(4) sizes_ok(2) [OF assms(2)] by (auto simp: bytes_def)
  ultimately show ?thesis using fill_deadbeef_frame [of "fst (block pr k)" "snd (block pr k)" x] assms(4) by (simp add: freed_mem_def)
qed

lemma freed_page_ok:
  assumes pg: "is_page (PR_PAGEADDR pr)" and ok: "page_ok m pr ks" and k: "k < nblocks (unat (PR_BLOCKTYPE pr))" "k \<notin> set ks"
  shows "page_ok (freed_mem pr k m) (pr\<lparr>nfree := nfree pr + 1, freelist_offset := of_nat (k * sizes ! unat (PR_BLOCKTYPE pr))\<rparr>) (k # ks)"
    "length (k # ks) \<le> nblocks (unat (PR_BLOCKTYPE pr))" "unat (nfree pr + 1) = length (k # ks)"
proof -
  have b: "unat (PR_BLOCKTYPE pr) < 8" "distinct ks" "set ks \<subseteq> {..<nblocks (unat (PR_BLOCKTYPE pr))}" "unat (nfree pr) = length ks"
    "freelist_offset pr = (case ks of [] \<Rightarrow> INVALID_OFFSET | k # _ \<Rightarrow> of_nat (k * sizes ! unat (PR_BLOCKTYPE pr)))"
    using ok by (simp_all add: page_ok_def Let_def)
  show len: "length (k # ks) \<le> nblocks (unat (PR_BLOCKTYPE pr))"
    using card_mono [of "{..<nblocks (unat (PR_BLOCKTYPE pr))}" "set (k # ks)"] b(2, 3) k by (simp add: distinct_card [symmetric])
  then show n: "unat (nfree pr + 1) = length (k # ks)" using b(4) sizes_ok(4) [OF b(1)] by (simp add: unat_word_ariths(1))
  have "freed_mem pr k m (fst (block pr j)) = m (fst (block pr j))" if "j \<in> set ks" for j
    using freed_mem_frame [OF pg b(1) k(1)] blocks_apart [OF pg b(1) _ _ k(1), of j] block_start [OF pg ok that] that k(2) by blast
  then have "page_ok (freed_mem pr k m) pr ks" by (rule page_ok_cong [OF ok])
  moreover have "freed_mem pr k m (fst (block pr k)) = nextw (PR_PAGEADDR pr) (sizes ! unat (PR_BLOCKTYPE pr)) ks"
  proof (cases ks)
    case Nil
    then show ?thesis using b(5) by (simp add: freed_mem_def nextw_def)
  next
    case (Cons j js)
    then have j: "j * sizes ! unat (PR_BLOCKTYPE pr) < 4096" using block_inside(2) [OF b(1), of j] b(3) by simp
    then have "freelist_offset pr \<noteq> INVALID_OFFSET" using b(5) Cons by (simp add: off_word INVALID_OFFSET_def word_unat_eq_iff)
    then show ?thesis using b(5) Cons j by (simp add: freed_mem_def nextw_def off_word)
  qed
  ultimately show "page_ok (freed_mem pr k m) (pr\<lparr>nfree := nfree pr + 1, freelist_offset := of_nat (k * sizes ! unat (PR_BLOCKTYPE pr))\<rparr>) (k # ks)"
    using b k n by (auto simp: page_ok_def Let_def)
qed

lemma pageref_reorder: "pr\<lparr>freelist_offset := f, nfree := n\<rparr> = pr\<lparr>nfree := n, freelist_offset := f\<rparr>"
  by (cases pr) simp

lemma subpage_kfree_block:
  assumes rep: "heap_rep kh L F G" and nf: "not_all_free kh L F" and p: "p \<in> set L"
    and k: "k < nblocks (unat (PR_BLOCKTYPE (pagerefs kh ! p)))" "k \<notin> set (F p)"
  shows "\<exists>kh'. subpage_kfree (fst (block (pagerefs kh ! p) k)) kh = Some (0, kh') \<and>
    heap kh' (live kh L F G - {block (pagerefs kh ! p) k}) \<and> kmem kh' = freed_mem (pagerefs kh ! p) k (kmem kh)"
proof -
  let ?pr = "pagerefs kh ! p" let ?s = "sizes ! unat (PR_BLOCKTYPE ?pr)" and ?m = "freed_mem ?pr k (kmem kh)"
  let ?kh = "relisted kh p (nfree ?pr + 1) (of_nat (k * ?s)) ?m"
  note pg = heap_rep_parts [OF rep p]
  note fr = freed_page_ok [OF pg(1, 2) k]
  have off: "k * ?s < 4096" "k * ?s + ?s \<le> 4096" using block_inside [OF pg(4) k(1)] by simp_all
  have "?m (fst (block (pagerefs kh ! q) j)) = kmem kh (fst (block (pagerefs kh ! q) j))" if "q \<in> set L" "q \<noteq> p" "j \<in> set (F q)" for q j
    using freed_mem_frame [OF pg(1, 4) k(1)] rep_blocks_apart [OF rep that(1) p _ k(1), of j] that(2)
      block_start [OF heap_rep_parts(1, 2) [OF rep that(1)] that(3)] by blast
  note r = relisted_rep [OF rep p this fr(1)]
  have lv: "live ?kh L (F(p := k # F p)) G = live kh L F G - {block ?pr k}"
  proof -
    have "page_ok ?m (?pr\<lparr>nfree := nfree ?pr + 1, freelist_offset := of_nat (k * ?s)\<rparr>) (k # F p)" by (rule fr(1))
    then have "taken ?pr (F p) = insert (block ?pr k) (taken ?pr (k # F p))" "block ?pr k \<notin> taken ?pr (k # F p)"
      using taken_cons [of "?pr\<lparr>nfree := nfree ?pr + 1, freelist_offset := of_nat (k * ?s)\<rparr>"] pg(1) by auto
    then show ?thesis using r(2, 3) block_not_elsewhere [OF rep p k(1)] by auto
  qed
  have "unat (fst (block ?pr k)) \<in> bytes (PR_PAGEADDR ?pr, 4096)" using off(1) page_addr [OF pg(1)] by (simp add: bytes_def)
  note fa = find_addr_ok(1) [OF rep p this]
  have run: "subpage_kfree (fst (block ?pr k)) kh =
      (if length (k # F p) = nblocks (unat (PR_BLOCKTYPE ?pr)) then
         do { kh2 \<leftarrow> remove_lists p (unat (PR_BLOCKTYPE ?pr)) ?kh; kh3 \<leftarrow> freepageref p (free_kpages (PR_PAGEADDR ?pr) kh2); Some (0, kh3) }
       else Some (0, ?kh))"
    using fa off fr(2, 3)
    by (simp add: subpage_kfree_def kern_simps Let_def off_word PAGE_SIZE_def word_le_nat_alt freed_mem_def relisted_def pageref_reorder)
  show ?thesis
  proof (cases "length (k # F p) = nblocks (unat (PR_BLOCKTYPE ?pr))")
    case False
    then have "not_all_free ?kh L (F(p := k # F p))" using nf fr(2) by (auto simp: not_all_free_def relisted_simps [OF pg(3)])
    then show ?thesis using run False r(1) lv unfolding heap_def
      by (intro exI [of _ ?kh] conjI exI [of _ L] exI [of _ "F(p := k # F p)"] exI [of _ G]) (simp_all add: relisted_simps [OF pg(3)])
  next
    case True
    obtain kh1 kh2 where d: "remove_lists p (unat (PR_BLOCKTYPE ?pr)) ?kh = Some kh1" "freepageref p kh1 = Some kh2"
      "heap_rep kh2 [q \<leftarrow> L. q \<noteq> p] (F(p := k # F p)) G"
      "live kh2 [q \<leftarrow> L. q \<noteq> p] (F(p := k # F p)) G = live ?kh [q \<leftarrow> L. q \<noteq> p] (F(p := k # F p)) G" "kmem kh2 = ?m"
      "\<forall>q. PR_BLOCKTYPE (pagerefs kh2 ! q) = PR_BLOCKTYPE (pagerefs kh ! q)"
      using drop_page [OF r(1) p] by (auto simp: relisted_simps [OF pg(3)])
    have "set (k # F p) = {..<nblocks (unat (PR_BLOCKTYPE ?pr))}"
      using True fr(1) by (intro card_subset_eq) (auto simp: page_ok_def Let_def distinct_card simp flip: distinct_card)
    then have "taken ?pr (k # F p) = {}" by (simp add: taken_def)
    moreover have "live ?kh [q \<leftarrow> L. q \<noteq> p] (F(p := k # F p)) G = live kh [q \<leftarrow> L. q \<noteq> p] F G"
      by (simp add: live_def relisted_simps [OF pg(3)])
    ultimately have "live kh2 [q \<leftarrow> L. q \<noteq> p] (F(p := k # F p)) G = live kh L F G - {block ?pr k}" using lv r(2) d(4) by simp
    moreover have "not_all_free kh2 [q \<leftarrow> L. q \<noteq> p] (F(p := k # F p))" using nf d(6) by (simp add: not_all_free_def)
    ultimately have "heap kh2 (live kh L F G - {block ?pr k})" using d(3) unfolding heap_def by metis
    then show ?thesis using run True d(1, 2, 5) by (simp add: kern_simps free_kpages_def)
  qed
qed

lemma subpage_kfree_big:
  assumes rep: "heap_rep kh L F G" and g: "g \<in> G"
  shows "subpage_kfree (fst g) kh = Some (-1, kh)" "unat (fst g) mod 4096 = 0"
proof -
  have ok: "in_ram kh (fst g) (snd g)" "4096 \<le> snd g" using rep g by (auto simp: heap_rep_def space_ok_def)
  have "unat (fst g) \<notin> bytes (PR_PAGEADDR (pagerefs kh ! p), 4096)" if "p \<in> set L" for p
  proof -
    have "bytes g \<inter> bytes (PR_PAGEADDR (pagerefs kh ! p), 4096) = {}" using rep g that by (simp add: heap_rep_def space_ok_def)
    moreover have "unat (fst g) \<in> bytes g" using ok(2) by (simp add: bytes_def)
    ultimately show ?thesis by blast
  qed
  then show "subpage_kfree (fst g) kh = Some (-1, kh)" using find_addr_ok(2) [OF rep, of "fst g"] by (simp add: subpage_kfree_def)
  show "unat (fst g) mod 4096 = 0" using ok(1) by (simp add: in_ram_def)
qed

lemma drop_big:
  assumes rep: "heap_rep kh L F G" and nf: "not_all_free kh L F" and g: "g \<in> G"
  shows "heap kh (live kh L F G - {g})"
proof -
  have "heap_rep kh L F (G - {g})" using rep by (simp add: heap_rep_def space_ok_def)
  moreover have "g \<notin> taken (pagerefs kh ! p) (F p)" if "p \<in> set L" for p
  proof
    assume "g \<in> taken (pagerefs kh ! p) (F p)"
    then obtain k where k: "k < nblocks (unat (PR_BLOCKTYPE (pagerefs kh ! p)))" "g = block (pagerefs kh ! p) k" by (auto simp: taken_def)
    then have "bytes g = {}" using rep_big_apart [OF rep that g k(1)] by simp
    then show False using rep g by (auto simp: heap_rep_def space_ok_def bytes_def)
  qed
  then have "live kh L F (G - {g}) = live kh L F G - {g}" by (auto simp: live_def)
  ultimately show ?thesis using nf unfolding heap_def by metis
qed

lemma kfree_ok:
  assumes heap: "heap kh B" and x: "x \<in> B"
  shows "\<exists>kh'. kfree (fst x) kh = Some kh' \<and> heap kh' (B - {x}) \<and> (\<forall>a. unat a \<notin> bytes x \<longrightarrow> kmem kh' a = kmem kh a)"
proof -
  obtain L F G where rep: "heap_rep kh L F G" and nf: "not_all_free kh L F" and B: "B = live kh L F G" using heap unfolding heap_def by blast
  have "x \<in> live kh L F G" using x B by simp
  then show ?thesis
  proof (cases rule: live_cases)
    case (1 p k)
    note pg = heap_rep_parts [OF rep 1(1)]
    have "fst x \<noteq> 0" using page_addr_nonzero [OF pg(1)] block_inside(2) [OF pg(4) 1(2)] 1(4) by simp
    moreover obtain kh' where "subpage_kfree (fst x) kh = Some (0, kh')" "heap kh' (B - {x})" "kmem kh' = freed_mem (pagerefs kh ! p) k (kmem kh)"
      using subpage_kfree_block [OF rep nf 1(1-3)] 1(4) B by auto
    ultimately show ?thesis using freed_mem_frame [OF pg(1, 4) 1(2)] 1(4) by (simp add: kfree_def kern_simps)
  next
    case 2
    have "0x80000000 \<le> unat (fst x)" using rep 2 by (auto simp: heap_rep_def space_ok_def in_ram_def)
    then have "fst x \<noteq> 0" by auto
    then show ?thesis using subpage_kfree_big [OF rep 2] drop_big [OF rep nf 2] B by (simp add: kfree_def kern_simps free_kpages_def)
  qed
qed

section \<open>Properties\<close>

text \<open>C24. With the blocks \<open>B\<close> allocated, \<^verbatim>\<open>kmalloc\<close> of a size that rounding up to pages does not carry past the address
  space returns without tripping an assertion: either a pointer to a block at least as large as asked for, disjoint from
  every block of \<open>B\<close>, or \<^verbatim>\<open>NULL\<close>, which it returns only when the pages or the pagerefs have run out. The heap is in
  order afterwards and the words of every allocated block are what they were.\<close>

theorem kmalloc_allocates:
  assumes "heap kh B" and "unat sz \<le> 0xdfbff000"
  shows "\<exists>ptr kh'. kmalloc sz kh = Some (ptr, kh') \<and>
    (if ptr = 0 then heap kh' B \<and> exhausted sz kh
     else \<exists>n. unat sz \<le> n \<and> heap kh' (insert (ptr, n) B) \<and> (\<forall>x\<in>B. bytes x \<inter> bytes (ptr, n) = {})) \<and>
    (\<forall>x\<in>B. \<forall>a. unat a \<in> bytes x \<longrightarrow> kmem kh' a = kmem kh a)"
proof -
  obtain ptr kh' where k: "kmalloc sz kh = Some (ptr, kh')" "allocated sz kh B ptr kh'" using kmalloc_ok [OF assms] by blast
  show ?thesis
  proof (cases "ptr = 0")
    case True
    then show ?thesis using k by (auto simp: allocated_def)
  next
    case False
    then obtain n where n: "unat sz \<le> n" "(ptr, n) \<notin> B" "heap kh' (insert (ptr, n) B)" using k(2) by (auto simp: allocated_def)
    then have "\<forall>x\<in>B. bytes x \<inter> bytes (ptr, n) = {}" using heap_apart [OF n(3)] by blast
    with n have "\<exists>n. unat sz \<le> n \<and> heap kh' (insert (ptr, n) B) \<and> (\<forall>x\<in>B. bytes x \<inter> bytes (ptr, n) = {})" by blast
    then show ?thesis using k False by (simp add: allocated_def)
  qed
qed

definition ex_heap :: kheap where
  "ex_heap = \<lparr>firstpaddr = 0x20000, lastpaddr = 0x80000, kmem = (\<lambda>_. 0), pagerefs = replicate 256 \<lparr>next_samesize = None, next_all = None,
     pageaddr_and_blocktype = 0, freelist_offset = 0, nfree = 0\<rparr>, pagerefs_inuse = replicate 8 0, sizebases = replicate 8 None, allbase = None\<rparr>"

lemma ex_heap_ok: "heap ex_heap {}"
proof -
  have "inuse_bit (replicate 8 0) p = False" if "p < 256" for p using that by (simp add: inuse_bit_def)
  then have "heap_rep ex_heap [] (\<lambda>_. []) {}" by (auto simp: heap_rep_def refs_ok_def space_ok_def ram_ok_def ex_heap_def word_le_nat_alt)
  then show ?thesis unfolding heap_def by (intro exI [of _ "[]"] exI [of _ "\<lambda>_. []"] exI [of _ "{}"]) (simp add: live_def not_all_free_def)
qed

lemma ex_not_exhausted: "\<not> exhausted 1500 ex_heap"
  by (auto simp: exhausted_def LARGEST_SUBPAGE_SIZE_def ex_heap_def inuse_bit_def intro!: exI [of _ 0])

theorem kmalloc_allocates_witness:
  "heap ex_heap {} \<and> (\<exists>ptr n kh'. kmalloc 1500 ex_heap = Some (ptr, kh') \<and> ptr \<noteq> 0 \<and> 1500 \<le> n \<and> heap kh' {(ptr, n)})"
proof -
  show ?thesis using ex_not_exhausted kmalloc_allocates [OF ex_heap_ok, of 1500] ex_heap_ok by (auto split: if_splits)
qed

text \<open>C26. \<^verbatim>\<open>kfree\<close> of an allocated block returns without tripping an assertion, whatever the size of the block and however
  full its page: afterwards the heap is in order, the block is no longer allocated and every other one is, and no
  word outside the block has changed.\<close>

theorem kfree_releases:
  assumes "heap kh B" and "(ptr, n) \<in> B"
  shows "\<exists>kh'. kfree ptr kh = Some kh' \<and> heap kh' (B - {(ptr, n)}) \<and>
    (\<forall>a. unat a \<notin> bytes (ptr, n) \<longrightarrow> kmem kh' a = kmem kh a)"
  using kfree_ok [OF assms] by simp

theorem kfree_releases_witness:
  "\<exists>(kh :: kheap) ptr n kh'. heap kh {(ptr, n)} \<and> kfree ptr kh = Some kh' \<and> heap kh' {}"
proof -
  obtain ptr n and kh :: kheap where k: "heap kh {(ptr, n)}" using ex_not_exhausted kmalloc_ok [OF ex_heap_ok, of 1500] by (auto simp: allocated_def split: if_splits)
  then show ?thesis using kfree_releases [OF k, of ptr n] by auto
qed

text \<open>C27. Rounding up to pages is done in 32 bits without a check: for the last 4095 sizes it gives no pages at all, and
  \<^verbatim>\<open>kmalloc\<close> returns the address of the next free page, not \<^verbatim>\<open>NULL\<close>, with nothing reserved; the next request gets
  the same address.\<close>

theorem kmalloc_wraps:
  assumes "ram_ok kh" and "unat sz > 0xfffff000"
  shows "kmalloc sz kh = Some (PADDR_TO_KVADDR (firstpaddr kh), kh) \<and> PADDR_TO_KVADDR (firstpaddr kh) \<noteq> 0"
proof
  have "PADDR_TO_KVADDR (firstpaddr kh) \<noteq> 0" if "unat (PADDR_TO_KVADDR (firstpaddr kh)) \<noteq> 0" using that by auto
  then show "PADDR_TO_KVADDR (firstpaddr kh) \<noteq> 0"
    using ram_ok_bound [OF assms(1)] by (simp add: PADDR_TO_KVADDR_def MIPS_KSEG0_def unat_word_ariths(1))
  have f: "unat (firstpaddr kh) \<le> 0x1fc00000" "firstpaddr kh \<noteq> 0" "firstpaddr kh \<le> lastpaddr kh"
    using ram_ok_bound [OF assms(1)] assms(1) by (simp_all add: ram_ok_def)
  have "unat sz < 2 ^ 32" using unsigned_less [of sz] by simp
  then obtain d where d: "unat sz = 0xfffff001 + d" "d < 4095" using assms(2) less_eqE [of "0xfffff001" "unat sz"] by auto
  then have "unat (sz + PAGE_SIZE - 1) < 4096" by (simp add: PAGE_SIZE_def unat_word_ariths(1))
  then have "(sz + PAGE_SIZE - 1) div PAGE_SIZE = 0" by (simp add: word_unat_eq_iff unat_div PAGE_SIZE_def)
  moreover have "sz \<ge> LARGEST_SUBPAGE_SIZE" using assms(2) by (simp add: LARGEST_SUBPAGE_SIZE_def word_le_nat_alt)
  ultimately show "kmalloc sz kh = Some (PADDR_TO_KVADDR (firstpaddr kh), kh)"
    using f(2) leD [OF f(3)] by (simp add: kmalloc_def alloc_kpages_def getppages_def ram_stealmem_def)
qed

theorem kmalloc_wraps_witness: "kmalloc 0xffffffff ex_heap = Some (0x80020000, ex_heap)"
proof -
  have "ram_ok ex_heap" by (simp add: ram_ok_def ex_heap_def)
  then show ?thesis using kmalloc_wraps [of ex_heap "0xffffffff"] by (simp add: ex_heap_def PADDR_TO_KVADDR_def MIPS_KSEG0_def)
qed

end
