(* ===== verification/Dumbvm.thy ===== *)
theory Dumbvm
  imports Kheap Libc_Mem
begin

text \<open>
  The virtual memory system of \<^verbatim>\<open>src/src/kern/arch/mips/mips/dumbvm.c\<close>: address spaces of two regions and a stack,
  and the refill of the translation buffer.

  \<open>vm\<close> extends the kernel heap, from which address spaces are allocated and with which they share the physical pages. The
  bytes of the pages that belong to address spaces are in \<open>umem\<close>, by their kernel address. A
  \<^verbatim>\<open>struct addrspace *\<close> is the address \<^verbatim>\<open>kmalloc\<close> has returned, 0 for \<^verbatim>\<open>NULL\<close>, and \<open>aspaces\<close> holds the
  structures. An entry of the translation buffer is the pair of its high and its low word.
\<close>

section \<open>The code\<close>

definition USERSTACK :: u32 where "USERSTACK = 0x80000000"
definition DUMBVM_STACKPAGES :: u32 where "DUMBVM_STACKPAGES = 12"
definition TLBLO_DIRTY :: u32 where "TLBLO_DIRTY = 0x400"
definition TLBLO_VALID :: u32 where "TLBLO_VALID = 0x200"
definition TLBHI_INVALID :: "nat \<Rightarrow> u32" where "TLBHI_INVALID entryno = push_bit 12 (0x80000 + of_nat entryno)"
definition TLBLO_INVALID :: u32 where "TLBLO_INVALID = 0"
definition NUM_TLB :: nat where "NUM_TLB = 64"

datatype faulttype = VM_FAULT_READ | VM_FAULT_WRITE | VM_FAULT_READONLY | VM_FAULT_OTHER

record addrspace =
  as_vbase1 :: u32
  as_pbase1 :: u32
  as_npages1 :: u32
  as_vbase2 :: u32
  as_pbase2 :: u32
  as_npages2 :: u32
  as_stackpbase :: u32

record vm = kheap +
  umem :: mem
  tlb :: "(u32 \<times> u32) list"
  aspaces :: "u32 \<rightharpoonup> addrspace"
  t_vmspace :: u32
  vm_spl :: nat

text \<open>The choice of the page frame in \<^verbatim>\<open>vm_fault\<close>.\<close>

definition fault_paddr :: "addrspace \<Rightarrow> u32 \<Rightarrow> u32 option" where
  "fault_paddr as faultaddress =
     (let vbase1 = as_vbase1 as; vtop1 = vbase1 + as_npages1 as * PAGE_SIZE;
          vbase2 = as_vbase2 as; vtop2 = vbase2 + as_npages2 as * PAGE_SIZE;
          stackbase = USERSTACK - DUMBVM_STACKPAGES * PAGE_SIZE; stacktop = USERSTACK in
      if faultaddress \<ge> vbase1 \<and> faultaddress < vtop1 then Some ((faultaddress - vbase1) + as_pbase1 as)
      else if faultaddress \<ge> vbase2 \<and> faultaddress < vtop2 then Some ((faultaddress - vbase2) + as_pbase2 as)
      else if faultaddress \<ge> stackbase \<and> faultaddress < stacktop then Some ((faultaddress - stackbase) + as_stackpbase as)
      else None)"

definition vm_fault :: "faulttype \<Rightarrow> u32 \<Rightarrow> vm \<Rightarrow> (errno \<times> vm) kern" where
  "vm_fault faulttype faultaddress vm =
     do {
       let spl = vm_spl vm;
       let vm = vm\<lparr>vm_spl := 15\<rparr>;
       let faultaddress = faultaddress AND PAGE_FRAME;
       kassert (faulttype \<noteq> VM_FAULT_READONLY);
       if faulttype = VM_FAULT_OTHER then Some (EINVAL, vm\<lparr>vm_spl := spl\<rparr>)
       else if t_vmspace vm = 0 then Some (EFAULT, vm)
       else do {
         as \<leftarrow> aspaces vm (t_vmspace vm);
         kassert (as_vbase1 as \<noteq> 0);
         kassert (as_pbase1 as \<noteq> 0);
         kassert (as_npages1 as \<noteq> 0);
         kassert (as_vbase2 as \<noteq> 0);
         kassert (as_pbase2 as \<noteq> 0);
         kassert (as_npages2 as \<noteq> 0);
         kassert (as_stackpbase as \<noteq> 0);
         kassert (as_vbase1 as AND PAGE_FRAME = as_vbase1 as);
         kassert (as_pbase1 as AND PAGE_FRAME = as_pbase1 as);
         kassert (as_vbase2 as AND PAGE_FRAME = as_vbase2 as);
         kassert (as_pbase2 as AND PAGE_FRAME = as_pbase2 as);
         kassert (as_stackpbase as AND PAGE_FRAME = as_stackpbase as);
         (case fault_paddr as faultaddress of
            None \<Rightarrow> Some (EFAULT, vm\<lparr>vm_spl := spl\<rparr>)
          | Some paddr \<Rightarrow> do {
              kassert (paddr AND PAGE_FRAME = paddr);
              (case find (\<lambda>i. snd (tlb vm ! i) AND TLBLO_VALID = 0) [0..<NUM_TLB] of
                 None \<Rightarrow> Some (EFAULT, vm\<lparr>vm_spl := spl\<rparr>)
               | Some i \<Rightarrow>
                   Some (EOK, vm\<lparr>tlb := (tlb vm)[i := (faultaddress, paddr OR TLBLO_DIRTY OR TLBLO_VALID)], vm_spl := spl\<rparr>))
            })
       }
     }"

definition as_create :: "vm \<Rightarrow> (u32 \<times> vm) kern" where
  "as_create vm =
     do {
       (as, vm) \<leftarrow> kmalloc 28 vm;
       Some (if as = 0 then (0, vm)
         else (as, vm\<lparr>aspaces := (aspaces vm)(as \<mapsto> \<lparr>as_vbase1 = 0, as_pbase1 = 0, as_npages1 = 0,
                 as_vbase2 = 0, as_pbase2 = 0, as_npages2 = 0, as_stackpbase = 0\<rparr>)\<rparr>))
     }"

definition as_destroy :: "u32 \<Rightarrow> vm \<Rightarrow> vm kern" where
  "as_destroy as vm = do { vm \<leftarrow> kfree as vm; Some (vm\<lparr>aspaces := (aspaces vm)(as := None)\<rparr>) }"

definition as_activate :: "u32 \<Rightarrow> vm \<Rightarrow> vm" where
  "as_activate as vm = vm\<lparr>tlb := foldl (\<lambda>t i. t[i := (TLBHI_INVALID i, TLBLO_INVALID)]) (tlb vm) [0..<NUM_TLB]\<rparr>"

definition as_define_region :: "addrspace \<Rightarrow> u32 \<Rightarrow> u32 \<Rightarrow> errno \<times> addrspace" where
  "as_define_region as vaddr sz =
     (let sz = sz + (vaddr AND NOT PAGE_FRAME);
          vaddr = vaddr AND PAGE_FRAME;
          sz = (sz + PAGE_SIZE - 1) AND PAGE_FRAME;
          npages = sz div PAGE_SIZE in
      if as_vbase1 as = 0 then (EOK, as\<lparr>as_vbase1 := vaddr, as_npages1 := npages\<rparr>)
      else if as_vbase2 as = 0 then (EOK, as\<lparr>as_vbase2 := vaddr, as_npages2 := npages\<rparr>)
      else (EUNIMP, as))"

definition as_prepare_load :: "addrspace \<Rightarrow> 'a ram_scheme \<Rightarrow> (errno \<times> addrspace \<times> 'a ram_scheme) kern" where
  "as_prepare_load as st =
     do {
       kassert (as_pbase1 as = 0);
       kassert (as_pbase2 as = 0);
       kassert (as_stackpbase as = 0);
       let (pa, st) = getppages (as_npages1 as) st;
       let as = as\<lparr>as_pbase1 := pa\<rparr>;
       if pa = 0 then Some (ENOMEM, as, st)
       else do {
         let (pa, st) = getppages (as_npages2 as) st;
         let as = as\<lparr>as_pbase2 := pa\<rparr>;
         if pa = 0 then Some (ENOMEM, as, st)
         else do {
           let (pa, st) = getppages DUMBVM_STACKPAGES st;
           let as = as\<lparr>as_stackpbase := pa\<rparr>;
           Some (if pa = 0 then ENOMEM else EOK, as, st)
         }
       }
     }"

definition as_complete_load :: "addrspace \<Rightarrow> errno" where
  "as_complete_load as = EOK"

definition as_define_stack :: "addrspace \<Rightarrow> (errno \<times> u32) kern" where
  "as_define_stack as = do { kassert (as_stackpbase as \<noteq> 0); Some (EOK, USERSTACK) }"

definition as_copy :: "u32 \<Rightarrow> vm \<Rightarrow> (errno \<times> u32 \<times> vm) kern" where
  "as_copy old vm =
     do {
       (new, vm) \<leftarrow> as_create vm;
       if new = 0 then Some (ENOMEM, 0, vm)
       else do {
         oldas \<leftarrow> aspaces vm old;
         newas \<leftarrow> aspaces vm new;
         let newas = newas\<lparr>as_vbase1 := as_vbase1 oldas, as_npages1 := as_npages1 oldas,
                           as_vbase2 := as_vbase2 oldas, as_npages2 := as_npages2 oldas\<rparr>;
         (e, newas, vm) \<leftarrow> as_prepare_load newas vm;
         let vm = vm\<lparr>aspaces := (aspaces vm)(new \<mapsto> newas)\<rparr>;
         if e \<noteq> EOK then do { vm \<leftarrow> as_destroy new vm; Some (ENOMEM, 0, vm) }
         else do {
           kassert (as_pbase1 newas \<noteq> 0);
           kassert (as_pbase2 newas \<noteq> 0);
           kassert (as_stackpbase newas \<noteq> 0);
           let (_, m) = memmove (PADDR_TO_KVADDR (as_pbase1 newas)) (PADDR_TO_KVADDR (as_pbase1 oldas)) (as_npages1 oldas * PAGE_SIZE) (umem vm);
           let (_, m) = memmove (PADDR_TO_KVADDR (as_pbase2 newas)) (PADDR_TO_KVADDR (as_pbase2 oldas)) (as_npages2 oldas * PAGE_SIZE) m;
           let (_, m) = memmove (PADDR_TO_KVADDR (as_stackpbase newas)) (PADDR_TO_KVADDR (as_stackpbase oldas)) (DUMBVM_STACKPAGES * PAGE_SIZE) m;
           Some (EOK, new, vm\<lparr>umem := m\<rparr>)
         }
       }
     }"

section \<open>The heap leaves the rest of the state alone\<close>

lemma allocpageref_more: "allocpageref kh = Some (p, kh') \<Longrightarrow> kheap.more kh' = kheap.more kh"
proof -
  have "allocpageref_loop ix kh = Some (p, kh') \<Longrightarrow> kheap.more kh' = kheap.more kh" for ix
    by (induction ix) (auto split: if_splits option.splits)
  then show "allocpageref kh = Some (p, kh') \<Longrightarrow> kheap.more kh' = kheap.more kh" by (simp add: allocpageref_def)
qed

text \<open>What \<^verbatim>\<open>kfree\<close> leaves alone: the free memory as well.\<close>

abbreviation frees :: "'a kheap_scheme \<Rightarrow> u32 \<times> u32 \<times> 'a" where
  "frees kh \<equiv> (firstpaddr kh, lastpaddr kh, kheap.more kh)"

lemma freepageref_more: "freepageref p kh = Some kh' \<Longrightarrow> frees kh' = frees kh"
  by (auto simp: freepageref_def kern_simps Let_def)

lemma doalloc_more: "doalloc p kh = Some (a, kh') \<Longrightarrow> kheap.more kh' = kheap.more kh"
  by (auto simp: doalloc_def kern_simps Let_def split: if_splits)

lemma alloc_kpages_more: "alloc_kpages n kh = (a, kh') \<Longrightarrow> kheap.more kh' = kheap.more kh"
  by (auto simp: alloc_kpages_def getppages_def ram_stealmem_def Let_def split: if_splits)

lemma subpage_kmalloc_more: "subpage_kmalloc sz kh = Some (a, kh') \<Longrightarrow> kheap.more kh' = kheap.more kh"
proof -
  assume s: "subpage_kmalloc sz kh = Some (a, kh')"
  then obtain b r where b: "blocktype sz = Some b" "find_page (of_nat b) (sizebases kh ! b) kh = Some r"
    by (auto simp: subpage_kmalloc_def kern_simps Let_def)
  show ?thesis
  proof (cases r)
    case None
    then obtain q kh1 where q: "allocpageref kh = Some (q, kh1)" using s b by (auto simp: subpage_kmalloc_def kern_simps Let_def)
    obtain c kh2 where c: "alloc_kpages 1 kh1 = (c, kh2)" by (cases "alloc_kpages 1 kh1")
    show ?thesis using s b None q c allocpageref_more [OF q] alloc_kpages_more [OF c]
      by (cases q; cases "c = 0") (auto simp: subpage_kmalloc_def kern_simps Let_def dest!: doalloc_more freepageref_more)
  next
    case (Some p)
    then show ?thesis using s b doalloc_more by (auto simp: subpage_kmalloc_def kern_simps Let_def)
  qed
qed

lemma kmalloc_more: "kmalloc sz kh = Some (a, kh') \<Longrightarrow> kheap.more kh' = kheap.more kh"
  by (auto simp: kmalloc_def Let_def split: if_splits dest: alloc_kpages_more subpage_kmalloc_more)

lemma remove_samesize_more: "remove_samesize b l p kh = Some kh' \<Longrightarrow> frees kh' = frees kh"
  by (erule remove_samesize.raw_induct [where P = "\<lambda>b l p kh kh'. frees kh' = frees kh", rotated]) (auto simp: set_samesize_link_def split: option.splits if_splits link.splits)

lemma remove_all_more: "remove_all l p kh = Some kh' \<Longrightarrow> frees kh' = frees kh"
  by (erule remove_all.raw_induct [where P = "\<lambda>l p kh kh'. frees kh' = frees kh", rotated]) (auto simp: set_all_link_def split: option.splits if_splits link.splits)

lemma remove_lists_more: "remove_lists p b kh = Some kh' \<Longrightarrow> frees kh' = frees kh"
  by (auto simp: remove_lists_def kern_simps dest!: remove_samesize_more remove_all_more)

lemma subpage_kfree_more: "subpage_kfree a kh = Some (r, kh') \<Longrightarrow> frees kh' = frees kh"
proof -
  assume s: "subpage_kfree a kh = Some (r, kh')"
  then obtain q where q: "find_addr a (allbase kh) kh = Some q" by (auto simp: subpage_kfree_def kern_simps)
  show ?thesis
  proof (cases q)
    case None
    then show ?thesis using s q by (simp add: subpage_kfree_def)
  next
    case (Some p)
    define pr m where "pr = (pagerefs kh ! p)\<lparr>freelist_offset := ucast (a - PR_PAGEADDR (pagerefs kh ! p)), nfree := nfree (pagerefs kh ! p) + 1\<rparr>"
      and "m = (fill_deadbeef a (sizes ! unat (PR_BLOCKTYPE (pagerefs kh ! p))) (kmem kh))
        (PR_PAGEADDR (pagerefs kh ! p) + (a - PR_PAGEADDR (pagerefs kh ! p)) := (if freelist_offset (pagerefs kh ! p) = INVALID_OFFSET then 0
          else PR_PAGEADDR (pagerefs kh ! p) + ucast (freelist_offset (pagerefs kh ! p))))"
    let ?k = "set_ref p pr (kh\<lparr>kmem := m\<rparr>)"
    have "\<exists>C D E b. subpage_kfree a kh = do { kassert C; kassert D;
        if E then do { k2 \<leftarrow> remove_lists p b ?k; k3 \<leftarrow> freepageref p k2; Some (0, k3) } else Some (0, ?k) }"
      unfolding subpage_kfree_def q Some pr_def m_def free_kpages_def Let_def Option.bind.bind_lunit option.case by (intro exI) (rule refl)
    then obtain C D E b where run: "subpage_kfree a kh = do { kassert C; kassert D;
        if E then do { k2 \<leftarrow> remove_lists p b ?k; k3 \<leftarrow> freepageref p k2; Some (0, k3) } else Some (0, ?k) }" by blast
    have "kh' = ?k \<or> (\<exists>b k2. remove_lists p b ?k = Some k2 \<and> freepageref p k2 = Some kh')"
      using s unfolding run by (auto simp: kern_simps split: if_splits)
    then show ?thesis by (auto dest!: remove_lists_more freepageref_more)
  qed
qed

lemma kfree_more: "kfree p kh = Some kh' \<Longrightarrow> frees kh' = frees kh"
  by (auto simp: kfree_def free_kpages_def kern_simps split: if_splits dest!: subpage_kfree_more)

lemma vm_more:
  assumes "kheap.more vm' = kheap.more vm"
  shows "umem vm' = umem vm" "aspaces vm' = aspaces vm" "tlb vm' = tlb vm" "t_vmspace vm' = t_vmspace vm" "vm_spl vm' = vm_spl vm"
  using assms by (cases vm; cases vm'; simp)+

section \<open>Page frames\<close>

lemma getppages_heap:
  assumes heap: "heap kh B" and n: "1 \<le> unat n" "unat n < 0xdfc00"
  shows "getppages n kh = (0, kh) \<and> unat (lastpaddr kh) < unat (firstpaddr kh) + unat n * 4096 \<or>
    (\<exists>a f. getppages n kh = (a, kh\<lparr>firstpaddr := f\<rparr>) \<and> a \<noteq> 0 \<and> unat a mod 4096 = 0 \<and> unat a + unat n * 4096 \<le> 0x1fc00000 \<and>
       unat (PADDR_TO_KVADDR a) = 0x80000000 + unat a \<and>
       (PADDR_TO_KVADDR a, unat n * 4096) \<notin> B \<and> heap (kh\<lparr>firstpaddr := f\<rparr>) (insert (PADDR_TO_KVADDR a, unat n * 4096) B))"
proof -
  obtain L F G where rep: "heap_rep kh L F G" and nf: "not_all_free kh L F" and B: "B = live kh L F G" using heap unfolding heap_def by blast
  have ok: "ram_ok kh" using rep by (simp add: heap_rep_def space_ok_def)
  have f: "unat (firstpaddr kh) \<le> 0x1fc00000" "firstpaddr kh \<noteq> 0" "unat (firstpaddr kh) mod 4096 = 0"
    using ram_ok_bound [OF ok] ok by (simp_all add: ram_ok_def)
  have kv: "unat (PADDR_TO_KVADDR (firstpaddr kh)) = 0x80000000 + unat (firstpaddr kh)"
    using f(1) by (simp add: PADDR_TO_KVADDR_def MIPS_KSEG0_def unat_word_ariths(1))
  from stealmem_ok [OF ok n(2)] show ?thesis
  proof (elim disjE exE conjE)
    fix st assume st: "ram_stealmem n kh = (firstpaddr kh, st)" "st = kh\<lparr>firstpaddr := firstpaddr st\<rparr>"
      "unat (firstpaddr st) = unat (firstpaddr kh) + unat n * 4096" "ram_ok st"
    have r: "ram_ok (kh\<lparr>firstpaddr := firstpaddr st\<rparr>)" using st(2, 4) by simp
    have n4: "4096 \<le> unat n * 4096" using n(1) by simp
    have "unat (firstpaddr kh) + unat n * 4096 \<le> 0x1fc00000" using ram_ok_bound [OF st(4)] st(3) by simp
    then show ?thesis using big_rep [OF rep nf kv st(3) n4 r] st(1, 2) f(2, 3) kv B
      by (intro disjI2 exI [of _ "firstpaddr kh"] exI [of _ "firstpaddr st"]) (simp add: getppages_def)
  qed (simp add: getppages_def)
qed

abbreviation frame_block :: "u32 \<Rightarrow> u32 \<Rightarrow> u32 \<times> nat" where
  "frame_block pa n \<equiv> (PADDR_TO_KVADDR pa, unat n * 4096)"

text \<open>The memory of an address space.\<close>

definition frames :: "addrspace \<Rightarrow> (u32 \<times> nat) set" where
  "frames as = {frame_block (as_pbase1 as) (as_npages1 as), frame_block (as_pbase2 as) (as_npages2 as), frame_block (as_stackpbase as) DUMBVM_STACKPAGES}"

definition sized :: "addrspace \<Rightarrow> bool" where
  "sized as \<longleftrightarrow> 1 \<le> unat (as_npages1 as) \<and> unat (as_npages1 as) < 0xdfc00 \<and> 1 \<le> unat (as_npages2 as) \<and> unat (as_npages2 as) < 0xdfc00"

text \<open>There is no room for one of its regions.\<close>

definition no_frames :: "addrspace \<Rightarrow> 'a ram_scheme \<Rightarrow> bool" where
  "no_frames as st \<longleftrightarrow> (\<exists>n\<in>{as_npages1 as, as_npages2 as, DUMBVM_STACKPAGES}. unat (lastpaddr st) < unat (firstpaddr st) + unat n * 4096)"

lemma stackpages: "unat DUMBVM_STACKPAGES = 12"
  by (simp add: DUMBVM_STACKPAGES_def)

text \<open>Blocks of a heap lie below the end of the address space.\<close>

lemma heap_top:
  assumes "heap kh B" and "x \<in> B"
  shows "0x80000000 \<le> unat (fst x)" "unat (fst x) + snd x \<le> 0x9fc00000" "0 < snd x"
proof -
  obtain L F G where rep: "heap_rep kh L F G" and B: "B = live kh L F G" using assms(1) unfolding heap_def by blast
  have ok: "ram_ok kh" using rep by (simp add: heap_rep_def space_ok_def)
  have "x \<in> live kh L F G" using assms(2) B by simp
  then have "0x80000000 \<le> unat (fst x) \<and> unat (fst x) + snd x \<le> 0x9fc00000 \<and> 0 < snd x"
  proof (cases rule: live_cases)
    case (1 p k)
    note pg = heap_rep_parts [OF rep 1(1)]
    have "unat (fst x) = unat (PR_PAGEADDR (pagerefs kh ! p)) + k * sizes ! unat (PR_BLOCKTYPE (pagerefs kh ! p))"
      using page_addr [OF pg(1)] block_inside(2) [OF pg(4) 1(2)] 1(4) by simp
    then show ?thesis using pg(1) block_inside(1) [OF pg(4) 1(2)] sizes_ok(2) [OF pg(4)] 1(4) by (simp add: is_page_def)
  next
    case 2
    then have "in_ram kh (fst x) (snd x)" "4096 \<le> snd x" using rep by (auto simp: heap_rep_def space_ok_def)
    then show ?thesis using ram_ok_bound [OF ok] by (auto simp: in_ram_def)
  qed
  then show "0x80000000 \<le> unat (fst x)" "unat (fst x) + snd x \<le> 0x9fc00000" "0 < snd x" by simp_all
qed

lemma heap_ext [simp]:
  "heap (vm\<lparr>umem := m\<rparr>) B = heap vm B" "heap (vm\<lparr>aspaces := f\<rparr>) B = heap vm B" "heap (vm\<lparr>aspaces := f, umem := m\<rparr>) B = heap vm B"
  by (simp_all add: heap_def heap_rep_def refs_ok_def space_ok_def not_all_free_def live_def ram_ok_def in_ram_def)

lemma prepare_load_heap:
  assumes heap: "heap st B" and as: "sized as" "as_pbase1 as = 0" "as_pbase2 as = 0" "as_stackpbase as = 0"
  shows "\<exists>e as' f B'. as_prepare_load as st = Some (e, as', st\<lparr>firstpaddr := f\<rparr>) \<and> heap (st\<lparr>firstpaddr := f\<rparr>) B' \<and> B \<subseteq> B' \<and>
    (e = ENOMEM \<and> no_frames as (st\<lparr>firstpaddr := f\<rparr>) \<or> (\<exists>a1 a2 a3. e = EOK \<and> a1 \<noteq> 0 \<and> a2 \<noteq> 0 \<and> a3 \<noteq> 0 \<and> as' = as\<lparr>as_pbase1 := a1, as_pbase2 := a2, as_stackpbase := a3\<rparr> \<and>
       B' = B \<union> frames as' \<and> frame_block a1 (as_npages1 as) \<notin> B \<and> frame_block a2 (as_npages2 as) \<notin> insert (frame_block a1 (as_npages1 as)) B \<and>
       frame_block a3 DUMBVM_STACKPAGES \<notin> insert (frame_block a2 (as_npages2 as)) (insert (frame_block a1 (as_npages1 as)) B)))"
proof -
  have n: "1 \<le> unat (as_npages1 as)" "unat (as_npages1 as) < 0xdfc00" "1 \<le> unat (as_npages2 as)" "unat (as_npages2 as) < 0xdfc00"
    using as(1) by (simp_all add: sized_def)
  note run = as_prepare_load_def Let_def as(2-4)
  have self: "st\<lparr>firstpaddr := firstpaddr st\<rparr> = st" by simp
  from getppages_heap [OF heap n(1, 2)] show ?thesis
  proof (elim disjE exE conjE)
    assume "getppages (as_npages1 as) st = (0, st)" "unat (lastpaddr st) < unat (firstpaddr st) + unat (as_npages1 as) * 4096"
    then show ?thesis using heap by (intro exI [of _ ENOMEM] exI [of _ "as\<lparr>as_pbase1 := 0\<rparr>"] exI [of _ "firstpaddr st"] exI [of _ B]) (simp add: run no_frames_def)
  next
    fix a1 f1 assume 1: "getppages (as_npages1 as) st = (a1, st\<lparr>firstpaddr := f1\<rparr>)" "a1 \<noteq> 0" "frame_block a1 (as_npages1 as) \<notin> B"
      "heap (st\<lparr>firstpaddr := f1\<rparr>) (insert (frame_block a1 (as_npages1 as)) B)"
    from getppages_heap [OF 1(4) n(3, 4)] show ?thesis
    proof (elim disjE exE conjE)
      assume "getppages (as_npages2 as) (st\<lparr>firstpaddr := f1\<rparr>) = (0, st\<lparr>firstpaddr := f1\<rparr>)"
        "unat (lastpaddr (st\<lparr>firstpaddr := f1\<rparr>)) < unat (firstpaddr (st\<lparr>firstpaddr := f1\<rparr>)) + unat (as_npages2 as) * 4096"
      then show ?thesis using 1 by (intro exI [of _ ENOMEM] exI [of _ "as\<lparr>as_pbase1 := a1, as_pbase2 := 0\<rparr>"] exI [of _ f1] exI [of _ "insert (frame_block a1 (as_npages1 as)) B"]) (simp add: run subset_insertI no_frames_def)
    next
      fix a2 f2 assume 2: "getppages (as_npages2 as) (st\<lparr>firstpaddr := f1\<rparr>) = (a2, st\<lparr>firstpaddr := f1, firstpaddr := f2\<rparr>)" "a2 \<noteq> 0"
        "frame_block a2 (as_npages2 as) \<notin> insert (frame_block a1 (as_npages1 as)) B"
        "heap (st\<lparr>firstpaddr := f1, firstpaddr := f2\<rparr>) (insert (frame_block a2 (as_npages2 as)) (insert (frame_block a1 (as_npages1 as)) B))"
      have h2: "heap (st\<lparr>firstpaddr := f2\<rparr>) (insert (frame_block a2 (as_npages2 as)) (insert (frame_block a1 (as_npages1 as)) B))" using 2(4) by simp
      have s: "1 \<le> unat DUMBVM_STACKPAGES" "unat DUMBVM_STACKPAGES < 0xdfc00" by (simp_all add: stackpages)
      from getppages_heap [OF h2 s] show ?thesis
      proof (elim disjE exE conjE)
        assume "getppages DUMBVM_STACKPAGES (st\<lparr>firstpaddr := f2\<rparr>) = (0, st\<lparr>firstpaddr := f2\<rparr>)"
          "unat (lastpaddr (st\<lparr>firstpaddr := f2\<rparr>)) < unat (firstpaddr (st\<lparr>firstpaddr := f2\<rparr>)) + unat DUMBVM_STACKPAGES * 4096"
        then show ?thesis using 1(1, 2) 2 h2 by (intro exI [of _ ENOMEM] exI [of _ "as\<lparr>as_pbase1 := a1, as_pbase2 := a2, as_stackpbase := 0\<rparr>"] exI [of _ f2]
            exI [of _ "insert (frame_block a2 (as_npages2 as)) (insert (frame_block a1 (as_npages1 as)) B)"]) (simp add: run subset_insertI2 no_frames_def)
      next
        fix a3 f3 assume 3: "getppages DUMBVM_STACKPAGES (st\<lparr>firstpaddr := f2\<rparr>) = (a3, st\<lparr>firstpaddr := f2, firstpaddr := f3\<rparr>)" "a3 \<noteq> 0"
          "frame_block a3 DUMBVM_STACKPAGES \<notin> insert (frame_block a2 (as_npages2 as)) (insert (frame_block a1 (as_npages1 as)) B)"
          "heap (st\<lparr>firstpaddr := f2, firstpaddr := f3\<rparr>) (insert (frame_block a3 DUMBVM_STACKPAGES) (insert (frame_block a2 (as_npages2 as)) (insert (frame_block a1 (as_npages1 as)) B)))"
        let ?as = "as\<lparr>as_pbase1 := a1, as_pbase2 := a2, as_stackpbase := a3\<rparr>"
        have fr: "insert (frame_block a3 DUMBVM_STACKPAGES) (insert (frame_block a2 (as_npages2 as)) (insert (frame_block a1 (as_npages1 as)) B)) = B \<union> frames ?as"
          by (auto simp: frames_def)
        have "as_prepare_load as st = Some (EOK, ?as, st\<lparr>firstpaddr := f3\<rparr>)" using 1(1, 2) 2(1, 2) 3(1, 2) by (simp add: run)
        moreover have "heap (st\<lparr>firstpaddr := f3\<rparr>) (B \<union> frames ?as)" using 3(4) unfolding fr by simp
        ultimately show ?thesis using 1(2, 3) 2(2, 3) 3(2, 3)
          by (intro exI [of _ EOK] exI [of _ ?as] exI [of _ f3] exI [of _ "B \<union> frames ?as"] conjI disjI2 exI [of _ a1] exI [of _ a2] exI [of _ a3]) simp_all
      qed
    qed
  qed
qed

section \<open>Copying an address space\<close>

lemma in_bytes: "unat d + n \<le> 0x9fc00000 \<Longrightarrow> i < n \<Longrightarrow> unat (d + of_nat i) \<in> bytes (d, n)"
  by (simp add: bytes_def unat_word_ariths(1) unat_of_nat)

lemma copied_apart: "unat d + n \<le> 0x9fc00000 \<Longrightarrow> unat x \<notin> bytes (d, n) \<Longrightarrow> copied d s n m x = m x"
  by (rule copied_out) (auto simp: bytes_def)

lemma copied_block:
  assumes "unat d + n \<le> 0x9fc00000" and "i < n"
  shows "copied d s n m (d + of_nat i) = m (s + of_nat i)"
  using copied_in [OF assms(2)] assms(1) by simp

text \<open>Three blocks filled from three others, all of them apart.\<close>

lemma three_copies:
  assumes d: "unat d1 + n1 \<le> 0x9fc00000" "unat d2 + n2 \<le> 0x9fc00000" "unat d3 + n3 \<le> 0x9fc00000"
    and s: "unat s1 + n1 \<le> 0x9fc00000" "unat s2 + n2 \<le> 0x9fc00000" "unat s3 + n3 \<le> 0x9fc00000"
    and dd: "bytes (d1, n1) \<inter> bytes (d2, n2) = {}" "bytes (d1, n1) \<inter> bytes (d3, n3) = {}" "bytes (d2, n2) \<inter> bytes (d3, n3) = {}"
    and ds: "\<And>x. x \<in> {(s1, n1), (s2, n2), (s3, n3)} \<Longrightarrow> bytes x \<inter> (bytes (d1, n1) \<union> bytes (d2, n2) \<union> bytes (d3, n3)) = {}"
    and m': "m' = copied d3 s3 n3 (copied d2 s2 n2 (copied d1 s1 n1 m))"
  shows "i < n1 \<Longrightarrow> m' (d1 + of_nat i) = m (s1 + of_nat i)" "i < n2 \<Longrightarrow> m' (d2 + of_nat i) = m (s2 + of_nat i)"
    "i < n3 \<Longrightarrow> m' (d3 + of_nat i) = m (s3 + of_nat i)"
    "unat x \<notin> bytes (d1, n1) \<union> bytes (d2, n2) \<union> bytes (d3, n3) \<Longrightarrow> m' x = m x"
proof -
  show "m' (d1 + of_nat i) = m (s1 + of_nat i)" if "i < n1"
  proof -
    have "unat (d1 + of_nat i) \<notin> bytes (d3, n3)" "unat (d1 + of_nat i) \<notin> bytes (d2, n2)" using in_bytes [OF d(1) that] dd by blast+
    then show ?thesis using that d by (simp add: m' copied_apart copied_block)
  qed
  show "m' (d2 + of_nat i) = m (s2 + of_nat i)" if "i < n2"
  proof -
    have "unat (d2 + of_nat i) \<notin> bytes (d3, n3)" "unat (s2 + of_nat i) \<notin> bytes (d1, n1)"
      using in_bytes [OF d(2) that] in_bytes [OF s(2) that] dd ds [of "(s2, n2)"] by blast+
    then show ?thesis using that d by (simp add: m' copied_apart copied_block)
  qed
  show "m' (d3 + of_nat i) = m (s3 + of_nat i)" if "i < n3"
  proof -
    have "unat (s3 + of_nat i) \<notin> bytes (d1, n1)" "unat (s3 + of_nat i) \<notin> bytes (d2, n2)"
      using in_bytes [OF s(3) that] ds [of "(s3, n3)"] by blast+
    then show ?thesis using that d by (simp add: m' copied_apart copied_block)
  qed
  show "m' x = m x" if "unat x \<notin> bytes (d1, n1) \<union> bytes (d2, n2) \<union> bytes (d3, n3)" using that d by (simp add: m' copied_apart)
qed

text \<open>\<open>same_view\<close>: a process sees the same bytes at the same virtual addresses.\<close>

definition same_view :: "addrspace \<Rightarrow> mem \<Rightarrow> addrspace \<Rightarrow> mem \<Rightarrow> bool" where
  "same_view as m as' m' \<longleftrightarrow> (\<forall>a. case fault_paddr as a of None \<Rightarrow> fault_paddr as' a = None
     | Some p \<Rightarrow> \<exists>q. fault_paddr as' a = Some q \<and> m' (PADDR_TO_KVADDR q) = m (PADDR_TO_KVADDR p))"

lemma window:
  assumes "v \<le> a" and "a < v + n * PAGE_SIZE" and "unat n < 0xdfc00"
  shows "unat (a - v) < unat n * 4096"
proof -
  have L: "unat (n * PAGE_SIZE) = unat n * 4096" using assms(3) by (simp add: PAGE_SIZE_def unat_word_ariths(2))
  have "unat (v + n * PAGE_SIZE) \<le> unat v + unat (n * PAGE_SIZE)" by (simp add: unat_word_ariths(1))
  moreover have "unat (a - v) = unat a - unat v" "unat v \<le> unat a" using assms(1) by (simp_all add: unat_sub word_le_nat_alt)
  ultimately show ?thesis using assms(2) L by (simp add: word_less_nat_alt)
qed

lemma kv_offset: "PADDR_TO_KVADDR (a - v + p) = PADDR_TO_KVADDR p + of_nat (unat (a - v))"
  by (simp add: PADDR_TO_KVADDR_def)

lemma same_viewI:
  assumes as: "sized as" and as': "as' = as\<lparr>as_pbase1 := a1, as_pbase2 := a2, as_stackpbase := a3\<rparr>"
    and m: "\<And>i. i < unat (as_npages1 as) * 4096 \<Longrightarrow> m' (PADDR_TO_KVADDR a1 + of_nat i) = m (PADDR_TO_KVADDR (as_pbase1 as) + of_nat i)"
      "\<And>i. i < unat (as_npages2 as) * 4096 \<Longrightarrow> m' (PADDR_TO_KVADDR a2 + of_nat i) = m (PADDR_TO_KVADDR (as_pbase2 as) + of_nat i)"
      "\<And>i. i < unat DUMBVM_STACKPAGES * 4096 \<Longrightarrow> m' (PADDR_TO_KVADDR a3 + of_nat i) = m (PADDR_TO_KVADDR (as_stackpbase as) + of_nat i)"
  shows "same_view as m as' m'"
proof -
  have n: "unat (as_npages1 as) < 0xdfc00" "unat (as_npages2 as) < 0xdfc00" "unat DUMBVM_STACKPAGES < 0xdfc00"
    using as by (simp_all add: sized_def stackpages)
  have top: "USERSTACK = USERSTACK - DUMBVM_STACKPAGES * PAGE_SIZE + DUMBVM_STACKPAGES * PAGE_SIZE" by simp
  have st: "unat (a - (USERSTACK - DUMBVM_STACKPAGES * PAGE_SIZE)) < unat DUMBVM_STACKPAGES * 4096"
    if "USERSTACK - DUMBVM_STACKPAGES * PAGE_SIZE \<le> a" "a < USERSTACK" for a
    using window [OF that(1) _ n(3)] that(2) top by simp
  have "m' (PADDR_TO_KVADDR (a - as_vbase1 as + a1)) = m (PADDR_TO_KVADDR (a - as_vbase1 as + as_pbase1 as))"
    if "as_vbase1 as \<le> a" "a < as_vbase1 as + as_npages1 as * PAGE_SIZE" for a using window [OF that n(1)] unfolding kv_offset by (rule m)
  moreover have "m' (PADDR_TO_KVADDR (a - as_vbase2 as + a2)) = m (PADDR_TO_KVADDR (a - as_vbase2 as + as_pbase2 as))"
    if "as_vbase2 as \<le> a" "a < as_vbase2 as + as_npages2 as * PAGE_SIZE" for a using window [OF that n(2)] unfolding kv_offset by (rule m)
  moreover have "m' (PADDR_TO_KVADDR (a - (USERSTACK - DUMBVM_STACKPAGES * PAGE_SIZE) + a3)) =
      m (PADDR_TO_KVADDR (a - (USERSTACK - DUMBVM_STACKPAGES * PAGE_SIZE) + as_stackpbase as))"
    if "USERSTACK - DUMBVM_STACKPAGES * PAGE_SIZE \<le> a" "a < USERSTACK" for a using st [OF that] unfolding kv_offset by (rule m)
  ultimately show ?thesis unfolding same_view_def fault_paddr_def Let_def by (simp add: as')
qed

lemma memmove_frames:
  assumes "unat d + unat n * 4096 \<le> 0x9fc00000" and "unat s + unat n * 4096 \<le> 0x9fc00000"
  shows "memmove d s (n * PAGE_SIZE) m = (d, copied d s (unat n * 4096) m)"
proof -
  have "unat (n * PAGE_SIZE) = unat n * 4096" using assms(1) by (simp add: PAGE_SIZE_def unat_word_ariths(2))
  then show ?thesis using memmove_copied [of d "n * PAGE_SIZE" s m] assms by simp
qed

lemma copy_frames:
  assumes heap: "heap st B'" and B: "B \<subseteq> B'" "frames as' \<subseteq> B'" and as: "sized oas" "frames oas \<subseteq> B"
    and as': "as' = oas\<lparr>as_pbase1 := a1, as_pbase2 := a2, as_stackpbase := a3\<rparr>"
    and new: "frame_block a1 (as_npages1 oas) \<notin> B" "frame_block a2 (as_npages2 oas) \<notin> insert (frame_block a1 (as_npages1 oas)) B"
      "frame_block a3 DUMBVM_STACKPAGES \<notin> insert (frame_block a2 (as_npages2 oas)) (insert (frame_block a1 (as_npages1 oas)) B)"
  shows "\<exists>m1 m2 m'. memmove (PADDR_TO_KVADDR a1) (PADDR_TO_KVADDR (as_pbase1 oas)) (as_npages1 oas * PAGE_SIZE) m = (PADDR_TO_KVADDR a1, m1) \<and>
    memmove (PADDR_TO_KVADDR a2) (PADDR_TO_KVADDR (as_pbase2 oas)) (as_npages2 oas * PAGE_SIZE) m1 = (PADDR_TO_KVADDR a2, m2) \<and>
    memmove (PADDR_TO_KVADDR a3) (PADDR_TO_KVADDR (as_stackpbase oas)) (DUMBVM_STACKPAGES * PAGE_SIZE) m2 = (PADDR_TO_KVADDR a3, m') \<and>
    (\<forall>x\<in>B. \<forall>a. unat a \<in> bytes x \<longrightarrow> m' a = m a) \<and> (\<forall>x\<in>frames as'. \<forall>y\<in>B. bytes x \<inter> bytes y = {}) \<and> same_view oas m as' m'"
proof -
  let ?D1 = "frame_block a1 (as_npages1 oas)" and ?D2 = "frame_block a2 (as_npages2 oas)" and ?D3 = "frame_block a3 DUMBVM_STACKPAGES"
  let ?S1 = "frame_block (as_pbase1 oas) (as_npages1 oas)" and ?S2 = "frame_block (as_pbase2 oas) (as_npages2 oas)" and ?S3 = "frame_block (as_stackpbase oas) DUMBVM_STACKPAGES"
  have D: "?D1 \<in> B'" "?D2 \<in> B'" "?D3 \<in> B'" and S: "?S1 \<in> B" "?S2 \<in> B" "?S3 \<in> B" and fr: "frames as' = {?D1, ?D2, ?D3}"
    using B(2) as(2) by (simp_all add: frames_def as')
  have dt: "unat (PADDR_TO_KVADDR a1) + unat (as_npages1 oas) * 4096 \<le> 0x9fc00000" "unat (PADDR_TO_KVADDR a2) + unat (as_npages2 oas) * 4096 \<le> 0x9fc00000"
    "unat (PADDR_TO_KVADDR a3) + unat DUMBVM_STACKPAGES * 4096 \<le> 0x9fc00000"
    using heap_top(2) [OF heap D(1)] heap_top(2) [OF heap D(2)] heap_top(2) [OF heap D(3)] by simp_all
  have SB: "?S1 \<in> B'" "?S2 \<in> B'" "?S3 \<in> B'" using S B(1) by blast+
  have st: "unat (PADDR_TO_KVADDR (as_pbase1 oas)) + unat (as_npages1 oas) * 4096 \<le> 0x9fc00000"
    "unat (PADDR_TO_KVADDR (as_pbase2 oas)) + unat (as_npages2 oas) * 4096 \<le> 0x9fc00000" "unat (PADDR_TO_KVADDR (as_stackpbase oas)) + unat DUMBVM_STACKPAGES * 4096 \<le> 0x9fc00000"
    using heap_top(2) [OF heap SB(1)] heap_top(2) [OF heap SB(2)] heap_top(2) [OF heap SB(3)] by simp_all
  have dd: "bytes ?D1 \<inter> bytes ?D2 = {}" "bytes ?D1 \<inter> bytes ?D3 = {}" "bytes ?D2 \<inter> bytes ?D3 = {}"
    using heap_apart [OF heap D(1, 2)] heap_apart [OF heap D(1, 3)] heap_apart [OF heap D(2, 3)] new by auto
  have out: "bytes y \<inter> (bytes ?D1 \<union> bytes ?D2 \<union> bytes ?D3) = {}" if y: "y \<in> B" for y
  proof -
    have yB: "y \<in> B'" and ne: "y \<noteq> ?D1" "y \<noteq> ?D2" "y \<noteq> ?D3" using y B(1) new by auto
    show ?thesis using heap_apart [OF heap yB D(1) ne(1)] heap_apart [OF heap yB D(2) ne(2)] heap_apart [OF heap yB D(3) ne(3)] by blast
  qed
  have ds: "bytes x \<inter> (bytes ?D1 \<union> bytes ?D2 \<union> bytes ?D3) = {}" if "x \<in> {?S1, ?S2, ?S3}" for x using that S out by blast
  note t = three_copies [where m = m, OF dt st dd ds refl]
  have ap: "\<forall>x\<in>frames as'. \<forall>y\<in>B. bytes x \<inter> bytes y = {}"
  proof (intro ballI)
    fix x y assume "x \<in> frames as'" "y \<in> B"
    then show "bytes x \<inter> bytes y = {}" using out [of y] unfolding fr by blast
  qed
  show ?thesis
    by (intro exI conjI, rule memmove_frames [OF dt(1) st(1)], rule memmove_frames [OF dt(2) st(2)], rule memmove_frames [OF dt(3) st(3)])
      (use t(4) out in blast, rule ap, rule same_viewI [OF as(1) as' t(1) t(2) t(3)])
qed

abbreviation unset_as :: addrspace where
  "unset_as \<equiv> \<lparr>as_vbase1 = 0, as_pbase1 = 0, as_npages1 = 0, as_vbase2 = 0, as_pbase2 = 0, as_npages2 = 0, as_stackpbase = 0\<rparr>"

text \<open>The new address space: everything but the frames is that of the old one.\<close>

lemma create_copy:
  "\<lparr>as_vbase1 = as_vbase1 oas, as_pbase1 = a1, as_npages1 = as_npages1 oas, as_vbase2 = as_vbase2 oas, as_pbase2 = a2,
     as_npages2 = as_npages2 oas, as_stackpbase = a3\<rparr> = oas\<lparr>as_pbase1 := a1, as_pbase2 := a2, as_stackpbase := a3\<rparr>"
  by simp

lemma as_create_fresh:
  assumes heap: "heap vm B" and old: "(old, k) \<in> B"
  shows "\<exists>new vm'. as_create vm = Some (new, vm') \<and> umem vm' = umem vm \<and>
    (if new = 0 then heap vm' B \<and> exhausted 28 vm
     else new \<noteq> old \<and> (\<exists>n. (new, n) \<notin> B \<and> heap vm' (insert (new, n) B) \<and> aspaces vm' = (aspaces vm)(new \<mapsto> unset_as)))"
proof -
  have "unat (28 :: u32) \<le> 0xdfbff000" by simp
  from kmalloc_ok [OF heap this] obtain new vm1 where k: "kmalloc 28 vm = Some (new, vm1)" "allocated 28 vm B new vm1" by blast
  note m1 = vm_more [OF kmalloc_more [OF k(1)]]
  show ?thesis
  proof (cases "new = 0")
    case False
    then obtain n where n: "(new, n) \<notin> B" "heap vm1 (insert (new, n) B)" using k(2) by (auto simp: allocated_def)
    have "bytes (new, n) \<inter> bytes (old, k) = {}" using heap_apart [OF n(2), of "(new, n)" "(old, k)"] n(1) old by auto
    then have "new \<noteq> old" using heap_top(3) [OF n(2), of "(new, n)"] heap_top(3) [OF heap old] by (auto simp: bytes_def)
    then show ?thesis using k(1) False n m1
      by (intro exI [of _ new] exI [of _ "vm1\<lparr>aspaces := (aspaces vm1)(new \<mapsto> unset_as)\<rparr>"]) (auto simp: as_create_def)
  qed (use k m1 in \<open>simp add: as_create_def allocated_def\<close>)
qed

text \<open>The end of \<^verbatim>\<open>as_copy\<close>: the frames are there and are filled.\<close>

definition copy_regions :: "u32 \<Rightarrow> addrspace \<Rightarrow> addrspace \<Rightarrow> vm \<Rightarrow> (errno \<times> u32 \<times> vm) kern" where
  "copy_regions new oldas newas vm = do {
     kassert (as_pbase1 newas \<noteq> 0);
     kassert (as_pbase2 newas \<noteq> 0);
     kassert (as_stackpbase newas \<noteq> 0);
     let (_, m) = memmove (PADDR_TO_KVADDR (as_pbase1 newas)) (PADDR_TO_KVADDR (as_pbase1 oldas)) (as_npages1 oldas * PAGE_SIZE) (umem vm);
     let (_, m) = memmove (PADDR_TO_KVADDR (as_pbase2 newas)) (PADDR_TO_KVADDR (as_pbase2 oldas)) (as_npages2 oldas * PAGE_SIZE) m;
     let (_, m) = memmove (PADDR_TO_KVADDR (as_stackpbase newas)) (PADDR_TO_KVADDR (as_stackpbase oldas)) (DUMBVM_STACKPAGES * PAGE_SIZE) m;
     Some (EOK, new, vm\<lparr>umem := m\<rparr>) }"

lemma copy_regions_ok:
  assumes heap: "heap vm B'" and old: "sized oas" "frames oas \<subseteq> B"
    and as': "as' = oas\<lparr>as_pbase1 := a1, as_pbase2 := a2, as_stackpbase := a3\<rparr>" "a1 \<noteq> 0" "a2 \<noteq> 0" "a3 \<noteq> 0"
    and B': "B' = insert x B \<union> frames as'"
    and new: "frame_block a1 (as_npages1 oas) \<notin> B" "frame_block a2 (as_npages2 oas) \<notin> insert (frame_block a1 (as_npages1 oas)) B"
      "frame_block a3 DUMBVM_STACKPAGES \<notin> insert (frame_block a2 (as_npages2 oas)) (insert (frame_block a1 (as_npages1 oas)) B)"
  shows "\<exists>m. copy_regions new oas as' vm = Some (EOK, new, vm\<lparr>umem := m\<rparr>) \<and> (\<forall>x\<in>B. \<forall>a. unat a \<in> bytes x \<longrightarrow> m a = umem vm a) \<and>
    (\<forall>x\<in>frames as'. \<forall>y\<in>B. bytes x \<inter> bytes y = {}) \<and> same_view oas (umem vm) as' m"
proof -
  have "B \<subseteq> B'" "frames as' \<subseteq> B'" using B' by auto
  from copy_frames [OF heap this old as'(1) new, of "umem vm"]
  obtain m1 m2 m where m: "memmove (PADDR_TO_KVADDR a1) (PADDR_TO_KVADDR (as_pbase1 oas)) (as_npages1 oas * PAGE_SIZE) (umem vm) = (PADDR_TO_KVADDR a1, m1)"
    "memmove (PADDR_TO_KVADDR a2) (PADDR_TO_KVADDR (as_pbase2 oas)) (as_npages2 oas * PAGE_SIZE) m1 = (PADDR_TO_KVADDR a2, m2)"
    "memmove (PADDR_TO_KVADDR a3) (PADDR_TO_KVADDR (as_stackpbase oas)) (DUMBVM_STACKPAGES * PAGE_SIZE) m2 = (PADDR_TO_KVADDR a3, m)"
    "\<forall>x\<in>B. \<forall>a. unat a \<in> bytes x \<longrightarrow> m a = umem vm a" "\<forall>x\<in>frames as'. \<forall>y\<in>B. bytes x \<inter> bytes y = {}" "same_view oas (umem vm) as' m"
    by (elim exE conjE) (rule that)
  have "copy_regions new oas as' vm = Some (EOK, new, vm\<lparr>umem := m\<rparr>)" using as' m(1-3) by (simp add: copy_regions_def)
  then show ?thesis using m(4-6) by (intro exI [of _ m] conjI)
qed

lemma as_copy_run:
  assumes "as_create vm = Some (new, vm2)" "new \<noteq> 0" "aspaces vm2 old = Some oas" "aspaces vm2 new = Some zero"
    and "as_prepare_load (zero\<lparr>as_vbase1 := as_vbase1 oas, as_npages1 := as_npages1 oas, as_vbase2 := as_vbase2 oas, as_npages2 := as_npages2 oas\<rparr>) vm2 =
      Some (e, as', vm2\<lparr>firstpaddr := f\<rparr>)"
  shows "as_copy old vm = (let vm3 = vm2\<lparr>firstpaddr := f, aspaces := (aspaces vm2)(new \<mapsto> as')\<rparr> in
    if e \<noteq> EOK then do { vm \<leftarrow> as_destroy new vm3; Some (ENOMEM, 0, vm) } else copy_regions new oas as' vm3)"
  using assms by (simp add: as_copy_def copy_regions_def Let_def)

section \<open>The translation buffer\<close>

definition aligned :: "u32 \<Rightarrow> bool" where
  "aligned a \<longleftrightarrow> a AND PAGE_FRAME = a"

lemma aligned_mod: "aligned a \<longleftrightarrow> unat a mod 4096 = 0"
proof
  assume "aligned a"
  then have "a AND mask 12 = (a AND PAGE_FRAME) AND mask 12" by (simp add: aligned_def)
  also have "\<dots> = 0" by (simp add: frame_mask bit_eq_iff [where 'a = u32] bit_simps)
  finally show "unat a mod 4096 = 0" unfolding unat_low [symmetric] by simp
next
  assume "unat a mod 4096 = 0"
  then show "aligned a" by (simp add: aligned_def aligned_frame)
qed

lemma unat_add_mod: "unat (a + b :: u32) mod 4096 = (unat a mod 4096 + unat b mod 4096) mod 4096"
proof -
  have "unat (a + b) mod 4096 = (unat a + unat b) mod 4294967296 mod 4096" by (simp add: unat_word_ariths(1))
  also have "\<dots> = (unat a + unat b) mod 4096" by (rule mod_mod_cancel) simp
  finally show ?thesis by (simp add: mod_simps)
qed

lemma aligned_add: "aligned a \<Longrightarrow> aligned b \<Longrightarrow> aligned (a + b)"
  unfolding aligned_mod unat_add_mod by simp

lemma aligned_diff: "aligned a \<Longrightarrow> aligned b \<Longrightarrow> aligned (a - b)"
  unfolding aligned_mod using unat_add_mod [of "a - b" b] by simp

lemma aligned_page: "aligned (a AND PAGE_FRAME)"
  by (simp add: aligned_def ac_simps)

lemma aligned_consts: "aligned (USERSTACK - DUMBVM_STACKPAGES * PAGE_SIZE)"
  by (simp add: aligned_def USERSTACK_def DUMBVM_STACKPAGES_def PAGE_SIZE_def PAGE_FRAME_def)

text \<open>An address space that is ready to run.\<close>

definition as_ready :: "addrspace \<Rightarrow> bool" where
  "as_ready as \<longleftrightarrow> as_vbase1 as \<noteq> 0 \<and> as_pbase1 as \<noteq> 0 \<and> as_npages1 as \<noteq> 0 \<and> as_vbase2 as \<noteq> 0 \<and> as_pbase2 as \<noteq> 0 \<and> as_npages2 as \<noteq> 0 \<and>
     as_stackpbase as \<noteq> 0 \<and> aligned (as_vbase1 as) \<and> aligned (as_pbase1 as) \<and> aligned (as_vbase2 as) \<and> aligned (as_pbase2 as) \<and> aligned (as_stackpbase as)"

lemma fault_paddr_aligned: "as_ready as \<Longrightarrow> aligned a \<Longrightarrow> fault_paddr as a = Some p \<Longrightarrow> aligned p"
  using aligned_consts by (auto simp: fault_paddr_def Let_def as_ready_def intro: aligned_add aligned_diff split: if_splits)

text \<open>What the translation buffer may hold while an address space is active: every valid entry is a translation of that
  address space, and no virtual page is in two entries.\<close>

definition tlb_ok :: "addrspace \<Rightarrow> (u32 \<times> u32) list \<Rightarrow> bool" where
  "tlb_ok as t \<longleftrightarrow> length t = NUM_TLB \<and> distinct (map fst t) \<and>
     (\<forall>i<NUM_TLB. if snd (t ! i) AND TLBLO_VALID = 0 then fst (t ! i) = TLBHI_INVALID i
        else fst (t ! i) < USERSTACK \<and> fault_paddr as (fst (t ! i)) = Some (snd (t ! i) AND PAGE_FRAME))"

lemma TLBHI_INVALID_unat: "i < 64 \<Longrightarrow> unat (TLBHI_INVALID i) = (0x80000 + i) * 4096"
  by (simp add: TLBHI_INVALID_def push_bit_eq_mult unat_word_ariths unat_of_nat)

lemma activate_tlb: "length t = NUM_TLB \<Longrightarrow> foldl (\<lambda>t i. t[i := (TLBHI_INVALID i, TLBLO_INVALID)]) t [0..<NUM_TLB] = map (\<lambda>i. (TLBHI_INVALID i, TLBLO_INVALID)) [0..<NUM_TLB]"
proof -
  assume l: "length t = NUM_TLB"
  have "n \<le> NUM_TLB \<Longrightarrow> foldl (\<lambda>t i. t[i := (TLBHI_INVALID i, TLBLO_INVALID)]) t [0..<n] = map (\<lambda>i. (TLBHI_INVALID i, TLBLO_INVALID)) [0..<n] @ drop n t" for n
  proof (induction n)
    case (Suc n)
    then have "drop n t = t ! n # drop (Suc n) t" using l by (intro Cons_nth_drop_Suc [symmetric]) simp
    then show ?case using Suc by (simp add: list_update_append)
  qed simp
  from this [of NUM_TLB] show ?thesis using l by simp
qed

lemma as_activate_tlb: "length (tlb vm) = NUM_TLB \<Longrightarrow> tlb_ok as (tlb (as_activate p vm))"
proof -
  assume "length (tlb vm) = NUM_TLB"
  then have t: "tlb (as_activate p vm) = map (\<lambda>i. (TLBHI_INVALID i, TLBLO_INVALID)) [0..<NUM_TLB]" by (simp add: as_activate_def activate_tlb)
  have "inj_on TLBHI_INVALID {0..<64}" by (rule inj_onI) (metis TLBHI_INVALID_unat add_left_cancel atLeastLessThan_iff mult_cancel2 numeral_neq_zero)
  then have "distinct (map TLBHI_INVALID [0..<64])" by (simp add: distinct_map)
  then show ?thesis by (simp add: t tlb_ok_def NUM_TLB_def TLBLO_INVALID_def o_def)
qed

lemma tlb_invalid_kernel: "i < 64 \<Longrightarrow> a < USERSTACK \<Longrightarrow> a \<noteq> TLBHI_INVALID i"
  using TLBHI_INVALID_unat [of i] by (auto simp: USERSTACK_def word_less_nat_alt)

lemma page_below: "a < USERSTACK \<Longrightarrow> a AND PAGE_FRAME < USERSTACK"
proof -
  assume "a < USERSTACK"
  moreover have "a AND PAGE_FRAME \<le> a" by (rule word_and_le2)
  ultimately show ?thesis by simp
qed

text \<open>The low word of a fresh entry: a valid one, for the frame it was made from.\<close>

lemma fresh_lo:
  assumes "aligned p"
  shows "(p OR TLBLO_DIRTY OR TLBLO_VALID) AND TLBLO_VALID \<noteq> 0" "(p OR TLBLO_DIRTY OR TLBLO_VALID) AND PAGE_FRAME = p"
proof -
  have "(p OR TLBLO_DIRTY OR TLBLO_VALID) AND TLBLO_VALID = TLBLO_VALID" by (simp add: bit_eq_iff [where 'a = u32] bit_simps) blast
  then show "(p OR TLBLO_DIRTY OR TLBLO_VALID) AND TLBLO_VALID \<noteq> 0" by (simp add: TLBLO_VALID_def)
  have "(p OR TLBLO_DIRTY OR TLBLO_VALID) AND PAGE_FRAME = (p AND PAGE_FRAME) OR ((TLBLO_DIRTY OR TLBLO_VALID) AND PAGE_FRAME)"
    by (simp add: bit_eq_iff [where 'a = u32] bit_simps) blast
  also have "(TLBLO_DIRTY OR TLBLO_VALID) AND PAGE_FRAME = 0" by (simp add: TLBLO_DIRTY_def TLBLO_VALID_def PAGE_FRAME_def)
  finally show "(p OR TLBLO_DIRTY OR TLBLO_VALID) AND PAGE_FRAME = p" using assms by (simp add: aligned_def)
qed

lemma tlb_ok_insert:
  assumes ok: "tlb_ok as t" and i: "i < NUM_TLB" "snd (t ! i) AND TLBLO_VALID = 0" and a: "a < USERSTACK" "fault_paddr as a = Some p" "aligned p"
    and fresh: "\<And>j. j < NUM_TLB \<Longrightarrow> snd (t ! j) AND TLBLO_VALID \<noteq> 0 \<Longrightarrow> fst (t ! j) \<noteq> a"
  shows "tlb_ok as (t[i := (a, p OR TLBLO_DIRTY OR TLBLO_VALID)])"
proof -
  have len: "length t = NUM_TLB" "distinct (map fst t)" using ok by (simp_all add: tlb_ok_def)
  have "fst (t ! j) \<noteq> a" if j: "j < NUM_TLB" for j
  proof (cases "snd (t ! j) AND TLBLO_VALID = 0")
    case True
    then have "fst (t ! j) = TLBHI_INVALID j" using ok j by (simp add: tlb_ok_def)
    then show ?thesis using tlb_invalid_kernel [of j a] j a(1) by (simp add: NUM_TLB_def)
  qed (use fresh j in simp)
  then have "a \<notin> set (map fst t)" using len(1) by (auto simp del: set_map simp: in_set_conv_nth)
  then have "distinct (map fst (t[i := (a, p OR TLBLO_DIRTY OR TLBLO_VALID)]))" using len(2) by (simp add: map_update distinct_list_update)
  then show ?thesis using ok i a fresh_lo [OF a(3)] by (auto simp: tlb_ok_def nth_list_update)
qed

section \<open>Properties\<close>

text \<open>C39. A page fault in the user segment, with an address space in place that is ready to run and no entry for the page yet,
  is answered in one of two ways. If the address space has the page and the translation buffer has a free slot,
  the entry that maps the page to its frame is there afterwards; otherwise the fault is refused and nothing
  changes. Either way every valid entry is still a translation of this address space, no virtual page is in
  two entries, and the interrupt level is what it was. Activating an address space establishes the same condition.\<close>

theorem vm_fault_tlb:
  assumes as: "t_vmspace vm \<noteq> 0" "aspaces vm (t_vmspace vm) = Some as" "as_ready as" and tlb: "tlb_ok as (tlb vm)"
    and f: "ft = VM_FAULT_READ \<or> ft = VM_FAULT_WRITE" "a < USERSTACK"
    and fresh: "\<And>j. j < NUM_TLB \<Longrightarrow> snd (tlb vm ! j) AND TLBLO_VALID \<noteq> 0 \<Longrightarrow> fst (tlb vm ! j) \<noteq> a AND PAGE_FRAME"
  shows "\<exists>e t. vm_fault ft a vm = Some (e, vm\<lparr>tlb := t\<rparr>) \<and> tlb_ok as t \<and>
    (e = EFAULT \<and> t = tlb vm \<and> (fault_paddr as (a AND PAGE_FRAME) = None \<or> (\<forall>j<NUM_TLB. snd (tlb vm ! j) AND TLBLO_VALID \<noteq> 0)) \<or>
     e = EOK \<and> (\<exists>p i. fault_paddr as (a AND PAGE_FRAME) = Some p \<and> i < NUM_TLB \<and> t ! i = (a AND PAGE_FRAME, p OR TLBLO_DIRTY OR TLBLO_VALID))) \<and>
    tlb_ok as (tlb (as_activate (t_vmspace vm) vm))"
proof -
  let ?a = "a AND PAGE_FRAME"
  have len: "length (tlb vm) = NUM_TLB" using tlb by (simp add: tlb_ok_def)
  have self: "vm\<lparr>vm_spl := 15, vm_spl := vm_spl vm\<rparr> = vm" "vm\<lparr>tlb := tlb vm\<rparr> = vm" by simp_all
  note act = as_activate_tlb [OF len, of as "t_vmspace vm"]
  note run = vm_fault_def Let_def as kern_simps as(3) [unfolded as_ready_def aligned_def]
  have ft: "ft \<noteq> VM_FAULT_READONLY" "ft \<noteq> VM_FAULT_OTHER" using f(1) by auto
  show ?thesis
  proof (cases "fault_paddr as ?a")
    case None
    then have "vm_fault ft a vm = Some (EFAULT, vm)" using ft by (simp add: run)
    then show ?thesis using tlb act None by (intro exI [of _ EFAULT] exI [of _ "tlb vm"]) simp
  next
    case (Some p)
    have p: "aligned p" by (rule fault_paddr_aligned [OF as(3) aligned_page Some])
    show ?thesis
    proof (cases "find (\<lambda>i. snd (tlb vm ! i) AND TLBLO_VALID = 0) [0..<NUM_TLB]")
      case None
      then have "vm_fault ft a vm = Some (EFAULT, vm)" using ft Some p by (simp add: run aligned_def)
      moreover have "\<forall>j<NUM_TLB. snd (tlb vm ! j) AND TLBLO_VALID \<noteq> 0" using None by (simp add: find_None_iff)
      ultimately show ?thesis using tlb act by (intro exI [of _ EFAULT] exI [of _ "tlb vm"]) simp
    next
      case i: (Some i)
      then have "i < NUM_TLB" "snd (tlb vm ! i) AND TLBLO_VALID = 0" using find_in [OF i] by simp_all
      then have "tlb_ok as ((tlb vm)[i := (?a, p OR TLBLO_DIRTY OR TLBLO_VALID)])"
        using tlb_ok_insert [OF tlb _ _ page_below [OF f(2)] Some p fresh] by simp
      moreover have "vm_fault ft a vm = Some (EOK, vm\<lparr>tlb := (tlb vm)[i := (?a, p OR TLBLO_DIRTY OR TLBLO_VALID)]\<rparr>)"
        using ft Some i p by (simp add: run aligned_def)
      ultimately show ?thesis using act len \<open>i < NUM_TLB\<close> Some
        by (intro exI [of _ EOK] exI [of _ "(tlb vm)[i := (?a, p OR TLBLO_DIRTY OR TLBLO_VALID)]"]) (simp, metis nth_list_update_eq)
    qed
  qed
qed

definition ex_as :: addrspace where
  "ex_as = \<lparr>as_vbase1 = 0x400000, as_pbase1 = 0x20000, as_npages1 = 1, as_vbase2 = 0x10000000, as_pbase2 = 0x21000, as_npages2 = 1, as_stackpbase = 0x22000\<rparr>"

definition ex_vm :: vm where
  "ex_vm = \<lparr>firstpaddr = 0x40000, lastpaddr = 0x80000, kmem = (\<lambda>_. 0), pagerefs = replicate 256 \<lparr>next_samesize = None, next_all = None,
     pageaddr_and_blocktype = 0, freelist_offset = 0, nfree = 0\<rparr>, pagerefs_inuse = replicate 8 0, sizebases = replicate 8 None, allbase = None,
     umem = (\<lambda>a. ucast a), tlb = map (\<lambda>i. (TLBHI_INVALID i, TLBLO_INVALID)) [0..<NUM_TLB], aspaces = [0x80010000 \<mapsto> ex_as], t_vmspace = 0x80010000, vm_spl = 0\<rparr>"

theorem vm_fault_tlb_witness:
  "\<exists>t i. vm_fault VM_FAULT_READ 0x400123 ex_vm = Some (EOK, ex_vm\<lparr>tlb := t\<rparr>) \<and> tlb_ok ex_as t \<and> i < NUM_TLB \<and> t ! i = (0x400000, 0x20600)"
proof -
  have r: "as_ready ex_as" by (simp add: as_ready_def ex_as_def aligned_def PAGE_FRAME_def)
  have t: "tlb (as_activate 0 ex_vm) = tlb ex_vm" using activate_tlb [of "tlb ex_vm"] by (simp add: as_activate_def ex_vm_def)
  have tlb: "tlb_ok ex_as (tlb ex_vm)" using as_activate_tlb [of ex_vm ex_as 0] t by (simp add: ex_vm_def)
  have inv: "snd (tlb ex_vm ! j) AND TLBLO_VALID = 0" if "j < NUM_TLB" for j using that by (simp add: ex_vm_def TLBLO_INVALID_def)
  have c: "t_vmspace ex_vm \<noteq> 0" "aspaces ex_vm (t_vmspace ex_vm) = Some ex_as" "(0x400123 :: u32) < USERSTACK" by (simp_all add: ex_vm_def USERSTACK_def)
  have p: "fault_paddr ex_as (0x400123 AND PAGE_FRAME) = Some 0x20000" "0x400123 AND PAGE_FRAME = 0x400000" "0x20000 OR TLBLO_DIRTY OR TLBLO_VALID = 0x20600"
    by (simp_all add: fault_paddr_def ex_as_def PAGE_FRAME_def PAGE_SIZE_def TLBLO_DIRTY_def TLBLO_VALID_def)
  have free: "\<not> (\<forall>j<NUM_TLB. snd (tlb ex_vm ! j) AND TLBLO_VALID \<noteq> 0)" using inv [of 0] by (auto simp: NUM_TLB_def intro!: exI [of _ 0])
  show ?thesis using vm_fault_tlb [OF c(1, 2) r tlb _ c(3), of VM_FAULT_READ] inv p free by auto
qed

text \<open>C38. \<^verbatim>\<open>as_copy\<close> of an address space whose frames are allocated returns without tripping an assertion. When it succeeds, the
  copy is a fresh address space with frames of its own, apart from every block that was allocated, and a process
  running in it sees, at every virtual address, the byte the original sees there. It fails only when the kernel heap is exhausted
  or there is no room left for one of the regions. Either way the heap is in order, what was allocated still is, and
  no byte of it has changed.\<close>

theorem as_copy_isolates:
  assumes heap: "heap vm B" and old: "aspaces vm old = Some oas" "sized oas" "frames oas \<subseteq> B" and x: "(old, k) \<in> B"
  shows "\<exists>e new vm' B'. as_copy old vm = Some (e, new, vm') \<and> heap vm' B' \<and> B \<subseteq> B' \<and>
    (\<forall>x\<in>B. \<forall>a. unat a \<in> bytes x \<longrightarrow> umem vm' a = umem vm a) \<and>
    (e = ENOMEM \<and> (exhausted 28 vm \<or> no_frames oas vm') \<or>
     e = EOK \<and> (\<exists>nas. aspaces vm' = (aspaces vm)(new \<mapsto> nas) \<and> frames nas \<subseteq> B' \<and>
       (\<forall>x\<in>frames nas. \<forall>y\<in>B. bytes x \<inter> bytes y = {}) \<and> same_view oas (umem vm) nas (umem vm')))"
proof -
  obtain new vm2 where create: "as_create vm = Some (new, vm2)" "umem vm2 = umem vm" and
    c: "if new = 0 then heap vm2 B \<and> exhausted 28 vm
      else new \<noteq> old \<and> (\<exists>n. (new, n) \<notin> B \<and> heap vm2 (insert (new, n) B) \<and> aspaces vm2 = (aspaces vm)(new \<mapsto> unset_as))"
    using as_create_fresh [OF heap x] by blast
  show ?thesis
  proof (cases "new = 0")
    case True
    then have "as_copy old vm = Some (ENOMEM, 0, vm2)" using create by (simp add: as_copy_def)
    then show ?thesis using c True create by (intro exI [of _ ENOMEM] exI [of _ 0] exI [of _ vm2] exI [of _ B]) simp
  next
    case False
    then obtain n where n: "(new, n) \<notin> B" "heap vm2 (insert (new, n) B)" and as2: "aspaces vm2 = (aspaces vm)(new \<mapsto> unset_as)" "aspaces vm2 old = Some oas"
      using c old(1) by auto
    let ?nas = "unset_as\<lparr>as_vbase1 := as_vbase1 oas, as_npages1 := as_npages1 oas, as_vbase2 := as_vbase2 oas, as_npages2 := as_npages2 oas\<rparr>"
    have "sized ?nas" "as_pbase1 ?nas = 0" "as_pbase2 ?nas = 0" "as_stackpbase ?nas = 0" using old(2) by (simp_all add: sized_def)
    from prepare_load_heap [OF n(2) this] obtain e as' f B' where pe: "as_prepare_load ?nas vm2 = Some (e, as', vm2\<lparr>firstpaddr := f\<rparr>)"
      "heap (vm2\<lparr>firstpaddr := f\<rparr>) B'" "insert (new, n) B \<subseteq> B'" and
      e: "e = ENOMEM \<and> no_frames ?nas (vm2\<lparr>firstpaddr := f\<rparr>) \<or> (\<exists>a1 a2 a3. e = EOK \<and> a1 \<noteq> 0 \<and> a2 \<noteq> 0 \<and> a3 \<noteq> 0 \<and>
        as' = ?nas\<lparr>as_pbase1 := a1, as_pbase2 := a2, as_stackpbase := a3\<rparr> \<and> B' = insert (new, n) B \<union> frames as' \<and>
        frame_block a1 (as_npages1 ?nas) \<notin> insert (new, n) B \<and> frame_block a2 (as_npages2 ?nas) \<notin> insert (frame_block a1 (as_npages1 ?nas)) (insert (new, n) B) \<and>
        frame_block a3 DUMBVM_STACKPAGES \<notin> insert (frame_block a2 (as_npages2 ?nas)) (insert (frame_block a1 (as_npages1 ?nas)) (insert (new, n) B)))"
      by (elim exE conjE) (rule that)
    have new: "aspaces vm2 new = Some unset_as" using as2 by simp
    note run = as_copy_run [OF create(1) False as2(2) new pe(1)]
    let ?vm3 = "vm2\<lparr>firstpaddr := f, aspaces := (aspaces vm2)(new \<mapsto> as')\<rparr>"
    have h3: "heap ?vm3 B'" using pe(2) by simp
    from e show ?thesis
    proof (elim disjE exE conjE)
      assume e: "e = ENOMEM" "no_frames ?nas (vm2\<lparr>firstpaddr := f\<rparr>)"
      obtain vm4 where v: "kfree new ?vm3 = Some vm4" "heap vm4 (B' - {(new, n)})" using kfree_ok [OF h3, of "(new, n)"] pe(3) by auto
      have "frees vm4 = frees ?vm3" by (rule kfree_more [OF v(1)])
      then have "umem vm4 = umem vm" "no_frames oas vm4" using vm_more(1) [of vm4 ?vm3] create(2) e(2) by (auto simp: no_frames_def)
      moreover have "B \<subseteq> B' - {(new, n)}" using pe(3) n(1) by blast
      ultimately show ?thesis using run e v
        by (intro exI [of _ ENOMEM] exI [of _ 0] exI [of _ "vm4\<lparr>aspaces := (aspaces vm4)(new := None)\<rparr>"] exI [of _ "B' - {(new, n)}"])
          (simp add: as_destroy_def no_frames_def)
    next
      fix a1 a2 a3
      assume e: "e = EOK" "a1 \<noteq> 0" "a2 \<noteq> 0" "a3 \<noteq> 0" "as' = ?nas\<lparr>as_pbase1 := a1, as_pbase2 := a2, as_stackpbase := a3\<rparr>"
        and B': "B' = insert (new, n) B \<union> frames as'"
        and fresh: "frame_block a1 (as_npages1 ?nas) \<notin> insert (new, n) B" "frame_block a2 (as_npages2 ?nas) \<notin> insert (frame_block a1 (as_npages1 ?nas)) (insert (new, n) B)"
          "frame_block a3 DUMBVM_STACKPAGES \<notin> insert (frame_block a2 (as_npages2 ?nas)) (insert (frame_block a1 (as_npages1 ?nas)) (insert (new, n) B))"
      have as': "as' = oas\<lparr>as_pbase1 := a1, as_pbase2 := a2, as_stackpbase := a3\<rparr>" using e(5) create_copy by simp
      have f: "frame_block a1 (as_npages1 oas) \<notin> B" "frame_block a2 (as_npages2 oas) \<notin> insert (frame_block a1 (as_npages1 oas)) B"
        "frame_block a3 DUMBVM_STACKPAGES \<notin> insert (frame_block a2 (as_npages2 oas)) (insert (frame_block a1 (as_npages1 oas)) B)"
        using fresh by simp_all
      from copy_regions_ok [OF h3 old(2, 3) as' e(2-4) B' f, of new] obtain m where m: "copy_regions new oas as' ?vm3 = Some (EOK, new, ?vm3\<lparr>umem := m\<rparr>)"
        "\<forall>x\<in>B. \<forall>a. unat a \<in> bytes x \<longrightarrow> m a = umem ?vm3 a" "\<forall>x\<in>frames as'. \<forall>y\<in>B. bytes x \<inter> bytes y = {}" "same_view oas (umem ?vm3) as' m"
        by (elim exE conjE) (rule that)
      have "as_copy old vm = Some (EOK, new, ?vm3\<lparr>umem := m\<rparr>)" using run m(1) e(1) by (simp only: Let_def if_False simp_thms)
      moreover have "umem ?vm3 = umem vm" "aspaces ?vm3 = (aspaces vm)(new \<mapsto> as')" using create(2) as2(1) by simp_all
      moreover have "B \<subseteq> B'" "frames as' \<subseteq> B'" using B' by auto
      ultimately show ?thesis using h3 m(2-4)
        by (intro exI [of _ EOK] exI [of _ new] exI [of _ "?vm3\<lparr>umem := m\<rparr>"] exI [of _ B'] conjI disjI2 exI [of _ as']) simp_all
    qed
  qed
qed

lemma ex_vm_heap: "heap ex_vm (insert (0x80010000, 4096) (frames ex_as))"
proof -
  have inv: "inuse_bit (replicate 8 0) p = False" if "p < 256" for p using that by (simp add: inuse_bit_def)
  have fr: "frames ex_as = {(0x80020000, 4096), (0x80021000, 4096), (0x80022000, 12 * 4096)}"
    by (simp add: frames_def ex_as_def PADDR_TO_KVADDR_def MIPS_KSEG0_def stackpages)
  have "heap_rep ex_vm [] (\<lambda>_. []) (insert (0x80010000, 4096) (frames ex_as))"
    using inv by (auto simp: fr heap_rep_def refs_ok_def space_ok_def ram_ok_def ex_vm_def word_le_nat_alt in_ram_def bytes_def)
  then show ?thesis unfolding heap_def
    by (intro exI [of _ "[]"] exI [of _ "\<lambda>_. []"] exI [of _ "insert (0x80010000, 4096) (frames ex_as)"]) (simp add: live_def not_all_free_def)
qed

theorem as_copy_isolates_witness:
  "\<exists>e new vm'. as_copy 0x80010000 ex_vm = Some (e, new, vm') \<and>
    (e = ENOMEM \<and> no_frames ex_as vm' \<or> e = EOK \<and> (\<exists>nas. aspaces vm' new = Some nas \<and> same_view ex_as (umem ex_vm) nas (umem vm')))"
proof -
  have "aspaces ex_vm 0x80010000 = Some ex_as" "sized ex_as" "\<not> exhausted 28 ex_vm"
    by (auto simp: ex_vm_def sized_def ex_as_def exhausted_def LARGEST_SUBPAGE_SIZE_def inuse_bit_def intro!: exI [of _ 0])
  then show ?thesis using as_copy_isolates [OF ex_vm_heap, of "0x80010000" ex_as 4096] by (auto simp: subset_insertI)
qed

end
