(* ===== verification/Device.thy ===== *)
theory Device
  imports Sfs_Vnode
begin

text \<open>
  \<^verbatim>\<open>src/src/kern/fs/vfs/device.c\<close> and \<^verbatim>\<open>devnull.c\<close>: devices as vnodes, and the null device.

  A \<^verbatim>\<open>struct device\<close> is a record of its functions, over the state \<open>'s\<close> the drivers work on. The
  entries of \<^verbatim>\<open>dev_vnode_ops\<close> take the device in \<^verbatim>\<open>vn_data\<close>. Offsets are \<^verbatim>\<open>off_t\<close>, signed, and the geometry of
  a device is unsigned, so an arithmetic operation that mixes them is done in unsigned 32-bit numbers.
\<close>

section \<open>The code\<close>

definition O_WRONLY :: u32 where "O_WRONLY = 1"
definition O_RDWR :: u32 where "O_RDWR = 2"
definition O_CREAT :: u32 where "O_CREAT = 4"
definition O_EXCL :: u32 where "O_EXCL = 8"
definition O_TRUNC :: u32 where "O_TRUNC = 16"
definition S_IFMT :: u32 where "S_IFMT = 0x7000"
definition S_IFCHR :: u32 where "S_IFCHR = 0x4000"
definition S_IFBLK :: u32 where "S_IFBLK = 0x5000"

definition S_ISDIR :: "u32 \<Rightarrow> bool" where
  "S_ISDIR mode \<longleftrightarrow> mode AND S_IFMT = S_IFDIR"

record 's device =
  d_open :: "u32 \<Rightarrow> 's \<Rightarrow> (errno \<times> 's) kern"
  d_close :: "'s \<Rightarrow> (errno \<times> 's) kern"
  d_io :: "uio \<Rightarrow> 's \<Rightarrow> (errno \<times> uio \<times> 's) kern"
  d_ioctl :: "int \<Rightarrow> u32 \<Rightarrow> 's \<Rightarrow> (errno \<times> 's) kern"
  d_blocks :: u32
  d_blocksize :: u32

definition dev_open :: "'s device \<Rightarrow> u32 \<Rightarrow> 's \<Rightarrow> (errno \<times> 's) kern" where
  "dev_open d flags s =
     (if flags AND (O_CREAT OR O_TRUNC OR O_EXCL OR O_APPEND) \<noteq> 0 then Some (EINVAL, s) else d_open d flags s)"

definition dev_close :: "'s device \<Rightarrow> 's \<Rightarrow> (errno \<times> 's) kern" where
  "dev_close d s = d_close d s"

definition dev_reclaim :: "'s device \<Rightarrow> 's \<Rightarrow> (errno \<times> 's) kern" where
  "dev_reclaim d s = Some (EOK, s)"

definition dev_read :: "'s device \<Rightarrow> uio \<Rightarrow> 's \<Rightarrow> (errno \<times> uio \<times> 's) kern" where
  "dev_read d u s = do { kassert (uio_rw u = UIO_READ); d_io d u s }"

definition null_io :: "uio \<Rightarrow> 's \<Rightarrow> (errno \<times> uio \<times> 's) kern" where
  "null_io u s = Some (EINVAL, u, s)"

definition dev_write :: "'s device \<Rightarrow> uio \<Rightarrow> 's \<Rightarrow> (errno \<times> uio \<times> 's) kern" where
  "dev_write d u s = do { kassert (uio_rw u = UIO_WRITE); d_io d u s }"

definition dev_ioctl :: "'s device \<Rightarrow> int \<Rightarrow> u32 \<Rightarrow> 's \<Rightarrow> (errno \<times> 's) kern" where
  "dev_ioctl d op data s = d_ioctl d op data s"

definition dev_gettype :: "'s device \<Rightarrow> errno \<times> u32" where
  "dev_gettype d = (EOK, if d_blocks d > 0 then S_IFBLK else S_IFCHR)"

definition dev_stat :: "'s device \<Rightarrow> errno \<times> stat" where
  "dev_stat d =
     (let (result, mode) = dev_gettype d in
      (result, \<lparr>st_mode = mode, st_nlink = 1, st_size = (if d_blocks d > 0 then sint (d_blocks d * d_blocksize d) else 0), st_blocks = d_blocks d\<rparr>))"

definition dev_tryseek :: "'s device \<Rightarrow> int \<Rightarrow> errno kern" where
  "dev_tryseek d off =
     (if d_blocks d > 0 then
        do {
          kassert (d_blocksize d \<noteq> 0);
          Some (if (of_int off :: u32) mod d_blocksize d \<noteq> 0 then EINVAL
            else if off < 0 then EINVAL
            else if (of_int off :: u32) div d_blocksize d \<ge> d_blocks d then EINVAL else EOK)
        }
      else Some ESPIPE)"

definition null_fsync :: errno where "null_fsync = EOK"
definition dev_mmap :: errno where "dev_mmap = EUNIMP"

definition dev_truncate :: "'s device \<Rightarrow> int \<Rightarrow> errno" where
  "dev_truncate d len = (if d_blocks d > 0 \<and> sint (d_blocks d * d_blocksize d) = len then EOK else EINVAL)"

definition dev_namefile :: errno where "dev_namefile = EOK"
definition null_creat :: errno where "null_creat = ENOTDIR"
definition null_symlink :: errno where "null_symlink = ENOTDIR"
definition null_nameop :: errno where "null_nameop = ENOTDIR"
definition null_link :: errno where "null_link = ENOTDIR"
definition null_rename :: errno where "null_rename = ENOTDIR"

text \<open>\<^verbatim>\<open>dev_lookup\<close>; whether the caller gets a reference to the device itself.\<close>

definition dev_lookup :: "u8 list \<Rightarrow> errno \<times> bool" where
  "dev_lookup pathname = (if length pathname > 0 then (ENOENT, False) else (EOK, True))"

definition dev_lookparent :: errno where "dev_lookparent = ENOTDIR"

text \<open>The null device.\<close>

definition nullopen :: "u32 \<Rightarrow> 's \<Rightarrow> (errno \<times> 's) kern" where
  "nullopen openflags s = Some (EOK, s)"

definition nullclose :: "'s \<Rightarrow> (errno \<times> 's) kern" where
  "nullclose s = Some (EOK, s)"

definition nullio :: "uio \<Rightarrow> 's \<Rightarrow> (errno \<times> uio \<times> 's) kern" where
  "nullio u s = Some (EOK, if uio_rw u = UIO_WRITE then u\<lparr>uio_resid := 0\<rparr> else u, s)"

definition nullioctl :: "int \<Rightarrow> u32 \<Rightarrow> 's \<Rightarrow> (errno \<times> 's) kern" where
  "nullioctl op data s = Some (EINVAL, s)"

definition null_device :: "'s device" where
  "null_device = \<lparr>d_open = nullopen, d_close = nullclose, d_io = nullio, d_ioctl = nullioctl, d_blocks = 0, d_blocksize = 1\<rparr>"

section \<open>Seeking\<close>

text \<open>A seek is allowed to the start of every block of the device and nowhere else; the arithmetic in mixed signs does no harm
  as long as the offset of every block can be written as an \<^verbatim>\<open>off_t\<close>.\<close>

lemma dev_tryseek_blocks:
  assumes b: "0 < unat (d_blocks d)" "0 < unat (d_blocksize d)" and off: "- (2 ^ 31) \<le> off" "off < 2 ^ 31"
  shows "dev_tryseek d off = Some EOK \<longleftrightarrow> (\<exists>k. k < unat (d_blocks d) \<and> off = int (k * unat (d_blocksize d)))"
proof (cases "off < 0")
  case True
  then have "dev_tryseek d off \<noteq> Some EOK" using b by (auto simp: dev_tryseek_def kern_simps)
  moreover have "off \<noteq> int (k * unat (d_blocksize d))" for k using True by (smt (verit) of_nat_0_le_iff)
  ultimately show ?thesis by blast
next
  case False
  then obtain p where p: "off = int p" by (metis nonneg_int_cases not_less)
  have "p < 2 ^ 32" using off(2) p by simp
  then have u: "unat (of_int off :: u32) = p" by (simp add: p unat_of_nat)
  have nz: "d_blocks d > 0" "d_blocksize d \<noteq> 0" using b by (auto simp: word_neq_0_conv word_less_nat_alt)
  have "(of_int off :: u32) mod d_blocksize d = 0 \<longleftrightarrow> p mod unat (d_blocksize d) = 0"
    by (metis u unat_eq_zero unat_mod)
  moreover have "(of_int off :: u32) div d_blocksize d \<ge> d_blocks d \<longleftrightarrow> unat (d_blocks d) \<le> p div unat (d_blocksize d)"
    by (simp add: word_le_nat_alt unat_div u)
  ultimately have "dev_tryseek d off = Some EOK \<longleftrightarrow> p mod unat (d_blocksize d) = 0 \<and> p div unat (d_blocksize d) < unat (d_blocks d)"
    using nz False by (auto simp: dev_tryseek_def kern_simps)
  also have "\<dots> \<longleftrightarrow> (\<exists>k. k < unat (d_blocks d) \<and> p = k * unat (d_blocksize d))" using b(2) by (auto simp: mod_eq_0_iff_dvd elim!: dvdE)
  finally show ?thesis unfolding p of_nat_eq_iff .
qed

end
