(* ===== verification/Vfs.thy ===== *)
theory Vfs
  imports Device
begin

text \<open>
  \<^verbatim>\<open>src/src/kern/fs/vfs/vfslist.c\<close>, \<^verbatim>\<open>vfslookup.c\<close>, \<^verbatim>\<open>vfscwd.c\<close> and \<^verbatim>\<open>vfspath.c\<close>: the table of named devices,
  the translation of path names, the current directory, and the operations on paths.

  The layer calls file systems and devices through tables of function pointers. \<open>vops\<close> is what it
  calls, over a state \<open>'s\<close> that only those functions know; \<open>'v\<close>, \<open>'f\<close> and \<open>'d\<close> are the pointers to vnodes, file systems
  and devices. \<open>vfs\<close> is the layer's own state with \<open>store\<close>, the state below it. A lock is held or not; to acquire one that
  the running thread already holds is a deadlock. Names are byte lists without the terminator.
  A call that finds no memory is a field of \<open>add_mem\<close>. Messages on the console are left out.
\<close>

section \<open>The code\<close>

subsection \<open>State and calls\<close>

record ('v, 'f, 'd, 's) vops =
  vop_incref :: "'v \<Rightarrow> 's \<Rightarrow> 's kern"
  vop_decref :: "'v \<Rightarrow> 's \<Rightarrow> 's kern"
  vop_incopen :: "'v \<Rightarrow> 's \<Rightarrow> 's kern"
  vop_decopen :: "'v \<Rightarrow> 's \<Rightarrow> 's kern"
  vop_open :: "'v \<Rightarrow> u32 \<Rightarrow> 's \<Rightarrow> (errno \<times> 's) kern"
  vop_gettype :: "'v \<Rightarrow> 's \<Rightarrow> ((errno \<times> u32) \<times> 's) kern"
  vop_truncate :: "'v \<Rightarrow> int \<Rightarrow> 's \<Rightarrow> (errno \<times> 's) kern"
  vop_readlink :: "'v \<Rightarrow> uio \<Rightarrow> 's \<Rightarrow> ((errno \<times> uio) \<times> 's) kern"
  vop_namefile :: "'v \<Rightarrow> uio \<Rightarrow> 's \<Rightarrow> ((errno \<times> uio) \<times> 's) kern"
  vop_creat :: "'v \<Rightarrow> u8 list \<Rightarrow> bool \<Rightarrow> 's \<Rightarrow> ((errno \<times> 'v option) \<times> 's) kern"
  vop_symlink :: "'v \<Rightarrow> u8 list \<Rightarrow> u8 list \<Rightarrow> 's \<Rightarrow> (errno \<times> 's) kern"
  vop_mkdir :: "'v \<Rightarrow> u8 list \<Rightarrow> 's \<Rightarrow> (errno \<times> 's) kern"
  vop_link :: "'v \<Rightarrow> u8 list \<Rightarrow> 'v \<Rightarrow> 's \<Rightarrow> (errno \<times> 's) kern"
  vop_remove :: "'v \<Rightarrow> u8 list \<Rightarrow> 's \<Rightarrow> (errno \<times> 's) kern"
  vop_rmdir :: "'v \<Rightarrow> u8 list \<Rightarrow> 's \<Rightarrow> (errno \<times> 's) kern"
  vop_rename :: "'v \<Rightarrow> u8 list \<Rightarrow> 'v \<Rightarrow> u8 list \<Rightarrow> 's \<Rightarrow> (errno \<times> 's) kern"
  vop_lookup :: "'v \<Rightarrow> u8 list \<Rightarrow> 's \<Rightarrow> ((errno \<times> 'v option) \<times> 's) kern"
  vop_lookparent :: "'v \<Rightarrow> u8 list \<Rightarrow> nat \<Rightarrow> 's \<Rightarrow> ((errno \<times> ('v \<times> u8 list) option) \<times> 's) kern"
  vn_fs :: "'v \<Rightarrow> 's \<Rightarrow> 'f option"
  fsop_sync :: "'f \<Rightarrow> 's \<Rightarrow> (errno \<times> 's) kern"
  fsop_getvolname :: "'f \<Rightarrow> 's \<Rightarrow> u8 list option"
  fsop_getroot :: "'f \<Rightarrow> 's \<Rightarrow> ('v \<times> 's) kern"
  fsop_unmount :: "'f \<Rightarrow> 's \<Rightarrow> (errno \<times> 's) kern"
  dev_create_vnode :: "bool \<Rightarrow> 'd option \<Rightarrow> 's \<Rightarrow> ('v \<times> 's) kern"
  copy_out :: "u8 list \<Rightarrow> uio \<Rightarrow> 's \<Rightarrow> ((errno \<times> uio) \<times> 's) kern"

record ('v, 'f, 'd) knowndev =
  kd_name :: "u8 list"
  kd_rawname :: "u8 list option"
  kd_device :: "'d option"
  kd_vnode :: 'v
  kd_fs :: "'f option"

record ('v, 'f, 'd, 's) vfs =
  knowndevs :: "('v, 'f, 'd) knowndev list"
  knowndevs_lock :: bool
  bootfs_vnode :: "'v option"
  bootfs_lock :: bool
  t_cwd :: "'v option"
  store :: 's

definition colon :: u8 where "colon = 58"
definition slash :: u8 where "slash = 47"
definition NAME_MAX :: nat where "NAME_MAX = 255"

text \<open>A call into the layer below, with and without a result.\<close>

definition below :: "('s \<Rightarrow> ('a \<times> 's) kern) \<Rightarrow> ('v, 'f, 'd, 's) vfs \<Rightarrow> ('a \<times> ('v, 'f, 'd, 's) vfs) kern" where
  "below f st = do { (r, s) \<leftarrow> f (store st); Some (r, st\<lparr>store := s\<rparr>) }"

definition below' :: "('s \<Rightarrow> 's kern) \<Rightarrow> ('v, 'f, 'd, 's) vfs \<Rightarrow> ('v, 'f, 'd, 's) vfs kern" where
  "below' f st = do { s \<leftarrow> f (store st); Some (st\<lparr>store := s\<rparr>) }"

definition knowndevs_acquire :: "('v, 'f, 'd, 's) vfs \<Rightarrow> ('v, 'f, 'd, 's) vfs kern" where
  "knowndevs_acquire st = do { kassert (\<not> knowndevs_lock st); Some (st\<lparr>knowndevs_lock := True\<rparr>) }"

definition knowndevs_release :: "('v, 'f, 'd, 's) vfs \<Rightarrow> ('v, 'f, 'd, 's) vfs kern" where
  "knowndevs_release st = do { kassert (knowndevs_lock st); Some (st\<lparr>knowndevs_lock := False\<rparr>) }"

definition bootfs_acquire :: "('v, 'f, 'd, 's) vfs \<Rightarrow> ('v, 'f, 'd, 's) vfs kern" where
  "bootfs_acquire st = do { kassert (\<not> bootfs_lock st); Some (st\<lparr>bootfs_lock := True\<rparr>) }"

definition bootfs_release :: "('v, 'f, 'd, 's) vfs \<Rightarrow> ('v, 'f, 'd, 's) vfs kern" where
  "bootfs_release st = do { kassert (bootfs_lock st); Some (st\<lparr>bootfs_lock := False\<rparr>) }"

subsection \<open>The device table\<close>

fun sync_loop :: "('v, 'f, 'd, 's) vops \<Rightarrow> ('v, 'f, 'd) knowndev list \<Rightarrow> 's \<Rightarrow> 's kern" where
  "sync_loop ops [] s = Some s"
| "sync_loop ops (dev # devs) s =
     (case kd_fs dev of
        None \<Rightarrow> sync_loop ops devs s
      | Some fs \<Rightarrow> do { (result, s) \<leftarrow> fsop_sync ops fs s; sync_loop ops devs s })"

definition vfs_sync :: "('v, 'f, 'd, 's) vops \<Rightarrow> ('v, 'f, 'd, 's) vfs \<Rightarrow> (errno \<times> ('v, 'f, 'd, 's) vfs) kern" where
  "vfs_sync ops st =
     do {
       st \<leftarrow> knowndevs_acquire st;
       st \<leftarrow> below' (sync_loop ops (knowndevs st)) st;
       st \<leftarrow> knowndevs_release st;
       Some (EOK, st)
     }"

text \<open>The search of \<^verbatim>\<open>vfs_getroot\<close>.\<close>

fun getroot_loop :: "('v, 'f, 'd, 's) vops \<Rightarrow> u8 list \<Rightarrow> ('v, 'f, 'd) knowndev list \<Rightarrow> 's \<Rightarrow> ((errno \<times> 'v option) \<times> 's) kern" where
  "getroot_loop ops devname [] s = Some ((ENODEV, None), s)"
| "getroot_loop ops devname (kd # kds) s =
     (case kd_fs kd of
        Some fs \<Rightarrow>
          if kd_name kd = devname \<or> fsop_getvolname ops fs s = Some devname then
            do { (v, s) \<leftarrow> fsop_getroot ops fs s; Some ((EOK, Some v), s) }
          else if kd_rawname kd = Some devname then
            do { kassert (kd_device kd \<noteq> None); s \<leftarrow> vop_incref ops (kd_vnode kd) s; Some ((EOK, Some (kd_vnode kd)), s) }
          else getroot_loop ops devname kds s
      | None \<Rightarrow>
          if kd_rawname kd \<noteq> None \<and> kd_name kd = devname then Some ((ENXIO, None), s)
          else if kd_name kd = devname then
            do { kassert (kd_device kd \<noteq> None); s \<leftarrow> vop_incref ops (kd_vnode kd) s; Some ((EOK, Some (kd_vnode kd)), s) }
          else if kd_rawname kd = Some devname then
            do { kassert (kd_device kd \<noteq> None); s \<leftarrow> vop_incref ops (kd_vnode kd) s; Some ((EOK, Some (kd_vnode kd)), s) }
          else getroot_loop ops devname kds s)"

definition vfs_getroot :: "('v, 'f, 'd, 's) vops \<Rightarrow> u8 list \<Rightarrow> ('v, 'f, 'd, 's) vfs \<Rightarrow> ((errno \<times> 'v option) \<times> ('v, 'f, 'd, 's) vfs) kern" where
  "vfs_getroot ops devname st =
     do {
       st \<leftarrow> knowndevs_acquire st;
       (r, st) \<leftarrow> below (getroot_loop ops devname (knowndevs st)) st;
       st \<leftarrow> knowndevs_release st;
       Some (r, st)
     }"

definition vfs_getdevname :: "'f \<Rightarrow> ('v, 'f, 'd, 's) vfs \<Rightarrow> (u8 list option \<times> ('v, 'f, 'd, 's) vfs) kern" where
  "vfs_getdevname fs st =
     do {
       st \<leftarrow> knowndevs_acquire st;
       let name = map_option kd_name (find (\<lambda>kd. kd_fs kd = Some fs) (knowndevs st));
       st \<leftarrow> knowndevs_release st;
       Some (name, st)
     }"

definition mkrawname :: "bool \<Rightarrow> u8 list \<Rightarrow> u8 list option" where
  "mkrawname km name = (if \<not> km then None else Some (name @ [114, 97, 119]))"

definition samestring :: "u8 list option \<Rightarrow> u8 list option \<Rightarrow> bool" where
  "samestring a b \<longleftrightarrow> (if a = None \<or> b = None then False else a = b)"

definition samestring3 :: "u8 list option \<Rightarrow> u8 list option \<Rightarrow> u8 list option \<Rightarrow> u8 list option \<Rightarrow> bool" where
  "samestring3 a b c d \<longleftrightarrow> samestring a b \<or> samestring a c \<or> samestring a d"

fun badnames_loop :: "('v, 'f, 'd, 's) vops \<Rightarrow> u8 list option \<Rightarrow> u8 list option \<Rightarrow> u8 list option \<Rightarrow> ('v, 'f, 'd) knowndev list \<Rightarrow> 's \<Rightarrow> bool" where
  "badnames_loop ops n1 n2 n3 [] s = False"
| "badnames_loop ops n1 n2 n3 (kd # kds) s =
     (if kd_fs kd \<noteq> None \<and> samestring3 (fsop_getvolname ops (the (kd_fs kd)) s) n1 n2 n3 then True
      else if samestring3 (kd_rawname kd) n1 n2 n3 \<or> samestring3 (Some (kd_name kd)) n1 n2 n3 then True
      else badnames_loop ops n1 n2 n3 kds s)"

definition badnames :: "('v, 'f, 'd, 's) vops \<Rightarrow> u8 list option \<Rightarrow> u8 list option \<Rightarrow> u8 list option \<Rightarrow> ('v, 'f, 'd, 's) vfs \<Rightarrow> bool kern" where
  "badnames ops n1 n2 n3 st = do { kassert (knowndevs_lock st); Some (badnames_loop ops n1 n2 n3 (knowndevs st) (store st)) }"

text \<open>The allocations of \<^verbatim>\<open>vfs_doadd\<close>: the two names, the vnode and its lock, the table entry, the growing of the table.\<close>

record add_mem =
  am_name :: bool
  am_rawname :: bool
  am_vnode :: bool
  am_lock :: bool
  am_kd :: bool
  am_array :: bool

definition vfs_doadd ::
  "('v, 'f, 'd, 's) vops \<Rightarrow> add_mem \<Rightarrow> u8 list \<Rightarrow> bool \<Rightarrow> 'd option \<Rightarrow> 'f option \<Rightarrow> ('v, 'f, 'd, 's) vfs \<Rightarrow> (errno \<times> ('v, 'f, 'd, 's) vfs) kern" where
  "vfs_doadd ops km devname mountable dev fs st =
     (if \<not> am_name km then Some (ENOMEM, st)
      else do {
        let rawname = (if mountable then mkrawname (am_rawname km) devname else None);
        if mountable \<and> rawname = None then Some (ENOMEM, st)
        else if \<not> am_vnode km then Some (ENOMEM, st)
        else do {
          (vnode, st') \<leftarrow> below (dev_create_vnode ops (am_lock km) dev) st;
          if \<not> am_kd km then Some (ENOMEM, st)
          else do {
            let kd = \<lparr>kd_name = devname, kd_rawname = rawname, kd_device = dev, kd_vnode = vnode, kd_fs = fs\<rparr>;
            let volname = (case fs of None \<Rightarrow> None | Some fs \<Rightarrow> fsop_getvolname ops fs (store st'));
            st \<leftarrow> knowndevs_acquire st';
            bad \<leftarrow> badnames ops (Some devname) rawname volname st;
            let (err, st) = (if bad then (EEXIST, st)
              else if \<not> am_array km then (ENOMEM, st)
              else (EOK, st\<lparr>knowndevs := knowndevs st @ [kd]\<rparr>));
            st \<leftarrow> knowndevs_release st;
            Some (err, st)
          }
        }
      })"

definition vfs_adddev :: "('v, 'f, 'd, 's) vops \<Rightarrow> add_mem \<Rightarrow> u8 list \<Rightarrow> 'd \<Rightarrow> bool \<Rightarrow> ('v, 'f, 'd, 's) vfs \<Rightarrow> (errno \<times> ('v, 'f, 'd, 's) vfs) kern" where
  "vfs_adddev ops km devname dev mountable st = vfs_doadd ops km devname mountable (Some dev) None st"

definition vfs_addfs :: "('v, 'f, 'd, 's) vops \<Rightarrow> add_mem \<Rightarrow> u8 list \<Rightarrow> 'f \<Rightarrow> ('v, 'f, 'd, 's) vfs \<Rightarrow> (errno \<times> ('v, 'f, 'd, 's) vfs) kern" where
  "vfs_addfs ops km devname fs st = vfs_doadd ops km devname False None (Some fs) st"

fun findmount_loop :: "u8 list \<Rightarrow> nat \<Rightarrow> ('v, 'f, 'd) knowndev list \<Rightarrow> nat option" where
  "findmount_loop devname i [] = None"
| "findmount_loop devname i (dev # devs) =
     (if kd_rawname dev \<noteq> None \<and> devname = kd_name dev then Some i else findmount_loop devname (i + 1) devs)"

definition findmount :: "u8 list \<Rightarrow> ('v, 'f, 'd, 's) vfs \<Rightarrow> nat option kern" where
  "findmount devname st = do { kassert (knowndevs_lock st); Some (findmount_loop devname 0 (knowndevs st)) }"

definition vfs_mount ::
  "('v, 'f, 'd, 's) vops \<Rightarrow> u8 list \<Rightarrow> ('d \<Rightarrow> 's \<Rightarrow> ((errno \<times> 'f option) \<times> 's) kern) \<Rightarrow> ('v, 'f, 'd, 's) vfs \<Rightarrow> (errno \<times> ('v, 'f, 'd, 's) vfs) kern" where
  "vfs_mount ops devname mountfunc st =
     do {
       st \<leftarrow> knowndevs_acquire st;
       r \<leftarrow> findmount devname st;
       (result, st) \<leftarrow>
         (case r of
            None \<Rightarrow> Some (ENODEV, st)
          | Some i \<Rightarrow>
              do {
                let kd = knowndevs st ! i;
                if kd_fs kd \<noteq> None then Some (EBUSY, st)
                else do {
                  kassert (kd_rawname kd \<noteq> None);
                  dev \<leftarrow> kd_device kd;
                  ((result, fs), st) \<leftarrow> below (mountfunc dev) st;
                  if result \<noteq> EOK then Some (result, st)
                  else do {
                    kassert (fs \<noteq> None);
                    Some (EOK, st\<lparr>knowndevs := (knowndevs st)[i := kd\<lparr>kd_fs := fs\<rparr>]\<rparr>)
                  }
                }
              });
       st \<leftarrow> knowndevs_release st;
       Some (result, st)
     }"

definition vfs_unmount :: "('v, 'f, 'd, 's) vops \<Rightarrow> u8 list \<Rightarrow> ('v, 'f, 'd, 's) vfs \<Rightarrow> (errno \<times> ('v, 'f, 'd, 's) vfs) kern" where
  "vfs_unmount ops devname st =
     do {
       st \<leftarrow> knowndevs_acquire st;
       r \<leftarrow> findmount devname st;
       (result, st) \<leftarrow>
         (case r of
            None \<Rightarrow> Some (ENODEV, st)
          | Some i \<Rightarrow>
              do {
                let kd = knowndevs st ! i;
                (case kd_fs kd of
                   None \<Rightarrow> Some (EINVAL, st)
                 | Some fs \<Rightarrow>
                     do {
                       kassert (kd_rawname kd \<noteq> None);
                       kassert (kd_device kd \<noteq> None);
                       (result, st) \<leftarrow> below (fsop_sync ops fs) st;
                       if result \<noteq> EOK then Some (result, st)
                       else do {
                         (result, st) \<leftarrow> below (fsop_unmount ops fs) st;
                         if result \<noteq> EOK then Some (result, st)
                         else Some (EOK, st\<lparr>knowndevs := (knowndevs st)[i := kd\<lparr>kd_fs := None\<rparr>]\<rparr>)
                       }
                     })
              });
       st \<leftarrow> knowndevs_release st;
       Some (result, st)
     }"

text \<open>One round of the loop of \<^verbatim>\<open>vfs_unmountall\<close>, and the loop: the entries it has been through, and the state below.\<close>

definition unmount_dev :: "('v, 'f, 'd, 's) vops \<Rightarrow> ('v, 'f, 'd) knowndev \<Rightarrow> 's \<Rightarrow> (('v, 'f, 'd) knowndev \<times> 's) kern" where
  "unmount_dev ops dev s =
     (case kd_fs dev of
        None \<Rightarrow> Some (dev, s)
      | Some fs \<Rightarrow>
          if kd_rawname dev = None then Some (dev, s)
          else do {
            (result, s) \<leftarrow> fsop_sync ops fs s;
            (result, s) \<leftarrow> (if result \<noteq> EOK then fsop_sync ops fs s else Some (result, s));
            if result \<noteq> EOK then Some (dev, s)
            else do {
              (result, s) \<leftarrow> fsop_unmount ops fs s;
              Some (if result \<noteq> EOK then dev else dev\<lparr>kd_fs := None\<rparr>, s)
            }
          })"

fun unmountall_loop :: "('v, 'f, 'd, 's) vops \<Rightarrow> ('v, 'f, 'd) knowndev list \<Rightarrow> 's \<Rightarrow> (('v, 'f, 'd) knowndev list \<times> 's) kern" where
  "unmountall_loop ops [] s = Some ([], s)"
| "unmountall_loop ops (dev # devs) s =
     do {
       (dev', s) \<leftarrow> unmount_dev ops dev s;
       (devs', s) \<leftarrow> unmountall_loop ops devs s;
       Some (dev' # devs', s)
     }"

definition vfs_unmountall :: "('v, 'f, 'd, 's) vops \<Rightarrow> ('v, 'f, 'd, 's) vfs \<Rightarrow> (errno \<times> ('v, 'f, 'd, 's) vfs) kern" where
  "vfs_unmountall ops st =
     do {
       st \<leftarrow> knowndevs_acquire st;
       (devs, s) \<leftarrow> unmountall_loop ops (knowndevs st) (store st);
       st \<leftarrow> knowndevs_release (st\<lparr>knowndevs := devs, store := s\<rparr>);
       Some (EOK, st)
     }"

subsection \<open>Path names\<close>

definition vfs_getcurdir :: "('v, 'f, 'd, 's) vops \<Rightarrow> ('v, 'f, 'd, 's) vfs \<Rightarrow> ((errno \<times> 'v option) \<times> ('v, 'f, 'd, 's) vfs) kern" where
  "vfs_getcurdir ops st =
     (case t_cwd st of
        Some v \<Rightarrow> do { st \<leftarrow> below' (vop_incref ops v) st; Some ((EOK, Some v), st) }
      | None \<Rightarrow> Some ((ENOENT, None), st))"

text \<open>The search of \<^verbatim>\<open>getdevice\<close> for the first colon or slash: the positions of both, or -1.\<close>

fun first_sep :: "int \<Rightarrow> u8 list \<Rightarrow> int \<times> int" where
  "first_sep i [] = (- 1, - 1)"
| "first_sep i (c # cs) = (if c = colon then (i, - 1) else if c = slash then (- 1, i) else first_sep (i + 1) cs)"

text \<open>\<^verbatim>\<open>getdevice\<close>: the rest of the path and the vnode to start from.\<close>

definition getdevice :: "('v, 'f, 'd, 's) vops \<Rightarrow> u8 list \<Rightarrow> ('v, 'f, 'd, 's) vfs \<Rightarrow> ((errno \<times> u8 list \<times> 'v option) \<times> ('v, 'f, 'd, 's) vfs) kern" where
  "getdevice ops path st =
     do {
       let (c, sl) = first_sep 0 path;
       if c < 0 \<and> sl \<noteq> 0 then do { ((result, vn), st) \<leftarrow> vfs_getcurdir ops st; Some ((result, path, vn), st) }
       else if c > 0 then do {
         let subpath = dropWhile (\<lambda>x. x = slash) (drop (nat c + 1) path);
         ((result, vn), st) \<leftarrow> vfs_getroot ops (take (nat c) path) st;
         Some ((result, subpath, vn), st)
       }
       else do {
         kassert (c = 0 \<or> sl = 0);
         let subpath = dropWhile (\<lambda>x. x = slash) (tl path);
         if hd path = slash then do {
           st \<leftarrow> bootfs_acquire st;
           (case bootfs_vnode st of
              None \<Rightarrow> do { st \<leftarrow> bootfs_release st; Some ((ENOENT, path, None), st) }
            | Some v \<Rightarrow> do { st \<leftarrow> below' (vop_incref ops v) st; st \<leftarrow> bootfs_release st; Some ((EOK, subpath, Some v), st) })
         }
         else do {
           kassert (hd path = colon);
           ((result, vn), st) \<leftarrow> vfs_getcurdir ops st;
           if result \<noteq> EOK then Some ((result, path, None), st)
           else do {
             v \<leftarrow> vn;
             fs \<leftarrow> vn_fs ops v (store st);
             (startvn, st) \<leftarrow> below (fsop_getroot ops fs) st;
             st \<leftarrow> below' (vop_decref ops v) st;
             Some ((EOK, subpath, Some startvn), st)
           }
         }
       }
     }"

definition vfs_lookparent ::
  "('v, 'f, 'd, 's) vops \<Rightarrow> u8 list \<Rightarrow> nat \<Rightarrow> ('v, 'f, 'd, 's) vfs \<Rightarrow> ((errno \<times> ('v \<times> u8 list) option) \<times> ('v, 'f, 'd, 's) vfs) kern" where
  "vfs_lookparent ops path buflen st =
     do {
       ((result, path, startvn), st) \<leftarrow> getdevice ops path st;
       if result \<noteq> EOK then Some ((result, None), st)
       else do {
         startvn \<leftarrow> startvn;
         (r, st) \<leftarrow> (if length path = 0 then Some ((EINVAL, None), st) else below (vop_lookparent ops startvn path buflen) st);
         st \<leftarrow> below' (vop_decref ops startvn) st;
         Some (r, st)
       }
     }"

definition vfs_lookup :: "('v, 'f, 'd, 's) vops \<Rightarrow> u8 list \<Rightarrow> ('v, 'f, 'd, 's) vfs \<Rightarrow> ((errno \<times> 'v option) \<times> ('v, 'f, 'd, 's) vfs) kern" where
  "vfs_lookup ops path st =
     do {
       ((result, path, startvn), st) \<leftarrow> getdevice ops path st;
       if result \<noteq> EOK then Some ((result, None), st)
       else do {
         startvn \<leftarrow> startvn;
         if length path = 0 then Some ((EOK, Some startvn), st)
         else do {
           (r, st) \<leftarrow> below (vop_lookup ops startvn path) st;
           st \<leftarrow> below' (vop_decref ops startvn) st;
           Some (r, st)
         }
       }
     }"

subsection \<open>The current directory and the boot file system\<close>

definition vfs_setcurdir :: "('v, 'f, 'd, 's) vops \<Rightarrow> 'v \<Rightarrow> ('v, 'f, 'd, 's) vfs \<Rightarrow> (errno \<times> ('v, 'f, 'd, 's) vfs) kern" where
  "vfs_setcurdir ops dir st =
     do {
       ((result, vtype), st) \<leftarrow> below (vop_gettype ops dir) st;
       if result \<noteq> EOK then Some (result, st)
       else if \<not> S_ISDIR vtype then Some (ENOTDIR, st)
       else do {
         let old = t_cwd st;
         let st = st\<lparr>t_cwd := Some dir\<rparr>;
         (case old of None \<Rightarrow> Some (EOK, st) | Some v \<Rightarrow> do { st \<leftarrow> below' (vop_decref ops v) st; Some (EOK, st) })
       }
     }"

definition vfs_clearcurdir :: "('v, 'f, 'd, 's) vops \<Rightarrow> ('v, 'f, 'd, 's) vfs \<Rightarrow> (errno \<times> ('v, 'f, 'd, 's) vfs) kern" where
  "vfs_clearcurdir ops st =
     (let old = t_cwd st; st = st\<lparr>t_cwd := None\<rparr> in
      case old of None \<Rightarrow> Some (EOK, st) | Some v \<Rightarrow> do { st \<leftarrow> below' (vop_decref ops v) st; Some (EOK, st) })"

definition vfs_chdir :: "('v, 'f, 'd, 's) vops \<Rightarrow> u8 list \<Rightarrow> ('v, 'f, 'd, 's) vfs \<Rightarrow> (errno \<times> ('v, 'f, 'd, 's) vfs) kern" where
  "vfs_chdir ops path st =
     do {
       ((result, vn), st) \<leftarrow> vfs_lookup ops path st;
       if result \<noteq> EOK then Some (result, st)
       else do {
         v \<leftarrow> vn;
         (result, st) \<leftarrow> vfs_setcurdir ops v st;
         if result \<noteq> EOK then do { st \<leftarrow> below' (vop_decref ops v) st; Some (result, st) } else Some (EOK, st)
       }
     }"

definition vfs_getcwd :: "('v, 'f, 'd, 's) vops \<Rightarrow> uio \<Rightarrow> ('v, 'f, 'd, 's) vfs \<Rightarrow> ((errno \<times> uio) \<times> ('v, 'f, 'd, 's) vfs) kern" where
  "vfs_getcwd ops u st =
     do {
       kassert (uio_rw u = UIO_READ);
       ((result, cwd), st) \<leftarrow> vfs_getcurdir ops st;
       if result \<noteq> EOK then Some ((result, u), st)
       else do {
         cwd \<leftarrow> cwd;
         fs \<leftarrow> vn_fs ops cwd (store st);
         (name, st) \<leftarrow> (case fsop_getvolname ops fs (store st) of Some n \<Rightarrow> Some (Some n, st) | None \<Rightarrow> vfs_getdevname fs st);
         name \<leftarrow> name;
         ((result, u), st) \<leftarrow> below (copy_out ops name u) st;
         ((result, u), st) \<leftarrow> (if result \<noteq> EOK then Some ((result, u), st)
           else do {
             ((result, u), st) \<leftarrow> below (copy_out ops [colon] u) st;
             if result \<noteq> EOK then Some ((result, u), st) else below (vop_namefile ops cwd u) st
           });
         st \<leftarrow> below' (vop_decref ops cwd) st;
         Some ((result, u), st)
       }
     }"

definition vfs_initbootfs :: "bool \<Rightarrow> ('v, 'f, 'd, 's) vfs \<Rightarrow> ('v, 'f, 'd, 's) vfs kern" where
  "vfs_initbootfs km st = do { kassert km; Some (st\<lparr>bootfs_lock := False\<rparr>) }"

definition change_bootfs :: "('v, 'f, 'd, 's) vops \<Rightarrow> 'v option \<Rightarrow> ('v, 'f, 'd, 's) vfs \<Rightarrow> ('v, 'f, 'd, 's) vfs kern" where
  "change_bootfs ops newguy st =
     do {
       st \<leftarrow> bootfs_acquire st;
       let oldguy = bootfs_vnode st;
       st \<leftarrow> bootfs_release (st\<lparr>bootfs_vnode := newguy\<rparr>);
       (case oldguy of None \<Rightarrow> Some st | Some v \<Rightarrow> below' (vop_decref ops v) st)
     }"

text \<open>\<^verbatim>\<open>snprintf\<close> is given one byte less than the buffer has, so it keeps one character less than a name may have.
  \<^verbatim>\<open>strlen(s)\<close> counts the colon itself, so it is positive whenever there is one.\<close>

definition vfs_setbootfs :: "('v, 'f, 'd, 's) vops \<Rightarrow> u8 list \<Rightarrow> ('v, 'f, 'd, 's) vfs \<Rightarrow> (errno \<times> ('v, 'f, 'd, 's) vfs) kern" where
  "vfs_setbootfs ops fsname st =
     do {
       let tmp = take (NAME_MAX - 1) fsname;
       let s = dropWhile (\<lambda>c. c \<noteq> colon) tmp;
       if s \<noteq> [] \<and> length s > 0 then Some (EINVAL, st)
       else do {
         (result, st) \<leftarrow> vfs_chdir ops (if s \<noteq> [] then tmp else tmp @ [colon]) st;
         if result \<noteq> EOK then Some (result, st)
         else do {
           ((result, newguy), st) \<leftarrow> vfs_getcurdir ops st;
           if result \<noteq> EOK then Some (result, st)
           else do { st \<leftarrow> change_bootfs ops newguy st; Some (EOK, st) }
         }
       }
     }"

definition vfs_clearbootfs :: "('v, 'f, 'd, 's) vops \<Rightarrow> ('v, 'f, 'd, 's) vfs \<Rightarrow> ('v, 'f, 'd, 's) vfs kern" where
  "vfs_clearbootfs ops st = change_bootfs ops None st"

text \<open>\<open>nulldev\<close> is the device structure \<^verbatim>\<open>devnull_create\<close> fills in; the booleans say whether the memory is there for it, the table,
  the table's lock and the boot file system's lock.\<close>

definition devnull_create :: "('v, 'f, 'd, 's) vops \<Rightarrow> bool \<Rightarrow> add_mem \<Rightarrow> 'd \<Rightarrow> ('v, 'f, 'd, 's) vfs \<Rightarrow> ('v, 'f, 'd, 's) vfs kern" where
  "devnull_create ops km1 km nulldev st =
     do {
       kassert km1;
       (result, st) \<leftarrow> vfs_adddev ops km [110, 117, 108, 108] nulldev False st;
       kassert (result = EOK);
       Some st
     }"

definition vfs_bootstrap :: "('v, 'f, 'd, 's) vops \<Rightarrow> bool \<times> bool \<times> bool \<times> bool \<Rightarrow> add_mem \<Rightarrow> 'd \<Rightarrow> 's \<Rightarrow> ('v, 'f, 'd, 's) vfs kern" where
  "vfs_bootstrap ops mem km nulldev s =
     (let (m_array, m_lock, m_bootlock, m_null) = mem in
      do {
        kassert m_array;
        kassert m_lock;
        st \<leftarrow> vfs_initbootfs m_bootlock \<lparr>knowndevs = [], knowndevs_lock = False, bootfs_vnode = None, bootfs_lock = False, t_cwd = None, store = s\<rparr>;
        devnull_create ops m_null km nulldev st
      })"

subsection \<open>Operations on paths\<close>

text \<open>The two halves of \<^verbatim>\<open>vfs_open\<close>: finding or creating the file, and opening it.\<close>

definition open_vnode :: "('v, 'f, 'd, 's) vops \<Rightarrow> u8 list \<Rightarrow> u32 \<Rightarrow> ('v, 'f, 'd, 's) vfs \<Rightarrow> ((errno \<times> 'v option) \<times> ('v, 'f, 'd, 's) vfs) kern" where
  "open_vnode ops path openflags st =
     (if openflags AND O_CREAT \<noteq> 0 then
        do {
          let excl = (openflags AND O_EXCL \<noteq> 0);
          ((result, parent), st) \<leftarrow> vfs_lookparent ops path (NAME_MAX + 1) st;
          if result \<noteq> EOK then Some ((result, None), st)
          else do {
            (dir, name) \<leftarrow> parent;
            (r, st) \<leftarrow> below (vop_creat ops dir name excl) st;
            st \<leftarrow> below' (vop_decref ops dir) st;
            Some (r, st)
          }
        }
      else vfs_lookup ops path st)"

definition open_file :: "('v, 'f, 'd, 's) vops \<Rightarrow> 'v \<Rightarrow> u32 \<Rightarrow> bool \<Rightarrow> ('v, 'f, 'd, 's) vfs \<Rightarrow> ((errno \<times> 'v option) \<times> ('v, 'f, 'd, 's) vfs) kern" where
  "open_file ops v openflags canwrite st =
     do {
       (result, st) \<leftarrow> below (vop_open ops v openflags) st;
       if result \<noteq> EOK then do { st \<leftarrow> below' (vop_decref ops v) st; Some ((result, None), st) }
       else do {
         st \<leftarrow> below' (vop_incopen ops v) st;
         (result, st) \<leftarrow> (if openflags AND O_TRUNC = 0 then Some (EOK, st)
           else if \<not> canwrite then Some (EINVAL, st) else below (vop_truncate ops v 0) st);
         if result \<noteq> EOK then
           do { st \<leftarrow> below' (vop_decopen ops v) st; st \<leftarrow> below' (vop_decref ops v) st; Some ((result, None), st) }
         else Some ((EOK, Some v), st)
       }
     }"

definition vfs_open :: "('v, 'f, 'd, 's) vops \<Rightarrow> u8 list \<Rightarrow> u32 \<Rightarrow> ('v, 'f, 'd, 's) vfs \<Rightarrow> ((errno \<times> 'v option) \<times> ('v, 'f, 'd, 's) vfs) kern" where
  "vfs_open ops path openflags st =
     (let how = openflags AND O_ACCMODE; canwrite = (how = O_WRONLY \<or> how = O_RDWR) in
      if how \<noteq> O_RDONLY \<and> \<not> canwrite then Some ((EINVAL, None), st)
      else do {
        ((result, vn), st) \<leftarrow> open_vnode ops path openflags st;
        if result \<noteq> EOK then Some ((result, None), st)
        else do { v \<leftarrow> vn; open_file ops v openflags canwrite st }
      })"

definition vfs_close :: "('v, 'f, 'd, 's) vops \<Rightarrow> 'v \<Rightarrow> ('v, 'f, 'd, 's) vfs \<Rightarrow> ('v, 'f, 'd, 's) vfs kern" where
  "vfs_close ops vn st = do { st \<leftarrow> below' (vop_decopen ops vn) st; below' (vop_decref ops vn) st }"

definition vfs_remove :: "('v, 'f, 'd, 's) vops \<Rightarrow> u8 list \<Rightarrow> ('v, 'f, 'd, 's) vfs \<Rightarrow> (errno \<times> ('v, 'f, 'd, 's) vfs) kern" where
  "vfs_remove ops path st =
     do {
       ((result, parent), st) \<leftarrow> vfs_lookparent ops path (NAME_MAX + 1) st;
       if result \<noteq> EOK then Some (result, st)
       else do {
         (dir, name) \<leftarrow> parent;
         (result, st) \<leftarrow> below (vop_remove ops dir name) st;
         st \<leftarrow> below' (vop_decref ops dir) st;
         Some (result, st)
       }
     }"

definition vfs_rename :: "('v, 'f, 'd, 's) vops \<Rightarrow> u8 list \<Rightarrow> u8 list \<Rightarrow> ('v, 'f, 'd, 's) vfs \<Rightarrow> (errno \<times> ('v, 'f, 'd, 's) vfs) kern" where
  "vfs_rename ops oldpath newpath st =
     do {
       ((result, old), st) \<leftarrow> vfs_lookparent ops oldpath (NAME_MAX + 1) st;
       if result \<noteq> EOK then Some (result, st)
       else do {
         (olddir, oldname) \<leftarrow> old;
         ((result, new), st) \<leftarrow> vfs_lookparent ops newpath (NAME_MAX + 1) st;
         if result \<noteq> EOK then do { st \<leftarrow> below' (vop_decref ops olddir) st; Some (result, st) }
         else do {
           (newdir, newname) \<leftarrow> new;
           (result, st) \<leftarrow>
             (if vn_fs ops olddir (store st) = None \<or> vn_fs ops newdir (store st) = None \<or> vn_fs ops olddir (store st) \<noteq> vn_fs ops newdir (store st)
              then Some (EXDEV, st) else below (vop_rename ops olddir oldname newdir newname) st);
           st \<leftarrow> below' (vop_decref ops newdir) st;
           st \<leftarrow> below' (vop_decref ops olddir) st;
           Some (result, st)
         }
       }
     }"

definition vfs_link :: "('v, 'f, 'd, 's) vops \<Rightarrow> u8 list \<Rightarrow> u8 list \<Rightarrow> ('v, 'f, 'd, 's) vfs \<Rightarrow> (errno \<times> ('v, 'f, 'd, 's) vfs) kern" where
  "vfs_link ops oldpath newpath st =
     do {
       ((result, oldfile), st) \<leftarrow> vfs_lookup ops oldpath st;
       if result \<noteq> EOK then Some (result, st)
       else do {
         oldfile \<leftarrow> oldfile;
         ((result, new), st) \<leftarrow> vfs_lookparent ops newpath (NAME_MAX + 1) st;
         if result \<noteq> EOK then do { st \<leftarrow> below' (vop_decref ops oldfile) st; Some (result, st) }
         else do {
           (newdir, newname) \<leftarrow> new;
           (result, st) \<leftarrow>
             (if vn_fs ops oldfile (store st) = None \<or> vn_fs ops newdir (store st) = None \<or> vn_fs ops oldfile (store st) \<noteq> vn_fs ops newdir (store st)
              then Some (EXDEV, st) else below (vop_link ops newdir newname oldfile) st);
           st \<leftarrow> below' (vop_decref ops newdir) st;
           st \<leftarrow> below' (vop_decref ops oldfile) st;
           Some (result, st)
         }
       }
     }"

definition vfs_symlink :: "('v, 'f, 'd, 's) vops \<Rightarrow> u8 list \<Rightarrow> u8 list \<Rightarrow> ('v, 'f, 'd, 's) vfs \<Rightarrow> (errno \<times> ('v, 'f, 'd, 's) vfs) kern" where
  "vfs_symlink ops link_to path st =
     do {
       ((result, parent), st) \<leftarrow> vfs_lookparent ops path (NAME_MAX + 1) st;
       if result \<noteq> EOK then Some (result, st)
       else do {
         (newdir, newname) \<leftarrow> parent;
         (result, st) \<leftarrow> below (vop_symlink ops newdir newname link_to) st;
         st \<leftarrow> below' (vop_decref ops newdir) st;
         Some (result, st)
       }
     }"

definition vfs_readlink :: "('v, 'f, 'd, 's) vops \<Rightarrow> u8 list \<Rightarrow> uio \<Rightarrow> ('v, 'f, 'd, 's) vfs \<Rightarrow> ((errno \<times> uio) \<times> ('v, 'f, 'd, 's) vfs) kern" where
  "vfs_readlink ops path u st =
     do {
       ((result, vn), st) \<leftarrow> vfs_lookup ops path st;
       if result \<noteq> EOK then Some ((result, u), st)
       else do {
         v \<leftarrow> vn;
         (r, st) \<leftarrow> below (vop_readlink ops v u) st;
         st \<leftarrow> below' (vop_decref ops v) st;
         Some (r, st)
       }
     }"

definition vfs_mkdir :: "('v, 'f, 'd, 's) vops \<Rightarrow> u8 list \<Rightarrow> ('v, 'f, 'd, 's) vfs \<Rightarrow> (errno \<times> ('v, 'f, 'd, 's) vfs) kern" where
  "vfs_mkdir ops path st =
     do {
       ((result, parent), st) \<leftarrow> vfs_lookparent ops path (NAME_MAX + 1) st;
       if result \<noteq> EOK then Some (result, st)
       else do {
         (dir, name) \<leftarrow> parent;
         (result, st) \<leftarrow> below (vop_mkdir ops dir name) st;
         st \<leftarrow> below' (vop_decref ops dir) st;
         Some (result, st)
       }
     }"

definition vfs_rmdir :: "('v, 'f, 'd, 's) vops \<Rightarrow> u8 list \<Rightarrow> ('v, 'f, 'd, 's) vfs \<Rightarrow> (errno \<times> ('v, 'f, 'd, 's) vfs) kern" where
  "vfs_rmdir ops path st =
     do {
       ((result, parent), st) \<leftarrow> vfs_lookparent ops path (NAME_MAX + 1) st;
       if result \<noteq> EOK then Some (result, st)
       else do {
         (dir, name) \<leftarrow> parent;
         (result, st) \<leftarrow> below (vop_rmdir ops dir name) st;
         st \<leftarrow> below' (vop_decref ops dir) st;
         Some (result, st)
       }
     }"

section \<open>Calls below\<close>

lemma below_Some: "below f st = Some (r, st') \<longleftrightarrow> (\<exists>s. f (store st) = Some (r, s) \<and> st' = st\<lparr>store := s\<rparr>)"
  by (auto simp: below_def kern_simps)

lemma below'_Some: "below' f st = Some st' \<longleftrightarrow> (\<exists>s. f (store st) = Some s \<and> st' = st\<lparr>store := s\<rparr>)"
  by (auto simp: below'_def kern_simps)

lemma lock_Some:
  "knowndevs_acquire st = Some st' \<longleftrightarrow> \<not> knowndevs_lock st \<and> st' = st\<lparr>knowndevs_lock := True\<rparr>"
  "knowndevs_release st = Some st' \<longleftrightarrow> knowndevs_lock st \<and> st' = st\<lparr>knowndevs_lock := False\<rparr>"
  "bootfs_acquire st = Some st' \<longleftrightarrow> \<not> bootfs_lock st \<and> st' = st\<lparr>bootfs_lock := True\<rparr>"
  "bootfs_release st = Some st' \<longleftrightarrow> bootfs_lock st \<and> st' = st\<lparr>bootfs_lock := False\<rparr>"
  by (auto simp: knowndevs_acquire_def knowndevs_release_def bootfs_acquire_def bootfs_release_def kern_simps)

lemmas vfs_calls = below_Some below'_Some lock_Some kern_simps Let_def

section \<open>Names\<close>

text \<open>The names an entry of the table answers to, and that no two entries share one.\<close>

definition names :: "('v, 'f, 'd, 's) vops \<Rightarrow> 's \<Rightarrow> ('v, 'f, 'd) knowndev \<Rightarrow> u8 list set" where
  "names ops s kd = {kd_name kd} \<union> set_option (kd_rawname kd) \<union>
     (case kd_fs kd of None \<Rightarrow> {} | Some fs \<Rightarrow> set_option (fsop_getvolname ops fs s))"

primrec unambiguous :: "('v, 'f, 'd, 's) vops \<Rightarrow> 's \<Rightarrow> ('v, 'f, 'd) knowndev list \<Rightarrow> bool" where
  "unambiguous ops s [] = True"
| "unambiguous ops s (kd # kds) = ((\<forall>k\<in>set kds. names ops s kd \<inter> names ops s k = {}) \<and> unambiguous ops s kds)"

text \<open>What a name stands for, given the entry that has it.\<close>

definition resolved :: "('v, 'f, 'd, 's) vops \<Rightarrow> u8 list \<Rightarrow> ('v, 'f, 'd) knowndev \<Rightarrow> 's \<Rightarrow> ((errno \<times> 'v option) \<times> 's) kern" where
  "resolved ops devname kd s =
     (if kd_fs kd \<noteq> None \<and> (kd_name kd = devname \<or> fsop_getvolname ops (the (kd_fs kd)) s = Some devname)
      then do { (v, s) \<leftarrow> fsop_getroot ops (the (kd_fs kd)) s; Some ((EOK, Some v), s) }
      else if kd_fs kd = None \<and> kd_rawname kd \<noteq> None \<and> kd_name kd = devname then Some ((ENXIO, None), s)
      else do { kassert (kd_device kd \<noteq> None); s \<leftarrow> vop_incref ops (kd_vnode kd) s; Some ((EOK, Some (kd_vnode kd)), s) })"

lemma getroot_loop_skip: "devname \<notin> names ops s kd \<Longrightarrow> getroot_loop ops devname (kd # kds) s = getroot_loop ops devname kds s"
  by (cases "kd_fs kd") (auto simp: names_def)

lemma getroot_loop_hit: "devname \<in> names ops s kd \<Longrightarrow> getroot_loop ops devname (kd # kds) s = resolved ops devname kd s"
  by (cases "kd_fs kd") (auto simp: names_def resolved_def)

lemma getroot_loop_missing: "\<forall>kd\<in>set kds. devname \<notin> names ops s kd \<Longrightarrow> getroot_loop ops devname kds s = Some ((ENODEV, None), s)"
proof (induction kds)
  case (Cons kd kds)
  then show ?case using getroot_loop_skip [of devname ops s kd kds] by simp
qed simp

lemma getroot_loop_resolved:
  "unambiguous ops s kds \<Longrightarrow> kd \<in> set kds \<Longrightarrow> devname \<in> names ops s kd \<Longrightarrow> getroot_loop ops devname kds s = resolved ops devname kd s"
proof (induction kds)
  case (Cons k kds)
  show ?case
  proof (cases "devname \<in> names ops s k")
    case True
    then have "k = kd" using Cons.prems by auto
    then show ?thesis using getroot_loop_hit [OF True] by simp
  next
    case False
    then show ?thesis using Cons getroot_loop_skip [OF False] by auto
  qed
qed simp

lemma badnames_loop_iff:
  "badnames_loop ops n1 n2 n3 kds s \<longleftrightarrow> (\<exists>kd\<in>set kds. names ops s kd \<inter> (set_option n1 \<union> set_option n2 \<union> set_option n3) \<noteq> {})"
proof (induction kds)
  case (Cons kd kds)
  have "samestring3 a n1 n2 n3 \<longleftrightarrow> set_option a \<inter> (set_option n1 \<union> set_option n2 \<union> set_option n3) \<noteq> {}" for a
    by (cases a; cases n1; cases n2; cases n3) (auto simp: samestring3_def samestring_def)
  then have "badnames_loop ops n1 n2 n3 (kd # kds) s \<longleftrightarrow>
      names ops s kd \<inter> (set_option n1 \<union> set_option n2 \<union> set_option n3) \<noteq> {} \<or> badnames_loop ops n1 n2 n3 kds s"
    by (cases "kd_fs kd") (auto simp: names_def)
  then show ?case using Cons.IH by auto
qed simp

lemma unambiguous_append:
  "unambiguous ops s (kds @ [kd]) \<longleftrightarrow> unambiguous ops s kds \<and> (\<forall>k\<in>set kds. names ops s k \<inter> names ops s kd = {})"
  by (induction kds) auto

text \<open>Entries may lose names.\<close>

lemma unambiguous_mono:
  "list_all2 (\<lambda>k k'. names ops s' k' \<subseteq> names ops s k) kds kds' \<Longrightarrow> unambiguous ops s kds \<Longrightarrow> unambiguous ops s' kds'"
proof (induction rule: list_all2_induct)
  case (Cons k ks k' ks')
  have "names ops s' k' \<inter> names ops s' q' = {}" if q': "q' \<in> set ks'" for q'
  proof -
    obtain q where "q \<in> set ks" "names ops s' q' \<subseteq> names ops s q"
      using Cons.hyps(2) q' by (metis in_set_conv_nth list_all2_conv_all_nth)
    then show ?thesis using Cons.prems Cons.hyps(1) by auto
  qed
  then show ?case using Cons by simp
qed simp

section \<open>What the layer relies on\<close>

text \<open>The volume names of the file systems in a state.\<close>

definition vol :: "('v, 'f, 'd, 's) vops \<Rightarrow> 's \<Rightarrow> 'f \<Rightarrow> u8 list option" where
  "vol ops s f = fsop_getvolname ops f s"

lemma names_cong: "vol ops s' = vol ops s \<Longrightarrow> names ops s' = names ops s"
  by (auto simp: names_def fun_eq_iff vol_def split: option.splits)

lemma unambiguous_cong: "vol ops s' = vol ops s \<Longrightarrow> unambiguous ops s' kds = unambiguous ops s kds"
  by (induction kds) (simp_all add: names_cong [of ops s' s])

text \<open>A file system has the name it had when it was mounted, and the file systems that exist are those that have been mounted and not unmounted.\<close>

locale file_layer =
  fixes ops :: "('v, 'f, 'd, 's) vops" and mountfunc :: "'d \<Rightarrow> 's \<Rightarrow> ((errno \<times> 'f option) \<times> 's) kern" and alive :: "'s \<Rightarrow> 'f set"
  assumes incref: "vop_incref ops v s = Some s' \<Longrightarrow> vol ops s' = vol ops s \<and> alive s' = alive s"
    and decref: "vop_decref ops v s = Some s' \<Longrightarrow> vol ops s' = vol ops s \<and> alive s' = alive s"
    and incopen: "vop_incopen ops v s = Some s' \<Longrightarrow> vol ops s' = vol ops s \<and> alive s' = alive s"
    and decopen: "vop_decopen ops v s = Some s' \<Longrightarrow> vol ops s' = vol ops s \<and> alive s' = alive s"
    and openv: "vop_open ops v fl s = Some (e, s') \<Longrightarrow> vol ops s' = vol ops s \<and> alive s' = alive s"
    and gettype: "vop_gettype ops v s = Some (q, s') \<Longrightarrow> vol ops s' = vol ops s \<and> alive s' = alive s"
    and truncate: "vop_truncate ops v len s = Some (e, s') \<Longrightarrow> vol ops s' = vol ops s \<and> alive s' = alive s"
    and readlink: "vop_readlink ops v u s = Some (r, s') \<Longrightarrow> vol ops s' = vol ops s \<and> alive s' = alive s"
    and namefile: "vop_namefile ops v u s = Some (r, s') \<Longrightarrow> vol ops s' = vol ops s \<and> alive s' = alive s"
    and creat: "vop_creat ops v nm x s = Some (w, s') \<Longrightarrow> vol ops s' = vol ops s \<and> alive s' = alive s"
    and symlink: "vop_symlink ops v nm t s = Some (e, s') \<Longrightarrow> vol ops s' = vol ops s \<and> alive s' = alive s"
    and mkdir: "vop_mkdir ops v nm s = Some (e, s') \<Longrightarrow> vol ops s' = vol ops s \<and> alive s' = alive s"
    and link: "vop_link ops v nm v2 s = Some (e, s') \<Longrightarrow> vol ops s' = vol ops s \<and> alive s' = alive s"
    and remove: "vop_remove ops v nm s = Some (e, s') \<Longrightarrow> vol ops s' = vol ops s \<and> alive s' = alive s"
    and rmdir: "vop_rmdir ops v nm s = Some (e, s') \<Longrightarrow> vol ops s' = vol ops s \<and> alive s' = alive s"
    and rename: "vop_rename ops v nm v2 nm2 s = Some (e, s') \<Longrightarrow> vol ops s' = vol ops s \<and> alive s' = alive s"
    and lookup: "vop_lookup ops v nm s = Some (w, s') \<Longrightarrow> vol ops s' = vol ops s \<and> alive s' = alive s"
    and lookparent: "vop_lookparent ops v nm len' s = Some (p, s') \<Longrightarrow> vol ops s' = vol ops s \<and> alive s' = alive s"
    and sync: "fsop_sync ops f s = Some (e, s') \<Longrightarrow> vol ops s' = vol ops s \<and> alive s' = alive s"
    and getroot: "fsop_getroot ops f s = Some (rt, s') \<Longrightarrow> vol ops s' = vol ops s \<and> alive s' = alive s"
    and create: "dev_create_vnode ops b d s = Some (rt, s') \<Longrightarrow> vol ops s' = vol ops s \<and> alive s' = alive s"
    and copyout: "copy_out ops txt u s = Some (r, s') \<Longrightarrow> vol ops s' = vol ops s \<and> alive s' = alive s"
    and unmount: "fsop_unmount ops f s = Some (e, s') \<Longrightarrow>
      (if e = EOK then alive s' = alive s - {f} \<and> (\<forall>g. g \<noteq> f \<longrightarrow> vol ops s' g = vol ops s g) else vol ops s' = vol ops s \<and> alive s' = alive s)"
    and mount: "mountfunc dv s = Some ((e, fo), s') \<Longrightarrow>
      (if e = EOK then \<exists>f. fo = Some f \<and> f \<notin> alive s \<and> alive s' = insert f (alive s) \<and> (\<forall>g. g \<noteq> f \<longrightarrow> vol ops s' g = vol ops s g)
       else vol ops s' = vol ops s \<and> alive s' = alive s)"
begin

lemmas calls = incref decref incopen decopen openv gettype truncate readlink namefile creat symlink mkdir link remove rmdir rename
  lookup lookparent sync getroot create copyout

text \<open>What the device table depends on.\<close>

definition view :: "('v, 'f, 'd, 's) vfs \<Rightarrow> ('v, 'f, 'd) knowndev list \<times> ('f \<Rightarrow> u8 list option) \<times> 'f set \<times> bool \<times> bool" where
  "view st = (knowndevs st, vol ops (store st), alive (store st), knowndevs_lock st, bootfs_lock st)"

lemma view_store: "vol ops s = vol ops (store st) \<Longrightarrow> alive s = alive (store st) \<Longrightarrow> view (st\<lparr>store := s\<rparr>) = view st"
  by (simp add: view_def)

lemma view_update [simp]: "view (st\<lparr>t_cwd := c\<rparr>) = view st" "view (st\<lparr>bootfs_vnode := c\<rparr>) = view st"
  by (simp_all add: view_def)

lemma view_below: "below f st = Some (r, st') \<Longrightarrow> (\<And>s'. f (store st) = Some (r, s') \<Longrightarrow> vol ops s' = vol ops (store st) \<and> alive s' = alive (store st)) \<Longrightarrow> view st' = view st"
  by (auto simp: below_Some view_store)

lemma view_below': "below' f st = Some st' \<Longrightarrow> (\<And>s'. f (store st) = Some s' \<Longrightarrow> vol ops s' = vol ops (store st) \<and> alive s' = alive (store st)) \<Longrightarrow> view st' = view st"
  by (auto simp: below'_Some view_store)

lemma view_calls:
  "below' (vop_incref ops v) st = Some st' \<Longrightarrow> view st' = view st"
  "below' (vop_decref ops v) st = Some st' \<Longrightarrow> view st' = view st"
  "below' (vop_incopen ops v) st = Some st' \<Longrightarrow> view st' = view st"
  "below' (vop_decopen ops v) st = Some st' \<Longrightarrow> view st' = view st"
  "below (vop_open ops v fl) st = Some (e, st') \<Longrightarrow> view st' = view st"
  "below (vop_gettype ops v) st = Some (q, st') \<Longrightarrow> view st' = view st"
  "below (vop_truncate ops v len) st = Some (e, st') \<Longrightarrow> view st' = view st"
  "below (vop_readlink ops v u) st = Some (r, st') \<Longrightarrow> view st' = view st"
  "below (vop_namefile ops v u) st = Some (r, st') \<Longrightarrow> view st' = view st"
  "below (vop_creat ops v nm x) st = Some (w, st') \<Longrightarrow> view st' = view st"
  "below (vop_symlink ops v nm t) st = Some (e, st') \<Longrightarrow> view st' = view st"
  "below (vop_mkdir ops v nm) st = Some (e, st') \<Longrightarrow> view st' = view st"
  "below (vop_link ops v nm v2) st = Some (e, st') \<Longrightarrow> view st' = view st"
  "below (vop_remove ops v nm) st = Some (e, st') \<Longrightarrow> view st' = view st"
  "below (vop_rmdir ops v nm) st = Some (e, st') \<Longrightarrow> view st' = view st"
  "below (vop_rename ops v nm v2 nm2) st = Some (e, st') \<Longrightarrow> view st' = view st"
  "below (vop_lookup ops v nm) st = Some (w, st') \<Longrightarrow> view st' = view st"
  "below (vop_lookparent ops v nm n) st = Some (p, st') \<Longrightarrow> view st' = view st"
  "below (fsop_sync ops f) st = Some (e, st') \<Longrightarrow> view st' = view st"
  "below (fsop_getroot ops f) st = Some (rt, st') \<Longrightarrow> view st' = view st"
  "below (dev_create_vnode ops b d) st = Some (rt, st') \<Longrightarrow> view st' = view st"
  "below (copy_out ops txt u) st = Some (r, st') \<Longrightarrow> view st' = view st"
  by (erule view_below', erule incref, erule view_below', erule decref, erule view_below', erule incopen, erule view_below', erule decopen,
    erule view_below, erule openv, erule view_below, erule gettype, erule view_below, erule truncate, erule view_below, erule readlink, erule view_below, erule namefile,
    erule view_below, erule creat, erule view_below, erule symlink, erule view_below, erule mkdir, erule view_below, erule link, erule view_below, erule remove,
    erule view_below, erule rmdir, erule view_below, erule rename, erule view_below, erule lookup, erule view_below, erule lookparent, erule view_below, erule sync,
    erule view_below, erule getroot, erule view_below, erule create, erule view_below, erule copyout)

lemma sync_loop_view: "sync_loop ops kds s = Some s' \<Longrightarrow> vol ops s' = vol ops s \<and> alive s' = alive s"
  by (induction kds arbitrary: s) (auto simp: kern_simps dest!: sync split: option.splits)

lemma vfs_sync_view: "vfs_sync ops st = Some (e, st') \<Longrightarrow> view st' = view st"
  by (auto simp: vfs_sync_def below'_Some lock_Some elim!: bindE dest!: sync_loop_view) (simp add: view_def)

lemma getroot_loop_view: "getroot_loop ops nm kds s = Some (r, s') \<Longrightarrow> vol ops s' = vol ops s \<and> alive s' = alive s"
  by (induction kds arbitrary: s) (auto simp: kern_simps dest!: incref getroot split: option.splits if_splits)

lemma vfs_getroot_view: "vfs_getroot ops nm st = Some (r, st') \<Longrightarrow> view st' = view st"
  by (auto simp: vfs_getroot_def below_Some lock_Some elim!: bindE dest!: getroot_loop_view) (simp add: view_def)

lemma vfs_getdevname_view: "vfs_getdevname f st = Some (r, st') \<Longrightarrow> view st' = view st"
  by (auto simp: vfs_getdevname_def kern_simps Let_def lock_Some view_def)

lemma vfs_getcurdir_view: "vfs_getcurdir ops st = Some (r, st') \<Longrightarrow> view st' = view st"
  by (auto simp: vfs_getcurdir_def kern_simps dest!: view_calls split: option.splits)

end

context file_layer
begin

lemma getdevice_view: "getdevice ops p st = Some (r, st') \<Longrightarrow> view st' = view st"
  by (auto simp: getdevice_def Let_def lock_Some view_def elim!: bindE dest!: view_calls vfs_getcurdir_view vfs_getroot_view split: option.splits if_splits prod.splits)

lemma vfs_lookparent_view: "vfs_lookparent ops p n st = Some (r, st') \<Longrightarrow> view st' = view st"
  by (auto simp: vfs_lookparent_def kern_simps dest!: view_calls getdevice_view split: if_splits prod.splits)

lemma vfs_lookup_view: "vfs_lookup ops p st = Some (r, st') \<Longrightarrow> view st' = view st"
  by (auto simp: vfs_lookup_def kern_simps dest!: view_calls getdevice_view split: if_splits prod.splits)

lemma vfs_setcurdir_view: "vfs_setcurdir ops v st = Some (e, st') \<Longrightarrow> view st' = view st"
  by (auto simp: vfs_setcurdir_def kern_simps Let_def dest!: view_calls split: if_splits prod.splits option.splits)

lemma vfs_clearcurdir_view: "vfs_clearcurdir ops st = Some (e, st') \<Longrightarrow> view st' = view st"
  by (auto simp: vfs_clearcurdir_def kern_simps Let_def dest!: view_calls split: option.splits)

lemma vfs_chdir_view: "vfs_chdir ops p st = Some (e, st') \<Longrightarrow> view st' = view st"
  by (auto simp: vfs_chdir_def kern_simps dest!: view_calls vfs_lookup_view vfs_setcurdir_view split: if_splits prod.splits)

lemma vfs_getcwd_view: "vfs_getcwd ops u st = Some (e, st') \<Longrightarrow> view st' = view st"
  by (auto simp: vfs_getcwd_def kern_simps dest!: view_calls vfs_getcurdir_view vfs_getdevname_view split: if_splits prod.splits option.splits)

lemma change_bootfs_view: "change_bootfs ops v st = Some st' \<Longrightarrow> view st' = view st"
  by (auto simp: change_bootfs_def Let_def lock_Some view_def elim!: bindE dest!: view_calls split: option.splits)

lemma vfs_setbootfs_view: "vfs_setbootfs ops p st = Some (e, st') \<Longrightarrow> view st' = view st"
  by (auto simp: vfs_setbootfs_def kern_simps Let_def dest!: vfs_chdir_view vfs_getcurdir_view change_bootfs_view split: if_splits prod.splits)

lemma open_vnode_view: "open_vnode ops p fl st = Some (r, st') \<Longrightarrow> view st' = view st"
  by (auto simp: open_vnode_def kern_simps Let_def dest!: view_calls vfs_lookup_view vfs_lookparent_view split: if_splits prod.splits)

lemma open_file_view: "open_file ops v fl w st = Some (r, st') \<Longrightarrow> view st' = view st"
  by (auto simp: open_file_def kern_simps dest!: view_calls split: if_splits prod.splits)

lemma vfs_open_view: "vfs_open ops p fl st = Some (r, st') \<Longrightarrow> view st' = view st"
  by (auto simp: vfs_open_def kern_simps Let_def dest!: open_vnode_view open_file_view split: if_splits prod.splits)

lemma vfs_close_view: "vfs_close ops v st = Some st' \<Longrightarrow> view st' = view st"
  by (auto simp: vfs_close_def kern_simps dest!: view_calls)

lemma vfs_remove_view: "vfs_remove ops p st = Some (e, st') \<Longrightarrow> view st' = view st"
  by (auto simp: vfs_remove_def kern_simps dest!: view_calls vfs_lookparent_view split: if_splits prod.splits)

lemma vfs_rename_view: "vfs_rename ops p p2 st = Some (e, st') \<Longrightarrow> view st' = view st"
  by (auto simp: vfs_rename_def kern_simps dest!: view_calls vfs_lookparent_view split: if_splits prod.splits)

lemma vfs_link_view: "vfs_link ops p p2 st = Some (e, st') \<Longrightarrow> view st' = view st"
  by (auto simp: vfs_link_def kern_simps dest!: view_calls vfs_lookparent_view vfs_lookup_view split: if_splits prod.splits)

lemma vfs_symlink_view: "vfs_symlink ops t p st = Some (e, st') \<Longrightarrow> view st' = view st"
  by (auto simp: vfs_symlink_def kern_simps dest!: view_calls vfs_lookparent_view split: if_splits prod.splits)

lemma vfs_readlink_view: "vfs_readlink ops p u st = Some (r, st') \<Longrightarrow> view st' = view st"
  by (auto simp: vfs_readlink_def kern_simps dest!: view_calls vfs_lookup_view split: if_splits prod.splits)

lemma vfs_mkdir_view: "vfs_mkdir ops p st = Some (e, st') \<Longrightarrow> view st' = view st"
  by (auto simp: vfs_mkdir_def kern_simps dest!: view_calls vfs_lookparent_view split: if_splits prod.splits)

lemma vfs_rmdir_view: "vfs_rmdir ops p st = Some (e, st') \<Longrightarrow> view st' = view st"
  by (auto simp: vfs_rmdir_def kern_simps dest!: view_calls vfs_lookparent_view split: if_splits prod.splits)

end

section \<open>The table\<close>

lemma unambiguous_nth:
  "unambiguous ops s kds \<longleftrightarrow> (\<forall>i j. i < length kds \<and> j < length kds \<and> i \<noteq> j \<longrightarrow> names ops s (kds ! i) \<inter> names ops s (kds ! j) = {})"
proof (induction kds)
  case (Cons k kds)
  have "(\<forall>i j. i < length (k # kds) \<and> j < length (k # kds) \<and> i \<noteq> j \<longrightarrow> names ops s ((k # kds) ! i) \<inter> names ops s ((k # kds) ! j) = {}) \<longleftrightarrow>
      (\<forall>i < length kds. names ops s k \<inter> names ops s (kds ! i) = {}) \<and>
      (\<forall>i j. i < length kds \<and> j < length kds \<and> i \<noteq> j \<longrightarrow> names ops s (kds ! i) \<inter> names ops s (kds ! j) = {})"
    (is "?l = ?r")
  proof
    assume l: ?l
    show ?r
    proof (intro conjI allI impI)
      fix i assume "i < length kds"
      then show "names ops s k \<inter> names ops s (kds ! i) = {}" using l [rule_format, of 0 "Suc i"] by simp
    next
      fix i j assume "i < length kds \<and> j < length kds \<and> i \<noteq> j"
      then show "names ops s (kds ! i) \<inter> names ops s (kds ! j) = {}" using l [rule_format, of "Suc i" "Suc j"] by simp
    qed
  next
    assume ?r
    then show ?l by (auto simp: nth_Cons Int_commute split: nat.splits)
  qed
  then show ?case using Cons.IH by (simp add: all_set_conv_all_nth)
qed simp

definition one_each :: "('v, 'f, 'd) knowndev list \<Rightarrow> bool" where
  "one_each kds \<longleftrightarrow> (\<forall>i j f. i < length kds \<and> j < length kds \<and> kd_fs (kds ! i) = Some f \<and> kd_fs (kds ! j) = Some f \<longrightarrow> i = j)"

lemma findmount_loop_Some:
  "findmount_loop nm k kds = Some i \<Longrightarrow> k \<le> i \<and> i - k < length kds \<and> kd_name (kds ! (i - k)) = nm \<and> kd_rawname (kds ! (i - k)) \<noteq> None"
proof (induction kds arbitrary: k)
  case (Cons d ds)
  show ?case
  proof (cases "kd_rawname d \<noteq> None \<and> nm = kd_name d")
    case False
    then have "findmount_loop nm (k + 1) ds = Some i" using Cons.prems by (simp split: if_splits)
    note ih = Cons.IH [OF this]
    then have "i - k = Suc (i - (k + 1))" by linarith
    then show ?thesis using ih by simp
  qed (use Cons.prems in auto)
qed simp

text \<open>A mount gives no name away that another entry has.\<close>

definition fresh_volume :: "('v, 'f, 'd, 's) vops \<Rightarrow> ('v, 'f, 'd, 's) vfs \<Rightarrow> ('v, 'f, 'd, 's) vfs \<Rightarrow> bool" where
  "fresh_volume ops st st' \<longleftrightarrow>
     (\<forall>i j f x. i < length (knowndevs st) \<and> j < length (knowndevs st) \<and> i \<noteq> j \<and> kd_fs (knowndevs st ! i) = None \<and>
        kd_fs (knowndevs st' ! i) = Some f \<and> vol ops (store st') f = Some x \<longrightarrow> x \<notin> names ops (store st) (knowndevs st ! j))"

context file_layer
begin

definition table_ok :: "('v, 'f, 'd, 's) vfs \<Rightarrow> bool" where
  "table_ok st \<longleftrightarrow> unambiguous ops (store st) (knowndevs st) \<and> one_each (knowndevs st) \<and>
     (\<forall>i f. i < length (knowndevs st) \<and> kd_fs (knowndevs st ! i) = Some f \<longrightarrow> f \<in> alive (store st))"

lemma table_ok_view: "view st' = view st \<Longrightarrow> table_ok st \<Longrightarrow> table_ok st'"
  by (simp add: table_ok_def view_def unambiguous_cong [of ops "store st'" "store st"])

lemma vfs_adddev_table:
  assumes ok: "table_ok st" and add: "vfs_adddev ops km n d m st = Some (e, st')"
  shows "table_ok st'"
proof -
  let ?kd = "\<lambda>v. \<lparr>kd_name = n, kd_rawname = if m then mkrawname (am_rawname km) n else None, kd_device = Some d, kd_vnode = v, kd_fs = None\<rparr>"
  have "view st' = view st \<or> (\<exists>v. vol ops (store st') = vol ops (store st) \<and> alive (store st') = alive (store st) \<and>
      \<not> badnames_loop ops (Some n) (kd_rawname (?kd v)) None (knowndevs st) (store st') \<and> knowndevs st' = knowndevs st @ [?kd v])"
    using add by (auto simp: vfs_adddev_def vfs_doadd_def kern_simps Let_def lock_Some badnames_def view_def dest!: view_calls split: if_splits)
  then show ?thesis
  proof (elim disjE exE conjE)
    fix v assume v: "vol ops (store st') = vol ops (store st)" "alive (store st') = alive (store st)"
      and bad: "\<not> badnames_loop ops (Some n) (kd_rawname (?kd v)) None (knowndevs st) (store st')" and st': "knowndevs st' = knowndevs st @ [?kd v]"
    have "names ops (store st') (?kd v) = {n} \<union> set_option (kd_rawname (?kd v))" by (simp add: names_def)
    then have "\<forall>k\<in>set (knowndevs st). names ops (store st') k \<inter> names ops (store st') (?kd v) = {}" using bad unfolding badnames_loop_iff by auto
    then have "unambiguous ops (store st') (knowndevs st')" using ok unfolding st' unambiguous_append table_ok_def unambiguous_cong [OF v(1)] by simp
    moreover have "one_each (knowndevs st')" using ok by (auto simp: st' table_ok_def one_each_def nth_append less_Suc_eq split: if_splits)
    moreover have "i < length (knowndevs st') \<and> kd_fs (knowndevs st' ! i) = Some f \<longrightarrow> f \<in> alive (store st')" for i f
      using ok by (auto simp: st' v table_ok_def nth_append less_Suc_eq)
    ultimately show ?thesis by (simp add: table_ok_def)
  qed (rule table_ok_view [OF _ ok])
qed

end

text \<open>Giving an entry another file system, or none.\<close>

lemma names_set_fs: "names ops s (kd\<lparr>kd_fs := fo\<rparr>) = {kd_name kd} \<union> set_option (kd_rawname kd) \<union> (case fo of None \<Rightarrow> {} | Some f \<Rightarrow> set_option (vol ops s f))"
  by (simp add: names_def vol_def split: option.split)

lemma names_other_fs: "(\<And>f. kd_fs kd = Some f \<Longrightarrow> vol ops s' f = vol ops s f) \<Longrightarrow> names ops s' kd = names ops s kd"
  by (auto simp: names_def vol_def split: option.splits)

context file_layer
begin

lemma vfs_mount_cases:
  assumes mnt: "vfs_mount ops n mountfunc st = Some (e, st')"
  shows "view st' = view st \<or> (\<exists>i f d. i < length (knowndevs st) \<and> kd_fs (knowndevs st ! i) = None \<and>
    mountfunc d (store st) = Some ((EOK, Some f), store st') \<and> knowndevs st' = (knowndevs st)[i := (knowndevs st ! i)\<lparr>kd_fs := Some f\<rparr>])"
proof (cases "findmount_loop n 0 (knowndevs st)")
  case None
  then show ?thesis using mnt by (auto simp: vfs_mount_def findmount_def vfs_calls view_def)
next
  case (Some i)
  then have i: "i < length (knowndevs st)" using findmount_loop_Some [OF Some] by simp
  show ?thesis
  proof (cases "kd_fs (knowndevs st ! i) = None")
    case False
    then show ?thesis using mnt Some by (auto simp: vfs_mount_def findmount_def vfs_calls view_def)
  next
    case True
    obtain d where d: "kd_device (knowndevs st ! i) = Some d" using mnt Some True by (cases "kd_device (knowndevs st ! i)") (simp_all add: vfs_mount_def findmount_def vfs_calls)
    obtain e1 fo s1 where m: "mountfunc d (store st) = Some ((e1, fo), s1)"
      using mnt Some True d by (cases "mountfunc d (store st)") (auto simp: vfs_mount_def findmount_def vfs_calls)
    show ?thesis
    proof (cases "e1 = EOK")
      case e1: True
      then have "fo \<noteq> None \<and> st' = st\<lparr>knowndevs_lock := False, store := s1, knowndevs := (knowndevs st)[i := (knowndevs st ! i)\<lparr>kd_fs := fo\<rparr>]\<rparr>"
        using mnt Some True d m by (auto simp: vfs_mount_def findmount_def vfs_calls)
      then show ?thesis using m i True e1 by auto
    next
      case False
      then have "st' = st\<lparr>knowndevs_lock := False, store := s1\<rparr>" "\<not> knowndevs_lock st" using mnt Some True d m by (auto simp: vfs_mount_def findmount_def vfs_calls)
      then show ?thesis using False mount [OF m] by (simp add: view_def)
    qed
  qed
qed

lemma vfs_mount_table:
  assumes ok: "table_ok st" and mnt: "vfs_mount ops n mountfunc st = Some (e, st')" and fresh: "fresh_volume ops st st'"
  shows "table_ok st'"
proof -
  note vfs_mount_cases [OF mnt]
  then show ?thesis
  proof (elim disjE exE conjE)
    fix i f d assume i: "i < length (knowndevs st)" "kd_fs (knowndevs st ! i) = None" and m: "mountfunc d (store st) = Some ((EOK, Some f), store st')"
      and st': "knowndevs st' = (knowndevs st)[i := (knowndevs st ! i)\<lparr>kd_fs := Some f\<rparr>]"
    have f: "f \<notin> alive (store st)" "alive (store st') = insert f (alive (store st))" "\<And>g. g \<noteq> f \<Longrightarrow> vol ops (store st') g = vol ops (store st) g"
      using mount [OF m] by simp_all
    have other: "kd_fs (knowndevs st ! j) \<noteq> Some f" if "j < length (knowndevs st)" for j using ok f(1) that by (auto simp: table_ok_def)
    have same: "names ops (store st') (knowndevs st ! j) = names ops (store st) (knowndevs st ! j)" if "j < length (knowndevs st)" for j
      using other [OF that] f(3) by (intro names_other_fs) auto
    have nm: "names ops (store st) (knowndevs st ! i) = {kd_name (knowndevs st ! i)} \<union> set_option (kd_rawname (knowndevs st ! i))" using i(2) by (simp add: names_def)
    have new: "names ops (store st') (knowndevs st' ! i) \<inter> names ops (store st) (knowndevs st ! j) = {}" if j: "j < length (knowndevs st)" "i \<noteq> j" for j
    proof -
      have "names ops (store st) (knowndevs st ! i) \<inter> names ops (store st) (knowndevs st ! j) = {}"
        using ok i(1) j by (simp add: table_ok_def unambiguous_nth)
      moreover have "x \<notin> names ops (store st) (knowndevs st ! j)" if "vol ops (store st') f = Some x" for x
        using fresh i j that st' unfolding fresh_volume_def by (metis nth_list_update_eq knowndev.select_convs(5) knowndev.surjective knowndev.update_convs(5))
      ultimately show ?thesis using i(1) nm by (auto simp: st' names_set_fs)
    qed
    have "unambiguous ops (store st') (knowndevs st')" unfolding unambiguous_nth
    proof (intro allI impI)
      fix j k assume jk: "j < length (knowndevs st') \<and> k < length (knowndevs st') \<and> j \<noteq> k"
      then have l: "j < length (knowndevs st)" "k < length (knowndevs st)" "j \<noteq> k" by (simp_all add: st')
      have "names ops (store st) (knowndevs st ! j) \<inter> names ops (store st) (knowndevs st ! k) = {}" using ok l by (simp add: table_ok_def unambiguous_nth)
      then show "names ops (store st') (knowndevs st' ! j) \<inter> names ops (store st') (knowndevs st' ! k) = {}"
        using new [of j] new [of k] same l by (cases "i = j"; cases "i = k") (auto simp: st')
    qed
    moreover have "one_each (knowndevs st')" unfolding one_each_def
    proof (intro allI impI)
      fix j k g assume a: "j < length (knowndevs st') \<and> k < length (knowndevs st') \<and> kd_fs (knowndevs st' ! j) = Some g \<and> kd_fs (knowndevs st' ! k) = Some g"
      show "j = k" using a ok other [of j] other [of k] i(1) by (cases "j = i"; cases "k = i") (auto simp: st' table_ok_def one_each_def)
    qed
    moreover have "k < length (knowndevs st') \<and> kd_fs (knowndevs st' ! k) = Some g \<longrightarrow> g \<in> alive (store st')" for k g
      using ok i(1) by (cases "k = i") (auto simp: st' f(2) table_ok_def)
    ultimately show ?thesis by (simp add: table_ok_def)
  qed (rule table_ok_view [OF _ ok])
qed

end

text \<open>\<open>dropped s kds s' kds'\<close>: some of the file systems have been unmounted; those that are still mounted are as they were.\<close>

definition dropped :: "('v, 'f, 'd, 's) vops \<Rightarrow> ('s \<Rightarrow> 'f set) \<Rightarrow> 's \<Rightarrow> ('v, 'f, 'd) knowndev list \<Rightarrow> 's \<Rightarrow> ('v, 'f, 'd) knowndev list \<Rightarrow> bool" where
  "dropped ops alive s kds s' kds' \<longleftrightarrow> length kds' = length kds \<and>
     (\<forall>i<length kds. (kds' ! i = kds ! i \<or> kds' ! i = (kds ! i)\<lparr>kd_fs := None\<rparr>) \<and>
        (\<forall>f. kd_fs (kds' ! i) = Some f \<longrightarrow> vol ops s' f = vol ops s f \<and> (f \<in> alive s \<longrightarrow> f \<in> alive s')))"

context file_layer
begin

lemma dropped_table:
  assumes ok: "table_ok st" and d: "dropped ops alive (store st) (knowndevs st) (store st') (knowndevs st')"
  shows "table_ok st'"
proof -
  note len = d [unfolded dropped_def, THEN conjunct1] and D = d [unfolded dropped_def, THEN conjunct2, rule_format]
  have fs: "kd_fs (knowndevs st ! i) = Some f" if "i < length (knowndevs st)" "kd_fs (knowndevs st' ! i) = Some f" for i f
    using D [OF that(1)] that(2) by auto
  have sub: "names ops (store st') (knowndevs st' ! i) \<subseteq> names ops (store st) (knowndevs st ! i)" if i: "i < length (knowndevs st)" for i
  proof (cases "kd_fs (knowndevs st' ! i)")
    case None
    then show ?thesis using D [OF i] by (auto simp: names_def)
  next
    case (Some f)
    then have "knowndevs st' ! i = knowndevs st ! i" "vol ops (store st') f = vol ops (store st) f" using D [OF i] by auto
    then show ?thesis using Some names_other_fs [of "knowndevs st ! i" ops "store st'" "store st"] by simp
  qed
  have "unambiguous ops (store st') (knowndevs st')"
    using ok len sub unambiguous_mono [of ops "store st'" "store st" "knowndevs st" "knowndevs st'"] by (simp add: table_ok_def list_all2_conv_all_nth)
  moreover have "one_each (knowndevs st')" using ok fs len unfolding table_ok_def one_each_def by metis
  moreover have "i < length (knowndevs st') \<and> kd_fs (knowndevs st' ! i) = Some f \<longrightarrow> f \<in> alive (store st')" for i f
    using ok fs [of i f] len D [of i] by (auto simp: table_ok_def)
  ultimately show ?thesis by (simp add: table_ok_def)
qed

text \<open>One file system unmounted.\<close>

lemma dropped_one:
  assumes ok: "one_each kds" and i: "i < length kds" "kd_fs (kds ! i) = Some f" and u: "fsop_unmount ops f s = Some (EOK, s')"
  shows "dropped ops alive s kds s' (kds[i := (kds ! i)\<lparr>kd_fs := None\<rparr>])"
proof -
  have law: "alive s' = alive s - {f}" "\<And>g. g \<noteq> f \<Longrightarrow> vol ops s' g = vol ops s g" using unmount [OF u] by simp_all
  have "vol ops s' g = vol ops s g \<and> (g \<in> alive s \<longrightarrow> g \<in> alive s')"
    if "j < length kds" "kd_fs (kds[i := (kds ! i)\<lparr>kd_fs := None\<rparr>] ! j) = Some g" for j g
  proof -
    have "j \<noteq> i" using that i(1) by auto
    then have "g \<noteq> f" using that i ok by (auto simp: one_each_def)
    then show ?thesis using law by simp
  qed
  then show ?thesis using i(1) by (auto simp: dropped_def nth_list_update)
qed

lemma vfs_unmount_table:
  assumes ok: "table_ok st" and u: "vfs_unmount ops n st = Some (e, st')"
  shows "table_ok st'"
proof (cases "findmount_loop n 0 (knowndevs st)")
  case None
  then have "view st' = view st" using u by (auto simp: vfs_unmount_def findmount_def vfs_calls view_def)
  then show ?thesis by (rule table_ok_view [OF _ ok])
next
  case (Some i)
  then have i: "i < length (knowndevs st)" using findmount_loop_Some [OF Some] by simp
  show ?thesis
  proof (cases "kd_fs (knowndevs st ! i)")
    case None
    then have "view st' = view st" using u Some by (auto simp: vfs_unmount_def findmount_def vfs_calls view_def)
    then show ?thesis by (rule table_ok_view [OF _ ok])
  next
    case f: (Some f)
    note run = vfs_unmount_def findmount_def vfs_calls Some f
    obtain e1 s1 where s1: "fsop_sync ops f (store st) = Some (e1, s1)" using u by (cases "fsop_sync ops f (store st)") (auto simp: run)
    have v1: "vol ops s1 = vol ops (store st)" "alive s1 = alive (store st)" using sync [OF s1] by simp_all
    show ?thesis
    proof (cases "e1 = EOK")
      case False
      then have "st' = st\<lparr>knowndevs_lock := False, store := s1\<rparr>" "\<not> knowndevs_lock st" using u s1 by (auto simp: run)
      then have "view st' = view st" using v1 by (simp add: view_def)
      then show ?thesis by (rule table_ok_view [OF _ ok])
    next
      case e1: True
      obtain e2 s2 where s2: "fsop_unmount ops f s1 = Some (e2, s2)" using u s1 e1 by (cases "fsop_unmount ops f s1") (auto simp: run)
      show ?thesis
      proof (cases "e2 = EOK")
        case False
        then have "st' = st\<lparr>knowndevs_lock := False, store := s2\<rparr>" "\<not> knowndevs_lock st" using u s1 e1 s2 by (auto simp: run)
        then have "view st' = view st" using v1 False unmount [OF s2] by (simp add: view_def)
        then show ?thesis by (rule table_ok_view [OF _ ok])
      next
        case True
        then have st': "store st' = s2" "knowndevs st' = (knowndevs st)[i := (knowndevs st ! i)\<lparr>kd_fs := None\<rparr>]" using u s1 e1 s2 by (auto simp: run)
        have "one_each (knowndevs st)" using ok by (simp add: table_ok_def)
        from dropped_one [OF this i f, of s1 s2] have "dropped ops alive (store st) (knowndevs st) s2 (knowndevs st')"
          using s2 True v1 by (simp add: st' dropped_def)
        then show ?thesis using dropped_table [OF ok] st'(1) by simp
      qed
    qed
  qed
qed

end

lemma drop_same: "kd\<lparr>kd_fs := None\<rparr> = kd \<longleftrightarrow> kd_fs kd = None"
  by (cases kd) auto

lemma one_each_Cons: "one_each (k # ks) \<longleftrightarrow> one_each ks \<and> (\<forall>f i. kd_fs k = Some f \<and> i < length ks \<longrightarrow> kd_fs (ks ! i) \<noteq> Some f)"
proof
  assume l: "one_each (k # ks)"
  have "one_each ks" unfolding one_each_def
  proof (intro allI impI)
    fix i j f assume "i < length ks \<and> j < length ks \<and> kd_fs (ks ! i) = Some f \<and> kd_fs (ks ! j) = Some f"
    then show "i = j" using l [unfolded one_each_def, rule_format, of "Suc i" "Suc j" f] by simp
  qed
  moreover have "kd_fs k = Some f \<and> i < length ks \<longrightarrow> kd_fs (ks ! i) \<noteq> Some f" for f i using l [unfolded one_each_def, rule_format, of 0 "Suc i" f] by auto
  ultimately show "one_each ks \<and> (\<forall>f i. kd_fs k = Some f \<and> i < length ks \<longrightarrow> kd_fs (ks ! i) \<noteq> Some f)" by blast
qed (auto simp: one_each_def nth_Cons split: nat.splits)

context file_layer
begin

lemma unmount_dev_cases:
  assumes "unmount_dev ops dev s = Some (dev', s')"
  shows "dev' = dev \<and> vol ops s' = vol ops s \<and> alive s' = alive s \<or>
    (\<exists>f. kd_fs dev = Some f \<and> dev' = dev\<lparr>kd_fs := None\<rparr> \<and> alive s' = alive s - {f} \<and> (\<forall>g. g \<noteq> f \<longrightarrow> vol ops s' g = vol ops s g))"
proof (cases "kd_fs dev = None \<or> kd_rawname dev = None")
  case True
  then show ?thesis using assms by (auto simp: unmount_dev_def split: option.splits)
next
  case False
  then obtain f where f: "kd_fs dev = Some f" "kd_rawname dev \<noteq> None" by auto
  obtain e1 s1 where s1: "(do { (result, s) \<leftarrow> fsop_sync ops f s; if result \<noteq> EOK then fsop_sync ops f s else Some (result, s) }) = Some (e1, s1)"
    and s': "(if e1 \<noteq> EOK then Some (dev, s1) else do { (result, s) \<leftarrow> fsop_unmount ops f s1; Some (if result \<noteq> EOK then dev else dev\<lparr>kd_fs := None\<rparr>, s) }) = Some (dev', s')"
    using assms f by (auto simp: unmount_dev_def kern_simps)
  have v: "vol ops s1 = vol ops s" "alive s1 = alive s" using s1 by (auto simp: kern_simps dest!: sync split: if_splits)
  show ?thesis
  proof (cases "e1 = EOK")
    case True
    then obtain e2 where e2: "fsop_unmount ops f s1 = Some (e2, s')" "dev' = (if e2 \<noteq> EOK then dev else dev\<lparr>kd_fs := None\<rparr>)" using s' by (auto simp: kern_simps)
    then show ?thesis using unmount [OF e2(1)] f v by (cases "e2 = EOK") simp_all
  qed (use s' v in simp)
qed

lemma unmountall_loop_dropped:
  "unmountall_loop ops kds s = Some (kds', s') \<Longrightarrow> one_each kds \<Longrightarrow> dropped ops alive s kds s' kds' \<and>
   (\<forall>f. (\<forall>i<length kds. kd_fs (kds ! i) \<noteq> Some f) \<longrightarrow> vol ops s' f = vol ops s f \<and> (f \<in> alive s \<longrightarrow> f \<in> alive s'))"
proof (induction kds arbitrary: s kds')
  case (Cons k ks)
  obtain k' s1 ks' where k: "unmount_dev ops k s = Some (k', s1)" "unmountall_loop ops ks s1 = Some (ks', s')" "kds' = k' # ks'"
    using Cons.prems(1) by (auto simp: kern_simps)
  have one: "one_each ks" and other: "\<And>f i. kd_fs k = Some f \<Longrightarrow> i < length ks \<Longrightarrow> kd_fs (ks ! i) \<noteq> Some f"
    using Cons.prems(2) by (auto simp: one_each_Cons)
  note ih = Cons.IH [OF k(2) one]
  note D = ih [THEN conjunct1, unfolded dropped_def] and E = ih [THEN conjunct2, rule_format]
  have s1: "vol ops s1 g = vol ops s g \<and> (g \<in> alive s \<longrightarrow> g \<in> alive s1)" if "kd_fs k \<noteq> Some g \<or> k' = k \<and> kd_fs k \<noteq> None" for g
    using unmount_dev_cases [OF k(1)] that by (auto simp: drop_same)
  have new: "k' = k \<or> k' = k\<lparr>kd_fs := None\<rparr>" using unmount_dev_cases [OF k(1)] by auto
  have "dropped ops alive s (k # ks) s' (k' # ks')" unfolding dropped_def
  proof (intro conjI allI impI)
    show "length (k' # ks') = length (k # ks)" using D by simp
    fix i assume i: "i < length (k # ks)"
    show "(k' # ks') ! i = (k # ks) ! i \<or> (k' # ks') ! i = ((k # ks) ! i)\<lparr>kd_fs := None\<rparr>" using i D new by (cases i) auto
    fix f assume f: "kd_fs ((k' # ks') ! i) = Some f"
    have "vol ops s' f = vol ops s1 f \<and> (f \<in> alive s1 \<longrightarrow> f \<in> alive s') \<and> (kd_fs k \<noteq> Some f \<or> k' = k \<and> kd_fs k \<noteq> None)"
    proof (cases i)
      case 0
      then have "k' = k" "kd_fs k = Some f" using f new by auto
      then show ?thesis using E [of f] other by simp
    next
      case (Suc j)
      then have j: "j < length ks" "kd_fs (ks' ! j) = Some f" using i f by simp_all
      moreover have "kd_fs (ks ! j) = Some f" using D j by auto
      ultimately show ?thesis using D other [of f j] by auto
    qed
    then show "vol ops s' f = vol ops s f" "f \<in> alive s \<Longrightarrow> f \<in> alive s'" using s1 [of f] by auto
  qed
  moreover have "vol ops s' f = vol ops s f \<and> (f \<in> alive s \<longrightarrow> f \<in> alive s')" if a: "\<forall>i<length (k # ks). kd_fs ((k # ks) ! i) \<noteq> Some f" for f
  proof -
    have "kd_fs k \<noteq> Some f" using a [rule_format, of 0] by simp
    moreover have "kd_fs (ks ! i) \<noteq> Some f" if "i < length ks" for i using a [rule_format, of "Suc i"] that by simp
    ultimately show ?thesis using s1 [of f] E [of f] by simp
  qed
  ultimately show ?case using k(3) by blast
qed (simp add: dropped_def)

lemma vfs_unmountall_table:
  assumes ok: "table_ok st" and u: "vfs_unmountall ops st = Some (e, st')"
  shows "table_ok st'"
proof -
  have "unmountall_loop ops (knowndevs st) (store st) = Some (knowndevs st', store st')" using u by (auto simp: vfs_unmountall_def vfs_calls)
  then show ?thesis using dropped_table [OF ok] unmountall_loop_dropped ok by (simp add: table_ok_def)
qed

end

section \<open>Any sequence of operations\<close>

text \<open>The operations of the layer, with their arguments and results left open; a volume may be mounted when its name is free.\<close>

inductive vfs_step :: "('v, 'f, 'd, 's) vops \<Rightarrow> ('d \<Rightarrow> 's \<Rightarrow> ((errno \<times> 'f option) \<times> 's) kern) \<Rightarrow> ('v, 'f, 'd, 's) vfs \<Rightarrow> ('v, 'f, 'd, 's) vfs \<Rightarrow> bool"
  for ops :: "('v, 'f, 'd, 's) vops" and mountfunc where
  adddev: "vfs_adddev ops km n d m st = Some (e, st') \<Longrightarrow> vfs_step ops mountfunc st st'"
| mount: "vfs_mount ops n mountfunc st = Some (e, st') \<Longrightarrow> fresh_volume ops st st' \<Longrightarrow> vfs_step ops mountfunc st st'"
| unmount: "vfs_unmount ops n st = Some (e, st') \<Longrightarrow> vfs_step ops mountfunc st st'"
| unmountall: "vfs_unmountall ops st = Some (e, st') \<Longrightarrow> vfs_step ops mountfunc st st'"
| sync: "vfs_sync ops st = Some (e, st') \<Longrightarrow> vfs_step ops mountfunc st st'"
| getroot: "vfs_getroot ops n st = Some (v, st') \<Longrightarrow> vfs_step ops mountfunc st st'"
| getdevname: "vfs_getdevname f st = Some (nm, st') \<Longrightarrow> vfs_step ops mountfunc st st'"
| lookup: "vfs_lookup ops p st = Some (v, st') \<Longrightarrow> vfs_step ops mountfunc st st'"
| lookparent: "vfs_lookparent ops p len st = Some (pn, st') \<Longrightarrow> vfs_step ops mountfunc st st'"
| chdir: "vfs_chdir ops p st = Some (e, st') \<Longrightarrow> vfs_step ops mountfunc st st'"
| clearcurdir: "vfs_clearcurdir ops st = Some (e, st') \<Longrightarrow> vfs_step ops mountfunc st st'"
| getcwd: "vfs_getcwd ops u st = Some (r, st') \<Longrightarrow> vfs_step ops mountfunc st st'"
| setbootfs: "vfs_setbootfs ops p st = Some (e, st') \<Longrightarrow> vfs_step ops mountfunc st st'"
| clearbootfs: "vfs_clearbootfs ops st = Some st' \<Longrightarrow> vfs_step ops mountfunc st st'"
| opens: "vfs_open ops p fl st = Some (v, st') \<Longrightarrow> vfs_step ops mountfunc st st'"
| closes: "vfs_close ops vn st = Some st' \<Longrightarrow> vfs_step ops mountfunc st st'"
| remove: "vfs_remove ops p st = Some (e, st') \<Longrightarrow> vfs_step ops mountfunc st st'"
| rename: "vfs_rename ops p p2 st = Some (e, st') \<Longrightarrow> vfs_step ops mountfunc st st'"
| link: "vfs_link ops p p2 st = Some (e, st') \<Longrightarrow> vfs_step ops mountfunc st st'"
| symlink: "vfs_symlink ops p p2 st = Some (e, st') \<Longrightarrow> vfs_step ops mountfunc st st'"
| readlink: "vfs_readlink ops p u st = Some (r, st') \<Longrightarrow> vfs_step ops mountfunc st st'"
| mkdir: "vfs_mkdir ops p st = Some (e, st') \<Longrightarrow> vfs_step ops mountfunc st st'"
| rmdir: "vfs_rmdir ops p st = Some (e, st') \<Longrightarrow> vfs_step ops mountfunc st st'"

context file_layer
begin

lemma vfs_step_table: "vfs_step ops mountfunc st st' \<Longrightarrow> table_ok st \<Longrightarrow> table_ok st'"
proof (induction rule: vfs_step.induct)
  case (mount n st e st')
  then show ?case using vfs_mount_table by blast
next
  case (clearbootfs st st')
  then show ?case using change_bootfs_view table_ok_view by (simp add: vfs_clearbootfs_def)
qed (use vfs_adddev_table vfs_unmount_table vfs_unmountall_table in \<open>blast intro: table_ok_view vfs_sync_view vfs_getroot_view vfs_getdevname_view
  vfs_lookup_view vfs_lookparent_view vfs_chdir_view vfs_clearcurdir_view vfs_getcwd_view vfs_setbootfs_view vfs_open_view vfs_close_view vfs_remove_view
  vfs_rename_view vfs_link_view vfs_symlink_view vfs_readlink_view vfs_mkdir_view vfs_rmdir_view\<close>)+

lemma vfs_step_locks: "vfs_step ops mountfunc st st' \<Longrightarrow> knowndevs_lock st' = knowndevs_lock st \<and> bootfs_lock st' = bootfs_lock st"
proof -
  have v: "view st' = view st \<Longrightarrow> knowndevs_lock st' = knowndevs_lock st \<and> bootfs_lock st' = bootfs_lock st" for st st' by (simp add: view_def)
  show "vfs_step ops mountfunc st st' \<Longrightarrow> knowndevs_lock st' = knowndevs_lock st \<and> bootfs_lock st' = bootfs_lock st"
  proof (induction rule: vfs_step.induct)
    case (adddev km n d m st e st')
    then show ?case by (auto simp: vfs_adddev_def vfs_doadd_def Let_def lock_Some below_Some badnames_def elim!: bindE split: if_splits prod.splits)
  next
    case (mount n st e st')
    then show ?case by (auto simp: vfs_mount_def Let_def lock_Some below_Some findmount_def elim!: bindE split: if_splits prod.splits option.splits)
  next
    case (unmount n st e st')
    then show ?case by (auto simp: vfs_unmount_def Let_def lock_Some below_Some findmount_def elim!: bindE split: if_splits prod.splits option.splits)
  next
    case (unmountall st e st')
    then show ?case by (auto simp: vfs_unmountall_def lock_Some elim!: bindE)
  next
    case (clearbootfs st st')
    then have "view st' = view st" using change_bootfs_view by (simp add: vfs_clearbootfs_def)
    then show ?case by (rule v)
  qed (use v in \<open>blast intro: vfs_sync_view vfs_getroot_view vfs_getdevname_view
    vfs_lookup_view vfs_lookparent_view vfs_chdir_view vfs_clearcurdir_view vfs_getcwd_view vfs_setbootfs_view vfs_open_view vfs_close_view vfs_remove_view
    vfs_rename_view vfs_link_view vfs_symlink_view vfs_readlink_view vfs_mkdir_view vfs_rmdir_view\<close>)+
qed

lemma vfs_steps_locks: "(vfs_step ops mountfunc)\<^sup>*\<^sup>* st st' \<Longrightarrow> knowndevs_lock st' = knowndevs_lock st \<and> bootfs_lock st' = bootfs_lock st"
  by (induction rule: rtranclp_induct) (auto dest: vfs_step_locks)

lemma vfs_steps_table: "(vfs_step ops mountfunc)\<^sup>*\<^sup>* st st' \<Longrightarrow> table_ok st \<Longrightarrow> table_ok st'"
  by (induction rule: rtranclp_induct) (auto intro: vfs_step_table)

text \<open>So a name stands for the one entry that has it, wherever in the table that is.\<close>

lemma vfs_getroot_unique:
  assumes "table_ok st" and "\<not> knowndevs_lock st" and kd: "kd \<in> set (knowndevs st)" "devname \<in> names ops (store st) kd"
  shows "vfs_getroot ops devname st = do { (r, s) \<leftarrow> resolved ops devname kd (store st); Some (r, st\<lparr>store := s\<rparr>) }"
proof -
  have l: "getroot_loop ops devname (knowndevs st) (store st) = resolved ops devname kd (store st)"
    using getroot_loop_resolved [OF _ kd] assms(1) by (simp add: table_ok_def)
  have "st\<lparr>knowndevs_lock := True, store := s, knowndevs_lock := False\<rparr> = st\<lparr>store := s\<rparr>" for s using assms(2) by (cases st) simp
  then show ?thesis using assms(2) l
    by (cases "resolved ops devname kd (store st)") (auto simp: vfs_getroot_def knowndevs_acquire_def knowndevs_release_def below_def)
qed

end

context file_layer
begin

lemma vfs_bootstrap_table:
  assumes "vfs_bootstrap ops mem km nulldev s = Some st"
  shows "table_ok st \<and> \<not> knowndevs_lock st \<and> \<not> bootfs_lock st"
proof -
  let ?st0 = "\<lparr>knowndevs = [], knowndevs_lock = False, bootfs_vnode = None, bootfs_lock = False, t_cwd = None, store = s\<rparr>"
  obtain e where e: "vfs_adddev ops km [110, 117, 108, 108] nulldev False ?st0 = Some (e, st)"
    using assms by (auto simp: vfs_bootstrap_def vfs_initbootfs_def devnull_create_def kassert_def elim!: bindE split: prod.splits if_splits)
  have "table_ok ?st0" by (simp add: table_ok_def one_each_def)
  then show ?thesis using vfs_adddev_table [OF _ e] vfs_step_locks [OF vfs_step.adddev [OF e]] by simp
qed

lemma vfs_getroot_missing:
  assumes "\<not> knowndevs_lock st" and "\<forall>kd\<in>set (knowndevs st). devname \<notin> names ops (store st) kd"
  shows "vfs_getroot ops devname st = Some ((ENODEV, None), st)"
proof -
  have "st\<lparr>knowndevs_lock := False\<rparr> = st" using assms(1) by (cases st) simp
  then show ?thesis using assms(1) getroot_loop_missing [OF assms(2)] by (simp add: vfs_getroot_def knowndevs_acquire_def knowndevs_release_def below_def)
qed

end

end
