(* ===== verification/Sfs_Fs.thy ===== *)
theory Sfs_Fs
  imports Sfs_Vnode
begin

text \<open>
  \<^verbatim>\<open>src/src/kern/fs/sfs/sfs_fs.c\<close>: mounting, syncing and unmounting SFS.

  \<open>sfs_domount\<close> takes the disk and returns the mounted file system, which contains it.
\<close>

section \<open>The code\<close>

text \<open>The loop of \<^verbatim>\<open>sfs_mapio\<close>; \<open>bitdata\<close> is the data of the bitmap, of which block \<open>j\<close> comes next.\<close>

fun mapio_loop :: "uio_rw \<Rightarrow> nat \<Rightarrow> nat \<Rightarrow> u8 list \<Rightarrow> 'a lhd_scheme \<Rightarrow> (errno \<times> u8 list \<times> 'a lhd_scheme) kern" where
  "mapio_loop rw j 0 bitdata st = Some (EOK, bitdata, st)"
| "mapio_loop rw j (Suc n) bitdata st =
     do {
       kassert ((j + 1) * SFS_BLOCKSIZE \<le> length bitdata);
       let ptr = take SFS_BLOCKSIZE (drop (j * SFS_BLOCKSIZE) bitdata);
       (result, ptr, st1) \<leftarrow>
         (if rw = UIO_READ then sfs_rblock ptr (SFS_MAP_LOCATION + of_nat j) st
          else do { (result, st1) \<leftarrow> sfs_wblock ptr (SFS_MAP_LOCATION + of_nat j) st; Some (result, ptr, st1) });
       let bitdata = take (j * SFS_BLOCKSIZE) bitdata @ ptr @ drop ((j + 1) * SFS_BLOCKSIZE) bitdata;
       if result \<noteq> EOK then Some (result, bitdata, st1) else mapio_loop rw (j + 1) n bitdata st1
     }"

definition sfs_mapio :: "u32 \<Rightarrow> uio_rw \<Rightarrow> bitmap \<Rightarrow> 'a lhd_scheme \<Rightarrow> (errno \<times> bitmap \<times> 'a lhd_scheme) kern" where
  "sfs_mapio nblocks rw freemap st =
     do {
       let mapsize = SFS_BITBLOCKS nblocks;
       (result, bitdata, st1) \<leftarrow> mapio_loop rw 0 (unat mapsize) (bitmap_getdata freemap) st;
       Some (result, freemap\<lparr>b_v := bitdata\<rparr>, st1)
     }"

text \<open>The first loop of \<^verbatim>\<open>sfs_sync\<close>: the results of \<^verbatim>\<open>VOP_FSYNC\<close> are not looked at.\<close>

function sync_vnodes :: "int \<Rightarrow> int \<Rightarrow> 'a sfs_fs_scheme \<Rightarrow> 'a sfs_fs_scheme kern" where
  "sync_vnodes num i st =
     (if i < num then
        (case array_getguy (sfs_vnodes st) i of
           None \<Rightarrow> None
         | Some v \<Rightarrow> (case VOP_FSYNC v st of None \<Rightarrow> None | Some (result, st1) \<Rightarrow> sync_vnodes num (i + 1) st1))
      else Some st)"
  by pat_completeness auto
termination by (relation "measure (\<lambda>(num, i, st). nat (num - i))") auto

declare sync_vnodes.simps [simp del]

definition sfs_sync :: "'a sfs_fs_scheme \<Rightarrow> (errno \<times> 'a sfs_fs_scheme) kern" where
  "sfs_sync st =
     do {
       st1 \<leftarrow> sync_vnodes (array_getnum (sfs_vnodes st)) 0 st;
       (result, st2) \<leftarrow>
         (if sfs_freemapdirty st1 then
            do {
              (result, fm, st2) \<leftarrow> sfs_mapio (sp_nblocks (sfs_super st1)) UIO_WRITE (sfs_freemap st1) st1;
              Some (result, if result = EOK then st2\<lparr>sfs_freemapdirty := False\<rparr> else st2)
            }
          else Some (EOK, st1));
       if result \<noteq> EOK then Some (result, st2)
       else if sfs_superdirty st2 then
         do {
           (result, st3) \<leftarrow> sfs_wblock (enc_super (sfs_super st2)) SFS_SB_LOCATION st2;
           if result \<noteq> EOK then Some (result, st3) else Some (EOK, st3\<lparr>sfs_superdirty := False\<rparr>)
         }
       else Some (EOK, st2)
     }"

definition sfs_getvolname :: "'a sfs_fs_scheme \<Rightarrow> u8 list" where
  "sfs_getvolname st = cstr (sp_volname (sfs_super st))"

definition sfs_unmount :: "sfs_fs \<Rightarrow> (errno \<times> (sfs_fs + lhd)) kern" where
  "sfs_unmount st =
     (if array_getnum (sfs_vnodes st) > 0 then Some (EBUSY, Inl st)
      else do {
        kassert (\<not> sfs_superdirty st);
        kassert (\<not> sfs_freemapdirty st);
        Some (EOK, Inr (lhd.truncate st))
      })"

text \<open>The allocations of a mount: the \<^verbatim>\<open>struct sfs_fs\<close>, the vnode table, and the two of the bitmap.\<close>

record mount_mem =
  km_fs :: bool
  km_array :: bool
  km_bitmap :: bool
  km_bits :: bool

definition sfs_domount :: "mount_mem \<Rightarrow> u32 \<Rightarrow> lhd \<Rightarrow> (errno \<times> (lhd + sfs_fs)) kern" where
  "sfs_domount km d_blocksize dev =
     (if d_blocksize \<noteq> of_nat SFS_BLOCKSIZE then Some (ENXIO, Inl dev)
      else if \<not> km_fs km then Some (ENOMEM, Inl dev)
      else
        (case array_create (km_array km) of
           None \<Rightarrow> Some (ENOMEM, Inl dev)
         | Some vnodes \<Rightarrow>
             do {
               (result, buf, dev1) \<leftarrow> sfs_rblock (replicate SFS_BLOCKSIZE 0) SFS_SB_LOCATION dev;
               let super = dec_super buf;
               if result \<noteq> EOK then Some (result, Inl dev1)
               else if sp_magic super \<noteq> SFS_MAGIC then Some (EINVAL, Inl dev1)
               else do {
                 let super = super\<lparr>sp_volname := (sp_volname super)[SFS_VOLNAME_SIZE - 1 := 0]\<rparr>;
                 freemap \<leftarrow> bitmap_create (km_bitmap km) (km_bits km) (SFS_BITMAPSIZE (sp_nblocks super));
                 (case freemap of
                    None \<Rightarrow> Some (ENOMEM, Inl dev1)
                  | Some fm \<Rightarrow>
                      do {
                        (result, fm, dev2) \<leftarrow> sfs_mapio (sp_nblocks super) UIO_READ fm dev1;
                        if result \<noteq> EOK then Some (result, Inl dev2)
                        else Some (EOK, Inr (lhd.extend dev2 (sfs_fs.fields super False fm False vnodes (\<lambda>_. None) 0)))
                      })
               }
             }))"

section \<open>The free map on disk\<close>

text \<open>Block \<open>k\<close> of the data of the bitmap.\<close>

definition chunk :: "nat \<Rightarrow> u8 list \<Rightarrow> u8 list" where
  "chunk k d = take 512 (drop (k * 512) d)"

lemma concat_chunks: "length d = n * 512 \<Longrightarrow> concat (map (\<lambda>k. chunk k d) [0..<n]) = d"
proof -
  have "m * 512 \<le> length d \<Longrightarrow> concat (map (\<lambda>k. chunk k d) [0..<m]) = take (m * 512) d" for m
    by (induction m) (simp_all add: chunk_def take_add [symmetric] add.commute)
  from this [of n] show "length d = n * 512 \<Longrightarrow> ?thesis" by simp
qed

lemma map_block: "2 + j < 2 ^ 22 \<Longrightarrow> unat (SFS_MAP_LOCATION + of_nat j) = 2 + j"
  by (simp add: SFS_MAP_LOCATION_def unat_word_ariths unat_of_nat)

lemma mapio_write:
  assumes "calm st" and "(j + n) * 512 \<le> length d" and "2 + j + n \<le> length (lh_sectors st)"
  shows "mapio_loop UIO_WRITE j n d st = Some (EOK, d, foldl (\<lambda>s k. dsk_wr (2 + k) (chunk k d) s) st [j..<j + n])"
  using assms
proof (induction n arbitrary: j st)
  case (Suc n)
  let ?c = "take SFS_BLOCKSIZE (drop (j * SFS_BLOCKSIZE) d)"
  have c: "?c = chunk j d" "length ?c = 512" using Suc.prems(2) by (simp_all add: chunk_def SFS_BLOCKSIZE_def)
  have "2 + j < 2 ^ 22" using Suc.prems(1,3) by (simp add: calm_def lhd_ok_def)
  then have u: "unat (SFS_MAP_LOCATION + of_nat j) = 2 + j" by (rule map_block)
  have "sfs_wblock ?c (SFS_MAP_LOCATION + of_nat j) st = Some (EOK, dsk_wr (2 + j) (chunk j d) st)"
    using wblock_calm [of st "SFS_MAP_LOCATION + of_nat j" ?c] Suc.prems u c by simp
  moreover have "take (j * 512) d @ take 512 (drop (j * 512) d) @ drop ((j + 1) * 512) d = d"
    using append_take_drop_id [of "j * 512" d] append_take_drop_id [of 512 "drop (j * 512) d"] by (simp add: add.commute)
  moreover have "mapio_loop UIO_WRITE (j + 1) n d (dsk_wr (2 + j) (chunk j d) st) =
      Some (EOK, d, foldl (\<lambda>s k. dsk_wr (2 + k) (chunk k d) s) (dsk_wr (2 + j) (chunk j d) st) [j + 1..<j + 1 + n])"
    by (rule Suc.IH) (use Suc.prems c in simp_all)
  moreover have "[j..<j + Suc n] = j # [j + 1..<j + 1 + n]" by (simp add: upt_conv_Cons)
  ultimately show ?case using Suc.prems(2) by (simp add: SFS_BLOCKSIZE_def del: upt_Suc)
qed simp

lemma mapio_read:
  assumes "calm st" and "length d = m * 512" and "j + n = m" and "2 + m \<le> length (lh_sectors st)"
    and "take (j * 512) d = concat (map (\<lambda>k. lh_sectors st ! (2 + k)) [0..<j])"
  shows "mapio_loop UIO_READ j n d st =
    Some (EOK, concat (map (\<lambda>k. lh_sectors st ! (2 + k)) [0..<m]), foldl (\<lambda>s k. dsk_rd (2 + k) s) st [j..<m])"
  using assms
proof (induction n arbitrary: j d st)
  case (Suc n)
  let ?c = "take SFS_BLOCKSIZE (drop (j * SFS_BLOCKSIZE) d)"
  have m: "(j + 1) * 512 \<le> m * 512" using Suc.prems(3) by (intro mult_right_mono) simp_all
  then have c: "length ?c = 512" using Suc.prems(2) by (simp add: SFS_BLOCKSIZE_def)
  have "2 + j < 2 ^ 22" using Suc.prems(1,3,4) by (simp add: calm_def lhd_ok_def)
  then have u: "unat (SFS_MAP_LOCATION + of_nat j) = 2 + j" by (rule map_block)
  let ?b = "lh_sectors st ! (2 + j)" let ?s = "dsk_rd (2 + j) st"
  have r: "sfs_rblock ?c (SFS_MAP_LOCATION + of_nat j) st = Some (EOK, ?b, ?s)"
    using rblock_calm [of st "SFS_MAP_LOCATION + of_nat j" ?c] Suc.prems u c by simp
  have lb: "length ?b = 512" using calm_block [OF Suc.prems(1), of "2 + j"] Suc.prems(3,4) by simp
  let ?d = "take (j * 512) d @ ?b @ drop ((j + 1) * 512) d"
  have lt: "length (take (j * 512) d) = j * 512" using Suc.prems(2) m by simp
  have "mapio_loop UIO_READ (j + 1) n ?d ?s =
      Some (EOK, concat (map (\<lambda>k. lh_sectors ?s ! (2 + k)) [0..<m]), foldl (\<lambda>s k. dsk_rd (2 + k) s) ?s [j + 1..<m])"
  proof (rule Suc.IH)
    show "length ?d = m * 512" using Suc.prems(2) m lb lt by simp
    show "take ((j + 1) * 512) ?d = concat (map (\<lambda>k. lh_sectors ?s ! (2 + k)) [0..<j + 1])"
      using Suc.prems(5) lb lt by (simp add: add.commute)
  qed (use Suc.prems in simp_all)
  then show ?case using r m Suc.prems(2,3) by (simp add: SFS_BLOCKSIZE_def upt_conv_Cons)
qed simp

lemma foldl_dsk_wr_only:
  "\<exists>ss b s r. foldl (\<lambda>s k. dsk_wr (2 + k) (f k) s) st ks = st\<lparr>lh_sectors := ss, lh_buf := b, lh_stat := s, lh_result := r\<rparr>"
proof (induction ks arbitrary: st)
  case Nil
  then show ?case by (intro exI [of _ "lh_sectors st"] exI [of _ "lh_buf st"] exI [of _ "lh_stat st"] exI [of _ "lh_result st"]) simp
next
  case (Cons k ks)
  from Cons [of "dsk_wr (2 + k) (f k) st"] show ?case by (auto simp: dsk_wr_def)
qed

lemma foldl_dsk_rd_only:
  "\<exists>b s r. foldl (\<lambda>s k. dsk_rd (2 + k) s) st ks = st\<lparr>lh_buf := b, lh_stat := s, lh_result := r\<rparr>"
proof (induction ks arbitrary: st)
  case Nil
  then show ?case by (intro exI [of _ "lh_buf st"] exI [of _ "lh_stat st"] exI [of _ "lh_result st"]) simp
next
  case (Cons k ks)
  from Cons [of "dsk_rd (2 + k) st"] show ?case by (auto simp: dsk_rd_def)
qed

lemma foldl_dsk_wr_sectors:
  assumes "2 + j + n \<le> length (lh_sectors st)"
  shows "length (lh_sectors (foldl (\<lambda>s k. dsk_wr (2 + k) (f k) s) st [j..<j + n])) = length (lh_sectors st) \<and>
    lh_sectors (foldl (\<lambda>s k. dsk_wr (2 + k) (f k) s) st [j..<j + n]) ! i =
      (if 2 + j \<le> i \<and> i < 2 + j + n then f (i - 2) else lh_sectors st ! i)"
  using assms by (induction n) (auto simp: nth_list_update)

lemma calm_foldl_dsk_wr: "calm st \<Longrightarrow> (\<And>k. k \<in> set ks \<Longrightarrow> length (f k) = 512) \<Longrightarrow> calm (foldl (\<lambda>s k. dsk_wr (2 + k) (f k) s) st ks)"
  by (induction ks arbitrary: st) simp_all

lemma bitmap_size:
  assumes "unat nb < 2 ^ 22"
  shows "unat (SFS_BITMAPSIZE nb) = (unat nb + 4095) div 4096 * 4096" "unat (SFS_BITBLOCKS nb) = (unat nb + 4095) div 4096"
proof -
  define q where "q = (unat nb + 4095) div 4096"
  have nb: "unat nb < 4194304" using assms by simp
  have bb: "SFS_BLOCKBITS = 4096" by (simp add: SFS_BLOCKBITS_def SFS_BLOCKSIZE_def)
  have a: "nb + 4096 - 1 = nb + 4095" by simp
  have "unat (nb + 4095) = unat nb + 4095" using nb by (simp add: unat_word_ariths)
  then have d: "unat ((nb + 4096 - 1) div 4096) = q" unfolding a unat_div q_def by simp
  have "q * 4096 \<le> unat nb + 4095" by (simp add: q_def)
  then have "q * 4096 < 4294967296" using nb by linarith
  then have s: "unat (SFS_BITMAPSIZE nb) = q * 4096"
    unfolding SFS_BITMAPSIZE_def SFS_ROUNDUP_def bb unat_word_ariths(2) d by simp
  have "unat (SFS_BITBLOCKS nb) = unat (SFS_BITMAPSIZE nb) div unat (4096 :: u32)" unfolding SFS_BITBLOCKS_def bb by (rule unat_div)
  then show "unat (SFS_BITMAPSIZE nb) = (unat nb + 4095) div 4096 * 4096" "unat (SFS_BITBLOCKS nb) = (unat nb + 4095) div 4096"
    using s unfolding q_def [symmetric] by simp_all
qed

lemma bitmap_create_blocks:
  assumes "unat nb < 2 ^ 22"
  shows "bitmap_create True True (SFS_BITMAPSIZE nb) = Some (Some \<lparr>b_nbits = SFS_BITMAPSIZE nb, b_v = replicate (unat (SFS_BITBLOCKS nb) * 512) 0\<rparr>)"
proof -
  let ?s = "SFS_BITMAPSIZE nb"
  define q where "q = (unat nb + 4095) div 4096"
  note sz = bitmap_size [OF assms, folded q_def]
  have nb: "unat nb < 4194304" using assms by simp
  have "q * 4096 \<le> unat nb + 4095" by (simp add: q_def)
  then have n: "q * 4096 < 4294967000" "q < 1026" using nb by linarith+
  have a: "?s + 8 - 1 = ?s + 7" by simp
  have "unat (?s + 7) = q * 4096 + 7" using sz(1) n(1) by (simp add: unat_word_ariths)
  then have "unat ((?s + 7) div 8) = (q * 4096 + 7) div 8" unfolding unat_div by simp
  moreover have "(q * 4096 + 7) div 8 = q * 512" by linarith
  ultimately have w: "unat (divroundup8 ?s) = q * 512" unfolding divroundup8_def a by (rule trans)
  have "unat (?s div 8) = q * 4096 div 8" unfolding unat_div sz(1) by simp
  then have "\<not> ?s div 8 < divroundup8 ?s" unfolding word_less_nat_alt w by simp
  moreover have u: "uint (divroundup8 ?s) = int (q * 512)" using w by (metis of_nat_unat)
  moreover have "int (q * 512) mod 2 ^ 32 \<le> RAM_MAX" using n(2) by (simp add: RAM_MAX_def)
  ultimately show ?thesis unfolding bitmap_create_def Let_def u w sz(2) by (simp add: kmalloc_ok_def RAM_MAX_def)
qed

section \<open>Syncing\<close>

text \<open>The vnodes \<open>vs\<close> are in memory, usable, of different inodes, and the clean ones agree with the disk.\<close>

definition vnode_synced :: "'a sfs_fs_scheme \<Rightarrow> sfs_vnode \<Rightarrow> bool" where
  "vnode_synced st sv \<longleftrightarrow> lh_sectors st ! unat (sv_ino sv) = enc_inode (sv_i sv)"

definition loaded_ok :: "'a sfs_fs_scheme \<Rightarrow> nat list \<Rightarrow> bool" where
  "loaded_ok st vs \<longleftrightarrow> list_all (\<lambda>v. case sfs_v st v of None \<Rightarrow> False | Some sv \<Rightarrow> vn_live (sv_v sv) \<and> inode_wf (sv_i sv) \<and>
       unat (sv_ino sv) < length (lh_sectors st) \<and> (sv_dirty sv \<or> vnode_synced st sv)) vs \<and>
     distinct vs \<and> distinct (map (\<lambda>v. map_option sv_ino (sfs_v st v)) vs)"

lemma fsync_ok:
  assumes "calm st" and "sfs_v st v = Some sv" and "vn_live (sv_v sv)" and "inode_wf (sv_i sv)" and "unat (sv_ino sv) < length (lh_sectors st)"
  shows "VOP_FSYNC v st = Some (EOK, if sv_dirty sv then sv_put v (sv\<lparr>sv_dirty := False\<rparr>) (dsk_wr (unat (sv_ino sv)) (enc_inode (sv_i sv)) st) else st)"
  using assms wblock_calm [of st "sv_ino sv" "enc_inode (sv_i sv)"]
  by (auto simp: VOP_FSYNC_def vop_ops_def sfs_fsync_def sfs_sync_inode_def vn_live_def)

text \<open>What syncing leaves alone.\<close>

definition synckeep :: "'a sfs_fs_scheme \<Rightarrow> _" where
  "synckeep st = (sfs_super st, sfs_superdirty st, sfs_freemap st, sfs_freemapdirty st, sfs_vnodes st, sfs_vnext st, length (lh_sectors st))"

lemma sync_vnodes_from:
  assumes "a_inv (sfs_vnodes st)" and "calm st" and "i \<le> length (a_list (sfs_vnodes st))" and "loaded_ok st (drop i (a_list (sfs_vnodes st)))"
  shows "\<exists>st'. sync_vnodes (int (length (a_list (sfs_vnodes st)))) (int i) st = Some st' \<and> calm st' \<and> synckeep st' = synckeep st \<and>
    (\<forall>v\<in>set (drop i (a_list (sfs_vnodes st))). \<forall>sv. sfs_v st v = Some sv \<longrightarrow> vnode_synced st' sv) \<and>
    (\<forall>k. (\<forall>v\<in>set (drop i (a_list (sfs_vnodes st))). \<forall>sv. sfs_v st v = Some sv \<longrightarrow> unat (sv_ino sv) \<noteq> k) \<longrightarrow>
      lh_sectors st' ! k = lh_sectors st ! k)"
  using assms
proof (induction "length (a_list (sfs_vnodes st)) - i" arbitrary: i st)
  case 0
  then show ?case by (subst sync_vnodes.simps) auto
next
  case (Suc n)
  define l where "l = a_list (sfs_vnodes st)"
  define v where "v = l ! i"
  have i: "i < length l" using Suc.hyps(2) by (simp add: l_def)
  then have dl: "drop i l = v # drop (Suc i) l" by (simp add: v_def Cons_nth_drop_Suc)
  have ok: "loaded_ok st (v # drop (Suc i) l)" using Suc.prems(4) dl by (simp add: l_def)
  then obtain sv where sv: "sfs_v st v = Some sv" "vn_live (sv_v sv)" "inode_wf (sv_i sv)" "unat (sv_ino sv) < length (lh_sectors st)"
    "sv_dirty sv \<or> vnode_synced st sv" by (auto simp: loaded_ok_def split: option.splits)
  define st1 where "st1 = (if sv_dirty sv then sv_put v (sv\<lparr>sv_dirty := False\<rparr>) (dsk_wr (unat (sv_ino sv)) (enc_inode (sv_i sv)) st) else st)"
  have f: "VOP_FSYNC v st = Some (EOK, st1)" unfolding st1_def by (rule fsync_ok [OF Suc.prems(2) sv(1-4)])
  have k1: "synckeep st1 = synckeep st" "calm st1" "sfs_vnodes st1 = sfs_vnodes st"
    using Suc.prems(2) sv(3) by (simp add: st1_def synckeep_def dsk_wr_def, simp_all add: st1_def)
  have s1: "lh_sectors st1 ! k = (if k = unat (sv_ino sv) then enc_inode (sv_i sv) else lh_sectors st ! k)" for k
    using sv(4,5) by (auto simp: st1_def vnode_synced_def)
  have other: "sfs_v st1 w = sfs_v st w" if "w \<in> set (drop (Suc i) l)" for w
    using ok that by (auto simp: st1_def loaded_ok_def)
  have ino: "unat (sv_ino sw) \<noteq> unat (sv_ino sv)" if "w \<in> set (drop (Suc i) l)" "sfs_v st w = Some sw" for w sw
    using ok that sv(1) by (force simp: loaded_ok_def word_unat_eq_iff [symmetric])
  have ok1: "loaded_ok st1 (drop (Suc i) l)"
    unfolding loaded_ok_def
  proof (intro conjI)
    show "list_all (\<lambda>v. case sfs_v st1 v of None \<Rightarrow> False | Some sv \<Rightarrow> vn_live (sv_v sv) \<and> inode_wf (sv_i sv) \<and>
       unat (sv_ino sv) < length (lh_sectors st1) \<and> (sv_dirty sv \<or> vnode_synced st1 sv)) (drop (Suc i) l)"
      unfolding list_all_iff
    proof (intro ballI)
      fix w assume w: "w \<in> set (drop (Suc i) l)"
      then obtain sw where "sfs_v st w = Some sw" "vn_live (sv_v sw)" "inode_wf (sv_i sw)" "unat (sv_ino sw) < length (lh_sectors st)"
        "sv_dirty sw \<or> vnode_synced st sw" using ok by (auto simp: loaded_ok_def list_all_iff split: option.splits)
      then show "case sfs_v st1 w of None \<Rightarrow> False | Some sv \<Rightarrow> vn_live (sv_v sv) \<and> inode_wf (sv_i sv) \<and>
          unat (sv_ino sv) < length (lh_sectors st1) \<and> (sv_dirty sv \<or> vnode_synced st1 sv)"
        using other [OF w] ino [OF w] k1(1) s1 by (auto simp: vnode_synced_def synckeep_def)
    qed
    have m: "map (\<lambda>v. map_option sv_ino (sfs_v st1 v)) (drop (Suc i) l) = map (\<lambda>v. map_option sv_ino (sfs_v st v)) (drop (Suc i) l)"
      using other by simp
    show "distinct (map (\<lambda>v. map_option sv_ino (sfs_v st1 v)) (drop (Suc i) l))" unfolding m using ok by (simp add: loaded_ok_def)
    show "distinct (drop (Suc i) l)" using ok by (simp add: loaded_ok_def)
  qed
  have "\<exists>st'. sync_vnodes (int (length l)) (int (Suc i)) st1 = Some st' \<and> calm st' \<and> synckeep st' = synckeep st1 \<and>
    (\<forall>v\<in>set (drop (Suc i) l). \<forall>sv. sfs_v st1 v = Some sv \<longrightarrow> vnode_synced st' sv) \<and>
    (\<forall>k. (\<forall>v\<in>set (drop (Suc i) l). \<forall>sv. sfs_v st1 v = Some sv \<longrightarrow> unat (sv_ino sv) \<noteq> k) \<longrightarrow> lh_sectors st' ! k = lh_sectors st1 ! k)"
    using Suc.hyps(1) [of st1 "Suc i"] Suc.hyps(2) Suc.prems(1) k1 ok1 i by (simp add: l_def)
  then obtain st' where r: "sync_vnodes (int (length l)) (int (Suc i)) st1 = Some st'" "calm st'" "synckeep st' = synckeep st1"
    "\<And>w sw. w \<in> set (drop (Suc i) l) \<Longrightarrow> sfs_v st1 w = Some sw \<Longrightarrow> vnode_synced st' sw"
    "\<And>k. (\<forall>v\<in>set (drop (Suc i) l). \<forall>sv. sfs_v st1 v = Some sv \<longrightarrow> unat (sv_ino sv) \<noteq> k) \<Longrightarrow> lh_sectors st' ! k = lh_sectors st1 ! k" by blast
  have "array_getguy (sfs_vnodes st) (int i) = Some v" using array_getguy_rep [OF a_inv_rep [OF Suc.prems(1)], of i] i by (simp add: l_def v_def)
  then have "sync_vnodes (int (length l)) (int i) st = Some st'" using f r(1) i by (subst sync_vnodes.simps) (simp add: add.commute)
  moreover have "vnode_synced st' sv" using r(5) [of "unat (sv_ino sv)"] ino other s1 [of "unat (sv_ino sv)"] by (auto simp: vnode_synced_def)
  moreover have "lh_sectors st' ! k = lh_sectors st ! k" if "\<forall>v\<in>set (drop i l). \<forall>sv. sfs_v st v = Some sv \<longrightarrow> unat (sv_ino sv) \<noteq> k" for k
    using that r(5) [of k] s1 [of k] other sv(1) unfolding dl by auto
  ultimately show ?case unfolding l_def [symmetric] dl using r(2-4) k1 sv(1) other by (intro exI [of _ st']) auto
qed

text \<open>A mounted volume in order: the bitmap covers the disk, superblock and map have their places, the vnodes
  in memory are of inodes outside of these places, and what is not marked dirty is on disk.\<close>

abbreviation map_blocks :: "'a sfs_fs_scheme \<Rightarrow> nat" where
  "map_blocks st \<equiv> unat (SFS_BITBLOCKS (sp_nblocks (sfs_super st)))"

definition super_ok :: "sfs_super \<Rightarrow> bool" where
  "super_ok s \<longleftrightarrow> super_wf s \<and> sp_magic s = SFS_MAGIC \<and> sp_volname s ! 31 = 0"

definition volume_ok :: "'a sfs_fs_scheme \<Rightarrow> bool" where
  "volume_ok st \<longleftrightarrow> calm st \<and> super_ok (sfs_super st) \<and> a_inv (sfs_vnodes st) \<and> loaded_ok st (a_list (sfs_vnodes st)) \<and>
     unat (sp_nblocks (sfs_super st)) \<le> length (lh_sectors st) \<and> 2 + map_blocks st \<le> length (lh_sectors st) \<and>
     b_nbits (sfs_freemap st) = SFS_BITMAPSIZE (sp_nblocks (sfs_super st)) \<and> length (b_v (sfs_freemap st)) = map_blocks st * 512 \<and>
     list_all (\<lambda>v. \<forall>sv. sfs_v st v = Some sv \<longrightarrow> unat (sv_ino sv) = 1 \<or> 2 + map_blocks st \<le> unat (sv_ino sv)) (a_list (sfs_vnodes st)) \<and>
     (sfs_superdirty st \<or> lh_sectors st ! 0 = enc_super (sfs_super st)) \<and>
     (sfs_freemapdirty st \<or> list_all (\<lambda>k. lh_sectors st ! (2 + k) = chunk k (b_v (sfs_freemap st))) [0..<map_blocks st])"

lemma sync_map:
  assumes "calm st" and "length (b_v (sfs_freemap st)) = map_blocks st * 512" and "2 + map_blocks st \<le> length (lh_sectors st)"
    and "sfs_freemapdirty st"
  shows "\<exists>ss b s r. sfs_mapio (sp_nblocks (sfs_super st)) UIO_WRITE (sfs_freemap st) st =
      Some (EOK, sfs_freemap st, st\<lparr>lh_sectors := ss, lh_buf := b, lh_stat := s, lh_result := r\<rparr>) \<and> length ss = length (lh_sectors st) \<and>
      calm (st\<lparr>lh_sectors := ss, lh_buf := b, lh_stat := s, lh_result := r\<rparr>) \<and>
      (\<forall>i. ss ! i = (if 2 \<le> i \<and> i < 2 + map_blocks st then chunk (i - 2) (b_v (sfs_freemap st)) else lh_sectors st ! i))"
proof -
  let ?d = "b_v (sfs_freemap st)" let ?n = "map_blocks st"
  let ?f = "foldl (\<lambda>s k. dsk_wr (2 + k) (chunk k ?d) s) st [0..<0 + ?n]"
  have "length (chunk k ?d) = 512" if "k < ?n" for k
  proof -
    have "(k + 1) * 512 \<le> ?n * 512" using that by (intro mult_right_mono) simp_all
    then show ?thesis using assms(2) by (simp add: chunk_def)
  qed
  then have c: "calm ?f" using assms(1) by (intro calm_foldl_dsk_wr) auto
  have w: "mapio_loop UIO_WRITE 0 ?n ?d st = Some (EOK, ?d, ?f)" using mapio_write [of st 0 ?n ?d] assms by simp
  from foldl_dsk_wr_only [where ks = "[0..<0 + ?n]" and st = st and f = "\<lambda>k. chunk k ?d"] obtain ss b s r where
    f: "?f = st\<lparr>lh_sectors := ss, lh_buf := b, lh_stat := s, lh_result := r\<rparr>" by blast
  have "lh_sectors ?f = ss" unfolding f by simp
  then have "length ss = length (lh_sectors st)" "\<And>i. ss ! i = (if 2 \<le> i \<and> i < 2 + ?n then chunk (i - 2) ?d else lh_sectors st ! i)"
    using foldl_dsk_wr_sectors [of 0 ?n st "\<lambda>k. chunk k ?d"] assms(3) by auto
  then show ?thesis
    using w c unfolding f by (intro exI [of _ ss] exI [of _ b] exI [of _ s] exI [of _ r]) (simp add: sfs_mapio_def bitmap_getdata_def)
qed

lemma sync_ok:
  assumes "volume_ok st"
  obtains st' where "sfs_sync st = Some (EOK, st')" "calm st'" "\<not> sfs_superdirty st'" "\<not> sfs_freemapdirty st'" "sfs_super st' = sfs_super st"
    "sfs_freemap st' = sfs_freemap st" "length (lh_sectors st') = length (lh_sectors st)" "lh_sectors st' ! 0 = enc_super (sfs_super st)"
    "\<forall>k<map_blocks st. lh_sectors st' ! (2 + k) = chunk k (b_v (sfs_freemap st))"
    "\<forall>v\<in>set (a_list (sfs_vnodes st)). \<forall>sv. sfs_v st v = Some sv \<longrightarrow> vnode_synced st' sv"
proof -
  let ?l = "a_list (sfs_vnodes st)" let ?n = "map_blocks st" let ?d = "b_v (sfs_freemap st)"
  have V: "calm st" "super_wf (sfs_super st)" "a_inv (sfs_vnodes st)" "loaded_ok st (drop 0 ?l)" "2 + ?n \<le> length (lh_sectors st)" "length ?d = ?n * 512"
    "sfs_superdirty st \<or> lh_sectors st ! 0 = enc_super (sfs_super st)"
    "\<And>k. k < ?n \<Longrightarrow> sfs_freemapdirty st \<or> lh_sectors st ! (2 + k) = chunk k ?d"
    "\<And>v sv. v \<in> set ?l \<Longrightarrow> sfs_v st v = Some sv \<Longrightarrow> unat (sv_ino sv) = 1 \<or> 2 + ?n \<le> unat (sv_ino sv)"
    using assms by (auto simp: volume_ok_def super_ok_def list_all_iff)
  from sync_vnodes_from [OF V(3,1) _ V(4)] obtain st1 where s: "sync_vnodes (int (length ?l)) 0 st = Some st1" "calm st1" "synckeep st1 = synckeep st"
    "\<And>v sv. v \<in> set ?l \<Longrightarrow> sfs_v st v = Some sv \<Longrightarrow> vnode_synced st1 sv"
    "\<And>k. (\<And>v sv. v \<in> set ?l \<Longrightarrow> sfs_v st v = Some sv \<Longrightarrow> unat (sv_ino sv) \<noteq> k) \<Longrightarrow> lh_sectors st1 ! k = lh_sectors st ! k" by auto
  have k1: "sfs_super st1 = sfs_super st" "sfs_superdirty st1 = sfs_superdirty st" "sfs_freemap st1 = sfs_freemap st"
    "sfs_freemapdirty st1 = sfs_freemapdirty st" "length (lh_sectors st1) = length (lh_sectors st)" using s(3) by (simp_all add: synckeep_def)
  have res: "lh_sectors st1 ! k = lh_sectors st ! k" if "k = 0 \<or> 2 \<le> k \<and> k < 2 + ?n" for k
    using s(5) [of k] V(9) that by force
  define st2 where "st2 = (if sfs_freemapdirty st1
    then (snd (snd (the (sfs_mapio (sp_nblocks (sfs_super st1)) UIO_WRITE (sfs_freemap st1) st1))))\<lparr>sfs_freemapdirty := False\<rparr> else st1)"
  have m: "(if sfs_freemapdirty st1 then
            do {
              (result, fm, st2) \<leftarrow> sfs_mapio (sp_nblocks (sfs_super st1)) UIO_WRITE (sfs_freemap st1) st1;
              Some (result, if result = EOK then st2\<lparr>sfs_freemapdirty := False\<rparr> else st2)
            }
          else Some (EOK, st1)) = Some (EOK, st2) \<and> calm st2 \<and> \<not> sfs_freemapdirty st2 \<and> sfs_super st2 = sfs_super st \<and>
       sfs_superdirty st2 = sfs_superdirty st \<and> sfs_freemap st2 = sfs_freemap st \<and> length (lh_sectors st2) = length (lh_sectors st) \<and>
       (\<forall>i. lh_sectors st2 ! i = (if 2 \<le> i \<and> i < 2 + ?n then chunk (i - 2) ?d else lh_sectors st1 ! i))"
  proof (cases "sfs_freemapdirty st1")
    case True
    have "length (b_v (sfs_freemap st1)) = map_blocks st1 * 512" "2 + map_blocks st1 \<le> length (lh_sectors st1)" using V(5,6) k1 by simp_all
    from sync_map [OF s(2) this True] obtain ss b x r where w:
      "sfs_mapio (sp_nblocks (sfs_super st1)) UIO_WRITE (sfs_freemap st1) st1 =
        Some (EOK, sfs_freemap st1, st1\<lparr>lh_sectors := ss, lh_buf := b, lh_stat := x, lh_result := r\<rparr>)"
      "length ss = length (lh_sectors st1)" "calm (st1\<lparr>lh_sectors := ss, lh_buf := b, lh_stat := x, lh_result := r\<rparr>)"
      "\<And>i. ss ! i = (if 2 \<le> i \<and> i < 2 + map_blocks st1 then chunk (i - 2) (b_v (sfs_freemap st1)) else lh_sectors st1 ! i)" by blast
    show ?thesis unfolding st2_def if_P [OF True] w(1) using w(2-4) k1 by simp
  next
    case False
    have "lh_sectors st1 ! i = chunk (i - 2) ?d" if i: "2 \<le> i" "i < 2 + ?n" for i
    proof -
      obtain j where j: "i = 2 + j" using le_Suc_ex [OF i(1)] by blast
      then show ?thesis using res [of i] V(8) [of j] i(2) False k1(4) by simp
    qed
    then show ?thesis unfolding st2_def if_not_P [OF False] using s(2) False k1 by simp
  qed
  then have s2: "calm st2" "\<not> sfs_freemapdirty st2" "sfs_super st2 = sfs_super st" "sfs_superdirty st2 = sfs_superdirty st"
    "sfs_freemap st2 = sfs_freemap st" "length (lh_sectors st2) = length (lh_sectors st)"
    "\<And>i. lh_sectors st2 ! i = (if 2 \<le> i \<and> i < 2 + ?n then chunk (i - 2) ?d else lh_sectors st1 ! i)" by blast+
  define st3 where "st3 = (if sfs_superdirty st2 then (dsk_wr 0 (enc_super (sfs_super st)) st2)\<lparr>sfs_superdirty := False\<rparr> else st2)"
  have ne: "lh_sectors st \<noteq> []" using V(5) by auto
  then have w: "sfs_wblock (enc_super (sfs_super st2)) SFS_SB_LOCATION st2 = Some (EOK, dsk_wr 0 (enc_super (sfs_super st)) st2)"
    using wblock_calm [of st2 SFS_SB_LOCATION "enc_super (sfs_super st2)"] s2(1,3,6) V(2) by (simp add: SFS_SB_LOCATION_def)
  have sy: "sfs_sync st = Some (EOK, st3)"
    unfolding sfs_sync_def array_getnum_rep [OF a_inv_rep [OF V(3)]] s(1) using conjunct1 [OF m] w by (simp add: st3_def)
  have l3: "lh_sectors st3 ! i = (if i = 0 then enc_super (sfs_super st) else lh_sectors st2 ! i)" for i
    using ne V(7) s2(3,4,6) s2(7) [of 0] res [of 0] by (auto simp: st3_def nth_list_update)
  have "vnode_synced st3 sv" if "v \<in> set ?l" "sfs_v st v = Some sv" for v sv
    using s(4) [OF that] V(9) [OF that] l3 [of "unat (sv_ino sv)"] s2(7) [of "unat (sv_ino sv)"] by (auto simp: vnode_synced_def)
  moreover have "calm (x\<lparr>sfs_superdirty := b\<rparr>) = calm x" for x :: "'a sfs_fs_scheme" and b by (simp add: calm_def lhd_ok_def)
  then have "calm st3" using s2(1) V(2) by (simp add: st3_def)
  moreover have "\<not> sfs_superdirty st3" "\<not> sfs_freemapdirty st3" "sfs_super st3 = sfs_super st" "sfs_freemap st3 = sfs_freemap st"
    "length (lh_sectors st3) = length (lh_sectors st)" using s2 by (simp_all add: st3_def dsk_wr_def)
  ultimately show thesis by (intro that [OF sy]) (simp_all add: l3 s2(7))
qed

section \<open>Mounting\<close>

lemma mount_ok:
  fixes dev :: lhd
  assumes c: "calm dev" and s: "super_ok s" and nb: "unat (sp_nblocks s) \<le> length (lh_sectors dev)"
    and n: "n = unat (SFS_BITBLOCKS (sp_nblocks s))" "2 + n \<le> length (lh_sectors dev)" "length d = n * 512"
    and ss: "lh_sectors dev ! 0 = enc_super s" "\<And>k. k < n \<Longrightarrow> lh_sectors dev ! (2 + k) = chunk k d"
  obtains fs where "sfs_domount \<lparr>km_fs = True, km_array = True, km_bitmap = True, km_bits = True\<rparr> (of_nat SFS_BLOCKSIZE) dev = Some (EOK, Inr fs)"
    "sfs_super fs = s" "sfs_freemap fs = \<lparr>b_nbits = SFS_BITMAPSIZE (sp_nblocks s), b_v = d\<rparr>" "lh_sectors fs = lh_sectors dev" "calm fs"
    "sfs_vnodes fs = \<lparr>a_num = 0, a_max = 0, a_v = None\<rparr>" "\<not> sfs_superdirty fs" "\<not> sfs_freemapdirty fs"
proof -
  have w: "super_wf s" "sp_magic s = SFS_MAGIC" "sp_volname s ! 31 = 0" "length (sp_volname s) = 32" using s by (simp_all add: super_ok_def super_wf_def)
  have "lh_sectors dev \<noteq> []" using n(2) by auto
  then have rb: "sfs_rblock (replicate SFS_BLOCKSIZE 0) SFS_SB_LOCATION dev = Some (EOK, enc_super s, dsk_rd 0 dev)"
    using rblock_calm [OF c, of SFS_SB_LOCATION "replicate SFS_BLOCKSIZE 0"] ss(1) by (simp add: SFS_SB_LOCATION_def SFS_BLOCKSIZE_def)
  have vol: "s\<lparr>sp_volname := (sp_volname s)[SFS_VOLNAME_SIZE - 1 := 0]\<rparr> = s"
    using w(3) list_update_id [of "sp_volname s" 31] by (simp add: SFS_VOLNAME_SIZE_def)
  have nb22: "unat (sp_nblocks s) < 2 ^ 22" using nb c by (simp add: calm_def lhd_ok_def)
  note bc = bitmap_create_blocks [OF nb22, folded n(1)]
  let ?m = "\<lparr>b_nbits = SFS_BITMAPSIZE (sp_nblocks s), b_v = replicate (n * 512) 0\<rparr>"
  let ?f = "foldl (\<lambda>s k. dsk_rd (2 + k) s) (dsk_rd 0 dev) [0..<n]"
  have "concat (map (\<lambda>k. lh_sectors dev ! (2 + k)) [0..<n]) = concat (map (\<lambda>k. chunk k d) [0..<n])"
    using ss(2) by (intro arg_cong [of _ _ concat] map_cong) simp_all
  then have "concat (map (\<lambda>k. lh_sectors dev ! (2 + k)) [0..<n]) = d" unfolding concat_chunks [OF n(3)] .
  then have "mapio_loop UIO_READ 0 n (replicate (n * 512) 0) (dsk_rd 0 dev) = Some (EOK, d, ?f)"
    using mapio_read [of "dsk_rd 0 dev" "replicate (n * 512) 0" n 0 n] c n(2) \<open>lh_sectors dev \<noteq> []\<close> by simp
  then have mp: "sfs_mapio (sp_nblocks s) UIO_READ ?m (dsk_rd 0 dev) = Some (EOK, ?m\<lparr>b_v := d\<rparr>, ?f)"
    using n(1) by (simp add: sfs_mapio_def bitmap_getdata_def)
  define tab :: "nat karray" where "tab = \<lparr>a_num = 0, a_max = 0, a_v = None\<rparr>"
  have tab: "array_create True = Some tab" by (simp add: tab_def array_create_def kmalloc_ok_def RAM_MAX_def)
  define fs where "fs = lhd.extend ?f (sfs_fs.fields s False (?m\<lparr>b_v := d\<rparr>) False tab (\<lambda>_. None) 0)"
  have "sfs_domount \<lparr>km_fs = True, km_array = True, km_bitmap = True, km_bits = True\<rparr> (of_nat SFS_BLOCKSIZE) dev = Some (EOK, Inr fs)"
    using rb w(1,2) vol bc mp tab by (simp add: sfs_domount_def fs_def)
  moreover obtain b x r where "?f = (dsk_rd 0 dev)\<lparr>lh_buf := b, lh_stat := x, lh_result := r\<rparr>"
    using foldl_dsk_rd_only [where ks = "[0..<n]" and st = "dsk_rd 0 dev"] by blast
  then have "lh_sectors ?f = lh_sectors dev" by simp
  moreover have "calm ?f"
  proof -
    have "calm x \<Longrightarrow> (\<And>k. k \<in> set ks \<Longrightarrow> 2 + k < length (lh_sectors x)) \<Longrightarrow> calm (foldl (\<lambda>s k. dsk_rd (2 + k) s) x ks)" for ks and x :: lhd
      by (induction ks arbitrary: x) simp_all
    from this [of "dsk_rd 0 dev" "[0..<n]"] show ?thesis using c n(2) \<open>lh_sectors dev \<noteq> []\<close> by simp
  qed
  moreover have "calm fs = calm ?f" "lh_sectors fs = lh_sectors ?f" "sfs_super fs = s" "sfs_freemap fs = ?m\<lparr>b_v := d\<rparr>" "sfs_vnodes fs = tab"
    "\<not> sfs_superdirty fs" "\<not> sfs_freemapdirty fs"
    by (simp_all add: fs_def lhd.extend_def sfs_fs.fields_def calm_def lhd_ok_def)
  ultimately show thesis by (intro that [of fs]) (simp_all add: tab_def)
qed

lemma array_add_first:
  "array_add True \<lparr>a_num = 0, a_max = 0, a_v = None\<rparr> x = Some (EOK, \<lparr>a_num = 1, a_max = 2, a_v = Some [Some x, None]\<rparr>)"
  by (simp add: array_add_def array_setsize_def array_preallocate_def array_newmax.simps [of 1 0] array_newmax.simps [of 1 2] s32_id
    kmalloc_ok_def RAM_MAX_def ptr_array_def move_cells_def wr_def a_cells_def numeral_2_eq_2)

lemma loadvnode_fresh:
  assumes c: "calm fs" and t: "sfs_vnodes fs = \<lparr>a_num = 0, a_max = 0, a_v = None\<rparr>" and u: "sfs_bused ino fs = Some True"
    and l: "unat ino < length (lh_sectors fs)" and ty: "sfi_type (dec_inode (lh_sectors fs ! unat ino)) \<in> {SFS_TYPE_FILE, SFS_TYPE_DIR}"
  shows "\<exists>w fs' sw. sfs_loadvnode \<lparr>km_vnode = True, km_lock = True, km_table = True\<rparr> ino SFS_TYPE_INVAL fs = Some (EOK, w, fs') \<and>
    sfs_v fs' w = Some sw \<and> sv_i sw = dec_inode (lh_sectors fs ! unat ino) \<and> sv_ino sw = ino"
proof -
  have "find_loaded ino 0 fs = Some None" using t by (subst find_loaded.simps) (simp add: array_getnum_def)
  moreover have "sfs_rblock (replicate SFS_BLOCKSIZE 0) ino fs = Some (EOK, lh_sectors fs ! unat ino, dsk_rd (unat ino) fs)"
    by (rule rblock_calm [OF c l]) (simp add: SFS_BLOCKSIZE_def)
  moreover have "sfs_vnext (dsk_rd (unat ino) fs) = sfs_vnext fs" by (simp add: dsk_rd_def)
  ultimately show ?thesis
    using u ty t array_add_first [of "sfs_vnext fs"] by (auto simp: sfs_loadvnode_def load_inode_def Let_def vnode_init_def SFS_TYPE_FILE_def SFS_TYPE_DIR_def)
qed

section \<open>Property\<close>

text \<open>C23. What \<^verbatim>\<open>sfs_sync\<close> has written survives: on a volume in order and a fault-free disk \<^verbatim>\<open>sfs_sync\<close> succeeds,
  and mounting the same disk again, without the memory of the first mount, gives the same superblock and
  the same free map; loading the inode of any file that was in memory at the time of the sync gives back
  the inode the memory had.\<close>

theorem sfs_sync_mount:
  assumes "volume_ok st"
  shows "\<exists>st' fs. sfs_sync st = Some (EOK, st') \<and>
    sfs_domount \<lparr>km_fs = True, km_array = True, km_bitmap = True, km_bits = True\<rparr> (of_nat SFS_BLOCKSIZE) (lhd.truncate st') = Some (EOK, Inr fs) \<and>
    sfs_super fs = sfs_super st \<and> sfs_freemap fs = sfs_freemap st \<and>
    (\<forall>v\<in>set (a_list (sfs_vnodes st)). \<forall>sv. sfs_v st v = Some sv \<and> sfs_bused (sv_ino sv) st = Some True \<and>
       sfi_type (sv_i sv) \<in> {SFS_TYPE_FILE, SFS_TYPE_DIR} \<longrightarrow>
       (\<exists>w fs' sw. sfs_loadvnode \<lparr>km_vnode = True, km_lock = True, km_table = True\<rparr> (sv_ino sv) SFS_TYPE_INVAL fs = Some (EOK, w, fs') \<and>
          sfs_v fs' w = Some sw \<and> sv_i sw = sv_i sv \<and> sv_ino sw = sv_ino sv))"
proof -
  from sync_ok [OF assms] obtain st' where s0: "sfs_sync st = Some (EOK, st')" "calm st'" "\<not> sfs_superdirty st'" "\<not> sfs_freemapdirty st'"
    "sfs_super st' = sfs_super st" "sfs_freemap st' = sfs_freemap st" "length (lh_sectors st') = length (lh_sectors st)"
    "lh_sectors st' ! 0 = enc_super (sfs_super st)" "\<forall>k<map_blocks st. lh_sectors st' ! (2 + k) = chunk k (b_v (sfs_freemap st))"
    "\<forall>v\<in>set (a_list (sfs_vnodes st)). \<forall>sv. sfs_v st v = Some sv \<longrightarrow> vnode_synced st' sv" .
  note s = s0(1,2,7-)
  have V: "super_ok (sfs_super st)" "unat (sp_nblocks (sfs_super st)) \<le> length (lh_sectors st)" "2 + map_blocks st \<le> length (lh_sectors st)"
    "b_nbits (sfs_freemap st) = SFS_BITMAPSIZE (sp_nblocks (sfs_super st))" "length (b_v (sfs_freemap st)) = map_blocks st * 512"
    "loaded_ok st (a_list (sfs_vnodes st))" using assms by (simp_all add: volume_ok_def)
  have t: "lh_sectors (lhd.truncate st') = lh_sectors st'" "calm (lhd.truncate st')"
    using s(2) by (simp_all add: lhd.truncate_def calm_def lhd_ok_def)
  have "unat (sp_nblocks (sfs_super st)) \<le> length (lh_sectors (lhd.truncate st'))" "2 + map_blocks st \<le> length (lh_sectors (lhd.truncate st'))"
    "lh_sectors (lhd.truncate st') ! 0 = enc_super (sfs_super st)"
    "\<And>k. k < map_blocks st \<Longrightarrow> lh_sectors (lhd.truncate st') ! (2 + k) = chunk k (b_v (sfs_freemap st))"
    unfolding t(1) using V(2,3) s(3-5) by simp_all
  from mount_ok [OF t(2) V(1) this(1) refl this(2) V(5) this(3,4)] obtain fs where
    f: "sfs_domount \<lparr>km_fs = True, km_array = True, km_bitmap = True, km_bits = True\<rparr> (of_nat SFS_BLOCKSIZE) (lhd.truncate st') = Some (EOK, Inr fs)"
      "sfs_super fs = sfs_super st" "sfs_freemap fs = \<lparr>b_nbits = SFS_BITMAPSIZE (sp_nblocks (sfs_super st)), b_v = b_v (sfs_freemap st)\<rparr>"
      "lh_sectors fs = lh_sectors st'" "calm fs" "sfs_vnodes fs = \<lparr>a_num = 0, a_max = 0, a_v = None\<rparr>" "\<not> sfs_superdirty fs"
      "\<not> sfs_freemapdirty fs" unfolding t(1) .
  have fm: "sfs_freemap fs = sfs_freemap st" using f(3) V(4) by (cases "sfs_freemap st") simp
  have "\<exists>w fs' sw. sfs_loadvnode \<lparr>km_vnode = True, km_lock = True, km_table = True\<rparr> (sv_ino sv) SFS_TYPE_INVAL fs = Some (EOK, w, fs') \<and>
          sfs_v fs' w = Some sw \<and> sv_i sw = sv_i sv \<and> sv_ino sw = sv_ino sv"
    if v: "v \<in> set (a_list (sfs_vnodes st))" "sfs_v st v = Some sv" and u: "sfs_bused (sv_ino sv) st = Some True"
      "sfi_type (sv_i sv) \<in> {SFS_TYPE_FILE, SFS_TYPE_DIR}" for v sv
  proof -
    have i: "inode_wf (sv_i sv)" "unat (sv_ino sv) < length (lh_sectors st)" using V(6) v by (auto simp: loaded_ok_def list_all_iff)
    have d: "dec_inode (lh_sectors fs ! unat (sv_ino sv)) = sv_i sv" using s(6) v i(1) by (simp add: vnode_synced_def f(4))
    have b: "sfs_bused (sv_ino sv) fs = Some True" using u(1) by (simp add: sfs_bused_def f(2) fm)
    from loadvnode_fresh [OF f(5,6) b] show ?thesis unfolding d using i(2) s(3) f(4) u(2) by simp
  qed
  then show ?thesis using s(1) f(1,2) fm by blast
qed

definition ex_vol :: sfs_fs where
  "ex_vol = ex_fs\<lparr>sfs_superdirty := True, sfs_freemap := \<lparr>b_nbits = 4096, b_v = 0x1f # replicate 511 0xff\<rparr>, sfs_freemapdirty := True,
     sfs_vnodes := \<lparr>a_num = 1, a_max = 2, a_v = Some [Some 0, None]\<rparr>, sfs_v := [0 \<mapsto> (ex_vnode 1 0 SFS_TYPE_DIR)\<lparr>sv_dirty := True\<rparr>]\<rparr>"

theorem sfs_sync_mount_witness:
  "\<exists>st' fs w fs' sw. sfs_sync ex_vol = Some (EOK, st') \<and>
    sfs_domount \<lparr>km_fs = True, km_array = True, km_bitmap = True, km_bits = True\<rparr> (of_nat SFS_BLOCKSIZE) (lhd.truncate st') = Some (EOK, Inr fs) \<and>
    sfs_loadvnode \<lparr>km_vnode = True, km_lock = True, km_table = True\<rparr> 1 SFS_TYPE_INVAL fs = Some (EOK, w, fs') \<and>
    sfs_v fs' w = Some sw \<and> sv_i sw = ex_inode 0 SFS_TYPE_DIR"
proof -
  let ?sv = "(ex_vnode 1 0 SFS_TYPE_DIR)\<lparr>sv_dirty := True\<rparr>"
  have t: "a_list (sfs_vnodes ex_vol) = [0]" "a_inv (sfs_vnodes ex_vol)"
    by (simp_all add: ex_vol_def a_list_def a_cells_def a_inv_def a_rep_def a_wf_def numeral_2_eq_2)
  have v: "sfs_v ex_vol 0 = Some ?sv" by (simp add: ex_vol_def)
  have n: "unat (SFS_BITBLOCKS 8) = 1" "SFS_BITMAPSIZE 8 = 4096" using bitmap_size [of 8] by (simp_all add: word_unat_eq_iff)
  have c: "calm ex_vol" by (simp add: ex_vol_def ex_fs_def calm_def lhd_ok_def list_all_iff)
  have "super_ok (sfs_super ex_vol)" "sp_nblocks (sfs_super ex_vol) = 8" "length (lh_sectors ex_vol) = 8"
    by (simp_all add: ex_vol_def ex_fs_def super_ok_def super_wf_def)
  then have "volume_ok ex_vol"
    using c t v n by (simp add: volume_ok_def loaded_ok_def)
      (simp add: ex_vol_def ex_vnode_def ex_inode_def vn_live_def inode_wf_def)
  from sfs_sync_mount [OF this] obtain st' fs where r: "sfs_sync ex_vol = Some (EOK, st')"
    "sfs_domount \<lparr>km_fs = True, km_array = True, km_bitmap = True, km_bits = True\<rparr> (of_nat SFS_BLOCKSIZE) (lhd.truncate st') = Some (EOK, Inr fs)"
    "\<forall>v\<in>set (a_list (sfs_vnodes ex_vol)). \<forall>sv. sfs_v ex_vol v = Some sv \<and> sfs_bused (sv_ino sv) ex_vol = Some True \<and>
       sfi_type (sv_i sv) \<in> {SFS_TYPE_FILE, SFS_TYPE_DIR} \<longrightarrow>
       (\<exists>w fs' sw. sfs_loadvnode \<lparr>km_vnode = True, km_lock = True, km_table = True\<rparr> (sv_ino sv) SFS_TYPE_INVAL fs = Some (EOK, w, fs') \<and>
          sfs_v fs' w = Some sw \<and> sv_i sw = sv_i sv \<and> sv_ino sw = sv_ino sv)" by blast
  have "sfs_bused 1 ex_vol = Some True"
    by (simp add: sfs_bused_def ex_vol_def ex_fs_def bitmap_isset_def bitmap_translate_def byte_at_def word_le_nat_alt)
  then have "\<exists>w fs' sw. sfs_loadvnode \<lparr>km_vnode = True, km_lock = True, km_table = True\<rparr> 1 SFS_TYPE_INVAL fs = Some (EOK, w, fs') \<and>
     sfs_v fs' w = Some sw \<and> sv_i sw = ex_inode 0 SFS_TYPE_DIR"
    using r(3) t(1) v by (auto simp: ex_vnode_def ex_inode_def)
  then show ?thesis using r(1,2) by blast
qed

end
