(* ===== verification/Sfs_Super.thy ===== *)
theory Sfs_Super
  imports Sfs_Fs
begin

text \<open>
  The superblock of a mounted volume stays as it was read: no operation of SFS changes it. What is below SFS cannot,
  because it does not know the fields that SFS adds to its state.
\<close>

section \<open>Below the file system\<close>

lemma user_write_more: "machine.more (snd (user_write m a xs)) = machine.more m"
  by (induction m a xs rule: user_write.induct) (auto simp: Let_def case_prod_unfold)

lemma copyout_more: "copyout m src a len = Some (e, m') \<Longrightarrow> machine.more m' = machine.more m"
  using user_write_more [of m a "take (unat len) src"] by (auto simp: copyout_def kern_simps Let_def split: if_splits prod.splits)

lemma uio_chunk_more: "uio_chunk p n u m = Some (e, p', u', m') \<Longrightarrow> machine.more m' = machine.more m"
  by (auto simp: uio_chunk_def kern_simps Let_def dest!: copyout_more split: uio_seg.splits if_splits)

lemma uiomove_loop_more: "uiomove_loop pre p n u m = Some (e, p', u', m') \<Longrightarrow> machine.more m' = machine.more m"
proof (induction pre p n u m rule: uiomove_loop.induct)
  case (1 pre p n u m)
  then show ?case by (subst (asm) (2) uiomove_loop.simps) (auto simp: Let_def dest!: uio_chunk_more split: if_splits option.splits)
qed

lemma uiomove_more: "uiomove p n u m = Some (e, p', u', m') \<Longrightarrow> machine.more m' = machine.more m"
  by (auto simp: uiomove_def kern_simps dest!: uiomove_loop_more split: if_splits)

lemma uiomovezeros_loop_more: "uiomovezeros_loop n u m = Some (e, u', m') \<Longrightarrow> machine.more m' = machine.more m"
proof (induction n u m rule: uiomovezeros_loop.induct)
  case (1 n u m)
  then show ?case by (subst (asm) (2) uiomovezeros_loop.simps) (auto simp: Let_def dest!: uiomove_more split: if_splits option.splits)
qed

lemma uiomovezeros_more: "uiomovezeros n u m = Some (e, u', m') \<Longrightarrow> machine.more m' = machine.more m"
  by (auto simp: uiomovezeros_def kern_simps dest!: uiomovezeros_loop_more)

lemma lhd_of_machine: "machine.more st' = machine.more st \<Longrightarrow> lhd.more st' = lhd.more st"
  by (cases st; cases st'; simp)

lemma lhd_hardware_more: "lhd.more (lhd_hardware s v st) = lhd.more st" "lhd.more (lhd_irq st) = lhd.more st" "lhd.more (lhd_V_clear st) = lhd.more st"
  by (simp_all add: lhd_hardware_def lhd_irq_def lhd_iodone_def lhd_V_clear_def Let_def)

lemma lhd_P_more: "lhd_P_clear st = Some st' \<Longrightarrow> lhd.more st' = lhd.more st" "lhd_P_done st = Some st' \<Longrightarrow> lhd.more st' = lhd.more st"
  by (auto simp: lhd_P_clear_def lhd_P_done_def kern_simps)

lemma lhd_sector_more: "lhd_sector s u st = Some (e, u', st') \<Longrightarrow> lhd.more st' = lhd.more st"
  by (auto simp: lhd_sector_def kern_simps Let_def lhd_hardware_more dest!: lhd_P_more uiomove_more lhd_of_machine split: if_splits)

lemma lhd_loop_more: "lhd_loop s n u st = Some (e, u', st') \<Longrightarrow> lhd.more st' = lhd.more st"
  by (induction n arbitrary: s u st) (auto simp: kern_simps dest!: lhd_sector_more split: if_splits)

lemma lhd_io_more: "lhd_io u st = Some (e, u', st') \<Longrightarrow> lhd.more st' = lhd.more st"
  by (auto simp: lhd_io_def Let_def dest!: lhd_loop_more split: if_splits)

lemma sfs_retry_more: "sfs_retry n u st = Some (e, u', st') \<Longrightarrow> lhd.more st' = lhd.more st"
proof (induction n u st rule: sfs_retry.induct)
  case (1 n u st)
  then show ?case by (subst (asm) (2) sfs_retry.simps) (auto dest!: lhd_io_more split: if_splits option.splits)
qed

lemma rwblock_more:
  "sfs_rwblock u st = Some (e, u', st') \<Longrightarrow> lhd.more st' = lhd.more st" "sfs_rblock d b st = Some (e, d', st') \<Longrightarrow> lhd.more st' = lhd.more st"
  "sfs_wblock d b st = Some (e, st') \<Longrightarrow> lhd.more st' = lhd.more st" "sfs_clearblock b st = Some (e, st') \<Longrightarrow> lhd.more st' = lhd.more st"
  by (auto simp: sfs_rwblock_def sfs_rblock_def sfs_wblock_def sfs_clearblock_def kern_simps dest!: sfs_retry_more)

section \<open>The file system\<close>

definition volume :: "'a sfs_fs_scheme \<Rightarrow> sfs_super" where
  "volume st = sfs_super st"

lemma volume_update [simp]:
  "volume (st\<lparr>sfs_v := a\<rparr>) = volume st" "volume (st\<lparr>sfs_vnodes := b\<rparr>) = volume st" "volume (st\<lparr>sfs_vnext := n\<rparr>) = volume st"
  "volume (st\<lparr>sfs_freemap := c\<rparr>) = volume st" "volume (st\<lparr>sfs_freemapdirty := d\<rparr>) = volume st" "volume (st\<lparr>sfs_superdirty := d\<rparr>) = volume st"
  by (simp_all add: volume_def)

lemma super_of_lhd: "lhd.more st' = lhd.more st \<Longrightarrow> volume st' = volume st"
  by (cases st; cases st'; simp add: volume_def)

lemma io_super:
  "sfs_rwblock u st = Some (e, u', st') \<Longrightarrow> volume st' = volume st" "sfs_rblock d b st = Some (e, d', st') \<Longrightarrow> volume st' = volume st"
  "sfs_wblock d b st = Some (e, st') \<Longrightarrow> volume st' = volume st" "sfs_clearblock b st = Some (e, st') \<Longrightarrow> volume st' = volume st"
  "uiomove p n u st = Some (e, p', u', st') \<Longrightarrow> volume st' = volume st" "uiomovezeros n u st = Some (e, u', st') \<Longrightarrow> volume st' = volume st"
  by (blast intro: super_of_lhd lhd_of_machine rwblock_more uiomove_more uiomovezeros_more)+

lemma block_super:
  "sfs_sync_inode v st = Some (e, st') \<Longrightarrow> volume st' = volume st" "sfs_balloc st = Some (e, b, st') \<Longrightarrow> volume st' = volume st"
  "sfs_bfree b st = Some st' \<Longrightarrow> volume st' = volume st"
  by (auto simp: sfs_sync_inode_def sfs_balloc_def sfs_bfree_def Let_def elim!: bindE dest!: io_super split: if_splits)

lemma bmap_return_super: "bmap_return b st = Some (e, b', st') \<Longrightarrow> volume st' = volume st"
  by (auto simp: bmap_return_def elim!: bindE split: if_splits)

lemma bmap_direct_super: "bmap_direct v fb a st = Some (e, b, st') \<Longrightarrow> volume st' = volume st"
  by (auto simp: bmap_direct_def Let_def elim!: bindE dest!: block_super bmap_return_super split: if_splits)

lemma bmap_idblock_super: "bmap_idblock v st = Some (e, b, ws, st') \<Longrightarrow> volume st' = volume st"
  by (auto simp: bmap_idblock_def Let_def elim!: bindE dest!: block_super io_super split: if_splits)

lemma bmap_indirect_super: "bmap_indirect v k a st = Some (e, b, st') \<Longrightarrow> volume st' = volume st"
  by (auto simp: bmap_indirect_def elim!: bindE dest!: bmap_idblock_super block_super io_super bmap_return_super split: if_splits)

lemma bmap_super: "sfs_bmap v fb a st = Some (e, b, st') \<Longrightarrow> volume st' = volume st"
  by (auto simp: sfs_bmap_def Let_def elim!: bindE dest!: bmap_direct_super bmap_indirect_super split: if_splits)

lemma partialio_super: "sfs_partialio v u s l st = Some (e, u', st') \<Longrightarrow> volume st' = volume st"
  by (auto simp: sfs_partialio_def Let_def elim!: bindE dest!: bmap_super io_super split: if_splits)

lemma blockio_super: "sfs_blockio v u st = Some (e, u', st') \<Longrightarrow> volume st' = volume st"
  by (auto simp: sfs_blockio_def Let_def elim!: bindE dest!: bmap_super io_super split: if_splits)

lemma ioblocks_super: "sfs_ioblocks v n u st = Some (e, u', st') \<Longrightarrow> volume st' = volume st"
  by (induction n arbitrary: u st) (auto elim!: bindE dest!: blockio_super split: if_splits)

lemma sfs_io_parts_super:
  "sfs_io_leading v u st = Some (e, u', st') \<Longrightarrow> volume st' = volume st" "sfs_io_whole v u st = Some (e, u', st') \<Longrightarrow> volume st' = volume st"
  "sfs_io_out v u st = Some st' \<Longrightarrow> volume st' = volume st"
  by (auto simp: sfs_io_leading_def sfs_io_whole_def sfs_io_out_def Let_def elim!: bindE dest!: partialio_super ioblocks_super split: if_splits)

lemma sfs_io_body_super: "sfs_io_body v u st = Some (e, u', st') \<Longrightarrow> volume st' = volume st"
  by (auto simp: sfs_io_body_def elim!: bindE dest!: sfs_io_parts_super split: if_splits)

lemma sfs_io_super: "sfs_io v u st = Some (e, u', st') \<Longrightarrow> volume st' = volume st"
  by (auto simp: sfs_io_def Let_def elim!: bindE dest!: sfs_io_body_super sfs_io_parts_super split: if_splits)

lemma dir_io_super:
  "sfs_readdir v k st = Some (e, d, st') \<Longrightarrow> volume st' = volume st" "sfs_writedir v d k st = Some (e, st') \<Longrightarrow> volume st' = volume st"
  "sfs_dir_unlink v k st = Some (e, st') \<Longrightarrow> volume st' = volume st"
  by (auto simp: sfs_readdir_def sfs_writedir_def sfs_dir_unlink_def Let_def elim!: bindE dest!: sfs_io_super split: if_splits)

lemma findname_loop_super: "findname_loop v nm n i fd es st = Some (e, fd', es', st') \<Longrightarrow> volume st' = volume st"
  by (induction n arbitrary: i fd es st) (auto elim!: bindE dest!: dir_io_super split: if_splits)

lemma findname_super: "sfs_dir_findname v nm st = Some (e, fd, es, st') \<Longrightarrow> volume st' = volume st"
  by (auto simp: sfs_dir_findname_def elim!: bindE dest!: findname_loop_super)

lemma dir_link_super: "sfs_dir_link v nm ino st = Some (e, k, st') \<Longrightarrow> volume st' = volume st"
  by (auto simp: sfs_dir_link_def elim!: bindE dest!: findname_super dir_io_super split: if_splits)

lemma truncate_direct_super: "truncate_direct v bl ixs st = Some st' \<Longrightarrow> volume st' = volume st"
  by (induction ixs arbitrary: st) (auto simp: Let_def elim!: bindE dest!: block_super split: if_splits)

lemma truncate_entries_super: "truncate_entries bl j ids st = Some (b, ids', st') \<Longrightarrow> volume st' = volume st"
  by (induction ids arbitrary: j st b ids') (auto elim!: bindE dest!: block_super split: if_splits)

lemma truncate_super: "sfs_truncate v len st = Some (e, st') \<Longrightarrow> volume st' = volume st"
proof -
  have "truncate_indirect v bl st = Some (e, st') \<Longrightarrow> volume st' = volume st" for bl e and st st' :: "'a sfs_fs_scheme"
    by (auto simp: truncate_indirect_def Let_def elim!: bindE dest!: io_super block_super truncate_entries_super split: if_splits)
  then show "sfs_truncate v len st = Some (e, st') \<Longrightarrow> volume st' = volume st"
    by (auto simp: sfs_truncate_def Let_def elim!: bindE dest!: truncate_direct_super split: if_splits)
qed

lemma VOP_TRUNCATE_super: "VOP_TRUNCATE v len st = Some (e, st') \<Longrightarrow> volume st' = volume st"
  by (auto simp: VOP_TRUNCATE_def elim!: bindE dest!: truncate_super split: sfs_ops.splits)

lemma sfs_reclaim_super: "sfs_reclaim v st = Some (e, st') \<Longrightarrow> volume st' = volume st"
  by (auto simp: sfs_reclaim_def elim!: bindE dest!: VOP_TRUNCATE_super block_super split: if_splits)

lemma VOP_DECREF_super: "VOP_DECREF v st = Some st' \<Longrightarrow> volume st' = volume st"
  by (auto simp: VOP_DECREF_def Let_def elim!: bindE dest!: sfs_reclaim_super split: if_splits)

lemma VOP_INCREF_super: "VOP_INCREF v st = Some st' \<Longrightarrow> volume st' = volume st"
  by (auto simp: VOP_INCREF_def elim!: bindE)

lemma loadvnode_super: "sfs_loadvnode km ino ft st = Some (e, v, st') \<Longrightarrow> volume st' = volume st"
proof -
  have "load_inode km ino ft st = Some (e, v, st') \<Longrightarrow> volume st' = volume st"
    by (auto simp: load_inode_def Let_def elim!: bindE dest!: io_super split: if_splits prod.splits)
  then show "sfs_loadvnode km ino ft st = Some (e, v, st') \<Longrightarrow> volume st' = volume st"
    by (auto simp: sfs_loadvnode_def elim!: bindE dest!: VOP_INCREF_super split: option.splits)
qed

lemma lookonce_super: "sfs_lookonce km v nm st = Some (e, f, k, st') \<Longrightarrow> volume st' = volume st"
  by (auto simp: sfs_lookonce_def elim!: bindE dest!: findname_super loadvnode_super split: if_splits)

lemma sv_links_super: "sv_links f d st = Some st' \<Longrightarrow> volume st' = volume st"
  by (auto simp: sv_links_def elim!: bindE)

lemma makeobj_super: "sfs_makeobj km t st = Some (e, v, st') \<Longrightarrow> volume st' = volume st"
  by (auto simp: sfs_makeobj_def elim!: bindE dest!: block_super loadvnode_super split: if_splits)

lemma sfs_creat_super: "sfs_creat km v nm x st = Some (e, f, st') \<Longrightarrow> volume st' = volume st"
  by (auto simp: sfs_creat_def elim!: bindE dest!: findname_super loadvnode_super makeobj_super dir_link_super VOP_DECREF_super sv_links_super split: if_splits)

lemma sfs_link_super: "sfs_link v nm f st = Some (e, st') \<Longrightarrow> volume st' = volume st"
  by (auto simp: sfs_link_def elim!: bindE dest!: dir_link_super sv_links_super split: if_splits)

lemma sfs_remove_super: "sfs_remove km v nm st = Some (e, st') \<Longrightarrow> volume st' = volume st"
  by (auto simp: sfs_remove_def elim!: bindE dest!: lookonce_super dir_io_super sv_links_super VOP_DECREF_super split: if_splits)

lemma rename_undo_super: "rename_undo v g k r st = Some (e, st') \<Longrightarrow> volume st' = volume st"
  by (auto simp: rename_undo_def elim!: bindE dest!: dir_io_super VOP_DECREF_super)

lemma sfs_rename_super: "sfs_rename km v nm w nm2 st = Some (e, st') \<Longrightarrow> volume st' = volume st"
  by (auto simp: sfs_rename_def elim!: bindE dest!: lookonce_super dir_link_super dir_io_super sv_links_super VOP_DECREF_super rename_undo_super split: if_splits)

lemma VOP_FSYNC_super: "VOP_FSYNC v st = Some (e, st') \<Longrightarrow> volume st' = volume st"
  by (auto simp: VOP_FSYNC_def sfs_fsync_def elim!: bindE dest!: block_super)

lemma sync_vnodes_super: "sync_vnodes n i st = Some st' \<Longrightarrow> volume st' = volume st"
proof (induction n i st rule: sync_vnodes.induct)
  case (1 n i st)
  show ?case
  proof (cases "i < n")
    case True
    then obtain v r st1 where v: "array_getguy (sfs_vnodes st) i = Some v" "VOP_FSYNC v st = Some (r, st1)" "sync_vnodes n (i + 1) st1 = Some st'"
      using "1.prems" by (subst (asm) sync_vnodes.simps) (auto split: option.splits)
    show ?thesis using "1.IH" [OF True v(1) v(2) refl v(3)] VOP_FSYNC_super [OF v(2)] by simp
  qed (use "1.prems" in \<open>simp add: sync_vnodes.simps\<close>)
qed

lemma mapio_super: "sfs_mapio n rw fm st = Some (e, fm', st') \<Longrightarrow> volume st' = volume st"
proof -
  have "mapio_loop rw j n d st = Some (e, d', st') \<Longrightarrow> lhd.more st' = lhd.more st" for j n d e d' and st st' :: "'a sfs_fs_scheme"
    by (induction n arbitrary: j d st) (auto simp: Let_def elim!: bindE dest!: rwblock_more split: if_splits)
  then show "sfs_mapio n rw fm st = Some (e, fm', st') \<Longrightarrow> volume st' = volume st"
    by (auto simp: sfs_mapio_def Let_def intro: super_of_lhd elim!: bindE)
qed

lemma sfs_sync_super: "sfs_sync st = Some (e, st') \<Longrightarrow> volume st' = volume st"
  by (auto simp: sfs_sync_def elim!: bindE dest!: sync_vnodes_super mapio_super io_super split: if_splits)

lemma VOP_DECOPEN_super: "VOP_DECOPEN v st = Some st' \<Longrightarrow> volume st' = volume st"
  by (auto simp: VOP_DECOPEN_def VOP_CLOSE_def sfs_close_def Let_def elim!: bindE dest!: VOP_FSYNC_super split: if_splits)

lemma VOP_super:
  "VOP_CREAT km v nm x st = Some (e, f, st') \<Longrightarrow> volume st' = volume st" "VOP_LINK v nm g st = Some (e, st') \<Longrightarrow> volume st' = volume st"
  "VOP_REMOVE km v nm st = Some (e, st') \<Longrightarrow> volume st' = volume st" "VOP_RENAME km v nm w nm2 st = Some (e, st') \<Longrightarrow> volume st' = volume st"
  "VOP_LOOKUP km v nm st = Some (e, f, st') \<Longrightarrow> volume st' = volume st" "VOP_LOOKPARENT v nm n st = Some (e, p, st') \<Longrightarrow> volume st' = volume st"
  "sfs_getroot km st = Some (f, st') \<Longrightarrow> volume st' = volume st" "VOP_INCOPEN v st = Some st' \<Longrightarrow> volume st' = volume st"
  by (auto simp: VOP_CREAT_def VOP_LINK_def VOP_REMOVE_def VOP_RENAME_def VOP_LOOKUP_def VOP_LOOKPARENT_def sfs_getroot_def VOP_INCOPEN_def
      sfs_lookup_def sfs_lookparent_def
    elim!: bindE dest!: sfs_creat_super sfs_link_super sfs_remove_super sfs_rename_super lookonce_super loadvnode_super VOP_INCREF_super split: sfs_ops.splits if_splits)

end
