(* ===== verification/Vfs_Disk.thy ===== *)
theory Vfs_Disk
  imports Vfs Sfs_Super
begin

text \<open>
  The VFS layer over what the kernel puts below it: the null device, the disk \<^verbatim>\<open>lhd0\<close>, and an SFS
  volume on that disk when one is mounted.

  \<open>world\<close> is the state of the disk, with or without a volume, and the vnodes of the devices. The functions of \<open>kops\<close> do what a
  call through \<^verbatim>\<open>vn_ops\<close>, \<^verbatim>\<open>struct fs\<close> or \<^verbatim>\<open>struct device\<close> does: they pick the function by the kind of the object. A vnode of
  a volume that is no longer mounted is a dangling pointer.
\<close>

datatype devref = Null_dev | Lhd0

datatype vref = Dev_vn nat | Sfs_vn nat

datatype disk = Raw lhd | Mounted sfs_fs

record world =
  w_disk :: disk
  w_vnodes :: "nat \<Rightarrow> (devref option \<times> unit vnode) option"
  w_vnext :: nat

section \<open>Devices\<close>

definition lhd_world_io :: "uio \<Rightarrow> world \<Rightarrow> (errno \<times> uio \<times> world) kern" where
  "lhd_world_io u w =
     (case w_disk w of
        Raw st \<Rightarrow> do { (e, u, st) \<leftarrow> lhd_io u st; Some (e, u, w\<lparr>w_disk := Raw st\<rparr>) }
      | Mounted st \<Rightarrow> do { (e, u, st) \<leftarrow> lhd_io u st; Some (e, u, w\<lparr>w_disk := Mounted st\<rparr>) })"

definition disk_sectors :: "world \<Rightarrow> nat" where
  "disk_sectors w = (case w_disk w of Raw st \<Rightarrow> length (lh_sectors st) | Mounted st \<Rightarrow> length (lh_sectors st))"

definition lhd_device :: "world \<Rightarrow> world device" where
  "lhd_device w = \<lparr>d_open = (\<lambda>fl w. Some (lhd_open fl, w)), d_close = (\<lambda>w. Some (lhd_close, w)), d_io = lhd_world_io,
     d_ioctl = (\<lambda>op data w. Some (lhd_ioctl op data, w)), d_blocks = of_nat (disk_sectors w), d_blocksize = of_nat LHD_SECTSIZE\<rparr>"

definition device_of :: "devref \<Rightarrow> world \<Rightarrow> world device" where
  "device_of d w = (case d of Null_dev \<Rightarrow> null_device | Lhd0 \<Rightarrow> lhd_device w)"

text \<open>The vnode of a device, checked the way \<^verbatim>\<open>VOP_\<close> calls check it, and the device behind it.\<close>

definition dev_vop :: "nat \<Rightarrow> world \<Rightarrow> world device kern" where
  "dev_vop n w = do { (d, v) \<leftarrow> w_vnodes w n; vnode_check False v; d \<leftarrow> d; Some (device_of d w) }"

definition dev_put :: "nat \<Rightarrow> devref option \<Rightarrow> unit vnode \<Rightarrow> world \<Rightarrow> world" where
  "dev_put n d v w = w\<lparr>w_vnodes := (w_vnodes w)(n \<mapsto> (d, v))\<rparr>"

definition dev_incref :: "nat \<Rightarrow> world \<Rightarrow> world kern" where
  "dev_incref n w = do { (d, v) \<leftarrow> w_vnodes w n; Some (dev_put n d (vnode_incref v) w) }"

definition dev_decref :: "nat \<Rightarrow> world \<Rightarrow> world kern" where
  "dev_decref n w =
     do {
       (d, v) \<leftarrow> w_vnodes w n;
       (actually_do_it, v) \<leftarrow> vnode_decref v;
       let w = dev_put n d v w;
       if actually_do_it then do { vnode_check True v; d \<leftarrow> d; (e, w) \<leftarrow> dev_reclaim (device_of d w) w; Some w } else Some w
     }"

definition dev_incopen :: "nat \<Rightarrow> world \<Rightarrow> world kern" where
  "dev_incopen n w = do { (d, v) \<leftarrow> w_vnodes w n; Some (dev_put n d (vnode_incopen v) w) }"

definition dev_decopen :: "nat \<Rightarrow> world \<Rightarrow> world kern" where
  "dev_decopen n w =
     do {
       (d, v) \<leftarrow> w_vnodes w n;
       (last, v) \<leftarrow> vnode_decopen v;
       let w = dev_put n d v w;
       if last then do { dev \<leftarrow> dev_vop n w; (e, w) \<leftarrow> dev_close dev w; Some w } else Some w
     }"

section \<open>Calls through the tables\<close>

definition on_sfs :: "(sfs_fs \<Rightarrow> ('a \<times> sfs_fs) kern) \<Rightarrow> world \<Rightarrow> ('a \<times> world) kern" where
  "on_sfs f w = (case w_disk w of Raw _ \<Rightarrow> None | Mounted st \<Rightarrow> do { (r, st) \<leftarrow> f st; Some (r, w\<lparr>w_disk := Mounted st\<rparr>) })"

definition on_sfs' :: "(sfs_fs \<Rightarrow> sfs_fs kern) \<Rightarrow> world \<Rightarrow> world kern" where
  "on_sfs' f w = (case w_disk w of Raw _ \<Rightarrow> None | Mounted st \<Rightarrow> do { st \<leftarrow> f st; Some (w\<lparr>w_disk := Mounted st\<rparr>) })"

definition k_incref :: "vref \<Rightarrow> world \<Rightarrow> world kern" where
  "k_incref v w = (case v of Dev_vn n \<Rightarrow> dev_incref n w | Sfs_vn n \<Rightarrow> on_sfs' (VOP_INCREF n) w)"

definition k_decref :: "vref \<Rightarrow> world \<Rightarrow> world kern" where
  "k_decref v w = (case v of Dev_vn n \<Rightarrow> dev_decref n w | Sfs_vn n \<Rightarrow> on_sfs' (VOP_DECREF n) w)"

definition k_incopen :: "vref \<Rightarrow> world \<Rightarrow> world kern" where
  "k_incopen v w = (case v of Dev_vn n \<Rightarrow> dev_incopen n w | Sfs_vn n \<Rightarrow> on_sfs' (VOP_INCOPEN n) w)"

definition k_decopen :: "vref \<Rightarrow> world \<Rightarrow> world kern" where
  "k_decopen v w = (case v of Dev_vn n \<Rightarrow> dev_decopen n w | Sfs_vn n \<Rightarrow> on_sfs' (VOP_DECOPEN n) w)"

definition k_open :: "vref \<Rightarrow> u32 \<Rightarrow> world \<Rightarrow> (errno \<times> world) kern" where
  "k_open v flags w =
     (case v of Dev_vn n \<Rightarrow> do { d \<leftarrow> dev_vop n w; dev_open d flags w }
      | Sfs_vn n \<Rightarrow> on_sfs (\<lambda>st. do { e \<leftarrow> VOP_OPEN n flags st; Some (e, st) }) w)"

definition k_gettype :: "vref \<Rightarrow> world \<Rightarrow> ((errno \<times> u32) \<times> world) kern" where
  "k_gettype v w =
     (case v of Dev_vn n \<Rightarrow> do { d \<leftarrow> dev_vop n w; Some (dev_gettype d, w) }
      | Sfs_vn n \<Rightarrow> on_sfs (\<lambda>st. do { r \<leftarrow> VOP_GETTYPE n st; Some (r, st) }) w)"

definition k_truncate :: "vref \<Rightarrow> int \<Rightarrow> world \<Rightarrow> (errno \<times> world) kern" where
  "k_truncate v len w =
     (case v of Dev_vn n \<Rightarrow> do { d \<leftarrow> dev_vop n w; Some (dev_truncate d len, w) } | Sfs_vn n \<Rightarrow> on_sfs (VOP_TRUNCATE n len) w)"

definition k_readlink :: "vref \<Rightarrow> uio \<Rightarrow> world \<Rightarrow> ((errno \<times> uio) \<times> world) kern" where
  "k_readlink v u w =
     (case v of Dev_vn n \<Rightarrow> do { d \<leftarrow> dev_vop n w; (e, u, w) \<leftarrow> null_io u w; Some ((e, u), w) }
      | Sfs_vn n \<Rightarrow> on_sfs (\<lambda>st. do { e \<leftarrow> VOP_READLINK n st; Some ((e, u), st) }) w)"

definition k_namefile :: "vref \<Rightarrow> uio \<Rightarrow> world \<Rightarrow> ((errno \<times> uio) \<times> world) kern" where
  "k_namefile v u w =
     (case v of Dev_vn n \<Rightarrow> do { d \<leftarrow> dev_vop n w; Some ((dev_namefile, u), w) }
      | Sfs_vn n \<Rightarrow> on_sfs (\<lambda>st. do { e \<leftarrow> VOP_NAMEFILE n st; Some ((e, u), st) }) w)"

text \<open>A vnode comes back only when the call succeeds.\<close>

definition found_vn :: "errno \<Rightarrow> nat \<Rightarrow> errno \<times> vref option" where
  "found_vn e v = (e, if e = EOK then Some (Sfs_vn v) else None)"

definition k_creat :: "sfs_mem \<Rightarrow> vref \<Rightarrow> u8 list \<Rightarrow> bool \<Rightarrow> world \<Rightarrow> ((errno \<times> vref option) \<times> world) kern" where
  "k_creat km v name excl w =
     (case v of Dev_vn n \<Rightarrow> do { d \<leftarrow> dev_vop n w; Some ((null_creat, None), w) }
      | Sfs_vn n \<Rightarrow> on_sfs (\<lambda>st. do { (e, f, st) \<leftarrow> VOP_CREAT km n name excl st; Some (found_vn e f, st) }) w)"

text \<open>\<^verbatim>\<open>symlink\<close>, \<^verbatim>\<open>mkdir\<close> and \<^verbatim>\<open>rmdir\<close>: no object below has any of them.\<close>

definition k_unsupported :: "vref \<Rightarrow> world \<Rightarrow> (errno \<times> world) kern" where
  "k_unsupported v w =
     (case v of Dev_vn n \<Rightarrow> do { d \<leftarrow> dev_vop n w; Some (null_nameop, w) }
      | Sfs_vn n \<Rightarrow> on_sfs (\<lambda>st. do { e \<leftarrow> VOP_UNSUPPORTED n st; Some (e, st) }) w)"

definition k_link :: "vref \<Rightarrow> u8 list \<Rightarrow> vref \<Rightarrow> world \<Rightarrow> (errno \<times> world) kern" where
  "k_link v name f w =
     (case v of Dev_vn n \<Rightarrow> do { d \<leftarrow> dev_vop n w; Some (null_link, w) }
      | Sfs_vn n \<Rightarrow> (case f of Dev_vn _ \<Rightarrow> None | Sfs_vn g \<Rightarrow> on_sfs (VOP_LINK n name g) w))"

definition k_remove :: "sfs_mem \<Rightarrow> vref \<Rightarrow> u8 list \<Rightarrow> world \<Rightarrow> (errno \<times> world) kern" where
  "k_remove km v name w =
     (case v of Dev_vn n \<Rightarrow> do { d \<leftarrow> dev_vop n w; Some (null_nameop, w) } | Sfs_vn n \<Rightarrow> on_sfs (VOP_REMOVE km n name) w)"

definition k_rename :: "sfs_mem \<Rightarrow> vref \<Rightarrow> u8 list \<Rightarrow> vref \<Rightarrow> u8 list \<Rightarrow> world \<Rightarrow> (errno \<times> world) kern" where
  "k_rename km v n1 v2 n2 w =
     (case v of Dev_vn n \<Rightarrow> do { d \<leftarrow> dev_vop n w; Some (null_rename, w) }
      | Sfs_vn n \<Rightarrow> (case v2 of Dev_vn _ \<Rightarrow> None | Sfs_vn m \<Rightarrow> on_sfs (VOP_RENAME km n n1 m n2) w))"

definition k_lookup :: "sfs_mem \<Rightarrow> vref \<Rightarrow> u8 list \<Rightarrow> world \<Rightarrow> ((errno \<times> vref option) \<times> world) kern" where
  "k_lookup km v path w =
     (case v of
        Dev_vn n \<Rightarrow>
          do {
            d \<leftarrow> dev_vop n w;
            let (e, self) = dev_lookup path;
            if self then do { w \<leftarrow> dev_incref n w; Some ((e, Some v), w) } else Some ((e, None), w)
          }
      | Sfs_vn n \<Rightarrow> on_sfs (\<lambda>st. do { (e, f, st) \<leftarrow> VOP_LOOKUP km n path st; Some (found_vn e f, st) }) w)"

definition k_lookparent :: "vref \<Rightarrow> u8 list \<Rightarrow> nat \<Rightarrow> world \<Rightarrow> ((errno \<times> (vref \<times> u8 list) option) \<times> world) kern" where
  "k_lookparent v path buflen w =
     (case v of Dev_vn n \<Rightarrow> do { d \<leftarrow> dev_vop n w; Some ((dev_lookparent, None), w) }
      | Sfs_vn n \<Rightarrow> on_sfs (\<lambda>st. do { (e, r, st) \<leftarrow> VOP_LOOKPARENT n path buflen st;
          Some ((e, map_option (\<lambda>(d, nm). (Sfs_vn d, nm)) r), st) }) w)"

definition k_vn_fs :: "vref \<Rightarrow> world \<Rightarrow> unit option" where
  "k_vn_fs v w = (case v of Dev_vn _ \<Rightarrow> None | Sfs_vn _ \<Rightarrow> Some ())"

definition k_getvolname :: "unit \<Rightarrow> world \<Rightarrow> u8 list option" where
  "k_getvolname f w = (case w_disk w of Raw _ \<Rightarrow> None | Mounted st \<Rightarrow> Some (sfs_getvolname st))"

definition k_unmount :: "unit \<Rightarrow> world \<Rightarrow> (errno \<times> world) kern" where
  "k_unmount f w =
     (case w_disk w of
        Raw _ \<Rightarrow> None
      | Mounted st \<Rightarrow> do { (e, r) \<leftarrow> sfs_unmount st; Some (e, w\<lparr>w_disk := (case r of Inl st \<Rightarrow> Mounted st | Inr dev \<Rightarrow> Raw dev)\<rparr>) })"

definition k_dev_create_vnode :: "bool \<Rightarrow> devref option \<Rightarrow> world \<Rightarrow> (vref \<times> world) kern" where
  "k_dev_create_vnode km d w =
     (let (result, v) = vnode_init km () in
      do {
        kassert (result = EOK);
        Some (Dev_vn (w_vnext w), w\<lparr>w_vnodes := (w_vnodes w)(w_vnext w \<mapsto> (d, v)), w_vnext := w_vnext w + 1\<rparr>)
      })"

definition k_copy_out :: "u8 list \<Rightarrow> uio \<Rightarrow> world \<Rightarrow> ((errno \<times> uio) \<times> world) kern" where
  "k_copy_out txt u w =
     (case w_disk w of
        Raw st \<Rightarrow> do { (e, b, u, st) \<leftarrow> uiomove txt (length txt) u st; Some ((e, u), w\<lparr>w_disk := Raw st\<rparr>) }
      | Mounted st \<Rightarrow> do { (e, b, u, st) \<leftarrow> uiomove txt (length txt) u st; Some ((e, u), w\<lparr>w_disk := Mounted st\<rparr>) })"

definition kops :: "sfs_mem \<Rightarrow> (vref, unit, devref, world) vops" where
  "kops km = \<lparr>vop_incref = k_incref, vop_decref = k_decref, vop_incopen = k_incopen, vop_decopen = k_decopen, vop_open = k_open,
     vop_gettype = k_gettype, vop_truncate = k_truncate, vop_readlink = k_readlink, vop_namefile = k_namefile, vop_creat = k_creat km,
     vop_symlink = (\<lambda>v _ _. k_unsupported v), vop_mkdir = (\<lambda>v _. k_unsupported v), vop_link = k_link, vop_remove = k_remove km,
     vop_rmdir = (\<lambda>v _. k_unsupported v), vop_rename = k_rename km, vop_lookup = k_lookup km, vop_lookparent = k_lookparent,
     vn_fs = k_vn_fs, fsop_sync = (\<lambda>_. on_sfs sfs_sync), fsop_getvolname = k_getvolname,
     fsop_getroot = (\<lambda>_. on_sfs (\<lambda>st. do { (v, st) \<leftarrow> sfs_getroot km st; Some (Sfs_vn v, st) })), fsop_unmount = k_unmount,
     dev_create_vnode = k_dev_create_vnode, copy_out = k_copy_out\<rparr>"

definition k_domount :: "mount_mem \<Rightarrow> devref \<Rightarrow> world \<Rightarrow> ((errno \<times> unit option) \<times> world) kern" where
  "k_domount mm d w =
     (case w_disk w of
        Raw dev \<Rightarrow>
          (case d of
             Null_dev \<Rightarrow> Some ((ENXIO, None), w)
           | Lhd0 \<Rightarrow>
               do {
                 (e, r) \<leftarrow> sfs_domount mm (d_blocksize (lhd_device w)) dev;
                 Some ((e, case r of Inl _ \<Rightarrow> None | Inr _ \<Rightarrow> Some ()), w\<lparr>w_disk := (case r of Inl dev \<Rightarrow> Raw dev | Inr st \<Rightarrow> Mounted st)\<rparr>)
               })
      | Mounted st \<Rightarrow> (case d of Null_dev \<Rightarrow> Some ((ENXIO, None), w) | Lhd0 \<Rightarrow> None))"

definition sfs_mount :: "sfs_mem \<Rightarrow> mount_mem \<Rightarrow> u8 list \<Rightarrow> (vref, unit, devref, world) vfs \<Rightarrow> (errno \<times> (vref, unit, devref, world) vfs) kern" where
  "sfs_mount km mm device st = vfs_mount (kops km) device (k_domount mm) st"

section \<open>The contract of the layer\<close>

definition k_alive :: "world \<Rightarrow> unit set" where
  "k_alive w = (case w_disk w of Raw _ \<Rightarrow> {} | Mounted _ \<Rightarrow> {()})"

abbreviation same_volumes :: "sfs_mem \<Rightarrow> world \<Rightarrow> world \<Rightarrow> bool" where
  "same_volumes km w w' \<equiv> vol (kops km) w' = vol (kops km) w \<and> k_alive w' = k_alive w"

lemma vol_kops: "vol (kops km) w = (\<lambda>f. case w_disk w of Raw _ \<Rightarrow> None | Mounted st \<Rightarrow> Some (cstr (sp_volname (volume st))))"
  by (simp add: fun_eq_iff vol_def kops_def k_getvolname_def sfs_getvolname_def volume_def split: disk.split)

lemma same_disk: "w_disk w' = w_disk w \<Longrightarrow> same_volumes km w w'"
  by (simp add: vol_kops k_alive_def)

lemma on_sfs_same: "on_sfs f w = Some (r, w') \<Longrightarrow> (\<And>st st'. f st = Some (r, st') \<Longrightarrow> volume st' = volume st) \<Longrightarrow> same_volumes km w w'"
  by (fastforce simp: on_sfs_def vol_kops k_alive_def split: disk.splits elim!: bindE)

lemma on_sfs'_same: "on_sfs' f w = Some w' \<Longrightarrow> (\<And>st st'. f st = Some st' \<Longrightarrow> volume st' = volume st) \<Longrightarrow> same_volumes km w w'"
  by (fastforce simp: on_sfs'_def vol_kops k_alive_def split: disk.splits elim!: bindE)

lemma dev_refs_disk:
  "dev_incref n w = Some w' \<Longrightarrow> w_disk w' = w_disk w" "dev_incopen n w = Some w' \<Longrightarrow> w_disk w' = w_disk w" "dev_decref n w = Some w' \<Longrightarrow> w_disk w' = w_disk w"
  by (auto simp: dev_incref_def dev_incopen_def dev_decref_def dev_put_def dev_reclaim_def Let_def elim!: bindE split: if_splits)

lemma device_open_close:
  "d_open (device_of d w) fl w' = Some (e, w'') \<Longrightarrow> w'' = w'" "d_close (device_of d w) w' = Some (e, w'') \<Longrightarrow> w'' = w'"
  by (cases d; simp add: device_of_def null_device_def nullopen_def nullclose_def lhd_device_def)+

lemma dev_decopen_disk: "dev_decopen n w = Some w' \<Longrightarrow> w_disk w' = w_disk w"
  by (auto simp: dev_decopen_def dev_put_def dev_vop_def dev_close_def Let_def elim!: bindE dest!: device_open_close split: if_splits)

lemma domount_result: "sfs_domount mm bs dev = Some (e, r) \<Longrightarrow> e = EOK \<longleftrightarrow> (\<exists>st. r = Inr st)"
  by (auto simp: sfs_domount_def Let_def elim!: bindE split: if_splits option.splits)

lemma unmount_result: "sfs_unmount st = Some (e, r) \<Longrightarrow> if e = EOK then \<exists>dev. r = Inr dev else r = Inl st"
  by (auto simp: sfs_unmount_def elim!: bindE split: if_splits)

lemma refs_same:
  "k_incref v w = Some w' \<Longrightarrow> same_volumes km w w'" "k_decref v w = Some w' \<Longrightarrow> same_volumes km w w'"
  "k_incopen v w = Some w' \<Longrightarrow> same_volumes km w w'" "k_decopen v w = Some w' \<Longrightarrow> same_volumes km w w'"
proof -
  show "k_incref v w = Some w' \<Longrightarrow> same_volumes km w w'" unfolding k_incref_def
    by (cases v; simp only: vref.case) (erule dev_refs_disk(1) [THEN same_disk], erule on_sfs'_same, erule VOP_INCREF_super)
  show "k_decref v w = Some w' \<Longrightarrow> same_volumes km w w'" unfolding k_decref_def
    by (cases v; simp only: vref.case) (erule dev_refs_disk(3) [THEN same_disk], erule on_sfs'_same, erule VOP_DECREF_super)
  show "k_incopen v w = Some w' \<Longrightarrow> same_volumes km w w'" unfolding k_incopen_def
    by (cases v; simp only: vref.case) (erule dev_refs_disk(2) [THEN same_disk], erule on_sfs'_same, erule VOP_super)
  show "k_decopen v w = Some w' \<Longrightarrow> same_volumes km w w'" unfolding k_decopen_def
    by (cases v; simp only: vref.case) (erule dev_decopen_disk [THEN same_disk], erule on_sfs'_same, erule VOP_DECOPEN_super)
qed

text \<open>The calls that leave everything alone, and those that may change the volume.\<close>

lemma looks_same:
  "k_gettype v w = Some (q, w') \<Longrightarrow> same_volumes km w w'" "k_readlink v u w = Some (r, w') \<Longrightarrow> same_volumes km w w'"
  "k_namefile v u w = Some (r, w') \<Longrightarrow> same_volumes km w w'" "k_unsupported v w = Some (e, w') \<Longrightarrow> same_volumes km w w'"
  "k_open v fl w = Some (e, w') \<Longrightarrow> same_volumes km w w'"
proof -
  show "k_gettype v w = Some (q, w') \<Longrightarrow> same_volumes km w w'" unfolding k_gettype_def
    by (cases v; simp only: vref.case) (fastforce elim!: bindE, erule on_sfs_same, auto elim!: bindE)
  show "k_readlink v u w = Some (r, w') \<Longrightarrow> same_volumes km w w'" unfolding k_readlink_def null_io_def
    by (cases v; simp only: vref.case) (fastforce elim!: bindE, erule on_sfs_same, auto elim!: bindE)
  show "k_namefile v u w = Some (r, w') \<Longrightarrow> same_volumes km w w'" unfolding k_namefile_def
    by (cases v; simp only: vref.case) (fastforce elim!: bindE, erule on_sfs_same, auto elim!: bindE)
  show "k_unsupported v w = Some (e, w') \<Longrightarrow> same_volumes km w w'" unfolding k_unsupported_def
    by (cases v; simp only: vref.case) (fastforce elim!: bindE, erule on_sfs_same, auto elim!: bindE)
  show "k_open v fl w = Some (e, w') \<Longrightarrow> same_volumes km w w'" unfolding k_open_def dev_open_def dev_vop_def
    by (cases v; simp only: vref.case) (fastforce elim!: bindE dest!: device_open_close split: if_splits, erule on_sfs_same, auto elim!: bindE)
qed

lemma changes_same:
  "k_truncate v len w = Some (e, w') \<Longrightarrow> same_volumes km w w'" "k_creat sm v nm x w = Some (q, w') \<Longrightarrow> same_volumes km w w'"
  "k_remove sm v nm w = Some (e, w') \<Longrightarrow> same_volumes km w w'" "k_lookparent v nm n w = Some (p, w') \<Longrightarrow> same_volumes km w w'"
  "k_link v nm v2 w = Some (e, w') \<Longrightarrow> same_volumes km w w'" "k_rename sm v nm v2 nm2 w = Some (e, w') \<Longrightarrow> same_volumes km w w'"
proof -
  show "k_truncate v len w = Some (e, w') \<Longrightarrow> same_volumes km w w'" unfolding k_truncate_def
    by (cases v; simp only: vref.case) (fastforce elim!: bindE, erule on_sfs_same, erule VOP_TRUNCATE_super)
  show "k_creat sm v nm x w = Some (q, w') \<Longrightarrow> same_volumes km w w'" unfolding k_creat_def
    by (cases v; simp only: vref.case) (fastforce elim!: bindE, erule on_sfs_same, auto elim!: bindE dest!: VOP_super)
  show "k_remove sm v nm w = Some (e, w') \<Longrightarrow> same_volumes km w w'" unfolding k_remove_def
    by (cases v; simp only: vref.case) (fastforce elim!: bindE, erule on_sfs_same, erule VOP_super)
  show "k_lookparent v nm n w = Some (p, w') \<Longrightarrow> same_volumes km w w'" unfolding k_lookparent_def
    by (cases v; simp only: vref.case) (fastforce elim!: bindE, erule on_sfs_same, auto elim!: bindE dest!: VOP_super)
  show "k_link v nm v2 w = Some (e, w') \<Longrightarrow> same_volumes km w w'" unfolding k_link_def
    by (cases v; cases v2; simp only: vref.case) (fastforce elim!: bindE, fastforce elim!: bindE, simp, erule on_sfs_same, erule VOP_super)
  show "k_rename sm v nm v2 nm2 w = Some (e, w') \<Longrightarrow> same_volumes km w w'" unfolding k_rename_def
    by (cases v; cases v2; simp only: vref.case) (fastforce elim!: bindE, fastforce elim!: bindE, simp, erule on_sfs_same, erule VOP_super)
qed

lemma k_lookup_same: "k_lookup sm v nm w = Some (q, w') \<Longrightarrow> same_volumes km w w'"
proof (cases v)
  case (Dev_vn n)
  assume "k_lookup sm v nm w = Some (q, w')"
  then have "w_disk w' = w_disk w" using Dev_vn by (auto simp: k_lookup_def dev_lookup_def Let_def elim!: bindE dest!: dev_refs_disk split: if_splits)
  then show ?thesis by (rule same_disk)
next
  case (Sfs_vn n)
  assume "k_lookup sm v nm w = Some (q, w')"
  then have "on_sfs (\<lambda>st. do { (e, f, st) \<leftarrow> VOP_LOOKUP sm n nm st; Some (found_vn e f, st) }) w = Some (q, w')" using Sfs_vn by (simp add: k_lookup_def)
  then show ?thesis by (rule on_sfs_same) (auto elim!: bindE dest!: VOP_super)
qed

lemma k_copy_out_same: "k_copy_out t u w = Some (r, w') \<Longrightarrow> same_volumes km w w'"
proof (cases "w_disk w")
  case (Raw st)
  assume "k_copy_out t u w = Some (r, w')"
  then obtain st' where "w_disk w' = Raw st'" using Raw by (auto simp: k_copy_out_def elim!: bindE)
  then show ?thesis using Raw by (simp add: vol_kops k_alive_def)
next
  case (Mounted st)
  assume "k_copy_out t u w = Some (r, w')"
  then obtain st' where "w_disk w' = Mounted st'" "volume st' = volume st" using Mounted by (auto simp: k_copy_out_def elim!: bindE dest!: io_super(5))
  then show ?thesis using Mounted by (simp add: vol_kops k_alive_def)
qed

lemma k_create_same: "k_dev_create_vnode b d w = Some (v, w') \<Longrightarrow> same_volumes km w w'"
  by (rule same_disk) (auto simp: k_dev_create_vnode_def Let_def elim!: bindE split: prod.splits)

lemma k_unmount_law: "k_unmount f w = Some (e, w') \<Longrightarrow>
  if e = EOK then k_alive w' = k_alive w - {f} \<and> (\<forall>g. g \<noteq> f \<longrightarrow> vol (kops km) w' g = vol (kops km) w g) else same_volumes km w w'"
  by (auto simp: k_unmount_def k_alive_def vol_kops elim!: bindE dest!: unmount_result split: disk.splits if_splits)

lemma k_domount_law: "k_domount mm d w = Some ((e, fo), w') \<Longrightarrow>
  if e = EOK then \<exists>f. fo = Some f \<and> f \<notin> k_alive w \<and> k_alive w' = insert f (k_alive w) \<and> (\<forall>g. g \<noteq> f \<longrightarrow> vol (kops km) w' g = vol (kops km) w g)
  else same_volumes km w w'"
  by (auto simp: k_domount_def k_alive_def vol_kops elim!: bindE dest!: domount_result split: disk.splits if_splits devref.splits sum.splits)

lemma kops_sel [simp]:
  "vop_incref (kops km) = k_incref" "vop_decref (kops km) = k_decref" "vop_incopen (kops km) = k_incopen" "vop_decopen (kops km) = k_decopen"
  "vop_open (kops km) = k_open" "vop_gettype (kops km) = k_gettype" "vop_truncate (kops km) = k_truncate" "vop_readlink (kops km) = k_readlink"
  "vop_namefile (kops km) = k_namefile" "vop_creat (kops km) = k_creat km" "vop_symlink (kops km) v nm t = k_unsupported v"
  "vop_mkdir (kops km) v nm = k_unsupported v" "vop_link (kops km) = k_link" "vop_remove (kops km) = k_remove km" "vop_rmdir (kops km) v nm = k_unsupported v"
  "vop_rename (kops km) = k_rename km" "vop_lookup (kops km) = k_lookup km" "vop_lookparent (kops km) = k_lookparent" "vn_fs (kops km) = k_vn_fs"
  "fsop_sync (kops km) f = on_sfs sfs_sync" "fsop_getvolname (kops km) = k_getvolname"
  "fsop_getroot (kops km) f = on_sfs (\<lambda>st. do { (v, st) \<leftarrow> sfs_getroot km st; Some (Sfs_vn v, st) })" "fsop_unmount (kops km) = k_unmount"
  "dev_create_vnode (kops km) = k_dev_create_vnode" "copy_out (kops km) = k_copy_out"
  by (simp_all add: kops_def)

interpretation kdisk: file_layer "kops km" "k_domount mm" k_alive
  by (unfold_locales; (simp only: kops_sel)?)
    (erule refs_same, erule refs_same, erule refs_same, erule refs_same, erule looks_same, erule looks_same, erule changes_same,
     erule looks_same, erule looks_same, erule changes_same, erule looks_same, erule looks_same, erule changes_same, erule changes_same,
     erule looks_same, erule changes_same, erule k_lookup_same, erule changes_same, erule on_sfs_same, erule sfs_sync_super,
     erule on_sfs_same, fastforce elim!: bindE dest!: VOP_super, erule k_create_same, erule k_copy_out_same, erule k_unmount_law, erule k_domount_law)

section \<open>Properties\<close>


definition ex_world :: world where
  "ex_world = \<lparr>w_disk = Raw (ex_disk []), w_vnodes = Map.empty, w_vnext = 0\<rparr>"

definition ex_add :: add_mem where
  "ex_add = \<lparr>am_name = True, am_rawname = True, am_vnode = True, am_lock = True, am_kd = True, am_array = True\<rparr>"

definition ex_km :: sfs_mem where
  "ex_km = \<lparr>km_vnode = True, km_lock = True, km_table = True\<rparr>"

text \<open>The layer set up, and the disk \<^verbatim>\<open>lhd0\<close> added.\<close>

definition ex_vnull :: "unit vnode" where
  "ex_vnull = snd (vnode_init True ())"

definition ex_boot :: "(vref, unit, devref, world) vfs" where
  "ex_boot = \<lparr>knowndevs = [\<lparr>kd_name = [110, 117, 108, 108], kd_rawname = None, kd_device = Some Null_dev, kd_vnode = Dev_vn 0, kd_fs = None\<rparr>],
     knowndevs_lock = False, bootfs_vnode = None, bootfs_lock = False, t_cwd = None,
     store = ex_world\<lparr>w_vnodes := [0 \<mapsto> (Some Null_dev, ex_vnull)], w_vnext := 1\<rparr>\<rparr>"

definition ex_added :: "(vref, unit, devref, world) vfs" where
  "ex_added = ex_boot\<lparr>knowndevs := knowndevs ex_boot @ [\<lparr>kd_name = [108, 104, 100, 48], kd_rawname = Some [108, 104, 100, 48, 114, 97, 119],
       kd_device = Some Lhd0, kd_vnode = Dev_vn 1, kd_fs = None\<rparr>],
     store := ex_world\<lparr>w_vnodes := [0 \<mapsto> (Some Null_dev, ex_vnull), 1 \<mapsto> (Some Lhd0, ex_vnull)], w_vnext := 2\<rparr>\<rparr>"

lemmas ex_add_defs = vfs_doadd_def vfs_adddev_def ex_add_def below_def k_dev_create_vnode_def ex_vnull_def vnode_init_def
  knowndevs_acquire_def knowndevs_release_def kassert_def badnames_def mkrawname_def ex_world_def samestring3_def samestring_def

lemma ex_boot_runs: "vfs_bootstrap (kops ex_km) (True, True, True, True) ex_add Null_dev ex_world = Some ex_boot"
  by (simp add: vfs_bootstrap_def vfs_initbootfs_def devnull_create_def ex_boot_def ex_add_defs)

lemma ex_added_runs: "vfs_adddev (kops ex_km) ex_add [108, 104, 100, 48] Lhd0 True ex_boot = Some (EOK, ex_added)"
  by (simp add: ex_added_def ex_boot_def ex_add_defs)


end
