(* ===== verification/Mksfs.thy ===== *)
theory Mksfs
  imports Vfs Sfs_Fs
begin

text \<open>
  \<^verbatim>\<open>src/src/sbin/mksfs\<close>: the program that puts an empty SFS volume on a disk, as built for OS/161 (without \<^verbatim>\<open>HOST\<close>).

  \<open>mkfs\<close> holds the globals of \<^verbatim>\<open>mksfs.c\<close> and \<^verbatim>\<open>disk.c\<close> and the file that is written: its bytes, the position in it,
  and what the coming calls of \<^verbatim>\<open>write\<close> will do, after which every call writes all it is given. A function returns how the
  program stopped, if it did; \<open>Abort\<close> is a failed assertion.
\<close>

section \<open>The code\<close>

datatype wres = Wrote nat | Again | Werr

datatype stop = Exit nat | Abort

record mkfs =
  fd :: int
  nblocks :: u32
  bitbuf :: "u8 list"
  fbytes :: "u8 list"
  fpos :: nat
  writes :: "wres list"

text \<open>One part of the program after the other, until one of them stops.\<close>

primrec run_steps :: "(mkfs \<Rightarrow> stop option \<times> mkfs) list \<Rightarrow> mkfs \<Rightarrow> stop option \<times> mkfs" where
  "run_steps [] d = (None, d)"
| "run_steps (f # fs) d = (case f d of (None, d) \<Rightarrow> run_steps fs d | (Some s, d) \<Rightarrow> (Some s, d))"

definition BLOCKSIZE :: nat where "BLOCKSIZE = 512"
definition MAXBITBLOCKS :: nat where "MAXBITBLOCKS = 32"

subsection \<open>disk.c\<close>

text \<open>\<open>op\<close> is what \<^verbatim>\<open>open\<close> returns, \<open>st\<close> whether \<^verbatim>\<open>fstat\<close> works.\<close>

definition opendisk :: "int \<Rightarrow> bool \<Rightarrow> mkfs \<Rightarrow> stop option \<times> mkfs" where
  "opendisk op st d =
     (if fd d \<ge> 0 then (Some Abort, d)
      else let d = d\<lparr>fd := op\<rparr> in
        if op < 0 \<or> \<not> st then (Some (Exit 1), d)
        else (None, d\<lparr>nblocks := of_int (cdiv (s32 (int (length (fbytes d)))) (int BLOCKSIZE))\<rparr>))"

text \<open>Bytes written at a position of a file; a gap before them is filled with zeros.\<close>

definition put_at :: "nat \<Rightarrow> u8 list \<Rightarrow> u8 list \<Rightarrow> u8 list" where
  "put_at p bs img = take p (img @ replicate (p - length img) 0) @ bs @ drop (p + length bs) img"

definition file_put :: "u8 list \<Rightarrow> mkfs \<Rightarrow> mkfs" where
  "file_put bs d = d\<lparr>fbytes := put_at (fpos d) bs (fbytes d), fpos := fpos d + length bs\<rparr>"

fun write_loop :: "u8 list \<Rightarrow> nat \<Rightarrow> wres list \<Rightarrow> mkfs \<Rightarrow> stop option \<times> mkfs" where
  "write_loop data tot [] d = (None, (if tot < BLOCKSIZE then file_put (take (BLOCKSIZE - tot) (drop tot data)) d else d)\<lparr>writes := []\<rparr>)"
| "write_loop data tot (w # ws) d =
     (if tot < BLOCKSIZE then
        (case w of
           Again \<Rightarrow> write_loop data tot ws d
         | Werr \<Rightarrow> (Some (Exit 1), d\<lparr>writes := ws\<rparr>)
         | Wrote n \<Rightarrow>
             let len = min n (BLOCKSIZE - tot) in
             if len = 0 then (Some (Exit 1), d\<lparr>writes := ws\<rparr>)
             else write_loop data (tot + len) ws (file_put (take len (drop tot data)) d))
      else (None, d\<lparr>writes := w # ws\<rparr>))"

definition diskwrite :: "u8 list \<Rightarrow> u32 \<Rightarrow> mkfs \<Rightarrow> stop option \<times> mkfs" where
  "diskwrite data block d =
     (if fd d < 0 then (Some Abort, d)
      else let off = sint (block * of_nat BLOCKSIZE) in
        if off < 0 then (Some (Exit 1), d)
        else write_loop data 0 (writes d) (d\<lparr>fpos := nat off\<rparr>))"

definition diskblocksize :: "mkfs \<Rightarrow> u32" where
  "diskblocksize d = of_nat BLOCKSIZE"

definition diskblocks :: "mkfs \<Rightarrow> u32" where
  "diskblocks d = nblocks d"

definition closedisk :: "bool \<Rightarrow> mkfs \<Rightarrow> stop option \<times> mkfs" where
  "closedisk cl d = (if fd d < 0 then (Some Abort, d) else if \<not> cl then (Some (Exit 1), d) else (None, d\<lparr>fd := - 1\<rparr>))"

subsection \<open>mksfs.c\<close>

definition zero_super :: sfs_super where
  "zero_super = \<lparr>sp_magic = 0, sp_nblocks = 0, sp_volname = replicate 32 0, sp_reserved = replicate 118 0\<rparr>"

definition zero_inode :: sfs_inode where
  "zero_inode = \<lparr>sfi_size = 0, sfi_type = 0, sfi_linkcount = 0, sfi_direct = replicate 15 0, sfi_indirect = 0, sfi_waste = replicate 110 0\<rparr>"

definition check :: "mkfs \<Rightarrow> stop option \<times> mkfs" where
  "check d =
     (if length (enc_super zero_super) = SFS_BLOCKSIZE \<and> length (enc_inode zero_inode) = SFS_BLOCKSIZE \<and>
        SFS_BLOCKSIZE mod length (enc_dir \<lparr>sfd_ino = 0, sfd_name = replicate SFS_NAMELEN 0\<rparr>) = 0
      then (None, d) else (Some Abort, d))"

definition writesuper :: "u8 list \<Rightarrow> u32 \<Rightarrow> mkfs \<Rightarrow> stop option \<times> mkfs" where
  "writesuper volname nb d =
     (if length volname \<ge> SFS_VOLNAME_SIZE then (Some (Exit 1), d)
      else diskwrite (enc_super (zero_super\<lparr>sp_magic := SFS_MAGIC, sp_nblocks := nb,
        sp_volname := volname @ replicate (SFS_VOLNAME_SIZE - length volname) 0\<rparr>)) SFS_SB_LOCATION d)"

definition writerootdir :: "mkfs \<Rightarrow> stop option \<times> mkfs" where
  "writerootdir d = diskwrite (enc_inode (zero_inode\<lparr>sfi_size := 0, sfi_type := SFS_TYPE_DIR, sfi_linkcount := 1\<rparr>)) SFS_ROOT_LOCATION d"

text \<open>Outside of the buffer the access is undefined; the program then stops like at an assertion.\<close>

definition doallocbit :: "u32 \<Rightarrow> mkfs \<Rightarrow> stop option \<times> mkfs" where
  "doallocbit b d =
     (let byte = unat (b div 8); mask = push_bit (unat (b mod 8)) 1 in
      if byte \<ge> length (bitbuf d) then (Some Abort, d)
      else if bitbuf d ! byte AND mask \<noteq> 0 then (Some Abort, d)
      else (None, d\<lparr>bitbuf := (bitbuf d)[byte := bitbuf d ! byte OR mask]\<rparr>))"

definition writebitmap :: "u32 \<Rightarrow> mkfs \<Rightarrow> stop option \<times> mkfs" where
  "writebitmap fsblocks d =
     (let nbits = SFS_BITMAPSIZE fsblocks; mapblocks = SFS_BITBLOCKS fsblocks in
      if mapblocks > of_nat MAXBITBLOCKS then (Some (Exit 1), d)
      else run_steps
        ([doallocbit SFS_SB_LOCATION, doallocbit SFS_ROOT_LOCATION] @
         map (\<lambda>i. doallocbit (SFS_MAP_LOCATION + of_nat i)) [0..<unat mapblocks] @
         map (\<lambda>i. doallocbit (of_nat i)) [unat fsblocks..<unat nbits] @
         map (\<lambda>i d. diskwrite (take SFS_BLOCKSIZE (drop (i * SFS_BLOCKSIZE) (bitbuf d))) (SFS_MAP_LOCATION + of_nat i) d) [0..<unat mapblocks]) d)"

text \<open>The name with one trailing colon taken off, or nothing for an illegal one.\<close>

definition volume_name :: "u8 list \<Rightarrow> u8 list option" where
  "volume_name volname =
     (let s = dropWhile (\<lambda>c. c \<noteq> colon) volname in
      if s \<noteq> [] \<and> length s \<noteq> 1 then None
      else let volname = takeWhile (\<lambda>c. c \<noteq> colon) volname in
        if slash \<in> set volname then None else Some volname)"

definition mksfs_main :: "int \<Rightarrow> bool \<Rightarrow> bool \<Rightarrow> u8 list list \<Rightarrow> mkfs \<Rightarrow> stop option \<times> mkfs" where
  "mksfs_main op st cl argv d =
     (if length argv \<noteq> 3 then (Some (Exit 1), d)
      else run_steps
        [check,
         \<lambda>d. case volume_name (argv ! 2) of
               None \<Rightarrow> (Some (Exit 1), d)
             | Some volname \<Rightarrow> run_steps
                 [opendisk op st,
                  \<lambda>d. if diskblocksize d \<noteq> of_nat SFS_BLOCKSIZE then (Some (Exit 1), d) else (None, d),
                  \<lambda>d. writesuper volname (diskblocks d) d,
                  writerootdir,
                  \<lambda>d. writebitmap (diskblocks d) d,
                  closedisk cl] d,
         \<lambda>d. (Some (Exit 0), d)] d)"

section \<open>Writing blocks\<close>

text \<open>The calls of \<^verbatim>\<open>write\<close> that are still to come may be interrupted or short, but none fails.\<close>

definition benign :: "wres list \<Rightarrow> bool" where
  "benign ws \<longleftrightarrow> Werr \<notin> set ws \<and> Wrote 0 \<notin> set ws"

definition blocks :: "u8 list \<Rightarrow> u8 list list" where
  "blocks bs = map (\<lambda>k. chunk k bs) [0..<length bs div 512]"

lemma run_steps_append: "run_steps (fs @ gs) d = (case run_steps fs d of (None, d) \<Rightarrow> run_steps gs d | (Some s, d) \<Rightarrow> (Some s, d))"
  by (induction fs arbitrary: d) (auto split: prod.split option.split)

lemma put_at_inside: "p + length bs \<le> length img \<Longrightarrow> put_at p bs img = take p img @ bs @ drop (p + length bs) img"
  by (simp add: put_at_def)

lemma put_at_put_at: "p + length bs + length cs \<le> length img \<Longrightarrow> put_at (p + length bs) cs (put_at p bs img) = put_at p (bs @ cs) img"
  by (simp add: put_at_inside ac_simps)

lemma length_put_at [simp]: "p + length bs \<le> length img \<Longrightarrow> length (put_at p bs img) = length img"
  by (simp add: put_at_inside)

lemma write_loop_ok:
  assumes "benign ws" and "length data = 512" and "tot \<le> 512" and "fpos d = p + tot" and "p + 512 \<le> length (fbytes d)"
  shows "\<exists>ws'. benign ws' \<and> write_loop data tot ws d =
    (None, d\<lparr>fbytes := put_at (p + tot) (drop tot data) (fbytes d), fpos := p + 512, writes := ws'\<rparr>)"
  using assms
proof (induction ws arbitrary: tot d)
  case Nil
  then show ?case
    by (cases "tot < 512") (auto simp: BLOCKSIZE_def file_put_def put_at_inside benign_def intro!: exI [of _ "[]"])
next
  case (Cons w ws)
  have b: "benign ws" "w \<noteq> Werr" "w \<noteq> Wrote 0" using Cons.prems(1) by (auto simp: benign_def)
  show ?case
  proof (cases "tot < 512")
    case False
    then show ?thesis using Cons.prems by (auto simp: BLOCKSIZE_def put_at_inside)
  next
    case True
    show ?thesis
    proof (cases w)
      case (Wrote n)
      define len where "len = min n (512 - tot)"
      let ?d = "file_put (take len (drop tot data)) d"
      have len: "0 < len" "tot + len \<le> 512" using Wrote b(3) True by (simp_all add: len_def)
      have t: "length (take len (drop tot data)) = len" using len Cons.prems(2) by simp
      have "fpos ?d = p + (tot + len)" "length (fbytes ?d) = length (fbytes d)"
        using t Cons.prems len by (simp_all add: file_put_def)
      from Cons.IH [OF b(1) Cons.prems(2) len(2) this(1)] this Cons.prems(5) obtain ws' where
        ws': "benign ws'" "write_loop data (tot + len) ws ?d =
          (None, ?d\<lparr>fbytes := put_at (p + (tot + len)) (drop (tot + len) data) (fbytes ?d), fpos := p + 512, writes := ws'\<rparr>)" by auto
      have "put_at (p + (tot + len)) (drop (tot + len) data) (fbytes ?d) =
          put_at (p + tot) (take len (drop tot data) @ drop (tot + len) data) (fbytes d)"
        using put_at_put_at [of "p + tot" "take len (drop tot data)" "drop (tot + len) data" "fbytes d"] t len Cons.prems
        by (simp add: file_put_def add.assoc)
      also have "take len (drop tot data) @ drop (tot + len) data = drop tot data"
        by (metis append_take_drop_id drop_drop add.commute)
      finally have "?d\<lparr>fbytes := put_at (p + (tot + len)) (drop (tot + len) data) (fbytes ?d), fpos := p + 512, writes := ws'\<rparr> =
        d\<lparr>fbytes := put_at (p + tot) (drop tot data) (fbytes d), fpos := p + 512, writes := ws'\<rparr>" by (simp add: file_put_def)
      with ws' show ?thesis using Wrote True len
        by (intro exI [of _ ws']) (simp add: BLOCKSIZE_def Let_def len_def [symmetric])
    next
      case Again
      then show ?thesis using Cons.IH [OF b(1) Cons.prems(2-5)] True by (simp add: BLOCKSIZE_def)
    qed (use b in simp)
  qed
qed

lemma blocks_put_at:
  assumes "length img = n * 512" and "b < n" and "length data = 512"
  shows "blocks (put_at (b * 512) data img) = (blocks img)[b := data]"
proof (rule nth_equalityI)
  have l: "b * 512 + length data \<le> length img" using assms by simp
  then show len: "length (blocks (put_at (b * 512) data img)) = length ((blocks img)[b := data])" by (simp add: blocks_def)
  fix k
  assume "k < length (blocks (put_at (b * 512) data img))"
  then have k: "k < n" using assms l by (simp add: blocks_def)
  have "chunk k (put_at (b * 512) data img) = (if k = b then data else chunk k img)"
  proof (cases k b rule: linorder_cases)
    case less
    then have "take 512 (drop (k * 512) (take (b * 512) img)) = take 512 (drop (k * 512) img)" by (simp add: drop_take min_def)
    with less show ?thesis using assms k l by (simp add: put_at_inside chunk_def)
  next
    case greater
    then have "k * 512 - b * 512 - 512 + (b * 512 + 512) = k * 512" "512 \<le> k * 512 - b * 512" "k \<noteq> b" by simp_all
    then show ?thesis using assms k l by (simp add: put_at_inside chunk_def)
  qed (use assms l in \<open>simp add: put_at_inside chunk_def\<close>)
  then show "blocks (put_at (b * 512) data img) ! k = (blocks img)[b := data] ! k" using k assms l by (simp add: blocks_def)
qed

lemma diskwrite_ok:
  assumes "benign (writes d)" and "fd d \<ge> 0" and "length data = 512" and "length (fbytes d) = n * 512" and "unat b < n" and "n < 2 ^ 22"
  shows "\<exists>bs p ws. benign ws \<and> length bs = n * 512 \<and> blocks bs = (blocks (fbytes d))[unat b := data] \<and>
    diskwrite data b d = (None, d\<lparr>fbytes := bs, fpos := p, writes := ws\<rparr>)"
proof -
  have "unat (b * 512) = unat b * 512" using assms(5,6) by (simp add: unat_word_ariths)
  then have "sint (b * 512) = int (unat b * 512)" using assms(5,6) by (subst sint_small) (simp_all del: of_nat_unat)
  then have s: "nat (sint (b * 512)) = unat b * 512" "\<not> sint (b * 512) < 0" by (metis nat_int, metis of_nat_less_0_iff)
  have l: "unat b * 512 + 512 \<le> length (fbytes d)" using assms by simp
  from write_loop_ok [OF assms(1,3), of 0 "d\<lparr>fpos := unat b * 512\<rparr>" "unat b * 512"] l obtain ws where
    ws: "benign ws" "write_loop data 0 (writes d) (d\<lparr>fpos := unat b * 512\<rparr>) =
      (None, d\<lparr>fbytes := put_at (unat b * 512) data (fbytes d), fpos := unat b * 512 + 512, writes := ws\<rparr>)" by auto
  show ?thesis using ws s assms(2,3) l blocks_put_at [OF assms(4,5,3)] assms(4)
    by (intro exI [of _ "put_at (unat b * 512) data (fbytes d)"] exI [of _ "unat b * 512 + 512"] exI [of _ ws])
      (simp add: diskwrite_def BLOCKSIZE_def Let_def)
qed

section \<open>The free map\<close>

lemma doallocbit_ok:
  assumes "j < 8 * length (bitbuf d)" and "j < 2 ^ 32" and "\<not> b_bit (bitbuf d) j"
  shows "\<exists>v. doallocbit (of_nat j) d = (None, d\<lparr>bitbuf := v\<rparr>) \<and> length v = length (bitbuf d) \<and>
    (\<forall>i. b_bit v i \<longleftrightarrow> i = j \<or> b_bit (bitbuf d) i)"
proof -
  have u: "unat (of_nat j div 8 :: u32) = j div 8" "unat (of_nat j mod 8 :: u32) = j mod 8"
    using assms(2) by (simp_all add: unat_div unat_mod unat_of_nat)
  have j: "j div 8 < length (bitbuf d)" using assms(1) by simp
  let ?w = "bitbuf d ! (j div 8)"
  have c: "?w AND push_bit (j mod 8) 1 = 0" using assms(3) byte_mask_clear [of "j mod 8" ?w] by (simp add: b_bit_def push_bit_eq_mult)
  have "b_bit ((bitbuf d)[j div 8 := ?w OR push_bit (j mod 8) 1]) i = (if i = j then True else b_bit (bitbuf d) i)" for i
    by (rule b_bit_update [OF j]) (simp add: byte_mask_set push_bit_eq_mult)
  then show ?thesis using j c by (intro exI [of _ "(bitbuf d)[j div 8 := ?w OR push_bit (j mod 8) 1]"]) (simp add: doallocbit_def Let_def u)
qed

lemma allocbits_ok:
  assumes "distinct js" and "\<forall>j\<in>set js. j < 8 * length (bitbuf d) \<and> j < 2 ^ 32 \<and> \<not> b_bit (bitbuf d) j"
  shows "\<exists>v. run_steps (map (\<lambda>j. doallocbit (of_nat j)) js) d = (None, d\<lparr>bitbuf := v\<rparr>) \<and> length v = length (bitbuf d) \<and>
    (\<forall>i. b_bit v i \<longleftrightarrow> i \<in> set js \<or> b_bit (bitbuf d) i)"
  using assms
proof (induction js arbitrary: d)
  case Nil
  then show ?case by (auto intro!: exI [of _ "bitbuf d"])
next
  case (Cons j js)
  from doallocbit_ok [of j d] Cons.prems obtain v where v: "doallocbit (of_nat j) d = (None, d\<lparr>bitbuf := v\<rparr>)"
    "length v = length (bitbuf d)" "\<forall>i. b_bit v i \<longleftrightarrow> i = j \<or> b_bit (bitbuf d) i" by auto
  from Cons.IH [of "d\<lparr>bitbuf := v\<rparr>"] Cons.prems v(2,3) obtain v' where
    "run_steps (map (\<lambda>j. doallocbit (of_nat j)) js) (d\<lparr>bitbuf := v\<rparr>) = (None, d\<lparr>bitbuf := v'\<rparr>)" "length v' = length v"
    "\<forall>i. b_bit v' i \<longleftrightarrow> i \<in> set js \<or> b_bit v i" by auto
  with v show ?case by auto
qed

lemma mapwrites_ok:
  assumes "benign (writes d)" and "fd d \<ge> 0" and "length (fbytes d) = n * 512" and "n < 2 ^ 22" and "distinct ks"
    and "\<forall>i\<in>set ks. 2 + i < n \<and> (i + 1) * 512 \<le> length (bitbuf d)"
  shows "\<exists>bs p ws. benign ws \<and> length bs = n * 512 \<and>
    run_steps (map (\<lambda>i d. diskwrite (take SFS_BLOCKSIZE (drop (i * SFS_BLOCKSIZE) (bitbuf d))) (SFS_MAP_LOCATION + of_nat i) d) ks) d =
      (None, d\<lparr>fbytes := bs, fpos := p, writes := ws\<rparr>) \<and>
    (\<forall>k<n. blocks bs ! k = (if 2 \<le> k \<and> k - 2 \<in> set ks then chunk (k - 2) (bitbuf d) else blocks (fbytes d) ! k))"
  using assms
proof (induction ks arbitrary: d)
  case Nil
  then show ?case by (auto intro!: exI [of _ "fbytes d"] exI [of _ "fpos d"] exI [of _ "writes d"])
next
  case (Cons i ks)
  have c: "take SFS_BLOCKSIZE (drop (i * SFS_BLOCKSIZE) (bitbuf d)) = chunk i (bitbuf d)" by (simp add: chunk_def SFS_BLOCKSIZE_def)
  have l: "length (chunk i (bitbuf d)) = 512" using Cons.prems(6) by (auto simp: chunk_def)
  have u: "unat (SFS_MAP_LOCATION + of_nat i) = 2 + i" using Cons.prems(4,6) by (intro map_block) auto
  from diskwrite_ok [OF Cons.prems(1,2) l Cons.prems(3) _ Cons.prems(4), of "SFS_MAP_LOCATION + of_nat i"] Cons.prems(6) u obtain bs p ws where
    w: "benign ws" "length bs = n * 512" "blocks bs = (blocks (fbytes d))[2 + i := chunk i (bitbuf d)]"
      "diskwrite (chunk i (bitbuf d)) (SFS_MAP_LOCATION + of_nat i) d = (None, d\<lparr>fbytes := bs, fpos := p, writes := ws\<rparr>)" by auto
  from Cons.IH [of "d\<lparr>fbytes := bs, fpos := p, writes := ws\<rparr>"] Cons.prems w obtain bs' p' ws' where
    r: "benign ws'" "length bs' = n * 512"
      "run_steps (map (\<lambda>i d. diskwrite (take SFS_BLOCKSIZE (drop (i * SFS_BLOCKSIZE) (bitbuf d))) (SFS_MAP_LOCATION + of_nat i) d) ks)
         (d\<lparr>fbytes := bs, fpos := p, writes := ws\<rparr>) = (None, d\<lparr>fbytes := bs', fpos := p', writes := ws'\<rparr>)"
      "\<forall>k<n. blocks bs' ! k = (if 2 \<le> k \<and> k - 2 \<in> set ks then chunk (k - 2) (bitbuf d) else blocks bs ! k)" by auto
  have "blocks bs' ! k = (if 2 \<le> k \<and> k - 2 \<in> set (i # ks) then chunk (k - 2) (bitbuf d) else blocks (fbytes d) ! k)" if "k < n" for k
  proof -
    have "blocks bs ! k = (if k = 2 + i then chunk i (bitbuf d) else blocks (fbytes d) ! k)"
      using w(3) that Cons.prems(3) by (auto simp: nth_list_update blocks_def)
    then show ?thesis using r(4) that by auto
  qed
  then show ?case using r(1-3) w(4) by (intro exI [of _ bs'] exI [of _ p'] exI [of _ ws']) (simp add: c)
qed

section \<open>The whole program\<close>

text \<open>A volume of \<open>n\<close> blocks has room for its own structures and is not too large for the program; \<open>map_len n\<close> is the number of
  blocks of its free map.\<close>

definition map_len :: "nat \<Rightarrow> nat" where
  "map_len n = (n + 4095) div 4096"

definition size_ok :: "nat \<Rightarrow> bool" where
  "size_ok n \<longleftrightarrow> 2 + map_len n \<le> n \<and> n \<le> MAXBITBLOCKS * 4096"

lemma size_okD:
  assumes "size_ok n"
  shows "n < 2 ^ 22" "unat (of_nat n :: u32) = n" "map_len n \<le> 32" "n \<le> map_len n * 4096"
    "unat (SFS_BITMAPSIZE (of_nat n)) = map_len n * 4096" "unat (SFS_BITBLOCKS (of_nat n)) = map_len n"
proof -
  have "n \<le> 131072" using assms by (simp add: size_ok_def MAXBITBLOCKS_def)
  then show n: "n < 2 ^ 22" and u: "unat (of_nat n :: u32) = n" by (simp_all add: unat_of_nat)
  show "map_len n \<le> 32" "n \<le> map_len n * 4096" using \<open>n \<le> 131072\<close> by (auto simp: map_len_def)
  show "unat (SFS_BITMAPSIZE (of_nat n)) = map_len n * 4096" "unat (SFS_BITBLOCKS (of_nat n)) = map_len n"
    using bitmap_size [of "of_nat n"] n u by (simp_all add: map_len_def)
qed

definition map_bits :: "nat \<Rightarrow> nat list" where
  "map_bits n = [0, 1] @ [2..<2 + map_len n] @ [n..<map_len n * 4096]"

lemma writebitmap_steps:
  assumes "size_ok n"
  shows "writebitmap (of_nat n) d = run_steps (map (\<lambda>j. doallocbit (of_nat j)) (map_bits n) @
    map (\<lambda>i d. diskwrite (take SFS_BLOCKSIZE (drop (i * SFS_BLOCKSIZE) (bitbuf d))) (SFS_MAP_LOCATION + of_nat i) d) [0..<map_len n]) d"
proof -
  have "\<not> SFS_BITBLOCKS (of_nat n) > of_nat MAXBITBLOCKS"
    using size_okD [OF assms] by (simp add: word_less_nat_alt MAXBITBLOCKS_def)
  moreover have "map (\<lambda>j. doallocbit (of_nat j)) [2..<2 + map_len n] = map (\<lambda>i. doallocbit (SFS_MAP_LOCATION + of_nat i)) [0..<map_len n]"
  proof -
    have "[2..<2 + map_len n] = map (\<lambda>i. i + 2) [0..<map_len n]" by (simp only: map_add_upt add.commute)
    then show ?thesis by (simp only: map_map) (simp add: o_def SFS_MAP_LOCATION_def add.commute)
  qed
  ultimately show ?thesis using size_okD [OF assms]
    by (simp add: writebitmap_def map_bits_def Let_def SFS_SB_LOCATION_def SFS_ROOT_LOCATION_def del: run_steps.simps upt_Suc)
qed

lemma b_bit_zeros: "b_bit (replicate m 0) i \<longleftrightarrow> 8 * m \<le> i \<and> b_bit (replicate m 0) i"
  by (cases "i div 8 < m") (auto simp: b_bit_def)

lemma writebitmap_ok:
  assumes n: "size_ok n" and d: "benign (writes d)" "fd d \<ge> 0" "length (fbytes d) = n * 512" "bitbuf d = replicate (MAXBITBLOCKS * SFS_BLOCKSIZE) 0"
  shows "\<exists>v bs p ws. benign ws \<and> length bs = n * 512 \<and> writebitmap (of_nat n) d = (None, d\<lparr>bitbuf := v, fbytes := bs, fpos := p, writes := ws\<rparr>) \<and>
    length v = MAXBITBLOCKS * SFS_BLOCKSIZE \<and> (\<forall>i<map_len n * 4096. b_bit v i \<longleftrightarrow> i < 2 + map_len n \<or> n \<le> i) \<and>
    (\<forall>k<n. blocks bs ! k = (if 2 \<le> k \<and> k < 2 + map_len n then chunk (k - 2) v else blocks (fbytes d) ! k))"
proof -
  note s = size_okD [OF n]
  have l: "length (bitbuf d) = 16384" using d(4) by (simp add: MAXBITBLOCKS_def SFS_BLOCKSIZE_def)
  have z: "\<not> b_bit (bitbuf d) i" if "i < 131072" for i using that b_bit_zeros [of 16384 i] d(4) by (simp add: MAXBITBLOCKS_def SFS_BLOCKSIZE_def)
  have m: "map_len n * 4096 \<le> 131072" using s(3) by simp
  have "2 + map_len n \<le> n" using n by (simp add: size_ok_def)
  then have "distinct (map_bits n)" "\<forall>j\<in>set (map_bits n). j < 131072" using m s(3) by (auto simp: map_bits_def)
  from allocbits_ok [OF this(1), of d] this l z obtain v where v:
    "run_steps (map (\<lambda>j. doallocbit (of_nat j)) (map_bits n)) d = (None, d\<lparr>bitbuf := v\<rparr>)" "length v = 16384"
    "\<forall>i. b_bit v i \<longleftrightarrow> i \<in> set (map_bits n) \<or> b_bit (bitbuf d) i" by fastforce
  have "\<forall>i\<in>set [0..<map_len n]. 2 + i < n \<and> (i + 1) * 512 \<le> length v" using \<open>2 + map_len n \<le> n\<close> s(3) v(2) by auto
  from mapwrites_ok [of "d\<lparr>bitbuf := v\<rparr>" n "[0..<map_len n]"] this d s(1) obtain bs p ws where w: "benign ws" "length bs = n * 512"
    "run_steps (map (\<lambda>i d. diskwrite (take SFS_BLOCKSIZE (drop (i * SFS_BLOCKSIZE) (bitbuf d))) (SFS_MAP_LOCATION + of_nat i) d) [0..<map_len n]) (d\<lparr>bitbuf := v\<rparr>) =
      (None, d\<lparr>bitbuf := v, fbytes := bs, fpos := p, writes := ws\<rparr>)"
    "\<forall>k<n. blocks bs ! k = (if 2 \<le> k \<and> k - 2 \<in> set [0..<map_len n] then chunk (k - 2) v else blocks (fbytes d) ! k)" by auto
  have "\<forall>i<map_len n * 4096. b_bit v i \<longleftrightarrow> i < 2 + map_len n \<or> n \<le> i" using v(3) z m by (auto simp: map_bits_def)
  moreover have "\<forall>k<n. blocks bs ! k = (if 2 \<le> k \<and> k < 2 + map_len n then chunk (k - 2) v else blocks (fbytes d) ! k)"
    using w(4) by (auto simp: less_diff_conv2)
  ultimately show ?thesis using w(1-3) v(1,2)
    by (intro exI [of _ v] exI [of _ bs] exI [of _ p] exI [of _ ws])
      (simp add: writebitmap_steps [OF n] run_steps_append MAXBITBLOCKS_def SFS_BLOCKSIZE_def)
qed

lemma mksfs_main_ok:
  assumes name: "volume_name arg = Some name" "length name < SFS_VOLNAME_SIZE" and n: "size_ok n"
    and d: "fd d = - 1" "bitbuf d = replicate (MAXBITBLOCKS * SFS_BLOCKSIZE) 0" "length (fbytes d) = n * 512" "benign (writes d)" "op \<ge> 0"
  obtains d' v where "mksfs_main op True True [prog, path, arg] d = (Some (Exit 0), d')" "length (fbytes d') = n * 512"
    "length v = MAXBITBLOCKS * SFS_BLOCKSIZE" "\<forall>i<map_len n * 4096. b_bit v i \<longleftrightarrow> i < 2 + map_len n \<or> n \<le> i"
    "blocks (fbytes d') ! 0 = enc_super (zero_super\<lparr>sp_magic := SFS_MAGIC, sp_nblocks := of_nat n,
       sp_volname := name @ replicate (SFS_VOLNAME_SIZE - length name) 0\<rparr>)"
    "blocks (fbytes d') ! 1 = enc_inode (zero_inode\<lparr>sfi_type := SFS_TYPE_DIR, sfi_linkcount := 1\<rparr>)"
    "\<forall>k<map_len n. blocks (fbytes d') ! (2 + k) = chunk k v"
proof -
  note s = size_okD [OF n]
  have n2: "2 + map_len n \<le> n" using n by (simp add: size_ok_def)
  let ?s = "zero_super\<lparr>sp_magic := SFS_MAGIC, sp_nblocks := of_nat n, sp_volname := name @ replicate (SFS_VOLNAME_SIZE - length name) 0\<rparr>"
  let ?i = "zero_inode\<lparr>sfi_type := SFS_TYPE_DIR, sfi_linkcount := 1\<rparr>"
  have wf: "length (enc_super ?s) = 512" "length (enc_inode ?i) = 512"
    using name(2) by (simp_all add: super_wf_def inode_wf_def zero_super_def zero_inode_def SFS_VOLNAME_SIZE_def)
  let ?d = "d\<lparr>fd := op, nblocks := of_nat n\<rparr>"
  have "s32 (int (length (fbytes d))) = int n * 512" using s(1) d(3) by (subst s32_id) simp_all
  then have o: "opendisk op True d = (None, ?d)" using d(1,5) by (simp add: opendisk_def BLOCKSIZE_def cdiv_pos)
  from diskwrite_ok [of ?d "enc_super ?s" n SFS_SB_LOCATION] d(3,4,5) wf(1) s(1) n2 obtain bs1 p1 ws1 where
    w1: "benign ws1" "length bs1 = n * 512" "blocks bs1 = (blocks (fbytes d))[0 := enc_super ?s]"
      "diskwrite (enc_super ?s) SFS_SB_LOCATION ?d = (None, ?d\<lparr>fbytes := bs1, fpos := p1, writes := ws1\<rparr>)"
    by (auto simp: SFS_SB_LOCATION_def)
  from diskwrite_ok [of "?d\<lparr>fbytes := bs1, fpos := p1, writes := ws1\<rparr>" "enc_inode ?i" n SFS_ROOT_LOCATION] d(5) w1(1,2) wf(2) s(1) n2 obtain bs2 p2 ws2 where
    w2: "benign ws2" "length bs2 = n * 512" "blocks bs2 = (blocks bs1)[1 := enc_inode ?i]"
      "diskwrite (enc_inode ?i) SFS_ROOT_LOCATION (?d\<lparr>fbytes := bs1, fpos := p1, writes := ws1\<rparr>) = (None, ?d\<lparr>fbytes := bs2, fpos := p2, writes := ws2\<rparr>)"
    by (auto simp: SFS_ROOT_LOCATION_def)
  from writebitmap_ok [OF n, of "?d\<lparr>fbytes := bs2, fpos := p2, writes := ws2\<rparr>"] w2 d(2,5) obtain v bs p ws where
    w3: "length bs = n * 512" "writebitmap (of_nat n) (?d\<lparr>fbytes := bs2, fpos := p2, writes := ws2\<rparr>) = (None, ?d\<lparr>bitbuf := v, fbytes := bs, fpos := p, writes := ws\<rparr>)"
      "length v = MAXBITBLOCKS * SFS_BLOCKSIZE" "\<forall>i<map_len n * 4096. b_bit v i \<longleftrightarrow> i < 2 + map_len n \<or> n \<le> i"
      "\<forall>k<n. blocks bs ! k = (if 2 \<le> k \<and> k < 2 + map_len n then chunk (k - 2) v else blocks bs2 ! k)" by auto
  have c: "check d = (None, d)" by (simp add: check_def super_wf_def inode_wf_def dir_wf_def zero_super_def zero_inode_def SFS_BLOCKSIZE_def SFS_NAMELEN_def)
  have lb: "length (blocks (fbytes d)) = n" using d(3) by (simp add: blocks_def)
  show ?thesis
  proof (rule that [of "?d\<lparr>bitbuf := v, fbytes := bs, fpos := p, writes := ws, fd := - 1\<rparr>" v])
    show "mksfs_main op True True [prog, path, arg] d = (Some (Exit 0), ?d\<lparr>bitbuf := v, fbytes := bs, fpos := p, writes := ws, fd := - 1\<rparr>)"
      using name c o w1(4) w2(4) w3(2) d(5)
      by (simp add: mksfs_main_def writesuper_def writerootdir_def closedisk_def diskblocks_def diskblocksize_def BLOCKSIZE_def SFS_BLOCKSIZE_def zero_inode_def)
  qed (use w1(3) w2(3) w3 n2 lb in \<open>simp_all\<close>)
qed

text \<open>A disk with these blocks holds an empty volume.\<close>

lemma empty_volume:
  fixes dev :: lhd
  assumes name: "length name < SFS_VOLNAME_SIZE" "0 \<notin> set name" and n: "size_ok n"
    and d: "length bs = n * 512" "length v = MAXBITBLOCKS * SFS_BLOCKSIZE" "\<forall>i<map_len n * 4096. b_bit v i \<longleftrightarrow> i < 2 + map_len n \<or> n \<le> i"
    "blocks bs ! 0 = enc_super (zero_super\<lparr>sp_magic := SFS_MAGIC, sp_nblocks := of_nat n, sp_volname := name @ replicate (SFS_VOLNAME_SIZE - length name) 0\<rparr>)"
    "blocks bs ! 1 = enc_inode (zero_inode\<lparr>sfi_type := SFS_TYPE_DIR, sfi_linkcount := 1\<rparr>)" "\<forall>k<map_len n. blocks bs ! (2 + k) = chunk k v"
    and dev: "calm dev" "lh_sectors dev = blocks bs"
  shows "\<exists>fs. sfs_domount \<lparr>km_fs = True, km_array = True, km_bitmap = True, km_bits = True\<rparr> (of_nat SFS_BLOCKSIZE) dev = Some (EOK, Inr fs) \<and>
    fs_wf fs \<and> sfs_getvolname fs = name \<and> (\<forall>b. used fs b \<longleftrightarrow> unat b < 2 + map_len n) \<and>
    (\<exists>w fs'. sfs_getroot \<lparr>km_vnode = True, km_lock = True, km_table = True\<rparr> fs = Some (w, fs') \<and>
       (\<forall>nm. sfs_dir_findname w nm fs' = Some (ENOENT, None, None, fs')))"
proof -
  note s = size_okD [OF n]
  let ?s = "zero_super\<lparr>sp_magic := SFS_MAGIC, sp_nblocks := of_nat n, sp_volname := name @ replicate (SFS_VOLNAME_SIZE - length name) 0\<rparr>"
  let ?i = "zero_inode\<lparr>sfi_type := SFS_TYPE_DIR, sfi_linkcount := 1\<rparr>"
  let ?v = "take (map_len n * 512) v"
  have n2: "2 + map_len n \<le> n" using n by (simp add: size_ok_def)
  have lv: "map_len n * 512 \<le> length v" using d(2) s(3) by (simp add: MAXBITBLOCKS_def SFS_BLOCKSIZE_def)
  have lb: "length (lh_sectors dev) = n" using d(1) dev(2) by (simp add: blocks_def)
  have so: "super_ok ?s" using name(1) by (simp add: super_ok_def super_wf_def zero_super_def SFS_VOLNAME_SIZE_def nth_append)
  have ch: "chunk k ?v = chunk k v" if "k < map_len n" for k using that by (simp add: chunk_def drop_take min_def)
  obtain fs where f: "sfs_domount \<lparr>km_fs = True, km_array = True, km_bitmap = True, km_bits = True\<rparr> (of_nat SFS_BLOCKSIZE) dev = Some (EOK, Inr fs)"
    "sfs_super fs = ?s" "sfs_freemap fs = \<lparr>b_nbits = SFS_BITMAPSIZE (sp_nblocks ?s), b_v = ?v\<rparr>" "lh_sectors fs = lh_sectors dev" "calm fs"
    "sfs_vnodes fs = \<lparr>a_num = 0, a_max = 0, a_v = None\<rparr>"
    by (rule mount_ok [OF dev(1) so, of "map_len n" ?v]) (use s(2,6) n2 lb lv d(4,6) dev(2) ch in simp_all)
  have nb: "unat (b_nbits (sfs_freemap fs)) = map_len n * 4096" "length (b_v (sfs_freemap fs)) = map_len n * 512"
    using f(3) s(5) lv by simp_all
  have bits: "b_bits (sfs_freemap fs) ! i \<longleftrightarrow> i < 2 + map_len n \<or> n \<le> i" if "i < map_len n * 4096" for i
    using that d(3) nb lv by (simp add: nth_b_bits f(3) b_bit_def)
  have inv: "b_inv (sfs_freemap fs)" using nb s(3) by (simp add: b_inv_def)
  have u: "used fs b \<longleftrightarrow> unat b < 2 + map_len n" for b
    using bits [of "unat b"] s(2,4) n2 f(2) by (auto simp: used_def word_less_nat_alt)
  have wf: "fs_wf fs" using f(2,4,5) inv nb(1) bits lb s(2,4) u [of 0] by (simp add: fs_wf_def word_le_nat_alt list_all_iff)
  have vn: "sfs_getvolname fs = name" using name(2) f(2) by (auto simp: sfs_getvolname_def cstr_def takeWhile_append takeWhile_replicate)
  have iw: "inode_wf ?i" by (simp add: inode_wf_def zero_inode_def)
  have r: "dec_inode (lh_sectors fs ! 1) = ?i" using d(5) f(4) dev(2) iw by simp
  have "sfs_bused SFS_ROOT_LOCATION fs = Some True" by (rule bused_used [OF wf]) (simp add: u SFS_ROOT_LOCATION_def)
  from loadvnode_fresh [OF f(5,6) this] r lb f(4) n2 obtain w fs' sw where
    "sfs_loadvnode \<lparr>km_vnode = True, km_lock = True, km_table = True\<rparr> SFS_ROOT_LOCATION SFS_TYPE_INVAL fs = Some (EOK, w, fs')"
    "sfs_v fs' w = Some sw" "sv_i sw = ?i" by (auto simp: SFS_ROOT_LOCATION_def)
  then have "\<exists>w fs'. sfs_getroot \<lparr>km_vnode = True, km_lock = True, km_table = True\<rparr> fs = Some (w, fs') \<and>
       (\<forall>nm. sfs_dir_findname w nm fs' = Some (ENOENT, None, None, fs'))"
    by (intro exI [of _ w] exI [of _ fs']) (simp add: sfs_getroot_def sfs_dir_findname_def sfs_dir_nentries_def zero_inode_def)
  then show ?thesis using f(1) wf vn u by blast
qed

section \<open>Property\<close>

text \<open>C25. What \<^verbatim>\<open>mksfs\<close> writes is a volume the kernel can mount: given a legal name and a disk of a size that the program supports,
  it ends with exit status 0 however its calls of \<^verbatim>\<open>write\<close> are cut short or interrupted, and mounting the disk succeeds. The
  volume then has the given name, satisfies the invariant of the file system, has marked exactly the superblock, the
  root inode and the free map as in use, and its root directory has no entry.\<close>

theorem mksfs_mounts:
  assumes name: "volume_name arg = Some name" "length name < SFS_VOLNAME_SIZE" "0 \<notin> set name" and n: "size_ok n"
    and d: "fd d = - 1" "bitbuf d = replicate (MAXBITBLOCKS * SFS_BLOCKSIZE) 0" "length (fbytes d) = n * 512" "benign (writes d)" "op \<ge> 0"
  shows "\<exists>d'. mksfs_main op True True [prog, path, arg] d = (Some (Exit 0), d') \<and> length (fbytes d') = length (fbytes d) \<and>
    (\<forall>dev. calm dev \<and> lh_sectors dev = blocks (fbytes d') \<longrightarrow>
      (\<exists>fs. sfs_domount \<lparr>km_fs = True, km_array = True, km_bitmap = True, km_bits = True\<rparr> (of_nat SFS_BLOCKSIZE) dev = Some (EOK, Inr fs) \<and>
        fs_wf fs \<and> sfs_getvolname fs = name \<and> (\<forall>b. used fs b \<longleftrightarrow> unat b < 2 + map_len n) \<and>
        (\<exists>v fs'. sfs_getroot \<lparr>km_vnode = True, km_lock = True, km_table = True\<rparr> fs = Some (v, fs') \<and>
           (\<forall>nm. sfs_dir_findname v nm fs' = Some (ENOENT, None, None, fs')))))"
proof -
  obtain d' v where r: "mksfs_main op True True [prog, path, arg] d = (Some (Exit 0), d')" and m: "length (fbytes d') = n * 512"
    "length v = MAXBITBLOCKS * SFS_BLOCKSIZE" "\<forall>i<map_len n * 4096. b_bit v i \<longleftrightarrow> i < 2 + map_len n \<or> n \<le> i"
    "blocks (fbytes d') ! 0 = enc_super (zero_super\<lparr>sp_magic := SFS_MAGIC, sp_nblocks := of_nat n,
       sp_volname := name @ replicate (SFS_VOLNAME_SIZE - length name) 0\<rparr>)"
    "blocks (fbytes d') ! 1 = enc_inode (zero_inode\<lparr>sfi_type := SFS_TYPE_DIR, sfi_linkcount := 1\<rparr>)"
    "\<forall>k<map_len n. blocks (fbytes d') ! (2 + k) = chunk k v" by (rule mksfs_main_ok [OF name(1,2) n d])
  show ?thesis using r m(1) d(3) empty_volume [OF name(2,3) n m] by metis
qed

definition ex_mkfs :: mkfs where
  "ex_mkfs = \<lparr>fd = - 1, nblocks = 0, bitbuf = replicate (MAXBITBLOCKS * SFS_BLOCKSIZE) 0, fbytes = replicate 4096 0, fpos = 0,
     writes = [Again, Wrote 100]\<rparr>"

theorem mksfs_mounts_witness:
  "\<exists>d' fs. mksfs_main 3 True True [[], [], [118, 111, 108, colon]] ex_mkfs = (Some (Exit 0), d') \<and>
     sfs_domount \<lparr>km_fs = True, km_array = True, km_bitmap = True, km_bits = True\<rparr> (of_nat SFS_BLOCKSIZE)
       ((ex_disk [])\<lparr>lh_sectors := blocks (fbytes d')\<rparr>) = Some (EOK, Inr fs) \<and>
     sfs_getvolname fs = [118, 111, 108] \<and> used fs 2 \<and> \<not> used fs 3"
proof -
  have "volume_name [118, 111, 108, colon] = Some [118, 111, 108]" by (simp add: volume_name_def colon_def slash_def)
  moreover have "map_len 8 = 1" "size_ok 8" by (simp_all add: size_ok_def map_len_def MAXBITBLOCKS_def)
  moreover have "length (fbytes ex_mkfs) = 8 * 512" "fd ex_mkfs = - 1" "benign (writes ex_mkfs)"
    "bitbuf ex_mkfs = replicate (MAXBITBLOCKS * SFS_BLOCKSIZE) 0" by (simp_all add: ex_mkfs_def benign_def)
  ultimately obtain d' where d': "mksfs_main 3 True True [[], [], [118, 111, 108, colon]] ex_mkfs = (Some (Exit 0), d')"
    and l: "length (fbytes d') = 4096" and m: "\<forall>dev. calm dev \<and> lh_sectors dev = blocks (fbytes d') \<longrightarrow>
      (\<exists>fs. sfs_domount \<lparr>km_fs = True, km_array = True, km_bitmap = True, km_bits = True\<rparr> (of_nat SFS_BLOCKSIZE) dev = Some (EOK, Inr fs) \<and>
        sfs_getvolname fs = [118, 111, 108] \<and> (\<forall>b. used fs b \<longleftrightarrow> unat b < 3))"
    using mksfs_mounts [of "[118, 111, 108, colon]" "[118, 111, 108]" 8 ex_mkfs 3 "[]" "[]"] by (fastforce simp: SFS_VOLNAME_SIZE_def)
  from l have "calm ((ex_disk [])\<lparr>lh_sectors := blocks (fbytes d')\<rparr>)"
    by (auto simp: calm_def lhd_ok_def ex_disk_def blocks_def chunk_def list_all_iff)
  with m show ?thesis using d' by force
qed

end
