(* ===== verification/Catlock.thy ===== *)
theory Catlock
  imports Prelude
begin

text \<open>
  \<^verbatim>\<open>src/src/kern/asst1/catlock.c\<close>: cats and mice that share two dishes, with a lock and condition variables.

  A thread that holds the lock runs alone until it releases the lock or waits on a condition variable, so that one step
  of the model is what an animal, or the thread that runs \<^verbatim>\<open>catmouselock\<close>, does between two such points. \<open>pc\<close> is where an
  animal is: asleep on a condition variable or awake and about to take the lock again. \<^verbatim>\<open>cv_broadcast\<close> wakes
  every sleeper and \<^verbatim>\<open>cv_signal\<close> one of them, which one is an argument of the step.
\<close>

section \<open>The code\<close>

definition NFOODBOWLS :: nat where "NFOODBOWLS = 2"
definition NCATS :: nat where "NCATS = 6"
definition NMICE :: nat where "NMICE = 2"
definition TURN_COUNT :: int where "TURN_COUNT = 2"
definition CAT_CODE :: int where "CAT_CODE = 1"
definition MOUSE_CODE :: int where "MOUSE_CODE = 2"

datatype animal = Cat nat | Mouse nat

datatype pc = Unborn | Start | AsleepTurn | AwakeTurn | AsleepDish | AwakeDish | Eating nat | Done

datatype main_pc = Forking nat | Locking | AsleepDone | AwakeDone | Returned

record guardian =
  dishes :: "int list"
  cats_done :: int
  mice_done :: int
  cats_admitted_this_turn :: int
  mice_admitted_this_turn :: int
  cats_left_this_turn :: int
  mice_left_this_turn :: int
  cats_waiting :: int
  mice_waiting :: int
  whos_turn :: int
  animals :: "animal \<Rightarrow> pc"
  main :: main_pc

definition at_pc :: "animal \<Rightarrow> pc \<Rightarrow> guardian \<Rightarrow> guardian" where
  "at_pc a p g = g\<lparr>animals := (animals g)(a := p)\<rparr>"

definition clear_turn_counters :: "guardian \<Rightarrow> guardian" where
  "clear_turn_counters g = g\<lparr>cats_admitted_this_turn := 0, mice_admitted_this_turn := 0, cats_left_this_turn := 0, mice_left_this_turn := 0\<rparr>"

definition catmouse_global_init :: "guardian" where
  "catmouse_global_init = clear_turn_counters
     \<lparr>dishes = replicate NFOODBOWLS 0, cats_done = 0, mice_done = 0, cats_admitted_this_turn = 0, mice_admitted_this_turn = 0,
      cats_left_this_turn = 0, mice_left_this_turn = 0, cats_waiting = 0, mice_waiting = 0, whos_turn = 0,
      animals = (\<lambda>_. Unborn), main = Forking 0\<rparr>"

text \<open>The sleepers of \<^verbatim>\<open>cat_turn\<close> and \<^verbatim>\<open>mouse_turn\<close>, of \<^verbatim>\<open>empty_dish\<close> and of \<^verbatim>\<open>all_done\<close>.\<close>

fun is_cat :: "animal \<Rightarrow> bool" where
  "is_cat (Cat i) = True"
| "is_cat (Mouse i) = False"

definition broadcast_cat_turn :: "guardian \<Rightarrow> guardian" where
  "broadcast_cat_turn g = g\<lparr>animals := (\<lambda>a. if is_cat a \<and> animals g a = AsleepTurn then AwakeTurn else animals g a)\<rparr>"

definition broadcast_mouse_turn :: "guardian \<Rightarrow> guardian" where
  "broadcast_mouse_turn g = g\<lparr>animals := (\<lambda>a. if \<not> is_cat a \<and> animals g a = AsleepTurn then AwakeTurn else animals g a)\<rparr>"

definition signal_empty_dish :: "animal \<Rightarrow> guardian \<Rightarrow> guardian" where
  "signal_empty_dish w g = (if animals g w = AsleepDish then at_pc w AwakeDish g else g)"

definition signal_all_done :: "guardian \<Rightarrow> guardian" where
  "signal_all_done g = (if main g = AsleepDone then g\<lparr>main := AwakeDone\<rparr> else g)"

definition check_finished :: "int \<Rightarrow> guardian \<Rightarrow> guardian kern" where
  "check_finished my_type g =
     do {
       g \<leftarrow> (if my_type = CAT_CODE then Some (g\<lparr>cats_done := cats_done g + 1\<rparr>)
             else if my_type = MOUSE_CODE then Some (g\<lparr>mice_done := mice_done g + 1\<rparr>) else None);
       Some (if cats_done g = int NCATS \<and> mice_done g = int NMICE then signal_all_done g else g)
     }"

definition get_empty_dish :: "guardian \<Rightarrow> int" where
  "get_empty_dish g = (let i = length (takeWhile (\<lambda>d. d \<noteq> 0) (dishes g)) in if i = NFOODBOWLS then - 1 else int i)"

text \<open>The end of \<^verbatim>\<open>petition_guardian\<close>, from the search for a dish on.\<close>

definition dish_loop :: "animal \<Rightarrow> int \<Rightarrow> guardian \<Rightarrow> guardian kern" where
  "dish_loop a my_type g =
     (let my_bowl = get_empty_dish g in
      if my_bowl = - 1 then Some (at_pc a AsleepDish g)
      else Some (at_pc a (Eating (nat my_bowl)) (g\<lparr>dishes := (dishes g)[nat my_bowl := my_type]\<rparr>)))"

text \<open>The loops of \<^verbatim>\<open>cat_turn_logic\<close> and \<^verbatim>\<open>mouse_turn_logic\<close> and what follows them.\<close>

definition cat_turn_loop :: "animal \<Rightarrow> guardian \<Rightarrow> guardian kern" where
  "cat_turn_loop a g =
     (if whos_turn g \<noteq> CAT_CODE \<or> cats_admitted_this_turn g \<ge> TURN_COUNT then Some (at_pc a AsleepTurn g)
      else do {
        let g = g\<lparr>cats_waiting := cats_waiting g - 1, cats_admitted_this_turn := cats_admitted_this_turn g + 1\<rparr>;
        kassert (cats_admitted_this_turn g \<le> TURN_COUNT);
        kassert (cats_waiting g \<ge> 0);
        dish_loop a CAT_CODE g
      })"

definition cat_turn_logic :: "animal \<Rightarrow> guardian \<Rightarrow> guardian kern" where
  "cat_turn_logic a g = cat_turn_loop a (g\<lparr>cats_waiting := cats_waiting g + 1\<rparr>)"

definition mouse_turn_loop :: "animal \<Rightarrow> guardian \<Rightarrow> guardian kern" where
  "mouse_turn_loop a g =
     (if whos_turn g \<noteq> MOUSE_CODE \<or> mice_admitted_this_turn g \<ge> TURN_COUNT then Some (at_pc a AsleepTurn g)
      else do {
        let g = g\<lparr>mice_waiting := mice_waiting g - 1, mice_admitted_this_turn := mice_admitted_this_turn g + 1\<rparr>;
        kassert (mice_admitted_this_turn g \<le> TURN_COUNT);
        kassert (mice_waiting g \<ge> 0);
        dish_loop a MOUSE_CODE g
      })"

definition mouse_turn_logic :: "animal \<Rightarrow> guardian \<Rightarrow> guardian kern" where
  "mouse_turn_logic a g = mouse_turn_loop a (g\<lparr>mice_waiting := mice_waiting g + 1\<rparr>)"

definition cat_end_turn_logic :: "guardian \<Rightarrow> guardian" where
  "cat_end_turn_logic g =
     (let g = g\<lparr>cats_left_this_turn := cats_left_this_turn g + 1\<rparr> in
      if cats_left_this_turn g < cats_admitted_this_turn g then g
      else if cats_left_this_turn g < TURN_COUNT \<and> cats_waiting g > 0 then g
      else clear_turn_counters
        (if mice_waiting g \<noteq> 0 then broadcast_mouse_turn (g\<lparr>whos_turn := MOUSE_CODE\<rparr>)
         else if cats_waiting g \<noteq> 0 then broadcast_cat_turn g
         else g\<lparr>whos_turn := 0\<rparr>))"

definition mouse_end_turn_logic :: "guardian \<Rightarrow> guardian" where
  "mouse_end_turn_logic g =
     (let g = g\<lparr>mice_left_this_turn := mice_left_this_turn g + 1\<rparr> in
      if mice_left_this_turn g < mice_admitted_this_turn g then g
      else if mice_left_this_turn g < TURN_COUNT \<and> mice_waiting g > 0 then g
      else clear_turn_counters
        (if cats_waiting g \<noteq> 0 then broadcast_cat_turn (g\<lparr>whos_turn := CAT_CODE\<rparr>)
         else if mice_waiting g \<noteq> 0 then broadcast_mouse_turn g
         else g\<lparr>whos_turn := 0\<rparr>))"

definition petition_guardian :: "animal \<Rightarrow> int \<Rightarrow> guardian \<Rightarrow> guardian kern" where
  "petition_guardian a my_type g =
     do {
       let g = (if whos_turn g = 0 then g\<lparr>whos_turn := my_type\<rparr> else g);
       kassert (my_type = CAT_CODE \<or> my_type = MOUSE_CODE);
       if my_type = CAT_CODE then cat_turn_logic a g else mouse_turn_logic a g
     }"

definition return_dish_to_guardian :: "animal \<Rightarrow> int \<Rightarrow> nat \<Rightarrow> guardian \<Rightarrow> guardian kern" where
  "return_dish_to_guardian w type my_dish g =
     do {
       kassert (my_dish < length (dishes g));
       let g = g\<lparr>dishes := (dishes g)[my_dish := 0]\<rparr>;
       kassert (type = CAT_CODE \<or> type = MOUSE_CODE);
       let g = (if type = CAT_CODE then cat_end_turn_logic g else mouse_end_turn_logic g);
       check_finished type (signal_empty_dish w g)
     }"

text \<open>\<^verbatim>\<open>catlock\<close> and \<^verbatim>\<open>mouselock\<close>, one step of them; what \<^verbatim>\<open>eat\<close> prints and how long it takes makes no difference to the others.\<close>

definition catlock :: "animal \<Rightarrow> nat \<Rightarrow> guardian \<Rightarrow> guardian kern" where
  "catlock w catnumber g =
     (let a = Cat catnumber in
      case animals g a of
        Start \<Rightarrow> petition_guardian a CAT_CODE g
      | AwakeTurn \<Rightarrow> cat_turn_loop a g
      | AwakeDish \<Rightarrow> dish_loop a CAT_CODE g
      | Eating my_dish \<Rightarrow> return_dish_to_guardian w CAT_CODE my_dish (at_pc a Done g)
      | _ \<Rightarrow> None)"

definition mouselock :: "animal \<Rightarrow> nat \<Rightarrow> guardian \<Rightarrow> guardian kern" where
  "mouselock w mousenumber g =
     (let a = Mouse mousenumber in
      case animals g a of
        Start \<Rightarrow> petition_guardian a MOUSE_CODE g
      | AwakeTurn \<Rightarrow> mouse_turn_loop a g
      | AwakeDish \<Rightarrow> dish_loop a MOUSE_CODE g
      | Eating my_dish \<Rightarrow> return_dish_to_guardian w MOUSE_CODE my_dish (at_pc a Done g)
      | _ \<Rightarrow> None)"

text \<open>\<^verbatim>\<open>catmouselock\<close> after the initialisation, one step of it: a thread for each animal, then the wait. Every \<^verbatim>\<open>thread_fork\<close> succeeds,
  or the kernel panics.\<close>

definition catmouselock :: "bool \<Rightarrow> guardian \<Rightarrow> guardian kern" where
  "catmouselock fork_ok g =
     (case main g of
        Forking k \<Rightarrow>
          if k < NCATS then do { kassert fork_ok; Some (at_pc (Cat k) Start (g\<lparr>main := Forking (k + 1)\<rparr>)) }
          else if k < NCATS + NMICE then do { kassert fork_ok; Some (at_pc (Mouse (k - NCATS)) Start (g\<lparr>main := Forking (k + 1)\<rparr>)) }
          else Some (g\<lparr>main := Locking\<rparr>)
      | Locking \<Rightarrow> Some (g\<lparr>main := AsleepDone\<rparr>)
      | AwakeDone \<Rightarrow> Some (g\<lparr>main := Returned\<rparr>)
      | _ \<Rightarrow> None)"

text \<open>The threads that can run, and whom a signal on \<^verbatim>\<open>empty_dish\<close> can wake.\<close>

definition runs :: "pc \<Rightarrow> bool" where
  "runs p \<longleftrightarrow> p \<notin> {Unborn, AsleepTurn, AsleepDish, Done}"

definition wakes :: "animal \<Rightarrow> guardian \<Rightarrow> bool" where
  "wakes w g \<longleftrightarrow> animals g w = AsleepDish \<or> (\<forall>b. animals g b \<noteq> AsleepDish)"

inductive cm_step :: "guardian \<Rightarrow> guardian \<Rightarrow> bool" where
  cat: "i < NCATS \<Longrightarrow> runs (animals g (Cat i)) \<Longrightarrow> wakes w g \<Longrightarrow> catlock w i g = Some g' \<Longrightarrow> cm_step g g'"
| mouse: "i < NMICE \<Longrightarrow> runs (animals g (Mouse i)) \<Longrightarrow> wakes w g \<Longrightarrow> mouselock w i g = Some g' \<Longrightarrow> cm_step g g'"
| main: "catmouselock True g = Some g' \<Longrightarrow> cm_step g g'"

section \<open>Counting\<close>

definition cnt :: "(pc \<Rightarrow> bool) \<Rightarrow> animal list \<Rightarrow> (animal \<Rightarrow> pc) \<Rightarrow> int" where
  "cnt P as f = int (length (filter (\<lambda>a. P (f a)) as))"

lemma cnt_upd: "distinct as \<Longrightarrow> cnt P as (f(a := p)) = (if a \<in> set as then cnt P as f - of_bool (P (f a)) + of_bool (P p) else cnt P as f)"
proof (induction as)
  case (Cons b as)
  have "filter (\<lambda>x. P ((f(a := p)) x)) as = filter (\<lambda>x. P (f x)) as" if "a \<notin> set as"
    using that by (intro filter_cong) auto
  with Cons show ?case by (auto simp: cnt_def)
qed (simp add: cnt_def)

lemma cnt_cong: "(\<And>a. a \<in> set as \<Longrightarrow> P (f a) = Q (h a)) \<Longrightarrow> cnt P as f = cnt Q as h"
  unfolding cnt_def by (simp cong: filter_cong)

lemma cnt_pos: "0 < cnt P as f \<longleftrightarrow> (\<exists>a\<in>set as. P (f a))"
  by (auto simp: cnt_def filter_empty_conv)

lemma cnt_nonneg [simp]: "0 \<le> cnt P as f"
  by (simp add: cnt_def)

lemma cnt_two:
  assumes "a \<in> set as" "b \<in> set as" "a \<noteq> b" "P (f a)" "P (f b)"
  shows "2 \<le> cnt P as f"
proof -
  have "card {a, b} \<le> card (set (filter (\<lambda>x. P (f x)) as))" using assms by (intro card_mono) auto
  also have "\<dots> \<le> length (filter (\<lambda>x. P (f x)) as)" by (rule card_length)
  finally show ?thesis using assms(3) by (simp add: cnt_def)
qed

section \<open>One kind of animal\<close>

fun eats :: "pc \<Rightarrow> bool" where
  "eats (Eating d) = True"
| "eats _ = False"

text \<open>What holds of the counters of one kind: \<open>code\<close> is its code, \<open>adm\<close>, \<open>left\<close>, \<open>wait\<close> and \<open>dn\<close> its counters, \<open>t\<close> whose turn it is.\<close>

definition side_ok :: "int \<Rightarrow> animal list \<Rightarrow> int \<Rightarrow> int \<Rightarrow> int \<Rightarrow> int \<Rightarrow> int \<Rightarrow> (animal \<Rightarrow> pc) \<Rightarrow> bool" where
  "side_ok code as adm left wait dn t f \<longleftrightarrow> 0 \<le> left \<and> left \<le> adm \<and> left < 2 \<and> adm \<le> 2 \<and>
     adm - left = cnt eats as f \<and> wait = cnt ((=) AsleepTurn) as f + cnt ((=) AwakeTurn) as f \<and> dn = cnt ((=) Done) as f \<and>
     cnt ((=) AsleepDish) as f = 0 \<and> cnt ((=) AwakeDish) as f = 0 \<and>
     (t \<noteq> code \<longrightarrow> adm = 0) \<and> (t = 0 \<longrightarrow> wait = 0) \<and>
     (t = code \<and> adm < 2 \<longrightarrow> cnt ((=) AsleepTurn) as f = 0) \<and>
     (t = code \<longrightarrow> left < adm \<or> 0 < cnt ((=) AwakeTurn) as f)"

lemma cnt_one: "a \<in> set as \<Longrightarrow> P (f a) \<Longrightarrow> 1 \<le> cnt P as f"
  using cnt_pos [of P as f] by fastforce

lemma side_other: "distinct as \<Longrightarrow> a \<notin> set as \<Longrightarrow> side_ok c as adm left wait dn t (f(a := p)) = side_ok c as adm left wait dn t f"
  by (auto simp: side_ok_def cnt_upd)

lemma side_born: "side_ok c as adm left wait dn t f \<Longrightarrow> distinct as \<Longrightarrow> f a = Unborn \<Longrightarrow> side_ok c as adm left wait dn t (f(a := Start))"
  by (auto simp: side_ok_def cnt_upd)

lemma side_enter:
  "side_ok c as adm left wait dn t f \<Longrightarrow> distinct as \<Longrightarrow> a \<in> set as \<Longrightarrow> f a = Start \<Longrightarrow> t \<noteq> 0 \<Longrightarrow> t \<noteq> c \<or> 2 \<le> adm \<Longrightarrow>
   side_ok c as adm left (wait + 1) dn t (f(a := AsleepTurn))"
  by (auto simp: side_ok_def cnt_upd)

lemma side_again:
  "side_ok c as adm left wait dn t f \<Longrightarrow> distinct as \<Longrightarrow> a \<in> set as \<Longrightarrow> f a = AwakeTurn \<Longrightarrow> t \<noteq> c \<or> 2 \<le> adm \<Longrightarrow>
   side_ok c as adm left wait dn t (f(a := AsleepTurn))"
  by (auto simp: side_ok_def cnt_upd)

lemma side_claim:
  "side_ok c as adm left wait dn 0 f \<Longrightarrow> c \<noteq> 0 \<Longrightarrow> adm = 0 \<and> left = 0 \<and> wait = 0 \<and> (t \<noteq> c \<longrightarrow> side_ok c as adm left wait dn t f)"
  by (auto simp: side_ok_def)

text \<open>An animal is admitted in its turn, or claims the turn nobody has.\<close>

lemma side_admit:
  assumes "side_ok c as adm left wait dn t f" "distinct as" "a \<in> set as" "t = c \<or> t = 0 \<and> c \<noteq> 0" "adm < 2"
  shows "f a = Start \<Longrightarrow> side_ok c as (adm + 1) left wait dn c (f(a := Eating d))"
    "f a = AwakeTurn \<Longrightarrow> side_ok c as (adm + 1) left (wait - 1) dn c (f(a := Eating d))"
  using assms cnt_one [of a as "(=) AwakeTurn" f] cnt_nonneg [of "(=) AsleepTurn" as f] cnt_nonneg [of "(=) AwakeTurn" as f]
  by (auto simp: side_ok_def cnt_upd simp del: cnt_nonneg)

text \<open>After an animal has left, the turn stays (first case) or is over.\<close>

lemma side_leave:
  assumes "side_ok c as adm left wait dn t f" and "distinct as" "a \<in> set as" "f a = Eating d" "t = c"
  shows "left + 1 \<le> adm" "left + 1 < adm \<or> left + 1 < 2 \<and> 0 < wait \<Longrightarrow> side_ok c as adm (left + 1) wait (dn + 1) t (f(a := Done))"
    "left + 1 \<ge> adm \<Longrightarrow> t' \<noteq> c \<Longrightarrow> t' \<noteq> 0 \<or> wait = 0 \<Longrightarrow> side_ok c as 0 0 wait (dn + 1) t' (f(a := Done))"
    "left + 1 \<ge> adm \<Longrightarrow> cnt eats as (f(a := Done)) = 0"
  using assms cnt_one [of a as eats f] by (auto simp: side_ok_def cnt_upd)

text \<open>The turn is given to those who wait.\<close>

lemma side_broadcast:
  assumes "side_ok c as 0 0 wait dn t f" and "wait \<noteq> 0" and "t' \<noteq> 0" and "\<And>a. a \<in> set as \<Longrightarrow> h a = (if f a = AsleepTurn then AwakeTurn else f a)"
  shows "side_ok c as 0 0 wait dn t' h"
proof -
  have "cnt eats as h = cnt eats as f" "cnt ((=) Done) as h = cnt ((=) Done) as f" "cnt ((=) AsleepDish) as h = cnt ((=) AsleepDish) as f"
    "cnt ((=) AwakeDish) as h = cnt ((=) AwakeDish) as f"
    using assms(4) by (auto intro!: cnt_cong split: if_splits)
  moreover have "cnt ((=) AsleepTurn) as h = 0" using assms(4) by (auto simp: cnt_def filter_empty_conv split: if_splits)
  moreover have "cnt ((=) AwakeTurn) as h = cnt ((=) AsleepTurn) as f + cnt ((=) AwakeTurn) as f"
    using assms(4) by (induction as) (auto simp: cnt_def split: if_splits)
  ultimately show ?thesis using assms(1-3) cnt_nonneg [of "(=) AsleepTurn" as f] cnt_nonneg [of "(=) AwakeTurn" as f]
    by (auto simp: side_ok_def simp del: cnt_nonneg)
qed

lemma side_same:
  assumes "\<And>a. a \<in> set as \<Longrightarrow> h a = f a"
  shows "side_ok c as adm left wait dn t h = side_ok c as adm left wait dn t f"
proof -
  have "cnt P as h = cnt P as f" for P using assms by (auto intro!: cnt_cong)
  then show ?thesis by (simp add: side_ok_def)
qed

section \<open>The invariant\<close>

definition cats :: "animal list" where
  "cats = map Cat [0..<NCATS]"

definition mice :: "animal list" where
  "mice = map Mouse [0..<NMICE]"

lemma kinds: "distinct cats" "distinct mice" "i < NCATS \<Longrightarrow> Cat i \<in> set cats" "j < NMICE \<Longrightarrow> Mouse j \<in> set mice"
    "Mouse j \<notin> set cats" "Cat i \<notin> set mice" "a \<in> set cats \<longleftrightarrow> (\<exists>i<NCATS. a = Cat i)" "a \<in> set mice \<longleftrightarrow> (\<exists>j<NMICE. a = Mouse j)"
  by (auto simp: cats_def mice_def distinct_map inj_on_def)

fun code :: "animal \<Rightarrow> int" where
  "code (Cat i) = CAT_CODE"
| "code (Mouse j) = MOUSE_CODE"

text \<open>The number of the animal in the order of the forks.\<close>

fun index :: "animal \<Rightarrow> nat" where
  "index (Cat i) = i"
| "index (Mouse j) = NCATS + j"

definition cat_side :: "guardian \<Rightarrow> bool" where
  "cat_side g \<longleftrightarrow> side_ok CAT_CODE cats (cats_admitted_this_turn g) (cats_left_this_turn g) (cats_waiting g) (cats_done g) (whos_turn g) (animals g)"

definition mouse_side :: "guardian \<Rightarrow> bool" where
  "mouse_side g \<longleftrightarrow> side_ok MOUSE_CODE mice (mice_admitted_this_turn g) (mice_left_this_turn g) (mice_waiting g) (mice_done g) (whos_turn g) (animals g)"

definition dishes_ok :: "int list \<Rightarrow> (animal \<Rightarrow> pc) \<Rightarrow> bool" where
  "dishes_ok ds f \<longleftrightarrow> length ds = 2 \<and> (\<forall>d<2. ds ! d \<noteq> 0 \<longrightarrow> (\<exists>a. f a = Eating d)) \<and>
     (\<forall>a d. f a = Eating d \<longrightarrow> d < 2 \<and> ds ! d = code a) \<and> (\<forall>a b d. f a = Eating d \<and> f b = Eating d \<longrightarrow> a = b)"

definition born_ok :: "main_pc \<Rightarrow> (animal \<Rightarrow> pc) \<Rightarrow> bool" where
  "born_ok m f \<longleftrightarrow> (\<forall>a. f a = Unborn \<longleftrightarrow> a \<notin> set (cats @ mice) \<or> (case m of Forking k \<Rightarrow> k \<le> index a | _ \<Rightarrow> False)) \<and>
     (case m of Forking k \<Rightarrow> k \<le> NCATS + NMICE | _ \<Rightarrow> True)"

definition cm_inv :: "guardian \<Rightarrow> bool" where
  "cm_inv g \<longleftrightarrow> whos_turn g \<in> {0, CAT_CODE, MOUSE_CODE} \<and> cat_side g \<and> mouse_side g \<and> dishes_ok (dishes g) (animals g) \<and>
     born_ok (main g) (animals g) \<and> (main g \<in> {AwakeDone, Returned} \<longrightarrow> cats_done g = int NCATS \<and> mice_done g = int NMICE)"

lemmas codes = CAT_CODE_def MOUSE_CODE_def

lemma codes_differ [simp]: "CAT_CODE \<noteq> 0" "MOUSE_CODE \<noteq> 0" "CAT_CODE \<noteq> MOUSE_CODE" "MOUSE_CODE \<noteq> CAT_CODE"
  by (simp_all add: codes)

lemma dishes_same: "(\<And>a d. h a = Eating d \<longleftrightarrow> f a = Eating d) \<Longrightarrow> dishes_ok ds h = dishes_ok ds f"
  by (simp add: dishes_ok_def)

lemma dishes_move: "dishes_ok ds f \<Longrightarrow> \<not> eats (f a) \<Longrightarrow> \<not> eats p \<Longrightarrow> dishes_ok ds (f(a := p))"
  by (subst dishes_same [where f = f]) auto

lemma dishes_take: "dishes_ok ds f \<Longrightarrow> \<not> eats (f a) \<Longrightarrow> d < 2 \<Longrightarrow> ds ! d = 0 \<Longrightarrow> dishes_ok (ds[d := code a]) (f(a := Eating d))"
proof -
  assume d: "dishes_ok ds f" "\<not> eats (f a)" "d < 2" "ds ! d = 0"
  have z: "f b \<noteq> Eating d" for b using d by (cases b) (auto simp: dishes_ok_def codes)
  have n: "f a \<noteq> Eating e" for e using d(2) by auto
  have "\<exists>b. (f(a := Eating d)) b = Eating e" if e: "e < 2" "ds[d := code a] ! e \<noteq> 0" for e
  proof (cases "e = d")
    case False
    then obtain b where "f b = Eating e" using e d(1) by (auto simp: dishes_ok_def)
    then show ?thesis using n by (intro exI [of _ b]) auto
  qed auto
  then show ?thesis using d z by (auto simp: dishes_ok_def nth_list_update split: if_splits)
qed

lemma dishes_give: "dishes_ok ds f \<Longrightarrow> f a = Eating d \<Longrightarrow> dishes_ok (ds[d := 0]) (f(a := Done))"
proof -
  assume d: "dishes_ok ds f" "f a = Eating d"
  have "\<exists>b. (f(a := Done)) b = Eating e" if e: "e < 2" "ds[d := 0] ! e \<noteq> 0" for e
  proof -
    have "e \<noteq> d" using e d(1) by (auto simp: dishes_ok_def)
    moreover from this obtain b where "f b = Eating e" using e d(1) by (auto simp: dishes_ok_def)
    ultimately show ?thesis using d(2) by (intro exI [of _ b]) auto
  qed
  then show ?thesis using d by (auto simp: dishes_ok_def nth_list_update split: if_splits)
qed

lemma born_upd: "born_ok m f \<Longrightarrow> f a \<noteq> Unborn \<Longrightarrow> p \<noteq> Unborn \<Longrightarrow> born_ok m (f(a := p))"
  by (auto simp: born_ok_def)

lemma born_same: "born_ok m f \<Longrightarrow> (\<And>a. h a = Unborn \<longleftrightarrow> f a = Unborn) \<Longrightarrow> born_ok m h"
  by (simp add: born_ok_def)

lemma born_member: "born_ok m f \<Longrightarrow> f a \<noteq> Unborn \<Longrightarrow> a \<in> set (cats @ mice)"
  unfolding born_ok_def by blast

text \<open>An animal that is admitted finds a dish.\<close>

lemma dish_free:
  assumes "dishes_ok (dishes g) (animals g)" and "born_ok (main g) (animals g)"
    and "cnt eats cats (animals g) + cnt eats mice (animals g) < 2"
  shows "\<exists>i<2. get_empty_dish g = int i \<and> dishes g ! i = 0"
proof -
  obtain x y where ds: "dishes g = [x, y]" using assms(1) by (auto simp: dishes_ok_def numeral_2_eq_2 length_Suc_conv)
  have "x = 0 \<or> y = 0"
  proof (rule ccontr)
    assume "\<not> (x = 0 \<or> y = 0)"
    then have "\<forall>d<2. dishes g ! d \<noteq> 0" using ds by (simp add: numeral_2_eq_2 less_Suc_eq)
    then obtain a b where ab: "animals g a = Eating 0" "animals g b = Eating 1" using assms(1) unfolding dishes_ok_def by (metis one_less_numeral_iff semiring_norm(76) zero_less_numeral)
    then have ne: "a \<noteq> b" by auto
    have m: "a \<in> set (cats @ mice)" "b \<in> set (cats @ mice)" by (rule born_member [OF assms(2)], simp add: ab)+
    have "2 \<le> cnt eats (cats @ mice) (animals g)" by (rule cnt_two [OF m ne]) (simp_all add: ab)
    then show False using assms(3) by (simp add: cnt_def)
  qed
  then show ?thesis
    by (cases "x = 0") (auto simp: get_empty_dish_def ds NFOODBOWLS_def Let_def intro!: exI [of _ 0] exI [of _ "Suc 0"])
qed

section \<open>The steps keep the invariant\<close>

lemma cm_invI:
  assumes "whos_turn g \<in> {0, CAT_CODE, MOUSE_CODE}" "cat_side g" "mouse_side g" "dishes_ok (dishes g) (animals g)" "born_ok (main g) (animals g)"
    "main g \<in> {AwakeDone, Returned} \<longrightarrow> cats_done g = int NCATS \<and> mice_done g = int NMICE"
  shows "cm_inv g"
  using assms by (simp add: cm_inv_def)

lemma sideD:
  assumes "side_ok c as adm left wait dn t f"
  shows "0 \<le> left" "left \<le> adm" "adm - left = cnt eats as f" "0 \<le> wait" "t \<noteq> c \<Longrightarrow> cnt eats as f = 0 \<and> adm = 0 \<and> left = 0" "t = 0 \<Longrightarrow> wait = 0"
  using assms cnt_nonneg [of "(=) AsleepTurn" as f] cnt_nonneg [of "(=) AwakeTurn" as f] by (auto simp: side_ok_def simp del: cnt_nonneg)

text \<open>An animal of one kind sits down: the counters of the kind are those after \<open>side_admit\<close>.\<close>

lemma cat_sits:
  assumes inv: "cm_inv g" and a: "i < NCATS" "animals g (Cat i) \<in> {Start, AwakeTurn}" and t: "whos_turn g \<in> {0, CAT_CODE}" "cats_admitted_this_turn g < 2"
    and wait: "w = (if animals g (Cat i) = Start then cats_waiting g else cats_waiting g - 1)"
    and g1: "g1 = g\<lparr>whos_turn := CAT_CODE, cats_waiting := w, cats_admitted_this_turn := cats_admitted_this_turn g + 1\<rparr>"
  shows "0 \<le> w \<and> (\<exists>g'. dish_loop (Cat i) CAT_CODE g1 = Some g' \<and> cm_inv g')"
proof -
  have I: "cat_side g" "mouse_side g" "dishes_ok (dishes g) (animals g)" "born_ok (main g) (animals g)"
    "main g \<in> {AwakeDone, Returned} \<longrightarrow> cats_done g = int NCATS \<and> mice_done g = int NMICE" using inv by (simp_all add: cm_inv_def)
  have c: "CAT_CODE \<noteq> 0" "CAT_CODE \<noteq> MOUSE_CODE" "MOUSE_CODE \<noteq> 0" by (simp_all add: codes)
  have side: "\<And>d. side_ok CAT_CODE cats (cats_admitted_this_turn g + 1) (cats_left_this_turn g) w (cats_done g) CAT_CODE ((animals g)(Cat i := Eating d))"
    using side_admit [OF I(1) [unfolded cat_side_def] kinds(1) kinds(3) [OF a(1)] _ t(2)] t(1) a(2) c wait by auto
  then have w0: "0 \<le> w" by (rule sideD)
  have "cnt eats cats (animals g) < 2" "cnt eats mice (animals g) = 0"
    using sideD [OF I(1) [unfolded cat_side_def]] sideD [OF I(2) [unfolded mouse_side_def]] t c by auto
  then obtain d where d: "d < 2" "get_empty_dish g1 = int d" "dishes g ! d = 0"
    using dish_free [of g1] I(3,4) g1 by auto
  have m: "side_ok MOUSE_CODE mice (mice_admitted_this_turn g) (mice_left_this_turn g) (mice_waiting g) (mice_done g) CAT_CODE (animals g)"
    using I(2) side_claim [of MOUSE_CODE mice "mice_admitted_this_turn g" "mice_left_this_turn g" "mice_waiting g" "mice_done g" "animals g" CAT_CODE] t(1) c
    by (auto simp: mouse_side_def)
  have ne: "\<not> eats (animals g (Cat i))" "animals g (Cat i) \<noteq> Unborn" using a(2) by auto
  have "cm_inv (at_pc (Cat i) (Eating d) (g1\<lparr>dishes := (dishes g1)[d := CAT_CODE]\<rparr>))"
    using side m dishes_take [OF I(3) ne(1) d(1,3)] born_upd [OF I(4) ne(2)] I(5)
    by (intro cm_invI) (auto simp: g1 at_pc_def cat_side_def mouse_side_def side_other [OF kinds(2) kinds(6)])
  then show ?thesis using w0 d(2) by (simp add: dish_loop_def)
qed

lemma cat_start:
  assumes inv: "cm_inv g" and a: "i < NCATS" "animals g (Cat i) = Start"
  shows "\<exists>g'. petition_guardian (Cat i) CAT_CODE g = Some g' \<and> cm_inv g'"
proof (cases "whos_turn g \<in> {0, CAT_CODE} \<and> cats_admitted_this_turn g < 2")
  case True
  then have "(if whos_turn g = 0 then g\<lparr>whos_turn := CAT_CODE\<rparr> else g) = g\<lparr>whos_turn := CAT_CODE\<rparr>" by auto
  with True show ?thesis using cat_sits [OF inv a(1) _ _ _ _ refl, of "cats_waiting g"] a(2)
    by (auto simp: petition_guardian_def cat_turn_logic_def cat_turn_loop_def TURN_COUNT_def Let_def)
next
  case False
  have I: "whos_turn g \<in> {0, CAT_CODE, MOUSE_CODE}" "cat_side g" "mouse_side g" "dishes_ok (dishes g) (animals g)" "born_ok (main g) (animals g)"
    "main g \<in> {AwakeDone, Returned} \<longrightarrow> cats_done g = int NCATS \<and> mice_done g = int NMICE" using inv by (simp_all add: cm_inv_def)
  have c: "CAT_CODE \<noteq> 0" by (simp add: codes)
  have t: "whos_turn g \<noteq> 0" using False sideD(5) [OF I(2) [unfolded cat_side_def]] c by auto
  then have s: "whos_turn g \<noteq> CAT_CODE \<or> 2 \<le> cats_admitted_this_turn g" using False by auto
  have "cm_inv (at_pc (Cat i) AsleepTurn (g\<lparr>cats_waiting := cats_waiting g + 1\<rparr>))"
    using I side_enter [OF I(2) [unfolded cat_side_def] kinds(1) kinds(3) [OF a(1)] a(2) t s] dishes_move [OF I(4)] born_upd [OF I(5)] a(2)
    by (intro cm_invI) (auto simp: at_pc_def cat_side_def mouse_side_def side_other [OF kinds(2) kinds(6)])
  then show ?thesis using t s by (auto simp: petition_guardian_def cat_turn_logic_def cat_turn_loop_def TURN_COUNT_def Let_def)
qed

lemma cat_awake:
  assumes inv: "cm_inv g" and a: "i < NCATS" "animals g (Cat i) = AwakeTurn"
  shows "\<exists>g'. cat_turn_loop (Cat i) g = Some g' \<and> cm_inv g'"
proof (cases "whos_turn g = CAT_CODE \<and> cats_admitted_this_turn g < 2")
  case True
  then have e: "g\<lparr>cats_waiting := cats_waiting g - 1, cats_admitted_this_turn := cats_admitted_this_turn g + 1\<rparr> =
      g\<lparr>whos_turn := CAT_CODE, cats_waiting := cats_waiting g - 1, cats_admitted_this_turn := cats_admitted_this_turn g + 1\<rparr>" by (cases g) simp
  have "0 \<le> cats_waiting g - 1 \<and> (\<exists>g'. dish_loop (Cat i) CAT_CODE
      (g\<lparr>cats_waiting := cats_waiting g - 1, cats_admitted_this_turn := cats_admitted_this_turn g + 1\<rparr>) = Some g' \<and> cm_inv g')"
    by (rule cat_sits [OF inv a(1) _ _ _ _ e]) (use True a(2) in simp_all)
  with True show ?thesis by (auto simp: cat_turn_loop_def TURN_COUNT_def Let_def)
next
  case False
  have I: "whos_turn g \<in> {0, CAT_CODE, MOUSE_CODE}" "cat_side g" "mouse_side g" "dishes_ok (dishes g) (animals g)" "born_ok (main g) (animals g)"
    "main g \<in> {AwakeDone, Returned} \<longrightarrow> cats_done g = int NCATS \<and> mice_done g = int NMICE" using inv by (simp_all add: cm_inv_def)
  have s: "whos_turn g \<noteq> CAT_CODE \<or> 2 \<le> cats_admitted_this_turn g" using False by auto
  have "cm_inv (at_pc (Cat i) AsleepTurn g)"
    using I side_again [OF I(2) [unfolded cat_side_def] kinds(1) kinds(3) [OF a(1)] a(2) s] dishes_move [OF I(4)] born_upd [OF I(5)] a(2)
    by (intro cm_invI) (auto simp: at_pc_def cat_side_def mouse_side_def side_other [OF kinds(2) kinds(6)])
  then show ?thesis using s by (auto simp: cat_turn_loop_def TURN_COUNT_def)
qed

lemma cnt_none: "cnt ((=) p) as f = 0 \<Longrightarrow> a \<in> set as \<Longrightarrow> f a \<noteq> p"
  by (auto simp: cnt_def filter_empty_conv)

lemma cnt_full: "cnt ((=) p) as f = int (length as) \<Longrightarrow> a \<in> set as \<Longrightarrow> f a = p"
  unfolding cnt_def using length_filter_less [of a as "\<lambda>a. p = f a"] by fastforce

text \<open>Waking those who wait for their turn changes neither who eats nor who has been born.\<close>

definition wake :: "(animal \<Rightarrow> bool) \<Rightarrow> (animal \<Rightarrow> pc) \<Rightarrow> animal \<Rightarrow> pc" where
  "wake K f x = (if K x \<and> f x = AsleepTurn then AwakeTurn else f x)"

lemma broadcast_wake:
  "broadcast_cat_turn g = g\<lparr>animals := wake is_cat (animals g)\<rparr>" "broadcast_mouse_turn g = g\<lparr>animals := wake (\<lambda>a. \<not> is_cat a) (animals g)\<rparr>"
  by (simp_all add: broadcast_cat_turn_def broadcast_mouse_turn_def wake_def fun_eq_iff)

lemma wake_kind: "dishes_ok ds f \<Longrightarrow> dishes_ok ds (wake K f)" "born_ok m f \<Longrightarrow> born_ok m (wake K f)"
  by (subst dishes_same [where f = f], simp add: wake_def, simp) (erule born_same, simp add: wake_def)

lemma side_idle: "side_ok c as adm left wait dn t f \<Longrightarrow> t \<noteq> c \<Longrightarrow> t' \<noteq> c \<Longrightarrow> t' \<noteq> 0 \<or> wait = 0 \<Longrightarrow> side_ok c as 0 0 wait dn t' f"
  by (auto simp: side_ok_def)

text \<open>What \<^verbatim>\<open>cat_end_turn_logic\<close> leaves to \<^verbatim>\<open>check_finished\<close> is the counting of the cat that has eaten.\<close>

lemma cat_end:
  assumes inv: "cm_inv g" and a: "i < NCATS" "animals g (Cat i) = Eating d" and m: "main g \<notin> {AwakeDone, Returned}"
    and g1: "g1 = at_pc (Cat i) Done g\<lparr>dishes := (dishes g)[d := 0]\<rparr>"
  shows "cm_inv ((cat_end_turn_logic g1)\<lparr>cats_done := cats_done g + 1\<rparr>)"
proof -
  have I: "cat_side g" "mouse_side g" "dishes_ok (dishes g) (animals g)" "born_ok (main g) (animals g)" using inv by (simp_all add: cm_inv_def)
  have c: "CAT_CODE \<noteq> 0" "CAT_CODE \<noteq> MOUSE_CODE" "MOUSE_CODE \<noteq> 0" "MOUSE_CODE \<noteq> CAT_CODE" by (simp_all add: codes)
  note C = I(1) [unfolded cat_side_def]
  let ?f = "(animals g)(Cat i := Done)"
  have "1 \<le> cnt eats cats (animals g)" by (rule cnt_one [OF kinds(3) [OF a(1)]]) (simp add: a(2))
  then have t: "whos_turn g = CAT_CODE" using sideD(5) [OF C] by fastforce
  note L = side_leave [OF C kinds(1) kinds(3) [OF a(1)] a(2) t]
  have M: "side_ok MOUSE_CODE mice (mice_admitted_this_turn g) (mice_left_this_turn g) (mice_waiting g) (mice_done g) CAT_CODE ?f"
    using I(2) t by (simp add: mouse_side_def side_other [OF kinds(2) kinds(6)])
  note m0 = sideD(5) [OF M c(2)]
  have D: "dishes_ok ((dishes g)[d := 0]) ?f" and B: "born_ok (main g) ?f" using dishes_give [OF I(3) a(2)] born_upd [OF I(4)] a(2) by simp_all
  let ?c = "wake is_cat ?f" and ?m = "wake (\<lambda>a. \<not> is_cat a) ?f"
  have w: "dishes_ok ((dishes g)[d := 0]) ?c" "dishes_ok ((dishes g)[d := 0]) ?m" "born_ok (main g) ?c" "born_ok (main g) ?m"
    by (rule wake_kind(1) [OF D], rule wake_kind(1) [OF D], rule wake_kind(2) [OF B], rule wake_kind(2) [OF B])
  have in_c: "\<And>x. x \<in> set cats \<Longrightarrow> is_cat x" and in_m: "\<And>x. x \<in> set mice \<Longrightarrow> \<not> is_cat x" by (auto simp: kinds(7,8))
  let ?l = "cats_left_this_turn g + 1" and ?a = "cats_admitted_this_turn g"
  consider (stays) "?l < ?a \<or> ?l < 2 \<and> 0 < cats_waiting g" | (mouse) "?a \<le> ?l" "\<not> (?l < 2 \<and> 0 < cats_waiting g)" "mice_waiting g \<noteq> 0"
    | (cat) "?a \<le> ?l" "\<not> (?l < 2 \<and> 0 < cats_waiting g)" "mice_waiting g = 0" "cats_waiting g \<noteq> 0" | (none) "?a \<le> ?l" "mice_waiting g = 0" "cats_waiting g = 0"
    by linarith
  then show ?thesis
  proof cases
    case stays
    have "cat_end_turn_logic g1 = g1\<lparr>cats_left_this_turn := ?l\<rparr>" using stays by (auto simp: cat_end_turn_logic_def g1 at_pc_def TURN_COUNT_def Let_def)
    with L(2) [OF stays] M D B m t c show ?thesis by (auto simp: cm_inv_def cat_side_def mouse_side_def g1 at_pc_def)
  next
    case mouse
    have "side_ok CAT_CODE cats 0 0 (cats_waiting g) (cats_done g + 1) MOUSE_CODE ?m"
      using L(3) [OF mouse(1) c(4)] c(3) in_c by (subst side_same [where f = ?f]) (auto simp: wake_def)
    moreover have "side_ok MOUSE_CODE mice 0 0 (mice_waiting g) (mice_done g) MOUSE_CODE ?m"
      by (rule side_broadcast [where f = ?f]) (use M m0 mouse(3) c in_m in \<open>auto simp: wake_def\<close>)
    ultimately show ?thesis using mouse w(2,4) m
      by (auto simp: cm_inv_def cat_side_def mouse_side_def g1 at_pc_def cat_end_turn_logic_def clear_turn_counters_def broadcast_wake TURN_COUNT_def Let_def)
  next
    case cat
    have "side_ok CAT_CODE cats 0 0 (cats_waiting g) (cats_done g + 1) CAT_CODE ?c"
      by (rule side_broadcast [where f = ?f, OF L(3) [OF cat(1) c(4)]]) (use cat(4) c in_c in \<open>auto simp: wake_def\<close>)
    moreover have "side_ok MOUSE_CODE mice 0 0 (mice_waiting g) (mice_done g) CAT_CODE ?c"
      using M m0 in_m by (subst side_same [where f = ?f]) (auto simp: wake_def)
    ultimately show ?thesis using cat w(1,3) m t
      by (auto simp: cm_inv_def cat_side_def mouse_side_def g1 at_pc_def cat_end_turn_logic_def clear_turn_counters_def broadcast_wake TURN_COUNT_def Let_def)
  next
    case none
    have "side_ok CAT_CODE cats 0 0 (cats_waiting g) (cats_done g + 1) 0 ?f" by (rule L(3)) (use none c in auto)
    moreover have "side_ok MOUSE_CODE mice 0 0 (mice_waiting g) (mice_done g) 0 ?f" by (rule side_idle [OF M]) (use none c in auto)
    ultimately show ?thesis using none D B m
      by (auto simp: cm_inv_def cat_side_def mouse_side_def g1 at_pc_def cat_end_turn_logic_def clear_turn_counters_def TURN_COUNT_def Let_def)
  qed
qed

lemma end_turn_frame [simp]:
  "main (cat_end_turn_logic g) = main g" "cats_done (cat_end_turn_logic g) = cats_done g" "mice_done (cat_end_turn_logic g) = mice_done g"
  "main (mouse_end_turn_logic g) = main g" "cats_done (mouse_end_turn_logic g) = cats_done g" "mice_done (mouse_end_turn_logic g) = mice_done g"
  by (simp_all add: cat_end_turn_logic_def mouse_end_turn_logic_def clear_turn_counters_def broadcast_wake Let_def)

text \<open>Nobody waits for a dish.\<close>

lemma no_dish_sleep: "cm_inv g \<Longrightarrow> animals g a \<noteq> AsleepDish \<and> animals g a \<noteq> AwakeDish"
proof -
  assume inv: "cm_inv g"
  then have "cnt ((=) AsleepDish) cats (animals g) = 0" "cnt ((=) AsleepDish) mice (animals g) = 0" "cnt ((=) AwakeDish) cats (animals g) = 0"
    "cnt ((=) AwakeDish) mice (animals g) = 0" "born_ok (main g) (animals g)"
    by (simp_all add: cm_inv_def cat_side_def mouse_side_def side_ok_def)
  then show ?thesis using born_member [of "main g" "animals g" a] by (auto dest: cnt_none)
qed

lemma signal_inv: "cm_inv g \<Longrightarrow> cats_done g = int NCATS \<Longrightarrow> mice_done g = int NMICE \<Longrightarrow> cm_inv (signal_all_done g)"
  by (auto simp: signal_all_done_def cm_inv_def cat_side_def mouse_side_def born_ok_def)

text \<open>The thread of \<^verbatim>\<open>catmouselock\<close> is woken when all animals have finished, so not while one is eating.\<close>

lemma all_done:
  assumes "cm_inv g" and "main g \<in> {AwakeDone, Returned}"
  shows "\<forall>a\<in>set (cats @ mice). animals g a = Done"
proof -
  have d: "cats_done g = int NCATS" "mice_done g = int NMICE" "cat_side g" "mouse_side g" using assms by (auto simp: cm_inv_def)
  then have "cnt ((=) Done) cats (animals g) = int (length cats)" using d(1,3) unfolding cat_side_def side_ok_def by (simp add: cats_def)
  moreover have "cnt ((=) Done) mice (animals g) = int (length mice)" using d(2,4) unfolding mouse_side_def side_ok_def by (simp add: mice_def)
  ultimately show ?thesis by (auto dest: cnt_full)
qed

lemma eater_main:
  assumes inv: "cm_inv g" and "eats (animals g a)"
  shows "main g \<notin> {AwakeDone, Returned}"
proof
  assume "main g \<in> {AwakeDone, Returned}"
  note d = all_done [OF inv this]
  have "animals g a \<noteq> Unborn" "born_ok (main g) (animals g)" using inv assms(2) by (auto simp: cm_inv_def)
  with d show False using born_member [of "main g" "animals g" a] assms(2) by fastforce
qed

lemma finish_inv:
  assumes "cm_inv g" and "g1\<lparr>cats_done := cats_done g1 + 1\<rparr> = g" and "\<And>a. animals g1 a \<noteq> AsleepDish"
  shows "\<exists>g'. check_finished CAT_CODE (signal_empty_dish w g1) = Some g' \<and> cm_inv g'"
  using assms signal_inv [OF assms(1)] by (auto simp: check_finished_def signal_empty_dish_def)

lemma cat_leave:
  assumes inv: "cm_inv g" and a: "i < NCATS" "animals g (Cat i) = Eating d"
  shows "\<exists>g'. return_dish_to_guardian w CAT_CODE d (at_pc (Cat i) Done g) = Some g' \<and> cm_inv g'"
proof -
  have "main g \<notin> {AwakeDone, Returned}" by (rule eater_main [OF inv, of "Cat i"]) (simp add: a(2))
  note e = cat_end [OF inv a this refl]
  let ?g = "cat_end_turn_logic (at_pc (Cat i) Done g\<lparr>dishes := (dishes g)[d := 0]\<rparr>)"
  have "cats_done ?g = cats_done g" by (simp add: at_pc_def)
  then have f: "\<exists>g'. check_finished CAT_CODE (signal_empty_dish w ?g) = Some g' \<and> cm_inv g'"
    using finish_inv [OF e, of ?g w] no_dish_sleep [OF e] by simp
  have "d < length (dishes g)" using inv a(2) by (auto simp: cm_inv_def dishes_ok_def)
  then show ?thesis using f by (simp add: return_dish_to_guardian_def at_pc_def)
qed

text \<open>The same for mice.\<close>

lemma mouse_sits:
  assumes inv: "cm_inv g" and a: "i < NMICE" "animals g (Mouse i) \<in> {Start, AwakeTurn}" and t: "whos_turn g \<in> {0, MOUSE_CODE}" "mice_admitted_this_turn g < 2"
    and wait: "w = (if animals g (Mouse i) = Start then mice_waiting g else mice_waiting g - 1)"
    and g1: "g1 = g\<lparr>whos_turn := MOUSE_CODE, mice_waiting := w, mice_admitted_this_turn := mice_admitted_this_turn g + 1\<rparr>"
  shows "0 \<le> w \<and> (\<exists>g'. dish_loop (Mouse i) MOUSE_CODE g1 = Some g' \<and> cm_inv g')"
proof -
  have I: "mouse_side g" "cat_side g" "dishes_ok (dishes g) (animals g)" "born_ok (main g) (animals g)"
    "main g \<in> {AwakeDone, Returned} \<longrightarrow> mice_done g = int NMICE \<and> cats_done g = int NCATS" using inv by (simp_all add: cm_inv_def)
  have c: "MOUSE_CODE \<noteq> 0" "MOUSE_CODE \<noteq> CAT_CODE" "CAT_CODE \<noteq> 0" by (simp_all add: codes)
  have side: "\<And>d. side_ok MOUSE_CODE mice (mice_admitted_this_turn g + 1) (mice_left_this_turn g) w (mice_done g) MOUSE_CODE ((animals g)(Mouse i := Eating d))"
    using side_admit [OF I(1) [unfolded mouse_side_def] kinds(2) kinds(4) [OF a(1)] _ t(2)] t(1) a(2) c wait by auto
  then have w0: "0 \<le> w" by (rule sideD)
  have "cnt eats mice (animals g) < 2" "cnt eats cats (animals g) = 0"
    using sideD [OF I(1) [unfolded mouse_side_def]] sideD [OF I(2) [unfolded cat_side_def]] t c by auto
  then obtain d where d: "d < 2" "get_empty_dish g1 = int d" "dishes g ! d = 0"
    using dish_free [of g1] I(3,4) g1 by auto
  have m: "side_ok CAT_CODE cats (cats_admitted_this_turn g) (cats_left_this_turn g) (cats_waiting g) (cats_done g) MOUSE_CODE (animals g)"
    using I(2) side_claim [of CAT_CODE cats "cats_admitted_this_turn g" "cats_left_this_turn g" "cats_waiting g" "cats_done g" "animals g" MOUSE_CODE] t(1) c
    by (auto simp: cat_side_def)
  have ne: "\<not> eats (animals g (Mouse i))" "animals g (Mouse i) \<noteq> Unborn" using a(2) by auto
  have "cm_inv (at_pc (Mouse i) (Eating d) (g1\<lparr>dishes := (dishes g1)[d := MOUSE_CODE]\<rparr>))"
    using side m dishes_take [OF I(3) ne(1) d(1,3)] born_upd [OF I(4) ne(2)] I(5)
    by (intro cm_invI) (auto simp: g1 at_pc_def mouse_side_def cat_side_def side_other [OF kinds(1) kinds(5)])
  then show ?thesis using w0 d(2) by (simp add: dish_loop_def)
qed

lemma mouse_start:
  assumes inv: "cm_inv g" and a: "i < NMICE" "animals g (Mouse i) = Start"
  shows "\<exists>g'. petition_guardian (Mouse i) MOUSE_CODE g = Some g' \<and> cm_inv g'"
proof (cases "whos_turn g \<in> {0, MOUSE_CODE} \<and> mice_admitted_this_turn g < 2")
  case True
  then have "(if whos_turn g = 0 then g\<lparr>whos_turn := MOUSE_CODE\<rparr> else g) = g\<lparr>whos_turn := MOUSE_CODE\<rparr>" by auto
  with True show ?thesis using mouse_sits [OF inv a(1) _ _ _ _ refl, of "mice_waiting g"] a(2)
    by (auto simp: petition_guardian_def mouse_turn_logic_def mouse_turn_loop_def TURN_COUNT_def Let_def)
next
  case False
  have I: "whos_turn g \<in> {0, CAT_CODE, MOUSE_CODE}" "mouse_side g" "cat_side g" "dishes_ok (dishes g) (animals g)" "born_ok (main g) (animals g)"
    "main g \<in> {AwakeDone, Returned} \<longrightarrow> mice_done g = int NMICE \<and> cats_done g = int NCATS" using inv by (simp_all add: cm_inv_def)
  have c: "MOUSE_CODE \<noteq> 0" by (simp add: codes)
  have t: "whos_turn g \<noteq> 0" using False sideD(5) [OF I(2) [unfolded mouse_side_def]] c by auto
  then have s: "whos_turn g \<noteq> MOUSE_CODE \<or> 2 \<le> mice_admitted_this_turn g" using False by auto
  have "cm_inv (at_pc (Mouse i) AsleepTurn (g\<lparr>mice_waiting := mice_waiting g + 1\<rparr>))"
    using I side_enter [OF I(2) [unfolded mouse_side_def] kinds(2) kinds(4) [OF a(1)] a(2) t s] dishes_move [OF I(4)] born_upd [OF I(5)] a(2)
    by (intro cm_invI) (auto simp: at_pc_def mouse_side_def cat_side_def side_other [OF kinds(1) kinds(5)])
  then show ?thesis using t s by (auto simp: petition_guardian_def mouse_turn_logic_def mouse_turn_loop_def TURN_COUNT_def Let_def)
qed

lemma mouse_awake:
  assumes inv: "cm_inv g" and a: "i < NMICE" "animals g (Mouse i) = AwakeTurn"
  shows "\<exists>g'. mouse_turn_loop (Mouse i) g = Some g' \<and> cm_inv g'"
proof (cases "whos_turn g = MOUSE_CODE \<and> mice_admitted_this_turn g < 2")
  case True
  then have e: "g\<lparr>mice_waiting := mice_waiting g - 1, mice_admitted_this_turn := mice_admitted_this_turn g + 1\<rparr> =
      g\<lparr>whos_turn := MOUSE_CODE, mice_waiting := mice_waiting g - 1, mice_admitted_this_turn := mice_admitted_this_turn g + 1\<rparr>" by (cases g) simp
  have "0 \<le> mice_waiting g - 1 \<and> (\<exists>g'. dish_loop (Mouse i) MOUSE_CODE
      (g\<lparr>mice_waiting := mice_waiting g - 1, mice_admitted_this_turn := mice_admitted_this_turn g + 1\<rparr>) = Some g' \<and> cm_inv g')"
    by (rule mouse_sits [OF inv a(1) _ _ _ _ e]) (use True a(2) in simp_all)
  with True show ?thesis by (auto simp: mouse_turn_loop_def TURN_COUNT_def Let_def)
next
  case False
  have I: "whos_turn g \<in> {0, CAT_CODE, MOUSE_CODE}" "mouse_side g" "cat_side g" "dishes_ok (dishes g) (animals g)" "born_ok (main g) (animals g)"
    "main g \<in> {AwakeDone, Returned} \<longrightarrow> mice_done g = int NMICE \<and> cats_done g = int NCATS" using inv by (simp_all add: cm_inv_def)
  have s: "whos_turn g \<noteq> MOUSE_CODE \<or> 2 \<le> mice_admitted_this_turn g" using False by auto
  have "cm_inv (at_pc (Mouse i) AsleepTurn g)"
    using I side_again [OF I(2) [unfolded mouse_side_def] kinds(2) kinds(4) [OF a(1)] a(2) s] dishes_move [OF I(4)] born_upd [OF I(5)] a(2)
    by (intro cm_invI) (auto simp: at_pc_def mouse_side_def cat_side_def side_other [OF kinds(1) kinds(5)])
  then show ?thesis using s by (auto simp: mouse_turn_loop_def TURN_COUNT_def)
qed

lemma mouse_end:
  assumes inv: "cm_inv g" and a: "i < NMICE" "animals g (Mouse i) = Eating d" and m: "main g \<notin> {AwakeDone, Returned}"
    and g1: "g1 = at_pc (Mouse i) Done g\<lparr>dishes := (dishes g)[d := 0]\<rparr>"
  shows "cm_inv ((mouse_end_turn_logic g1)\<lparr>mice_done := mice_done g + 1\<rparr>)"
proof -
  have I: "mouse_side g" "cat_side g" "dishes_ok (dishes g) (animals g)" "born_ok (main g) (animals g)" using inv by (simp_all add: cm_inv_def)
  have c: "MOUSE_CODE \<noteq> 0" "MOUSE_CODE \<noteq> CAT_CODE" "CAT_CODE \<noteq> 0" "CAT_CODE \<noteq> MOUSE_CODE" by (simp_all add: codes)
  note C = I(1) [unfolded mouse_side_def]
  let ?f = "(animals g)(Mouse i := Done)"
  have "1 \<le> cnt eats mice (animals g)" by (rule cnt_one [OF kinds(4) [OF a(1)]]) (simp add: a(2))
  then have t: "whos_turn g = MOUSE_CODE" using sideD(5) [OF C] by fastforce
  note L = side_leave [OF C kinds(2) kinds(4) [OF a(1)] a(2) t]
  have M: "side_ok CAT_CODE cats (cats_admitted_this_turn g) (cats_left_this_turn g) (cats_waiting g) (cats_done g) MOUSE_CODE ?f"
    using I(2) t by (simp add: cat_side_def side_other [OF kinds(1) kinds(5)])
  note m0 = sideD(5) [OF M c(2)]
  have D: "dishes_ok ((dishes g)[d := 0]) ?f" and B: "born_ok (main g) ?f" using dishes_give [OF I(3) a(2)] born_upd [OF I(4)] a(2) by simp_all
  let ?c = "wake (\<lambda>a. \<not> is_cat a) ?f" and ?m = "wake is_cat ?f"
  have w: "dishes_ok ((dishes g)[d := 0]) ?c" "dishes_ok ((dishes g)[d := 0]) ?m" "born_ok (main g) ?c" "born_ok (main g) ?m"
    by (rule wake_kind(1) [OF D], rule wake_kind(1) [OF D], rule wake_kind(2) [OF B], rule wake_kind(2) [OF B])
  have in_c: "\<And>x. x \<in> set mice \<Longrightarrow> \<not> is_cat x" and in_m: "\<And>x. x \<in> set cats \<Longrightarrow> is_cat x" by (auto simp: kinds(8,7))
  let ?l = "mice_left_this_turn g + 1" and ?a = "mice_admitted_this_turn g"
  consider (stays) "?l < ?a \<or> ?l < 2 \<and> 0 < mice_waiting g" | (cat) "?a \<le> ?l" "\<not> (?l < 2 \<and> 0 < mice_waiting g)" "cats_waiting g \<noteq> 0"
    | (mouse) "?a \<le> ?l" "\<not> (?l < 2 \<and> 0 < mice_waiting g)" "cats_waiting g = 0" "mice_waiting g \<noteq> 0" | (none) "?a \<le> ?l" "cats_waiting g = 0" "mice_waiting g = 0"
    by linarith
  then show ?thesis
  proof cases
    case stays
    have "mouse_end_turn_logic g1 = g1\<lparr>mice_left_this_turn := ?l\<rparr>" using stays by (auto simp: mouse_end_turn_logic_def g1 at_pc_def TURN_COUNT_def Let_def)
    with L(2) [OF stays] M D B m t c show ?thesis by (auto simp: cm_inv_def mouse_side_def cat_side_def g1 at_pc_def)
  next
    case cat
    have "side_ok MOUSE_CODE mice 0 0 (mice_waiting g) (mice_done g + 1) CAT_CODE ?m"
      using L(3) [OF cat(1) c(4)] c(3) in_c by (subst side_same [where f = ?f]) (auto simp: wake_def)
    moreover have "side_ok CAT_CODE cats 0 0 (cats_waiting g) (cats_done g) CAT_CODE ?m"
      by (rule side_broadcast [where f = ?f]) (use M m0 cat(3) c in_m in \<open>auto simp: wake_def\<close>)
    ultimately show ?thesis using cat w(2,4) m
      by (auto simp: cm_inv_def mouse_side_def cat_side_def g1 at_pc_def mouse_end_turn_logic_def clear_turn_counters_def broadcast_wake TURN_COUNT_def Let_def)
  next
    case mouse
    have "side_ok MOUSE_CODE mice 0 0 (mice_waiting g) (mice_done g + 1) MOUSE_CODE ?c"
      by (rule side_broadcast [where f = ?f, OF L(3) [OF mouse(1) c(4)]]) (use mouse(4) c in_c in \<open>auto simp: wake_def\<close>)
    moreover have "side_ok CAT_CODE cats 0 0 (cats_waiting g) (cats_done g) MOUSE_CODE ?c"
      using M m0 in_m by (subst side_same [where f = ?f]) (auto simp: wake_def)
    ultimately show ?thesis using mouse w(1,3) m t
      by (auto simp: cm_inv_def mouse_side_def cat_side_def g1 at_pc_def mouse_end_turn_logic_def clear_turn_counters_def broadcast_wake TURN_COUNT_def Let_def)
  next
    case none
    have "side_ok MOUSE_CODE mice 0 0 (mice_waiting g) (mice_done g + 1) 0 ?f" by (rule L(3)) (use none c in auto)
    moreover have "side_ok CAT_CODE cats 0 0 (cats_waiting g) (cats_done g) 0 ?f" by (rule side_idle [OF M]) (use none c in auto)
    ultimately show ?thesis using none D B m
      by (auto simp: cm_inv_def mouse_side_def cat_side_def g1 at_pc_def mouse_end_turn_logic_def clear_turn_counters_def TURN_COUNT_def Let_def)
  qed
qed

lemma finish_inv_mouse:
  assumes "cm_inv g" and "g1\<lparr>mice_done := mice_done g1 + 1\<rparr> = g" and "\<And>a. animals g1 a \<noteq> AsleepDish"
  shows "\<exists>g'. check_finished MOUSE_CODE (signal_empty_dish w g1) = Some g' \<and> cm_inv g'"
  using assms signal_inv [OF assms(1)] by (auto simp: check_finished_def signal_empty_dish_def)

lemma mouse_leave:
  assumes inv: "cm_inv g" and a: "i < NMICE" "animals g (Mouse i) = Eating d"
  shows "\<exists>g'. return_dish_to_guardian w MOUSE_CODE d (at_pc (Mouse i) Done g) = Some g' \<and> cm_inv g'"
proof -
  have "main g \<notin> {AwakeDone, Returned}" by (rule eater_main [OF inv, of "Mouse i"]) (simp add: a(2))
  note e = mouse_end [OF inv a this refl]
  let ?g = "mouse_end_turn_logic (at_pc (Mouse i) Done g\<lparr>dishes := (dishes g)[d := 0]\<rparr>)"
  have "mice_done ?g = mice_done g" by (simp add: at_pc_def)
  then have f: "\<exists>g'. check_finished MOUSE_CODE (signal_empty_dish w ?g) = Some g' \<and> cm_inv g'"
    using finish_inv_mouse [OF e, of ?g w] no_dish_sleep [OF e] by simp
  have "d < length (dishes g)" using inv a(2) by (auto simp: cm_inv_def dishes_ok_def)
  then show ?thesis using f by (simp add: return_dish_to_guardian_def at_pc_def)
qed

lemma cat_step:
  assumes inv: "cm_inv g" and a: "i < NCATS" "runs (animals g (Cat i))"
  shows "\<exists>g'. catlock w i g = Some g' \<and> cm_inv g'"
proof (cases "animals g (Cat i)")
  case AwakeDish
  then show ?thesis using no_dish_sleep [OF inv, of "Cat i"] by simp
qed (use a cat_start [OF inv a(1)] cat_awake [OF inv a(1)] cat_leave [OF inv a(1)] in \<open>simp_all add: catlock_def runs_def\<close>)

lemma mouse_step:
  assumes inv: "cm_inv g" and a: "i < NMICE" "runs (animals g (Mouse i))"
  shows "\<exists>g'. mouselock w i g = Some g' \<and> cm_inv g'"
proof (cases "animals g (Mouse i)")
  case AwakeDish
  then show ?thesis using no_dish_sleep [OF inv, of "Mouse i"] by simp
qed (use a mouse_start [OF inv a(1)] mouse_awake [OF inv a(1)] mouse_leave [OF inv a(1)] in \<open>simp_all add: mouselock_def runs_def\<close>)

lemma fork_inv:
  assumes inv: "cm_inv g" and m: "main g = Forking k" "index a = k" "a \<in> set (cats @ mice)"
  shows "cm_inv (at_pc a Start (g\<lparr>main := Forking (k + 1)\<rparr>))"
proof -
  have I: "whos_turn g \<in> {0, CAT_CODE, MOUSE_CODE}" "cat_side g" "mouse_side g" "dishes_ok (dishes g) (animals g)" "born_ok (Forking k) (animals g)"
    using inv m(1) by (simp_all add: cm_inv_def)
  have u: "animals g a = Unborn" using I(5) m(2) by (simp add: born_ok_def)
  have "k < NCATS + NMICE" using m(2,3) by (auto simp: kinds(7,8) NCATS_def NMICE_def)
  moreover have "k \<le> index b \<longleftrightarrow> b = a \<or> k + 1 \<le> index b" if "b \<in> set (cats @ mice)" for b
    using m(2,3) that by (auto simp: kinds(7,8) NCATS_def NMICE_def)
  ultimately have "born_ok (Forking (k + 1)) ((animals g)(a := Start))" using I(5) m(2,3) by (auto simp: born_ok_def)
  moreover have "dishes_ok (dishes g) ((animals g)(a := Start))" by (rule dishes_move [OF I(4)]) (simp_all add: u)
  ultimately show ?thesis using I(1-3) side_born [of _ _ _ _ _ _ _ "animals g" a] u kinds(1,2)
    by (intro cm_invI) (simp_all add: at_pc_def cat_side_def mouse_side_def)
qed

lemma born_main: "born_ok m f \<Longrightarrow> \<forall>k. m \<noteq> Forking k \<Longrightarrow> \<forall>k. m' \<noteq> Forking k \<Longrightarrow> born_ok m' f"
  by (cases m; cases m') (simp_all add: born_ok_def)

lemma main_step: "cm_inv g \<Longrightarrow> catmouselock True g = Some g' \<Longrightarrow> cm_inv g'"
proof (cases "main g")
  case (Forking k)
  assume inv: "cm_inv g" and s: "catmouselock True g = Some g'"
  consider (cat) "k < NCATS" | (mouse) "NCATS \<le> k" "k < NCATS + NMICE" | (none) "NCATS + NMICE \<le> k" by linarith
  then show ?thesis
  proof cases
    case cat
    then show ?thesis using s fork_inv [OF inv Forking, of "Cat k"] Forking by (simp add: catmouselock_def kinds)
  next
    case mouse
    then show ?thesis using s fork_inv [OF inv Forking, of "Mouse (k - NCATS)"] Forking by (simp add: catmouselock_def kinds)
  next
    case none
    have "\<not> k \<le> index b" if "b \<in> set (cats @ mice)" for b using that none by (auto simp: kinds(7,8))
    moreover have "born_ok (Forking k) (animals g)" using inv Forking by (simp add: cm_inv_def)
    ultimately have b: "born_ok Locking (animals g)" unfolding born_ok_def main_pc.case by blast
    have "g' = g\<lparr>main := Locking\<rparr>" using s none Forking by (simp add: catmouselock_def)
    then show ?thesis using inv b by (simp add: cm_inv_def cat_side_def mouse_side_def)
  qed
next
  case Locking
  assume "cm_inv g" and "catmouselock True g = Some g'"
  then show ?thesis using Locking born_main [of Locking "animals g" AsleepDone] by (clarsimp simp: catmouselock_def cm_inv_def cat_side_def mouse_side_def)
next
  case AwakeDone
  assume "cm_inv g" and "catmouselock True g = Some g'"
  then show ?thesis using AwakeDone born_main [of AwakeDone "animals g" Returned] by (clarsimp simp: catmouselock_def cm_inv_def cat_side_def mouse_side_def)
qed (simp_all add: catmouselock_def)

lemma init_inv: "cm_inv catmouse_global_init"
  by (simp add: cm_inv_def catmouse_global_init_def clear_turn_counters_def cat_side_def mouse_side_def side_ok_def cnt_def
      dishes_ok_def born_ok_def NFOODBOWLS_def)

lemma step_inv: "cm_step g g' \<Longrightarrow> cm_inv g \<Longrightarrow> cm_inv g'"
proof (induction rule: cm_step.induct)
  case (cat i g w g')
  then show ?case using cat_step [of g i w] by auto
next
  case (mouse i g w g')
  then show ?case using mouse_step [of g i w] by auto
qed (rule main_step)

lemma steps_inv: "cm_step\<^sup>*\<^sup>* g g' \<Longrightarrow> cm_inv g \<Longrightarrow> cm_inv g'"
  by (induction rule: rtranclp_induct) (blast intro: step_inv)+

section \<open>Every run ends\<close>

fun weight :: "pc \<Rightarrow> nat" where
  "weight Unborn = 24"
| "weight Start = 23"
| "weight AwakeTurn = 22"
| "weight AwakeDish = 22"
| "weight AsleepTurn = 21"
| "weight AsleepDish = 21"
| "weight (Eating d) = 20"
| "weight Done = 0"

fun main_weight :: "main_pc \<Rightarrow> nat" where
  "main_weight (Forking k) = 12 - k"
| "main_weight Locking = 3"
| "main_weight AwakeDone = 2"
| "main_weight AsleepDone = 1"
| "main_weight Returned = 0"

definition heft :: "(animal \<Rightarrow> pc) \<Rightarrow> nat" where
  "heft f = (\<Sum>a\<leftarrow>cats @ mice. weight (f a))"

definition total :: "guardian \<Rightarrow> nat" where
  "total g = heft (animals g) + main_weight (main g)"

lemma heft_upd: "heft (f(a := p)) + (if a \<in> set (cats @ mice) then weight (f a) else 0) = heft f + (if a \<in> set (cats @ mice) then weight p else 0)"
proof -
  have "distinct as \<Longrightarrow> (\<Sum>b\<leftarrow>as. weight ((f(a := p)) b)) + (if a \<in> set as then weight (f a) else 0) =
      (\<Sum>b\<leftarrow>as. weight (f b)) + (if a \<in> set as then weight p else 0)" for as
    by (induction as) auto
  moreover have "distinct (cats @ mice)" using kinds(1,2) by (auto simp: kinds(7,8))
  ultimately show ?thesis unfolding heft_def by blast
qed

lemma heft_wake: "heft (wake K f) \<le> heft f + 8"
proof -
  have "(\<Sum>a\<leftarrow>as. weight (wake K f a)) \<le> (\<Sum>a\<leftarrow>as. weight (f a)) + length as" for as
    by (induction as) (auto simp: wake_def)
  from this [of "cats @ mice"] show ?thesis by (simp add: heft_def cats_def mice_def NCATS_def NMICE_def)
qed

text \<open>An animal that does not leave moves itself only, and gets lighter.\<close>

definition settles :: "animal \<Rightarrow> guardian \<Rightarrow> guardian \<Rightarrow> bool" where
  "settles a g g' \<longleftrightarrow> main g' = main g \<and> (\<exists>p. animals g' = (animals g)(a := p) \<and> weight p \<le> 21)"

lemma dish_loop_settles: "dish_loop a c g = Some g' \<Longrightarrow> settles a g g'"
  by (auto simp: dish_loop_def settles_def at_pc_def Let_def split: if_splits)

lemma turn_settles: "cat_turn_loop a g = Some g' \<Longrightarrow> settles a g g'" "mouse_turn_loop a g = Some g' \<Longrightarrow> settles a g g'"
  "petition_guardian a c g = Some g' \<Longrightarrow> settles a g g'"
  by (auto simp: cat_turn_loop_def mouse_turn_loop_def petition_guardian_def cat_turn_logic_def mouse_turn_logic_def kern_simps Let_def
      dest!: dish_loop_settles split: if_splits) (auto simp: settles_def at_pc_def)

lemma settles_total:
  assumes "settles a g g'" and "a \<in> set (cats @ mice)" and "21 < weight (animals g a)"
  shows "total g' < total g"
proof -
  obtain p where p: "main g' = main g" "animals g' = (animals g)(a := p)" "weight p \<le> 21" using assms(1) by (auto simp: settles_def)
  then show ?thesis using heft_upd [of "animals g" a p] assms(2,3) by (simp add: total_def)
qed

lemma leaves_total:
  assumes "return_dish_to_guardian w c d (at_pc a Done g) = Some g'" and "a \<in> set (cats @ mice)" and "animals g a = Eating e"
  shows "total g' < total g"
proof -
  let ?g = "at_pc a Done g\<lparr>dishes := (dishes g)[d := 0]\<rparr>"
  let ?h = "if c = CAT_CODE then cat_end_turn_logic ?g else mouse_end_turn_logic ?g"
  have "heft (animals ?h) \<le> heft (animals ?g) + 8"
    using heft_wake [of _ "animals ?g"]
    by (simp add: cat_end_turn_logic_def mouse_end_turn_logic_def clear_turn_counters_def broadcast_wake Let_def)
  moreover have "heft (animals (signal_empty_dish w ?h)) \<le> heft (animals ?h) + 1"
    using heft_upd [of "animals ?h" w AwakeDish] by (auto simp: signal_empty_dish_def at_pc_def split: if_splits)
  moreover have "animals g' = animals (signal_empty_dish w ?h)" "main_weight (main g') \<le> main_weight (main g) + 1"
    using assms(1) by (auto simp: return_dish_to_guardian_def check_finished_def signal_all_done_def signal_empty_dish_def at_pc_def kern_simps Let_def split: if_splits)
  moreover have "heft (animals ?g) + 20 = heft (animals g)" using heft_upd [of "animals g" a Done] assms(2,3) by (auto simp: at_pc_def)
  ultimately show ?thesis by (simp add: total_def)
qed

lemma step_total: "cm_step g g' \<Longrightarrow> cm_inv g \<Longrightarrow> total g' < total g"
proof (induction rule: cm_step.induct)
  case (cat i g w g')
  have "Cat i \<in> set (cats @ mice)" using cat(1) by (simp add: kinds)
  with cat no_dish_sleep [OF cat(5), of "Cat i"] show ?case
    by (auto simp: catlock_def runs_def Let_def split: pc.splits elim!: leaves_total dest!: turn_settles settles_total)
next
  case (mouse i g w g')
  have "Mouse i \<in> set (cats @ mice)" using mouse(1) by (simp add: kinds)
  with mouse no_dish_sleep [OF mouse(5), of "Mouse i"] show ?case
    by (auto simp: mouselock_def runs_def Let_def split: pc.splits elim!: leaves_total dest!: turn_settles settles_total)
next
  case (main g g')
  show ?case
  proof (cases "main g")
    case (Forking k)
    then have "animals g (Cat k) = Unborn \<or> \<not> k < NCATS" "animals g (Mouse (k - NCATS)) = Unborn \<or> \<not> (NCATS \<le> k \<and> k < NCATS + NMICE)" "k \<le> 8"
      using main(2) by (auto simp: cm_inv_def born_ok_def kinds NCATS_def NMICE_def)
    then show ?thesis using main(1) Forking heft_upd [of "animals g" "Cat k" Start] heft_upd [of "animals g" "Mouse (k - NCATS)" Start]
      by (auto simp: catmouselock_def total_def at_pc_def kinds NCATS_def NMICE_def split: if_splits)
  qed (use main(1) in \<open>auto simp: catmouselock_def total_def\<close>)
qed

lemma side_alive: "side_ok c as adm left wait dn c f \<Longrightarrow> 0 < cnt eats as f + cnt ((=) AwakeTurn) as f"
  using cnt_nonneg [of eats as f] cnt_nonneg [of "(=) AwakeTurn" as f] by (auto simp: side_ok_def simp del: cnt_nonneg)

lemma side_quiet: "side_ok c as adm left wait dn 0 f \<Longrightarrow> cnt ((=) AsleepTurn) as f = 0"
  using cnt_nonneg [of "(=) AsleepTurn" as f] cnt_nonneg [of "(=) AwakeTurn" as f] by (auto simp: side_ok_def simp del: cnt_nonneg)

text \<open>When nothing can run any more, every animal has eaten.\<close>

lemma stuck_done:
  assumes inv: "cm_inv g" and s: "\<And>g'. \<not> cm_step g g'"
  shows "(\<forall>a\<in>set (cats @ mice). animals g a = Done) \<and> main g \<in> {AsleepDone, Returned}"
proof -
  have w: "wakes w g" for w using no_dish_sleep [OF inv] by (simp add: wakes_def)
  have "\<not> runs (animals g (Cat i))" if "i < NCATS" for i using cat_step [OF inv that, where w = "Cat 0"] cm_step.cat [OF that _ w] s by blast
  moreover have "\<not> runs (animals g (Mouse i))" if "i < NMICE" for i using mouse_step [OF inv that, where w = "Cat 0"] cm_step.mouse [OF that _ w] s by blast
  ultimately have r: "\<not> runs (animals g a)" if "a \<in> set (cats @ mice)" for a using that by (auto simp: kinds(7,8))
  have "catmouselock True g = None" using cm_step.main [of g] s by fastforce
  then have m: "main g \<in> {AsleepDone, Returned}" by (auto simp: catmouselock_def split: main_pc.splits if_splits)
  then have ub: "animals g a \<noteq> Unborn" if "a \<in> set (cats @ mice)" for a using inv that by (auto simp: cm_inv_def born_ok_def)
  have e: "\<not> eats (animals g a) \<and> AwakeTurn \<noteq> animals g a" if "a \<in> set (cats @ mice)" for a using r [OF that] by (auto simp: runs_def elim!: eats.elims)
  have z: "cnt eats cats (animals g) = 0" "cnt eats mice (animals g) = 0" "cnt ((=) AwakeTurn) cats (animals g) = 0" "cnt ((=) AwakeTurn) mice (animals g) = 0"
    using e by (simp_all add: cnt_def filter_empty_conv)
  have C: "cat_side g" "mouse_side g" "whos_turn g \<in> {0, CAT_CODE, MOUSE_CODE}" using inv by (simp_all add: cm_inv_def)
  have "whos_turn g \<noteq> CAT_CODE" using C(1) z side_alive [of CAT_CODE cats] unfolding cat_side_def by fastforce
  moreover have "whos_turn g \<noteq> MOUSE_CODE" using C(2) z side_alive [of MOUSE_CODE mice] unfolding mouse_side_def by fastforce
  ultimately have "whos_turn g = 0" using C(3) by simp
  then have "cnt ((=) AsleepTurn) cats (animals g) = 0" "cnt ((=) AsleepTurn) mice (animals g) = 0"
    using C(1,2) by (simp_all add: cat_side_def mouse_side_def side_quiet)
  then have "animals g a = Done" if "a \<in> set (cats @ mice)" for a
    using that r [OF that] ub [OF that] no_dish_sleep [OF inv, of a] by (auto simp: runs_def dest: cnt_none)
  then show ?thesis using m by blast
qed

lemma kinds_apart: "cm_inv g \<Longrightarrow> \<not> (eats (animals g (Cat i)) \<and> eats (animals g (Mouse j)))"
proof
  assume inv: "cm_inv g" and e: "eats (animals g (Cat i)) \<and> eats (animals g (Mouse j))"
  have "animals g (Cat i) \<noteq> Unborn" "animals g (Mouse j) \<noteq> Unborn" using e by auto
  moreover have "born_ok (main g) (animals g)" using inv by (simp add: cm_inv_def)
  ultimately have "Cat i \<in> set cats" "Mouse j \<in> set mice" using born_member [of "main g" "animals g" "Cat i"] born_member [of "main g" "animals g" "Mouse j"]
    by (auto simp: kinds(5,6))
  then have "1 \<le> cnt eats cats (animals g)" "1 \<le> cnt eats mice (animals g)" using e by (blast intro: cnt_one)+
  moreover have C: "cat_side g" "mouse_side g" using inv by (simp_all add: cm_inv_def)
  ultimately have "whos_turn g = CAT_CODE \<and> whos_turn g = MOUSE_CODE"
    using sideD(5) [OF C(1) [unfolded cat_side_def]] sideD(5) [OF C(2) [unfolded mouse_side_def]] by linarith
  then show False by (auto simp: codes)
qed

section \<open>Properties\<close>

text \<open>C32. Cats and mice are kept apart: in every state that \<^verbatim>\<open>catmouselock\<close> and its threads can reach no cat eats while a mouse eats,
  no two animals eat from the same dish, and no assertion fails whichever thread runs next. When the thread of
  \<^verbatim>\<open>catmouselock\<close> is woken to free the lock and the dishes, all animals have finished.\<close>

theorem cats_mice_apart:
  assumes "cm_step\<^sup>*\<^sup>* catmouse_global_init g"
  shows "\<not> (animals g (Cat i) = Eating d \<and> animals g (Mouse j) = Eating e) \<and>
    (animals g a = Eating d \<and> animals g b = Eating d \<longrightarrow> a = b \<and> d < NFOODBOWLS) \<and>
    (k < NCATS \<and> runs (animals g (Cat k)) \<longrightarrow> catlock w k g \<noteq> None) \<and>
    (k < NMICE \<and> runs (animals g (Mouse k)) \<longrightarrow> mouselock w k g \<noteq> None) \<and>
    (main g \<in> {AwakeDone, Returned} \<longrightarrow> (\<forall>a\<in>set (cats @ mice). animals g a = Done))"
proof -
  have inv: "cm_inv g" by (rule steps_inv [OF assms init_inv])
  have "\<not> (eats (animals g (Cat i)) \<and> eats (animals g (Mouse j)))" by (rule kinds_apart [OF inv])
  then have "\<not> (animals g (Cat i) = Eating d \<and> animals g (Mouse j) = Eating e)" by auto
  moreover have "animals g a = Eating d \<and> animals g b = Eating d \<longrightarrow> a = b \<and> d < NFOODBOWLS"
    using inv by (auto simp: cm_inv_def dishes_ok_def NFOODBOWLS_def)
  ultimately show ?thesis using cat_step [OF inv, of k w] mouse_step [OF inv, of k w] all_done [OF inv] by auto
qed

text \<open>A schedule names the thread that runs in each step.\<close>

datatype who = A animal | M

definition cm_run1 :: "who \<Rightarrow> guardian \<Rightarrow> guardian option" where
  "cm_run1 t g =
     (case t of
        A (Cat i) \<Rightarrow> if i < NCATS \<and> runs (animals g (Cat i)) then catlock (Cat 0) i g else None
      | A (Mouse i) \<Rightarrow> if i < NMICE \<and> runs (animals g (Mouse i)) then mouselock (Cat 0) i g else None
      | M \<Rightarrow> catmouselock True g)"

primrec cm_run :: "who list \<Rightarrow> guardian \<Rightarrow> guardian option" where
  "cm_run [] g = Some g"
| "cm_run (t # ts) g = do { g \<leftarrow> cm_run1 t g; cm_run ts g }"

lemma cm_run1_step: "cm_inv g \<Longrightarrow> cm_run1 t g = Some g' \<Longrightarrow> cm_step g g'"
  using no_dish_sleep [of g] by (auto simp: cm_run1_def wakes_def split: who.splits animal.splits if_splits intro: cm_step.intros)

lemma cm_run_steps: "cm_inv g \<Longrightarrow> cm_run ts g = Some g' \<Longrightarrow> cm_step\<^sup>*\<^sup>* g g'"
proof (induction ts arbitrary: g)
  case (Cons t ts)
  then obtain g1 where g1: "cm_run1 t g = Some g1" "cm_run ts g1 = Some g'" by (auto simp: kern_simps)
  then have s: "cm_step g g1" by (intro cm_run1_step [OF Cons.prems(1)])
  show ?case by (rule converse_rtranclp_into_rtranclp [OF s Cons.IH [OF step_inv [OF s Cons.prems(1)] g1(2)]])
qed simp

lemma run_total: "(cm_step ^^ n) g g' \<Longrightarrow> cm_inv g \<Longrightarrow> n + total g' \<le> total g \<and> cm_inv g'"
proof (induction n arbitrary: g')
  case (Suc n)
  then obtain h where h: "(cm_step ^^ n) g h" "cm_step h g'" by auto
  with Suc.IH [OF h(1) Suc.prems(2)] step_total [OF h(2)] step_inv [OF h(2)] show ?case by auto
qed simp

text \<open>Two cats sit down, and a mouse has to wait.\<close>

definition ex_sched :: "who list" where
  "ex_sched = replicate 9 M @ map A [Cat 0, Cat 1, Mouse 0]"

lemma ex_sched_runs: "map_option (\<lambda>g. map (animals g) [Cat 0, Cat 1, Mouse 0]) (cm_run ex_sched catmouse_global_init) = Some [Eating 0, Eating 1, AsleepTurn]"
  by code_simp

theorem cats_mice_apart_witness:
  "\<exists>g. cm_step\<^sup>*\<^sup>* catmouse_global_init g \<and> animals g (Cat 1) = Eating 1 \<and> animals g (Mouse 1) \<noteq> Eating 0 \<and> catlock (Cat 0) 1 g \<noteq> None"
proof -
  obtain g where g: "cm_run ex_sched catmouse_global_init = Some g" "animals g (Cat 1) = Eating 1" using ex_sched_runs by auto
  have r: "cm_step\<^sup>*\<^sup>* catmouse_global_init g" by (rule cm_run_steps [OF init_inv g(1)])
  from cats_mice_apart [OF r, of 1 1 1 0 "Cat 0" "Cat 0" 1 "Cat 0"] r g(2) show ?thesis by (auto simp: runs_def NCATS_def)
qed

text \<open>C33. The animals always finish: a run of \<^verbatim>\<open>catmouselock\<close> and its threads has at most 204 steps, however they are scheduled, and
  when no thread can run any more every cat and every mouse has eaten; the thread of \<^verbatim>\<open>catmouselock\<close> has then returned,
  or it sleeps on \<^verbatim>\<open>all_done\<close>.\<close>

theorem all_animals_eat:
  assumes "(cm_step ^^ n) catmouse_global_init g"
  shows "n \<le> 204 \<and> ((\<nexists>g'. cm_step g g') \<longrightarrow> (\<forall>a\<in>set (cats @ mice). animals g a = Done) \<and> main g \<in> {AsleepDone, Returned})"
proof -
  have "total catmouse_global_init = 204"
    by (simp add: total_def heft_def catmouse_global_init_def clear_turn_counters_def cats_def mice_def NCATS_def NMICE_def map_replicate_const sum_list_replicate)
  then show ?thesis using run_total [OF assms init_inv] stuck_done [of g] by auto
qed

text \<open>Each animal eats alone; the other thread is asleep on \<^verbatim>\<open>all_done\<close> in the first schedule, and not yet in the second.\<close>

definition one_by_one :: "who list" where
  "one_by_one = concat (map (\<lambda>a. [A a, A a]) [Cat 0, Cat 1, Cat 2, Cat 3, Cat 4, Cat 5, Mouse 0, Mouse 1])"

definition good_sched :: "who list" where
  "good_sched = replicate 10 M @ one_by_one @ [M]"

definition bad_sched :: "who list" where
  "bad_sched = replicate 9 M @ one_by_one @ [M]"

lemma good_sched_runs: "map_option main (cm_run good_sched catmouse_global_init) = Some Returned"
  by code_simp

lemma bad_sched_runs: "map_option (\<lambda>g. (main g, map (animals g) [Cat 0, Cat 1, Cat 2, Cat 3, Cat 4, Cat 5, Mouse 0, Mouse 1])) (cm_run bad_sched catmouse_global_init) =
    Some (AsleepDone, replicate 8 Done)"
  by code_simp

lemma all_animals: "set (cats @ mice) = {Cat 0, Cat 1, Cat 2, Cat 3, Cat 4, Cat 5, Mouse 0, Mouse 1}"
  by (simp add: cats_def mice_def NCATS_def NMICE_def numeral_eq_Suc insert_commute)

lemma asleep_stuck: "\<forall>a\<in>set (cats @ mice). animals g a = Done \<Longrightarrow> main g \<in> {AsleepDone, Returned} \<Longrightarrow> \<not> cm_step g g'"
  by (auto simp: kinds runs_def catmouselock_def elim!: cm_step.cases)

theorem all_animals_eat_witness:
  "\<exists>n g. (cm_step ^^ n) catmouse_global_init g \<and> n \<le> 204 \<and> main g = Returned \<and> animals g (Cat 3) = Done"
proof -
  obtain g where g: "cm_run good_sched catmouse_global_init = Some g" "main g = Returned" using good_sched_runs by auto
  have r: "cm_step\<^sup>*\<^sup>* catmouse_global_init g" by (rule cm_run_steps [OF init_inv g(1)])
  then obtain n where n: "(cm_step ^^ n) catmouse_global_init g" using rtranclp_imp_relpowp by metis
  have "\<not> cm_step g g'" for g' by (rule asleep_stuck) (use all_done [OF steps_inv [OF r init_inv]] g(2) in simp_all)
  moreover have "Cat 3 \<in> set (cats @ mice)" by (simp add: kinds(7) NCATS_def)
  ultimately have "n \<le> 204" "animals g (Cat 3) = Done" using all_animals_eat [OF n] by blast+
  then show ?thesis using n g(2) by blast
qed

text \<open>C34. The wakeup of \<^verbatim>\<open>catmouselock\<close> can be lost: there is a run in which the last animal signals \<^verbatim>\<open>all_done\<close> before \<^verbatim>\<open>catmouselock\<close>
  waits on it. All animals have finished, the thread sleeps, and nothing can run any more.\<close>

theorem catmouselock_sleeps_forever:
  "\<exists>g. cm_step\<^sup>*\<^sup>* catmouse_global_init g \<and> list_all (\<lambda>a. animals g a = Done) (cats @ mice) \<and> main g = AsleepDone \<and> (\<nexists>g'. cm_step g g')"
proof -
  obtain g where g: "cm_run bad_sched catmouse_global_init = Some g" "main g = AsleepDone"
      "map (animals g) [Cat 0, Cat 1, Cat 2, Cat 3, Cat 4, Cat 5, Mouse 0, Mouse 1] = replicate 8 Done"
    using bad_sched_runs by auto
  have d: "\<forall>a\<in>set (cats @ mice). animals g a = Done" using g(3) unfolding all_animals by (simp add: numeral_eq_Suc)
  show ?thesis using cm_run_steps [OF init_inv g(1)] d g(2) asleep_stuck [OF d] by (auto simp: list_all_iff)
qed

end
