(* ===== verification/Catsem.thy ===== *)
theory Catsem
  imports Prelude
begin

text \<open>
  \<^verbatim>\<open>src/src/kern/asst1/catsem.c\<close>: cats and mice that share two dishes, with semaphores.

  One step of the model is what a thread does from one \<^verbatim>\<open>P\<close> to the next, with the \<^verbatim>\<open>V\<close>s in between, which never block; \<open>ready\<close> says whether
  that first \<^verbatim>\<open>P\<close> goes through. What runs between \<^verbatim>\<open>P(vars_mutex)\<close> and \<^verbatim>\<open>V(vars_mutex)\<close> does not block, so that this semaphore is free
  between the steps and has no field. A failed assertion is a panic. The names of \<^verbatim>\<open>catlock.c\<close> that \<^verbatim>\<open>catsem.c\<close> has too are declared
  anew here, as they are in the code. \<^verbatim>\<open>catmouse_global_free\<close> is not modelled.
\<close>

section \<open>The code\<close>

definition NCATS :: nat where "NCATS = 6"
definition NMICE :: nat where "NMICE = 2"
definition DISH1 :: int where "DISH1 = 1"
definition DISH2 :: int where "DISH2 = 2"
definition CAT_CODE :: int where "CAT_CODE = 1"
definition MOUSE_CODE :: int where "MOUSE_CODE = 2"

datatype sem_thread = Cat nat | Mouse nat | Driver

datatype sem_pc = Unborn | Enter | Turn | Wait_turn | Take_turn | Claim | Feeding int | Release_turn | Finish | Gone

datatype driver_pc = Forking nat | Wait_done | Returned

record catsem_state =
  turn :: int
  dishes_in_use :: int
  cats_done :: int
  mice_done :: int
  cats_gone :: int
  mice_gone :: int
  turn_mutex :: nat
  all_done :: nat
  cat_sem :: nat
  mouse_sem :: nat
  pcs :: "sem_thread \<Rightarrow> sem_pc"
  driver :: driver_pc

definition sem_global_init :: catsem_state where
  "sem_global_init = \<lparr>turn = 0, dishes_in_use = 0, cats_done = 0, mice_done = 0, cats_gone = 0, mice_gone = 0,
     turn_mutex = 1, all_done = 0, cat_sem = 2, mouse_sem = 2, pcs = (\<lambda>_. Unborn), driver = Forking 0\<rparr>"

definition release_dish :: "int \<Rightarrow> int \<Rightarrow> catsem_state \<Rightarrow> catsem_state" where
  "release_dish my_dish cat_or_mouse s = s\<lparr>dishes_in_use := dishes_in_use s AND NOT my_dish\<rparr>"

definition claim_dish :: "int \<Rightarrow> catsem_state \<Rightarrow> (int \<times> catsem_state) kern" where
  "claim_dish animal_code s =
     do {
       kassert (dishes_in_use s \<noteq> DISH1 OR DISH2);
       let my_dish = (if dishes_in_use s AND DISH1 = 0 then DISH1 else DISH2);
       let s = (if animal_code = CAT_CODE then s\<lparr>cats_gone := cats_gone s + 1\<rparr> else s);
       let s = (if animal_code = MOUSE_CODE then s\<lparr>mice_gone := mice_gone s + 1\<rparr> else s);
       let s = s\<lparr>dishes_in_use := dishes_in_use s OR my_dish\<rparr>;
       Some (my_dish,
         if animal_code = CAT_CODE \<and> (cmod (cats_gone s) 3 = 0 \<or> cats_gone s = int NCATS) then s\<lparr>turn := 2\<rparr>
         else if animal_code = MOUSE_CODE \<and> (cmod (mice_gone s) 3 = 0 \<or> mice_gone s = int NMICE) then s\<lparr>turn := 1\<rparr>
         else s)
     }"

definition is_my_turn :: "int \<Rightarrow> catsem_state \<Rightarrow> bool" where
  "is_my_turn animal_code s \<longleftrightarrow> animal_code = turn s"

text \<open>\<^verbatim>\<open>wait_turn\<close> after \<^verbatim>\<open>P(turn_mutex)\<close>.\<close>

definition take_turn :: "int \<Rightarrow> catsem_state \<Rightarrow> catsem_state kern" where
  "take_turn animal_code s = do { kassert (turn s = 0); Some (s\<lparr>turn := animal_code\<rparr>) }"

definition try_release_turn :: "catsem_state \<Rightarrow> catsem_state" where
  "try_release_turn s = (if dishes_in_use s = 0 then s\<lparr>turn := 0, turn_mutex := turn_mutex s + 1\<rparr> else s)"

definition sem_check_finished :: "int \<Rightarrow> catsem_state \<Rightarrow> catsem_state kern" where
  "sem_check_finished cat_or_mouse s =
     do {
       s \<leftarrow> (if cat_or_mouse = CAT_CODE then Some (s\<lparr>cats_done := cats_done s + 1\<rparr>)
             else if cat_or_mouse = MOUSE_CODE then Some (s\<lparr>mice_done := mice_done s + 1\<rparr>) else None);
       Some (if cats_done s = int NCATS \<and> mice_done s = int NMICE then s\<lparr>all_done := all_done s + 1\<rparr> else s)
     }"

definition goes :: "sem_thread \<Rightarrow> sem_pc \<Rightarrow> catsem_state \<Rightarrow> catsem_state" where
  "goes a p s = s\<lparr>pcs := (pcs s)(a := p)\<rparr>"

text \<open>One step of \<^verbatim>\<open>catsem\<close> and of \<^verbatim>\<open>mousesem\<close>.\<close>

definition catsem :: "nat \<Rightarrow> catsem_state \<Rightarrow> catsem_state kern" where
  "catsem catnumber s =
     (let a = Cat catnumber in
      case pcs s a of
        Enter \<Rightarrow> Some (goes a Turn (s\<lparr>cat_sem := cat_sem s - 1\<rparr>))
      | Turn \<Rightarrow> Some (goes a (if is_my_turn CAT_CODE s then Claim else Wait_turn) s)
      | Wait_turn \<Rightarrow> Some (goes a Take_turn (s\<lparr>turn_mutex := turn_mutex s - 1\<rparr>))
      | Take_turn \<Rightarrow> do { s \<leftarrow> take_turn CAT_CODE s; Some (goes a Turn s) }
      | Claim \<Rightarrow> do { (my_dish, s) \<leftarrow> claim_dish CAT_CODE s; Some (goes a (Feeding my_dish) s) }
      | Feeding my_dish \<Rightarrow> Some (goes a Release_turn (release_dish my_dish CAT_CODE s))
      | Release_turn \<Rightarrow> (let s = try_release_turn s in Some (goes a Finish (s\<lparr>cat_sem := cat_sem s + 1\<rparr>)))
      | Finish \<Rightarrow> do { s \<leftarrow> sem_check_finished CAT_CODE s; Some (goes a Gone s) }
      | _ \<Rightarrow> None)"

definition mousesem :: "nat \<Rightarrow> catsem_state \<Rightarrow> catsem_state kern" where
  "mousesem mousenumber s =
     (let a = Mouse mousenumber in
      case pcs s a of
        Enter \<Rightarrow> Some (goes a Turn (s\<lparr>mouse_sem := mouse_sem s - 1\<rparr>))
      | Turn \<Rightarrow> Some (goes a (if is_my_turn MOUSE_CODE s then Claim else Wait_turn) s)
      | Wait_turn \<Rightarrow> Some (goes a Take_turn (s\<lparr>turn_mutex := turn_mutex s - 1\<rparr>))
      | Take_turn \<Rightarrow> do { s \<leftarrow> take_turn MOUSE_CODE s; Some (goes a Turn s) }
      | Claim \<Rightarrow> do { (my_dish, s) \<leftarrow> claim_dish MOUSE_CODE s; Some (goes a (Feeding my_dish) s) }
      | Feeding my_dish \<Rightarrow> Some (goes a Release_turn (release_dish my_dish MOUSE_CODE s))
      | Release_turn \<Rightarrow> (let s = try_release_turn s in Some (goes a Finish (s\<lparr>mouse_sem := mouse_sem s + 1\<rparr>)))
      | Finish \<Rightarrow> do { s \<leftarrow> sem_check_finished MOUSE_CODE s; Some (goes a Gone s) }
      | _ \<Rightarrow> None)"

text \<open>\<^verbatim>\<open>catmousesem\<close> after the initialisation, one step of it: a thread for each animal, then the wait.\<close>

definition catmousesem :: "bool \<Rightarrow> catsem_state \<Rightarrow> catsem_state kern" where
  "catmousesem fork_ok s =
     (case driver s of
        Forking k \<Rightarrow>
          if k < NCATS then do { kassert fork_ok; Some (goes (Cat k) Enter (s\<lparr>driver := Forking (k + 1)\<rparr>)) }
          else if k < NCATS + NMICE then do { kassert fork_ok; Some (goes (Mouse (k - NCATS)) Enter (s\<lparr>driver := Forking (k + 1)\<rparr>)) }
          else Some (s\<lparr>driver := Wait_done\<rparr>)
      | Wait_done \<Rightarrow> Some (s\<lparr>all_done := all_done s - 1, driver := Returned\<rparr>)
      | Returned \<Rightarrow> None)"

fun ready :: "sem_thread \<Rightarrow> catsem_state \<Rightarrow> bool" where
  "ready Driver s = (case driver s of Forking k \<Rightarrow> True | Wait_done \<Rightarrow> all_done s > 0 | Returned \<Rightarrow> False)"
| "ready a s =
     (case pcs s a of
        Unborn \<Rightarrow> False
      | Enter \<Rightarrow> (case a of Cat i \<Rightarrow> cat_sem s > 0 | _ \<Rightarrow> mouse_sem s > 0)
      | Wait_turn \<Rightarrow> turn_mutex s > 0
      | Gone \<Rightarrow> False
      | _ \<Rightarrow> True)"

fun sem_step1 :: "sem_thread \<Rightarrow> catsem_state \<Rightarrow> catsem_state kern" where
  "sem_step1 (Cat i) s = catsem i s"
| "sem_step1 (Mouse i) s = mousesem i s"
| "sem_step1 Driver s = catmousesem True s"

inductive sem_step :: "catsem_state \<Rightarrow> catsem_state \<Rightarrow> bool" where
  step: "ready a s \<Longrightarrow> sem_step1 a s = Some s' \<Longrightarrow> sem_step s s'"

section \<open>Schedules\<close>

primrec sem_run :: "sem_thread list \<Rightarrow> catsem_state \<Rightarrow> catsem_state option" where
  "sem_run [] s = Some s"
| "sem_run (a # as) s = (if ready a s then do { s \<leftarrow> sem_step1 a s; sem_run as s } else None)"

lemma sem_run_steps: "sem_run as s = Some s' \<Longrightarrow> sem_step\<^sup>*\<^sup>* s s'"
proof (induction as arbitrary: s)
  case (Cons a as)
  then obtain s1 where "sem_step s s1" "sem_run as s1 = Some s'" by (auto simp: kern_simps split: if_splits intro: sem_step.step)
  with Cons.IH show ?case by (blast intro: converse_rtranclp_into_rtranclp)
qed simp

text \<open>Two cats eat and the first of them leaves; the third cat takes its dish and passes the turn on while it eats.\<close>

definition third_cat :: "sem_thread list" where
  "third_cat = replicate 9 Driver @ replicate 6 (Cat 0) @ replicate 3 (Cat 1) @ replicate 3 (Cat 0) @ replicate 3 (Cat 2) @ replicate 2 (Mouse 0)"

lemma third_cat_runs:
  "map_option (\<lambda>s. (pcs s (Cat 1), pcs s (Cat 2), pcs s (Mouse 0), ready (Mouse 0) s, sem_step1 (Mouse 0) s = None)) (sem_run third_cat sem_global_init) =
     Some (Feeding DISH2, Feeding DISH1, Claim, True, True)"
  by code_simp

lemma mixed_runs:
  "map_option (\<lambda>s. (pcs s (Cat 2), pcs s (Mouse 0))) (sem_run (third_cat @ [Cat 1, Mouse 0]) sem_global_init) = Some (Feeding DISH1, Feeding DISH2)"
  by code_simp

section \<open>Property\<close>

text \<open>C35. The solution with semaphores is wrong: the third cat that claims a dish passes the turn to the mice while it is still eating. There
  is a run in which that cat and a mouse eat at the same time, and one in which both dishes are in use when the mouse
  claims one, so that the assertion of \<^verbatim>\<open>claim_dish\<close> fails.\<close>

theorem catsem_mixes_kinds:
  "(\<exists>s. sem_step\<^sup>*\<^sup>* sem_global_init s \<and> pcs s (Cat 2) = Feeding DISH1 \<and> pcs s (Mouse 0) = Feeding DISH2) \<and>
   (\<exists>s. sem_step\<^sup>*\<^sup>* sem_global_init s \<and> ready (Mouse 0) s \<and> pcs s (Mouse 0) = Claim \<and> mousesem 0 s = None)"
proof -
  obtain s where "sem_run (third_cat @ [Cat 1, Mouse 0]) sem_global_init = Some s" "pcs s (Cat 2) = Feeding DISH1" "pcs s (Mouse 0) = Feeding DISH2"
    using mixed_runs by auto
  moreover obtain s' where "sem_run third_cat sem_global_init = Some s'" "ready (Mouse 0) s'" "pcs s' (Mouse 0) = Claim" "sem_step1 (Mouse 0) s' = None"
    using third_cat_runs by auto
  ultimately show ?thesis using sem_run_steps [of third_cat] sem_run_steps [of "third_cat @ [Cat 1, Mouse 0]"]
    by (metis sem_step1.simps(2))
qed

end
