(* ===== verification/Spec2Isabelle.thy ===== *)
theory Spec2Isabelle
  imports Kernel Sfs_Trunc Printf Dumbvm Vfs_Disk Mksfs Catlock Catsem
begin

text \<open>
  A verification library for OS/161, the teaching kernel in \<^verbatim>\<open>src/src/kern\<close>, with the process table
  (\<^verbatim>\<open>pid_manager.c\<close>) that this repository adds to it, and for the part of the C library (\<^verbatim>\<open>src/src/lib/libc\<close>) that is
  linked into the kernel, the program \<^verbatim>\<open>sbin/mksfs\<close> and two solutions of a synchronisation exercise.

  \<^bold>\<open>The program and its theories.\<close> Paths are below \<^verbatim>\<open>src/src/kern\<close> unless they start with \<^verbatim>\<open>lib/libc\<close> or \<^verbatim>\<open>sbin\<close>.

  \<^item> Shared ground. \<open>Prelude\<close>: error codes, 32-bit arithmetic, panics. \<open>Contracts\<close>: the locales \<open>fifo\<close>, \<open>dynarray\<close> and
    \<open>bit_allocator\<close>, which say what the clients of \<^verbatim>\<open>lib/queue.c\<close>, \<^verbatim>\<open>lib/array.c\<close> and \<^verbatim>\<open>lib/bitmap.c\<close> rely on. \<open>Kqueue\<close>,
    \<open>Karray\<close> and \<open>Kbitmap\<close> model those three files and interpret the contracts.
  \<^item> Threads and processes. \<open>Kstate\<close>: the globals of the thread system in one record. \<open>Threads\<close>: \<^verbatim>\<open>thread/scheduler.c\<close>, the
    context switch and the sleep queue of \<^verbatim>\<open>thread/thread.c\<close>. \<open>Synch\<close>: \<^verbatim>\<open>thread/synch.c\<close> and \<^verbatim>\<open>thread/hardclock.c\<close>.
    \<open>Pid_Manager\<close>: \<^verbatim>\<open>thread/pid_manager.c\<close>. \<open>Process\<close>: \<^verbatim>\<open>thread_fork\<close>, \<^verbatim>\<open>thread_exit\<close>, \<^verbatim>\<open>boot\<close> and the step relation
    \<open>kstep\<close>. \<open>Kernel\<close>: what holds in every reachable state.
  \<^item> Memory. \<open>Ram\<close>: \<^verbatim>\<open>arch/mips/mips/ram.c\<close>. \<open>Kheap\<close>: \<^verbatim>\<open>lib/kheap.c\<close>. \<open>Dumbvm\<close>: \<^verbatim>\<open>arch/mips/mips/dumbvm.c\<close>. \<open>Copyinout\<close>:
    \<^verbatim>\<open>lib/copyinout.c\<close>.
  \<^item> C library. \<open>Libc_Mem\<close>: \<^verbatim>\<open>memcpy.c\<close>, \<^verbatim>\<open>memmove.c\<close>, \<^verbatim>\<open>bzero.c\<close>, \<^verbatim>\<open>memset.c\<close>, \<^verbatim>\<open>memcmp.c\<close>. \<open>Libc_Str\<close>: the string functions
    and \<^verbatim>\<open>atoi.c\<close>. \<open>Printf\<close>: \<^verbatim>\<open>__printf.c\<close> and \<^verbatim>\<open>snprintf.c\<close>.
  \<^item> Disk and file system. \<open>Uio\<close>: \<^verbatim>\<open>userprog/uio.c\<close>. \<open>Lhd\<close>: \<^verbatim>\<open>dev/lamebus/lhd.c\<close>. \<open>Vnode\<close>: \<^verbatim>\<open>fs/vfs/vnode.c\<close>. \<open>Sfs_Layout\<close>:
    \<^verbatim>\<open>include/kern/sfs.h\<close>. \<open>Sfs_Block\<close>, \<open>Sfs_File\<close>, \<open>Sfs_Dir\<close> and \<open>Sfs_Vnode\<close>: \<^verbatim>\<open>fs/sfs/sfs_io.c\<close> and \<^verbatim>\<open>fs/sfs/sfs_vnode.c\<close> in
    the order of the code, with \<open>Sfs_Map\<close> and \<open>Sfs_Trunc\<close> for what block pointers mean. \<open>Sfs_Fs\<close>: \<^verbatim>\<open>fs/sfs/sfs_fs.c\<close>.
    \<open>Sfs_Super\<close>: the superblock in memory never changes.
  \<^item> Virtual file system. \<open>Device\<close>: \<^verbatim>\<open>fs/vfs/device.c\<close> and \<^verbatim>\<open>devnull.c\<close>. \<open>Vfs\<close>: \<^verbatim>\<open>vfslist.c\<close>, \<^verbatim>\<open>vfslookup.c\<close>, \<^verbatim>\<open>vfscwd.c\<close> and
    \<^verbatim>\<open>vfspath.c\<close> over a table of function pointers. \<open>Vfs_Disk\<close>: the table the kernel has, with devices and an SFS volume.
  \<^item> Outside the kernel proper. \<open>Mksfs\<close>: \<^verbatim>\<open>sbin/mksfs/mksfs.c\<close> and the writing half of \<^verbatim>\<open>sbin/mksfs/disk.c\<close>. \<open>Catlock\<close> and \<open>Catsem\<close>:
    \<^verbatim>\<open>asst1/catlock.c\<close> and \<^verbatim>\<open>asst1/catsem.c\<close>, each as a step relation of its own. They take locks, condition variables and
    semaphores as atomic operations and do not build on \<open>Synch\<close>.

  \<^bold>\<open>How code becomes definitions.\<close> A C function is a function of the state it reads and writes; \<open>'a kern\<close> is an option in which
  \<open>None\<close> is a panic, a failed assertion or an access that C leaves undefined. Error codes are values of \<open>errno\<close>. The result of an
  allocation is an argument: the theorems hold however the allocations turn out. Machine integers are words, or integers with the
  reduction to 32 bits written out (\<open>s32\<close>) where the code uses \<^verbatim>\<open>int\<close>. A record extends another where a layer adds fields to what is
  below it: \<open>machine\<close>, \<open>lhd\<close>, \<open>sfs_fs\<close> for the disk, and \<open>ram\<close>, \<open>kheap\<close>, \<open>vm\<close> for the memory. A function of a lower layer works on
  every extension of its record, which is why it cannot touch the fields above.

  \<^bold>\<open>Threads.\<close> The machine has one processor. A thread that gives it up keeps the rest of its calls as a list of frames, and \<open>kstep\<close>
  lets the running thread make a call, return into its topmost frame, or be interrupted by the clock. So the steps are the
  interleavings of the kernel at the points where interrupts are enabled.

  \<^bold>\<open>Loops.\<close> A loop over a list or a count is structural recursion. The loops whose end depends on the state are
  \<open>partial_function (option)\<close>, and their termination is part of what is proved: the search for a free pid (\<open>scan_free_first\<close>), the
  wakeup of sleepers (\<open>thread_wakeup_exact\<close>), the exit of a process (\<open>exit_locked_completes\<close>). The ten attempts of \<^verbatim>\<open>sfs_rwblock\<close> are
  the fuel of \<open>sfs_retry\<close>, as in the code. The runs of \<open>Catlock\<close> have at most 204 steps, the weight of its first state.

  \<^bold>\<open>What the lemmas show.\<close>
  \<^item> \<open>Kernel\<close>: in every reachable state each thread is on exactly one list, no wakeup is lost, a lock has one holder until that
    holder releases it, and live processes have distinct pids with a block of their own. The operations that create, wake
    and end threads are characterised on all branches. Two traces show what happens when the first process exits or waits.
  \<^item> \<open>Sfs_File\<close>, \<open>Sfs_Dir\<close>, \<open>Sfs_Trunc\<close>, \<open>Sfs_Fs\<close>: reads and writes refine those of a byte string, a directory refines a finite map,
    writes to one file leave the others alone, truncation frees exactly the blocks it cuts off, and what is synced is there
    after the next mount. \<open>Sfs_Block\<close> has the error paths: failed disk operations are retried, and what a failed write does.
  \<^item> \<open>Kheap\<close>, \<open>Dumbvm\<close>, \<open>Copyinout\<close>: blocks handed out are apart from each other and from everything in use; a copied address space has
    the same contents in other frames; the kernel writes only where the user may.
  \<^item> \<open>Libc_Mem\<close>, \<open>Printf\<close>: overlapping copies, output that fits its buffer, and printing a number and reading it back.
  \<^item> \<open>Vfs_Disk\<close>: every name stands for at most one device or volume through any sequence of operations.
  \<^item> \<open>Mksfs\<close>: what the program writes is an empty volume that the kernel mounts.
  \<^item> \<open>Catlock\<close>: cats and mice never eat together, no assertion fails, and all of them eat; one run shows that the thread that started
    them can sleep forever. \<open>Catsem\<close>: two runs show that a cat and a mouse can eat together and that an assertion can fail.

  \<^bold>\<open>Not modelled.\<close>
  \<^item> Assembly (\<^verbatim>\<open>exception.S\<close>, \<^verbatim>\<open>start.S\<close>, \<^verbatim>\<open>switch.S\<close>, \<^verbatim>\<open>tlb_mips1.S\<close>): its effect is part of the definitions that call it.
  \<^item> The bus and the drivers of the other LAMEbus devices: they are register accesses whose effect is that of the device.
  \<^item> The generic devices, traps and system calls, the loading of programs, and the rest of the C library: code that could be modelled in
    the same way and has not been so far.
  \<^item> The menu, the in-kernel tests, the programs of user space except \<^verbatim>\<open>mksfs\<close>, and \<^verbatim>\<open>asst1/stoplight.c\<close>, whose functions have no bodies.
  \<^item> Two threads inside the file system at once: SFS and VFS are modelled with one thread in the layer until its call returns, and
    nothing is shown about interleavings there.
  \<^item> Allocation failures and \<^verbatim>\<open>catmouse_global_free\<close> in \<^verbatim>\<open>asst1\<close>.
\<close>

end
